(* ===== verification/Exav_Prelude.thy ===== *)
theory Exav_Prelude
  imports Main "HOL-Library.Word"
begin

text \<open>
  Shared vocabulary of the development: the machine integer types of the Rust sources, the
  arithmetic that the release profile checks (\<^verbatim>\<open>overflow-checks = true\<close> in \<^verbatim>\<open>Cargo.toml\<close>
  turns every overflow into a panic), the saturating operations, little-endian byte
  encodings, and generic lemmas on lists and words used by every component.

  A panic is the value \<open>None\<close> of a function whose result type is an option; a Rust
  \<^verbatim>\<open>Option\<close> or \<^verbatim>\<open>Result\<close> is an option or a sum of its own.
\<close>

unbundle bit_operations_syntax

type_synonym u8 = "8 word"
type_synonym u16 = "16 word"
type_synonym u32 = "32 word"
type_synonym u64 = "64 word"
type_synonym bytes = "u8 list"

named_theorems byte_simps \<open>little-endian encoders and decoders\<close>

abbreviation u32_max :: u32 where "u32_max \<equiv> 0xFFFFFFFF"

lemma unat_bound [simp]: "unat x < 2 ^ LENGTH('a)" for x :: "'a::len word"
  by (rule unsigned_less)

lemma unat_minus_1: "unat (- 1 :: 'a::len word) = 2 ^ LENGTH('a) - 1"
  by (simp add: unsigned_minus_1_eq_mask mask_eq_exp_minus_1)

lemma word_less_pos: "a < b \<Longrightarrow> 0 < b" for a b :: "'a::len word"
  by (simp add: word_less_nat_alt)

section \<open>Checked and saturating arithmetic\<close>

text \<open>The \<open>+\<close> of the release profile: \<open>None\<close> is the overflow panic.\<close>

definition add_chk :: "'a::len word \<Rightarrow> 'a word \<Rightarrow> 'a word option" where
  "add_chk a b = (if unat a + unat b < 2 ^ LENGTH('a) then Some (a + b) else None)"

lemma add_chk_Some:
  "add_chk a b = Some c \<Longrightarrow> unat c = unat a + unat b"
  for a :: "'a::len word"
  by (auto simp: add_chk_def unat_word_ariths split: if_splits)

lemma add_chk_fits:
  "unat a + unat b < 2 ^ LENGTH('a) \<Longrightarrow> \<exists>c. add_chk a b = Some c \<and> unat c = unat a + unat b"
  for a :: "'a::len word"
  by (auto simp: add_chk_def unat_word_ariths)

text \<open>\<^verbatim>\<open>Iterator::sum\<close> on an unsigned type, left to right with the overflow panic.\<close>

fun sum_chk_from :: "'a::len word \<Rightarrow> 'a word list \<Rightarrow> 'a word option" where
  "sum_chk_from a [] = Some a"
| "sum_chk_from a (x # xs) =
     (case add_chk a x of None \<Rightarrow> None | Some b \<Rightarrow> sum_chk_from b xs)"

definition sum_chk :: "'a::len word list \<Rightarrow> 'a word option" where
  "sum_chk xs = sum_chk_from 0 xs"

lemma sum_chk_from_fits:
  "unat a + sum_list (map unat xs) < 2 ^ LENGTH('a) \<Longrightarrow>
   \<exists>s. sum_chk_from a xs = Some s \<and> unat s = unat a + sum_list (map unat xs)"
  for a :: "'a::len word"
proof (induction xs arbitrary: a)
  case Nil
  then show ?case by simp
next
  case (Cons x xs)
  then have "unat a + unat x < 2 ^ LENGTH('a)" by simp
  then obtain b where b: "add_chk a x = Some b" "unat b = unat a + unat x"
    using add_chk_fits by blast
  with Cons.prems have "unat b + sum_list (map unat xs) < 2 ^ LENGTH('a)" by simp
  from Cons.IH [OF this] b show ?case by auto
qed

lemma sum_chk_fits:
  "sum_list (map unat xs) < 2 ^ LENGTH('a) \<Longrightarrow>
   \<exists>s. sum_chk xs = Some s \<and> unat s = sum_list (map unat xs)"
  for xs :: "'a::len word list"
  using sum_chk_from_fits [of 0 xs] by (simp add: sum_chk_def)

text \<open>\<^verbatim>\<open>saturating_add\<close> and \<^verbatim>\<open>saturating_sub\<close>.\<close>

definition saturating_add :: "'a::len word \<Rightarrow> 'a word \<Rightarrow> 'a word" where
  "saturating_add a b = (if unat a + unat b < 2 ^ LENGTH('a) then a + b else - 1)"

definition saturating_sub :: "'a::len word \<Rightarrow> 'a word \<Rightarrow> 'a word" where
  "saturating_sub a b = (if b \<le> a then a - b else 0)"

lemma unat_saturating_add:
  "unat (saturating_add a b) = min (2 ^ LENGTH('a) - 1) (unat a + unat b)"
  for a b :: "'a::len word"
  by (auto simp: saturating_add_def unat_word_ariths min_def unat_minus_1)

lemma saturating_add_ge:
  "a \<le> saturating_add a b" for a b :: "'a::len word"
proof -
  have "unat a < 2 ^ LENGTH('a)" by simp
  then have "unat a \<le> 2 ^ LENGTH('a) - 1" by linarith
  then show ?thesis by (simp add: word_le_nat_alt unat_saturating_add)
qed

lemma unat_fold_saturating_add:
  "unat (fold (\<lambda>i a. saturating_add a (f i)) xs a)
     = min (2 ^ LENGTH('a) - 1) (unat a + sum_list (map (\<lambda>i. unat (f i)) xs))"
  for a :: "'a::len word"
proof (induction xs arbitrary: a)
  case Nil
  have "unat a < 2 ^ LENGTH('a)" by simp
  then have "unat a \<le> 2 ^ LENGTH('a) - 1" by linarith
  then show ?case by simp
next
  case (Cons x xs)
  have "min m (min m p + q) = min m (p + q)" for m p q :: nat by simp
  then show ?case
    by (simp only: fold_simps Cons.IH unat_saturating_add list.map sum_list.Cons add.assoc)
qed

section \<open>Conversions\<close>

text \<open>\<^verbatim>\<open>u32::try_from(n).unwrap_or(u32::MAX)\<close> for a count that may be too large.\<close>

definition clamp_u32 :: "nat \<Rightarrow> u32" where
  "clamp_u32 n = (if n < 2 ^ 32 then of_nat n else u32_max)"

lemma clamp_u32_of_word [simp]: "clamp_u32 (unat x) = x"
  using unat_bound [of x] by (simp add: clamp_u32_def)

lemma unat_of_nat_lt: "n < 2 ^ LENGTH('a) \<Longrightarrow> unat (of_nat n :: 'a::len word) = n"
  by (simp add: unat_of_nat take_bit_nat_eq_self)

text \<open>A number in a message.\<close>

fun dec_string :: "nat \<Rightarrow> string" where
  "dec_string n = (if n < 10 then [char_of (48 + n)] else dec_string (n div 10) @ [char_of (48 + n mod 10)])"

declare dec_string.simps [simp del]

section \<open>Lists\<close>

lemma nth_drop_hd: "i < length xs \<Longrightarrow> drop i xs = xs ! i # drop (Suc i) xs"
  by (rule Cons_nth_drop_Suc [symmetric])

lemma sum_list_bound:
  "(\<And>x. x \<in> set xs \<Longrightarrow> f x \<le> (b::nat)) \<Longrightarrow> sum_list (map f xs) \<le> length xs * b"
  by (induction xs) (auto simp: add_mono)

lemma sum_list_filter_split:
  "sum_list (map f xs) =
     sum_list (map f (filter P xs)) + sum_list (map f (filter (\<lambda>x. \<not> P x) xs))"
  for f :: "'b \<Rightarrow> nat"
  by (induction xs) auto

text \<open>Short-circuit conjunction and disjunction over a list whose test may panic.\<close>

fun all_p :: "('a \<Rightarrow> bool option) \<Rightarrow> 'a list \<Rightarrow> bool option" where
  "all_p f [] = Some True"
| "all_p f (x # xs) =
     (case f x of None \<Rightarrow> None | Some b \<Rightarrow> if b then all_p f xs else Some False)"

fun any_p :: "('a \<Rightarrow> bool option) \<Rightarrow> 'a list \<Rightarrow> bool option" where
  "any_p f [] = Some False"
| "any_p f (x # xs) =
     (case f x of None \<Rightarrow> None | Some b \<Rightarrow> if b then Some True else any_p f xs)"

lemma all_p_cong [fundef_cong]:
  "xs = ys \<Longrightarrow> (\<And>x. x \<in> set ys \<Longrightarrow> f x = g x) \<Longrightarrow> all_p f xs = all_p g ys"
  by (induction ys arbitrary: xs) (auto split: option.splits)

lemma any_p_cong [fundef_cong]:
  "xs = ys \<Longrightarrow> (\<And>x. x \<in> set ys \<Longrightarrow> f x = g x) \<Longrightarrow> any_p f xs = any_p g ys"
  by (induction ys arbitrary: xs) (auto split: option.splits)

lemma all_p_total:
  "(\<And>x. x \<in> set xs \<Longrightarrow> f x \<noteq> None) \<Longrightarrow> all_p f xs = Some (\<forall>x\<in>set xs. f x = Some True)"
  by (induction xs) (force split: option.splits)+

lemma any_p_total:
  "(\<And>x. x \<in> set xs \<Longrightarrow> f x \<noteq> None) \<Longrightarrow> any_p f xs = Some (\<exists>x\<in>set xs. f x = Some True)"
  by (induction xs) (force split: option.splits)+

section \<open>Little-endian bytes\<close>

fun from_le :: "bytes \<Rightarrow> 'a::len word" where
  "from_le [] = 0"
| "from_le (b # bs) = ucast b OR push_bit 8 (from_le bs)"

definition to_le :: "nat \<Rightarrow> 'a::len word \<Rightarrow> bytes" where
  "to_le n w = map (\<lambda>i. ucast (drop_bit (8 * i) w)) [0..<n]"

lemma length_to_le [simp]: "length (to_le n w) = n"
  by (simp add: to_le_def)

lemma bit_from_le:
  "n < LENGTH('a) \<Longrightarrow> bit (from_le bs :: 'a::len word) n \<longleftrightarrow>
     n div 8 < length bs \<and> bit (bs ! (n div 8)) (n mod 8)"
proof (induction bs arbitrary: n)
  case (Cons b bs)
  show ?case
  proof (cases "n < 8")
    case True
    then show ?thesis using Cons.prems by (simp add: bit_simps)
  next
    case False
    have "bit (from_le (b # bs) :: 'a word) n \<longleftrightarrow> bit (from_le bs :: 'a word) (n - 8)"
      using False Cons.prems by (auto simp: bit_simps dest: bit_imp_le_length)
    also have "\<dots> \<longleftrightarrow> (n - 8) div 8 < length bs \<and> bit (bs ! ((n - 8) div 8)) ((n - 8) mod 8)"
      using Cons.prems by (intro Cons.IH) simp
    finally show ?thesis
      using False by (simp add: le_div_geq le_mod_geq not_less)
  qed
qed simp

lemma from_to_le [simp]:
  assumes "LENGTH('a) \<le> 8 * n"
  shows "from_le (to_le n w) = (w :: 'a::len word)"
proof (rule bit_word_eqI)
  fix i assume i: "i < LENGTH('a)"
  then have "i div 8 < n" using assms by linarith
  then show "bit (from_le (to_le n w) :: 'a word) i = bit w i"
    using i by (auto simp: bit_from_le to_le_def bit_simps)
qed

lemma to_from_le [simp]:
  assumes "length bs = n" "8 * n \<le> LENGTH('a)"
  shows "to_le n (from_le bs :: 'a::len word) = bs"
proof (rule nth_equalityI)
  fix i assume "i < length (to_le n (from_le bs :: 'a word))"
  then have i: "i < n" by simp
  show "to_le n (from_le bs :: 'a word) ! i = bs ! i"
  proof (rule bit_word_eqI)
    fix k assume k: "k < LENGTH(8)"
    then have "8 * i + k < LENGTH('a)" "(8 * i + k) div 8 = i" "(8 * i + k) mod 8 = k"
      using i assms by simp_all
    then show "bit (to_le n (from_le bs :: 'a word) ! i) k = bit (bs ! i) k"
      using i k assms by (simp add: to_le_def bit_simps bit_from_le add.commute)
  qed
qed (use assms in simp)

end
