(* ===== verification/Logic_Expr.thy ===== *)
theory Logic_Expr
  imports Exav_Prelude
begin

text \<open>
  The boolean expressions of ClamAV's logical signatures
  (\<^verbatim>\<open>crates/exav-core/src/engine/logic.rs\<close>): the expression tree and its evaluation over match
  counts, and the two satisfiability over-approximations the engine prunes with.

  A subsignature index is a \<open>nat\<close> (a Rust \<^verbatim>\<open>usize\<close> of a 64-bit target), a count is a
  \<open>u32\<close>.
\<close>

section \<open>Expression tree and evaluation\<close>

datatype cmp = CEq | CGt | CLt

datatype node =
    Sub nat
  | SubCmp nat cmp u32
  | GroupCmp "nat list" cmp u32 "u32 option"
  | And "node list"
  | Or "node list"

definition cmp_ok :: "cmp \<Rightarrow> u32 \<Rightarrow> u32 \<Rightarrow> bool" where
  "cmp_ok c v x = (case c of CEq \<Rightarrow> v = x | CGt \<Rightarrow> x < v | CLt \<Rightarrow> v < x)"

definition group_total :: "(nat \<Rightarrow> u32) \<Rightarrow> nat list \<Rightarrow> u32" where
  "group_total count ids = fold (\<lambda>i a. saturating_add a (count i)) ids 0"

fun eval :: "node \<Rightarrow> (nat \<Rightarrow> u32) \<Rightarrow> bool" where
  "eval (Sub i) count = (0 < count i)"
| "eval (SubCmp i c x) count = cmp_ok c (count i) x"
| "eval (GroupCmp ids c x y) count =
     (if \<not> cmp_ok c (group_total count ids) x then False
      else case y of
             Some y \<Rightarrow> y \<le> of_nat (length (filter (\<lambda>i. 0 < count i) ids))
           | None \<Rightarrow> True)"
| "eval (And v) count = list_all (\<lambda>n. eval n count) v"
| "eval (Or v) count = list_ex (\<lambda>n. eval n count) v"

text \<open>
  The first over-approximation: \<open>unknown i = Some max\<close> marks a subsignature whose count is
  not computed yet and lies in \<open>0..max\<close>. The sums are \<open>u64\<close> and checked; \<open>None\<close> is
  the overflow panic.
\<close>

definition group_possible ::
  "(nat \<Rightarrow> u32) \<Rightarrow> (nat \<Rightarrow> u32 option) \<Rightarrow> nat list \<Rightarrow> cmp \<Rightarrow> u32 \<Rightarrow> u32 option \<Rightarrow> bool option" where
  "group_possible count unknown ids c x y =
     (case sum_chk (map (\<lambda>i. ucast (count i) :: u64) (filter (\<lambda>i. unknown i = None) ids)) of
        None \<Rightarrow> None
      | Some known_sum \<Rightarrow>
     (case sum_chk (map (\<lambda>m. ucast m :: u64) (List.map_filter unknown ids)) of
        None \<Rightarrow> None
      | Some unknown_max \<Rightarrow>
     (let nunk = (of_nat (length (filter (\<lambda>i. unknown i \<noteq> None) ids)) :: u32);
          x64 = (ucast x :: u64);
          total_ok =
            (case c of
               CGt \<Rightarrow> map_option (\<lambda>t. x64 < t) (add_chk known_sum unknown_max)
             | CLt \<Rightarrow> Some (known_sum < x64)
             | CEq \<Rightarrow> if x64 < known_sum then Some False
                      else map_option (\<lambda>t. x64 \<le> t) (add_chk known_sum unknown_max))
      in case total_ok of
           None \<Rightarrow> None
         | Some False \<Rightarrow> Some False
         | Some True \<Rightarrow>
             (case y of
                None \<Rightarrow> Some True
              | Some y \<Rightarrow>
                  let known_distinct =
                        (of_nat (length (filter (\<lambda>i. unknown i = None \<and> 0 < count i) ids)) :: u32)
                  in map_option (\<lambda>t. y \<le> t) (add_chk known_distinct nunk)))))"

fun can_be_true :: "node \<Rightarrow> (nat \<Rightarrow> u32) \<Rightarrow> (nat \<Rightarrow> u32 option) \<Rightarrow> bool option" where
  "can_be_true (Sub i) count unknown = Some (unknown i \<noteq> None \<or> 0 < count i)"
| "can_be_true (SubCmp i c x) count unknown =
     Some (case unknown i of
             Some mx \<Rightarrow> (case c of CGt \<Rightarrow> x < mx | CLt \<Rightarrow> 0 < x | CEq \<Rightarrow> x \<le> mx)
           | None \<Rightarrow> cmp_ok c (count i) x)"
| "can_be_true (GroupCmp ids c x y) count unknown = group_possible count unknown ids c x y"
| "can_be_true (And v) count unknown = all_p (\<lambda>n. can_be_true n count unknown) v"
| "can_be_true (Or v) count unknown = any_p (\<lambda>n. can_be_true n count unknown) v"

text \<open>The second one: \<open>absent i\<close> marks a subsignature that certainly has no match.\<close>

definition free_cmp_ok :: "cmp \<Rightarrow> u32 \<Rightarrow> bool" where
  "free_cmp_ok c x = (case c of CEq \<Rightarrow> True | CGt \<Rightarrow> x < u32_max | CLt \<Rightarrow> 0 < x)"

fun can_be_true_absent :: "node \<Rightarrow> (nat \<Rightarrow> bool) \<Rightarrow> bool" where
  "can_be_true_absent (Sub i) absent = (\<not> absent i)"
| "can_be_true_absent (SubCmp i c x) absent =
     (if absent i then cmp_ok c 0 x else free_cmp_ok c x)"
| "can_be_true_absent (GroupCmp ids c x y) absent =
     (let nfree = (of_nat (length (filter (\<lambda>i. \<not> absent i) ids)) :: u32)
      in if nfree = 0
         then cmp_ok c 0 x \<and> (case y of None \<Rightarrow> True | Some y \<Rightarrow> y = 0)
         else free_cmp_ok c x \<and> (case y of None \<Rightarrow> True | Some y \<Rightarrow> y \<le> nfree))"
| "can_be_true_absent (And v) absent = list_all (\<lambda>n. can_be_true_absent n absent) v"
| "can_be_true_absent (Or v) absent = list_ex (\<lambda>n. can_be_true_absent n absent) v"

fun collect_ids :: "node \<Rightarrow> nat list \<Rightarrow> nat list" where
  "collect_ids (Sub i) out = out @ [i]"
| "collect_ids (SubCmp i _ _) out = out @ [i]"
| "collect_ids (GroupCmp ids _ _ _) out = out @ ids"
| "collect_ids (And v) out = fold (\<lambda>n out. collect_ids n out) v out"
| "collect_ids (Or v) out = fold (\<lambda>n out. collect_ids n out) v out"

fun ids_within :: "node \<Rightarrow> nat \<Rightarrow> bool" where
  "ids_within (Sub i) nsubs = (i < nsubs)"
| "ids_within (SubCmp i _ _) nsubs = (i < nsubs)"
| "ids_within (GroupCmp ids _ _ _) nsubs = list_all (\<lambda>i. i < nsubs) ids"
| "ids_within (And v) nsubs = list_all (\<lambda>n. ids_within n nsubs) v"
| "ids_within (Or v) nsubs = list_all (\<lambda>n. ids_within n nsubs) v"

section \<open>Soundness of the pruning tests\<close>

text \<open>Every group is shorter than 2^31, so that no \<open>u64\<close> sum over it can overflow.\<close>

fun groups_small :: "node \<Rightarrow> bool" where
  "groups_small (Sub i) = True"
| "groups_small (SubCmp i c x) = True"
| "groups_small (GroupCmp ids c x y) = (length ids < 2 ^ 31)"
| "groups_small (And v) = list_all groups_small v"
| "groups_small (Or v) = list_all groups_small v"

text \<open>No group compares its saturated total for equality with the saturation value itself.\<close>

fun eq_max_free :: "node \<Rightarrow> bool" where
  "eq_max_free (Sub i) = True"
| "eq_max_free (SubCmp i c x) = True"
| "eq_max_free (GroupCmp ids c x y) = (c = CEq \<longrightarrow> x \<noteq> u32_max)"
| "eq_max_free (And v) = list_all eq_max_free v"
| "eq_max_free (Or v) = list_all eq_max_free v"

text \<open>\<open>count'\<close> is one way the not yet computed counts can turn out.\<close>

definition completes :: "(nat \<Rightarrow> u32) \<Rightarrow> (nat \<Rightarrow> u32 option) \<Rightarrow> (nat \<Rightarrow> u32) \<Rightarrow> bool" where
  "completes count unknown count' \<longleftrightarrow>
     (\<forall>i. case unknown i of None \<Rightarrow> count' i = count i | Some mx \<Rightarrow> count' i \<le> mx)"

lemma completes_known: "completes count unknown count' \<Longrightarrow> unknown i = None \<Longrightarrow> count' i = count i"
  and completes_unknown: "completes count unknown count' \<Longrightarrow> unknown i = Some mx \<Longrightarrow> count' i \<le> mx"
  by (auto simp: completes_def dest: spec [of _ i])

lemma unat_group_total:
  "unat (group_total count ids) = min (2 ^ 32 - 1) (sum_list (map (\<lambda>i. unat (count i)) ids))"
  using unat_fold_saturating_add [of count ids 0] by (simp add: group_total_def)

lemma length_filter_small: "length ids < 2 ^ 31 \<Longrightarrow> length (filter P ids) < 2 ^ 32"
  by (rule le_less_trans [OF length_filter_le]) simp

lemma unat_u32_bound: "unat (x :: u32) \<le> 2 ^ 32 - 1"
  using unat_bound [of x] by simp

lemma unat_ucast_u64 [simp]: "unat (ucast (x :: u32) :: u64) = unat x"
  using unat_bound [of x] by (simp add: unsigned_ucast_eq take_bit_nat_eq_self)

lemma map_filter_bounded:
  "sum_list (map f (List.map_filter g xs)) \<le> length xs * (b::nat)" if "\<And>x. f x \<le> b"
proof -
  have "sum_list (map f (List.map_filter g xs)) \<le> length (List.map_filter g xs) * b"
    using that by (intro sum_list_bound)
  also have "length (List.map_filter g xs) \<le> length xs"
    by (induction xs) (auto simp: List.map_filter_simps split: option.splits)
  finally show ?thesis by (simp add: mult_le_mono1)
qed

lemma group_sums_fit:
  fixes count :: "nat \<Rightarrow> u32" and unknown :: "nat \<Rightarrow> u32 option"
  assumes "length ids < 2 ^ 31"
  defines "ks \<equiv> sum_list (map (\<lambda>i. unat (count i)) (filter (\<lambda>i. unknown i = None) ids))"
    and "um \<equiv> sum_list (map unat (List.map_filter unknown ids))"
  obtains k m where
    "sum_chk (map (\<lambda>i. ucast (count i) :: u64) (filter (\<lambda>i. unknown i = None) ids)) = Some k"
    "sum_chk (map (\<lambda>m. ucast m :: u64) (List.map_filter unknown ids)) = Some m"
    "unat k = ks" "unat m = um" "ks + um < 2 ^ 64"
proof -
  have "ks \<le> length (filter (\<lambda>i. unknown i = None) ids) * (2 ^ 32 - 1)"
    unfolding ks_def by (intro sum_list_bound unat_u32_bound)
  also have "\<dots> \<le> length ids * (2 ^ 32 - 1)" by (intro mult_le_mono1) simp
  finally have ks: "ks \<le> length ids * (2 ^ 32 - 1)" .
  have um: "um \<le> length ids * (2 ^ 32 - 1)"
    unfolding um_def by (intro map_filter_bounded unat_u32_bound)
  have len: "length ids * (2 ^ 32 - 1) \<le> (2 ^ 31 - 1) * (2 ^ 32 - 1)"
    using assms(1) by (intro mult_le_mono1) simp
  have fit: "ks + um < 2 ^ 64"
    using ks um len by simp
  obtain k where "sum_chk (map (\<lambda>i. ucast (count i) :: u64)
      (filter (\<lambda>i. unknown i = None) ids)) = Some k" "unat k = ks"
    using sum_chk_fits [of "map (\<lambda>i. ucast (count i) :: u64) (filter (\<lambda>i. unknown i = None) ids)"] fit
    by (auto simp: ks_def o_def)
  moreover obtain m where "sum_chk (map (\<lambda>m. ucast m :: u64) (List.map_filter unknown ids)) = Some m"
      "unat m = um"
    using sum_chk_fits [of "map (\<lambda>m. ucast m :: u64) (List.map_filter unknown ids)"] fit
    by (auto simp: um_def o_def)
  ultimately show ?thesis using fit that by blast
qed

lemma group_distinct_fit:
  fixes count :: "nat \<Rightarrow> u32" and unknown :: "nat \<Rightarrow> u32 option"
  assumes "length ids < 2 ^ 31"
  defines "kd \<equiv> length (filter (\<lambda>i. unknown i = None \<and> 0 < count i) ids)"
    and "nu \<equiv> length (filter (\<lambda>i. unknown i \<noteq> None) ids)"
  obtains t where "add_chk (of_nat kd :: u32) (of_nat nu) = Some t" "unat t = kd + nu"
proof -
  have "kd \<le> length ids" "nu \<le> length ids" by (simp_all add: kd_def nu_def)
  then have "kd < 2 ^ 31" "nu < 2 ^ 31" using assms(1) by linarith+
  then have "unat (of_nat kd :: u32) = kd" "unat (of_nat nu :: u32) = nu"
    by (simp_all add: unat_of_nat_lt)
  moreover from this have "unat (of_nat kd :: u32) + unat (of_nat nu :: u32) < 2 ^ LENGTH(32)"
    using \<open>kd < 2 ^ 31\<close> \<open>nu < 2 ^ 31\<close> by simp
  ultimately show ?thesis using add_chk_fits that by metis
qed

lemma group_possible_eq:
  fixes count :: "nat \<Rightarrow> u32" and unknown :: "nat \<Rightarrow> u32 option"
  assumes "length ids < 2 ^ 31"
  defines "ks \<equiv> sum_list (map (\<lambda>i. unat (count i)) (filter (\<lambda>i. unknown i = None) ids))"
    and "um \<equiv> sum_list (map unat (List.map_filter unknown ids))"
    and "kd \<equiv> length (filter (\<lambda>i. unknown i = None \<and> 0 < count i) ids)"
    and "nu \<equiv> length (filter (\<lambda>i. unknown i \<noteq> None) ids)"
  shows "group_possible count unknown ids c x y = Some
    ((case c of CGt \<Rightarrow> unat x < ks + um | CLt \<Rightarrow> ks < unat x
              | CEq \<Rightarrow> ks \<le> unat x \<and> unat x \<le> ks + um)
     \<and> (case y of None \<Rightarrow> True | Some y \<Rightarrow> unat y \<le> kd + nu))"
proof -
  obtain k m where
    km: "sum_chk (map (\<lambda>i. ucast (count i) :: u64) (filter (\<lambda>i. unknown i = None) ids)) = Some k"
    "sum_chk (map (\<lambda>m. ucast m :: u64) (List.map_filter unknown ids)) = Some m"
    "unat k = ks" "unat m = um" "ks + um < 2 ^ 64"
    using group_sums_fit [OF assms(1), of count unknown] unfolding ks_def um_def by blast
  obtain s where s: "add_chk k m = Some s" "unat s = ks + um"
    using add_chk_fits [of k m] km by auto
  obtain t where t: "add_chk (of_nat kd :: u32) (of_nat nu) = Some t" "unat t = kd + nu"
    using group_distinct_fit [OF assms(1), of unknown count] unfolding kd_def nu_def by blast
  show ?thesis
    unfolding group_possible_def Let_def km(1,2) kd_def [symmetric] nu_def [symmetric]
    by (auto simp: s t km(3,4) word_less_nat_alt word_le_nat_alt split: cmp.splits option.splits bool.splits)
qed

lemma can_be_true_total: "groups_small n \<Longrightarrow> can_be_true n count unknown \<noteq> None"
  by (induction n) (simp_all add: group_possible_eq list_all_iff all_p_total any_p_total)

lemma sum_unknown_le:
  assumes "completes count unknown count'"
  shows "sum_list (map (\<lambda>i. unat (count' i)) (filter (\<lambda>i. unknown i \<noteq> None) ids))
           \<le> sum_list (map unat (List.map_filter unknown ids))"
proof (induction ids)
  case Nil
  then show ?case by (simp add: List.map_filter_simps)
next
  case (Cons i ids)
  have "unknown i = Some mx \<Longrightarrow> unat (count' i) \<le> unat mx" for mx
    using completes_unknown [OF assms] by (simp add: word_le_nat_alt)
  with Cons show ?case
    by (auto simp: List.map_filter_simps split: option.splits intro: add_mono)
qed

lemma group_total_range:
  fixes count count' :: "nat \<Rightarrow> u32" and ids :: "nat list"
  assumes "completes count unknown count'"
  defines "ks \<equiv> sum_list (map (\<lambda>i. unat (count i)) (filter (\<lambda>i. unknown i = None) ids))"
    and "um \<equiv> sum_list (map unat (List.map_filter unknown ids))"
    and "tot \<equiv> sum_list (map (\<lambda>i. unat (count' i)) ids)"
  shows "ks \<le> tot" "tot \<le> ks + um"
proof -
  have "map (\<lambda>i. unat (count' i)) (filter (\<lambda>i. unknown i = None) ids)
          = map (\<lambda>i. unat (count i)) (filter (\<lambda>i. unknown i = None) ids)"
    using completes_known [OF assms(1)] by simp
  then have "sum_list (map (\<lambda>i. unat (count' i)) (filter (\<lambda>i. unknown i = None) ids)) = ks"
    unfolding ks_def by (rule arg_cong)
  then have "tot = ks + sum_list (map (\<lambda>i. unat (count' i)) (filter (\<lambda>i. unknown i \<noteq> None) ids))"
    using sum_list_filter_split [of "\<lambda>i. unat (count' i)" ids "\<lambda>i. unknown i = None"]
    by (simp add: tot_def)
  then show "ks \<le> tot" "tot \<le> ks + um"
    using sum_unknown_le [OF assms(1), of ids] by (simp_all add: um_def)
qed

lemma group_distinct_range:
  assumes "completes count unknown count'"
  shows "length (filter (\<lambda>i. 0 < count' i) ids)
    \<le> length (filter (\<lambda>i. unknown i = None \<and> 0 < count i) ids) + length (filter (\<lambda>i. unknown i \<noteq> None) ids)"
proof (induction ids)
  case (Cons i ids)
  show ?case
  proof (cases "unknown i")
    case None
    with completes_known [OF assms None] Cons show ?thesis by simp
  next
    case (Some a)
    with Cons show ?thesis by simp
  qed
qed simp

lemma group_possible_sound:
  assumes comp: "completes count unknown count'" and small: "length ids < 2 ^ 31"
    and nomax: "c = CEq \<longrightarrow> x \<noteq> u32_max" and ev: "eval (GroupCmp ids c x y) count'"
  shows "group_possible count unknown ids c x y = Some True"
proof -
  let ?tot = "sum_list (map (\<lambda>i. unat (count' i)) ids)"
  have cmp: "cmp_ok c (group_total count' ids) x" using ev by (simp split: if_splits)
  have x: "unat x \<le> 2 ^ 32 - 1" by (rule unat_u32_bound)
  have xm: "x \<noteq> u32_max \<Longrightarrow> unat x < 2 ^ 32 - 1"
    using x by (auto simp: le_less word_unat_eq_iff)
  have tot: "case c of CGt \<Rightarrow> unat x < ?tot | CLt \<Rightarrow> ?tot < unat x | CEq \<Rightarrow> ?tot = unat x"
    using cmp x nomax xm
    by (auto simp: cmp_ok_def word_less_nat_alt word_unat_eq_iff unat_group_total min_def
        split: cmp.splits if_splits)
  have y: "case y of None \<Rightarrow> True | Some y \<Rightarrow> unat y \<le> length (filter (\<lambda>i. 0 < count' i) ids)"
  proof (cases y)
    case (Some d)
    have "length (filter (\<lambda>i. 0 < count' i) ids) < 2 ^ 32"
      using small by (rule length_filter_small)
    with ev Some show ?thesis by (simp add: word_le_nat_alt unat_of_nat_lt split: if_splits)
  qed simp
  show ?thesis
    unfolding group_possible_eq [OF small]
    using tot y group_total_range [OF comp, of ids] group_distinct_range [OF comp, of ids]
    by (auto split: cmp.splits option.splits)
qed

lemma can_be_true_sound_aux:
  assumes comp: "completes count unknown count'"
  shows "groups_small n \<Longrightarrow> eq_max_free n \<Longrightarrow> eval n count' \<Longrightarrow> can_be_true n count unknown = Some True"
proof (induction n)
  case (Sub i)
  then show ?case using completes_known [OF comp, of i] by (cases "unknown i") auto
next
  case (SubCmp i c x)
  then show ?case
    using completes_known [OF comp, of i] completes_unknown [OF comp, of i]
    by (auto simp: cmp_ok_def dest: word_less_pos split: cmp.splits option.splits)
next
  case (GroupCmp ids c x y)
  then have "group_possible count unknown ids c x y = Some True"
    by (intro group_possible_sound [OF comp]) auto
  then show ?case by simp
next
  case (And v)
  then show ?case by (auto simp: list_all_iff all_p_total can_be_true_total)
next
  case (Or v)
  then show ?case by (auto simp: list_all_iff list_ex_iff any_p_total can_be_true_total)
qed

lemma cmp_ok_free: "cmp_ok c v x \<Longrightarrow> free_cmp_ok c x"
proof -
  have "x < u32_max" if "x < v"
    using that unat_u32_bound [of v] by (simp add: word_less_nat_alt)
  moreover have "0 < x" if "v < x"
    using that by (simp add: word_less_nat_alt)
  ultimately show "cmp_ok c v x \<Longrightarrow> free_cmp_ok c x"
    by (auto simp: cmp_ok_def free_cmp_ok_def split: cmp.splits)
qed

lemma can_be_true_absent_group:
  assumes absent: "\<And>i. absent i \<Longrightarrow> count i = 0"
    and small: "groups_small (GroupCmp ids c x y)" and ev: "eval (GroupCmp ids c x y) count"
  shows "can_be_true_absent (GroupCmp ids c x y) absent"
proof -
  let ?F = "filter (\<lambda>i. \<not> absent i) ids" and ?D = "filter (\<lambda>i. 0 < count i) ids"
  have lens: "length ?F < 2 ^ 32" "length ?D < 2 ^ 32"
    using length_filter_small [of ids] small by auto
  have cmp: "cmp_ok c (group_total count ids) x"
    and y: "case y of None \<Rightarrow> True | Some y \<Rightarrow> unat y \<le> length ?D"
    using ev lens by (simp_all add: word_le_nat_alt unat_of_nat_lt split: if_splits option.splits)
  have D_le: "length ?D \<le> length ?F"
    using absent by (induction ids) auto
  show ?thesis
  proof (cases "?F = []")
    case True
    then have "\<forall>i \<in> set ids. count i = 0" using absent by (auto simp: filter_empty_conv)
    then have "sum_list (map (\<lambda>i. unat (count i)) ids) = 0" by (induction ids) auto
    then have "unat (group_total count ids) = 0" by (simp only: unat_group_total)
    then have "group_total count ids = 0" by (simp add: unat_eq_0)
    with True cmp y D_le show ?thesis
      by (auto simp: unat_eq_0 simp del: filter_False split: option.splits)
  next
    case False
    then have "(of_nat (length ?F) :: u32) \<noteq> 0"
      using lens by (simp add: word_unat_eq_iff unat_of_nat_lt)
    with cmp_ok_free [OF cmp] y D_le lens show ?thesis
      by (auto simp: Let_def word_le_nat_alt unat_of_nat_lt split: option.splits)
  qed
qed

lemma can_be_true_absent_sound_aux:
  assumes absent: "\<And>i. absent i \<Longrightarrow> count i = 0"
  shows "groups_small n \<Longrightarrow> eval n count \<Longrightarrow> can_be_true_absent n absent"
proof (induction n)
  case (Sub i)
  then show ?case using absent by auto
next
  case (SubCmp i c x)
  then show ?case using absent [of i] cmp_ok_free by auto
next
  case (GroupCmp ids c x y)
  then show ?case by (intro can_be_true_absent_group) (use absent in auto)
next
  case (And v)
  then show ?case by (auto simp: list_all_iff)
next
  case (Or v)
  then show ?case by (auto simp: list_all_iff list_ex_iff)
qed

text \<open>
  C17. Pruning on not yet computed counts never loses a signature: if some completion of
  the unknown counts (each anywhere up to its maximum) makes the expression true, the test
  answers \<open>Some True\<close>: it neither panics nor refuses. Hypotheses: no group has 2^31 members,
  and none is compared for equality with the saturation value \<^verbatim>\<open>u32::MAX\<close>. Of expressions that no
  completion makes true it says nothing.
\<close>

theorem can_be_true_sound:
  assumes "completes counts unknown counts'" "groups_small n" "eq_max_free n" "eval n counts'"
  shows "can_be_true n counts unknown = Some True"
  using can_be_true_sound_aux [OF assms(1)] assms by blast

theorem can_be_true_sound_witness:
  "can_be_true (And [Sub 0, GroupCmp [1, 2] CGt 5 (Some 2)]) (\<lambda>i. if i = 0 then 1 else 0)
     (\<lambda>i. if i = 0 then None else Some u32_max) = Some True"
  by (rule can_be_true_sound [where counts' = "\<lambda>i. if i = 0 then 1 else 3"])
     (simp_all add: completes_def cmp_ok_def group_total_def saturating_add_def)

text \<open>
  Pruning on subsignatures without an anchor hit never loses a signature: if the
  expression is true under counts in which every absent subsignature is 0, the test says so.
\<close>

theorem can_be_true_absent_sound:
  assumes "\<And>i. absent i \<Longrightarrow> counts i = 0" "groups_small n" "eval n counts"
  shows "can_be_true_absent n absent"
  using can_be_true_absent_sound_aux [of absent counts n] assms by blast

theorem can_be_true_absent_sound_witness:
  "can_be_true_absent (Or [And [Sub 0, Sub 1], SubCmp 2 CGt 5]) (\<lambda>i. i = 1)"
  by (rule can_be_true_absent_sound [where counts = "\<lambda>i. if i = 1 then 0 else 9"])
     (simp_all add: cmp_ok_def)

text \<open>
  C39. The saturated group total and the unsaturated sums of the pruning test disagree in
  one place: two counts that together pass \<^verbatim>\<open>u32::MAX\<close> satisfy \<open>(0|1)=4294967295\<close>, and the
  test still answers that the expression cannot be true.
\<close>

theorem can_be_true_misses_saturated_equality:
  "eval (GroupCmp [0, 1] CEq u32_max None) (\<lambda>_. u32_max) \<and>
   can_be_true (GroupCmp [0, 1] CEq u32_max None) (\<lambda>_. u32_max) (\<lambda>_. None) = Some False"
proof -
  have "group_possible (\<lambda>_. u32_max) (\<lambda>_. None) [0, 1] CEq u32_max None = Some False"
    by (subst group_possible_eq) simp_all
  then show ?thesis by (simp add: cmp_ok_def group_total_def saturating_add_def)
qed

section \<open>Subsignatures an expression refers to\<close>

fun mentions :: "node \<Rightarrow> nat set" where
  "mentions (Sub i) = {i}"
| "mentions (SubCmp i c x) = {i}"
| "mentions (GroupCmp ids c x y) = set ids"
| "mentions (And v) = (\<Union>n \<in> set v. mentions n)"
| "mentions (Or v) = (\<Union>n \<in> set v. mentions n)"

lemma ids_within_mentions: "ids_within n k \<longleftrightarrow> (\<forall>i \<in> mentions n. i < k)"
  by (induction n) (auto simp: list_all_iff)

lemma fold_saturating_cong:
  "(\<And>i. i \<in> set ids \<Longrightarrow> f i = g i) \<Longrightarrow>
   fold (\<lambda>i a. saturating_add a (f i)) ids a = fold (\<lambda>i a. saturating_add a (g i)) ids a"
  by (induction ids arbitrary: a) auto

lemma eval_mentions: "(\<And>i. i \<in> mentions n \<Longrightarrow> f i = g i) \<Longrightarrow> eval n f = eval n g"
proof (induction n)
  case (GroupCmp ids c x y)
  then have "group_total f ids = group_total g ids"
    unfolding group_total_def by (intro fold_saturating_cong) simp
  moreover have "filter (\<lambda>i. 0 < f i) ids = filter (\<lambda>i. 0 < g i) ids"
    using GroupCmp by (intro filter_cong) auto
  ultimately show ?case by (simp split: option.split)
next
  case (And v)
  then have "\<forall>m \<in> set v. eval m f = eval m g" by (auto simp: Bex_def)
  then show ?case by (simp add: list_all_iff)
next
  case (Or v)
  then have "\<forall>m \<in> set v. eval m f = eval m g" by (auto simp: Bex_def)
  then show ?case by (simp add: list_ex_iff)
qed auto

text \<open>
  The load-time check \<^verbatim>\<open>ids_within\<close> is what evaluation needs: an expression that passes
  it for \<open>k\<close> subsignatures is evaluated from the counts of those \<open>k\<close> alone.
\<close>

theorem ids_within_eval:
  assumes "ids_within n k" "\<And>i. i < k \<Longrightarrow> counts i = counts' i"
  shows "eval n counts = eval n counts'"
  using assms by (intro eval_mentions) (auto simp: ids_within_mentions)

theorem ids_within_eval_witness:
  "eval (And [Sub 0, GroupCmp [0, 1] CGt 2 None]) (\<lambda>i. 2) = eval (And [Sub 0, GroupCmp [0, 1] CGt 2 None]) (\<lambda>i. if i < 2 then 2 else 7)"
  by (rule ids_within_eval [where k = 2]) simp_all

end
