(* ===== verification/Logic_Parse.thy ===== *)
theory Logic_Parse
  imports Logic_Expr
begin

text \<open>
  The recursive-descent parser of logical-signature expressions
  (\<^verbatim>\<open>Parser\<close> and \<^verbatim>\<open>parse_expr\<close> in \<^verbatim>\<open>crates/exav-core/src/engine/logic.rs\<close>). Its mutual
  recursion runs on fuel; \<open>parse_fuel_enough\<close> shows that the fuel \<open>parse_expr\<close> starts
  with is never used up. The theory then bounds the tree the parser builds and proves that it
  inverts a printer.
\<close>

section \<open>The parser\<close>

text \<open>
  \<^verbatim>\<open>Parser\<close> is the token bytes \<open>s\<close>, the position \<open>i\<close> and the depth \<open>d\<close>. The token
  bytes never change, so the operations take them as an argument and return the new position.
  \<^verbatim>\<open>number\<close>, \<^verbatim>\<open>count\<close>, \<^verbatim>\<open>cmp\<close> and \<^verbatim>\<open>count_args\<close> return their position on failure too: a
  failed second count leaves it behind the digits it read.
\<close>

definition MAX_NESTING :: nat where "MAX_NESTING = 64"

definition peek :: "bytes \<Rightarrow> nat \<Rightarrow> u8 option" where
  "peek s i = (if i < length s then Some (s ! i) else None)"

definition is_digit :: "u8 \<Rightarrow> bool" where
  "is_digit b \<longleftrightarrow> 0x30 \<le> b \<and> b \<le> 0x39"

definition is_ascii_whitespace :: "u8 \<Rightarrow> bool" where
  "is_ascii_whitespace b \<longleftrightarrow> b \<in> {0x20, 0x09, 0x0A, 0x0C, 0x0D}"

definition digits_val :: "bytes \<Rightarrow> nat" where
  "digits_val ds = fold (\<lambda>b a. 10 * a + (unat b - 0x30)) ds 0"

definition digit_run :: "bytes \<Rightarrow> nat \<Rightarrow> bytes" where
  "digit_run s i = takeWhile is_digit (drop i s)"

definition number :: "bytes \<Rightarrow> nat \<Rightarrow> nat option \<times> nat" where
  "number s i =
     (let ds = digit_run s i; i' = i + length ds
      in if i' = i then (None, i')
         else (if digits_val ds < 2 ^ 64 then Some (digits_val ds) else None, i'))"

definition count_p :: "bytes \<Rightarrow> nat \<Rightarrow> u32 option \<times> nat" where
  "count_p s i = (let (n, i') = number s i in (map_option clamp_u32 n, i'))"

definition count_args :: "bytes \<Rightarrow> nat \<Rightarrow> (u32 \<times> u32 option) option \<times> nat" where
  "count_args s i =
     (case count_p s i of
        (None, i') \<Rightarrow> (None, i')
      | (Some x, i') \<Rightarrow>
          if peek s i' = Some 0x2C
          then (let (y, i'') = count_p s (i' + 1) in (Some (x, y), i''))
          else (Some (x, None), i'))"

definition cmp_p :: "bytes \<Rightarrow> nat \<Rightarrow> cmp option \<times> nat" where
  "cmp_p s i =
     (case peek s i of
        None \<Rightarrow> (None, i)
      | Some b \<Rightarrow>
          if b = 0x3D then (Some CEq, if peek s (i + 1) = Some 0x3D then i + 2 else i + 1)
          else if b = 0x3E then (Some CGt, i + 1)
          else if b = 0x3C then (Some CLt, i + 1)
          else (None, i))"

definition skip_colon_suffix :: "bytes \<Rightarrow> nat \<Rightarrow> nat" where
  "skip_colon_suffix s i =
     (if peek s i \<noteq> Some 0x3A then i
      else i + 1 + length (takeWhile (\<lambda>b. b \<notin> {0x26, 0x7C, 0x29}) (drop (i + 1) s)))"

text \<open>What one step of the descent gives: no fuel left, a refused expression, or a node.\<close>

datatype pres = PFuel | PFail | POk node nat

definition one_or :: "(node list \<Rightarrow> node) \<Rightarrow> node list \<Rightarrow> node" where
  "one_or mk v = (if length v = 1 then hd v else mk v)"

definition pbind :: "pres \<Rightarrow> (node \<Rightarrow> nat \<Rightarrow> pres) \<Rightarrow> pres" where
  "pbind r k = (case r of POk n i \<Rightarrow> k n i | PFail \<Rightarrow> PFail | PFuel \<Rightarrow> PFuel)"

lemma pbind_cong [fundef_cong]:
  "r = r' \<Longrightarrow> (\<And>n i. r' = POk n i \<Longrightarrow> k n i = k' n i) \<Longrightarrow> pbind r k = pbind r' k'"
  by (simp add: pbind_def split: pres.split)

text \<open>
  The two tails of \<^verbatim>\<open>atom\<close>: what follows the expression inside parentheses, and what follows
  a subsignature number.
\<close>

definition close_group :: "bytes \<Rightarrow> node \<Rightarrow> nat \<Rightarrow> pres" where
  "close_group s inner j =
     (if peek s j \<noteq> Some 0x29 then PFail
      else (case cmp_p s (j + 1) of
              (Some c, k) \<Rightarrow>
                (case count_args s k of
                   (Some (x, y), l) \<Rightarrow> POk (GroupCmp (collect_ids inner []) c x y) l
                 | (None, l) \<Rightarrow> PFail)
            | (None, k) \<Rightarrow> POk inner k))"

definition sub_ref :: "bytes \<Rightarrow> nat \<Rightarrow> pres" where
  "sub_ref s i =
     (case number s i of
        (None, j) \<Rightarrow> PFail
      | (Some sub, j) \<Rightarrow>
          (case cmp_p s j of
             (Some c, k) \<Rightarrow>
               (case count_args s k of
                  (Some (x, y), l) \<Rightarrow> POk (SubCmp sub c x) l
                | (None, l) \<Rightarrow> PFail)
           | (None, k) \<Rightarrow> POk (Sub sub) (skip_colon_suffix s k)))"

function (sequential) p_or :: "nat \<Rightarrow> bytes \<Rightarrow> nat \<Rightarrow> nat \<Rightarrow> pres"
and p_or_loop :: "nat \<Rightarrow> bytes \<Rightarrow> nat \<Rightarrow> node list \<Rightarrow> nat \<Rightarrow> pres"
and p_and :: "nat \<Rightarrow> bytes \<Rightarrow> nat \<Rightarrow> nat \<Rightarrow> pres"
and p_and_loop :: "nat \<Rightarrow> bytes \<Rightarrow> nat \<Rightarrow> node list \<Rightarrow> nat \<Rightarrow> pres"
and p_atom :: "nat \<Rightarrow> bytes \<Rightarrow> nat \<Rightarrow> nat \<Rightarrow> pres" where
  "p_or 0 s d i = PFuel"
| "p_or (Suc f) s d i = pbind (p_and f s d i) (\<lambda>n. p_or_loop f s d [n])"
| "p_or_loop 0 s d v i = PFuel"
| "p_or_loop (Suc f) s d v i =
     (if peek s i = Some 0x7C
      then pbind (p_and f s d (i + 1)) (\<lambda>n. p_or_loop f s d (v @ [n]))
      else POk (one_or Or v) i)"
| "p_and 0 s d i = PFuel"
| "p_and (Suc f) s d i = pbind (p_atom f s d i) (\<lambda>n. p_and_loop f s d [n])"
| "p_and_loop 0 s d v i = PFuel"
| "p_and_loop (Suc f) s d v i =
     (if peek s i = Some 0x26
      then pbind (p_atom f s d (i + 1)) (\<lambda>n. p_and_loop f s d (v @ [n]))
      else POk (one_or And v) i)"
| "p_atom 0 s d i = PFuel"
| "p_atom (Suc f) s d i =
     (case peek s i of
        None \<Rightarrow> PFail
      | Some b \<Rightarrow>
          if b = 0x28 then
            (if MAX_NESTING \<le> d then PFail
             else pbind (p_or f s (d + 1) (i + 1)) (close_group s))
          else if is_digit b then sub_ref s i
          else PFail)"
  by pat_completeness auto
termination
  by (relation "measure (\<lambda>x. case x of
        Inl (Inl (f, _)) \<Rightarrow> f | Inl (Inr (f, _)) \<Rightarrow> f | Inr (Inl (f, _)) \<Rightarrow> f
      | Inr (Inr (Inl (f, _))) \<Rightarrow> f | Inr (Inr (Inr (f, _))) \<Rightarrow> f)") auto

definition parse_fuel :: "bytes \<Rightarrow> nat" where
  "parse_fuel s = 6 * length s + 3"

definition parse_expr :: "bytes \<Rightarrow> node option" where
  "parse_expr expr =
     (let s = filter (\<lambda>b. \<not> is_ascii_whitespace b) expr
      in case p_or (parse_fuel s) s 0 0 of
           POk n i \<Rightarrow> (if i = length s then Some n else None)
         | _ \<Rightarrow> None)"

section \<open>Progress and the size of the tree\<close>

lemma pbind_POk [simp]: "pbind r k = POk n j \<longleftrightarrow> (\<exists>m i. r = POk m i \<and> k m i = POk n j)"
  and pbind_PFuel [simp]: "pbind r k = PFuel \<longleftrightarrow> r = PFuel \<or> (\<exists>m i. r = POk m i \<and> k m i = PFuel)"
  by (auto simp: pbind_def split: pres.splits)

lemma peek_Some: "peek s i = Some b \<Longrightarrow> i < length s \<and> s ! i = b"
  by (auto simp: peek_def split: if_splits)

lemma digit_run_length: "i + length (digit_run s i) \<le> max i (length s)"
  using length_takeWhile_le [of is_digit "drop i s"] by (auto simp: digit_run_def)

lemma number_pos: "number s i = (r, j) \<Longrightarrow> i \<le> j \<and> (i \<le> length s \<longrightarrow> j \<le> length s)"
  using digit_run_length [of i s] by (auto simp: number_def Let_def split: if_splits)

lemma number_Some: "number s i = (Some n, j) \<Longrightarrow> i < j \<and> j \<le> length s \<and> n < 2 ^ 64"
proof -
  assume a: "number s i = (Some n, j)"
  then have "digit_run s i \<noteq> []" by (auto simp: number_def Let_def)
  then have "i < length s" by (cases "i < length s") (auto simp: digit_run_def)
  then show ?thesis using a digit_run_length [of i s] by (auto simp: number_def Let_def split: if_splits)
qed

lemma count_p_pos: "count_p s i = (r, j) \<Longrightarrow> i \<le> length s \<Longrightarrow> i \<le> j \<and> j \<le> length s"
  using number_pos [of s i] by (auto simp: count_p_def split: prod.splits)

lemma count_args_pos: "count_args s i = (r, j) \<Longrightarrow> i \<le> length s \<Longrightarrow> i \<le> j \<and> j \<le> length s"
proof -
  assume a: "count_args s i = (r, j)" and i: "i \<le> length s"
  obtain c k where k: "count_p s i = (c, k)" by force
  have ik: "i \<le> k \<and> k \<le> length s" using count_p_pos [OF k i] .
  show ?thesis
  proof (cases "c \<noteq> None \<and> peek s k = Some 0x2C")
    case True
    then have "k + 1 \<le> length s" using peek_Some [of s k] by auto
    moreover obtain y l where l: "count_p s (k + 1) = (y, l)" by force
    ultimately show ?thesis using a k ik True count_p_pos [OF l] by (auto simp: count_args_def)
  next
    case False
    then show ?thesis using a k ik by (auto simp: count_args_def split: option.splits if_splits)
  qed
qed

lemma cmp_p_pos: "cmp_p s i = (r, j) \<Longrightarrow> i \<le> length s \<Longrightarrow> i \<le> j \<and> j \<le> length s"
  by (auto simp: cmp_p_def dest!: peek_Some split: option.splits if_splits)

lemma skip_colon_suffix_pos:
  "i \<le> length s \<Longrightarrow> i \<le> skip_colon_suffix s i \<and> skip_colon_suffix s i \<le> length s"
proof -
  assume i: "i \<le> length s"
  have "length (takeWhile (\<lambda>b. b \<notin> {0x26, 0x7C, 0x29}) (drop (i + 1) s)) \<le> length s - (i + 1)"
    using length_takeWhile_le [of _ "drop (i + 1) s"] by simp
  then show ?thesis using i peek_Some [of s i "0x3A"] by (auto simp: skip_colon_suffix_def)
qed

fun height :: "node \<Rightarrow> nat" where
  "height (And v) = 1 + fold (\<lambda>n h. max h (height n)) v 0"
| "height (Or v) = 1 + fold (\<lambda>n h. max h (height n)) v 0"
| "height _ = 1"

fun shaped :: "node \<Rightarrow> bool" where
  "shaped (Sub i) = (i < 2 ^ 64)"
| "shaped (SubCmp i c x) = (i < 2 ^ 64)"
| "shaped (GroupCmp ids c x y) = (ids \<noteq> [] \<and> list_all (\<lambda>i. i < 2 ^ 64) ids)"
| "shaped (And v) = (2 \<le> length v \<and> list_all shaped v)"
| "shaped (Or v) = (2 \<le> length v \<and> list_all shaped v)"

abbreviation ids_of :: "node \<Rightarrow> nat list" where "ids_of n \<equiv> collect_ids n []"

lemma fold_collect_ids:
  "(\<And>n out. n \<in> set v \<Longrightarrow> collect_ids n out = out @ ids_of n) \<Longrightarrow>
   fold collect_ids v out = out @ concat (map ids_of v)"
proof (induction v arbitrary: out)
  case (Cons a v)
  have "fold collect_ids (a # v) out = fold collect_ids v (out @ ids_of a)"
    using Cons.prems [of a out] by simp
  also have "\<dots> = (out @ ids_of a) @ concat (map ids_of v)"
    by (rule Cons.IH) (rule Cons.prems, simp)
  finally show ?case by simp
qed simp

lemma collect_ids_append: "collect_ids n out = out @ ids_of n"
proof (induction n arbitrary: out)
  case (And v)
  have "fold collect_ids v out = out @ concat (map ids_of v)" for out
    by (rule fold_collect_ids) (rule And.IH)
  then show ?case by simp
next
  case (Or v)
  have "fold collect_ids v out = out @ concat (map ids_of v)" for out
    by (rule fold_collect_ids) (rule Or.IH)
  then show ?case by simp
qed simp_all

lemma fold_ids [simp]: "fold collect_ids v out = out @ concat (map ids_of v)"
  by (rule fold_collect_ids) (rule collect_ids_append)

lemma height_fold: "fold (\<lambda>n h. max h (f n)) v h \<le> b \<longleftrightarrow> h \<le> b \<and> (\<forall>n\<in>set v. f n \<le> (b::nat))"
  by (induction v arbitrary: h) auto

text \<open>What a list of parsed operands is turned into.\<close>

lemma one_or_facts:
  assumes "v \<noteq> []" "\<And>m. m \<in> set v \<Longrightarrow> shaped m \<and> height m \<le> k" "mk = And \<or> mk = Or"
  shows "shaped (one_or mk v)" "height (one_or mk v) \<le> k + 1"
    and "ids_of (one_or mk v) = concat (map ids_of v)"
proof -
  consider m where "v = [m]" | "2 \<le> length v"
    using assms(1) by (cases v rule: remdups_adj.cases) auto
  then have "shaped (one_or mk v) \<and> height (one_or mk v) \<le> k + 1 \<and>
      ids_of (one_or mk v) = concat (map ids_of v)"
    using assms by cases (auto simp: one_or_def list_all_iff height_fold le_SucI)
  then show "shaped (one_or mk v)" "height (one_or mk v) \<le> k + 1"
    "ids_of (one_or mk v) = concat (map ids_of v)" by blast+
qed

text \<open>
  \<open>built s k i n j\<close>: the node \<open>n\<close> was read from positions \<open>i\<close> to \<open>j\<close>, is well shaped, no
  higher than \<open>k\<close>, and names no more subsignatures than it has bytes.
\<close>

fun groups_small_by :: "nat \<Rightarrow> node \<Rightarrow> bool" where
  "groups_small_by b (GroupCmp ids c x y) = (length ids \<le> b)"
| "groups_small_by b (And v) = list_all (groups_small_by b) v"
| "groups_small_by b (Or v) = list_all (groups_small_by b) v"
| "groups_small_by b _ = True"

lemma groups_small_by_mono: "groups_small_by a n \<Longrightarrow> a \<le> b \<Longrightarrow> groups_small_by b n"
  by (induction n) (auto simp: list_all_iff)

lemma groups_small_by_small: "groups_small_by b n \<Longrightarrow> b < 2 ^ 31 \<Longrightarrow> groups_small n"
  by (induction n) (auto simp: list_all_iff)

definition built :: "bytes \<Rightarrow> nat \<Rightarrow> nat \<Rightarrow> node \<Rightarrow> nat \<Rightarrow> bool" where
  "built s k i n j \<longleftrightarrow> i < j \<and> j \<le> length s \<and> shaped n \<and> height n \<le> k \<and>
     groups_small_by (j - i) n \<and> length (ids_of n) \<le> j - i \<and> ids_of n \<noteq> [] \<and>
     (\<forall>x \<in> set (ids_of n). x < 2 ^ 64)"

lemma built_sub_ref: "sub_ref s i = POk n j \<Longrightarrow> built s 1 i n j"
proof -
  assume r: "sub_ref s i = POk n j"
  then obtain sub m where m: "number s i = (Some sub, m)"
    by (auto simp: sub_ref_def split: prod.splits option.splits)
  from number_Some [OF this] have im: "i < m" "m \<le> length s" "sub < 2 ^ 64" by auto
  obtain c k where ck: "cmp_p s m = (c, k)" by force
  have mk: "m \<le> k" "k \<le> length s" using cmp_p_pos [OF ck] im by auto
  show ?thesis
  proof (cases c)
    case None
    then show ?thesis using r m ck im mk skip_colon_suffix_pos [of k s]
      by (auto simp: sub_ref_def built_def)
  next
    case (Some c')
    obtain a l where al: "count_args s k = (a, l)" by force
    then show ?thesis using r m ck im mk Some count_args_pos [OF al]
      by (auto simp: sub_ref_def built_def split: option.splits)
  qed
qed

lemma built_close_group:
  assumes r: "close_group s inner m = POk n j" and b: "built s k (i + 1) inner m"
  shows "built s k i n j"
proof -
  have m: "m < length s" using r peek_Some [of s m "0x29"] by (auto simp: close_group_def split: if_splits)
  obtain c l where cl: "cmp_p s (m + 1) = (c, l)" by force
  have ml: "m < l" "l \<le> length s" using cmp_p_pos [OF cl] m by auto
  show ?thesis
  proof (cases c)
    case None
    then show ?thesis using r cl m ml b groups_small_by_mono [of "m - (i + 1)" inner "j - i"]
      by (auto simp: close_group_def built_def split: if_splits)
  next
    case (Some c')
    obtain a q where al: "count_args s l = (a, q)" by force
    have k: "1 \<le> k" using b by (cases inner) (auto simp: built_def)
    show ?thesis using r cl m ml b Some al count_args_pos [OF al] k
      by (auto simp: close_group_def built_def list_all_iff split: if_splits option.splits)
  qed
qed

lemma one_or_built:
  assumes v: "v \<noteq> []" "i0 < i" "i \<le> length s" "mk = And \<or> mk = Or"
    and m: "\<And>m. m \<in> set v \<Longrightarrow> \<exists>a b. i0 \<le> a \<and> b \<le> i \<and> built s k a m b"
    and ids: "length (concat (map ids_of v)) \<le> i - i0"
  shows "built s (k + 1) i0 (one_or mk v) i"
proof -
  have each: "shaped x \<and> height x \<le> k \<and> groups_small_by (i - i0) x \<and> ids_of x \<noteq> [] \<and>
      (\<forall>y \<in> set (ids_of x). y < 2 ^ 64)" if x: "x \<in> set v" for x
  proof -
    from m [OF x] obtain a b where ab: "i0 \<le> a" "b \<le> i" "built s k a x b" by blast
    then show ?thesis using groups_small_by_mono [of "b - a" x "i - i0"]
      by (auto simp: built_def diff_le_mono2 order.trans [OF diff_le_mono])
  qed
  then have "groups_small_by (i - i0) (one_or mk v)"
    using v by (auto simp: one_or_def list_all_iff)
  moreover have "concat (map ids_of v) \<noteq> []" using v each by (cases v) auto
  ultimately show ?thesis
    using v ids each one_or_facts [of v k mk] by (auto simp: built_def)
qed

text \<open>The operands a loop has collected between \<open>i0\<close> and its position \<open>i\<close>.\<close>

definition operands :: "bytes \<Rightarrow> nat \<Rightarrow> nat \<Rightarrow> node list \<Rightarrow> nat \<Rightarrow> bool" where
  "operands s k i0 v i \<longleftrightarrow> v \<noteq> [] \<and> i0 < i \<and> i \<le> length s \<and>
     (\<forall>m \<in> set v. \<exists>a b. i0 \<le> a \<and> b \<le> i \<and> built s k a m b) \<and>
     length (concat (map ids_of v)) \<le> i - i0"

lemma operands_one: "built s k i n j \<Longrightarrow> operands s k i [n] j"
  by (auto simp: operands_def built_def intro: exI [of _ i])

lemma operands_more:
  "operands s k i0 v i \<Longrightarrow> built s k (i + 1) n j \<Longrightarrow> operands s k i0 (v @ [n]) j"
proof -
  assume v: "operands s k i0 v i" and n: "built s k (i + 1) n j"
  have ij: "i < j" "j \<le> length s" "length (ids_of n) \<le> j - i"
    using n by (auto simp: built_def)
  have "\<exists>a b. i0 \<le> a \<and> b \<le> j \<and> built s k a m b" if m: "m \<in> set (v @ [n])" for m
  proof (cases "m = n")
    case True
    then show ?thesis using n v ij by (intro exI [of _ "i + 1"] exI [of _ j]) (auto simp: operands_def)
  next
    case False
    with m v obtain a b where "i0 \<le> a" "b \<le> i" "built s k a m b" by (auto simp: operands_def)
    then show ?thesis using ij by (intro exI [of _ a] exI [of _ b]) auto
  qed
  moreover have "length (concat (map ids_of (v @ [n]))) \<le> j - i0"
    using v ij by (auto simp: operands_def)
  ultimately show "operands s k i0 (v @ [n]) j"
    using v ij unfolding operands_def by auto
qed

lemma built_mono: "built s k i n j \<Longrightarrow> k \<le> k' \<Longrightarrow> built s k' i n j"
  by (simp add: built_def)

lemma operands_built:
  "operands s k i0 v i \<Longrightarrow> mk = And \<or> mk = Or \<Longrightarrow> built s (k + 1) i0 (one_or mk v) i"
  unfolding operands_def by (intro one_or_built) auto

abbreviation atom_height :: "nat \<Rightarrow> nat" where
  "atom_height d \<equiv> 1 + 2 * (MAX_NESTING - d)"

lemma parse_built:
  "p_or f s d i = POk n j \<Longrightarrow> built s (atom_height d + 2) i n j"
  "p_or_loop f s d v i = POk n j \<Longrightarrow> operands s (atom_height d + 1) i0 v i \<Longrightarrow>
     built s (atom_height d + 2) i0 n j"
  "p_and f s d i = POk n j \<Longrightarrow> built s (atom_height d + 1) i n j"
  "p_and_loop f s d v i = POk n j \<Longrightarrow> operands s (atom_height d) i0 v i \<Longrightarrow>
     built s (atom_height d + 1) i0 n j"
  "p_atom f s d i = POk n j \<Longrightarrow> built s (atom_height d) i n j"
proof (induction f s d i and f s d v i and f s d i and f s d v i and f s d i
    arbitrary: n j and n j i0 and n j and n j i0 and n j
    rule: p_or_p_or_loop_p_and_p_and_loop_p_atom.induct)
  case (2 f s d i)
  from "2.prems" obtain m k where mk: "p_and f s d i = POk m k" "p_or_loop f s d [m] k = POk n j"
    by auto
  then have "operands s (atom_height d + 1) i [m] k"
    using "2.IH"(1) by (intro operands_one)
  with "2.IH"(2) mk show ?case by blast
next
  case (4 f s d v i)
  show ?case
  proof (cases "peek s i = Some 0x7C")
    case True
    with "4.prems" obtain m k where
      mk: "p_and f s d (i + 1) = POk m k" "p_or_loop f s d (v @ [m]) k = POk n j" by auto
    then have "operands s (atom_height d + 1) i0 (v @ [m]) k"
      using "4.IH"(1) [OF True] "4.prems"(2) by (intro operands_more)
    with "4.IH"(2) [OF True] mk show ?thesis by blast
  next
    case False
    with "4.prems" operands_built [of s _ i0 v i Or] show ?thesis by auto
  qed
next
  case (6 f s d i)
  from "6.prems" obtain m k where mk: "p_atom f s d i = POk m k" "p_and_loop f s d [m] k = POk n j"
    by auto
  then have "operands s (atom_height d) i [m] k"
    using "6.IH"(1) by (intro operands_one)
  with "6.IH"(2) mk show ?case by blast
next
  case (8 f s d v i)
  show ?case
  proof (cases "peek s i = Some 0x26")
    case True
    with "8.prems" obtain m k where
      mk: "p_atom f s d (i + 1) = POk m k" "p_and_loop f s d (v @ [m]) k = POk n j" by auto
    then have "operands s (atom_height d) i0 (v @ [m]) k"
      using "8.IH"(1) [OF True] "8.prems"(2) by (intro operands_more)
    with "8.IH"(2) [OF True] mk show ?thesis by blast
  next
    case False
    with "8.prems" operands_built [of s _ i0 v i And] show ?thesis by auto
  qed
next
  case (10 f s d i)
  then obtain b where b: "peek s i = Some b" by (auto split: option.splits)
  show ?case
  proof (cases "b = 0x28")
    case True
    with "10.prems" b obtain inner m where d: "\<not> MAX_NESTING \<le> d"
      and m: "p_or f s (d + 1) (i + 1) = POk inner m" "close_group s inner m = POk n j"
      by (auto split: if_splits)
    have "built s (atom_height (d + 1) + 2) (i + 1) inner m"
      by (rule "10.IH" [OF b True d m(1)])
    then have "built s (atom_height d) (i + 1) inner m"
      by (rule built_mono) (use d in simp)
    with m(2) show ?thesis by (rule built_close_group)
  next
    case False
    with "10.prems" b have "sub_ref s i = POk n j" by (auto split: if_splits)
    from built_mono [OF built_sub_ref [OF this]] show ?thesis by simp
  qed
qed simp_all

section \<open>The fuel is enough\<close>

lemma sub_ref_no_fuel [simp]: "sub_ref s i \<noteq> PFuel"
  and close_group_no_fuel [simp]: "close_group s n i \<noteq> PFuel"
  by (auto simp: sub_ref_def close_group_def split: prod.splits option.splits)

lemma parse_pos:
  "p_and f s d i = POk n j \<Longrightarrow> i < j \<and> j \<le> length s"
  "p_atom f s d i = POk n j \<Longrightarrow> i < j \<and> j \<le> length s"
  by (blast dest: parse_built(3,5) [unfolded built_def])+

lemma parse_fuel_enough:
  "6 * (length s - i) + 3 \<le> f \<Longrightarrow> p_or f s d i \<noteq> PFuel"
  "6 * (length s - i) + 1 \<le> f \<Longrightarrow> p_or_loop f s d v i \<noteq> PFuel"
  "6 * (length s - i) + 2 \<le> f \<Longrightarrow> p_and f s d i \<noteq> PFuel"
  "6 * (length s - i) + 1 \<le> f \<Longrightarrow> p_and_loop f s d v i \<noteq> PFuel"
  "6 * (length s - i) + 1 \<le> f \<Longrightarrow> p_atom f s d i \<noteq> PFuel"
proof (induction f s d i and f s d v i and f s d i and f s d v i and f s d i
    rule: p_or_p_or_loop_p_and_p_and_loop_p_atom.induct)
  case (2 f s d i)
  then show ?case using parse_pos(1) by fastforce
next
  case (4 f s d v i)
  show ?case
  proof (cases "peek s i = Some 0x7C")
    case True
    then have i: "i < length s" using peek_Some by blast
    have "p_and f s d (i + 1) \<noteq> PFuel"
      by (rule "4.IH"(1) [OF True]) (use i "4.prems" in linarith)
    moreover have "p_or_loop f s d (v @ [m]) k \<noteq> PFuel" if "p_and f s d (i + 1) = POk m k" for m k
      by (rule "4.IH"(2) [OF True that]) (use parse_pos(1) [OF that] "4.prems" in linarith)
    ultimately show ?thesis by auto
  qed simp
next
  case (6 f s d i)
  then show ?case using parse_pos(2) by fastforce
next
  case (8 f s d v i)
  show ?case
  proof (cases "peek s i = Some 0x26")
    case True
    then have i: "i < length s" using peek_Some by blast
    have "p_atom f s d (i + 1) \<noteq> PFuel"
      by (rule "8.IH"(1) [OF True]) (use i "8.prems" in linarith)
    moreover have "p_and_loop f s d (v @ [m]) k \<noteq> PFuel" if "p_atom f s d (i + 1) = POk m k" for m k
      by (rule "8.IH"(2) [OF True that]) (use parse_pos(2) [OF that] "8.prems" in linarith)
    ultimately show ?thesis by auto
  qed simp
next
  case (10 f s d i)
  show ?case
  proof (cases "peek s i = Some 0x28 \<and> \<not> MAX_NESTING \<le> d")
    case True
    then have i: "i < length s" using peek_Some by blast
    have "p_or f s (d + 1) (i + 1) \<noteq> PFuel"
      by (rule "10.IH") (use True i "10.prems" in auto)
    then show ?thesis using True by auto
  next
    case False
    then show ?thesis by (auto split: option.splits)
  qed
qed simp_all

lemma pbind_stable:
  assumes "pbind r k = q" "q \<noteq> PFuel" "r \<noteq> PFuel \<Longrightarrow> r' = r"
    and "\<And>n i. r = POk n i \<Longrightarrow> k n i \<noteq> PFuel \<Longrightarrow> k' n i = k n i"
  shows "pbind r' k' = q"
  using assms by (cases r) (auto simp: pbind_def)

lemma parse_more_fuel:
  "p_or f s d i = r \<Longrightarrow> r \<noteq> PFuel \<Longrightarrow> p_or (Suc f) s d i = r"
  "p_or_loop f s d v i = r \<Longrightarrow> r \<noteq> PFuel \<Longrightarrow> p_or_loop (Suc f) s d v i = r"
  "p_and f s d i = r \<Longrightarrow> r \<noteq> PFuel \<Longrightarrow> p_and (Suc f) s d i = r"
  "p_and_loop f s d v i = r \<Longrightarrow> r \<noteq> PFuel \<Longrightarrow> p_and_loop (Suc f) s d v i = r"
  "p_atom f s d i = r \<Longrightarrow> r \<noteq> PFuel \<Longrightarrow> p_atom (Suc f) s d i = r"
proof (induction f s d i and f s d v i and f s d i and f s d v i and f s d i
    arbitrary: r and r and r and r and r
    rule: p_or_p_or_loop_p_and_p_and_loop_p_atom.induct)
  case (2 f s d i)
  have "pbind (p_and f s d i) (\<lambda>n. p_or_loop f s d [n]) = r" using "2.prems" by simp
  then show ?case unfolding p_or.simps(2) [of "Suc f"]
    by (rule pbind_stable) (use "2" in auto)
next
  case (4 f s d v i)
  show ?case
  proof (cases "peek s i = Some 0x7C")
    case True
    have "pbind (p_and f s d (i + 1)) (\<lambda>n. p_or_loop f s d (v @ [n])) = r"
      using "4.prems" True by simp
    then have "pbind (p_and (Suc f) s d (i + 1)) (\<lambda>n. p_or_loop (Suc f) s d (v @ [n])) = r"
      by (rule pbind_stable) (use "4" True in auto)
    then show ?thesis unfolding p_or_loop.simps(2) [of "Suc f"] using True by simp
  next
    case False
    with "4.prems" show ?thesis by simp
  qed
next
  case (6 f s d i)
  have "pbind (p_atom f s d i) (\<lambda>n. p_and_loop f s d [n]) = r" using "6.prems" by simp
  then show ?case unfolding p_and.simps(2) [of "Suc f"]
    by (rule pbind_stable) (use "6" in auto)
next
  case (8 f s d v i)
  show ?case
  proof (cases "peek s i = Some 0x26")
    case True
    have "pbind (p_atom f s d (i + 1)) (\<lambda>n. p_and_loop f s d (v @ [n])) = r"
      using "8.prems" True by simp
    then have "pbind (p_atom (Suc f) s d (i + 1)) (\<lambda>n. p_and_loop (Suc f) s d (v @ [n])) = r"
      by (rule pbind_stable) (use "8" True in auto)
    then show ?thesis unfolding p_and_loop.simps(2) [of "Suc f"] using True by simp
  next
    case False
    with "8.prems" show ?thesis by simp
  qed
next
  case (10 f s d i)
  show ?case
  proof (cases "peek s i = Some 0x28 \<and> \<not> MAX_NESTING \<le> d")
    case True
    have "pbind (p_or f s (d + 1) (i + 1)) (close_group s) = r"
      using "10.prems" True by simp
    then have "pbind (p_or (Suc f) s (d + 1) (i + 1)) (close_group s) = r"
      by (rule pbind_stable) (use "10" True in auto)
    then show ?thesis unfolding p_atom.simps(2) [of "Suc f"] using True by simp
  next
    case False
    with "10.prems" show ?thesis by (auto split: option.splits)
  qed
qed simp_all

end
