(* ===== verification/Logic_Roundtrip.thy ===== *)
theory Logic_Roundtrip
  imports Logic_Parse
begin

text \<open>
  A printer for logical-signature expressions and the proof that \<open>parse_expr\<close> inverts it on
  every well-shaped expression whose parentheses stay within \<^verbatim>\<open>MAX_NESTING\<close>. The grammar's
  productions become introduction rules for \<open>reads_or\<close>, \<open>reads_and\<close> and \<open>reads_atom\<close>,
  which say that some amount of fuel reads a node.
\<close>

section \<open>The printer\<close>

definition digit_byte :: "nat \<Rightarrow> u8" where
  "digit_byte k = of_nat (0x30 + k)"

fun nat_bytes :: "nat \<Rightarrow> bytes" where
  "nat_bytes n = (if n < 10 then [digit_byte n] else nat_bytes (n div 10) @ [digit_byte (n mod 10)])"

declare nat_bytes.simps [simp del]

definition cmp_byte :: "cmp \<Rightarrow> u8" where
  "cmp_byte c = (case c of CEq \<Rightarrow> 0x3D | CGt \<Rightarrow> 0x3E | CLt \<Rightarrow> 0x3C)"

fun join :: "u8 \<Rightarrow> bytes list \<Rightarrow> bytes" where
  "join sep [] = []"
| "join sep [x] = x"
| "join sep (x # y # xs) = x @ sep # join sep (y # xs)"

fun is_junction :: "node \<Rightarrow> bool" where
  "is_junction (And v) = True"
| "is_junction (Or v) = True"
| "is_junction _ = False"

definition paren :: "node \<Rightarrow> bytes \<Rightarrow> bytes" where
  "paren n t = (if is_junction n then 0x28 # t @ [0x29] else t)"

fun print_node :: "node \<Rightarrow> bytes" where
  "print_node (Sub i) = nat_bytes i"
| "print_node (SubCmp i c x) = nat_bytes i @ cmp_byte c # nat_bytes (unat x)"
| "print_node (GroupCmp ids c x y) =
     0x28 # join 0x7C (map nat_bytes ids) @ 0x29 # cmp_byte c # nat_bytes (unat x)
       @ (case y of None \<Rightarrow> [] | Some y \<Rightarrow> 0x2C # nat_bytes (unat y))"
| "print_node (And v) = join 0x26 (map (\<lambda>n. paren n (print_node n)) v)"
| "print_node (Or v) = join 0x7C (map (\<lambda>n. paren n (print_node n)) v)"

definition print_atom :: "node \<Rightarrow> bytes" where
  "print_atom n = paren n (print_node n)"

text \<open>Parentheses the printed form nests.\<close>

fun parens :: "node \<Rightarrow> nat" where
  "parens (GroupCmp ids c x y) = 1"
| "parens (And v) = fold (\<lambda>n h. max h (parens n + (if is_junction n then 1 else 0))) v 0"
| "parens (Or v) = fold (\<lambda>n h. max h (parens n + (if is_junction n then 1 else 0))) v 0"
| "parens _ = 0"

section \<open>Numbers\<close>

lemma unat_digit_byte: "k < 10 \<Longrightarrow> unat (digit_byte k) = 0x30 + k"
  unfolding digit_byte_def by (rule unat_of_nat_lt) simp

lemma is_digit_byte: "k < 10 \<Longrightarrow> is_digit (digit_byte k)"
  by (simp add: is_digit_def word_le_nat_alt unat_digit_byte)

lemma nat_bytes_digits: "list_all is_digit (nat_bytes n)"
  by (induction n rule: nat_bytes.induct, subst nat_bytes.simps) (auto simp: is_digit_byte)

lemma nat_bytes_nonempty [simp]: "nat_bytes n \<noteq> []"
  by (subst nat_bytes.simps) simp

lemma digits_val_snoc: "digits_val (ds @ [b]) = 10 * digits_val ds + (unat b - 0x30)"
  by (simp add: digits_val_def)

lemma digits_val_nat_bytes: "digits_val (nat_bytes n) = n"
proof (induction n rule: nat_bytes.induct)
  case (1 n)
  show ?case
  proof (cases "n < 10")
    case True
    then show ?thesis by (subst nat_bytes.simps) (simp add: digits_val_def unat_digit_byte)
  next
    case False
    then have "digits_val (nat_bytes n) = 10 * (n div 10) + (unat (digit_byte (n mod 10)) - 0x30)"
      using "1.IH" by (subst nat_bytes.simps) (simp add: digits_val_snoc)
    then show ?thesis by (simp add: unat_digit_byte)
  qed
qed

section \<open>Reading what was printed\<close>

lemma drop_peek:
  "drop i s = b # r \<Longrightarrow> peek s i = Some b \<and> drop (Suc i) s = r \<and> i < length s"
  by (metis Cons_nth_drop_Suc drop_all list.distinct(1) list.inject not_le peek_def)

lemma drop_peek_None [simp]: "length s \<le> i \<Longrightarrow> peek s i = None"
  by (simp add: peek_def)

lemma drop_advance: "drop i s = t @ r \<Longrightarrow> drop (i + length t) s = r"
  by (metis add.commute append_eq_conv_conj drop_drop)

definition not_digit_head :: "bytes \<Rightarrow> bool" where
  "not_digit_head r \<longleftrightarrow> (case r of [] \<Rightarrow> True | b # _ \<Rightarrow> \<not> is_digit b)"

lemma number_nat_bytes:
  assumes "drop i s = nat_bytes n @ r" "not_digit_head r" "n < 2 ^ 64"
  shows "number s i = (Some n, i + length (nat_bytes n))"
proof -
  have "takeWhile is_digit (nat_bytes n @ r) = nat_bytes n"
    using nat_bytes_digits [of n] assms(2)
    by (cases r) (auto simp: not_digit_head_def list_all_iff takeWhile_append)
  then have "digit_run s i = nat_bytes n" using assms(1) by (simp add: digit_run_def)
  then show ?thesis using assms(3) by (simp add: number_def digits_val_nat_bytes)
qed

lemma count_p_nat_bytes:
  assumes "drop i s = nat_bytes (unat x) @ r" "not_digit_head r"
  shows "count_p s i = (Some x, i + length (nat_bytes (unat x)))"
proof -
  have "unat x < 2 ^ 64" using unat_bound [of x] by simp
  then show ?thesis using number_nat_bytes [OF assms] by (simp add: count_p_def)
qed

text \<open>What may follow a printed operand: the end, \<open>&\<close>, \<open>|\<close> or a closing parenthesis.\<close>

definition stop_head :: "bytes \<Rightarrow> bool" where
  "stop_head r \<longleftrightarrow> (case r of [] \<Rightarrow> True | b # _ \<Rightarrow> b \<in> {0x26, 0x7C, 0x29})"

lemma stop_not_digit: "stop_head r \<Longrightarrow> not_digit_head r"
  by (auto simp: stop_head_def not_digit_head_def is_digit_def split: list.splits)

lemma cmp_p_stop: "drop i s = r \<Longrightarrow> stop_head r \<Longrightarrow> cmp_p s i = (None, i)"
  by (cases r) (auto simp: cmp_p_def stop_head_def dest: drop_peek drop_peek_None)

lemma skip_stop: "drop i s = r \<Longrightarrow> stop_head r \<Longrightarrow> skip_colon_suffix s i = i"
  by (cases r) (auto simp: skip_colon_suffix_def stop_head_def dest: drop_peek drop_peek_None)

lemma nat_bytes_head: "\<exists>b t. nat_bytes n = b # t \<and> is_digit b"
  using nat_bytes_digits [of n] by (cases "nat_bytes n") auto

lemma cmp_p_byte:
  assumes "drop i s = cmp_byte c # nat_bytes n @ r"
  shows "cmp_p s i = (Some c, i + 1)"
proof -
  obtain b t where b: "nat_bytes n = b # t" "is_digit b" using nat_bytes_head by blast
  have p: "peek s i = Some (cmp_byte c)" "peek s (i + 1) = Some b"
    using assms b drop_peek [of i s] drop_peek [of "i + 1" s] by auto
  have "b \<noteq> 0x3D" using b(2) by (auto simp: is_digit_def)
  with p show ?thesis by (cases c) (auto simp: cmp_p_def cmp_byte_def)
qed

definition print_args :: "u32 \<Rightarrow> u32 option \<Rightarrow> bytes" where
  "print_args x y = nat_bytes (unat x) @ (case y of None \<Rightarrow> [] | Some y \<Rightarrow> 0x2C # nat_bytes (unat y))"

lemma count_args_print:
  assumes d: "drop i s = print_args x y @ r" and r: "stop_head r"
  shows "count_args s i = (Some (x, y), i + length (print_args x y))"
proof (cases y)
  case None
  then have x: "count_p s i = (Some x, i + length (nat_bytes (unat x)))"
    using d r by (intro count_p_nat_bytes [OF _ stop_not_digit]) (simp_all add: print_args_def)
  have "drop (i + length (nat_bytes (unat x))) s = r"
    using d None by (intro drop_advance) (simp add: print_args_def)
  then have "peek s (i + length (nat_bytes (unat x))) \<noteq> Some 0x2C"
    using r by (cases r) (auto simp: stop_head_def dest: drop_peek drop_peek_None)
  with x None show ?thesis by (simp add: count_args_def print_args_def)
next
  case (Some z)
  let ?j = "i + length (nat_bytes (unat x))"
  have d1: "drop i s = nat_bytes (unat x) @ 0x2C # nat_bytes (unat z) @ r"
    using d Some by (simp add: print_args_def)
  have x: "count_p s i = (Some x, ?j)"
    by (rule count_p_nat_bytes [OF d1]) (simp add: not_digit_head_def is_digit_def)
  have d2: "drop ?j s = 0x2C # nat_bytes (unat z) @ r" by (rule drop_advance [OF d1])
  have "count_p s (?j + 1) = (Some z, ?j + 1 + length (nat_bytes (unat z)))"
    using drop_peek [OF d2] by (intro count_p_nat_bytes [OF _ stop_not_digit [OF r]]) simp
  then show ?thesis using x drop_peek [OF d2] Some by (simp add: count_args_def print_args_def)
qed

section \<open>Productions as rules\<close>

definition reads_or :: "bytes \<Rightarrow> nat \<Rightarrow> nat \<Rightarrow> node \<Rightarrow> nat \<Rightarrow> bool" where
  "reads_or s d i n j \<longleftrightarrow> (\<exists>f. p_or f s d i = POk n j)"

definition reads_and :: "bytes \<Rightarrow> nat \<Rightarrow> nat \<Rightarrow> node \<Rightarrow> nat \<Rightarrow> bool" where
  "reads_and s d i n j \<longleftrightarrow> (\<exists>f. p_and f s d i = POk n j)"

definition reads_atom :: "bytes \<Rightarrow> nat \<Rightarrow> nat \<Rightarrow> node \<Rightarrow> nat \<Rightarrow> bool" where
  "reads_atom s d i n j \<longleftrightarrow> (\<exists>f. p_atom f s d i = POk n j)"

definition reads_or_loop :: "bytes \<Rightarrow> nat \<Rightarrow> node list \<Rightarrow> nat \<Rightarrow> node \<Rightarrow> nat \<Rightarrow> bool" where
  "reads_or_loop s d v i n j \<longleftrightarrow> (\<exists>f. p_or_loop f s d v i = POk n j)"

definition reads_and_loop :: "bytes \<Rightarrow> nat \<Rightarrow> node list \<Rightarrow> nat \<Rightarrow> node \<Rightarrow> nat \<Rightarrow> bool" where
  "reads_and_loop s d v i n j \<longleftrightarrow> (\<exists>f. p_and_loop f s d v i = POk n j)"

lemma fuel_mono:
  "p_or f s d i = POk n j \<Longrightarrow> p_or (f + k) s d i = POk n j"
  "p_or_loop f s d v i = POk n j \<Longrightarrow> p_or_loop (f + k) s d v i = POk n j"
  "p_and f s d i = POk n j \<Longrightarrow> p_and (f + k) s d i = POk n j"
  "p_and_loop f s d v i = POk n j \<Longrightarrow> p_and_loop (f + k) s d v i = POk n j"
  "p_atom f s d i = POk n j \<Longrightarrow> p_atom (f + k) s d i = POk n j"
  by (induction k) (simp_all only: add_0_right add_Suc_right parse_more_fuel pres.distinct not_False_eq_True)

lemma reads_orI:
  assumes "reads_and s d i m k" "reads_or_loop s d [m] k n j"
  shows "reads_or s d i n j"
proof -
  from assms obtain f g where "p_and f s d i = POk m k" "p_or_loop g s d [m] k = POk n j"
    by (auto simp: reads_and_def reads_or_loop_def)
  then have "p_or (Suc (f + g)) s d i = POk n j"
    using fuel_mono(3) [of f s d i m k g] fuel_mono(2) [of g s d "[m]" k n j f]
    by (auto simp: add.commute)
  then show ?thesis unfolding reads_or_def by blast
qed

lemma reads_andI:
  assumes "reads_atom s d i m k" "reads_and_loop s d [m] k n j"
  shows "reads_and s d i n j"
proof -
  from assms obtain f g where "p_atom f s d i = POk m k" "p_and_loop g s d [m] k = POk n j"
    by (auto simp: reads_atom_def reads_and_loop_def)
  then have "p_and (Suc (f + g)) s d i = POk n j"
    using fuel_mono(5) [of f s d i m k g] fuel_mono(4) [of g s d "[m]" k n j f]
    by (auto simp: add.commute)
  then show ?thesis unfolding reads_and_def by blast
qed

lemma reads_or_loop_more:
  assumes "peek s i = Some 0x7C" "reads_and s d (i + 1) m k" "reads_or_loop s d (v @ [m]) k n j"
  shows "reads_or_loop s d v i n j"
proof -
  from assms obtain f g where "p_and f s d (i + 1) = POk m k" "p_or_loop g s d (v @ [m]) k = POk n j"
    by (auto simp: reads_and_def reads_or_loop_def)
  then have "p_or_loop (Suc (f + g)) s d v i = POk n j"
    using assms(1) fuel_mono(3) [of f s d "i + 1" m k g] fuel_mono(2) [of g s d "v @ [m]" k n j f]
    by (auto simp: add.commute)
  then show ?thesis unfolding reads_or_loop_def by blast
qed

lemma reads_and_loop_more:
  assumes "peek s i = Some 0x26" "reads_atom s d (i + 1) m k" "reads_and_loop s d (v @ [m]) k n j"
  shows "reads_and_loop s d v i n j"
proof -
  from assms obtain f g where "p_atom f s d (i + 1) = POk m k" "p_and_loop g s d (v @ [m]) k = POk n j"
    by (auto simp: reads_atom_def reads_and_loop_def)
  then have "p_and_loop (Suc (f + g)) s d v i = POk n j"
    using assms(1) fuel_mono(5) [of f s d "i + 1" m k g] fuel_mono(4) [of g s d "v @ [m]" k n j f]
    by (auto simp: add.commute)
  then show ?thesis unfolding reads_and_loop_def by blast
qed

lemma reads_or_loop_end: "peek s i \<noteq> Some 0x7C \<Longrightarrow> reads_or_loop s d v i (one_or Or v) i"
  and reads_and_loop_end: "peek s i \<noteq> Some 0x26 \<Longrightarrow> reads_and_loop s d v i (one_or And v) i"
  unfolding reads_or_loop_def reads_and_loop_def by (auto intro: exI [of _ "Suc 0"])

lemma reads_and_single: "reads_atom s d i n j \<Longrightarrow> peek s j \<noteq> Some 0x26 \<Longrightarrow> reads_and s d i n j"
  using reads_andI [of s d i n j n j] reads_and_loop_end [of s j d "[n]"] by (simp add: one_or_def)

lemma reads_or_single: "reads_and s d i n j \<Longrightarrow> peek s j \<noteq> Some 0x7C \<Longrightarrow> reads_or s d i n j"
  using reads_orI [of s d i n j n j] reads_or_loop_end [of s j d "[n]"] by (simp add: one_or_def)

lemma reads_atom_paren:
  assumes "peek s i = Some 0x28" "d < MAX_NESTING" "reads_or s (d + 1) (i + 1) m k"
    and "close_group s m k = POk n j"
  shows "reads_atom s d i n j"
proof -
  from assms obtain f where "p_or f s (d + 1) (i + 1) = POk m k" by (auto simp: reads_or_def)
  with assms have "p_atom (Suc f) s d i = POk n j" by simp
  then show ?thesis unfolding reads_atom_def by blast
qed

lemma reads_atom_sub:
  assumes "peek s i = Some b" "is_digit b" "sub_ref s i = POk n j"
  shows "reads_atom s d i n j"
proof -
  have "b \<noteq> 0x28" using assms(2) by (auto simp: is_digit_def)
  with assms have "p_atom (Suc 0) s d i = POk n j" by simp
  then show ?thesis unfolding reads_atom_def by blast
qed

lemmas parse_eval = parse_expr_def parse_fuel_def is_ascii_whitespace_def pbind_def peek_def
  is_digit_def sub_ref_def close_group_def number_def digit_run_def digits_val_def count_p_def
  count_args_def cmp_p_def clamp_u32_def one_or_def skip_colon_suffix_def MAX_NESTING_def
  p_or.simps(2) [of "pred_numeral k", folded numeral_eq_Suc]
  p_or_loop.simps(2) [of "pred_numeral k", folded numeral_eq_Suc]
  p_and.simps(2) [of "pred_numeral k", folded numeral_eq_Suc]
  p_and_loop.simps(2) [of "pred_numeral k", folded numeral_eq_Suc]
  p_atom.simps(2) [of "pred_numeral k", folded numeral_eq_Suc] for k

section \<open>The parser inverts the printer\<close>

definition aparens :: "node \<Rightarrow> nat" where
  "aparens n = parens n + (if is_junction n then 1 else 0)"

definition atom_ok :: "bytes \<Rightarrow> node \<Rightarrow> bool" where
  "atom_ok s n \<longleftrightarrow> (\<forall>i d r. drop i s = print_atom n @ r \<longrightarrow> stop_head r \<longrightarrow> d + aparens n \<le> MAX_NESTING \<longrightarrow>
     reads_atom s d i n (i + length (print_atom n)))"

lemma atom_okD:
  "atom_ok s n \<Longrightarrow> drop i s = print_atom n @ r \<Longrightarrow> stop_head r \<Longrightarrow> d + aparens n \<le> MAX_NESTING \<Longrightarrow>
   reads_atom s d i n (i + length (print_atom n))"
  by (simp add: atom_ok_def)

abbreviation or_end :: "bytes \<Rightarrow> bool" where
  "or_end r \<equiv> r = [] \<or> hd r = 0x29"

lemma or_end_stop: "or_end r \<Longrightarrow> stop_head r"
  by (cases r) (auto simp: stop_head_def)

lemma join_Cons: "join sep (x # xs) = x @ concat (map (\<lambda>y. sep # y) xs)"
  by (induction xs arbitrary: x) auto

lemma stop_chain: "sep \<in> {0x26, 0x7C} \<Longrightarrow> stop_head r \<Longrightarrow> stop_head (concat (map (\<lambda>m. sep # g m) ws) @ r)"
  by (cases ws) (auto simp: stop_head_def)

lemma peek_or_end: "drop i s = r \<Longrightarrow> or_end r \<Longrightarrow> b \<noteq> 0x29 \<Longrightarrow> peek s i \<noteq> Some b"
  by (cases r) (auto dest: drop_peek)

lemma and_chain:
  assumes "\<And>m. m \<in> set ws \<Longrightarrow> atom_ok s m \<and> d + aparens m \<le> MAX_NESTING"
    and "drop i s = concat (map (\<lambda>m. 0x26 # print_atom m) ws) @ r" "or_end r"
  shows "reads_and_loop s d v i (one_or And (v @ ws))
           (i + length (concat (map (\<lambda>m. 0x26 # print_atom m) ws)))"
  using assms
proof (induction ws arbitrary: v i)
  case Nil
  then show ?case using reads_and_loop_end [of s i d v] peek_or_end [of i s r "0x26"] by simp
next
  case (Cons w ws)
  let ?rest = "concat (map (\<lambda>m. 0x26 # print_atom m) ws) @ r" and ?k = "i + 1 + length (print_atom w)"
  have p: "peek s i = Some 0x26" and d1: "drop (i + 1) s = print_atom w @ ?rest"
    using Cons.prems(2) drop_peek [of i s "0x26"] by auto
  have atom: "reads_atom s d (i + 1) w ?k"
    by (rule atom_okD [OF _ d1]) (use Cons.prems(1) [of w] stop_chain or_end_stop [OF Cons.prems(3)] in auto)
  have "reads_and_loop s d (v @ [w]) ?k (one_or And ((v @ [w]) @ ws))
      (?k + length (concat (map (\<lambda>m. 0x26 # print_atom m) ws)))"
    by (rule Cons.IH [OF _ drop_advance [OF d1] Cons.prems(3)]) (use Cons.prems(1) in auto)
  from reads_and_loop_more [OF p atom this] show ?case by (simp add: add_ac)
qed

lemma or_chain:
  assumes "\<And>m. m \<in> set ws \<Longrightarrow> atom_ok s m \<and> d + aparens m \<le> MAX_NESTING"
    and "drop i s = concat (map (\<lambda>m. 0x7C # print_atom m) ws) @ r" "or_end r"
  shows "reads_or_loop s d v i (one_or Or (v @ ws))
           (i + length (concat (map (\<lambda>m. 0x7C # print_atom m) ws)))"
  using assms
proof (induction ws arbitrary: v i)
  case Nil
  then show ?case using reads_or_loop_end [of s i d v] peek_or_end [of i s r "0x7C"] by simp
next
  case (Cons w ws)
  let ?rest = "concat (map (\<lambda>m. 0x7C # print_atom m) ws) @ r" and ?k = "i + 1 + length (print_atom w)"
  have p: "peek s i = Some 0x7C" and d1: "drop (i + 1) s = print_atom w @ ?rest"
    using Cons.prems(2) drop_peek [of i s "0x7C"] by auto
  have "reads_atom s d (i + 1) w ?k"
    by (rule atom_okD [OF _ d1]) (use Cons.prems(1) [of w] stop_chain or_end_stop [OF Cons.prems(3)] in auto)
  moreover have "peek s ?k \<noteq> Some 0x26"
    using drop_advance [OF d1] Cons.prems(3) by (cases ws; cases r) (auto dest: drop_peek)
  ultimately have conj: "reads_and s d (i + 1) w ?k" by (rule reads_and_single)
  have "reads_or_loop s d (v @ [w]) ?k (one_or Or ((v @ [w]) @ ws))
      (?k + length (concat (map (\<lambda>m. 0x7C # print_atom m) ws)))"
    by (rule Cons.IH [OF _ drop_advance [OF d1] Cons.prems(3)]) (use Cons.prems(1) in auto)
  from reads_or_loop_more [OF p conj this] show ?case by (simp add: add_ac)
qed

lemma map_join: "join sep (map g (w # ws)) = g w @ concat (map (\<lambda>m. sep # g m) ws)"
  using join_Cons [of sep "g w" "map g ws"] by (simp add: o_def)

lemma reads_or_And:
  assumes "v \<noteq> []" "\<And>m. m \<in> set v \<Longrightarrow> atom_ok s m \<and> d + aparens m \<le> MAX_NESTING"
    and d: "drop i s = join 0x26 (map print_atom v) @ r" "or_end r"
  shows "reads_or s d i (one_or And v) (i + length (join 0x26 (map print_atom v)))"
proof -
  obtain w ws where v: "v = w # ws" using assms(1) by (cases v) auto
  let ?tail = "concat (map (\<lambda>m. 0x26 # print_atom m) ws)" and ?k = "i + length (print_atom w)"
  have d1: "drop i s = print_atom w @ ?tail @ r" using d(1) by (simp only: v map_join append_assoc)
  have "reads_atom s d i w ?k"
    by (rule atom_okD [OF _ d1]) (use assms(2) [of w] v stop_chain or_end_stop [OF d(2)] in auto)
  moreover have "reads_and_loop s d [w] ?k (one_or And ([w] @ ws)) (?k + length ?tail)"
    by (rule and_chain [OF _ drop_advance [OF d1] d(2)]) (use assms(2) v in auto)
  ultimately have "reads_and s d i (one_or And v) (?k + length ?tail)"
    unfolding v by (simp add: reads_andI)
  moreover have "peek s (?k + length ?tail) \<noteq> Some 0x7C"
    using drop_advance [OF drop_advance [OF d1]] d(2) by (intro peek_or_end) auto
  ultimately have "reads_or s d i (one_or And v) (?k + length ?tail)" by (rule reads_or_single)
  then show ?thesis by (simp only: v map_join length_append add.assoc)
qed

lemma reads_or_Or:
  assumes "v \<noteq> []" "\<And>m. m \<in> set v \<Longrightarrow> atom_ok s m \<and> d + aparens m \<le> MAX_NESTING"
    and d: "drop i s = join 0x7C (map print_atom v) @ r" "or_end r"
  shows "reads_or s d i (one_or Or v) (i + length (join 0x7C (map print_atom v)))"
proof -
  obtain w ws where v: "v = w # ws" using assms(1) by (cases v) auto
  let ?tail = "concat (map (\<lambda>m. 0x7C # print_atom m) ws)" and ?k = "i + length (print_atom w)"
  have d1: "drop i s = print_atom w @ ?tail @ r" using d(1) by (simp only: v map_join append_assoc)
  have "reads_atom s d i w ?k"
    by (rule atom_okD [OF _ d1]) (use assms(2) [of w] v stop_chain or_end_stop [OF d(2)] in auto)
  moreover have "peek s ?k \<noteq> Some 0x26"
    using drop_advance [OF d1] d(2) by (cases ws; cases r) (auto dest: drop_peek)
  ultimately have "reads_and s d i w ?k" by (rule reads_and_single)
  moreover have "reads_or_loop s d [w] ?k (one_or Or ([w] @ ws)) (?k + length ?tail)"
    by (rule or_chain [OF _ drop_advance [OF d1] d(2)]) (use assms(2) v in auto)
  ultimately have "reads_or s d i (one_or Or v) (?k + length ?tail)"
    unfolding v by (simp add: reads_orI)
  then show ?thesis by (simp only: v map_join length_append add.assoc)
qed

lemma nat_bytes_peek: "drop i s = nat_bytes m @ r \<Longrightarrow> \<exists>b. peek s i = Some b \<and> is_digit b"
proof -
  assume d: "drop i s = nat_bytes m @ r"
  obtain b t where b: "nat_bytes m = b # t" "is_digit b" using nat_bytes_head [of m] by blast
  have "drop i s = b # t @ r" using d b by simp
  then show ?thesis using drop_peek [of i s b "t @ r"] b(2) by blast
qed

lemma atom_ok_Sub: "m < 2 ^ 64 \<Longrightarrow> atom_ok s (Sub m)"
  unfolding atom_ok_def
proof (intro allI impI)
  fix i d r
  assume m: "m < 2 ^ 64" and d: "drop i s = print_atom (Sub m) @ r" and r: "stop_head r"
  from d have d': "drop i s = nat_bytes m @ r" by (simp add: print_atom_def paren_def)
  let ?j = "i + length (nat_bytes m)"
  have "sub_ref s i = POk (Sub m) ?j"
    using number_nat_bytes [OF d' stop_not_digit [OF r] m] drop_advance [OF d']
      cmp_p_stop [of ?j s r] skip_stop [of ?j s r] r by (simp add: sub_ref_def)
  then show "reads_atom s d i (Sub m) (i + length (print_atom (Sub m)))"
    using nat_bytes_peek [OF d'] by (auto intro: reads_atom_sub simp: print_atom_def paren_def)
qed

lemma atom_ok_SubCmp: "m < 2 ^ 64 \<Longrightarrow> atom_ok s (SubCmp m c x)"
  unfolding atom_ok_def
proof (intro allI impI)
  fix i d r
  assume m: "m < 2 ^ 64" and d: "drop i s = print_atom (SubCmp m c x) @ r" and r: "stop_head r"
  let ?t = "print_args x None"
  from d have d': "drop i s = nat_bytes m @ cmp_byte c # ?t @ r"
    by (simp add: print_atom_def paren_def print_args_def)
  let ?j = "i + length (nat_bytes m)"
  have nd: "not_digit_head (cmp_byte c # ?t @ r)"
    by (cases c) (auto simp: not_digit_head_def cmp_byte_def is_digit_def)
  have d2: "drop ?j s = cmp_byte c # ?t @ r" by (rule drop_advance [OF d'])
  have d3: "drop (?j + 1) s = ?t @ r" using drop_peek [OF d2] by simp
  have "sub_ref s i = POk (SubCmp m c x) (?j + 1 + length ?t)"
    using number_nat_bytes [OF d' nd m] cmp_p_byte [of ?j s c "unat x" r] d2 count_args_print [OF d3 r]
    by (simp add: sub_ref_def print_args_def)
  then show "reads_atom s d i (SubCmp m c x) (i + length (print_atom (SubCmp m c x)))"
    using nat_bytes_peek [OF d'] by (auto intro: reads_atom_sub simp: print_atom_def paren_def print_args_def)
qed

lemma atom_ok_GroupCmp:
  assumes ids: "ids \<noteq> []" "list_all (\<lambda>i. i < 2 ^ 64) ids"
  shows "atom_ok s (GroupCmp ids c x y)"
  unfolding atom_ok_def
proof (intro allI impI)
  fix i d r
  assume d: "drop i s = print_atom (GroupCmp ids c x y) @ r" and r: "stop_head r"
    and nest: "d + aparens (GroupCmp ids c x y) \<le> MAX_NESTING"
  let ?v = "map Sub ids"
  let ?in = "join 0x7C (map print_atom ?v)" and ?t = "print_args x y"
  have v: "map print_atom ?v = map nat_bytes ids" by (simp add: print_atom_def paren_def)
  have d': "drop i s = 0x28 # ?in @ 0x29 # cmp_byte c # ?t @ r"
    using d unfolding v by (simp add: print_atom_def paren_def print_args_def)
  have d1: "drop (i + 1) s = ?in @ 0x29 # cmp_byte c # ?t @ r" using drop_peek [OF d'] by simp
  let ?k = "i + 1 + length ?in"
  have d2: "drop ?k s = 0x29 # cmp_byte c # ?t @ r" by (rule drop_advance [OF d1])
  have d3: "drop (?k + 1) s = cmp_byte c # ?t @ r" using drop_peek [OF d2] by simp
  have d4: "drop (?k + 2) s = ?t @ r" using drop_peek [OF d3] by simp
  have inner: "reads_or s (d + 1) (i + 1) (one_or Or ?v) ?k"
    by (rule reads_or_Or [OF _ _ d1])
       (use ids nest in \<open>auto simp: list_all_iff atom_ok_Sub aparens_def\<close>)
  have "ids_of (one_or Or ?v) = concat (map ids_of ?v)"
    by (rule one_or_facts(3) [of _ 1]) (use ids in \<open>auto simp: list_all_iff\<close>)
  then have "ids_of (one_or Or ?v) = ids" by (simp add: o_def)
  then have "close_group s (one_or Or ?v) ?k = POk (GroupCmp ids c x y) (?k + 2 + length ?t)"
    using drop_peek [OF d2] cmp_p_byte [of "?k + 1" s c "unat x"] d3 count_args_print [OF d4 r]
    by (simp add: close_group_def print_args_def)
  then have "reads_atom s d i (GroupCmp ids c x y) (?k + 2 + length ?t)"
    by (intro reads_atom_paren [OF _ _ inner]) (use drop_peek [OF d'] nest in \<open>auto simp: aparens_def\<close>)
  then show "reads_atom s d i (GroupCmp ids c x y) (i + length (print_atom (GroupCmp ids c x y)))"
    unfolding v by (simp add: print_atom_def paren_def print_args_def add_ac)
qed

lemma atom_ok_junction:
  assumes j: "is_junction n"
    and inner: "\<And>i d r. drop i s = print_node n @ r \<Longrightarrow> or_end r \<Longrightarrow> d + parens n \<le> MAX_NESTING \<Longrightarrow>
       reads_or s d i n (i + length (print_node n))"
  shows "atom_ok s n"
  unfolding atom_ok_def
proof (intro allI impI)
  fix i d r
  assume d: "drop i s = print_atom n @ r" and r: "stop_head r" and nest: "d + aparens n \<le> MAX_NESTING"
  let ?k = "i + 1 + length (print_node n)"
  have d': "drop i s = 0x28 # print_node n @ 0x29 # r" using d j by (simp add: print_atom_def paren_def)
  have d1: "drop (i + 1) s = print_node n @ 0x29 # r" using drop_peek [OF d'] by simp
  have d2: "drop ?k s = 0x29 # r" by (rule drop_advance [OF d1])
  have d3: "drop (?k + 1) s = r" using drop_peek [OF d2] by simp
  have "reads_or s (d + 1) (i + 1) n ?k"
    by (rule inner [OF d1]) (use nest j in \<open>auto simp: aparens_def\<close>)
  moreover have "close_group s n ?k = POk n (?k + 1)"
    using drop_peek [OF d2] cmp_p_stop [OF d3 r] by (simp add: close_group_def)
  ultimately have "reads_atom s d i n (?k + 1)"
    by (intro reads_atom_paren) (use drop_peek [OF d'] nest j in \<open>auto simp: aparens_def\<close>)
  then show "reads_atom s d i n (i + length (print_atom n))"
    using j by (simp add: print_atom_def paren_def)
qed

lemma parens_junction_le:
  assumes "v \<noteq> []" "n = And v \<or> n = Or v"
  shows "d + parens n \<le> b \<longleftrightarrow> (\<forall>m \<in> set v. d + aparens m \<le> b)"
proof -
  have *: "d + fold (\<lambda>n h. max h (aparens n)) v h \<le> b \<longleftrightarrow> d + h \<le> b \<and> (\<forall>m\<in>set v. d + aparens m \<le> b)" for h
    by (induction v arbitrary: h) auto
  have "parens n = fold (\<lambda>n h. max h (aparens n)) v 0"
    using assms(2) by (auto simp: aparens_def)
  moreover have "(\<forall>m\<in>set v. d + aparens m \<le> b) \<Longrightarrow> d \<le> b" using assms(1) by (cases v) auto
  ultimately show ?thesis using * [of 0] by auto
qed

lemma print_junction: "print_node (And v) = join 0x26 (map print_atom v)"
  "print_node (Or v) = join 0x7C (map print_atom v)"
  by (simp_all add: print_atom_def [abs_def])

lemma shaped_atom_ok: "shaped n \<Longrightarrow> atom_ok s n"
proof (induction n)
  case (And v)
  then have v: "v \<noteq> []" "one_or And v = And v" "\<And>m. m \<in> set v \<Longrightarrow> atom_ok s m"
    by (auto simp: one_or_def list_all_iff)
  have "reads_or s d i (And v) (i + length (print_node (And v)))"
    if "drop i s = print_node (And v) @ r" "or_end r" "d + parens (And v) \<le> MAX_NESTING" for i d r
    using reads_or_And [OF v(1), of s d i r] v that parens_junction_le [OF v(1), of "And v"]
    by (simp add: print_junction del: print_node.simps parens.simps)
  then show ?case by (intro atom_ok_junction) simp_all
next
  case (Or v)
  then have v: "v \<noteq> []" "one_or Or v = Or v" "\<And>m. m \<in> set v \<Longrightarrow> atom_ok s m"
    by (auto simp: one_or_def list_all_iff)
  have "reads_or s d i (Or v) (i + length (print_node (Or v)))"
    if "drop i s = print_node (Or v) @ r" "or_end r" "d + parens (Or v) \<le> MAX_NESTING" for i d r
    using reads_or_Or [OF v(1), of s d i r] v that parens_junction_le [OF v(1), of "Or v"]
    by (simp add: print_junction del: print_node.simps parens.simps)
  then show ?case by (intro atom_ok_junction) simp_all
qed (simp_all add: atom_ok_Sub atom_ok_SubCmp atom_ok_GroupCmp)

lemma reads_or_print:
  assumes n: "shaped n" "parens n \<le> MAX_NESTING"
  shows "reads_or (print_node n) 0 0 n (length (print_node n))"
proof (cases "is_junction n")
  case False
  have ok: "atom_ok (print_node n) n" by (rule shaped_atom_ok [OF n(1)])
  have "reads_atom (print_node n) 0 0 n (0 + length (print_atom n))"
    by (rule atom_okD [OF ok, where r = "[]"])
       (use False n in \<open>auto simp: print_atom_def paren_def stop_head_def aparens_def\<close>)
  then have "reads_atom (print_node n) 0 0 n (length (print_node n))"
    using False by (simp add: print_atom_def paren_def)
  then show ?thesis by (intro reads_or_single reads_and_single) simp_all
next
  case True
  then consider v where "n = And v" | v where "n = Or v" by (cases n) auto
  then show ?thesis
  proof cases
    case 1
    then have v: "v \<noteq> []" "one_or And v = And v" "\<And>m. m \<in> set v \<Longrightarrow> atom_ok (print_node n) m"
      using n shaped_atom_ok by (auto simp: one_or_def list_all_iff)
    have "reads_or (print_node n) 0 0 (one_or And v) (0 + length (join 0x26 (map print_atom v)))"
      by (rule reads_or_And [OF v(1), where r = "[]"])
         (use 1 v n parens_junction_le [OF v(1), of n 0] in \<open>auto simp: print_junction simp del: print_node.simps parens.simps\<close>)
    then show ?thesis using 1 v by (simp add: print_junction del: print_node.simps)
  next
    case 2
    then have v: "v \<noteq> []" "one_or Or v = Or v" "\<And>m. m \<in> set v \<Longrightarrow> atom_ok (print_node n) m"
      using n shaped_atom_ok by (auto simp: one_or_def list_all_iff)
    have "reads_or (print_node n) 0 0 (one_or Or v) (0 + length (join 0x7C (map print_atom v)))"
      by (rule reads_or_Or [OF v(1), where r = "[]"])
         (use 2 v n parens_junction_le [OF v(1), of n 0] in \<open>auto simp: print_junction simp del: print_node.simps parens.simps\<close>)
    then show ?thesis using 2 v by (simp add: print_junction del: print_node.simps)
  qed
qed

lemma digit_not_ws: "is_digit b \<Longrightarrow> \<not> is_ascii_whitespace b"
  by (auto simp: is_digit_def is_ascii_whitespace_def)

lemma nat_bytes_no_ws: "b \<in> set (nat_bytes n) \<Longrightarrow> \<not> is_ascii_whitespace b"
  using nat_bytes_digits [of n] digit_not_ws by (auto simp: list_all_iff)

lemma join_set: "set (join sep xs) \<subseteq> insert sep (\<Union> (set ` set xs))"
  by (induction sep xs rule: join.induct) auto

lemma punct_no_ws:
  "\<not> is_ascii_whitespace 0x28" "\<not> is_ascii_whitespace 0x29" "\<not> is_ascii_whitespace 0x26"
  "\<not> is_ascii_whitespace 0x7C" "\<not> is_ascii_whitespace 0x2C" "\<not> is_ascii_whitespace (cmp_byte c)"
  by (simp_all add: is_ascii_whitespace_def cmp_byte_def split: cmp.split)

lemma print_node_no_ws: "b \<in> set (print_node n) \<Longrightarrow> \<not> is_ascii_whitespace b"
proof (induction n)
  case (GroupCmp ids c x y)
  then show ?case using join_set [of "0x7C" "map nat_bytes ids"]
    by (auto dest: nat_bytes_no_ws simp: punct_no_ws split: option.splits)
next
  case (And v)
  then have "b = 0x26 \<or> (\<exists>n \<in> set v. b \<in> set (paren n (print_node n)))"
    using join_set [of "0x26" "map (\<lambda>n. paren n (print_node n)) v"] by auto
  with And.IH show ?case by (auto simp: punct_no_ws paren_def split: if_splits)
next
  case (Or v)
  then have "b = 0x7C \<or> (\<exists>n \<in> set v. b \<in> set (paren n (print_node n)))"
    using join_set [of "0x7C" "map (\<lambda>n. paren n (print_node n)) v"] by auto
  with Or.IH show ?case by (auto simp: punct_no_ws paren_def split: if_splits)
qed (auto dest: nat_bytes_no_ws simp: punct_no_ws)

lemma parse_fuel_ok: "p_or (parse_fuel s) s d 0 \<noteq> PFuel"
  by (rule parse_fuel_enough) (simp add: parse_fuel_def)

lemma reads_or_fuel: "reads_or s d 0 n j \<Longrightarrow> p_or (parse_fuel s) s d 0 = POk n j"
proof -
  assume "reads_or s d 0 n j"
  then obtain f where "p_or f s d 0 = POk n j" by (auto simp: reads_or_def)
  then have "p_or (parse_fuel s + f) s d 0 = POk n j"
    using fuel_mono(1) [of f s d 0 n j "parse_fuel s"] by (simp add: add.commute)
  moreover have "p_or (parse_fuel s + f) s d 0 = p_or (parse_fuel s) s d 0"
    using parse_fuel_ok [of s d] parse_more_fuel(1)
    by (induction f) (auto simp del: p_or.simps)
  ultimately show ?thesis by simp
qed

text \<open>
  C18. Parsing the printed form of a well-shaped expression whose parentheses nest at most
  \<^verbatim>\<open>MAX_NESTING\<close> deep gives that expression back: no operand, comparison or group is lost,
  merged or reordered.
\<close>

theorem parse_print:
  assumes "shaped n" "parens n \<le> MAX_NESTING"
  shows "parse_expr (print_node n) = Some n"
proof -
  have "filter (\<lambda>b. \<not> is_ascii_whitespace b) (print_node n) = print_node n"
    using print_node_no_ws by (simp add: filter_id_conv)
  moreover have "p_or (parse_fuel (print_node n)) (print_node n) 0 0 = POk n (length (print_node n))"
    by (rule reads_or_fuel [OF reads_or_print [OF assms]])
  ultimately show ?thesis by (simp add: parse_expr_def)
qed

theorem parse_print_witness:
  "parse_expr (print_node (And [Sub 0, Or [SubCmp 1 CGt 20, GroupCmp [2, 13] CEq 4 (Some 1)]]))
     = Some (And [Sub 0, Or [SubCmp 1 CGt 20, GroupCmp [2, 13] CEq 4 (Some 1)]])"
  by (rule parse_print) (simp_all add: MAX_NESTING_def)

text \<open>
  Whatever text is parsed, the tree is well shaped, every walk over it recurses at
  most 131 levels deep, no group names more subsignatures than the text has bytes, and
  therefore, for a text below 2 GiB, the pruning test cannot overflow its \<open>u64\<close> sums.
\<close>

theorem parse_expr_bounded:
  assumes "parse_expr expr = Some n"
  shows "shaped n \<and> height n \<le> 131 \<and> groups_small_by (length expr) n \<and>
    (length expr < 2 ^ 31 \<longrightarrow> can_be_true n counts unknown \<noteq> None)"
proof -
  let ?s = "filter (\<lambda>b. \<not> is_ascii_whitespace b) expr"
  from assms obtain j where "p_or (parse_fuel ?s) ?s 0 0 = POk n j"
    by (auto simp: parse_expr_def Let_def split: pres.splits if_splits)
  from parse_built(1) [OF this] have b: "built ?s 131 0 n j" by (simp add: MAX_NESTING_def)
  have "j \<le> length expr" using b length_filter_le [of _ expr] by (auto simp: built_def intro: order_trans)
  then have g: "groups_small_by (length expr) n"
    using b groups_small_by_mono [of j n "length expr"] by (simp add: built_def)
  then have "length expr < 2 ^ 31 \<longrightarrow> can_be_true n counts unknown \<noteq> None"
    using groups_small_by_small can_be_true_total by blast
  with b g show ?thesis by (simp add: built_def)
qed

theorem parse_expr_bounded_witness:
  "\<exists>n. parse_expr [0x30, 0x26, 0x28, 0x31, 0x7C, 0x32, 0x29, 0x3E, 0x33] = Some n \<and> height n \<le> 131"
proof -
  have p: "parse_expr [0x30, 0x26, 0x28, 0x31, 0x7C, 0x32, 0x29, 0x3E, 0x33]
      = Some (And [Sub 0, GroupCmp [1, 2] CGt 3 None])"
    by (simp add: parse_eval)
  then show ?thesis using parse_expr_bounded [OF p, of "\<lambda>_. 0" "\<lambda>_. None"] by blast
qed

end
