(* ===== verification/Emu_Mem.thy ===== *)
theory Emu_Mem
  imports Exav_Prelude
begin

text \<open>
  The sparse 32-bit address space of the unpacking emulator
  (\<^verbatim>\<open>crates/exav-pe-emu/src/mem.rs\<close>): pages allocated on demand under a cap, a page index with
  a one-entry lookup cache, byte, word and block accesses, and the book-keeping the unpacker
  reads (dirty pages, the watched range, the write spread, the code generation).

  Every operation of \<^verbatim>\<open>Mem\<close> that takes \<^verbatim>\<open>&mut self\<close> returns the new state, also when it
  faults: a lookup fills the cache, and a write that runs into a hole has written the bytes
  before it. The three counters \<open>watch_dirty\<close>, \<open>dirty_pages\<close> and \<open>code_gen\<close> are \<open>nat\<close> and not the
  \<^verbatim>\<open>u32\<close> and \<^verbatim>\<open>u64\<close> of the code: \<open>store_page_counts\<close> bounds the first two by the pages there
  are, and the third counts up by at most one per write, so only 2 to the 64th writes would overflow it.
  \<open>recent_pages\<close> is the 64-bit fingerprint it is in the code.
\<close>

section \<open>State\<close>

definition PAGE_SIZE :: nat where "PAGE_SIZE = 0x1000"

definition page_of :: "u32 \<Rightarrow> u32" where
  "page_of addr = drop_bit 12 addr"

definition page_off :: "u32 \<Rightarrow> nat" where
  "page_off addr = unat (addr AND 0xFFF)"

record fault =
  f_addr :: u32
  f_write :: bool

record page =
  p_bytes :: bytes
  p_dirty :: bool
  p_executed :: bool

record mem =
  pages :: "page list"
  index :: "u32 \<rightharpoonup> u32"
  max_pages :: nat
  cache_page :: u32
  cache_slot :: u32
  cached :: bool
  watch :: "(u32 \<times> u32) option"
  watch_dirty :: nat
  code_gen :: nat
  dirty_pages :: nat
  recent_pages :: u64

datatype map_error = OutOfPages

type_synonym 'a mem_result = "(fault + 'a) \<times> mem"

section \<open>Operations\<close>

definition mem_new :: "nat \<Rightarrow> mem" where
  "mem_new cap =
     \<lparr>pages = [], index = Map.empty, max_pages = cap, cache_page = 0, cache_slot = 0,
      cached = False, watch = None, watch_dirty = 0, code_gen = 0, dirty_pages = 0,
      recent_pages = 0\<rparr>"

definition watch_range :: "mem \<Rightarrow> u32 \<Rightarrow> u32 \<Rightarrow> mem" where
  "watch_range m addr len =
     m\<lparr>watch := Some (page_of addr, page_of (saturating_add addr len)), watch_dirty := 0\<rparr>"

definition watched_dirty_bytes :: "mem \<Rightarrow> nat" where
  "watched_dirty_bytes m = watch_dirty m * PAGE_SIZE"

definition count_ones :: "'a::len word \<Rightarrow> nat" where
  "count_ones w = length (filter (bit w) [0..<LENGTH('a)])"

definition take_write_spread :: "mem \<Rightarrow> nat \<times> mem" where
  "take_write_spread m = (count_ones (recent_pages m), m\<lparr>recent_pages := 0\<rparr>)"

definition count_dirty :: "mem \<Rightarrow> u32 \<Rightarrow> mem" where
  "count_dirty m page =
     (let m = m\<lparr>dirty_pages := dirty_pages m + 1\<rparr>
      in case watch m of
           Some (lo, hi) \<Rightarrow>
             if lo \<le> page \<and> page < hi then m\<lparr>watch_dirty := watch_dirty m + 1\<rparr> else m
         | None \<Rightarrow> m)"

definition code_generation :: "mem \<Rightarrow> nat" where
  "code_generation m = code_gen m"

definition slot :: "mem \<Rightarrow> u32 \<Rightarrow> u32 option \<times> mem" where
  "slot m page =
     (if cached m \<and> cache_page m = page then (Some (cache_slot m), m)
      else case index m page of
             None \<Rightarrow> (None, m)
           | Some s \<Rightarrow> (Some s, m\<lparr>cache_page := page, cache_slot := s, cached := True\<rparr>))"

definition mark_executed :: "mem \<Rightarrow> u32 \<Rightarrow> mem" where
  "mark_executed m addr =
     (case slot m (page_of addr) of
        (None, m) \<Rightarrow> m
      | (Some s, m) \<Rightarrow>
          m\<lparr>pages := (pages m)[unat s := (pages m ! unat s)\<lparr>p_executed := True\<rparr>]\<rparr>)"

definition at_capacity :: "mem \<Rightarrow> bool" where
  "at_capacity m \<longleftrightarrow> max_pages m \<le> length (pages m)"

text \<open>The pages \<^verbatim>\<open>first..=last\<close> of a range, in order.\<close>

definition page_range :: "u32 \<Rightarrow> u32 \<Rightarrow> u32 list" where
  "page_range lo hi = map of_nat [unat lo..<Suc (unat hi)]"

definition new_page :: page where
  "new_page = \<lparr>p_bytes = replicate PAGE_SIZE 0, p_dirty = False, p_executed = False\<rparr>"

fun map_pages :: "u32 list \<Rightarrow> mem \<Rightarrow> (map_error + unit) \<times> mem" where
  "map_pages [] m = (Inr (), m)"
| "map_pages (page # ps) m =
     (if index m page \<noteq> None then map_pages ps m
      else if max_pages m \<le> length (pages m) then (Inl OutOfPages, m)
      else map_pages ps
             (m\<lparr>pages := pages m @ [new_page],
                index := (index m)(page \<mapsto> of_nat (length (pages m)))\<rparr>))"

definition map_mem :: "mem \<Rightarrow> u32 \<Rightarrow> u32 \<Rightarrow> (map_error + unit) \<times> mem" where
  "map_mem m addr len =
     (if len = 0 then (Inr (), m)
      else map_pages (page_range (page_of addr) (page_of (saturating_add addr (len - 1)))) m)"

definition any_mapped :: "mem \<Rightarrow> u32 \<Rightarrow> u32 \<Rightarrow> bool" where
  "any_mapped m addr len =
     (if len = 0 then False
      else list_ex (\<lambda>p. index m p \<noteq> None)
             (page_range (page_of addr) (page_of (saturating_add addr (len - 1)))))"

definition is_mapped :: "mem \<Rightarrow> u32 \<Rightarrow> u32 \<Rightarrow> bool" where
  "is_mapped m addr len =
     (if len = 0 then True
      else case add_chk addr (len - 1) of
             None \<Rightarrow> False
           | Some e \<Rightarrow> list_all (\<lambda>p. index m p \<noteq> None) (page_range (page_of addr) (page_of e)))"

definition is_dirty :: "mem \<Rightarrow> u32 \<Rightarrow> bool" where
  "is_dirty m addr =
     (case index m (page_of addr) of
        Some s \<Rightarrow> p_dirty (pages m ! unat s)
      | None \<Rightarrow> False)"

fun clear_pages :: "u32 list \<Rightarrow> mem \<Rightarrow> mem" where
  "clear_pages [] m = m"
| "clear_pages (page # ps) m =
     clear_pages ps
       (case index m page of
          Some s \<Rightarrow> m\<lparr>pages := (pages m)[unat s := (pages m ! unat s)\<lparr>p_dirty := False\<rparr>]\<rparr>
        | None \<Rightarrow> m)"

definition clear_dirty :: "mem \<Rightarrow> u32 \<Rightarrow> u32 \<Rightarrow> mem" where
  "clear_dirty m addr len =
     (if len = 0 then m
      else clear_pages (page_range (page_of addr) (page_of (saturating_add addr (len - 1)))) m)"

definition read_u8 :: "mem \<Rightarrow> u32 \<Rightarrow> u8 mem_result" where
  "read_u8 m addr =
     (case slot m (page_of addr) of
        (None, m) \<Rightarrow> (Inl \<lparr>f_addr = addr, f_write = False\<rparr>, m)
      | (Some s, m) \<Rightarrow> (Inr (p_bytes (pages m ! unat s) ! page_off addr), m))"

text \<open>
  The tail both writes share: store the page's new bytes, light up its bit of the write spread,
  mark it dirty, bump the code generation if it was executed, count it if it was clean.
\<close>

definition store_page :: "mem \<Rightarrow> u32 \<Rightarrow> u32 \<Rightarrow> bytes \<Rightarrow> mem" where
  "store_page m page s bs =
     (let p = pages m ! unat s;
          m = m\<lparr>pages := (pages m)[unat s := p\<lparr>p_bytes := bs, p_dirty := True\<rparr>],
                recent_pages := recent_pages m OR push_bit (unat (page AND 63)) 1,
                code_gen := (if p_executed p then code_gen m + 1 else code_gen m)\<rparr>
      in if p_dirty p then m else count_dirty m page)"

definition write_u8 :: "mem \<Rightarrow> u32 \<Rightarrow> u8 \<Rightarrow> unit mem_result" where
  "write_u8 m addr v =
     (case slot m (page_of addr) of
        (None, m) \<Rightarrow> (Inl \<lparr>f_addr = addr, f_write = True\<rparr>, m)
      | (Some s, m) \<Rightarrow>
          (Inr (), store_page m (page_of addr) s ((p_bytes (pages m ! unat s))[page_off addr := v])))"

text \<open>The byte-by-byte loops of the two block accesses.\<close>

fun read_each :: "nat \<Rightarrow> mem \<Rightarrow> u32 \<Rightarrow> bytes mem_result" where
  "read_each 0 m addr = (Inr [], m)"
| "read_each (Suc n) m addr =
     (case read_u8 m addr of
        (Inl e, m) \<Rightarrow> (Inl e, m)
      | (Inr b, m) \<Rightarrow>
          (case read_each n m (addr + 1) of
             (Inl e, m) \<Rightarrow> (Inl e, m)
           | (Inr bs, m) \<Rightarrow> (Inr (b # bs), m)))"

fun write_each :: "bytes \<Rightarrow> mem \<Rightarrow> u32 \<Rightarrow> unit mem_result" where
  "write_each [] m addr = (Inr (), m)"
| "write_each (b # bs) m addr =
     (case write_u8 m addr b of
        (Inl e, m) \<Rightarrow> (Inl e, m)
      | (Inr _, m) \<Rightarrow> write_each bs m (addr + 1))"

text \<open>
  \<^verbatim>\<open>read_into\<close> fills the caller's buffer \<open>out\<close>; its emptiness test is on the length cut to
  32 bits.
\<close>

definition read_into :: "mem \<Rightarrow> u32 \<Rightarrow> bytes \<Rightarrow> bytes mem_result" where
  "read_into m addr out =
     (if (of_nat (length out) :: u32) = 0 then (Inr out, m)
      else let off = page_off addr
      in if off + length out \<le> PAGE_SIZE then
           (case slot m (page_of addr) of
              (None, m) \<Rightarrow> (Inl \<lparr>f_addr = addr, f_write = False\<rparr>, m)
            | (Some s, m) \<Rightarrow> (Inr (take (length out) (drop off (p_bytes (pages m ! unat s)))), m))
         else read_each (length out) m addr)"

text \<open>\<open>copy_slice xs off ys\<close> is \<open>xs[off..off + ys.len()].copy_from_slice(ys)\<close>.\<close>

definition copy_slice :: "'a list \<Rightarrow> nat \<Rightarrow> 'a list \<Rightarrow> 'a list" where
  "copy_slice xs off ys = take off xs @ ys @ drop (off + length ys) xs"

definition write_bytes :: "mem \<Rightarrow> u32 \<Rightarrow> bytes \<Rightarrow> unit mem_result" where
  "write_bytes m addr src =
     (if src = [] then (Inr (), m)
      else let off = page_off addr
      in if off + length src \<le> PAGE_SIZE then
           (case slot m (page_of addr) of
              (None, m) \<Rightarrow> (Inl \<lparr>f_addr = addr, f_write = True\<rparr>, m)
            | (Some s, m) \<Rightarrow>
                (Inr (), store_page m (page_of addr) s (copy_slice (p_bytes (pages m ! unat s)) off src)))
         else write_each src m addr)"

definition read_u16 :: "mem \<Rightarrow> u32 \<Rightarrow> u16 mem_result" where
  "read_u16 m addr =
     (case read_into m addr (replicate 2 0) of
        (Inl e, m) \<Rightarrow> (Inl e, m) | (Inr b, m) \<Rightarrow> (Inr (from_le b), m))"

definition read_u32 :: "mem \<Rightarrow> u32 \<Rightarrow> u32 mem_result" where
  "read_u32 m addr =
     (case read_into m addr (replicate 4 0) of
        (Inl e, m) \<Rightarrow> (Inl e, m) | (Inr b, m) \<Rightarrow> (Inr (from_le b), m))"

definition write_u16 :: "mem \<Rightarrow> u32 \<Rightarrow> u16 \<Rightarrow> unit mem_result" where
  "write_u16 m addr v = write_bytes m addr (to_le 2 v)"

definition write_u32 :: "mem \<Rightarrow> u32 \<Rightarrow> u32 \<Rightarrow> unit mem_result" where
  "write_u32 m addr v = write_bytes m addr (to_le 4 v)"

section \<open>Addresses\<close>

lemma unat_page_of: "unat (page_of a) = unat a div 4096"
  by (simp add: page_of_def drop_bit_eq_div unat_div)

lemma page_off_mod: "page_off a = unat a mod 4096"
proof -
  have "(0xFFF :: u32) = mask 12" by (simp add: mask_eq_exp_minus_1)
  then have "page_off a = unat (take_bit 12 a)" by (simp add: page_off_def take_bit_eq_mask)
  then show ?thesis by (simp add: take_bit_eq_mod unat_mod)
qed

lemma page_off_less [simp]: "page_off a < PAGE_SIZE"
  by (simp add: page_off_mod PAGE_SIZE_def)

text \<open>
  Instruction fetch and image dump walk page runs; a run is never empty, so both loops end.
  \<open>read_code\<close> returns the bytes it found (its length is the count the code returns).
\<close>

lemma page_off_diff_pos [simp]: "0 < PAGE_SIZE - page_off a"
  by simp

function read_code :: "mem \<Rightarrow> u32 \<Rightarrow> nat \<Rightarrow> bytes \<times> mem" where
  "read_code m addr want =
     (if want = 0 then ([], m)
      else let off = page_off addr in
      case slot m (page_of addr) of
        (None, m) \<Rightarrow> ([], m)
      | (Some s, m) \<Rightarrow>
          (let chunk = min (PAGE_SIZE - off) want;
               (rest, m') = read_code m (addr + of_nat chunk) (want - chunk)
           in (take chunk (drop off (p_bytes (pages m ! unat s))) @ rest, m')))"
  by pat_completeness auto
termination
  by (relation "measure (\<lambda>(m, addr, want). want)") (auto simp: min_def)

function snapshot :: "mem \<Rightarrow> u32 \<Rightarrow> nat \<Rightarrow> bytes \<times> mem" where
  "snapshot m addr len =
     (if len = 0 then ([], m)
      else let off = page_off addr;
               chunk = min (PAGE_SIZE - off) len
      in case slot m (page_of addr) of
           (None, m) \<Rightarrow>
             (let (rest, m') = snapshot m (addr + of_nat chunk) (len - chunk)
              in (replicate chunk 0 @ rest, m'))
         | (Some s, m) \<Rightarrow>
             (let (rest, m') = snapshot m (addr + of_nat chunk) (len - chunk)
              in (take chunk (drop off (p_bytes (pages m ! unat s))) @ rest, m')))"
  by pat_completeness auto
termination
  by (relation "measure (\<lambda>(m, addr, len). len)") (auto simp: min_def)

declare read_code.simps [simp del] snapshot.simps [simp del]

lemma page_of_less: "unat (page_of a) < 2 ^ 20"
  using unat_bound [of a] by (simp add: unat_page_of less_mult_imp_div_less)

lemma addr_split:
  obtains q where "unat a = 4096 * q + page_off a" "q < 1048576" "unat (page_of a) = q"
proof
  show "unat a = 4096 * unat (page_of a) + page_off a" by (simp add: unat_page_of page_off_mod)
  show "unat (page_of a) < 1048576" using page_of_less [of a] by simp
qed simp

lemma unat_add_small:
  "page_off a + k < PAGE_SIZE \<Longrightarrow> unat (a + of_nat k) = unat a + k"
proof -
  assume k: "page_off a + k < PAGE_SIZE"
  obtain q where q: "unat a = 4096 * q + page_off a" "q < 1048576" by (rule addr_split)
  have "unat a + k < 4294967296" using q k by (simp add: PAGE_SIZE_def)
  moreover have "unat (of_nat k :: u32) = k"
    using k by (intro unat_of_nat_lt) (simp add: PAGE_SIZE_def)
  ultimately show ?thesis by (simp add: unat_word_ariths)
qed

lemma same_page:
  assumes "page_off a + k < PAGE_SIZE"
  shows "page_of (a + of_nat k) = page_of a" "page_off (a + of_nat k) = page_off a + k"
proof -
  obtain q where q: "unat a = 4096 * q + page_off a" "unat (page_of a) = q" by (rule addr_split)
  have u: "unat (a + of_nat k) = 4096 * q + (page_off a + k)"
    using unat_add_small [OF assms] q by simp
  have lt: "page_off a + k < 4096" using assms by (simp add: PAGE_SIZE_def)
  then have "unat (a + of_nat k) div 4096 = q" unfolding u by (intro div_nat_eqI) simp_all
  then have "unat (page_of (a + of_nat k)) = unat (page_of a)" by (simp only: unat_page_of [of "a + of_nat k"] q(2))
  then show "page_of (a + of_nat k) = page_of a" by (simp only: word_unat_eq_iff)
  have "unat (a + of_nat k) mod 4096 = page_off a + k" unfolding u using lt by simp
  then show "page_off (a + of_nat k) = page_off a + k" by (simp only: page_off_mod [of "a + of_nat k"])
qed

lemma addr_eqI: "page_of a = page_of b \<Longrightarrow> page_off a = page_off b \<Longrightarrow> a = b"
proof -
  assume "page_of a = page_of b" "page_off a = page_off b"
  then have "unat a div 4096 = unat b div 4096" "unat a mod 4096 = unat b mod 4096"
    by (simp_all add: word_unat_eq_iff unat_page_of page_off_mod)
  then have "unat a = unat b" by (metis div_mult_mod_eq)
  then show "a = b" by (simp only: word_unat_eq_iff)
qed

section \<open>Invariant and abstraction\<close>

text \<open>
  The index is injective into the page list and only names page numbers below 2^20, the list is
  as long as the index and within the cap, every page has 4096 bytes, and the lookup cache
  agrees with the index.
\<close>

definition mem_inv :: "mem \<Rightarrow> bool" where
  "mem_inv m \<longleftrightarrow>
     inj_on (index m) (dom (index m)) \<and>
     (\<forall>p s. index m p = Some s \<longrightarrow> unat s < length (pages m) \<and> unat p < 2 ^ 20) \<and>
     length (pages m) = card (dom (index m)) \<and>
     length (pages m) \<le> max_pages m \<and>
     (\<forall>pg \<in> set (pages m). length (p_bytes pg) = PAGE_SIZE) \<and>
     (cached m \<longrightarrow> index m (cache_page m) = Some (cache_slot m))"

text \<open>The address space the state stands for: \<open>None\<close> on unmapped addresses.\<close>

definition page_at :: "mem \<Rightarrow> u32 \<Rightarrow> page option" where
  "page_at m p = map_option (\<lambda>s. pages m ! unat s) (index m p)"

definition byte_at :: "mem \<Rightarrow> u32 \<Rightarrow> u8 option" where
  "byte_at m a = map_option (\<lambda>pg. p_bytes pg ! page_off a) (page_at m (page_of a))"

lemma mem_inv_index:
  "mem_inv m \<Longrightarrow> index m p = Some s \<Longrightarrow> unat s < length (pages m)"
  "mem_inv m \<Longrightarrow> index m p = Some s \<Longrightarrow> unat p < 2 ^ 20"
  "mem_inv m \<Longrightarrow> index m p = Some s \<Longrightarrow> index m q = Some s \<Longrightarrow> p = q"
  "mem_inv m \<Longrightarrow> index m p = Some s \<Longrightarrow> length (p_bytes (pages m ! unat s)) = PAGE_SIZE"
  "mem_inv m \<Longrightarrow> cached m \<Longrightarrow> index m (cache_page m) = Some (cache_slot m)"
  by (auto simp: mem_inv_def inj_on_def dom_def)

lemma mem_inv_pages: "mem_inv m \<Longrightarrow> length (pages m) \<le> 2 ^ 20"
proof -
  assume inv: "mem_inv m"
  have "dom (index m) \<subseteq> of_nat ` {..<2 ^ 20}"
  proof
    fix p assume "p \<in> dom (index m)"
    then have "unat p < 2 ^ 20" using mem_inv_index(2) [OF inv] by blast
    then show "p \<in> of_nat ` {..<2 ^ 20}" by (intro image_eqI [of _ _ "unat p"]) simp_all
  qed
  then have "card (dom (index m)) \<le> card (of_nat ` {..<2 ^ 20} :: u32 set)" by (intro card_mono) auto
  also have "\<dots> \<le> 2 ^ 20" using card_image_le [of "{..<2 ^ 20}" of_nat] by simp
  finally show ?thesis using inv by (simp add: mem_inv_def)
qed

text \<open>A lookup is the index, and only fills the cache.\<close>

lemma slot_eq:
  assumes "mem_inv m"
  shows "slot m p = (index m p, if index m p = None then m
     else m\<lparr>cache_page := p, cache_slot := the (index m p), cached := True\<rparr>)"
  using mem_inv_index(5) [OF assms] by (auto simp: slot_def split: option.split)

lemma mem_inv_cache:
  "mem_inv m \<Longrightarrow> index m p = Some s \<Longrightarrow> mem_inv (m\<lparr>cache_page := p, cache_slot := s, cached := True\<rparr>)"
  by (auto simp: mem_inv_def)

lemma slot_inv: "mem_inv m \<Longrightarrow> mem_inv (snd (slot m p))"
  by (auto simp: slot_eq mem_inv_cache)

text \<open>
  Two states with the same address space, page attributes and counters, whatever their lookup
  caches hold.
\<close>

definition same_mem :: "mem \<Rightarrow> mem \<Rightarrow> bool" where
  "same_mem m m' \<longleftrightarrow> pages m' = pages m \<and> index m' = index m \<and> max_pages m' = max_pages m \<and>
     watch m' = watch m \<and> watch_dirty m' = watch_dirty m \<and> code_gen m' = code_gen m \<and>
     dirty_pages m' = dirty_pages m \<and> recent_pages m' = recent_pages m"

lemma same_mem_refl [simp]: "same_mem m m" by (simp add: same_mem_def)

lemma same_mem_trans: "same_mem a b \<Longrightarrow> same_mem b c \<Longrightarrow> same_mem a c" by (simp add: same_mem_def)

lemma same_mem_page_at: "same_mem m m' \<Longrightarrow> page_at m' = page_at m"
  and same_mem_byte_at: "same_mem m m' \<Longrightarrow> byte_at m' = byte_at m"
  by (simp_all add: same_mem_def page_at_def byte_at_def fun_eq_iff)

lemma slot_same: "same_mem m (snd (slot m p))"
  by (auto simp: slot_def same_mem_def split: option.splits)

section \<open>Byte accesses\<close>

lemma read_u8_spec:
  assumes inv: "mem_inv m"
  shows "fst (read_u8 m a) = (case byte_at m a of Some b \<Rightarrow> Inr b | None \<Rightarrow> Inl \<lparr>f_addr = a, f_write = False\<rparr>)"
    and "mem_inv (snd (read_u8 m a))" and "same_mem m (snd (read_u8 m a))"
proof -
  show "fst (read_u8 m a) = (case byte_at m a of Some b \<Rightarrow> Inr b | None \<Rightarrow> Inl \<lparr>f_addr = a, f_write = False\<rparr>)"
    by (auto simp: read_u8_def slot_eq [OF inv] byte_at_def page_at_def split: option.splits)
  show "mem_inv (snd (read_u8 m a))" "same_mem m (snd (read_u8 m a))"
    using slot_inv [OF inv, of "page_of a"] slot_same [of m "page_of a"]
    by (auto simp: read_u8_def split: prod.splits option.splits)
qed

lemma store_page_index [simp]:
  "index (store_page m p s bs) = index m" "max_pages (store_page m p s bs) = max_pages m"
  "cached (store_page m p s bs) = cached m" "cache_page (store_page m p s bs) = cache_page m"
  "cache_slot (store_page m p s bs) = cache_slot m" "watch (store_page m p s bs) = watch m"
  by (auto simp: store_page_def count_dirty_def Let_def split: option.splits prod.splits)

lemma store_page_pages:
  "pages (store_page m p s bs) =
     (pages m)[unat s := (pages m ! unat s)\<lparr>p_bytes := bs, p_dirty := True\<rparr>]"
  by (auto simp: store_page_def count_dirty_def Let_def split: option.splits prod.splits)

lemma store_page_gen:
  "code_gen (store_page m p s bs) = (if p_executed (pages m ! unat s) then code_gen m + 1 else code_gen m)"
  by (auto simp: store_page_def count_dirty_def Let_def split: option.splits prod.splits)

text \<open>
  The counters are a \<^verbatim>\<open>u32\<close> and a \<^verbatim>\<open>u64\<close> in the code and naturals here. Storing a page adds to
  \<open>dirty_pages\<close> exactly the page it makes dirty, and to \<open>watch_dirty\<close> no more, so between two calls
  of \<open>clear_dirty\<close> (the loader makes one) each grows by at most the number of pages, which is below
  2 to the 20th.
\<close>

definition dirty_count :: "mem \<Rightarrow> nat" where
  "dirty_count m = length (filter p_dirty (pages m))"

lemma filter_update:
  "k < length xs \<Longrightarrow> length (filter P (xs[k := y])) + of_bool (P (xs ! k)) = length (filter P xs) + of_bool (P y)"
proof (induction xs arbitrary: k)
  case (Cons x xs)
  show ?case
  proof (cases k)
    case (Suc j)
    then show ?thesis using Cons.IH [of j] Cons.prems by simp
  qed simp
qed simp

lemma store_page_counts:
  assumes "unat s < length (pages m)"
  shows "dirty_pages (store_page m p s bs) + dirty_count m = dirty_pages m + dirty_count (store_page m p s bs)"
    and "watch_dirty (store_page m p s bs) + dirty_count m \<le> watch_dirty m + dirty_count (store_page m p s bs)"
  using filter_update [OF assms, of p_dirty "(pages m ! unat s)\<lparr>p_bytes := bs, p_dirty := True\<rparr>"]
  by (cases "p_dirty (pages m ! unat s)";
      auto simp: dirty_count_def store_page_def count_dirty_def Let_def split: option.splits prod.splits if_splits)+

lemma store_page_inv:
  assumes "mem_inv m" "index m p = Some s" "length bs = PAGE_SIZE"
  shows "mem_inv (store_page m p s bs)"
  using assms by (auto simp: mem_inv_def store_page_pages dest!: set_update_subset_insert [THEN subsetD])

text \<open>Storing a page changes that page and no other.\<close>

lemma store_page_page_at:
  assumes inv: "mem_inv m" and s: "index m p = Some s"
  shows "page_at (store_page m p s bs) q =
    (if q = p then Some ((pages m ! unat s)\<lparr>p_bytes := bs, p_dirty := True\<rparr>) else page_at m q)"
proof (cases "q = p")
  case True
  then show ?thesis using mem_inv_index(1) [OF inv s] s by (simp add: page_at_def store_page_pages)
next
  case False
  show ?thesis
  proof (cases "index m q")
    case (Some t)
    then have "unat s \<noteq> unat t" using mem_inv_index(3) [OF inv s] False by (metis word_unat_eq_iff)
    then show ?thesis using False Some by (simp add: page_at_def store_page_pages)
  qed (simp add: False page_at_def)
qed

lemma page_at_Some: "page_at m p = Some pg \<longleftrightarrow> (\<exists>s. index m p = Some s \<and> pg = pages m ! unat s)"
  by (auto simp: page_at_def)

lemma page_at_length: "mem_inv m \<Longrightarrow> page_at m p = Some pg \<Longrightarrow> length (p_bytes pg) = PAGE_SIZE"
  using mem_inv_index(4) by (auto simp: page_at_Some)

lemma write_u8_None:
  "mem_inv m \<Longrightarrow> byte_at m a = None \<Longrightarrow> write_u8 m a v = (Inl \<lparr>f_addr = a, f_write = True\<rparr>, m)"
  by (auto simp: write_u8_def slot_eq byte_at_def page_at_def split: option.splits)

lemma write_u8_Some:
  assumes inv: "mem_inv m" and mapped: "byte_at m a \<noteq> None"
  obtains m' where "write_u8 m a v = (Inr (), m')" "mem_inv m'"
    "byte_at m' = (byte_at m)(a \<mapsto> v)" "code_gen m \<le> code_gen m'" "code_gen m' \<le> code_gen m + 1"
    "\<And>q. map_option p_executed (page_at m' q) = map_option p_executed (page_at m q)"
    "\<And>q. code_gen m' = code_gen m \<Longrightarrow> map_option p_executed (page_at m q) = Some True \<Longrightarrow>
        page_at m' q = page_at m q"
    "\<And>q. map_option p_dirty (page_at m' q) =
        (if q = page_of a then Some True else map_option p_dirty (page_at m q))"
proof -
  obtain s where s: "index m (page_of a) = Some s"
    using mapped by (auto simp: byte_at_def page_at_def)
  let ?c = "m\<lparr>cache_page := page_of a, cache_slot := s, cached := True\<rparr>"
  let ?bs = "(p_bytes (pages m ! unat s))[page_off a := v]"
  let ?m = "store_page ?c (page_of a) s ?bs"
  have invc: "mem_inv ?c" and sc: "index ?c (page_of a) = Some s"
    using mem_inv_cache [OF inv s] s by simp_all
  have pc: "page_at ?c = page_at m" by (simp add: page_at_def fun_eq_iff)
  have pat: "page_at ?m q = (if q = page_of a
      then Some ((pages m ! unat s)\<lparr>p_bytes := ?bs, p_dirty := True\<rparr>) else page_at m q)" for q
    using store_page_page_at [OF invc sc] by (simp add: pc)
  have len: "length (p_bytes (pages m ! unat s)) = PAGE_SIZE" by (rule mem_inv_index(4) [OF inv s])
  have ex: "page_at m (page_of a) = Some (pages m ! unat s)" using s by (simp add: page_at_def)
  show ?thesis
  proof
    show "write_u8 m a v = (Inr (), ?m)" by (simp add: write_u8_def slot_eq [OF inv] s)
    show "mem_inv ?m" by (rule store_page_inv [OF invc sc]) (simp add: len)
    show "byte_at ?m = (byte_at m)(a \<mapsto> v)"
    proof
      fix b
      show "byte_at ?m b = ((byte_at m)(a \<mapsto> v)) b"
        using addr_eqI [of b a] by (auto simp: byte_at_def pat len ex nth_list_update)
    qed
  qed (auto simp: store_page_gen pat ex split: if_splits)
qed

section \<open>Block accesses\<close>

text \<open>Blocks of the abstract address space, byte by byte with wrap-around.\<close>

fun bytes_at :: "(u32 \<Rightarrow> u8 option) \<Rightarrow> u32 \<Rightarrow> nat \<Rightarrow> bytes option" where
  "bytes_at f a 0 = Some []"
| "bytes_at f a (Suc n) =
     (case f a of None \<Rightarrow> None | Some b \<Rightarrow> map_option (Cons b) (bytes_at f (a + 1) n))"

fun put_bytes :: "(u32 \<Rightarrow> u8 option) \<Rightarrow> u32 \<Rightarrow> bytes \<Rightarrow> u32 \<Rightarrow> u8 option" where
  "put_bytes f a [] = f"
| "put_bytes f a (b # bs) = put_bytes (f(a \<mapsto> b)) (a + 1) bs"

lemma bytes_at_length: "bytes_at f a n = Some bs \<Longrightarrow> length bs = n"
  by (induction n arbitrary: a bs) (auto split: option.splits)

lemma read_each_spec:
  assumes "mem_inv m"
  shows "mem_inv (snd (read_each n m a)) \<and> same_mem m (snd (read_each n m a)) \<and>
    (case bytes_at (byte_at m) a n of
       Some bs \<Rightarrow> fst (read_each n m a) = Inr bs
     | None \<Rightarrow> \<exists>e. fst (read_each n m a) = Inl e \<and> \<not> f_write e \<and> byte_at m (f_addr e) = None)"
  using assms
proof (induction n arbitrary: m a)
  case (Suc n)
  note r = read_u8_spec [OF Suc.prems, of a]
  obtain x m1 where x: "read_u8 m a = (x, m1)" by force
  have m1: "mem_inv m1" "same_mem m m1" "byte_at m1 = byte_at m"
    using r x same_mem_byte_at by auto
  show ?case
  proof (cases "byte_at m a")
    case None
    then show ?thesis using r x m1 by auto
  next
    case (Some b)
    then have "x = Inr b" using r(1) x by simp
    then show ?thesis
      using x Some Suc.IH [OF m1(1), of "a + 1"] m1 same_mem_trans [OF m1(2)]
      by (auto split: prod.splits sum.splits option.splits)
  qed
qed simp

lemma bytes_at_page:
  assumes "page_at m (page_of a) = Some pg" "length (p_bytes pg) = PAGE_SIZE"
  shows "page_off a + n \<le> PAGE_SIZE \<Longrightarrow>
    bytes_at (byte_at m) a n = Some (take n (drop (page_off a) (p_bytes pg)))"
  using assms
proof (induction n arbitrary: a)
  case (Suc n)
  have d: "drop (page_off a) (p_bytes pg) = p_bytes pg ! page_off a # drop (Suc (page_off a)) (p_bytes pg)"
    using Suc.prems by (intro nth_drop_hd) simp
  have "bytes_at (byte_at m) (a + 1) n = Some (take n (drop (Suc (page_off a)) (p_bytes pg)))"
  proof (cases n)
    case (Suc k)
    then have "page_off a + 1 < PAGE_SIZE" using Suc.prems by simp
    from same_page [OF this] have "page_of (a + 1) = page_of a" "page_off (a + 1) = Suc (page_off a)"
      by simp_all
    then show ?thesis using Suc.IH [of "a + 1"] Suc.prems by simp
  qed simp
  moreover have "byte_at m a = Some (p_bytes pg ! page_off a)" using Suc.prems by (simp add: byte_at_def)
  ultimately show ?case using d by simp
qed simp

lemma read_into_spec:
  assumes inv: "mem_inv m" and n: "0 < length out" "length out < 2 ^ 32"
  shows "mem_inv (snd (read_into m a out)) \<and> same_mem m (snd (read_into m a out)) \<and>
    (case bytes_at (byte_at m) a (length out) of
       Some bs \<Rightarrow> fst (read_into m a out) = Inr bs
     | None \<Rightarrow> \<exists>e. fst (read_into m a out) = Inl e \<and> \<not> f_write e \<and> byte_at m (f_addr e) = None)"
proof -
  have nz: "(of_nat (length out) :: u32) \<noteq> 0"
    using n by (simp add: word_unat_eq_iff unat_of_nat_lt)
  show ?thesis
  proof (cases "page_off a + length out \<le> PAGE_SIZE")
    case False
    with nz have "read_into m a out = read_each (length out) m a" by (simp add: read_into_def)
    then show ?thesis using read_each_spec [OF inv, of "length out" a] by (simp only:)
  next
    case fast: True
    show ?thesis
    proof (cases "index m (page_of a)")
      case None
      then have "byte_at m a = None" by (simp add: byte_at_def page_at_def)
      moreover from this n have "bytes_at (byte_at m) a (length out) = None"
        by (cases "length out") auto
      ultimately show ?thesis using None fast nz inv
        by (simp add: read_into_def slot_eq)
    next
      case (Some s)
      then have "bytes_at (byte_at m) a (length out)
          = Some (take (length out) (drop (page_off a) (p_bytes (pages m ! unat s))))"
        using mem_inv_index(4) [OF inv Some] fast by (intro bytes_at_page) (simp_all add: page_at_def)
      then show ?thesis using Some fast nz inv mem_inv_cache [OF inv Some]
        by (simp add: read_into_def slot_eq same_mem_def)
    qed
  qed
qed

text \<open>
  What every write leaves behind: the invariant, the executed marks, and, when the code
  generation did not move, every page code was fetched from.
\<close>

definition write_frame :: "mem \<Rightarrow> mem \<Rightarrow> bool" where
  "write_frame m m' \<longleftrightarrow> mem_inv m' \<and> code_gen m \<le> code_gen m' \<and> index m' = index m \<and>
     (\<forall>q. map_option p_executed (page_at m' q) = map_option p_executed (page_at m q)) \<and>
     (\<forall>q. code_gen m' = code_gen m \<longrightarrow> map_option p_executed (page_at m q) = Some True \<longrightarrow>
        map_option p_bytes (page_at m' q) = map_option p_bytes (page_at m q))"

lemma write_frame_refl: "mem_inv m \<Longrightarrow> write_frame m m"
  by (simp add: write_frame_def)

lemma write_frame_trans: "write_frame a b \<Longrightarrow> write_frame b c \<Longrightarrow> write_frame a c"
proof -
  assume ab: "write_frame a b" and bc: "write_frame b c"
  have le: "code_gen a \<le> code_gen b" "code_gen b \<le> code_gen c"
    using ab bc by (simp_all add: write_frame_def)
  have ex: "map_option p_executed (page_at c q) = map_option p_executed (page_at a q)" for q
    using ab bc by (simp add: write_frame_def)
  have "map_option p_bytes (page_at c q) = map_option p_bytes (page_at a q)"
    if "code_gen c = code_gen a" and q: "map_option p_executed (page_at a q) = Some True" for q
  proof -
    have "code_gen b = code_gen a" "code_gen c = code_gen b" using that(1) le by simp_all
    moreover have "map_option p_executed (page_at b q) = Some True"
      using ab q by (simp only: write_frame_def)
    ultimately show ?thesis using ab bc q by (simp only: write_frame_def)
  qed
  then show "write_frame a c" using ab bc le ex by (simp add: write_frame_def del: map_option_eq_Some)
qed

lemma write_frame_same: "mem_inv m' \<Longrightarrow> same_mem m m' \<Longrightarrow> write_frame m m'"
  using same_mem_page_at [of m m'] by (auto simp: write_frame_def same_mem_def)

lemma store_page_frame:
  assumes inv: "mem_inv m" and s: "index m p = Some s" and bs: "length bs = PAGE_SIZE"
  shows "write_frame m (store_page m p s bs)"
proof -
  have "page_at m p = Some (pages m ! unat s)" using s by (simp add: page_at_def)
  then show ?thesis using store_page_inv [OF inv s bs]
    by (auto simp: write_frame_def store_page_gen store_page_page_at [OF inv s] split: if_splits)
qed

lemma write_u8_frame: "mem_inv m \<Longrightarrow> write_frame m (snd (write_u8 m a v))"
proof -
  assume inv: "mem_inv m"
  show ?thesis
  proof (cases "index m (page_of a)")
    case None
    then show ?thesis using inv by (simp add: write_u8_def slot_eq write_frame_refl)
  next
    case (Some s)
    let ?c = "m\<lparr>cache_page := page_of a, cache_slot := s, cached := True\<rparr>"
    have invc: "mem_inv ?c" by (rule mem_inv_cache [OF inv Some])
    have "write_frame m ?c" by (rule write_frame_same [OF invc]) (simp add: same_mem_def)
    moreover have "write_frame ?c (store_page ?c (page_of a) s
        ((p_bytes (pages m ! unat s))[page_off a := v]))"
      using mem_inv_index(4) [OF inv Some] Some by (intro store_page_frame invc) simp_all
    ultimately show ?thesis using inv Some by (simp add: write_u8_def slot_eq) (rule write_frame_trans)
  qed
qed

lemma write_each_spec:
  assumes "mem_inv m"
  shows "write_frame m (snd (write_each bs m a)) \<and>
    (if bytes_at (byte_at m) a (length bs) \<noteq> None
     then fst (write_each bs m a) = Inr () \<and> byte_at (snd (write_each bs m a)) = put_bytes (byte_at m) a bs
     else \<exists>e. fst (write_each bs m a) = Inl e \<and> f_write e \<and> byte_at m (f_addr e) = None)"
  using assms
proof (induction bs arbitrary: m a)
  case Nil
  then show ?case by (simp add: write_frame_refl)
next
  case (Cons b bs)
  show ?case
  proof (cases "byte_at m a")
    case None
    then show ?thesis using write_u8_None [OF Cons.prems None, of b] Cons.prems
      by (simp add: write_frame_refl)
  next
    case (Some c)
    then have "byte_at m a \<noteq> None" by simp
    then obtain m1 where m1: "write_u8 m a b = (Inr (), m1)" "mem_inv m1"
        "byte_at m1 = (byte_at m)(a \<mapsto> b)"
      by (rule write_u8_Some [OF Cons.prems, of a b])
    have fr: "write_frame m m1" using write_u8_frame [OF Cons.prems, of a b] m1 by simp
    have "bytes_at (byte_at m1) x n = None \<longleftrightarrow> bytes_at (byte_at m) x n = None" for x n
      using Some m1(3) by (induction n arbitrary: x) (auto split: option.splits)
    then have dom: "bytes_at (byte_at m) a (length (b # bs)) \<noteq> None \<longleftrightarrow>
        bytes_at (byte_at m1) (a + 1) (length bs) \<noteq> None" using Some by simp
    have hole: "byte_at m1 x = None \<longleftrightarrow> byte_at m x = None" for x using Some m1(3) by simp
    have "write_each (b # bs) m a = write_each bs m1 (a + 1)" using m1(1) by simp
    moreover have "put_bytes (byte_at m) a (b # bs) = put_bytes (byte_at m1) (a + 1) bs"
      using m1(3) by simp
    moreover note IH = Cons.IH [OF m1(2), of "a + 1"]
    ultimately show ?thesis using write_frame_trans [OF fr conjunct1 [OF IH]] conjunct2 [OF IH]
      by (simp only: dom hole simp_thms)
  qed
qed

lemma put_bytes_page:
  "page_off a + length bs \<le> PAGE_SIZE \<Longrightarrow>
   put_bytes f a bs x = (if page_of x = page_of a \<and> page_off a \<le> page_off x \<and> page_off x < page_off a + length bs
     then Some (bs ! (page_off x - page_off a)) else f x)"
proof (induction bs arbitrary: f a)
  case (Cons b bs)
  show ?case
  proof (cases "bs = []")
    case True
    then show ?thesis using addr_eqI [of x a] by auto
  next
    case False
    then have "page_off a + 1 < PAGE_SIZE" using Cons.prems by (cases bs) auto
    from same_page [OF this] have p: "page_of (a + 1) = page_of a" "page_off (a + 1) = Suc (page_off a)"
      by simp_all
    have "put_bytes f a (b # bs) x = (if page_of x = page_of a \<and> Suc (page_off a) \<le> page_off x \<and>
        page_off x < Suc (page_off a) + length bs
        then Some (bs ! (page_off x - Suc (page_off a))) else (f(a \<mapsto> b)) x)"
      unfolding put_bytes.simps by (subst Cons.IH) (use Cons.prems p in simp_all)
    then show ?thesis using addr_eqI [of x a]
      by (auto simp: nth_Cons' Suc_le_eq le_less diff_Suc split: nat.split)
  qed
qed auto

lemma nth_copy_slice:
  "off + length ys \<le> length xs \<Longrightarrow> i < length xs \<Longrightarrow>
   copy_slice xs off ys ! i = (if off \<le> i \<and> i < off + length ys then ys ! (i - off) else xs ! i)"
  by (auto simp: copy_slice_def nth_append)

lemma length_copy_slice: "off + length ys \<le> length xs \<Longrightarrow> length (copy_slice xs off ys) = length xs"
  by (simp add: copy_slice_def)

lemma write_bytes_spec:
  assumes inv: "mem_inv m"
  shows "write_frame m (snd (write_bytes m a bs)) \<and>
    (if bytes_at (byte_at m) a (length bs) \<noteq> None
     then fst (write_bytes m a bs) = Inr () \<and> byte_at (snd (write_bytes m a bs)) = put_bytes (byte_at m) a bs
     else \<exists>e. fst (write_bytes m a bs) = Inl e \<and> f_write e \<and> byte_at m (f_addr e) = None)"
proof (cases "bs = [] \<or> \<not> page_off a + length bs \<le> PAGE_SIZE")
  case True
  then have "write_bytes m a bs = write_each bs m a" by (auto simp: write_bytes_def)
  from write_each_spec [OF inv, of bs a, folded this] show ?thesis .
next
  case False
  then have fast: "page_off a + length bs \<le> PAGE_SIZE" and ne: "bs \<noteq> []" by auto
  show ?thesis
  proof (cases "index m (page_of a)")
    case None
    then have "byte_at m a = None" by (simp add: byte_at_def page_at_def)
    moreover from this ne have "bytes_at (byte_at m) a (length bs) = None" by (cases bs) auto
    moreover have "write_bytes m a bs = (Inl \<lparr>f_addr = a, f_write = True\<rparr>, m)"
      using None fast ne inv by (simp add: write_bytes_def slot_eq)
    ultimately show ?thesis using inv by (simp add: write_frame_refl)
  next
    case (Some s)
    let ?c = "m\<lparr>cache_page := page_of a, cache_slot := s, cached := True\<rparr>"
    let ?bs = "copy_slice (p_bytes (pages m ! unat s)) (page_off a) bs"
    let ?m = "store_page ?c (page_of a) s ?bs"
    have len: "length (p_bytes (pages m ! unat s)) = PAGE_SIZE" by (rule mem_inv_index(4) [OF inv Some])
    have invc: "mem_inv ?c" and sc: "index ?c (page_of a) = Some s"
      using mem_inv_cache [OF inv Some] Some by simp_all
    have w: "write_bytes m a bs = (Inr (), ?m)" using Some fast ne inv by (simp add: write_bytes_def slot_eq)
    have "write_frame m ?c" by (rule write_frame_same [OF invc]) (simp add: same_mem_def)
    moreover have "write_frame ?c ?m"
      using len fast by (intro store_page_frame invc sc) (simp add: length_copy_slice)
    ultimately have fr: "write_frame m ?m" by (rule write_frame_trans)
    have pat: "page_at ?m q = (if q = page_of a
        then Some ((pages m ! unat s)\<lparr>p_bytes := ?bs, p_dirty := True\<rparr>) else page_at m q)" for q
      using store_page_page_at [OF invc sc] by (simp add: page_at_def)
    have ex: "page_at m (page_of a) = Some (pages m ! unat s)" using Some by (simp add: page_at_def)
    have "byte_at ?m = put_bytes (byte_at m) a bs"
    proof
      fix x
      show "byte_at ?m x = put_bytes (byte_at m) a bs x"
        using ex len fast page_off_less [of x]
        by (auto simp: put_bytes_page byte_at_def pat nth_copy_slice)
    qed
    moreover have "bytes_at (byte_at m) a (length bs) \<noteq> None"
      using bytes_at_page [of m a "pages m ! unat s"] Some len fast by (simp add: page_at_def)
    ultimately show ?thesis using w fr by simp
  qed
qed

section \<open>Instruction fetch and dump\<close>

text \<open>The longest mapped run of at most \<open>n\<close> bytes, and a dump with zeros in the holes.\<close>

fun mapped_prefix :: "(u32 \<Rightarrow> u8 option) \<Rightarrow> u32 \<Rightarrow> nat \<Rightarrow> bytes" where
  "mapped_prefix f a 0 = []"
| "mapped_prefix f a (Suc n) = (case f a of None \<Rightarrow> [] | Some b \<Rightarrow> b # mapped_prefix f (a + 1) n)"

fun filled :: "(u32 \<Rightarrow> u8 option) \<Rightarrow> u32 \<Rightarrow> nat \<Rightarrow> bytes" where
  "filled f a 0 = []"
| "filled f a (Suc n) = (case f a of None \<Rightarrow> 0 | Some b \<Rightarrow> b) # filled f (a + 1) n"

lemma mapped_prefix_split:
  "bytes_at f a k = Some bs \<Longrightarrow> k \<le> n \<Longrightarrow>
   mapped_prefix f a n = bs @ mapped_prefix f (a + of_nat k) (n - k)"
proof (induction k arbitrary: a n bs)
  case (Suc k)
  then obtain n' where n: "n = Suc n'" by (cases n) auto
  from Suc.prems obtain b bs' where b: "f a = Some b" "bytes_at f (a + 1) k = Some bs'" "bs = b # bs'"
    by (auto split: option.splits)
  show ?case using Suc.IH [OF b(2), of n'] Suc.prems n b by (simp add: add_ac)
qed simp

lemma filled_split:
  "bytes_at f a k = Some bs \<Longrightarrow> k \<le> n \<Longrightarrow> filled f a n = bs @ filled f (a + of_nat k) (n - k)"
proof (induction k arbitrary: a n bs)
  case (Suc k)
  then obtain n' where n: "n = Suc n'" by (cases n) auto
  from Suc.prems obtain b bs' where b: "f a = Some b" "bytes_at f (a + 1) k = Some bs'" "bs = b # bs'"
    by (auto split: option.splits)
  show ?case using Suc.IH [OF b(2), of n'] Suc.prems n b by (simp add: add_ac)
qed simp

lemma filled_hole:
  "page_at m (page_of a) = None \<Longrightarrow> page_off a + k \<le> PAGE_SIZE \<Longrightarrow> k \<le> n \<Longrightarrow>
   filled (byte_at m) a n = replicate k 0 @ filled (byte_at m) (a + of_nat k) (n - k)"
proof (induction k arbitrary: a n)
  case (Suc k)
  then obtain n' where n: "n = Suc n'" by (cases n) auto
  have h: "byte_at m a = None" using Suc.prems by (simp add: byte_at_def)
  show ?case
  proof (cases k)
    case 0
    then show ?thesis using n h by simp
  next
    case (Suc j)
    then have "page_off a + 1 < PAGE_SIZE" using Suc.prems by simp
    from same_page [OF this] have "page_of (a + 1) = page_of a" "page_off (a + 1) = Suc (page_off a)"
      by simp_all
    then show ?thesis using Suc.IH [of "a + 1" n'] Suc.prems n h by (simp add: add_ac)
  qed
qed simp

lemma read_code_spec:
  "mem_inv m \<Longrightarrow> fst (read_code m a n) = mapped_prefix (byte_at m) a n \<and>
     mem_inv (snd (read_code m a n)) \<and> same_mem m (snd (read_code m a n))"
proof (induction m a n rule: read_code.induct)
  case (1 m a n)
  show ?case
  proof (cases "n = 0 \<or> index m (page_of a) = None")
    case True
    then show ?thesis using "1.prems"
      by (cases n) (auto simp: read_code.simps slot_eq byte_at_def page_at_def)
  next
    case False
    then obtain s where s: "index m (page_of a) = Some s" and n: "n \<noteq> 0" by auto
    let ?c = "m\<lparr>cache_page := page_of a, cache_slot := s, cached := True\<rparr>"
    let ?k = "min (PAGE_SIZE - page_off a) n"
    have invc: "mem_inv ?c" by (rule mem_inv_cache [OF "1.prems" s])
    have same: "same_mem m ?c" by (simp add: same_mem_def)
    have sl: "slot m (page_of a) = (Some s, ?c)" using "1.prems" s by (simp add: slot_eq)
    have IH: "fst (read_code ?c (a + of_nat ?k) (n - ?k)) = mapped_prefix (byte_at ?c) (a + of_nat ?k) (n - ?k) \<and>
        mem_inv (snd (read_code ?c (a + of_nat ?k) (n - ?k))) \<and>
        same_mem ?c (snd (read_code ?c (a + of_nat ?k) (n - ?k)))"
      by (rule "1.IH" [OF n refl sl [symmetric] refl refl]) (rule invc)
    have "bytes_at (byte_at m) a ?k = Some (take ?k (drop (page_off a) (p_bytes (pages m ! unat s))))"
      using s mem_inv_index(4) [OF "1.prems" s]
      by (intro bytes_at_page) (auto simp: page_at_def min_def less_imp_le)
    from mapped_prefix_split [OF this, of n] IH same_mem_byte_at [OF same] same_mem_trans [OF same]
    show ?thesis
      using n sl by (subst (1 2 3) read_code.simps) (auto simp: Let_def split: prod.splits)
  qed
qed

end
