(* ===== verification/Emu_Mem_Spec.thy ===== *)
theory Emu_Mem_Spec
  imports Emu_Mem
begin

text \<open>
  What the emulator's memory promises. The interface \<open>byte_memory\<close> states an address space of
  bytes with faults; \<open>Mem\<close> is an interpretation of it. The theory also follows the state
  through arbitrary sequences of operations (\<open>mem_reach\<close>), and shows mapping, instruction
  fetch and dump against the abstract address space \<open>byte_at\<close>.
\<close>

section \<open>The byte-memory interface\<close>

locale byte_memory =
  fixes inv :: "'m \<Rightarrow> bool"
    and view :: "'m \<Rightarrow> u32 \<Rightarrow> u8 option"
    and rd :: "'m \<Rightarrow> u32 \<Rightarrow> (fault + u8) \<times> 'm"
    and wr :: "'m \<Rightarrow> u32 \<Rightarrow> u8 \<Rightarrow> (fault + unit) \<times> 'm"
  assumes rd_mapped: "inv m \<Longrightarrow> view m a = Some b \<Longrightarrow> fst (rd m a) = Inr b"
    and rd_hole: "inv m \<Longrightarrow> view m a = None \<Longrightarrow> fst (rd m a) = Inl \<lparr>f_addr = a, f_write = False\<rparr>"
    and rd_view: "inv m \<Longrightarrow> view (snd (rd m a)) = view m"
    and rd_inv: "inv m \<Longrightarrow> inv (snd (rd m a))"
    and wr_mapped: "inv m \<Longrightarrow> view m a \<noteq> None \<Longrightarrow> fst (wr m a v) = Inr ()"
    and wr_hole: "inv m \<Longrightarrow> view m a = None \<Longrightarrow> fst (wr m a v) = Inl \<lparr>f_addr = a, f_write = True\<rparr>"
    and wr_view: "inv m \<Longrightarrow> view (snd (wr m a v)) = (if view m a = None then view m else (view m)(a \<mapsto> v))"
    and wr_inv: "inv m \<Longrightarrow> inv (snd (wr m a v))"
begin

lemma read_back:
  "inv m \<Longrightarrow> view m a \<noteq> None \<Longrightarrow> fst (rd (snd (wr m a v)) a) = Inr v"
  by (rule rd_mapped) (simp_all add: wr_inv wr_view)

lemma read_other:
  "inv m \<Longrightarrow> a \<noteq> b \<Longrightarrow> fst (rd (snd (wr m a v)) b) = fst (rd m b)"
  by (cases "view m b") (simp_all add: rd_mapped rd_hole wr_inv wr_view)

lemma write_same_mapping: "inv m \<Longrightarrow> view (snd (wr m a v)) b = None \<longleftrightarrow> view m b = None"
  by (auto simp: wr_view)

lemma writes_commute:
  assumes "inv m" "a \<noteq> b" "view m a \<noteq> None" "view m b \<noteq> None"
  shows "view (snd (wr (snd (wr m a v)) b w)) = view (snd (wr (snd (wr m b w)) a v))"
  using assms by (auto simp: wr_inv wr_view fun_upd_twist)

end

lemma write_u8_view:
  assumes "mem_inv m"
  shows "fst (write_u8 m a v) = (if byte_at m a = None then Inl \<lparr>f_addr = a, f_write = True\<rparr> else Inr ())"
    and "byte_at (snd (write_u8 m a v)) = (if byte_at m a = None then byte_at m else (byte_at m)(a \<mapsto> v))"
    and "mem_inv (snd (write_u8 m a v))"
proof -
  have "fst (write_u8 m a v) = (if byte_at m a = None then Inl \<lparr>f_addr = a, f_write = True\<rparr> else Inr ()) \<and>
      byte_at (snd (write_u8 m a v)) = (if byte_at m a = None then byte_at m else (byte_at m)(a \<mapsto> v))"
  proof (cases "byte_at m a = None")
    case True
    then show ?thesis using write_u8_None [OF assms] by simp
  next
    case False
    then obtain m' where "write_u8 m a v = (Inr (), m')" "byte_at m' = (byte_at m)(a \<mapsto> v)"
      by (rule write_u8_Some [OF assms])
    then show ?thesis using False by simp
  qed
  then show "fst (write_u8 m a v) = (if byte_at m a = None then Inl \<lparr>f_addr = a, f_write = True\<rparr> else Inr ())"
    "byte_at (snd (write_u8 m a v)) = (if byte_at m a = None then byte_at m else (byte_at m)(a \<mapsto> v))"
    by blast+
  show "mem_inv (snd (write_u8 m a v))"
    using write_u8_frame [OF assms, of a v] by (simp add: write_frame_def)
qed

interpretation emu: byte_memory mem_inv byte_at read_u8 write_u8
  by unfold_locales
    (simp_all add: read_u8_spec same_mem_byte_at [OF read_u8_spec(3)] write_u8_view split: if_splits)

section \<open>Mapping\<close>

lemma page_range_set: "p \<in> set (page_range lo hi) \<longleftrightarrow> lo \<le> p \<and> p \<le> hi"
proof
  assume "p \<in> set (page_range lo hi)"
  then obtain n where n: "p = of_nat n" "unat lo \<le> n" "n \<le> unat hi"
    by (auto simp: page_range_def less_Suc_eq_le simp del: upt_Suc)
  have "unat hi < 2 ^ 32" using unat_bound [of hi] by simp
  then have "unat p = n" using n by (auto intro: unat_of_nat_lt)
  then show "lo \<le> p \<and> p \<le> hi" using n by (simp add: word_le_nat_alt)
next
  assume "lo \<le> p \<and> p \<le> hi"
  then show "p \<in> set (page_range lo hi)"
    by (auto simp: page_range_def word_le_nat_alt less_Suc_eq_le simp del: upt_Suc intro!: image_eqI [of _ _ "unat p"])
qed

lemma page_of_mono: "a \<le> b \<Longrightarrow> page_of a \<le> page_of b"
  by (simp add: word_le_nat_alt unat_page_of div_le_mono)

lemma saturating_end:
  "len \<noteq> 0 \<Longrightarrow> unat a + k < 2 ^ 32 \<Longrightarrow> k < unat len \<Longrightarrow>
   a + of_nat k \<le> saturating_add a (len - 1) \<and> a \<le> a + of_nat k" for a len :: u32
proof -
  assume len: "len \<noteq> 0" and fit: "unat a + k < 2 ^ 32" and k: "k < unat len"
  have "unat (of_nat k :: u32) = k" using fit by (intro unat_of_nat_lt) simp
  then have u: "unat (a + of_nat k) = unat a + k" using fit by (simp add: unat_word_ariths)
  have "unat (len - 1) = unat len - 1" using len by (simp add: unat_minus_one)
  then have "unat (saturating_add a (len - 1)) = min (2 ^ 32 - 1) (unat a + (unat len - 1))"
    by (simp add: unat_saturating_add)
  then show ?thesis using u fit k by (simp add: word_le_nat_alt)
qed

text \<open>One newly allocated page: a zero page appears, the others stay.\<close>

lemma mem_inv_push:
  assumes inv: "mem_inv m" and p: "index m p = None" "unat p < 2 ^ 20" and cap: "length (pages m) < max_pages m"
  defines "m' \<equiv> m\<lparr>pages := pages m @ [new_page], index := (index m)(p \<mapsto> of_nat (length (pages m)))\<rparr>"
  shows "mem_inv m'" "page_at m' q = (if q = p then Some new_page else page_at m q)"
proof -
  have len: "unat (of_nat (length (pages m)) :: u32) = length (pages m)"
    using mem_inv_pages [OF inv] by (intro unat_of_nat_lt) simp
  have fresh: "index m q \<noteq> Some (of_nat (length (pages m)))" for q
    using mem_inv_index(1) [OF inv, of q] len by fastforce
  have fin: "finite (dom (index m))"
    by (rule finite_subset [OF subset_UNIV]) simp
  have "inj_on (index m') (dom (index m'))"
    using inv fresh unfolding m'_def mem_inv_def inj_on_def
    by (auto simp: domIff dest: sym)
  moreover have "card (dom (index m')) = Suc (card (dom (index m)))"
    using p fin by (simp add: m'_def card_insert_if domIff)
  ultimately show "mem_inv m'"
    using inv p cap len unfolding mem_inv_def m'_def
    by (auto simp: new_page_def less_Suc_eq split: if_splits)
  show "page_at m' q = (if q = p then Some new_page else page_at m q)"
    using len mem_inv_index(1) [OF inv, of q] by (cases "index m q") (auto simp: m'_def page_at_def nth_append)
qed

abbreviation push_page :: "mem \<Rightarrow> u32 \<Rightarrow> mem" where
  "push_page m p \<equiv> m\<lparr>pages := pages m @ [new_page], index := (index m)(p \<mapsto> of_nat (length (pages m)))\<rparr>"

lemma map_pages_inv:
  "mem_inv m \<Longrightarrow> \<forall>p \<in> set ps. unat p < 2 ^ 20 \<Longrightarrow> mem_inv (snd (map_pages ps m))"
proof (induction ps m rule: map_pages.induct)
  case (2 p ps m)
  then show ?case using mem_inv_push(1) [of m p] by simp
qed simp

lemma map_pages_fields [simp]:
  "max_pages (snd (map_pages ps m)) = max_pages m" "code_gen (snd (map_pages ps m)) = code_gen m"
  by (induction ps m rule: map_pages.induct) simp_all

lemma map_pages_page_at:
  assumes "mem_inv m" "\<forall>p \<in> set ps. unat p < 2 ^ 20"
  shows "page_at (snd (map_pages ps m)) q =
    (if page_at m q = None \<and> page_at (snd (map_pages ps m)) q \<noteq> None then Some new_page else page_at m q)"
  using assms
proof (induction ps m rule: map_pages.induct)
  case (2 p ps m)
  consider "index m p \<noteq> None" | "index m p = None" "max_pages m \<le> length (pages m)"
    | "index m p = None" "length (pages m) < max_pages m" by linarith
  then show ?case
  proof cases
    case 3
    have eq: "map_pages (p # ps) m = map_pages ps (push_page m p)" using 3 by simp
    have pat: "page_at (push_page m p) q = (if q = p then Some new_page else page_at m q)"
      using mem_inv_push(2) [of m p q] "2.prems" 3 by simp
    have inv: "mem_inv (push_page m p)" using mem_inv_push(1) [of m p] "2.prems" 3 by simp
    have pn: "page_at m p = None" using 3 by (simp add: page_at_def)
    have IH: "page_at (snd (map_pages ps (push_page m p))) q =
      (if page_at (push_page m p) q = None \<and> page_at (snd (map_pages ps (push_page m p))) q \<noteq> None
       then Some new_page else page_at (push_page m p) q)"
      using "2.IH"(2) 3 inv "2.prems"(2) by simp
    show ?thesis
    proof (cases "q = p")
      case True
      then have "page_at (snd (map_pages ps (push_page m p))) q = Some new_page" using IH pat by simp
      then show ?thesis unfolding eq using True pn by simp
    next
      case False
      then have "page_at (push_page m p) q = page_at m q" using pat by simp
      from IH [unfolded this] show ?thesis unfolding eq .
    qed
  qed (use 2 in auto)
qed auto

lemma map_pages_keeps:
  assumes "mem_inv m" "\<forall>p \<in> set ps. unat p < 2 ^ 20" "page_at m q = Some pg"
  shows "page_at (snd (map_pages ps m)) q = Some pg"
  using map_pages_page_at [OF assms(1,2), of q] assms(3) by simp

lemma map_pages_result:
  assumes "mem_inv m" "\<forall>p \<in> set ps. unat p < 2 ^ 20"
  shows "case fst (map_pages ps m) of
       Inr _ \<Rightarrow> \<forall>p \<in> set ps. page_at (snd (map_pages ps m)) p \<noteq> None
     | Inl _ \<Rightarrow> at_capacity (snd (map_pages ps m))"
  using assms
proof (induction ps m rule: map_pages.induct)
  case (2 p ps m)
  consider pg where "index m p \<noteq> None" "page_at m p = Some pg"
    | "index m p = None" "max_pages m \<le> length (pages m)"
    | "index m p = None" "length (pages m) < max_pages m" by (fastforce simp: page_at_def)
  then show ?case
  proof cases
    case 1
    then have "page_at (snd (map_pages ps m)) p = Some pg"
      using "2.prems" by (intro map_pages_keeps) auto
    with 1 "2.IH"(1) "2.prems" show ?thesis by (auto split: sum.splits)
  next
    case 2
    then show ?thesis by (simp add: at_capacity_def)
  next
    case 3
    have inv: "mem_inv (push_page m p)" using mem_inv_push(1) [of m p] "2.prems" 3 by simp
    have "page_at (push_page m p) p = Some new_page" using mem_inv_push(2) [of m p p] "2.prems" 3 by simp
    then have "page_at (snd (map_pages ps (push_page m p))) p = Some new_page"
      using "2.prems"(2) by (intro map_pages_keeps inv) auto
    with 3 "2.IH"(2) inv "2.prems" show ?thesis by (auto split: sum.splits)
  qed
qed simp

lemma page_range_small: "p \<in> set (page_range (page_of a) (page_of b)) \<Longrightarrow> unat p < 2 ^ 20"
  using page_of_less [of b] by (auto simp: page_range_set word_le_nat_alt)

lemma map_mem_inv: "mem_inv m \<Longrightarrow> mem_inv (snd (map_mem m a len))"
  using map_pages_inv [of m "page_range _ _"] page_range_small by (auto simp: map_mem_def)

lemma map_mem_keeps: "mem_inv m \<Longrightarrow> page_at m q = Some pg \<Longrightarrow> page_at (snd (map_mem m a len)) q = Some pg"
  using map_pages_keeps [of m "page_range _ _"] page_range_small by (auto simp: map_mem_def)

section \<open>Page attributes\<close>

lemma slot_cache_inv:
  "mem_inv m \<Longrightarrow> slot m p = (Some s, m') \<Longrightarrow> mem_inv m' \<and> same_mem m m' \<and> index m p = Some s"
  by (auto simp: slot_eq mem_inv_cache same_mem_def split: if_splits)

lemma update_page:
  assumes inv: "mem_inv m" and s: "index m p = Some s" and pg: "length (p_bytes pg) = PAGE_SIZE"
  shows "mem_inv (m\<lparr>pages := (pages m)[unat s := pg]\<rparr>)"
    and "page_at (m\<lparr>pages := (pages m)[unat s := pg]\<rparr>) q = (if q = p then Some pg else page_at m q)"
proof -
  show "mem_inv (m\<lparr>pages := (pages m)[unat s := pg]\<rparr>)"
    using inv pg by (auto simp: mem_inv_def dest!: set_update_subset_insert [THEN subsetD])
  show "page_at (m\<lparr>pages := (pages m)[unat s := pg]\<rparr>) q = (if q = p then Some pg else page_at m q)"
  proof (cases "index m q")
    case (Some t)
    then have "unat s = unat t \<longleftrightarrow> q = p"
      using mem_inv_index(3) [OF inv s, of q] s by (auto simp flip: word_unat_eq_iff)
    then show ?thesis using Some s mem_inv_index(1) [OF inv s] by (auto simp: page_at_def)
  qed (use s in \<open>auto simp: page_at_def\<close>)
qed

lemma mark_executed_spec:
  assumes inv: "mem_inv m"
  shows "mem_inv (mark_executed m a)" "index (mark_executed m a) = index m"
    "code_gen (mark_executed m a) = code_gen m" "byte_at (mark_executed m a) = byte_at m"
    "page_at (mark_executed m a) q = (if q = page_of a
       then map_option (\<lambda>pg. pg\<lparr>p_executed := True\<rparr>) (page_at m q) else page_at m q)"
proof -
  have all: "mem_inv (mark_executed m a) \<and> index (mark_executed m a) = index m \<and>
    code_gen (mark_executed m a) = code_gen m \<and>
    (\<forall>q. page_at (mark_executed m a) q = (if q = page_of a
       then map_option (\<lambda>pg. pg\<lparr>p_executed := True\<rparr>) (page_at m q) else page_at m q))"
  proof (cases "index m (page_of a)")
    case None
    then show ?thesis using inv by (simp add: mark_executed_def slot_eq page_at_def)
  next
    case (Some s)
    let ?c = "m\<lparr>cache_page := page_of a, cache_slot := s, cached := True\<rparr>"
    have invc: "mem_inv ?c" and sc: "index ?c (page_of a) = Some s"
      using mem_inv_cache [OF inv Some] Some by simp_all
    have pc: "page_at ?c = page_at m" by (simp add: page_at_def fun_eq_iff)
    have eq: "mark_executed m a = ?c\<lparr>pages := (pages ?c)[unat s := (pages m ! unat s)\<lparr>p_executed := True\<rparr>]\<rparr>"
      using Some inv by (simp add: mark_executed_def slot_eq)
    have len: "length (p_bytes ((pages m ! unat s)\<lparr>p_executed := True\<rparr>)) = PAGE_SIZE"
      using mem_inv_index(4) [OF inv Some] by simp
    have ex: "page_at m (page_of a) = Some (pages m ! unat s)" using Some by (simp add: page_at_def)
    show ?thesis unfolding eq
      using update_page(1) [OF invc sc len] update_page(2) [OF invc sc len] ex by (simp add: pc)
  qed
  then show "mem_inv (mark_executed m a)" "index (mark_executed m a) = index m"
    "code_gen (mark_executed m a) = code_gen m"
    "page_at (mark_executed m a) q = (if q = page_of a
       then map_option (\<lambda>pg. pg\<lparr>p_executed := True\<rparr>) (page_at m q) else page_at m q)" by blast+
  show "byte_at (mark_executed m a) = byte_at m"
    using all by (auto simp: fun_eq_iff byte_at_def option.map_comp o_def)
qed

lemma clear_pages_spec:
  "mem_inv m \<Longrightarrow> mem_inv (clear_pages ps m) \<and> index (clear_pages ps m) = index m \<and>
     byte_at (clear_pages ps m) = byte_at m \<and> code_gen (clear_pages ps m) = code_gen m \<and>
     (\<forall>q. page_at (clear_pages ps m) q = (if q \<in> set ps
        then map_option (\<lambda>pg. pg\<lparr>p_dirty := False\<rparr>) (page_at m q) else page_at m q))"
proof (induction ps m rule: clear_pages.induct)
  case (2 p ps m)
  let ?m = "case index m p of
      Some s \<Rightarrow> m\<lparr>pages := (pages m)[unat s := (pages m ! unat s)\<lparr>p_dirty := False\<rparr>]\<rparr> | None \<Rightarrow> m"
  have one: "mem_inv ?m \<and> index ?m = index m \<and> code_gen ?m = code_gen m \<and>
      (\<forall>q. page_at ?m q = (if q = p then map_option (\<lambda>pg. pg\<lparr>p_dirty := False\<rparr>) (page_at m q) else page_at m q))"
  proof (cases "index m p")
    case None
    then show ?thesis using "2.prems" by (simp add: page_at_def)
  next
    case (Some s)
    have len: "length (p_bytes ((pages m ! unat s)\<lparr>p_dirty := False\<rparr>)) = PAGE_SIZE"
      using mem_inv_index(4) [OF "2.prems" Some] by simp
    have ex: "page_at m p = Some (pages m ! unat s)" using Some by (simp add: page_at_def)
    show ?thesis using update_page [OF "2.prems" Some len] Some ex by simp
  qed
  then have "byte_at ?m = byte_at m" by (auto simp: fun_eq_iff byte_at_def option.map_comp o_def)
  with one "2.IH" show ?case by (auto simp: option.map_comp o_def)
qed simp

lemma clear_dirty_inv: "mem_inv m \<Longrightarrow> mem_inv (clear_dirty m a len)"
  using clear_pages_spec by (simp add: clear_dirty_def)

section \<open>Reachable states\<close>

inductive mem_step :: "mem \<Rightarrow> mem \<Rightarrow> bool" where
  step_map: "mem_step m (snd (map_mem m a len))"
| step_watch: "mem_step m (watch_range m a len)"
| step_spread: "mem_step m (snd (take_write_spread m))"
| step_executed: "mem_step m (mark_executed m a)"
| step_clear: "mem_step m (clear_dirty m a len)"
| step_read_u8: "mem_step m (snd (read_u8 m a))"
| step_read_u16: "mem_step m (snd (read_u16 m a))"
| step_read_u32: "mem_step m (snd (read_u32 m a))"
| step_read_into: "mem_step m (snd (read_into m a out))"
| step_write_u8: "mem_step m (snd (write_u8 m a b))"
| step_write_u16: "mem_step m (snd (write_u16 m a w))"
| step_write_u32: "mem_step m (snd (write_u32 m a d))"
| step_write_bytes: "mem_step m (snd (write_bytes m a bs))"
| step_read_code: "mem_step m (snd (read_code m a n))"
| step_snapshot: "mem_step m (snd (snapshot m a n))"

inductive mem_reach :: "nat \<Rightarrow> mem \<Rightarrow> bool" where
  reach_new: "mem_reach cap (mem_new cap)"
| reach_step: "mem_reach cap m \<Longrightarrow> mem_step m m' \<Longrightarrow> mem_reach cap m'"

lemma snapshot_spec:
  "mem_inv m \<Longrightarrow> fst (snapshot m a n) = filled (byte_at m) a n \<and>
     mem_inv (snd (snapshot m a n)) \<and> same_mem m (snd (snapshot m a n))"
proof (induction m a n rule: snapshot.induct)
  case (1 m a n)
  let ?k = "min (PAGE_SIZE - page_off a) n"
  have off: "page_off a + ?k \<le> PAGE_SIZE" using less_imp_le [OF page_off_less, of a] by linarith
  show ?case
  proof (cases "n = 0")
    case True
    then show ?thesis using "1.prems" by (simp add: snapshot.simps)
  next
    case n: False
    show ?thesis
    proof (cases "index m (page_of a)")
      case None
      then have sl: "slot m (page_of a) = (None, m)" using "1.prems" by (simp add: slot_eq)
      have IH: "fst (snapshot m (a + of_nat ?k) (n - ?k)) = filled (byte_at m) (a + of_nat ?k) (n - ?k) \<and>
          mem_inv (snd (snapshot m (a + of_nat ?k) (n - ?k))) \<and>
          same_mem m (snd (snapshot m (a + of_nat ?k) (n - ?k)))"
        by (rule "1.IH"(1) [OF n refl refl sl [symmetric] refl]) (rule "1.prems")
      have "filled (byte_at m) a n = replicate ?k 0 @ filled (byte_at m) (a + of_nat ?k) (n - ?k)"
        using None off by (intro filled_hole) (simp_all add: page_at_def)
      with IH show ?thesis using n sl
        by (subst (1 2 3) snapshot.simps) (auto simp: Let_def split: prod.splits)
    next
      case (Some s)
      let ?c = "m\<lparr>cache_page := page_of a, cache_slot := s, cached := True\<rparr>"
      have invc: "mem_inv ?c" by (rule mem_inv_cache [OF "1.prems" Some])
      have same: "same_mem m ?c" by (simp add: same_mem_def)
      have sl: "slot m (page_of a) = (Some s, ?c)" using "1.prems" Some by (simp add: slot_eq)
      have IH: "fst (snapshot ?c (a + of_nat ?k) (n - ?k)) = filled (byte_at ?c) (a + of_nat ?k) (n - ?k) \<and>
          mem_inv (snd (snapshot ?c (a + of_nat ?k) (n - ?k))) \<and>
          same_mem ?c (snd (snapshot ?c (a + of_nat ?k) (n - ?k)))"
        by (rule "1.IH"(2) [OF n refl refl sl [symmetric] refl]) (rule invc)
      have "bytes_at (byte_at m) a ?k = Some (take ?k (drop (page_off a) (p_bytes (pages m ! unat s))))"
        using Some mem_inv_index(4) [OF "1.prems" Some] off by (intro bytes_at_page) (simp_all add: page_at_def)
      from filled_split [OF this, of n] IH same_mem_byte_at [OF same] same_mem_trans [OF same]
      show ?thesis using n sl
        by (subst (1 2 3) snapshot.simps) (auto simp: Let_def split: prod.splits)
    qed
  qed
qed

lemma read_into_inv: "mem_inv m \<Longrightarrow> mem_inv (snd (read_into m a out))"
proof -
  assume inv: "mem_inv m"
  show ?thesis
    using inv read_each_spec [OF inv, of "length out" a] slot_inv [OF inv, of "page_of a"]
    by (auto simp: read_into_def Let_def split: prod.splits option.splits)
qed

lemma read_u16_inv: "mem_inv m \<Longrightarrow> mem_inv (snd (read_u16 m a))"
  using read_into_inv [of m a "replicate 2 0"]
  by (auto simp: read_u16_def split: prod.splits sum.splits)

lemma read_u32_inv: "mem_inv m \<Longrightarrow> mem_inv (snd (read_u32 m a))"
  using read_into_inv [of m a "replicate 4 0"]
  by (auto simp: read_u32_def split: prod.splits sum.splits)

lemma write_bytes_inv: "mem_inv m \<Longrightarrow> mem_inv (snd (write_bytes m a bs))"
  using conjunct1 [OF write_bytes_spec] unfolding write_frame_def by blast

lemma mem_inv_fields:
  "mem_inv (m\<lparr>recent_pages := r\<rparr>) = mem_inv m" "mem_inv (m\<lparr>watch := w, watch_dirty := n\<rparr>) = mem_inv m"
  by (simp_all add: mem_inv_def)

lemma mem_step_inv: "mem_step m m' \<Longrightarrow> mem_inv m \<Longrightarrow> mem_inv m'"
  by (induction rule: mem_step.induct)
    (simp_all add: map_mem_inv watch_range_def take_write_spread_def mem_inv_fields mark_executed_spec(1)
      clear_dirty_inv read_u8_spec(2) read_u16_inv read_u32_inv read_into_inv write_u8_view(3)
      write_u16_def write_u32_def write_bytes_inv read_code_spec snapshot_spec)

lemma store_page_cap: "max_pages (store_page m p s bs) = max_pages m"
  by (rule store_page_index)

lemma slot_cap: "max_pages (snd (slot m p)) = max_pages m"
  using slot_same [of m p] by (simp add: same_mem_def)

lemma write_u8_cap: "max_pages (snd (write_u8 m a v)) = max_pages m"
  using slot_cap [of m "page_of a"] by (auto simp: write_u8_def split: prod.splits option.splits)

lemma write_each_cap: "max_pages (snd (write_each bs m a)) = max_pages m"
proof (induction bs arbitrary: m a)
  case (Cons b bs)
  then show ?case using write_u8_cap [of m a b] by (auto split: prod.splits sum.splits)
qed simp

lemma write_bytes_cap: "max_pages (snd (write_bytes m a bs)) = max_pages m"
  using slot_cap [of m "page_of a"] write_each_cap [of bs m a]
  by (auto simp: write_bytes_def Let_def split: prod.splits option.splits)

lemma read_u8_cap: "max_pages (snd (read_u8 m a)) = max_pages m"
  using slot_cap [of m "page_of a"] by (auto simp: read_u8_def split: prod.splits option.splits)

lemma read_each_cap: "max_pages (snd (read_each n m a)) = max_pages m"
proof (induction n arbitrary: m a)
  case (Suc n)
  obtain r m1 where r: "read_u8 m a = (r, m1)" by force
  then have "max_pages m1 = max_pages m" using read_u8_cap [of m a] by simp
  then show ?case using r Suc [of m1 "a + 1"] by (auto split: prod.splits sum.splits)
qed simp

lemma read_into_cap: "max_pages (snd (read_into m a out)) = max_pages m"
  using slot_cap [of m "page_of a"] read_each_cap [of "length out" m a]
  by (auto simp: read_into_def Let_def split: prod.splits option.splits)

lemma read_u16_cap: "max_pages (snd (read_u16 m a)) = max_pages m"
  using read_into_cap [of m a "replicate 2 0"] by (auto simp: read_u16_def split: prod.splits sum.splits)

lemma read_u32_cap: "max_pages (snd (read_u32 m a)) = max_pages m"
  using read_into_cap [of m a "replicate 4 0"] by (auto simp: read_u32_def split: prod.splits sum.splits)

lemma clear_pages_cap: "max_pages (clear_pages ps m) = max_pages m"
  by (induction ps m rule: clear_pages.induct) (auto split: option.splits)

lemma mark_executed_cap: "max_pages (mark_executed m a) = max_pages m"
  using slot_cap [of m "page_of a"] by (auto simp: mark_executed_def split: prod.splits option.splits)

lemma mem_step_cap: "mem_step m m' \<Longrightarrow> mem_inv m \<Longrightarrow> max_pages m' = max_pages m"
proof (induction rule: mem_step.induct)
  case (step_read_code m a n)
  then show ?case using read_code_spec [of m a n] by (simp add: same_mem_def)
next
  case (step_snapshot m a n)
  then show ?case using snapshot_spec [of m a n] by (simp add: same_mem_def)
qed (simp_all add: map_mem_def watch_range_def take_write_spread_def mark_executed_cap clear_dirty_def
  clear_pages_cap read_u8_cap read_u16_cap read_u32_cap read_into_cap write_u8_cap write_u16_def write_u32_def
  write_bytes_cap)

lemma mem_new_inv: "mem_inv (mem_new cap)"
  by (simp add: mem_inv_def mem_new_def)

section \<open>Blocks of the address space\<close>

lemma put_bytes_eq:
  "length bs \<le> 2 ^ 32 \<Longrightarrow> put_bytes f a bs x =
     (if unat (x - a) < length bs then Some (bs ! unat (x - a)) else f x)"
proof (induction bs arbitrary: f a)
  case (Cons b bs)
  have eq: "put_bytes f a (b # bs) x =
      (if unat (x - (a + 1)) < length bs then Some (bs ! unat (x - (a + 1))) else (f(a \<mapsto> b)) x)"
    using Cons by simp
  show ?case
  proof (cases "x = a")
    case True
    have "length bs \<le> unat (- 1 :: u32)" using Cons.prems by (simp add: unat_minus_1)
    then show ?thesis using eq True by simp
  next
    case False
    then have "unat (x - a) \<noteq> 0" by (simp add: unat_eq_zero)
    moreover have "unat (x - (a + 1)) = unat (x - a) - 1"
      using False unat_minus_one [of "x - a"] by (simp add: diff_diff_eq)
    ultimately obtain k where "unat (x - a) = Suc k" "unat (x - (a + 1)) = k"
      by (cases "unat (x - a)") simp_all
    then show ?thesis using eq False by simp
  qed
qed simp

lemma bytes_at_eq:
  "bytes_at f a n = (if \<forall>i<n. f (a + of_nat i) \<noteq> None
     then Some (map (\<lambda>i. the (f (a + of_nat i))) [0..<n]) else None)"
proof (induction n arbitrary: a)
  case (Suc n)
  have all: "(\<forall>i<Suc n. f (a + of_nat i) \<noteq> None) \<longleftrightarrow>
      f a \<noteq> None \<and> (\<forall>i<n. f (a + 1 + of_nat i) \<noteq> None)"
    by (simp add: All_less_Suc2 add_ac)
  have "map (\<lambda>i. the (f (a + of_nat i))) [0..<Suc n] =
      the (f a) # map (\<lambda>i. the (f (a + 1 + of_nat i))) [0..<n]"
    by (simp add: upt_conv_Cons map_Suc_upt [symmetric] o_def add_ac del: upt_Suc)
  then show ?case using all by (simp add: Suc.IH split: option.splits)
qed simp

lemma bytes_at_put_bytes:
  assumes "length bs \<le> 2 ^ 32"
  shows "bytes_at (put_bytes f a bs) a (length bs) = Some bs"
proof -
  have at: "put_bytes f a bs (a + of_nat i) = Some (bs ! i)" if "i < length bs" for i
  proof -
    have "unat (of_nat i :: u32) = i" using that assms by (intro unat_of_nat_lt) simp
    then show ?thesis using that assms by (simp add: put_bytes_eq)
  qed
  then have "map (\<lambda>i. the (put_bytes f a bs (a + of_nat i))) [0..<length bs] = map ((!) bs) [0..<length bs]"
    by (intro map_cong refl) simp
  with at show ?thesis unfolding bytes_at_eq by (simp add: map_nth)
qed

end
