(* ===== verification/Emu_Mem_Props.thy ===== *)
theory Emu_Mem_Props
  imports Emu_Mem_Spec
begin

text \<open>
  The properties of the emulator's memory: the invariant over every sequence of operations,
  the round trip of multi-byte accesses across pages, the agreement of the page-at-a-time paths
  with the byte loops, mapping, fetch and dump, and the code-generation counter as a sound
  detector of self-modifying code.
\<close>

section \<open>A concrete memory\<close>

text \<open>Two neighbouring pages, numbers 1 and 2, under a cap of three.\<close>

definition demo_mem :: mem where
  "demo_mem = snd (map_mem (mem_new 3) 0x1FFF 2)"

lemma page_range_two: "page_range (page_of 0x1FFF) (page_of 0x2000) = [1, 2]"
  by (simp add: page_range_def page_of_def upt_rec)

lemma demo_mem_eq:
  "demo_mem = (mem_new 3)\<lparr>pages := [new_page, new_page], index := [1 \<mapsto> 0, 2 \<mapsto> 1]\<rparr>"
proof -
  have "(saturating_add 0x1FFF 1 :: u32) = 0x2000" by (simp add: saturating_add_def)
  then show ?thesis
    by (simp add: demo_mem_def map_mem_def page_range_two mem_new_def)
qed

lemma demo_mem_reach: "mem_reach 3 demo_mem"
  unfolding demo_mem_def by (intro reach_step [OF reach_new] step_map)

lemma demo_mem_inv: "mem_inv demo_mem"
  unfolding demo_mem_def by (intro map_mem_inv mem_new_inv)

lemma demo_mem_byte:
  "byte_at demo_mem a = (if page_of a = 1 \<or> page_of a = 2 then Some 0 else None)"
  using page_off_less [of a] by (auto simp: byte_at_def page_at_def demo_mem_eq new_page_def)

lemmas bytes_at_numeral =
  bytes_at.simps(2) [of _ _ "pred_numeral k" for k, folded numeral_eq_Suc]

lemma demo_mem_block: "bytes_at (byte_at demo_mem) 0x1FFE 4 = Some [0, 0, 0, 0]"
  by (simp add: bytes_at_numeral demo_mem_byte page_of_def)

section \<open>The state invariant\<close>

text \<open>
  C38. In every state the emulator's memory can reach from \<open>Mem::new(cap)\<close> by any sequence of
  its operations, the page index is injective into the page list, every page has 4096 bytes,
  the lookup cache agrees with the index, and no more than the cap's pages are allocated.
\<close>

theorem mem_reach_inv:
  assumes "mem_reach cap m"
  shows "mem_inv m \<and> length (pages m) \<le> cap"
proof -
  have "mem_inv m \<and> max_pages m = cap" using assms
  proof (induction rule: mem_reach.induct)
    case (reach_step cap m m')
    then show ?case using mem_step_inv mem_step_cap by metis
  next
    case (reach_new cap)
    have "max_pages (mem_new cap) = cap" by (simp add: mem_new_def)
    then show ?case by (simp add: mem_new_inv)
  qed
  then show ?thesis by (auto simp: mem_inv_def)
qed

theorem mem_reach_inv_witness: "mem_inv demo_mem \<and> length (pages demo_mem) \<le> 3"
  by (rule mem_reach_inv [OF demo_mem_reach])

section \<open>Multi-byte accesses\<close>

lemma read_u32_bytes:
  assumes "mem_inv m"
  shows "fst (read_u32 m a) = Inr w \<longleftrightarrow> bytes_at (byte_at m) a 4 = Some (to_le 4 w)"
proof -
  note r = read_into_spec [OF assms, of "replicate 4 0" a]
  have inj: "from_le bs = w \<longleftrightarrow> bs = to_le 4 w" if "length bs = 4" for bs
    using that from_to_le [where n = 4 and w = w] to_from_le [of bs 4, where 'a = 32] by auto
  show ?thesis
  proof (cases "bytes_at (byte_at m) a 4")
    case None
    then show ?thesis using r by (auto simp: read_u32_def split: prod.splits)
  next
    case (Some bs)
    then have "fst (read_into m a (replicate 4 0)) = Inr bs" "length bs = 4"
      using r bytes_at_length [OF Some] by simp_all
    then show ?thesis using Some inj by (auto simp: read_u32_def split: prod.splits)
  qed
qed

lemma put_bytes_far:
  assumes "length bs \<le> 2 ^ 32" "length bs \<le> unat (x - a)"
  shows "put_bytes f a bs x = f x"
  using assms by (simp add: put_bytes_eq)

lemma unat_uminus: "d \<noteq> 0 \<Longrightarrow> unat (- d) = 2 ^ 32 - unat d" for d :: u32
proof -
  assume "d \<noteq> 0"
  then have "uint d \<noteq> 0" by (simp add: uint_0_iff)
  moreover have "uint d mod 4294967296 = uint d" using uint_lt2p [of d] by simp
  ultimately have "uint (- d) = 2 ^ 32 - uint d"
    using uint_word_ariths(4) [of d] by (simp add: zmod_zminus1_eq_if)
  then have "nat (uint (- d)) = nat (2 ^ 32 - uint d)" by (simp only:)
  also have "\<dots> = 2 ^ 32 - nat (uint d)" by (subst nat_diff_distrib') simp_all
  finally show ?thesis by (simp only: unat_eq_nat_uint)
qed

lemma far_add:
  fixes a b :: u32
  assumes "4 \<le> unat (b - a)" "4 \<le> unat (a - b)" "i < 4"
  shows "4 \<le> unat (b + of_nat i - a)"
proof -
  let ?d = "b - a"
  have nz: "?d \<noteq> 0" using assms(1) by auto
  have "- ?d = a - b" by simp
  from unat_uminus [OF nz, unfolded this] have "unat (a - b) = 2 ^ 32 - unat ?d" .
  then have "unat ?d + 4 \<le> 2 ^ 32" using assms(2) by linarith
  moreover have "unat (of_nat i :: u32) = i" using assms(3) by (intro unat_of_nat_lt) simp
  ultimately have "unat (?d + of_nat i) = unat ?d + i" using assms(3) by (simp add: unat_word_ariths)
  moreover have "b + of_nat i - a = ?d + of_nat i" by simp
  ultimately show ?thesis using assms(1) by (simp only:)
qed

text \<open>
  A 32-bit write to four mapped bytes succeeds, on one page or across two, the value is
  read back, and every read of four bytes that do not overlap it is as before.
\<close>

theorem write_read_u32:
  assumes inv: "mem_inv m" and mapped: "bytes_at (byte_at m) a 4 \<noteq> None"
  shows "\<exists>m'. write_u32 m a v = (Inr (), m') \<and> mem_inv m' \<and> fst (read_u32 m' a) = Inr v \<and>
    (\<forall>b w. 4 \<le> unat (b - a) \<longrightarrow> 4 \<le> unat (a - b) \<longrightarrow>
       (fst (read_u32 m' b) = Inr w) = (fst (read_u32 m b) = Inr w))"
proof -
  obtain r m' where w: "write_u32 m a v = (r, m')" by force
  have spec: "mem_inv m'" "r = Inr ()" "byte_at m' = put_bytes (byte_at m) a (to_le 4 v)"
    using write_bytes_spec [OF inv, of a "to_le 4 v"] mapped w
    by (simp_all add: write_u32_def write_frame_def)
  have "fst (read_u32 m' a) = Inr v"
    using bytes_at_put_bytes [of "to_le 4 v" "byte_at m" a] by (simp add: read_u32_bytes spec)
  moreover have "bytes_at (byte_at m') b 4 = bytes_at (byte_at m) b 4"
    if "4 \<le> unat (b - a)" "4 \<le> unat (a - b)" for b
  proof -
    have "byte_at m' (b + of_nat i) = byte_at m (b + of_nat i)" if "i < 4" for i
      unfolding spec(3) using far_add [OF \<open>4 \<le> unat (b - a)\<close> \<open>4 \<le> unat (a - b)\<close> that]
      by (intro put_bytes_far) simp_all
    then show ?thesis by (simp add: bytes_at_eq)
  qed
  ultimately show ?thesis using w spec by (simp add: read_u32_bytes inv)
qed

theorem write_read_u32_witness:
  "\<exists>m'. write_u32 demo_mem 0x1FFE 0xDEADBEEF = (Inr (), m') \<and> fst (read_u32 m' 0x1FFE) = Inr 0xDEADBEEF"
  using write_read_u32 [of demo_mem "0x1FFE" "0xDEADBEEF"] demo_mem_inv by (force simp: demo_mem_block)

text \<open>
  The page-at-a-time path of \<^verbatim>\<open>write_bytes\<close> has the result and the memory contents of
  writing byte by byte, faults included.
\<close>

theorem write_bytes_loop:
  assumes inv: "mem_inv m"
  shows "fst (write_bytes m a bs) = fst (write_each bs m a) \<and>
    byte_at (snd (write_bytes m a bs)) = byte_at (snd (write_each bs m a))"
proof (cases "bytes_at (byte_at m) a (length bs)")
  case (Some x)
  then show ?thesis using write_bytes_spec [OF inv, of a bs] write_each_spec [OF inv, of bs a] by simp
next
  case None
  then obtain b cs where bs: "bs = b # cs" by (cases bs) auto
  show ?thesis
  proof (cases "page_off a + length bs \<le> PAGE_SIZE \<and> index m (page_of a) = None")
    case True
    then have "byte_at m a = None" by (simp add: byte_at_def page_at_def)
    from write_u8_None [OF inv this] True show ?thesis using inv bs by (simp add: write_bytes_def slot_eq)
  next
    case False
    have "\<not> page_off a + length bs \<le> PAGE_SIZE"
    proof
      assume fits: "page_off a + length bs \<le> PAGE_SIZE"
      with False obtain pg where "page_at m (page_of a) = Some pg" by (auto simp: page_at_def)
      from bytes_at_page [OF this page_at_length [OF inv this] fits] None show False by simp
    qed
    then have "write_bytes m a bs = write_each bs m a" using bs by (simp add: write_bytes_def)
    then show ?thesis by simp
  qed
qed

theorem write_bytes_loop_witness:
  "fst (write_bytes demo_mem 0x2FFE [1, 2, 3]) = fst (write_each [1, 2, 3] demo_mem 0x2FFE)"
  using write_bytes_loop [OF demo_mem_inv] by blast

section \<open>Self-modifying code\<close>

text \<open>
  What any operation leaves to the decoder's cache: pages stay executed once they are, and when
  the generation did not move, the bytes of every executed page are as before.
\<close>

definition executed_at :: "mem \<Rightarrow> u32 \<Rightarrow> bool" where
  "executed_at m q \<longleftrightarrow> map_option p_executed (page_at m q) = Some True"

definition code_frame :: "mem \<Rightarrow> mem \<Rightarrow> bool" where
  "code_frame m m' \<longleftrightarrow> mem_inv m' \<and> code_gen m \<le> code_gen m' \<and>
     (\<forall>q. executed_at m q \<longrightarrow> executed_at m' q) \<and>
     (\<forall>q. code_gen m' = code_gen m \<longrightarrow> executed_at m q \<longrightarrow>
        map_option p_bytes (page_at m' q) = map_option p_bytes (page_at m q))"

lemma code_frame_write: "write_frame m m' \<Longrightarrow> code_frame m m'"
  by (simp add: write_frame_def code_frame_def executed_at_def)

lemma code_frame_same: "mem_inv m' \<Longrightarrow> same_mem m m' \<Longrightarrow> code_frame m m'"
  by (intro code_frame_write write_frame_same)

lemma code_frame_pages:
  assumes "mem_inv m'" "code_gen m' = code_gen m"
    "\<And>q pg. page_at m q = Some pg \<Longrightarrow> \<exists>pg'. page_at m' q = Some pg' \<and> p_bytes pg' = p_bytes pg \<and>
       (p_executed pg \<longrightarrow> p_executed pg')"
  shows "code_frame m m'"
  unfolding code_frame_def
proof (intro conjI allI impI)
  show "mem_inv m'" "code_gen m \<le> code_gen m'" using assms by simp_all
next
  fix q assume "executed_at m q"
  then obtain pg where pg: "page_at m q = Some pg" "p_executed pg" by (auto simp: executed_at_def)
  from assms(3) [OF pg(1)] pg show "executed_at m' q"
    "map_option p_bytes (page_at m' q) = map_option p_bytes (page_at m q)" by (auto simp: executed_at_def)
qed

lemma code_frame_trans: "code_frame a b \<Longrightarrow> code_frame b c \<Longrightarrow> code_frame a c"
  unfolding code_frame_def by (smt (verit) le_antisym le_trans)

lemma mem_step_code_frame: "mem_step m m' \<Longrightarrow> mem_inv m \<Longrightarrow> code_frame m m'"
proof (induction rule: mem_step.induct)
  case (step_map m a len)
  then show ?case using map_mem_keeps
    by (intro code_frame_pages map_mem_inv) (auto simp: map_mem_def)
next
  case (step_watch m a len)
  then show ?case by (intro code_frame_pages) (auto simp: watch_range_def mem_inv_fields page_at_def)
next
  case (step_spread m)
  then show ?case by (intro code_frame_pages) (auto simp: take_write_spread_def mem_inv_fields page_at_def)
next
  case (step_executed m a)
  then show ?case by (intro code_frame_pages) (auto simp: mark_executed_spec)
next
  case (step_clear m a len)
  then show ?case using clear_pages_spec
    by (intro code_frame_pages clear_dirty_inv) (auto simp: clear_dirty_def)
next
  case (step_read_u8 m a)
  then show ?case by (intro code_frame_same read_u8_spec)
next
  case (step_read_u16 m a)
  then show ?case using read_into_spec [of m "replicate 2 0" a]
    by (intro code_frame_same read_u16_inv) (auto simp: read_u16_def split: prod.splits sum.splits)
next
  case (step_read_u32 m a)
  then show ?case using read_into_spec [of m "replicate 4 0" a]
    by (intro code_frame_same read_u32_inv) (auto simp: read_u32_def split: prod.splits sum.splits)
next
  case (step_read_into m a out)
  then show ?case using read_each_spec [of m "length out" a] slot_same [of m "page_of a"]
    by (intro code_frame_same read_into_inv) (auto simp: read_into_def Let_def split: prod.splits option.splits)
next
  case (step_write_u8 m a b)
  then show ?case by (intro code_frame_write write_u8_frame)
next
  case (step_write_u16 m a w)
  then show ?case using write_bytes_spec by (intro code_frame_write) (simp add: write_u16_def)
next
  case (step_write_u32 m a d)
  then show ?case using write_bytes_spec by (intro code_frame_write) (simp add: write_u32_def)
next
  case (step_write_bytes m a bs)
  then show ?case using write_bytes_spec by (intro code_frame_write) simp
next
  case (step_read_code m a n)
  then show ?case using read_code_spec by (intro code_frame_same) simp_all
next
  case (step_snapshot m a n)
  then show ?case using snapshot_spec by (intro code_frame_same) simp_all
qed

lemma mem_steps_code_frame: "mem_step\<^sup>*\<^sup>* m m' \<Longrightarrow> mem_inv m \<Longrightarrow> code_frame m m'"
proof (induction rule: rtranclp_induct)
  case base
  then show ?case by (simp add: code_frame_same)
next
  case (step y z)
  then have "code_frame m y" by simp
  moreover from this have "code_frame y z"
    using step by (intro mem_step_code_frame) (simp_all add: code_frame_def)
  ultimately show ?case by (rule code_frame_trans)
qed

text \<open>
  The code generation detects self-modifying code: after any sequence of memory operations
  that leaves \<^verbatim>\<open>code_generation()\<close> unchanged, every byte of every page that was marked executed
  reads as it did, so an instruction decoded before it is still the one in memory.
\<close>

theorem code_generation_sound:
  assumes "mem_inv m" "mem_step\<^sup>*\<^sup>* m m'" "code_generation m' = code_generation m"
    and "executed_at m (page_of a)"
  shows "byte_at m' a = byte_at m a"
proof -
  have "map_option p_bytes (page_at m' (page_of a)) = map_option p_bytes (page_at m (page_of a))"
    using mem_steps_code_frame [OF assms(2,1)] assms(3,4) by (simp add: code_frame_def code_generation_def)
  from arg_cong [OF this, of "map_option (\<lambda>bs. bs ! page_off a)"] show ?thesis
    by (simp add: byte_at_def option.map_comp o_def)
qed

theorem code_generation_sound_witness:
  "byte_at (snd (write_u8 (mark_executed demo_mem 0x1000) 0x2000 7)) 0x1000 =
   byte_at (mark_executed demo_mem 0x1000) 0x1000"
proof (rule code_generation_sound)
  show "mem_inv (mark_executed demo_mem 0x1000)" by (rule mark_executed_spec(1) [OF demo_mem_inv])
  show "mem_step\<^sup>*\<^sup>* (mark_executed demo_mem 0x1000) (snd (write_u8 (mark_executed demo_mem 0x1000) 0x2000 7))"
    by (intro r_into_rtranclp step_write_u8)
  show "code_generation (snd (write_u8 (mark_executed demo_mem 0x1000) 0x2000 7)) =
      code_generation (mark_executed demo_mem 0x1000)"
    by (simp add: code_generation_def demo_mem_eq mark_executed_def slot_def write_u8_def store_page_gen
        page_of_def mem_new_def new_page_def)
  show "executed_at (mark_executed demo_mem 0x1000) (page_of 0x1000)"
    unfolding executed_at_def mark_executed_spec(5) [OF demo_mem_inv]
    by (simp add: page_at_def demo_mem_eq page_of_def)
qed

section \<open>Fetch and dump\<close>

text \<open>
  Instruction fetch returns exactly the mapped bytes from the address on, up to the first
  hole or the wanted count, and a dump returns the requested count with zeros in the holes;
  neither changes the memory.
\<close>

theorem fetch_and_dump:
  assumes "mem_inv m"
  shows "fst (read_code m a n) = mapped_prefix (byte_at m) a n \<and> byte_at (snd (read_code m a n)) = byte_at m \<and>
    fst (snapshot m a k) = map (\<lambda>i. case byte_at m (a + of_nat i) of None \<Rightarrow> 0 | Some b \<Rightarrow> b) [0..<k] \<and>
    byte_at (snd (snapshot m a k)) = byte_at m"
proof -
  have "filled f a k = map (\<lambda>i. case f (a + of_nat i) of None \<Rightarrow> 0 | Some b \<Rightarrow> b) [0..<k]" for f
  proof (induction k arbitrary: a)
    case (Suc k)
    show ?case by (simp add: Suc upt_conv_Cons map_Suc_upt [symmetric] o_def add_ac del: upt_Suc)
  qed simp
  then show ?thesis using read_code_spec [OF assms, of a n] snapshot_spec [OF assms, of a k]
    by (simp add: same_mem_byte_at)
qed

theorem fetch_and_dump_witness:
  "fst (read_code demo_mem 0x2FFF 4) = [0] \<and> fst (snapshot demo_mem 0x2FFF 3) = [0, 0, 0]"
  using fetch_and_dump [OF demo_mem_inv, of "0x2FFF" 4 3]
  by (simp add: mapped_prefix.simps(2) [of _ _ "pred_numeral k" for k, folded numeral_eq_Suc]
    demo_mem_byte page_of_def upt_rec)

section \<open>Mapping\<close>

text \<open>
  Mapping a range either succeeds, and then every byte of the range below the top of the
  address space is mapped, or stops at the page cap; in both cases bytes that were mapped keep
  their value and newly mapped bytes are zero.
\<close>

theorem map_mem_correct:
  assumes inv: "mem_inv m"
  shows "case map_mem m a len of (r, m') \<Rightarrow>
    (case r of
       Inr _ \<Rightarrow> \<forall>k < unat len. unat a + k < 2 ^ 32 \<longrightarrow> byte_at m' (a + of_nat k) \<noteq> None
     | Inl _ \<Rightarrow> at_capacity m') \<and>
    (\<forall>x. byte_at m' x = byte_at m x \<or> byte_at m x = None \<and> byte_at m' x = Some 0)"
proof (cases "len = 0")
  case True
  then show ?thesis by (simp add: map_mem_def)
next
  case False
  let ?ps = "page_range (page_of a) (page_of (saturating_add a (len - 1)))"
  obtain r m' where r: "map_pages ?ps m = (r, m')" by force
  have eq: "map_mem m a len = (r, m')" using False r by (simp add: map_mem_def)
  have small: "\<forall>p \<in> set ?ps. unat p < 2 ^ 20" using page_range_small by blast
  have range: "page_of (a + of_nat k) \<in> set ?ps" if "k < unat len" "unat a + k < 2 ^ 32" for k
    using saturating_end [OF False that(2,1)] by (simp add: page_range_set page_of_mono)
  have "page_at m' q = (if page_at m q = None \<and> page_at m' q \<noteq> None then Some new_page else page_at m q)" for q
    using map_pages_page_at [OF inv small, of q] r by simp
  then have new: "page_at m' q = page_at m q \<or> page_at m q = None \<and> page_at m' q = Some new_page" for q
    by (metis (full_types))
  have "byte_at m' x = byte_at m x \<or> byte_at m x = None \<and> byte_at m' x = Some 0" for x
    using new [of "page_of x"] by (auto simp: byte_at_def new_page_def)
  moreover have "case r of
       Inr _ \<Rightarrow> \<forall>k < unat len. unat a + k < 2 ^ 32 \<longrightarrow> byte_at m' (a + of_nat k) \<noteq> None
     | Inl _ \<Rightarrow> at_capacity m'"
    using map_pages_result [OF inv small] r range by (auto simp: byte_at_def split: sum.splits)
  ultimately show ?thesis by (simp add: eq)
qed

theorem map_mem_correct_witness:
  "byte_at demo_mem 0x2000 = Some 0 \<and> at_capacity (snd (map_mem (mem_new 1) 0x1FFF 2))"
proof -
  have 1: "fst (map_mem (mem_new 3) 0x1FFF 2) = Inr ()" and 2: "fst (map_mem (mem_new 1) 0x1FFF 2) = Inl OutOfPages"
    using page_range_two by (simp_all add: map_mem_def saturating_add_def mem_new_def)
  have "byte_at demo_mem (0x1FFF + of_nat 1) \<noteq> None"
    using map_mem_correct [OF mem_new_inv [of 3], where a = "0x1FFF" and len = 2] 1
    by (auto simp: demo_mem_def split: prod.splits dest!: spec [of _ "1::nat"])
  moreover have "at_capacity (snd (map_mem (mem_new 1) 0x1FFF 2))"
    using map_mem_correct [OF mem_new_inv [of 1], where a = "0x1FFF" and len = 2] 2 by (auto split: prod.splits)
  ultimately show ?thesis by (auto simp: demo_mem_byte split: if_splits)
qed

lemma page_in_range:
  assumes p: "page_of a \<le> p" "p \<le> page_of e" and le: "a \<le> e"
  shows "\<exists>x. a \<le> x \<and> x \<le> e \<and> page_of x = p"
proof (cases "p = page_of a")
  case True
  then show ?thesis using le by blast
next
  case False
  define x :: u32 where "x = of_nat (4096 * unat p)"
  have lt: "unat (page_of a) < unat p" using p False by (simp add: word_le_nat_alt word_unat_eq_iff)
  obtain q where q: "unat a = 4096 * q + page_off a" "unat (page_of a) = q" by (rule addr_split)
  obtain r where r: "unat e = 4096 * r + page_off e" "unat (page_of e) = r" by (rule addr_split)
  have ple: "unat p \<le> r" using p r by (simp add: word_le_nat_alt)
  have "4096 * unat p \<le> unat e" using ple r(1) by simp
  moreover have "unat e < 2 ^ 32" using unat_bound [of e] by simp
  ultimately have x: "unat x = 4096 * unat p" unfolding x_def by (intro unat_of_nat_lt) simp
  have "4096 * (q + 1) \<le> 4096 * unat p" using lt q by (intro mult_le_mono2) simp
  moreover have "unat a < 4096 * (q + 1)" using q page_off_less [of a] by (simp add: PAGE_SIZE_def)
  ultimately have "a \<le> x" using x by (simp add: word_le_nat_alt)
  moreover have "x \<le> e" using x \<open>4096 * unat p \<le> unat e\<close> by (simp add: word_le_nat_alt)
  moreover have "page_of x = p" using x by (simp add: word_unat_eq_iff unat_page_of)
  ultimately show ?thesis by blast
qed

text \<open>
  \<^verbatim>\<open>is_mapped\<close> says exactly whether the range lies below the top of the address space
  and every one of its bytes can be read.
\<close>

theorem is_mapped_iff:
  "is_mapped m a len \<longleftrightarrow> len = 0 \<or>
     unat a + unat len \<le> 2 ^ 32 \<and> (\<forall>k < unat len. byte_at m (a + of_nat k) \<noteq> None)"
proof (cases "len = 0 \<or> \<not> unat a + unat len \<le> 2 ^ 32")
  case True
  moreover have "len \<noteq> 0 \<Longrightarrow> unat (len - 1) = unat len - 1" by (rule unat_minus_one)
  ultimately show ?thesis by (auto simp: is_mapped_def add_chk_def)
next
  case False
  then have nz: "len \<noteq> 0" and fit: "unat a + unat len \<le> 2 ^ 32" by auto
  have l1: "unat (len - 1) = unat len - 1" by (rule unat_minus_one [OF nz])
  have pos: "0 < unat len" using nz by (simp add: unat_gt_0)
  obtain e where e: "add_chk a (len - 1) = Some e" "unat e = unat a + (unat len - 1)"
  proof -
    have "unat a + unat (len - 1) < 2 ^ LENGTH(32)" using fit l1 pos by simp
    from add_chk_fits [OF this] l1 that show ?thesis by auto
  qed
  have in_range: "(a \<le> x \<and> x \<le> e) = (\<exists>k < unat len. x = a + of_nat k)" for x
  proof
    assume "a \<le> x \<and> x \<le> e"
    then have "unat x - unat a < unat len" "x = a + of_nat (unat x - unat a)"
      using e(2) pos by (auto simp: word_le_nat_alt word_unat_eq_iff unat_word_ariths of_nat_diff)
    then show "\<exists>k < unat len. x = a + of_nat k" by blast
  next
    assume "\<exists>k < unat len. x = a + of_nat k"
    then obtain k where k: "k < unat len" "x = a + of_nat k" by blast
    have "unat (of_nat k :: u32) = k" using k(1) fit by (intro unat_of_nat_lt) simp
    then have "unat x = unat a + k" using k fit by (simp add: unat_word_ariths)
    then show "a \<le> x \<and> x \<le> e" using e(2) k(1) by (simp add: word_le_nat_alt)
  qed
  have ae: "a \<le> e" using e(2) by (simp add: word_le_nat_alt)
  have pages: "(\<forall>p \<in> set (page_range (page_of a) (page_of e)). index m p \<noteq> None) =
      (\<forall>x. a \<le> x \<and> x \<le> e \<longrightarrow> index m (page_of x) \<noteq> None)"
    using page_in_range [OF _ _ ae] page_of_mono by (fastforce simp: page_range_set)
  have "is_mapped m a len = (\<forall>x. a \<le> x \<and> x \<le> e \<longrightarrow> index m (page_of x) \<noteq> None)"
    using nz e(1) by (simp add: is_mapped_def list_all_iff pages del: not_None_eq)
  then show ?thesis unfolding in_range using nz fit by (auto simp: byte_at_def page_at_def)
qed

lemma below_2: "(\<forall>k < unat (2 :: u32). P k) \<longleftrightarrow> P 0 \<and> P 1"
proof -
  have "k < 2 \<Longrightarrow> k = 0 \<or> k = 1" for k :: nat by arith
  then show ?thesis by auto
qed

theorem is_mapped_iff_witness: "is_mapped demo_mem 0x1FFF 2 \<and> \<not> is_mapped demo_mem 0x2FFF 2"
  unfolding is_mapped_iff below_2 by (simp add: demo_mem_byte page_of_def)

end
