(* ===== verification/Emu_Cpu.thy ===== *)
theory Emu_Cpu
  imports Emu_Mem_Props
begin

text \<open>
  The processor of the unpacking emulator (\<^verbatim>\<open>crates/exav-pe-emu/src/cpu.rs\<close>), first part: the
  decoded instruction (\<^verbatim>\<open>crates/exav-x86/src/lib.rs\<close>), the register file, the flags, operand
  access and the condition codes.

  A method that takes \<^verbatim>\<open>&mut self\<close> and \<^verbatim>\<open>&mut Mem\<close> is a function on the pair of both
  states. Its outcome is a value, a \<^verbatim>\<open>Stop\<close>, or a panic (a shift or division that the release
  profile checks); the states are returned in every case, because the code has changed them when
  it stops half-way. Widths in bytes are \<open>nat\<close>; the code's are at most 16.
\<close>

section \<open>Instructions\<close>

datatype opsize = B1 | B2 | B4

definition size_bytes :: "opsize \<Rightarrow> nat" where
  "size_bytes s = (case s of B1 \<Rightarrow> 1 | B2 \<Rightarrow> 2 | B4 \<Rightarrow> 4)"

datatype seg = Es | Cs | Ss | Ds | Fs | Gs

text \<open>Displacements, immediates and targets are the 64-bit patterns of the code's \<^verbatim>\<open>i64\<close> and \<^verbatim>\<open>u64\<close>.\<close>

datatype opnd =
    OpNone
  | Reg u8 opsize
  | Mem "u8 option" "u8 option" u8 u64 "seg option" opsize bool
  | Imm u64
  | Rel u64
  | SegReg seg
  | St u8
  | Xmm u8
  | Mmx u8
  | MemWide "u8 option" "u8 option" u8 u64 "seg option" u8 bool
  | FarPtr u16 u32

type_synonym mnemonic = string

record insn =
  i_len :: nat
  i_mn :: mnemonic
  i_ops :: "opnd list"
  i_rep :: bool
  i_repne :: bool
  i_lock :: bool
  i_osize :: opsize
  i_addr16 :: bool

definition op_count :: "insn \<Rightarrow> nat" where
  "op_count i = length (filter (\<lambda>p. p \<noteq> OpNone) (i_ops i))"

definition next_ip :: "insn \<Rightarrow> u64 \<Rightarrow> u64" where
  "next_ip i ip = ip + of_nat (i_len i)"

section \<open>State\<close>

datatype stop =
    Fault fault
  | Invalid u32
  | Unsupported u32 mnemonic
  | Interrupt u8
  | Privileged u32
  | Halt
  | DivideError

abbreviation (input) EAX :: nat where "EAX \<equiv> 0"
abbreviation (input) ECX :: nat where "ECX \<equiv> 1"
abbreviation (input) EDX :: nat where "EDX \<equiv> 2"
abbreviation (input) EBX :: nat where "EBX \<equiv> 3"
abbreviation (input) ESP :: nat where "ESP \<equiv> 4"
abbreviation (input) EBP :: nat where "EBP \<equiv> 5"
abbreviation (input) ESI :: nat where "ESI \<equiv> 6"
abbreviation (input) EDI :: nat where "EDI \<equiv> 7"

definition MAX_INSN :: nat where "MAX_INSN = 16"

definition CACHE_SLOTS :: nat where "CACHE_SLOTS = 2 ^ 14"

text \<open>
  The fixed-size arrays \<^verbatim>\<open>[u32; 8]\<close> and so on are functions of the index: the code only indexes
  them with constants below 8 or numbers cut to three bits, and the decode cache with the address
  cut to its size. The x87 stack holds the bit patterns of its \<^verbatim>\<open>f64\<close> values.
\<close>

record cpu =
  regs :: "nat \<Rightarrow> u32"
  eip :: u32
  cf :: bool
  pf :: bool
  af :: bool
  zf :: bool
  sf :: bool
  of_flag :: bool
  df :: bool
  tf :: bool
  fs_base :: u32
  gs_base :: u32
  tsc :: u64
  fpu :: "nat \<Rightarrow> u64"
  fpu_top :: nat
  fpu_cw :: u16
  fpu_last_ip :: u32
  fpu_approximated :: bool
  partial_ticks :: u64
  cache :: "nat \<Rightarrow> (nat \<times> u32 \<times> insn) option"
  xmm :: "nat \<Rightarrow> bytes"
  mmx :: "nat \<Rightarrow> u64"

definition cpu_new :: cpu where
  "cpu_new =
     \<lparr>regs = (\<lambda>_. 0), eip = 0, cf = False, pf = False, af = False, zf = False, sf = False,
      of_flag = False, df = False, tf = False, fs_base = 0, gs_base = 0, tsc = 0x10000,
      fpu = (\<lambda>_. 0), fpu_top = 0, fpu_cw = 0x037F, fpu_last_ip = 0,
      fpu_approximated = False, partial_ticks = 0, cache = (\<lambda>_. None),
      xmm = (\<lambda>_. replicate 16 0), mmx = (\<lambda>_. 0)\<rparr>"

section \<open>Outcomes\<close>

datatype 'a outcome = Done 'a | Stopped stop | Panicked

type_synonym machine = "cpu \<times> mem"
type_synonym 'a exec = "machine \<Rightarrow> 'a outcome \<times> machine"

definition ret_x :: "'a \<Rightarrow> 'a exec" where
  "ret_x v s = (Done v, s)"

definition stop_x :: "stop \<Rightarrow> 'a exec" where
  "stop_x e s = (Stopped e, s)"

text \<open>The checks the release profile makes before a shift, division or slice.\<close>

definition check_x :: "bool \<Rightarrow> unit exec" where
  "check_x b s = ((if b then Done () else Panicked), s)"

definition bind_x :: "'a exec \<Rightarrow> ('a \<Rightarrow> 'b exec) \<Rightarrow> 'b exec" where
  "bind_x p f s =
     (case p s of
        (Done v, s') \<Rightarrow> f v s'
      | (Stopped e, s') \<Rightarrow> (Stopped e, s')
      | (Panicked, s') \<Rightarrow> (Panicked, s'))"

definition then_x :: "'a exec \<Rightarrow> 'b exec \<Rightarrow> 'b exec" where
  "then_x p q = bind_x p (\<lambda>_. q)"

definition get_x :: "(cpu \<Rightarrow> 'a) \<Rightarrow> 'a exec" where
  "get_x f s = (Done (f (fst s)), s)"

definition put_x :: "(cpu \<Rightarrow> cpu) \<Rightarrow> unit exec" where
  "put_x f s = (Done (), f (fst s), snd s)"

text \<open>
  A method of the processor alone that also returns a value, one that may panic on the way, and an
  access to memory.
\<close>

definition cpu_x :: "(cpu \<Rightarrow> 'a \<times> cpu) \<Rightarrow> 'a exec" where
  "cpu_x f s = (case f (fst s) of (v, c) \<Rightarrow> (Done v, c, snd s))"

definition try_x :: "(cpu \<Rightarrow> ('a \<times> cpu) option) \<Rightarrow> 'a exec" where
  "try_x f s = (case f (fst s) of Some (v, c) \<Rightarrow> (Done v, c, snd s) | None \<Rightarrow> (Panicked, s))"

definition mem_x :: "(mem \<Rightarrow> 'a mem_result) \<Rightarrow> 'a exec" where
  "mem_x f s =
     (case f (snd s) of
        (Inl e, m) \<Rightarrow> (Stopped (Fault e), fst s, m)
      | (Inr v, m) \<Rightarrow> (Done v, fst s, m))"

fun each_x :: "('a \<Rightarrow> unit exec) \<Rightarrow> 'a list \<Rightarrow> unit exec" where
  "each_x f [] = ret_x ()"
| "each_x f (x # xs) = then_x (f x) (each_x f xs)"

text \<open>
  What an execution keeps of the machine, as a relation between the states before and after, the
  stopped and the panicked executions included. A preorder is kept by every composition of
  executions that keep it.
\<close>

definition exec_rel :: "(machine \<Rightarrow> machine \<Rightarrow> bool) \<Rightarrow> 'a exec \<Rightarrow> bool" where
  "exec_rel R p \<longleftrightarrow> (\<forall>s. R s (snd (p s)))"

lemma exec_relI: "(\<And>s. R s (snd (p s))) \<Longrightarrow> exec_rel R p"
  by (simp add: exec_rel_def)

lemma exec_relD: "exec_rel R p \<Longrightarrow> p s = (r, s') \<Longrightarrow> R s s'"
  by (metis exec_rel_def snd_conv)

locale exec_frame =
  fixes R :: "machine \<Rightarrow> machine \<Rightarrow> bool"
  assumes R_refl: "R s s"
    and R_trans: "R s t \<Longrightarrow> R t u \<Longrightarrow> R s u"
begin

lemma frame_bind:
  assumes p: "exec_rel R p" and f: "\<And>v. exec_rel R (f v)"
  shows "exec_rel R (bind_x p f)"
proof (rule exec_relI)
  fix s
  obtain r t where t: "p s = (r, t)" by (cases "p s")
  have "R s t" by (rule exec_relD [OF p t])
  moreover have "R t (snd (f v t))" for v using f by (auto simp only: exec_rel_def)
  ultimately show "R s (snd (bind_x p f s))"
    using t R_trans by (cases r) (auto simp: bind_x_def)
qed

lemma frame_then: "exec_rel R p \<Longrightarrow> exec_rel R q \<Longrightarrow> exec_rel R (then_x p q)"
  by (simp add: then_x_def frame_bind)

lemma frame_pure:
  "exec_rel R (ret_x v)" "exec_rel R (stop_x e)" "exec_rel R (check_x b)" "exec_rel R (get_x f)"
  by (simp_all add: exec_rel_def ret_x_def stop_x_def check_x_def get_x_def R_refl)

lemma frame_put: "(\<And>c m. R (c, m) (h c, m)) \<Longrightarrow> exec_rel R (put_x h)"
  by (auto simp: exec_rel_def put_x_def)

lemma frame_cpu: "(\<And>c m. R (c, m) (snd (k c), m)) \<Longrightarrow> exec_rel R (cpu_x k)"
  by (auto simp: exec_rel_def cpu_x_def split_beta)

lemma frame_try: "(\<And>c m v c'. k c = Some (v, c') \<Longrightarrow> R (c, m) (c', m)) \<Longrightarrow> exec_rel R (try_x k)"
  by (auto simp: exec_rel_def try_x_def R_refl split: option.split)

lemma frame_mem: "(\<And>c m. R (c, m) (c, snd (g m))) \<Longrightarrow> exec_rel R (mem_x g)"
  by (auto simp: exec_rel_def mem_x_def split_beta split: sum.splits)

lemma frame_each: "(\<And>x. exec_rel R (f x)) \<Longrightarrow> exec_rel R (each_x f xs)"
  by (induction xs) (simp_all add: frame_pure frame_then)

lemma frame_if: "(b \<Longrightarrow> exec_rel R p) \<Longrightarrow> (\<not> b \<Longrightarrow> exec_rel R q) \<Longrightarrow> exec_rel R (if b then p else q)"
  by simp

lemmas frame_rules = frame_bind frame_then frame_pure frame_each frame_if

end

section \<open>Registers and flags\<close>

definition reg :: "cpu \<Rightarrow> nat \<Rightarrow> u32" where
  "reg c n = regs c n"

definition set_reg :: "nat \<Rightarrow> u32 \<Rightarrow> cpu \<Rightarrow> cpu" where
  "set_reg n v c = c\<lparr>regs := (regs c)(n := v)\<rparr>"

definition flag_bit :: "bool \<Rightarrow> nat \<Rightarrow> u32" where
  "flag_bit b n = (if b then push_bit n 1 else 0)"

definition eflags :: "cpu \<Rightarrow> u32" where
  "eflags c =
     0x0202 OR flag_bit (cf c) 0 OR flag_bit (pf c) 2 OR flag_bit (af c) 4 OR flag_bit (zf c) 6
     OR flag_bit (sf c) 7 OR flag_bit (tf c) 8 OR flag_bit (df c) 10 OR flag_bit (of_flag c) 11"

definition set_eflags :: "u32 \<Rightarrow> cpu \<Rightarrow> cpu" where
  "set_eflags f c =
     c\<lparr>cf := (f AND push_bit 0 1 \<noteq> 0), pf := (f AND push_bit 2 1 \<noteq> 0), af := (f AND push_bit 4 1 \<noteq> 0),
       zf := (f AND push_bit 6 1 \<noteq> 0), sf := (f AND push_bit 7 1 \<noteq> 0), tf := (f AND push_bit 8 1 \<noteq> 0),
       df := (f AND push_bit 10 1 \<noteq> 0), of_flag := (f AND push_bit 11 1 \<noteq> 0)\<rparr>"

definition push32 :: "u32 \<Rightarrow> unit exec" where
  "push32 v =
     bind_x (get_x (\<lambda>c. reg c ESP - 4)) (\<lambda>sp.
     then_x (put_x (set_reg ESP sp))
       (mem_x (\<lambda>m. write_u32 m sp v)))"

definition pop32 :: "u32 exec" where
  "pop32 =
     bind_x (get_x (\<lambda>c. reg c ESP)) (\<lambda>sp.
     bind_x (mem_x (\<lambda>m. read_u32 m sp)) (\<lambda>v.
     then_x (put_x (set_reg ESP (sp + 4)))
       (ret_x v)))"

definition push16 :: "u16 \<Rightarrow> unit exec" where
  "push16 v =
     bind_x (get_x (\<lambda>c. reg c ESP - 2)) (\<lambda>sp.
     then_x (put_x (set_reg ESP sp))
       (mem_x (\<lambda>m. write_u16 m sp v)))"

definition pop16 :: "u16 exec" where
  "pop16 =
     bind_x (get_x (\<lambda>c. reg c ESP)) (\<lambda>sp.
     bind_x (mem_x (\<lambda>m. read_u16 m sp)) (\<lambda>v.
     then_x (put_x (set_reg ESP (sp + 2)))
       (ret_x v)))"

definition reg_num :: "u8 \<Rightarrow> nat" where
  "reg_num num = unat (num AND 7)"

definition reg_read :: "u8 \<Rightarrow> opsize \<Rightarrow> cpu \<Rightarrow> u32" where
  "reg_read num s c =
     (let n = reg_num num in
      case s of
        B4 \<Rightarrow> reg c n
      | B2 \<Rightarrow> reg c n AND 0xFFFF
      | B1 \<Rightarrow> if n < 4 then reg c n AND 0xFF else drop_bit 8 (reg c (n - 4)) AND 0xFF)"

definition reg_write :: "u8 \<Rightarrow> opsize \<Rightarrow> u32 \<Rightarrow> cpu \<Rightarrow> cpu" where
  "reg_write num s v c =
     (let n = reg_num num in
      case s of
        B4 \<Rightarrow> set_reg n v c
      | B2 \<Rightarrow> set_reg n ((reg c n AND 0xFFFF0000) OR (v AND 0xFFFF)) c
      | B1 \<Rightarrow>
          if n < 4 then set_reg n ((reg c n AND 0xFFFFFF00) OR (v AND 0xFF)) c
          else set_reg (n - 4) ((reg c (n - 4) AND 0xFFFF00FF) OR push_bit 8 (v AND 0xFF)) c)"

definition seg_value :: "seg \<Rightarrow> u32" where
  "seg_value s = (case s of Cs \<Rightarrow> 0x1B | Fs \<Rightarrow> 0x3B | Gs \<Rightarrow> 0 | _ \<Rightarrow> 0x23)"

section \<open>Operands\<close>

definition imm :: "insn \<Rightarrow> nat \<Rightarrow> u32" where
  "imm i k = (case i_ops i ! k of Imm v \<Rightarrow> ucast v | _ \<Rightarrow> 0)"

text \<open>\<^verbatim>\<open>Iterator::find_map\<close>.\<close>

fun find_map :: "('a \<Rightarrow> 'b option) \<Rightarrow> 'a list \<Rightarrow> 'b option" where
  "find_map f [] = None"
| "find_map f (x # xs) = (case f x of None \<Rightarrow> find_map f xs | Some y \<Rightarrow> Some y)"

definition branch_target :: "insn \<Rightarrow> u32 option" where
  "branch_target i = find_map (\<lambda>p. case p of Rel t \<Rightarrow> Some (ucast t) | _ \<Rightarrow> None) (i_ops i)"

definition is_mem_op :: "opnd \<Rightarrow> bool" where
  "is_mem_op p = (case p of Mem _ _ _ _ _ _ _ \<Rightarrow> True | MemWide _ _ _ _ _ _ _ \<Rightarrow> True | _ \<Rightarrow> False)"

definition is_mem :: "insn \<Rightarrow> nat \<Rightarrow> bool" where
  "is_mem i k = is_mem_op (i_ops i ! k)"

definition mem_width :: "insn \<Rightarrow> nat" where
  "mem_width i =
     (case find_map (\<lambda>p. case p of MemWide _ _ _ _ _ n _ \<Rightarrow> Some (unat n)
                               | Mem _ _ _ _ _ s _ \<Rightarrow> Some (size_bytes s) | _ \<Rightarrow> None) (i_ops i) of
        Some n \<Rightarrow> n | None \<Rightarrow> 4)"

definition st_index :: "insn \<Rightarrow> nat \<Rightarrow> nat" where
  "st_index i k = (if k < length (i_ops i) then case i_ops i ! k of St n \<Rightarrow> reg_num n | _ \<Rightarrow> 1 else 1)"

definition op_size :: "insn \<Rightarrow> nat \<Rightarrow> nat" where
  "op_size i k =
     (case i_ops i ! k of
        Reg _ s \<Rightarrow> size_bytes s
      | Mem _ _ _ _ _ s _ \<Rightarrow> size_bytes s
      | MemWide _ _ _ _ _ n _ \<Rightarrow> min (unat n) 4
      | Xmm _ \<Rightarrow> 16
      | Mmx _ \<Rightarrow> 8
      | St _ \<Rightarrow> 8
      | SegReg _ \<Rightarrow> 2
      | _ \<Rightarrow> size_bytes (i_osize i))"

definition ea :: "insn \<Rightarrow> cpu \<Rightarrow> u32" where
  "ea i c =
     (case find_map (\<lambda>p. case p of
                Mem b x sc d sg _ a16 \<Rightarrow> Some (b, x, sc, d, sg, a16)
              | MemWide b x sc d sg _ a16 \<Rightarrow> Some (b, x, sc, d, sg, a16)
              | _ \<Rightarrow> None) (i_ops i) of
        None \<Rightarrow> 0
      | Some (b, x, sc, d, sg, a16) \<Rightarrow>
          (let a = ucast d;
               a = (case b of Some r \<Rightarrow> a + reg c (reg_num r) | None \<Rightarrow> a);
               a = (case x of Some r \<Rightarrow> a + reg c (reg_num r) * ucast sc | None \<Rightarrow> a);
               a = (if a16 then a AND 0xFFFF else a)
           in case sg of
                Some Fs \<Rightarrow> a + fs_base c
              | Some Gs \<Rightarrow> a + gs_base c
              | _ \<Rightarrow> a))"

definition read_mem :: "u32 \<Rightarrow> nat \<Rightarrow> u32 exec" where
  "read_mem addr n =
     (if n = 1 then bind_x (mem_x (\<lambda>m. read_u8 m addr)) (\<lambda>v. ret_x (ucast v))
      else if n = 2 then bind_x (mem_x (\<lambda>m. read_u16 m addr)) (\<lambda>v. ret_x (ucast v))
      else mem_x (\<lambda>m. read_u32 m addr))"

definition write_mem :: "u32 \<Rightarrow> nat \<Rightarrow> u32 \<Rightarrow> unit exec" where
  "write_mem addr n v =
     (if n = 1 then mem_x (\<lambda>m. write_u8 m addr (ucast v))
      else if n = 2 then mem_x (\<lambda>m. write_u16 m addr (ucast v))
      else mem_x (\<lambda>m. write_u32 m addr v))"

definition unsupported :: "insn \<Rightarrow> 'a exec" where
  "unsupported i = bind_x (get_x eip) (\<lambda>ip. stop_x (Unsupported ip (i_mn i)))"

definition read_op :: "insn \<Rightarrow> nat \<Rightarrow> u32 exec" where
  "read_op i k =
     (case i_ops i ! k of
        Reg n s \<Rightarrow> get_x (reg_read n s)
      | SegReg s \<Rightarrow> ret_x (seg_value s)
      | Mem _ _ _ _ _ _ _ \<Rightarrow> bind_x (get_x (ea i)) (\<lambda>a. read_mem a (op_size i k))
      | MemWide _ _ _ _ _ _ _ \<Rightarrow> bind_x (get_x (ea i)) (\<lambda>a. read_mem a (op_size i k))
      | Imm v \<Rightarrow> ret_x (ucast v)
      | Rel t \<Rightarrow> ret_x (ucast t)
      | _ \<Rightarrow> unsupported i)"

definition write_op :: "insn \<Rightarrow> nat \<Rightarrow> u32 \<Rightarrow> unit exec" where
  "write_op i k v =
     (case i_ops i ! k of
        Reg n s \<Rightarrow> put_x (reg_write n s v)
      | SegReg _ \<Rightarrow> ret_x ()
      | Mem _ _ _ _ _ _ _ \<Rightarrow> bind_x (get_x (ea i)) (\<lambda>a. write_mem a (op_size i k) v)
      | MemWide _ _ _ _ _ _ _ \<Rightarrow> bind_x (get_x (ea i)) (\<lambda>a. write_mem a (op_size i k) v)
      | _ \<Rightarrow> unsupported i)"

section \<open>Arithmetic flags\<close>

definition op_mask :: "nat \<Rightarrow> u32" where
  "op_mask n = (if n = 1 then 0xFF else if n = 2 then 0xFFFF else 0xFFFFFFFF)"

definition sign_bit :: "nat \<Rightarrow> u32" where
  "sign_bit n = (if n = 1 then 0x80 else if n = 2 then 0x8000 else 0x80000000)"

definition sign_extend :: "u32 \<Rightarrow> nat \<Rightarrow> u32" where
  "sign_extend v n =
     (if n = 1 then scast (ucast v :: u8) else if n = 2 then scast (ucast v :: u16) else v)"

definition set_szp :: "u32 \<Rightarrow> nat \<Rightarrow> cpu \<Rightarrow> cpu" where
  "set_szp res n c =
     (let r = res AND op_mask n
      in c\<lparr>zf := (r = 0), sf := (r AND sign_bit n \<noteq> 0), pf := even (count_ones (ucast r :: u8))\<rparr>)"

definition flags_add :: "u32 \<Rightarrow> u32 \<Rightarrow> u32 \<Rightarrow> nat \<Rightarrow> cpu \<Rightarrow> u32 \<times> cpu" where
  "flags_add a b carry_in n c =
     (let m = op_mask n;
          a = a AND m;
          b = b AND m;
          full = ucast a + ucast b + ucast carry_in :: u64;
          res = ucast full AND m
      in (res, set_szp res n
            (c\<lparr>cf := (ucast m < full), af := ((a XOR b XOR res) AND 0x10 \<noteq> 0),
               of_flag := ((a XOR res) AND (b XOR res) AND sign_bit n \<noteq> 0)\<rparr>)))"

definition flags_sub :: "u32 \<Rightarrow> u32 \<Rightarrow> u32 \<Rightarrow> nat \<Rightarrow> cpu \<Rightarrow> u32 \<times> cpu" where
  "flags_sub a b borrow_in n c =
     (let m = op_mask n;
          a = a AND m;
          b = b AND m;
          full = ucast a - ucast b - ucast borrow_in :: u64;
          res = ucast full AND m
      in (res, set_szp res n
            (c\<lparr>cf := ((ucast a :: u64) < ucast b + ucast borrow_in),
               af := ((a XOR b XOR res) AND 0x10 \<noteq> 0),
               of_flag := ((a XOR b) AND (a XOR res) AND sign_bit n \<noteq> 0)\<rparr>)))"

definition flags_logic :: "u32 \<Rightarrow> nat \<Rightarrow> cpu \<Rightarrow> u32 \<times> cpu" where
  "flags_logic res n c =
     (let r = res AND op_mask n
      in (r, set_szp r n (c\<lparr>cf := False, of_flag := False, af := False\<rparr>)))"

definition cond :: "mnemonic \<Rightarrow> cpu \<Rightarrow> bool option" where
  "cond m c =
     (if m \<in> {''Jo'', ''Seto'', ''Cmovo''} then Some (of_flag c)
      else if m \<in> {''Jno'', ''Setno'', ''Cmovno''} then Some (\<not> of_flag c)
      else if m \<in> {''Jb'', ''Setb'', ''Cmovb''} then Some (cf c)
      else if m \<in> {''Jae'', ''Setae'', ''Cmovae''} then Some (\<not> cf c)
      else if m \<in> {''Je'', ''Sete'', ''Cmove''} then Some (zf c)
      else if m \<in> {''Jne'', ''Setne'', ''Cmovne''} then Some (\<not> zf c)
      else if m \<in> {''Jbe'', ''Setbe'', ''Cmovbe''} then Some (cf c \<or> zf c)
      else if m \<in> {''Ja'', ''Seta'', ''Cmova''} then Some (\<not> cf c \<and> \<not> zf c)
      else if m \<in> {''Js'', ''Sets'', ''Cmovs''} then Some (sf c)
      else if m \<in> {''Jns'', ''Setns'', ''Cmovns''} then Some (\<not> sf c)
      else if m \<in> {''Jp'', ''Setp'', ''Cmovp''} then Some (pf c)
      else if m \<in> {''Jnp'', ''Setnp'', ''Cmovnp''} then Some (\<not> pf c)
      else if m \<in> {''Jl'', ''Setl'', ''Cmovl''} then Some (sf c \<noteq> of_flag c)
      else if m \<in> {''Jge'', ''Setge'', ''Cmovge''} then Some (sf c = of_flag c)
      else if m \<in> {''Jle'', ''Setle'', ''Cmovle''} then Some (zf c \<or> sf c \<noteq> of_flag c)
      else if m \<in> {''Jg'', ''Setg'', ''Cmovg''} then Some (\<not> zf c \<and> sf c = of_flag c)
      else None)"

end
