(* ===== verification/Emu_Exec.thy ===== *)
theory Emu_Exec
  imports Emu_Cpu "HOL-Library.Monad_Syntax"
begin

text \<open>
  The instructions of the emulated processor (\<^verbatim>\<open>Cpu::exec\<close> in
  \<^verbatim>\<open>crates/exav-pe-emu/src/cpu.rs\<close>): one definition per arm of its dispatch, with the helpers
  they call. An arm that the code shares between mnemonics takes the mnemonic.
\<close>

section \<open>Moves\<close>

definition exec_mov :: "insn \<Rightarrow> unit exec" where
  "exec_mov i =
     bind_x (read_op i 1) (\<lambda>v.
     write_op i 0 (v AND op_mask (op_size i 0)))"

definition exec_movzx :: "insn \<Rightarrow> unit exec" where
  "exec_movzx i =
     bind_x (read_op i 1) (\<lambda>v.
     write_op i 0 (v AND op_mask (op_size i 1)))"

definition exec_movsx :: "insn \<Rightarrow> unit exec" where
  "exec_movsx i =
     bind_x (read_op i 1) (\<lambda>v.
     write_op i 0 (sign_extend v (op_size i 1)))"

definition exec_lea :: "insn \<Rightarrow> unit exec" where
  "exec_lea i = bind_x (get_x (ea i)) (\<lambda>a. write_op i 0 a)"

definition exec_xchg :: "insn \<Rightarrow> unit exec" where
  "exec_xchg i =
     bind_x (read_op i 0) (\<lambda>a.
     bind_x (read_op i 1) (\<lambda>b.
     then_x (write_op i 0 b)
       (write_op i 1 a)))"

definition exec_xadd :: "insn \<Rightarrow> unit exec" where
  "exec_xadd i =
     (let n = op_size i 0 in
      bind_x (read_op i 0) (\<lambda>a.
      bind_x (read_op i 1) (\<lambda>b.
      bind_x (cpu_x (flags_add a b 0 n)) (\<lambda>sum.
      then_x (write_op i 1 a)
        (write_op i 0 sum)))))"

definition exec_cmpxchg :: "insn \<Rightarrow> unit exec" where
  "exec_cmpxchg i =
     (let n = op_size i 0 in
      bind_x (read_op i 0) (\<lambda>dst.
      bind_x (get_x (\<lambda>c. reg c EAX AND op_mask n)) (\<lambda>acc.
      then_x (cpu_x (flags_sub acc dst 0 n))
        (if acc AND op_mask n = dst AND op_mask n then
           bind_x (read_op i 1) (\<lambda>src. write_op i 0 src)
         else
           put_x (\<lambda>c. set_reg EAX ((reg c EAX AND NOT (op_mask n)) OR (dst AND op_mask n)) c)))))"

definition swap_bytes :: "u32 \<Rightarrow> u32" where
  "swap_bytes v = from_le (rev (to_le 4 v))"

definition exec_bswap :: "insn \<Rightarrow> unit exec" where
  "exec_bswap i = bind_x (read_op i 0) (\<lambda>v. write_op i 0 (swap_bytes v))"

section \<open>Stack\<close>

definition exec_push :: "insn \<Rightarrow> unit exec" where
  "exec_push i =
     (let n = op_size i 0 in
      bind_x (read_op i 0) (\<lambda>v.
      if n = 2 then
        bind_x (get_x (\<lambda>c. reg c ESP - 2)) (\<lambda>sp.
        then_x (put_x (set_reg ESP sp))
          (mem_x (\<lambda>m. write_u16 m sp (ucast v))))
      else push32 v))"

definition exec_pop :: "insn \<Rightarrow> unit exec" where
  "exec_pop i =
     (if op_size i 0 = 2 then
        bind_x (get_x (\<lambda>c. reg c ESP)) (\<lambda>sp.
        bind_x (mem_x (\<lambda>m. read_u16 m sp)) (\<lambda>v.
        then_x (put_x (set_reg ESP (sp + 2)))
          (write_op i 0 (ucast v))))
      else bind_x pop32 (\<lambda>v. write_op i 0 v))"

definition push_reg32 :: "nat \<Rightarrow> unit exec" where
  "push_reg32 r = bind_x (get_x (\<lambda>c. reg c r)) push32"

definition push_reg16 :: "nat \<Rightarrow> unit exec" where
  "push_reg16 r = bind_x (get_x (\<lambda>c. ucast (reg c r))) push16"

definition pop_reg32 :: "nat \<Rightarrow> unit exec" where
  "pop_reg32 r = bind_x pop32 (\<lambda>v. put_x (set_reg r v))"

definition pop_reg16 :: "nat \<Rightarrow> unit exec" where
  "pop_reg16 r = bind_x pop16 (\<lambda>v. put_x (\<lambda>c. set_reg r ((reg c r AND 0xFFFF0000) OR ucast v) c))"

definition exec_pushad :: "unit exec" where
  "exec_pushad =
     bind_x (get_x (\<lambda>c. reg c ESP)) (\<lambda>sp.
     then_x (each_x push_reg32 [EAX, ECX, EDX, EBX])
       (then_x (push32 sp)
         (each_x push_reg32 [EBP, ESI, EDI])))"

definition exec_pusha :: "unit exec" where
  "exec_pusha =
     bind_x (get_x (\<lambda>c. ucast (reg c ESP))) (\<lambda>sp.
     then_x (each_x push_reg16 [EAX, ECX, EDX, EBX])
       (then_x (push16 sp)
         (each_x push_reg16 [EBP, ESI, EDI])))"

definition exec_popad :: "unit exec" where
  "exec_popad =
     then_x (each_x pop_reg32 [EDI, ESI, EBP])
       (then_x pop32
         (each_x pop_reg32 [EBX, EDX, ECX, EAX]))"

definition exec_popa :: "unit exec" where
  "exec_popa =
     then_x (each_x pop_reg16 [EDI, ESI, EBP])
       (then_x pop16
         (each_x pop_reg16 [EBX, EDX, ECX, EAX]))"

definition exec_pushfd :: "unit exec" where
  "exec_pushfd = bind_x (get_x eflags) push32"

definition exec_pushf :: "unit exec" where
  "exec_pushf = bind_x (get_x (\<lambda>c. ucast (eflags c))) push16"

definition exec_popfd :: "unit exec" where
  "exec_popfd = bind_x pop32 (\<lambda>f. put_x (set_eflags f))"

definition exec_popf :: "unit exec" where
  "exec_popf =
     bind_x pop16 (\<lambda>lo.
     put_x (\<lambda>c. set_eflags ((eflags c AND 0xFFFF0000) OR ucast lo) c))"

definition exec_leave :: "unit exec" where
  "exec_leave =
     then_x (put_x (\<lambda>c. set_reg ESP (reg c EBP) c))
       (bind_x pop32 (\<lambda>v. put_x (set_reg EBP v)))"

definition enter_level :: "unit exec" where
  "enter_level =
     bind_x (get_x (\<lambda>c. reg c EBP - 4)) (\<lambda>ptr.
     then_x (put_x (set_reg EBP ptr))
       (bind_x (mem_x (\<lambda>m. read_u32 m ptr)) push32))"

definition exec_enter :: "insn \<Rightarrow> unit exec" where
  "exec_enter i =
     (let alloc = imm i 0 AND 0xFFFF;
          level = unat (imm i 1 AND 0x1F)
      in then_x (push_reg32 EBP)
         (bind_x (get_x (\<lambda>c. reg c ESP)) (\<lambda>frame.
          then_x (each_x (\<lambda>_. enter_level) [0..<level - 1])
           (then_x (if 0 < level then push32 frame else ret_x ())
             (put_x (\<lambda>c. set_reg ESP (reg c ESP - alloc) (set_reg EBP frame c)))))))"

section \<open>Arithmetic and logic\<close>

definition alu_result :: "mnemonic \<Rightarrow> u32 \<Rightarrow> u32 \<Rightarrow> nat \<Rightarrow> cpu \<Rightarrow> u32 \<times> cpu" where
  "alu_result m a b n c =
     (if m = ''Add'' then flags_add a b 0 n c
      else if m = ''Adc'' then flags_add a b (of_bool (cf c)) n c
      else if m = ''Sub'' \<or> m = ''Cmp'' then flags_sub a b 0 n c
      else if m = ''Sbb'' then flags_sub a b (of_bool (cf c)) n c
      else if m = ''And'' \<or> m = ''Test'' then flags_logic (a AND b) n c
      else if m = ''Or'' then flags_logic (a OR b) n c
      else flags_logic (a XOR b) n c)"

definition exec_alu :: "insn \<Rightarrow> unit exec" where
  "exec_alu i =
     (let n = op_size i 0 in
      bind_x (read_op i 0) (\<lambda>a.
      bind_x (read_op i 1) (\<lambda>b.
      bind_x (cpu_x (alu_result (i_mn i) a b n)) (\<lambda>res.
      if i_mn i \<notin> {''Cmp'', ''Test''} then write_op i 0 res else ret_x ()))))"

definition exec_incdec :: "insn \<Rightarrow> unit exec" where
  "exec_incdec i =
     (let n = op_size i 0 in
      bind_x (read_op i 0) (\<lambda>a.
      bind_x (get_x cf) (\<lambda>carry.
      bind_x (cpu_x (if i_mn i = ''Inc'' then flags_add a 1 0 n else flags_sub a 1 0 n)) (\<lambda>res.
      then_x (put_x (\<lambda>c. c\<lparr>cf := carry\<rparr>))
        (write_op i 0 res)))))"

definition exec_neg :: "insn \<Rightarrow> unit exec" where
  "exec_neg i =
     (let n = op_size i 0 in
      bind_x (read_op i 0) (\<lambda>a.
      bind_x (cpu_x (flags_sub 0 a 0 n)) (\<lambda>res.
      then_x (put_x (\<lambda>c. c\<lparr>cf := (a AND op_mask n \<noteq> 0)\<rparr>))
        (write_op i 0 res))))"

definition exec_not :: "insn \<Rightarrow> unit exec" where
  "exec_not i = bind_x (read_op i 0) (\<lambda>a. write_op i 0 (NOT a AND op_mask (op_size i 0)))"

section \<open>Multiplication and division\<close>

definition store_wide :: "u64 \<Rightarrow> nat \<Rightarrow> cpu \<Rightarrow> cpu" where
  "store_wide full n c =
     (if n = 1 then set_reg EAX ((reg c EAX AND 0xFFFF0000) OR (ucast full AND 0xFFFF)) c
      else if n = 2 then
        (let c = set_reg EAX ((reg c EAX AND 0xFFFF0000) OR (ucast full AND 0xFFFF)) c
         in set_reg EDX ((reg c EDX AND 0xFFFF0000) OR (ucast (drop_bit 16 full) AND 0xFFFF)) c)
      else set_reg EDX (ucast (drop_bit 32 full)) (set_reg EAX (ucast full) c))"

definition load_wide :: "nat \<Rightarrow> cpu \<Rightarrow> u64" where
  "load_wide n c =
     (if n = 1 then ucast (reg c EAX AND 0xFFFF)
      else if n = 2 then push_bit 16 (ucast (reg c EDX AND 0xFFFF)) OR ucast (reg c EAX AND 0xFFFF)
      else push_bit 32 (ucast (reg c EDX)) OR ucast (reg c EAX))"

text \<open>The code's \<^verbatim>\<open>i64\<close> result, as the integer it stands for.\<close>

definition load_wide_signed :: "nat \<Rightarrow> cpu \<Rightarrow> int" where
  "load_wide_signed n c =
     (if n = 1 then sint (ucast (reg c EAX AND 0xFFFF) :: u16)
      else if n = 2 then sint (push_bit 16 (reg c EDX AND 0xFFFF) OR (reg c EAX AND 0xFFFF))
      else sint (push_bit 32 (ucast (reg c EDX)) OR ucast (reg c EAX) :: u64))"

definition store_quot_rem :: "u32 \<Rightarrow> u32 \<Rightarrow> nat \<Rightarrow> cpu \<Rightarrow> cpu" where
  "store_quot_rem q r n c =
     (if n = 1 then
        set_reg EAX ((reg c EAX AND 0xFFFF0000) OR (q AND 0xFF) OR push_bit 8 (r AND 0xFF)) c
      else if n = 2 then
        (let c = set_reg EAX ((reg c EAX AND 0xFFFF0000) OR (q AND 0xFFFF)) c
         in set_reg EDX ((reg c EDX AND 0xFFFF0000) OR (r AND 0xFFFF)) c)
      else set_reg EDX r (set_reg EAX q c))"

definition set_cf_of :: "bool \<Rightarrow> cpu \<Rightarrow> cpu" where
  "set_cf_of b c = c\<lparr>cf := b, of_flag := b\<rparr>"

definition exec_mul :: "insn \<Rightarrow> unit exec" where
  "exec_mul i =
     (let n = op_size i 0 in
      bind_x (get_x (\<lambda>c. reg c EAX AND op_mask n)) (\<lambda>a.
      bind_x (read_op i 0) (\<lambda>b.
      (let full = ucast a * ucast (b AND op_mask n) :: u64 in
       then_x (put_x (store_wide full n))
         (then_x (check_x (n * 8 < 64))
           (put_x (set_cf_of (drop_bit (n * 8) full \<noteq> 0))))))))"

text \<open>
  Products of two sign-extended 32-bit values fit an \<^verbatim>\<open>i64\<close>, so \<^verbatim>\<open>wrapping_mul\<close> is the
  integer product; \<^verbatim>\<open>as u64\<close> and \<^verbatim>\<open>as u32\<close> are \<open>word_of_int\<close>.
\<close>

definition exec_imul1 :: "insn \<Rightarrow> unit exec" where
  "exec_imul1 i =
     (let n = op_size i 0 in
      bind_x (get_x (\<lambda>c. sint (sign_extend (reg c EAX) n))) (\<lambda>a.
      bind_x (read_op i 0) (\<lambda>b.
      (let full = a * sint (sign_extend b n);
           truncated = sint (sign_extend (word_of_int full) n)
       in then_x (put_x (store_wide (word_of_int full) n))
            (put_x (set_cf_of (full \<noteq> truncated)))))))"

definition exec_imul :: "insn \<Rightarrow> unit exec" where
  "exec_imul i =
     (if op_count i = 1 then exec_imul1 i
      else
        (let n = op_size i 0;
             (k1, n1, k2) = (if op_count i = 2 then (0, n, 1) else (1, op_size i 1, 2))
         in bind_x (read_op i k1) (\<lambda>a.
            bind_x (read_op i k2) (\<lambda>b.
            (let full = sint (sign_extend a n1) * sint (sign_extend b (op_size i k2));
                 res = word_of_int full AND op_mask n
             in then_x (put_x (set_cf_of (full \<noteq> sint (sign_extend res n))))
                (then_x (put_x (set_szp res n))
                  (write_op i 0 res)))))))"

definition exec_div :: "insn \<Rightarrow> unit exec" where
  "exec_div i =
     (let n = op_size i 0 in
      bind_x (read_op i 0) (\<lambda>v.
      (let d = v AND op_mask n in
       if d = 0 then stop_x DivideError
       else
         bind_x (get_x (load_wide n)) (\<lambda>num.
         (let q = num div ucast d in
          if ucast (op_mask n) < q then stop_x DivideError
          else put_x (store_quot_rem (ucast q) (ucast (num mod ucast d)) n))))))"

text \<open>
  \<^verbatim>\<open>checked_div\<close> on \<^verbatim>\<open>i64\<close> truncates towards zero and fails on the one quotient that does not
  fit; \<^verbatim>\<open>%\<close> has the sign of the dividend.
\<close>

definition quot :: "int \<Rightarrow> int \<Rightarrow> int" where
  "quot a b = sgn a * sgn b * (\<bar>a\<bar> div \<bar>b\<bar>)"

definition rem :: "int \<Rightarrow> int \<Rightarrow> int" where
  "rem a b = sgn a * (\<bar>a\<bar> mod \<bar>b\<bar>)"

definition checked_div_i64 :: "int \<Rightarrow> int \<Rightarrow> int option" where
  "checked_div_i64 a b = (if b = 0 \<or> a = - (2 ^ 63) \<and> b = - 1 then None else Some (quot a b))"

definition exec_idiv :: "insn \<Rightarrow> unit exec" where
  "exec_idiv i =
     (let n = op_size i 0 in
      bind_x (read_op i 0) (\<lambda>v.
      (let d = sint (sign_extend v n) in
       if d = 0 then stop_x DivideError
       else
         bind_x (get_x (load_wide_signed n)) (\<lambda>num.
         case checked_div_i64 num d of
           None \<Rightarrow> stop_x DivideError
         | Some q \<Rightarrow>
             then_x (check_x (0 < n \<and> n * 8 - 1 < 64))
               (let lim = 2 ^ (n * 8 - 1) in
                if lim \<le> q \<or> q < - lim then stop_x DivideError
                else put_x (store_quot_rem (word_of_int q AND op_mask n)
                              (word_of_int (rem num d) AND op_mask n) n))))))"

section \<open>Shifts and rotates\<close>

definition rcl_step :: "nat \<Rightarrow> u64 \<Rightarrow> u64" where
  "rcl_step bits acc =
     (push_bit 1 acc AND (push_bit (bits + 1) 1 - 1)) OR (drop_bit bits acc AND 1)"

definition rcr_step :: "nat \<Rightarrow> u64 \<Rightarrow> u64" where
  "rcr_step bits acc = drop_bit 1 acc OR push_bit bits (acc AND 1)"

definition set_of_if :: "bool \<Rightarrow> bool \<Rightarrow> cpu \<Rightarrow> cpu" where
  "set_of_if b v c = (if b then c\<lparr>of_flag := v\<rparr> else c)"

text \<open>
  The arithmetic of \<^verbatim>\<open>u32\<close> that the release profile checks: a subtraction that would go below
  zero, a remainder by zero and a shift of 32 or more are panics, here \<open>None\<close>.
\<close>

definition chk_sub :: "nat \<Rightarrow> nat \<Rightarrow> nat option" where
  "chk_sub a b = (if b \<le> a then Some (a - b) else None)"

definition chk_rem :: "nat \<Rightarrow> nat \<Rightarrow> nat option" where
  "chk_rem a b = (if b = 0 then None else Some (a mod b))"

definition chk_shl :: "u32 \<Rightarrow> nat \<Rightarrow> u32 option" where
  "chk_shl v k = (if k < 32 then Some (push_bit k v) else None)"

definition chk_shr :: "u32 \<Rightarrow> nat \<Rightarrow> u32 option" where
  "chk_shr v k = (if k < 32 then Some (drop_bit k v) else None)"

definition shl_result :: "u32 \<Rightarrow> nat \<Rightarrow> nat \<Rightarrow> cpu \<Rightarrow> (u32 \<times> cpu) option" where
  "shl_result v count n c =
     (let bits = n * 8;
          r = push_bit (min count 31) v AND op_mask n
      in do {
        carry \<leftarrow> (if count \<le> bits then
                    do { k \<leftarrow> chk_sub bits (min count bits); x \<leftarrow> chk_shr v k; Some (x AND 1 \<noteq> 0) }
                  else Some False);
        Some (r, set_of_if (count = 1) ((r XOR v) AND sign_bit n \<noteq> 0) (c\<lparr>cf := carry\<rparr>))
      })"

definition shr_result :: "u32 \<Rightarrow> nat \<Rightarrow> nat \<Rightarrow> cpu \<Rightarrow> (u32 \<times> cpu) option" where
  "shr_result v count n c =
     do {
       carry \<leftarrow> (if count \<le> n * 8 then
                   do { k \<leftarrow> chk_sub count 1; x \<leftarrow> chk_shr v k; Some (x AND 1 \<noteq> 0) }
                 else Some False);
       Some (drop_bit (min count 31) v, set_of_if (count = 1) (v AND sign_bit n \<noteq> 0) (c\<lparr>cf := carry\<rparr>))
     }"

definition sar_result :: "u32 \<Rightarrow> nat \<Rightarrow> nat \<Rightarrow> cpu \<Rightarrow> (u32 \<times> cpu) option" where
  "sar_result v count n c =
     (let sv = sign_extend v n in
      do {
        k \<leftarrow> chk_sub (min count 31) 1;
        Some (signed_drop_bit (min count 31) sv AND op_mask n,
          set_of_if (count = 1) False (c\<lparr>cf := (signed_drop_bit k sv AND 1 \<noteq> 0)\<rparr>))
      })"

definition rol_result :: "u32 \<Rightarrow> nat \<Rightarrow> nat \<Rightarrow> cpu \<Rightarrow> (u32 \<times> cpu) option" where
  "rol_result v count n c =
     (let bits = n * 8 in
      do {
        k \<leftarrow> chk_rem count bits;
        r \<leftarrow> (if k = 0 then Some v
              else do {
                up \<leftarrow> chk_shl v k;
                j \<leftarrow> chk_sub bits k;
                down \<leftarrow> chk_shr v j;
                Some ((up OR down) AND op_mask n)
              });
        let carry = (r AND 1 \<noteq> 0);
        Some (r, set_of_if (count = 1) ((r AND sign_bit n \<noteq> 0) \<noteq> carry) (c\<lparr>cf := carry\<rparr>))
      })"

definition ror_result :: "u32 \<Rightarrow> nat \<Rightarrow> nat \<Rightarrow> cpu \<Rightarrow> (u32 \<times> cpu) option" where
  "ror_result v count n c =
     (let bits = n * 8 in
      do {
        k \<leftarrow> chk_rem count bits;
        r \<leftarrow> (if k = 0 then Some v
              else do {
                down \<leftarrow> chk_shr v k;
                j \<leftarrow> chk_sub bits k;
                up \<leftarrow> chk_shl v j;
                Some ((down OR up) AND op_mask n)
              });
        let c = c\<lparr>cf := (r AND sign_bit n \<noteq> 0)\<rparr>;
        if count = 1 then do {
          j \<leftarrow> chk_sub bits 2;
          top_two \<leftarrow> chk_shr r j;
          Some (r, c\<lparr>of_flag := (top_two AND 1 \<noteq> drop_bit 1 top_two AND 1)\<rparr>)
        } else Some (r, c)
      })"

text \<open>Through the carry, in a \<^verbatim>\<open>u64\<close>: its shifts are by the width of the operand and by one more.\<close>

definition rc_result :: "bool \<Rightarrow> u32 \<Rightarrow> nat \<Rightarrow> nat \<Rightarrow> cpu \<Rightarrow> (u32 \<times> cpu) option" where
  "rc_result left v count n c =
     (let bits = n * 8;
          k = count mod (bits + 1);
          acc = push_bit bits (of_bool (cf c)) OR ucast v;
          acc = ((if left then rcl_step bits else rcr_step bits) ^^ k) acc;
          carry = (drop_bit bits acc AND 1 \<noteq> 0);
          r = ucast acc AND op_mask n;
          msb = (r AND sign_bit n \<noteq> 0)
      in if bits < 64 \<and> (left \<and> 0 < k \<longrightarrow> bits + 1 < 64) then
           Some (r, set_of_if (count = 1)
                      (if left then msb \<noteq> carry else msb \<noteq> (r AND drop_bit 1 (sign_bit n) \<noteq> 0))
                   (c\<lparr>cf := carry\<rparr>))
         else None)"

definition shift_result :: "mnemonic \<Rightarrow> u32 \<Rightarrow> nat \<Rightarrow> nat \<Rightarrow> cpu \<Rightarrow> (u32 \<times> cpu) option" where
  "shift_result m v count n c =
     (if m = ''Shl'' \<or> m = ''Sal'' then shl_result v count n c
      else if m = ''Shr'' then shr_result v count n c
      else if m = ''Sar'' then sar_result v count n c
      else if m = ''Rol'' then rol_result v count n c
      else if m = ''Ror'' then ror_result v count n c
      else rc_result (m = ''Rcl'') v count n c)"

definition exec_shift :: "insn \<Rightarrow> unit exec" where
  "exec_shift i =
     (let m = i_mn i; n = op_size i 0 in
      bind_x (if 2 \<le> op_count i then read_op i 1 else ret_x 1) (\<lambda>raw.
      (let count = unat (raw AND 0x1F) in
       if count = 0 then ret_x ()
       else
         bind_x (read_op i 0) (\<lambda>v.
         bind_x (try_x (shift_result m (v AND op_mask n) count n)) (\<lambda>res.
          then_x (if m \<notin> {''Rol'', ''Ror'', ''Rcl'', ''Rcr''} then put_x (set_szp res n) else ret_x ())
            (write_op i 0 res))))))"

definition shd_result :: "bool \<Rightarrow> u32 \<Rightarrow> u32 \<Rightarrow> nat \<Rightarrow> nat \<Rightarrow> (u32 \<times> bool) option" where
  "shd_result left dst src count n =
     (let bits = n * 8 in
      if left then do {
        up \<leftarrow> chk_shl dst count;
        k \<leftarrow> chk_sub bits count;
        down \<leftarrow> chk_shr src k;
        out \<leftarrow> chk_shr dst k;
        Some ((up OR down) AND op_mask n, out AND 1 \<noteq> 0)
      } else do {
        down \<leftarrow> chk_shr dst count;
        k \<leftarrow> chk_sub bits count;
        up \<leftarrow> chk_shl src k;
        j \<leftarrow> chk_sub count 1;
        out \<leftarrow> chk_shr dst j;
        Some ((down OR up) AND op_mask n, out AND 1 \<noteq> 0)
      })"

definition exec_shd :: "insn \<Rightarrow> unit exec" where
  "exec_shd i =
     (let n = op_size i 0 in
      bind_x (read_op i 0) (\<lambda>dst.
      bind_x (read_op i 1) (\<lambda>src.
      bind_x (read_op i 2) (\<lambda>raw.
      (let count = unat (raw AND 0x1F) mod max (n * 8) 1 in
       if count \<noteq> 0 then
         bind_x (try_x (\<lambda>c. map_option (\<lambda>(res, last_out). (res, set_szp res n (c\<lparr>cf := last_out\<rparr>)))
                   (shd_result (i_mn i = ''Shld'') dst src count n)))
           (write_op i 0)
       else ret_x ())))))"

section \<open>Bits\<close>

definition bit_update :: "mnemonic \<Rightarrow> u32 \<Rightarrow> nat \<Rightarrow> u32" where
  "bit_update m v k =
     (if m = ''Bts'' then v OR push_bit k 1
      else if m = ''Btr'' then v AND NOT (push_bit k 1)
      else if m = ''Btc'' then v XOR push_bit k 1
      else v)"

definition exec_bt :: "insn \<Rightarrow> unit exec" where
  "exec_bt i =
     (let m = i_mn i; n = op_size i 0; bits = n * 8 in
      bind_x (read_op i 1) (\<lambda>offset.
      then_x (check_x (bits \<noteq> 0))
      (if is_mem i 0 then
         (let wrd = sint offset div int bits;
              k = nat (sint offset mod int bits)
          in bind_x (get_x (\<lambda>c. ea i c + word_of_int wrd * of_nat n)) (\<lambda>addr.
             bind_x (read_mem addr n) (\<lambda>v.
             then_x (check_x (k < 32))
             (then_x (put_x (\<lambda>c. c\<lparr>cf := (drop_bit k v AND 1 \<noteq> 0)\<rparr>))
               (if m \<noteq> ''Bt'' then write_mem addr n (bit_update m v k) else ret_x ())))))
       else
         (let k = unat offset mod bits
          in bind_x (read_op i 0) (\<lambda>v.
             then_x (check_x (k < 32))
             (then_x (put_x (\<lambda>c. c\<lparr>cf := (drop_bit k v AND 1 \<noteq> 0)\<rparr>))
               (if m \<noteq> ''Bt'' then write_op i 0 (bit_update m v k) else ret_x ())))))))"

definition trailing_zeros :: "u32 \<Rightarrow> nat" where
  "trailing_zeros v = length (takeWhile (\<lambda>k. \<not> bit v k) [0..<32])"

definition leading_zeros :: "u32 \<Rightarrow> nat" where
  "leading_zeros v = length (takeWhile (\<lambda>k. \<not> bit v k) (rev [0..<32]))"

definition exec_bs :: "insn \<Rightarrow> unit exec" where
  "exec_bs i =
     (let n = op_size i 0 in
      bind_x (read_op i 1) (\<lambda>w.
      (let v = w AND op_mask n in
       then_x (put_x (\<lambda>c. c\<lparr>zf := (v = 0)\<rparr>))
         (if v \<noteq> 0 then
            if i_mn i = ''Bsf'' then write_op i 0 (of_nat (trailing_zeros v))
            else bind_x (try_x (\<lambda>c. map_option (\<lambda>k. (k, c)) (chk_sub 31 (leading_zeros v))))
                   (\<lambda>k. write_op i 0 (of_nat k))
          else ret_x ()))))"

section \<open>Conversions and flag instructions\<close>

definition exec_cbw :: "cpu \<Rightarrow> cpu" where
  "exec_cbw c =
     set_reg EAX ((reg c EAX AND 0xFFFF0000) OR (sign_extend (reg c EAX AND 0xFF) 1 AND 0xFFFF)) c"

definition exec_cwde :: "cpu \<Rightarrow> cpu" where
  "exec_cwde c = set_reg EAX (sign_extend (reg c EAX AND 0xFFFF) 2) c"

definition exec_cwd :: "cpu \<Rightarrow> cpu" where
  "exec_cwd c =
     set_reg EDX ((reg c EDX AND 0xFFFF0000) OR (if reg c EAX AND 0x8000 \<noteq> 0 then 0xFFFF else 0)) c"

definition exec_cdq :: "cpu \<Rightarrow> cpu" where
  "exec_cdq c = set_reg EDX (if reg c EAX AND 0x80000000 \<noteq> 0 then 0xFFFFFFFF else 0) c"

definition exec_xlatb :: "unit exec" where
  "exec_xlatb =
     bind_x (get_x (\<lambda>c. reg c EBX + (reg c EAX AND 0xFF))) (\<lambda>addr.
     bind_x (mem_x (\<lambda>m. read_u8 m addr)) (\<lambda>v.
     put_x (\<lambda>c. set_reg EAX ((reg c EAX AND 0xFFFFFF00) OR ucast v) c)))"

definition exec_flag :: "mnemonic \<Rightarrow> cpu \<Rightarrow> cpu" where
  "exec_flag m c =
     (if m = ''Clc'' then c\<lparr>cf := False\<rparr>
      else if m = ''Stc'' then c\<lparr>cf := True\<rparr>
      else if m = ''Cmc'' then c\<lparr>cf := \<not> cf c\<rparr>
      else if m = ''Cld'' then c\<lparr>df := False\<rparr>
      else if m = ''Std'' then c\<lparr>df := True\<rparr>
      else c)"

definition exec_sahf :: "cpu \<Rightarrow> cpu" where
  "exec_sahf c =
     (let ah = drop_bit 8 (reg c EAX) AND 0xFF
      in c\<lparr>cf := (ah AND 0x01 \<noteq> 0), pf := (ah AND 0x04 \<noteq> 0), af := (ah AND 0x10 \<noteq> 0),
           zf := (ah AND 0x40 \<noteq> 0), sf := (ah AND 0x80 \<noteq> 0)\<rparr>)"

definition exec_lahf :: "cpu \<Rightarrow> cpu" where
  "exec_lahf c =
     (let ah = 0x02 OR (if cf c then 0x01 else 0) OR (if pf c then 0x04 else 0)
               OR (if af c then 0x10 else 0) OR (if zf c then 0x40 else 0) OR (if sf c then 0x80 else 0)
      in set_reg EAX ((reg c EAX AND 0xFFFF00FF) OR push_bit 8 ah) c)"

section \<open>Control flow\<close>

definition exec_jmp :: "u32 \<Rightarrow> insn \<Rightarrow> unit exec" where
  "exec_jmp ip i =
     (case i_ops i ! 0 of
        Rel t \<Rightarrow> put_x (\<lambda>c. c\<lparr>eip := ucast t\<rparr>)
      | FarPtr _ _ \<Rightarrow> stop_x (Unsupported ip (i_mn i))
      | _ \<Rightarrow> bind_x (read_op i 0) (\<lambda>v. put_x (\<lambda>c. c\<lparr>eip := v\<rparr>)))"

definition exec_call :: "u32 \<Rightarrow> insn \<Rightarrow> unit exec" where
  "exec_call ip i =
     (case i_ops i ! 0 of
        Rel t \<Rightarrow>
          bind_x (get_x eip) (\<lambda>ra.
          then_x (push32 ra)
            (put_x (\<lambda>c. c\<lparr>eip := ucast t\<rparr>)))
      | FarPtr _ _ \<Rightarrow> stop_x (Unsupported ip (i_mn i))
      | _ \<Rightarrow>
          bind_x (read_op i 0) (\<lambda>target.
          bind_x (get_x eip) (\<lambda>ra.
          then_x (push32 ra)
            (put_x (\<lambda>c. c\<lparr>eip := target\<rparr>)))))"

definition exec_ret :: "insn \<Rightarrow> unit exec" where
  "exec_ret i =
     bind_x pop32 (\<lambda>ra.
     then_x (if op_count i = 1 then put_x (\<lambda>c. set_reg ESP (reg c ESP + (imm i 0 AND 0xFFFF)) c)
             else ret_x ())
       (put_x (\<lambda>c. c\<lparr>eip := ra\<rparr>)))"

definition take_branch :: "insn \<Rightarrow> cpu \<Rightarrow> cpu" where
  "take_branch i c = c\<lparr>eip := (case branch_target i of Some t \<Rightarrow> t | None \<Rightarrow> eip c)\<rparr>"

definition exec_loop :: "insn \<Rightarrow> cpu \<Rightarrow> cpu" where
  "exec_loop i c =
     (let n = reg c ECX - 1;
          c = set_reg ECX n c;
          taken = (n \<noteq> 0 \<and> (if i_mn i = ''Loope'' then zf c
                            else if i_mn i = ''Loopne'' then \<not> zf c else True))
      in if taken then take_branch i c else c)"

definition exec_jecxz :: "insn \<Rightarrow> cpu \<Rightarrow> cpu" where
  "exec_jecxz i c = (if reg c ECX = 0 then take_branch i c else c)"

definition exec_jcxz :: "insn \<Rightarrow> cpu \<Rightarrow> cpu" where
  "exec_jcxz i c = (if reg c ECX AND 0xFFFF = 0 then take_branch i c else c)"

definition starts_with :: "string \<Rightarrow> string \<Rightarrow> bool" where
  "starts_with p s \<longleftrightarrow> take (length p) s = p"

definition conditional :: "insn \<Rightarrow> bool \<Rightarrow> unit exec" where
  "conditional i taken =
     (if starts_with ''J'' (i_mn i) then (if taken then put_x (take_branch i) else ret_x ())
      else if starts_with ''Set'' (i_mn i) then write_op i 0 (of_bool taken)
      else
        bind_x (read_op i 1) (\<lambda>v.
        if taken then write_op i 0 v else ret_x ()))"

section \<open>Checksums, identification and decimal adjustment\<close>

definition crc_bit :: "u32 \<Rightarrow> u32" where
  "crc_bit crc = (if crc AND 1 \<noteq> 0 then drop_bit 1 crc XOR 0x82F63B78 else drop_bit 1 crc)"

definition crc_byte :: "u32 \<Rightarrow> nat \<Rightarrow> u32 \<Rightarrow> u32" where
  "crc_byte src k crc = (crc_bit ^^ 8) (crc XOR (drop_bit (k * 8) src AND 0xFF))"

definition exec_crc32 :: "insn \<Rightarrow> unit exec" where
  "exec_crc32 i =
     (let n = op_size i 1 in
      bind_x (read_op i 1) (\<lambda>src.
      bind_x (read_op i 0) (\<lambda>crc.
      write_op i 0 (fold (crc_byte (src AND op_mask n)) [0..<n] crc))))"

definition exec_cpuid :: "cpu \<Rightarrow> cpu" where
  "exec_cpuid c =
     (let leaf = reg c EAX;
          (a, b, cc, d) =
            (if leaf = 0 then (1, 0x756E6547, 0x6C65746E, 0x49656E69)
             else if leaf = 1 then (0x0F43, 0x0800, 0, 0x0783FBFF)
             else (0, 0, 0, 0))
      in set_reg EDX d (set_reg ECX cc (set_reg EBX b (set_reg EAX a c))))"

definition exec_rdtsc :: "cpu \<Rightarrow> cpu" where
  "exec_rdtsc c =
     (let c = c\<lparr>tsc := tsc c + 0x1000\<rparr>
      in set_reg EDX (ucast (drop_bit 32 (tsc c))) (set_reg EAX (ucast (tsc c)) c))"

definition exec_bcd :: "mnemonic \<Rightarrow> cpu \<Rightarrow> cpu" where
  "exec_bcd m c =
     (let al = reg c EAX AND 0xFF;
          adj = (af c \<or> 9 < al AND 0x0F);
          up = (m = ''Daa'' \<or> m = ''Aaa'');
          ascii = (m = ''Aaa'' \<or> m = ''Aas'');
          res = (if adj then if up then al + 6 else al - 6 else al);
          res = (if adj \<and> ascii then res AND 0x0F else res);
          ah = (drop_bit 8 (reg c EAX) + (if up then 1 else - 1)) AND 0xFF;
          c = (if adj \<and> ascii then set_reg EAX ((reg c EAX AND 0xFFFF0000) OR push_bit 8 ah) c else c);
          high = (\<not> ascii \<and> (0x99 < al \<or> cf c));
          res = (if high then if up then res + 0x60 else res - 0x60 else res);
          carry = (high \<or> cf c);
          c = set_reg EAX ((reg c EAX AND 0xFFFFFF00) OR (res AND 0xFF)) c
      in set_szp (res AND 0xFF) 1 (c\<lparr>cf := carry, af := adj\<rparr>))"

definition exec_aam_aad :: "insn \<Rightarrow> unit exec" where
  "exec_aam_aad i =
     (let base = (if 0 < op_count i then imm i 0 AND 0xFF else 10) in
      bind_x (get_x (\<lambda>c. reg c EAX)) (\<lambda>eax.
      (let al = eax AND 0xFF; ah = drop_bit 8 eax AND 0xFF in
       if i_mn i = ''Aam'' \<and> base = 0 then stop_x DivideError
       else
         (let (new_ah, new_al) =
                (if i_mn i = ''Aam'' then (al div base, al mod base)
                 else (0, (al + ah * base) AND 0xFF))
          in put_x (\<lambda>c. set_szp new_al 1
               (set_reg EAX ((reg c EAX AND 0xFFFF0000) OR push_bit 8 new_ah OR new_al) c))))))"

end
