(* ===== verification/Emu_String.thy ===== *)
theory Emu_String
  imports Emu_Exec
begin

text \<open>
  The string primitives with their \<^verbatim>\<open>rep\<close> loop, and the vector instructions used as block
  moves (\<^verbatim>\<open>Cpu::string_op\<close>, \<^verbatim>\<open>Cpu::simd\<close>, \<^verbatim>\<open>read_simd\<close>, \<^verbatim>\<open>write_simd\<close> and the lane
  functions of \<^verbatim>\<open>crates/exav-pe-emu/src/cpu.rs\<close>). The loop ends because every iteration leaves
  ECX alone and the loop then counts it down.
\<close>

section \<open>One iteration\<close>

datatype str_op = Movs | Stos | Lods | Scas | Cmps

definition string_kind :: "mnemonic \<Rightarrow> (str_op \<times> nat) option" where
  "string_kind m =
     (if m = ''Movsb'' then Some (Movs, 1)
      else if m = ''Movsw'' then Some (Movs, 2)
      else if m = ''Movsd'' then Some (Movs, 4)
      else if m = ''Stosb'' then Some (Stos, 1)
      else if m = ''Stosw'' then Some (Stos, 2)
      else if m = ''Stosd'' then Some (Stos, 4)
      else if m = ''Lodsb'' then Some (Lods, 1)
      else if m = ''Lodsw'' then Some (Lods, 2)
      else if m = ''Lodsd'' then Some (Lods, 4)
      else if m = ''Scasb'' then Some (Scas, 1)
      else if m = ''Scasw'' then Some (Scas, 2)
      else if m = ''Scasd'' then Some (Scas, 4)
      else if m = ''Cmpsb'' then Some (Cmps, 1)
      else if m = ''Cmpsw'' then Some (Cmps, 2)
      else if m = ''Cmpsd'' then Some (Cmps, 4)
      else None)"

definition bump :: "nat \<Rightarrow> u32 \<Rightarrow> cpu \<Rightarrow> cpu" where
  "bump r delta c = set_reg r (reg c r + delta) c"

definition string_one :: "str_op \<Rightarrow> nat \<Rightarrow> u32 \<Rightarrow> unit exec" where
  "string_one kind n delta =
     (case kind of
        Movs \<Rightarrow>
          bind_x (get_x (\<lambda>c. reg c ESI)) (\<lambda>si.
          bind_x (read_mem si n) (\<lambda>v.
          bind_x (get_x (\<lambda>c. reg c EDI)) (\<lambda>di.
          then_x (write_mem di n v)
            (put_x (\<lambda>c. bump EDI delta (bump ESI delta c))))))
      | Stos \<Rightarrow>
          bind_x (get_x (\<lambda>c. (reg c EAX, reg c EDI))) (\<lambda>(eax, di).
          then_x (write_mem di n (eax AND op_mask n))
            (put_x (bump EDI delta)))
      | Lods \<Rightarrow>
          bind_x (get_x (\<lambda>c. reg c ESI)) (\<lambda>si.
          bind_x (read_mem si n) (\<lambda>v.
          put_x (\<lambda>c. bump ESI delta (set_reg EAX ((reg c EAX AND NOT (op_mask n)) OR v) c))))
      | Scas \<Rightarrow>
          bind_x (get_x (\<lambda>c. (reg c EAX AND op_mask n, reg c EDI))) (\<lambda>(a, di).
          bind_x (read_mem di n) (\<lambda>b.
          then_x (cpu_x (flags_sub a b 0 n))
            (put_x (bump EDI delta))))
      | Cmps \<Rightarrow>
          bind_x (get_x (\<lambda>c. reg c ESI)) (\<lambda>si.
          bind_x (read_mem si n) (\<lambda>a.
          bind_x (get_x (\<lambda>c. reg c EDI)) (\<lambda>di.
          bind_x (read_mem di n) (\<lambda>b.
          then_x (cpu_x (flags_sub a b 0 n))
            (put_x (\<lambda>c. bump EDI delta (bump ESI delta c))))))))"

text \<open>No iteration touches ECX.\<close>

definition same_ecx :: "machine \<Rightarrow> machine \<Rightarrow> bool" where
  "same_ecx s t \<longleftrightarrow> reg (fst t) ECX = reg (fst s) ECX"

interpretation ecx: exec_frame same_ecx
  by unfold_locales (simp_all add: same_ecx_def)

lemma ecx_mem_x: "exec_rel same_ecx (mem_x g)"
  by (rule ecx.frame_mem) (simp add: same_ecx_def)

lemma ecx_mem: "exec_rel same_ecx (read_mem a n)" "exec_rel same_ecx (write_mem a n v)"
  by (simp_all add: read_mem_def write_mem_def ecx_mem_x ecx.frame_rules)

lemma reg_set_reg [simp]: "reg (set_reg r v c) q = (if q = r then v else reg c q)"
  by (simp add: reg_def set_reg_def)

lemma reg_flags_sub [simp]: "reg (snd (flags_sub a b d n c)) q = reg c q"
  by (simp add: flags_sub_def set_szp_def Let_def reg_def)

lemma string_one_ecx: "exec_rel same_ecx (string_one kind n delta)"
proof -
  have "exec_rel same_ecx (put_x (\<lambda>c. bump EDI delta (bump ESI delta c)))"
    "exec_rel same_ecx (put_x (bump EDI delta))"
    "exec_rel same_ecx (put_x (\<lambda>c. bump ESI delta (set_reg EAX ((reg c EAX AND NOT (op_mask n)) OR v) c)))" for v
    by (rule ecx.frame_put; simp add: same_ecx_def bump_def)+
  moreover have "exec_rel same_ecx (cpu_x (flags_sub a b 0 n))" for a b
    by (rule ecx.frame_cpu) (simp add: same_ecx_def)
  ultimately show ?thesis
    by (cases kind) (auto simp: string_one_def split_beta intro!: ecx.frame_rules ecx_mem)
qed

section \<open>The repeat loop\<close>

text \<open>
  \<open>ticks\<close> counts the iterations; at most 2^32 of them, so the code's checked increment does not
  overflow.
\<close>

function string_loop :: "str_op \<Rightarrow> nat \<Rightarrow> u32 \<Rightarrow> bool \<Rightarrow> bool \<Rightarrow> u64 \<Rightarrow> u64 exec" where
  "string_loop kind n delta repeat repne ticks s =
     (if repeat \<and> reg (fst s) ECX = 0 then (Done ticks, s)
      else case string_one kind n delta s of
        (Stopped e, (c, m)) \<Rightarrow>
          (Stopped e, c\<lparr>partial_ticks := saturating_add (partial_ticks c) ticks\<rparr>, m)
      | (Panicked, s') \<Rightarrow> (Panicked, s')
      | (Done _, (c, m)) \<Rightarrow>
          if \<not> repeat then (Done (ticks + 1), c, m)
          else
            (let c = set_reg ECX (reg c ECX - 1) c in
             if kind \<in> {Scas, Cmps} \<and> (if repne then zf c else \<not> zf c) then (Done (ticks + 1), c, m)
             else string_loop kind n delta repeat repne (ticks + 1) (c, m)))"
  by pat_completeness auto
termination
proof (relation "measure (\<lambda>(kind, n, delta, repeat, repne, ticks, s). unat (reg (fst s) ECX))")
  fix kind n delta repeat repne and ticks :: u64 and s :: machine and p q u y c m z
  assume *: "\<not> (repeat \<and> reg (fst s) ECX = 0)" "(p, q) = string_one kind n delta s" "p = Done u" "(y, m) = q"
    "\<not> \<not> repeat" "c = set_reg ECX (reg y ECX - 1) y"
  then have eq: "reg y ECX = reg (fst s) ECX"
    using exec_relD [OF string_one_ecx, of kind n delta s] unfolding same_ecx_def by (metis fst_conv)
  have "reg (fst s) ECX \<noteq> 0" using * by simp
  then have "unat (reg (fst s) ECX - 1) < unat (reg (fst s) ECX)"
    by (simp add: unat_minus_one unat_gt_0)
  then show "((kind, n, delta, repeat, repne, ticks + 1, c, m), kind, n, delta, repeat, repne, ticks, s)
      \<in> measure (\<lambda>(kind, n, delta, repeat, repne, ticks, s). unat (reg (fst s) ECX))"
    using * eq by simp
qed simp

declare string_loop.simps [simp del]

definition string_op :: "insn \<Rightarrow> u64 option exec" where
  "string_op i =
     (if op_count i \<noteq> 0 then ret_x None
      else case string_kind (i_mn i) of
        None \<Rightarrow> ret_x None
      | Some (kind, n) \<Rightarrow>
          bind_x (get_x (\<lambda>c. if df c then - of_nat n else of_nat n)) (\<lambda>delta.
          bind_x (string_loop kind n delta (i_rep i \<or> i_repne i) (i_repne i) 0) (\<lambda>ticks.
          ret_x (Some (max ticks 1)))))"

end
