(* ===== verification/Emu_Simd.thy ===== *)
theory Emu_Simd
  imports Emu_String
begin

text \<open>
  The vector instructions packers use as block moves: \<^verbatim>\<open>Cpu::simd\<close>, \<^verbatim>\<open>read_simd\<close>,
  \<^verbatim>\<open>write_simd\<close> and the lane functions of \<^verbatim>\<open>crates/exav-pe-emu/src/cpu.rs\<close>. A slice that would
  be out of range is a panic, written as a check.
\<close>

section \<open>Vector operands\<close>

text \<open>The first bytes of \<open>bs\<close>, zero-filled to \<open>n\<close>.\<close>

definition fit :: "nat \<Rightarrow> bytes \<Rightarrow> bytes" where
  "fit n bs = take n bs @ replicate (n - length bs) 0"

definition slice :: "nat \<Rightarrow> nat \<Rightarrow> 'a list \<Rightarrow> 'a list" where
  "slice from n xs = take n (drop from xs)"

definition set_xmm :: "nat \<Rightarrow> bytes \<Rightarrow> cpu \<Rightarrow> cpu" where
  "set_xmm r v c = c\<lparr>xmm := (xmm c)(r := v)\<rparr>"

definition set_mmx :: "nat \<Rightarrow> u64 \<Rightarrow> cpu \<Rightarrow> cpu" where
  "set_mmx r v c = c\<lparr>mmx := (mmx c)(r := v)\<rparr>"

definition read_simd :: "insn \<Rightarrow> nat \<Rightarrow> nat \<Rightarrow> bytes exec" where
  "read_simd i k n =
     (case i_ops i ! k of
        Xmm r \<Rightarrow> then_x (check_x (n \<le> 16)) (get_x (\<lambda>c. take n (xmm c (reg_num r))))
      | Mmx r \<Rightarrow> get_x (\<lambda>c. fit n (to_le 8 (mmx c (reg_num r))))
      | Reg r s \<Rightarrow> get_x (\<lambda>c. fit n (to_le 4 (reg_read r s c)))
      | Mem _ _ _ _ _ _ _ \<Rightarrow> bind_x (get_x (ea i)) (\<lambda>a. mem_x (\<lambda>m. read_into m a (replicate n 0)))
      | MemWide _ _ _ _ _ _ _ \<Rightarrow> bind_x (get_x (ea i)) (\<lambda>a. mem_x (\<lambda>m. read_into m a (replicate n 0)))
      | Imm v \<Rightarrow> ret_x (fit n (to_le 8 v))
      | _ \<Rightarrow> unsupported i)"

definition write_simd :: "insn \<Rightarrow> nat \<Rightarrow> bytes \<Rightarrow> unit exec" where
  "write_simd i k v =
     (case i_ops i ! k of
        Xmm r \<Rightarrow> put_x (set_xmm (reg_num r) (fit 16 v))
      | Mmx r \<Rightarrow> put_x (set_mmx (reg_num r) (from_le (fit 8 v)))
      | Reg r s \<Rightarrow> put_x (reg_write r s (from_le (fit 4 v)))
      | Mem _ _ _ _ _ _ _ \<Rightarrow> bind_x (get_x (ea i)) (\<lambda>a. mem_x (\<lambda>m. write_bytes m a v))
      | MemWide _ _ _ _ _ _ _ \<Rightarrow> bind_x (get_x (ea i)) (\<lambda>a. mem_x (\<lambda>m. write_bytes m a v))
      | _ \<Rightarrow> unsupported i)"

section \<open>Lanes\<close>

definition lanes8 :: "bytes \<Rightarrow> bytes \<Rightarrow> nat \<Rightarrow> (u8 \<Rightarrow> u8 \<Rightarrow> u8) \<Rightarrow> bytes" where
  "lanes8 a b n f = fit 16 (map (\<lambda>k. f (a ! k) (b ! k)) [0..<n])"

definition lanes16 :: "bytes \<Rightarrow> bytes \<Rightarrow> nat \<Rightarrow> (u16 \<Rightarrow> u16 \<Rightarrow> u16) \<Rightarrow> bytes" where
  "lanes16 a b n f =
     fit 16 (concat (map (\<lambda>k. to_le 2 (f (from_le (slice (2 * k) 2 a)) (from_le (slice (2 * k) 2 b))))
                      [0..<n div 2]))"

definition lanes32 :: "bytes \<Rightarrow> bytes \<Rightarrow> nat \<Rightarrow> (u32 \<Rightarrow> u32 \<Rightarrow> u32) \<Rightarrow> bytes" where
  "lanes32 a b n f =
     fit 16 (concat (map (\<lambda>k. to_le 4 (f (from_le (slice (4 * k) 4 a)) (from_le (slice (4 * k) 4 b))))
                      [0..<n div 4]))"

definition lanes64 :: "bytes \<Rightarrow> bytes \<Rightarrow> nat \<Rightarrow> (u64 \<Rightarrow> u64 \<Rightarrow> u64) \<Rightarrow> bytes" where
  "lanes64 a b n f =
     fit 16 (concat (map (\<lambda>k. to_le 8 (f (from_le (slice (8 * k) 8 a)) (from_le (slice (8 * k) 8 b))))
                      [0..<n div 8]))"

section \<open>Instructions\<close>

definition simd_width :: "opnd \<Rightarrow> nat" where
  "simd_width p = (case p of Xmm _ \<Rightarrow> 16 | Mmx _ \<Rightarrow> 8 | _ \<Rightarrow> 4)"

definition is_xmm :: "insn \<Rightarrow> nat \<Rightarrow> bool" where
  "is_xmm i k = (case i_ops i ! k of Xmm _ \<Rightarrow> True | _ \<Rightarrow> False)"

definition vector_bytes :: "insn \<Rightarrow> nat" where
  "vector_bytes i = (if is_xmm i 0 then 16 else 8)"

definition move_width :: "insn \<Rightarrow> nat" where
  "move_width i =
     (if i_mn i \<in> {''Movd'', ''Movss''} then 4
      else if i_mn i \<in> {''Movq'', ''Movsd''} then 8
      else if \<not> is_mem i 0 \<and> \<not> is_mem i 1 then min (simd_width (i_ops i ! 0)) (simd_width (i_ops i ! 1))
      else mem_width i)"

definition simd_move :: "insn \<Rightarrow> unit exec" where
  "simd_move i =
     (let n = move_width i in
      bind_x (read_simd i 1 n) (\<lambda>v.
      case (i_ops i ! 0, is_xmm i 1 \<and> i_mn i \<in> {''Movss'', ''Movsd''}) of
        (Xmm r, True) \<Rightarrow> put_x (\<lambda>c. set_xmm (reg_num r) (take n v @ drop n (xmm c (reg_num r))) c)
      | _ \<Rightarrow> write_simd i 0 v))"

definition shuffle_pick :: "u8 \<Rightarrow> nat \<Rightarrow> nat" where
  "shuffle_pick order lane = unat (drop_bit (lane * 2) order AND 3)"

definition shuffle_lanes :: "u8 \<Rightarrow> nat \<Rightarrow> nat \<Rightarrow> bytes \<Rightarrow> bytes \<Rightarrow> bytes" where
  "shuffle_lanes order base unit src out =
     fold (\<lambda>lane out. copy_slice out (base + lane * unit)
             (slice (base + shuffle_pick order lane * unit) unit src)) [0..<4] out"

definition simd_shuffle :: "insn \<Rightarrow> unit exec" where
  "simd_shuffle i =
     (let n = vector_bytes i;
          order = ucast (imm i 2);
          unit = (if i_mn i = ''Pshufd'' then 4 else 2);
          base = (if i_mn i = ''Pshufhw'' then 8 else 0)
      in bind_x (read_simd i 1 n) (\<lambda>src.
         then_x (check_x (list_all (\<lambda>lane. base + shuffle_pick order lane * unit + unit \<le> n) [0..<4]))
           (write_simd i 0 (take n (shuffle_lanes order base unit src (fit 16 src))))))"

definition simd_byte_shift :: "insn \<Rightarrow> unit exec" where
  "simd_byte_shift i =
     bind_x (read_simd i 0 16) (\<lambda>src.
     (let k = min (unat (imm i 1)) 16 in
      write_simd i 0
        (if i_mn i = ''Pslldq'' then replicate k 0 @ take (16 - k) src
         else drop k src @ replicate k 0)))"

text \<open>The interleaving loop; \<open>unit\<close> is 1, 2, 4 or 8.\<close>

function unpack_loop :: "nat \<Rightarrow> nat \<Rightarrow> bytes \<Rightarrow> bytes \<Rightarrow> nat \<Rightarrow> nat \<Rightarrow> bytes \<Rightarrow> bytes" where
  "unpack_loop unit n a b w r out =
     (if 0 < unit \<and> w + 2 * unit \<le> n then
        unpack_loop unit n a b (w + 2 * unit) (r + unit)
          (copy_slice (copy_slice out w (slice r unit a)) (w + unit) (slice r unit b))
      else out)"
  by pat_completeness auto
termination
  by (relation "measure (\<lambda>(unit, n, a, b, w, r, out). n - w)") auto

declare unpack_loop.simps [simp del]

definition simd_unpack :: "insn \<Rightarrow> unit exec" where
  "simd_unpack i =
     (let n = vector_bytes i;
          unit = (if i_mn i = ''Punpcklbw'' then 1 else if i_mn i = ''Punpcklwd'' then 2
                  else if i_mn i = ''Punpckldq'' then 4 else 8)
      in bind_x (read_simd i 0 n) (\<lambda>a.
         bind_x (read_simd i 1 n) (\<lambda>b.
         write_simd i 0 (take n (unpack_loop unit n a b 0 0 (replicate 16 0))))))"

definition lane_result :: "mnemonic \<Rightarrow> bytes \<Rightarrow> bytes \<Rightarrow> nat \<Rightarrow> bytes" where
  "lane_result m a b n =
     (if m = ''Pxor'' then lanes8 a b n (XOR)
      else if m = ''Por'' then lanes8 a b n (OR)
      else if m = ''Pand'' then lanes8 a b n (AND)
      else if m = ''Pandn'' then lanes8 a b n (\<lambda>x y. NOT x AND y)
      else if m = ''Paddb'' then lanes8 a b n (+)
      else if m = ''Psubb'' then lanes8 a b n (-)
      else if m = ''Pcmpeqb'' then lanes8 a b n (\<lambda>x y. if x = y then 0xFF else 0)
      else if m = ''Paddw'' then lanes16 a b n (+)
      else if m = ''Psubw'' then lanes16 a b n (-)
      else if m = ''Pcmpeqw'' then lanes16 a b n (\<lambda>x y. if x = y then 0xFFFF else 0)
      else if m = ''Paddd'' then lanes32 a b n (+)
      else if m = ''Psubd'' then lanes32 a b n (-)
      else if m = ''Pcmpeqd'' then lanes32 a b n (\<lambda>x y. if x = y then 0xFFFFFFFF else 0)
      else if m = ''Paddq'' then lanes64 a b n (+)
      else lanes64 a b n (-))"

definition simd_lanes :: "insn \<Rightarrow> unit exec" where
  "simd_lanes i =
     (let n = vector_bytes i in
      bind_x (read_simd i 0 n) (\<lambda>a.
      bind_x (read_simd i 1 n) (\<lambda>b.
      write_simd i 0 (take n (lane_result (i_mn i) a b n)))))"

definition simd_moves :: "mnemonic list" where
  "simd_moves = [''Movd'', ''Movq'', ''Movdqa'', ''Movdqu'', ''Movaps'', ''Movups'', ''Movapd'',
     ''Movupd'', ''Movntdq'', ''Movntq'', ''Movntps'', ''Lddqu'', ''Movss'', ''Movsd'']"

definition simd_lane_ops :: "mnemonic list" where
  "simd_lane_ops = [''Pxor'', ''Por'', ''Pand'', ''Pandn'', ''Paddb'', ''Paddw'', ''Paddd'', ''Paddq'',
     ''Psubb'', ''Psubw'', ''Psubd'', ''Psubq'', ''Pcmpeqb'', ''Pcmpeqw'', ''Pcmpeqd'']"

definition simd :: "insn \<Rightarrow> bool exec" where
  "simd i =
     (let m = i_mn i in
      if m \<in> {''Emms'', ''Femms'', ''Sfence'', ''Lfence'', ''Mfence''} then ret_x True
      else if m \<in> set simd_moves then then_x (simd_move i) (ret_x True)
      else if m \<in> {''Pshufd'', ''Pshufw'', ''Pshuflw'', ''Pshufhw''} then then_x (simd_shuffle i) (ret_x True)
      else if m \<in> {''Pslldq'', ''Psrldq''} then then_x (simd_byte_shift i) (ret_x True)
      else if m \<in> {''Punpcklbw'', ''Punpcklwd'', ''Punpckldq'', ''Punpcklqdq''}
        then then_x (simd_unpack i) (ret_x True)
      else if m \<in> set simd_lane_ops then then_x (simd_lanes i) (ret_x True)
      else ret_x False)"

end
