(* ===== verification/Emu_X87.thy ===== *)
theory Emu_X87
  imports Emu_Simd
begin

text \<open>
  The x87 subset (\<^verbatim>\<open>Cpu::x87\<close> and its helpers in \<^verbatim>\<open>crates/exav-pe-emu/src/cpu.rs\<close>).
  Values are the bit patterns of \<^verbatim>\<open>f64\<close>. Sign, absolute value and the tests against zero are
  written on the pattern; rounding arithmetic and the conversions are operations of the record
  \<open>float_ops\<close>, an argument of the definitions that use them.
\<close>

section \<open>Floating-point operations\<close>

record float_ops =
  f_add :: "u64 \<Rightarrow> u64 \<Rightarrow> u64"
  f_sub :: "u64 \<Rightarrow> u64 \<Rightarrow> u64"
  f_mul :: "u64 \<Rightarrow> u64 \<Rightarrow> u64"
  f_div :: "u64 \<Rightarrow> u64 \<Rightarrow> u64"
  f_sqrt :: "u64 \<Rightarrow> u64"
  f_of_int :: "int \<Rightarrow> u64"
  f_of_f32 :: "u32 \<Rightarrow> u64"
  f_to_f32 :: "u64 \<Rightarrow> u32"
  f_to_i64 :: "u64 \<Rightarrow> int"
  f_to_u64 :: "u64 \<Rightarrow> u64"
  f_floor_log2 :: "u64 \<Rightarrow> int"
  f_powi2 :: "int \<Rightarrow> u64"

definition f_zero :: u64 where "f_zero = 0"
definition f_one :: u64 where "f_one = 0x3FF0000000000000"

definition f_neg :: "u64 \<Rightarrow> u64" where "f_neg v = v XOR 0x8000000000000000"
definition f_abs :: "u64 \<Rightarrow> u64" where "f_abs v = v AND 0x7FFFFFFFFFFFFFFF"

definition f_sign_negative :: "u64 \<Rightarrow> bool" where "f_sign_negative v \<longleftrightarrow> bit v 63"
definition f_is_zero :: "u64 \<Rightarrow> bool" where "f_is_zero v \<longleftrightarrow> f_abs v = 0"
definition f_is_nan :: "u64 \<Rightarrow> bool" where "f_is_nan v \<longleftrightarrow> 0x7FF0000000000000 < f_abs v"

definition f_lt_zero :: "u64 \<Rightarrow> bool" where
  "f_lt_zero v \<longleftrightarrow> f_sign_negative v \<and> \<not> f_is_zero v \<and> \<not> f_is_nan v"

section \<open>The register stack\<close>

definition fpu_push :: "u64 \<Rightarrow> cpu \<Rightarrow> cpu" where
  "fpu_push v c =
     (let t = (fpu_top c + 7) mod 8 in c\<lparr>fpu_top := t, fpu := (fpu c)(t := v)\<rparr>)"

definition fpu_pop :: "cpu \<Rightarrow> cpu" where
  "fpu_pop c = c\<lparr>fpu_top := (fpu_top c + 1) mod 8\<rparr>"

definition fpu_get :: "nat \<Rightarrow> cpu \<Rightarrow> u64" where
  "fpu_get k c = fpu c ((fpu_top c + k) mod 8)"

definition fpu_set :: "nat \<Rightarrow> u64 \<Rightarrow> cpu \<Rightarrow> cpu" where
  "fpu_set k v c = c\<lparr>fpu := (fpu c)((fpu_top c + k) mod 8 := v)\<rparr>"

section \<open>Memory operands\<close>

definition read_u64_halves :: "u32 \<Rightarrow> u64 exec" where
  "read_u64_halves a =
     bind_x (mem_x (\<lambda>m. read_u32 m a)) (\<lambda>lo.
     bind_x (mem_x (\<lambda>m. read_u32 m (a + 4))) (\<lambda>hi.
     ret_x (push_bit 32 (ucast hi) OR ucast lo)))"

definition read_float :: "float_ops \<Rightarrow> u32 \<Rightarrow> nat \<Rightarrow> u64 exec" where
  "read_float F a n =
     (if n = 4 then bind_x (mem_x (\<lambda>m. read_u32 m a)) (\<lambda>v. ret_x (f_of_f32 F v))
      else if n = 8 then read_u64_halves a
      else
        bind_x (read_u64_halves a) (\<lambda>signif.
        bind_x (mem_x (\<lambda>m. read_u16 m (a + 8))) (\<lambda>se.
        (let sign = (if se AND 0x8000 \<noteq> 0 then f_neg f_one else f_one);
             ex = int (unat (se AND 0x7FFF)) - 16383
         in ret_x (if signif = 0 then f_mul F f_zero sign
                   else f_mul F (f_mul F sign (f_of_int F (uint signif))) (f_powi2 F (ex - 63)))))))"

definition extended_parts :: "float_ops \<Rightarrow> u64 \<Rightarrow> u64 \<times> int \<times> bool" where
  "extended_parts F v =
     (if f_is_zero v then (0, - 16383, f_sign_negative v)
      else
        (let a = f_abs v; ex = f_floor_log2 F a
         in (f_to_u64 F (f_mul F (f_div F a (f_powi2 F ex)) (f_powi2 F 63)), ex, f_lt_zero v)))"

text \<open>\<^verbatim>\<open>i32::saturating_add\<close>.\<close>

definition sat_i32 :: "int \<Rightarrow> int" where
  "sat_i32 x = max (- (2 ^ 31)) (min (2 ^ 31 - 1) x)"

definition write_float :: "float_ops \<Rightarrow> u32 \<Rightarrow> nat \<Rightarrow> u64 \<Rightarrow> unit exec" where
  "write_float F a n v =
     (if n = 4 then mem_x (\<lambda>m. write_u32 m a (f_to_f32 F v))
      else if n = 8 then mem_x (\<lambda>m. write_bytes m a (to_le 8 v))
      else
        (let (signif, ex, sign) = extended_parts F v;
             se = (word_of_int (sat_i32 (ex + 16383)) AND 0x7FFF) OR (if sign then 0x8000 else 0) :: u16
         in mem_x (\<lambda>m. write_bytes m a (to_le 8 signif @ to_le 2 se))))"

section \<open>Instructions\<close>

definition x87_fld :: "float_ops \<Rightarrow> insn \<Rightarrow> unit exec" where
  "x87_fld F i =
     bind_x
       (case i_ops i ! 0 of
          St _ \<Rightarrow> get_x (fpu_get (st_index i 0))
        | _ \<Rightarrow> bind_x (get_x (ea i)) (\<lambda>a. read_float F a (mem_width i)))
       (\<lambda>v. put_x (fpu_push v))"

definition x87_fild :: "float_ops \<Rightarrow> insn \<Rightarrow> unit exec" where
  "x87_fild F i =
     bind_x (get_x (ea i)) (\<lambda>a.
     bind_x
       (if mem_width i = 2 then bind_x (mem_x (\<lambda>m. read_u16 m a)) (\<lambda>v. ret_x (f_of_int F (sint v)))
        else if mem_width i = 4 then bind_x (mem_x (\<lambda>m. read_u32 m a)) (\<lambda>v. ret_x (f_of_int F (sint v)))
        else bind_x (read_u64_halves a) (\<lambda>v. ret_x (f_of_int F (sint v))))
       (\<lambda>v. put_x (fpu_push v)))"

definition x87_fst :: "float_ops \<Rightarrow> insn \<Rightarrow> unit exec" where
  "x87_fst F i =
     bind_x (get_x (fpu_get 0)) (\<lambda>v.
     then_x
       (case i_ops i ! 0 of
          St _ \<Rightarrow> put_x (fpu_set (st_index i 0) v)
        | _ \<Rightarrow> bind_x (get_x (ea i)) (\<lambda>a. write_float F a (mem_width i) v))
       (if i_mn i = ''Fstp'' then put_x fpu_pop else ret_x ()))"

definition x87_fist :: "float_ops \<Rightarrow> insn \<Rightarrow> unit exec" where
  "x87_fist F i =
     bind_x (get_x (fpu_get 0)) (\<lambda>v.
     bind_x (get_x (ea i)) (\<lambda>a.
     (let k = f_to_i64 F v in
      then_x
        (if mem_width i = 2 then mem_x (\<lambda>m. write_u16 m a (word_of_int k))
         else if mem_width i = 4 then mem_x (\<lambda>m. write_u32 m a (word_of_int k))
         else
           then_x (mem_x (\<lambda>m. write_u32 m a (word_of_int k)))
             (mem_x (\<lambda>m. write_u32 m (a + 4) (word_of_int (k div 2 ^ 32)))))
        (if i_mn i = ''Fistp'' then put_x fpu_pop else ret_x ()))))"

definition x87_fxch :: "insn \<Rightarrow> cpu \<Rightarrow> cpu" where
  "x87_fxch i c =
     (let n = (if 0 < op_count i then st_index i 0 else 1);
          a = fpu_get 0 c;
          b = fpu_get n c
      in fpu_set n a (fpu_set 0 b c))"

definition x87_fnstenv :: "insn \<Rightarrow> unit exec" where
  "x87_fnstenv i =
     bind_x (get_x (ea i)) (\<lambda>a.
     bind_x (get_x (\<lambda>c. to_le 2 (fpu_cw c) @ [0, 0] @ [0, 0] @ [0, 0] @ to_le 2 (0xFFFF :: u16) @ [0, 0]
                        @ to_le 4 (fpu_last_ip c) @ replicate 12 0)) (\<lambda>env.
     mem_x (\<lambda>m. write_bytes m a env)))"

definition x87_load_cw :: "insn \<Rightarrow> unit exec" where
  "x87_load_cw i =
     bind_x (get_x (ea i)) (\<lambda>a.
     bind_x (mem_x (\<lambda>m. read_u16 m a)) (\<lambda>w. put_x (\<lambda>c. c\<lparr>fpu_cw := w\<rparr>)))"

definition x87_fnstcw :: "insn \<Rightarrow> unit exec" where
  "x87_fnstcw i =
     bind_x (get_x (ea i)) (\<lambda>a.
     bind_x (get_x fpu_cw) (\<lambda>w. mem_x (\<lambda>m. write_u16 m a w)))"

definition x87_fnstsw :: "insn \<Rightarrow> unit exec" where
  "x87_fnstsw i =
     (case i_ops i ! 0 of
        St _ \<Rightarrow> put_x (\<lambda>c. set_reg EAX ((reg c EAX AND 0xFFFF0000) OR 0) c)
      | _ \<Rightarrow> bind_x (get_x (ea i)) (\<lambda>a. mem_x (\<lambda>m. write_u16 m a 0)))"

definition arith_result :: "float_ops \<Rightarrow> mnemonic \<Rightarrow> u64 \<Rightarrow> u64 \<Rightarrow> u64" where
  "arith_result F m lhs rhs =
     (if m \<in> {''Fadd'', ''Faddp''} then f_add F lhs rhs
      else if m \<in> {''Fsub'', ''Fsubp''} then f_sub F lhs rhs
      else if m \<in> {''Fsubr'', ''Fsubrp''} then f_sub F rhs lhs
      else if m \<in> {''Fmul'', ''Fmulp''} then f_mul F lhs rhs
      else if m \<in> {''Fdiv'', ''Fdivp''} then f_div F lhs rhs
      else f_div F rhs lhs)"

definition x87_arith :: "float_ops \<Rightarrow> insn \<Rightarrow> unit exec" where
  "x87_arith F i =
     bind_x
       (if op_count i = 0 then get_x (\<lambda>c. (1, fpu_get 0 c))
        else if op_count i = 1 then
          (case i_ops i ! 0 of
             St _ \<Rightarrow> get_x (\<lambda>c. (0, fpu_get (st_index i 0) c))
           | _ \<Rightarrow>
               bind_x (get_x (ea i)) (\<lambda>a.
               bind_x (read_float F a (mem_width i)) (\<lambda>v. ret_x (0, v))))
        else get_x (\<lambda>c. (st_index i 0, fpu_get (st_index i 1) c)))
       (\<lambda>(dst, rhs).
          then_x (put_x (\<lambda>c. fpu_set dst (arith_result F (i_mn i) (fpu_get dst c) rhs) c))
            (if i_mn i \<in> {''Faddp'', ''Fsubp'', ''Fsubrp'', ''Fmulp'', ''Fdivp'', ''Fdivrp''}
             then put_x fpu_pop else ret_x ()))"

definition x87_ariths :: "mnemonic list" where
  "x87_ariths = [''Fadd'', ''Fsub'', ''Fsubr'', ''Fmul'', ''Fdiv'', ''Fdivr'',
     ''Faddp'', ''Fsubp'', ''Fsubrp'', ''Fmulp'', ''Fdivp'', ''Fdivrp'']"

definition x87 :: "float_ops \<Rightarrow> insn \<Rightarrow> unit exec" where
  "x87 F i =
     (let m = i_mn i in
      then_x
        (if m \<notin> {''Fnstenv'', ''Fldenv'', ''Fnstcw'', ''Fldcw'', ''Fnstsw''}
         then put_x (\<lambda>c. c\<lparr>fpu_last_ip := eip c - of_nat (i_len i)\<rparr>) else ret_x ())
        (if m = ''Fninit'' then put_x (\<lambda>c. c\<lparr>fpu := (\<lambda>_. f_zero), fpu_top := 0, fpu_cw := 0x037F\<rparr>)
         else if m = ''Fnclex'' then ret_x ()
         else if m = ''Fldz'' then put_x (fpu_push f_zero)
         else if m = ''Fld1'' then put_x (fpu_push f_one)
         else if m = ''Fld'' then x87_fld F i
         else if m = ''Fild'' then x87_fild F i
         else if m \<in> {''Fst'', ''Fstp''} then x87_fst F i
         else if m \<in> {''Fist'', ''Fistp''} then x87_fist F i
         else if m = ''Fxch'' then put_x (x87_fxch i)
         else if m = ''Fincstp'' then put_x (\<lambda>c. c\<lparr>fpu_top := (fpu_top c + 1) mod 8\<rparr>)
         else if m = ''Fdecstp'' then put_x (\<lambda>c. c\<lparr>fpu_top := (fpu_top c + 7) mod 8\<rparr>)
         else if m = ''Ffree'' then ret_x ()
         else if m = ''Ffreep'' then put_x fpu_pop
         else if m = ''Fnstenv'' then x87_fnstenv i
         else if m = ''Fldenv'' then x87_load_cw i
         else if m = ''Fnstcw'' then x87_fnstcw i
         else if m = ''Fldcw'' then x87_load_cw i
         else if m = ''Fnstsw'' then x87_fnstsw i
         else if m \<in> set x87_ariths then x87_arith F i
         else if m = ''Fchs'' then put_x (\<lambda>c. fpu_set 0 (f_neg (fpu_get 0 c)) c)
         else if m = ''Fabs'' then put_x (\<lambda>c. fpu_set 0 (f_abs (fpu_get 0 c)) c)
         else if m = ''Fsqrt'' then put_x (\<lambda>c. fpu_set 0 (f_sqrt F (fpu_get 0 c)) c)
         else put_x (\<lambda>c. c\<lparr>fpu_approximated := True\<rparr>)))"

end
