(* ===== verification/Emu_Step.thy ===== *)
theory Emu_Step
  imports Emu_X87
begin

text \<open>
  The dispatch of \<^verbatim>\<open>Cpu::exec\<close> and the fetch-decode-execute step with its decode cache
  (\<^verbatim>\<open>crates/exav-pe-emu/src/cpu.rs\<close>). The decoder \<^verbatim>\<open>exav_x86::decode\<close> is the argument \<open>dec\<close>.
\<close>

section \<open>Dispatch\<close>

text \<open>The arms of the dispatch by group; \<open>None\<close> when the mnemonic is in none of the group's arms.\<close>

definition arm_move :: "insn \<Rightarrow> unit exec option" where
  "arm_move i =
     (let m = i_mn i in
      if m \<in> {''Nop'', ''Pause'', ''Wait'', ''Fnop'', ''Prefetchw'', ''Prefetchnta'', ''Prefetcht0'',
              ''Prefetcht1'', ''Prefetcht2''} then Some (ret_x ())
      else if m = ''Mov'' then Some (exec_mov i)
      else if m = ''Movzx'' then Some (exec_movzx i)
      else if m = ''Movsx'' then Some (exec_movsx i)
      else if m = ''Lea'' then Some (exec_lea i)
      else if m = ''Xchg'' then Some (exec_xchg i)
      else if m = ''Xadd'' then Some (exec_xadd i)
      else if m = ''Cmpxchg'' then Some (exec_cmpxchg i)
      else if m = ''Bswap'' then Some (exec_bswap i)
      else None)"

definition arm_stack :: "insn \<Rightarrow> unit exec option" where
  "arm_stack i =
     (let m = i_mn i in
      if m = ''Push'' then Some (exec_push i)
      else if m = ''Pop'' then Some (exec_pop i)
      else if m = ''Pushad'' then Some exec_pushad
      else if m = ''Pusha'' then Some exec_pusha
      else if m = ''Popad'' then Some exec_popad
      else if m = ''Popa'' then Some exec_popa
      else if m = ''Pushfd'' then Some exec_pushfd
      else if m = ''Pushf'' then Some exec_pushf
      else if m = ''Popfd'' then Some exec_popfd
      else if m = ''Popf'' then Some exec_popf
      else if m = ''Leave'' then Some exec_leave
      else if m = ''Enter'' then Some (exec_enter i)
      else None)"

definition arm_alu :: "insn \<Rightarrow> unit exec option" where
  "arm_alu i =
     (let m = i_mn i in
      if m \<in> {''Add'', ''Adc'', ''Sub'', ''Sbb'', ''Cmp'', ''And'', ''Or'', ''Xor'', ''Test''}
        then Some (exec_alu i)
      else if m \<in> {''Inc'', ''Dec''} then Some (exec_incdec i)
      else if m = ''Neg'' then Some (exec_neg i)
      else if m = ''Not'' then Some (exec_not i)
      else if m = ''Mul'' then Some (exec_mul i)
      else if m = ''Imul'' then Some (exec_imul i)
      else if m = ''Div'' then Some (exec_div i)
      else if m = ''Idiv'' then Some (exec_idiv i)
      else None)"

definition arm_bits :: "insn \<Rightarrow> unit exec option" where
  "arm_bits i =
     (let m = i_mn i in
      if m \<in> {''Shl'', ''Sal'', ''Shr'', ''Sar'', ''Rol'', ''Ror'', ''Rcl'', ''Rcr''} then Some (exec_shift i)
      else if m \<in> {''Shld'', ''Shrd''} then Some (exec_shd i)
      else if m \<in> {''Bt'', ''Bts'', ''Btr'', ''Btc''} then Some (exec_bt i)
      else if m \<in> {''Bsf'', ''Bsr''} then Some (exec_bs i)
      else None)"

definition arm_flags :: "insn \<Rightarrow> unit exec option" where
  "arm_flags i =
     (let m = i_mn i in
      if m = ''Cbw'' then Some (put_x exec_cbw)
      else if m = ''Cwde'' then Some (put_x exec_cwde)
      else if m = ''Cwd'' then Some (put_x exec_cwd)
      else if m = ''Cdq'' then Some (put_x exec_cdq)
      else if m = ''Xlatb'' then Some exec_xlatb
      else if m \<in> {''Clc'', ''Stc'', ''Cmc'', ''Cld'', ''Std'', ''Cli'', ''Sti''} then Some (put_x (exec_flag m))
      else if m = ''Sahf'' then Some (put_x exec_sahf)
      else if m = ''Lahf'' then Some (put_x exec_lahf)
      else None)"

definition arm_flow :: "u32 \<Rightarrow> insn \<Rightarrow> unit exec option" where
  "arm_flow ip i =
     (let m = i_mn i in
      if m = ''Jmp'' then Some (exec_jmp ip i)
      else if m = ''Call'' then Some (exec_call ip i)
      else if m = ''Ret'' then Some (exec_ret i)
      else if m = ''Retf'' then Some (stop_x (Unsupported ip m))
      else if m \<in> {''Loop'', ''Loope'', ''Loopne''} then Some (put_x (exec_loop i))
      else if m = ''Jecxz'' then Some (put_x (exec_jecxz i))
      else if m = ''Jcxz'' then Some (put_x (exec_jcxz i))
      else if m = ''Int3'' then Some (stop_x (Interrupt 3))
      else if m = ''Int'' then Some (stop_x (Interrupt (ucast (imm i 0))))
      else if m = ''Int1'' then Some (stop_x (Interrupt 1))
      else if m = ''Into'' then Some (stop_x (Interrupt 4))
      else if m = ''Hlt'' then Some (stop_x Halt)
      else None)"

definition arm_misc :: "u32 \<Rightarrow> insn \<Rightarrow> unit exec option" where
  "arm_misc ip i =
     (let m = i_mn i in
      if m = ''Crc32'' then Some (exec_crc32 i)
      else if m = ''Cpuid'' then Some (put_x exec_cpuid)
      else if m = ''Rdtsc'' then Some (put_x exec_rdtsc)
      else if m \<in> {''In'', ''Out'', ''Insb'', ''Insw'', ''Insd'', ''Outsb'', ''Outsw'', ''Outsd''}
        then Some (stop_x (Privileged ip))
      else if m \<in> {''Daa'', ''Das'', ''Aaa'', ''Aas''} then Some (put_x (exec_bcd m))
      else if m \<in> {''Aam'', ''Aad''} then Some (exec_aam_aad i)
      else None)"

fun first_some :: "'a option list \<Rightarrow> 'a option" where
  "first_some [] = None"
| "first_some (x # xs) = (case x of None \<Rightarrow> first_some xs | Some y \<Rightarrow> Some y)"

definition is_x87 :: "mnemonic \<Rightarrow> bool" where
  "is_x87 m = starts_with ''F'' m"

definition string_mnemonics :: "mnemonic list" where
  "string_mnemonics = [''Movsb'', ''Movsw'', ''Movsd'', ''Stosb'', ''Stosw'', ''Stosd'', ''Lodsb'',
     ''Lodsw'', ''Lodsd'', ''Scasb'', ''Scasw'', ''Scasd'', ''Cmpsb'', ''Cmpsw'', ''Cmpsd'']"

text \<open>The vector dispatch, and the stop when it declines the instruction.\<close>

definition simd_or_stop :: "u32 \<Rightarrow> insn \<Rightarrow> u64 exec" where
  "simd_or_stop ip i =
     bind_x (simd i) (\<lambda>b. if b then ret_x 1 else stop_x (Unsupported ip (i_mn i)))"

definition exec_string :: "u32 \<Rightarrow> insn \<Rightarrow> u64 exec" where
  "exec_string ip i =
     bind_x (string_op i) (\<lambda>r.
     case r of
       Some ticks \<Rightarrow> ret_x ticks
     | None \<Rightarrow> simd_or_stop ip i)"

definition exec_other :: "float_ops \<Rightarrow> u32 \<Rightarrow> insn \<Rightarrow> u64 exec" where
  "exec_other F ip i =
     bind_x (get_x (cond (i_mn i))) (\<lambda>r.
     case r of
       Some taken \<Rightarrow> then_x (conditional i taken) (ret_x 1)
     | None \<Rightarrow>
         if is_x87 (i_mn i) then then_x (x87 F i) (ret_x 1) else simd_or_stop ip i)"

definition exec_arm :: "u32 \<Rightarrow> insn \<Rightarrow> unit exec option" where
  "exec_arm ip i =
     first_some [arm_move i, arm_stack i, arm_alu i, arm_bits i, arm_flags i, arm_flow ip i, arm_misc ip i]"

definition exec :: "float_ops \<Rightarrow> insn \<Rightarrow> u64 exec" where
  "exec F i =
     bind_x (get_x (\<lambda>c. eip c - of_nat (i_len i))) (\<lambda>ip.
     if i_mn i \<in> set string_mnemonics then exec_string ip i
     else case exec_arm ip i of
       Some p \<Rightarrow> then_x p (ret_x 1)
     | None \<Rightarrow> exec_other F ip i)"

section \<open>Fetch and step\<close>

type_synonym decoder = "bytes \<Rightarrow> u64 \<Rightarrow> insn option"

definition cache_index :: "u32 \<Rightarrow> nat" where
  "cache_index ip = unat (ip AND of_nat (CACHE_SLOTS - 1))"

definition fetch_fresh :: "decoder \<Rightarrow> insn exec" where
  "fetch_fresh dec s =
     (let c = fst s;
          g = code_generation (snd s);
          (buf, m) = read_code (snd s) (eip c) MAX_INSN
      in if buf = [] then (Stopped (Fault \<lparr>f_addr = eip c, f_write = False\<rparr>), c, m)
         else case dec buf (ucast (eip c)) of
           None \<Rightarrow> (Stopped (Invalid (eip c)), c, m)
         | Some i \<Rightarrow>
             (let m = mark_executed m (eip c) in
              if (of_nat (i_len i) :: u32) = 0 then (Panicked, c, m)
              else
                (Done i, c\<lparr>cache := (cache c)(cache_index (eip c) \<mapsto> (g, eip c, i))\<rparr>,
                 mark_executed m (eip c + of_nat (i_len i) - 1))))"

definition fetch :: "decoder \<Rightarrow> insn exec" where
  "fetch dec s =
     (case cache (fst s) (cache_index (eip (fst s))) of
        Some (g, ip, i) \<Rightarrow>
          if g = code_generation (snd s) \<and> ip = eip (fst s) then (Done i, s) else fetch_fresh dec s
      | None \<Rightarrow> fetch_fresh dec s)"

definition advance :: "insn \<Rightarrow> cpu \<Rightarrow> cpu" where
  "advance i c = c\<lparr>eip := ucast (next_ip i (ucast (eip c)))\<rparr>"

definition step :: "decoder \<Rightarrow> float_ops \<Rightarrow> u64 exec" where
  "step dec F =
     then_x (put_x (\<lambda>c. c\<lparr>partial_ticks := 0\<rparr>))
       (bind_x (fetch dec) (\<lambda>i.
        then_x (put_x (advance i))
          (exec F i)))"

definition take_partial_ticks :: "cpu \<Rightarrow> u64 \<times> cpu" where
  "take_partial_ticks c = (partial_ticks c, c\<lparr>partial_ticks := 0\<rparr>)"

end
