(* ===== verification/Emu_Frame.thy ===== *)
theory Emu_Frame
  imports Emu_Step
begin

text \<open>
  What every instruction keeps: the decode cache, the memory invariant, and the code frame of
  \<open>Emu_Mem_Props\<close>. The interface \<open>quiet_frame\<close> shows each arm of the dispatch to keep any relation of
  its kind; it is interpreted for the code frame and for the ticks of an unfinished string instruction. With the
  first the decode cache is shown transparent: the instruction a step executes is the decoding of the bytes in memory.
\<close>

section \<open>Quiet executions\<close>

lemma cache_updates [simp]:
  "cache (set_reg r v c) = cache c" "cache (reg_write num s v c) = cache c"
  "cache (set_szp w n c) = cache c" "cache (set_eflags f c) = cache c" "cache (set_cf_of b c) = cache c"
  "cache (set_of_if b x c) = cache c" "cache (set_xmm k bs c) = cache c" "cache (set_mmx k q c) = cache c"
  "cache (fpu_push q c) = cache c" "cache (fpu_pop c) = cache c" "cache (fpu_set k q c) = cache c"
  "cache (bump r v c) = cache c" "cache (take_branch i c) = cache c" "cache (advance i c) = cache c"
  by (simp_all add: set_reg_def reg_write_def set_szp_def set_eflags_def set_cf_of_def set_of_if_def
      set_xmm_def set_mmx_def fpu_push_def fpu_pop_def fpu_set_def bump_def take_branch_def advance_def
      Let_def split: opsize.split)

lemma partial_updates [simp]:
  "partial_ticks (set_reg r v c) = partial_ticks c" "partial_ticks (reg_write num s v c) = partial_ticks c"
  "partial_ticks (set_szp w n c) = partial_ticks c" "partial_ticks (set_eflags f c) = partial_ticks c" "partial_ticks (set_cf_of b c) = partial_ticks c"
  "partial_ticks (set_of_if b x c) = partial_ticks c" "partial_ticks (set_xmm k bs c) = partial_ticks c" "partial_ticks (set_mmx k q c) = partial_ticks c"
  "partial_ticks (fpu_push q c) = partial_ticks c" "partial_ticks (fpu_pop c) = partial_ticks c" "partial_ticks (fpu_set k q c) = partial_ticks c"
  "partial_ticks (bump r v c) = partial_ticks c" "partial_ticks (take_branch i c) = partial_ticks c" "partial_ticks (advance i c) = partial_ticks c"
  by (simp_all add: set_reg_def reg_write_def set_szp_def set_eflags_def set_cf_of_def set_of_if_def
      set_xmm_def set_mmx_def fpu_push_def fpu_pop_def fpu_set_def bump_def take_branch_def advance_def
      Let_def split: opsize.split)

lemma cache_flags [simp]:
  "cache (snd (flags_add a b d n c)) = cache c" "cache (snd (flags_sub a b d n c)) = cache c"
  "cache (snd (flags_logic a n c)) = cache c" "cache (snd (alu_result m a b n c)) = cache c"
  by (simp_all add: flags_add_def flags_sub_def flags_logic_def alu_result_def Let_def)

lemma partial_flags [simp]:
  "partial_ticks (snd (flags_add a b d n c)) = partial_ticks c" "partial_ticks (snd (flags_sub a b d n c)) = partial_ticks c"
  "partial_ticks (snd (flags_logic a n c)) = partial_ticks c" "partial_ticks (snd (alu_result m a b n c)) = partial_ticks c"
  by (simp_all add: flags_add_def flags_sub_def flags_logic_def alu_result_def Let_def)

lemma shift_result_keeps:
  assumes "shift_result m v k n c = Some (r, c')"
  shows "cache c' = cache c \<and> partial_ticks c' = partial_ticks c"
  using assms
  by (auto simp: shift_result_def shl_result_def shr_result_def sar_result_def rol_result_def ror_result_def
      rc_result_def Let_def Option.bind_eq_Some_conv split: if_splits)

lemma cache_ops [simp]:
  "cache (store_wide q n c) = cache c" "cache (store_quot_rem v w n c) = cache c"
  "cache (exec_cbw c) = cache c" "cache (exec_cwde c) = cache c" "cache (exec_cwd c) = cache c"
  "cache (exec_cdq c) = cache c" "cache (exec_flag m c) = cache c" "cache (exec_sahf c) = cache c"
  "cache (exec_lahf c) = cache c" "cache (exec_loop i c) = cache c" "cache (exec_jecxz i c) = cache c"
  "cache (exec_jcxz i c) = cache c" "cache (exec_cpuid c) = cache c" "cache (exec_rdtsc c) = cache c"
  "cache (exec_bcd m c) = cache c" "cache (x87_fxch i c) = cache c"
  by (simp_all add: store_wide_def store_quot_rem_def exec_cbw_def exec_cwde_def exec_cwd_def exec_cdq_def
      exec_flag_def exec_sahf_def exec_lahf_def exec_loop_def exec_jecxz_def exec_jcxz_def exec_cpuid_def
      exec_rdtsc_def exec_bcd_def x87_fxch_def Let_def)

lemma partial_ops [simp]:
  "partial_ticks (store_wide q n c) = partial_ticks c" "partial_ticks (store_quot_rem v w n c) = partial_ticks c"
  "partial_ticks (exec_cbw c) = partial_ticks c" "partial_ticks (exec_cwde c) = partial_ticks c" "partial_ticks (exec_cwd c) = partial_ticks c"
  "partial_ticks (exec_cdq c) = partial_ticks c" "partial_ticks (exec_flag m c) = partial_ticks c" "partial_ticks (exec_sahf c) = partial_ticks c"
  "partial_ticks (exec_lahf c) = partial_ticks c" "partial_ticks (exec_loop i c) = partial_ticks c" "partial_ticks (exec_jecxz i c) = partial_ticks c"
  "partial_ticks (exec_jcxz i c) = partial_ticks c" "partial_ticks (exec_cpuid c) = partial_ticks c" "partial_ticks (exec_rdtsc c) = partial_ticks c"
  "partial_ticks (exec_bcd m c) = partial_ticks c" "partial_ticks (x87_fxch i c) = partial_ticks c"
  by (simp_all add: store_wide_def store_quot_rem_def exec_cbw_def exec_cwde_def exec_cwd_def exec_cdq_def
      exec_flag_def exec_sahf_def exec_lahf_def exec_loop_def exec_jecxz_def exec_jcxz_def exec_cpuid_def
      exec_rdtsc_def exec_bcd_def x87_fxch_def Let_def)

text \<open>
  An execution is quiet for a relation that ignores everything of the processor but the decode cache and the
  ticks of an unfinished string instruction, and that the operations of the memory respect. Every arm of
  the dispatch but the repeat loop is quiet.
\<close>

locale quiet_frame = exec_frame +
  assumes R_cpu: "cache c' = cache c \<Longrightarrow> partial_ticks c' = partial_ticks c \<Longrightarrow> R (c, m) (c', m)"
    and R_mem: "mem_step m m' \<Longrightarrow> R (c, m) (c, m')"
begin

lemma quiet_put: "(\<And>c. cache (h c) = cache c \<and> partial_ticks (h c) = partial_ticks c) \<Longrightarrow> exec_rel R (put_x h)"
  by (rule frame_put) (simp add: R_cpu)

lemma quiet_cpu: "(\<And>c. cache (snd (k c)) = cache c \<and> partial_ticks (snd (k c)) = partial_ticks c) \<Longrightarrow> exec_rel R (cpu_x k)"
  by (rule frame_cpu) (simp add: R_cpu)

lemma quiet_try:
  "(\<And>c v c'. k c = Some (v, c') \<Longrightarrow> cache c' = cache c \<and> partial_ticks c' = partial_ticks c) \<Longrightarrow> exec_rel R (try_x k)"
  by (rule frame_try) (simp add: R_cpu)

lemma quiet_mem_step: "(\<And>m. mem_step m (snd (g m))) \<Longrightarrow> exec_rel R (mem_x g)"
  by (rule frame_mem) (simp add: R_mem)

lemma quiet_mem:
  "exec_rel R (mem_x (\<lambda>m. read_u8 m a))" "exec_rel R (mem_x (\<lambda>m. read_u16 m a))"
  "exec_rel R (mem_x (\<lambda>m. read_u32 m a))" "exec_rel R (mem_x (\<lambda>m. read_into m a out))"
  "exec_rel R (mem_x (\<lambda>m. write_u8 m a v8))" "exec_rel R (mem_x (\<lambda>m. write_u16 m a v16))"
  "exec_rel R (mem_x (\<lambda>m. write_u32 m a v32))" "exec_rel R (mem_x (\<lambda>m. write_bytes m a bs))"
  by (intro quiet_mem_step mem_step.intros)+

lemmas quiet_rules = frame_bind frame_then frame_pure frame_each quiet_put quiet_cpu quiet_try quiet_mem

lemma quiet_access:
  "exec_rel R (push32 v)" "exec_rel R pop32" "exec_rel R (push16 w)"
  "exec_rel R pop16" "exec_rel R (read_mem a n)" "exec_rel R (write_mem a n v)"
  by (auto simp: push32_def pop32_def push16_def pop16_def read_mem_def write_mem_def intro!: quiet_rules)

lemma quiet_unsupported: "exec_rel R (unsupported i)"
  by (auto simp: unsupported_def intro!: quiet_rules)

lemma quiet_ops: "exec_rel R (read_op i k)" "exec_rel R (write_op i k v)"
  by (auto simp: read_op_def write_op_def split: opnd.split intro!: quiet_rules quiet_access quiet_unsupported)

lemma quiet_move: "arm_move i = Some p \<Longrightarrow> exec_rel R p"
  by (auto simp: arm_move_def exec_mov_def exec_movzx_def exec_movsx_def exec_lea_def exec_xchg_def
      exec_xadd_def exec_cmpxchg_def exec_bswap_def Let_def split: if_splits intro!: quiet_rules quiet_ops)

lemma quiet_stack: "arm_stack i = Some p \<Longrightarrow> exec_rel R p"
  by (auto simp: arm_stack_def exec_push_def exec_pop_def exec_pushad_def exec_pusha_def exec_popad_def
      exec_popa_def exec_pushfd_def exec_pushf_def exec_popfd_def exec_popf_def exec_leave_def exec_enter_def
      push_reg32_def push_reg16_def pop_reg32_def pop_reg16_def enter_level_def Let_def
      split: if_splits intro!: quiet_rules quiet_ops quiet_access)

lemma quiet_alu: "arm_alu i = Some p \<Longrightarrow> exec_rel R p"
  by (auto simp: arm_alu_def exec_alu_def exec_incdec_def exec_neg_def exec_not_def exec_mul_def
      exec_imul1_def exec_imul_def exec_div_def exec_idiv_def Let_def
      split: if_splits option.split intro!: quiet_rules quiet_ops)

lemma quiet_bits: "arm_bits i = Some p \<Longrightarrow> exec_rel R p"
  by (auto simp: arm_bits_def exec_shift_def exec_shd_def exec_bt_def exec_bs_def Let_def split_beta
      split: if_splits dest: shift_result_keeps intro!: quiet_rules quiet_ops quiet_access)

lemma quiet_flags: "arm_flags i = Some p \<Longrightarrow> exec_rel R p"
  by (auto simp: arm_flags_def exec_xlatb_def Let_def split: if_splits intro!: quiet_rules)

lemma quiet_flow: "arm_flow ip i = Some p \<Longrightarrow> exec_rel R p"
  by (auto simp: arm_flow_def exec_jmp_def exec_call_def exec_ret_def Let_def
      split: if_splits opnd.split intro!: quiet_rules quiet_ops quiet_access)

lemma quiet_misc: "arm_misc ip i = Some p \<Longrightarrow> exec_rel R p"
  by (auto simp: arm_misc_def exec_crc32_def exec_aam_aad_def Let_def split_beta
      split: if_splits intro!: quiet_rules quiet_ops)

lemma quiet_string_one: "exec_rel R (string_one kind n delta)"
  by (cases kind) (auto simp: string_one_def split_beta intro!: quiet_rules quiet_access)

lemma quiet_simd_ops: "exec_rel R (read_simd i k n)" "exec_rel R (write_simd i k bs)"
  by (auto simp: read_simd_def write_simd_def split: opnd.split intro!: quiet_rules quiet_unsupported)

lemma quiet_simd_move: "exec_rel R (simd_move i)"
  by (auto simp: simd_move_def Let_def split: opnd.split bool.split intro!: quiet_rules quiet_simd_ops)

lemma quiet_simd: "exec_rel R (simd i)"
  by (auto simp: simd_def simd_shuffle_def simd_byte_shift_def simd_unpack_def simd_lanes_def Let_def
      intro!: quiet_rules quiet_simd_ops quiet_simd_move)

lemma quiet_float: "exec_rel R (read_u64_halves a)" "exec_rel R (read_float F a n)"
  "exec_rel R (write_float F a n v)"
  by (auto simp: read_u64_halves_def read_float_def write_float_def Let_def split_beta intro!: quiet_rules)

lemma quiet_x87_ops:
  "exec_rel R (x87_fld F i)" "exec_rel R (x87_fild F i)" "exec_rel R (x87_fst F i)"
  "exec_rel R (x87_fist F i)" "exec_rel R (x87_fnstenv i)" "exec_rel R (x87_load_cw i)"
  "exec_rel R (x87_fnstcw i)" "exec_rel R (x87_fnstsw i)" "exec_rel R (x87_arith F i)"
  by (auto simp: x87_fld_def x87_fild_def x87_fst_def x87_fist_def x87_fnstenv_def x87_load_cw_def
      x87_fnstcw_def x87_fnstsw_def x87_arith_def Let_def split_beta split: opnd.split intro!: quiet_rules quiet_float)

lemma quiet_x87: "exec_rel R (x87 F i)"
  unfolding x87_def Let_def by (intro quiet_rules frame_if quiet_x87_ops) simp_all

lemma quiet_conditional: "exec_rel R (conditional i b)"
  by (auto simp: conditional_def intro!: quiet_rules quiet_ops)

lemma quiet_simd_or_stop: "exec_rel R (simd_or_stop ip i)"
  by (auto simp: simd_or_stop_def intro!: quiet_rules quiet_simd)

lemma quiet_arm: "exec_arm ip i = Some p \<Longrightarrow> exec_rel R p"
  by (auto simp: exec_arm_def split: option.splits
      dest: quiet_move quiet_stack quiet_alu quiet_bits quiet_flags quiet_flow quiet_misc)

end

section \<open>The code frame of an execution\<close>

definition keeps_code :: "machine \<Rightarrow> machine \<Rightarrow> bool" where
  "keeps_code s t \<longleftrightarrow> cache (fst t) = cache (fst s) \<and> (mem_inv (snd s) \<longrightarrow> code_frame (snd s) (snd t))"

interpretation kc: quiet_frame keeps_code
proof
  show "keeps_code s s" for s by (simp add: keeps_code_def code_frame_same)
  show "keeps_code (c, m) (c', m)" if "cache c' = cache c" for c c' m using that by (simp add: keeps_code_def code_frame_same)
  show "keeps_code (c, m) (c, m')" if "mem_step m m'" for c m m' using that by (simp add: keeps_code_def mem_step_code_frame)
  fix s t u assume "keeps_code s t" "keeps_code t u"
  then show "keeps_code s u"
    using code_frame_trans unfolding keeps_code_def by (metis code_frame_def)
qed

lemma kc_put: "(\<And>c. cache (h c) = cache c) \<Longrightarrow> exec_rel keeps_code (put_x h)"
  by (rule kc.frame_put) (simp add: keeps_code_def code_frame_same)

lemma kc_string_loop: "keeps_code s (snd (string_loop kind n delta repeat repne ticks s))"
proof (induction kind n delta repeat repne ticks s rule: string_loop.induct)
  case (1 kind n delta repeat repne ticks s)
  obtain r c m where one: "string_one kind n delta s = (r, c, m)" by (cases "string_one kind n delta s") auto
  have kc: "keeps_code s (c, m)" by (rule exec_relD [OF kc.quiet_string_one one])
  have upd: "keeps_code s (c\<lparr>partial_ticks := t\<rparr>, m)" "keeps_code s (set_reg ECX v c, m)" for t v
    using kc by (simp_all add: keeps_code_def)
  show ?case
  proof (cases r)
    case (Done u)
    show ?thesis
      using "1.IH" [OF _ one [symmetric] Done refl] kc upd one Done
      by (subst string_loop.simps) (auto simp: Let_def intro: kc.R_refl kc.R_trans [OF upd(2)])
  qed (use kc upd kc.R_refl one in \<open>subst string_loop.simps, auto\<close>)+
qed

lemma kc_string_loop_rel: "exec_rel keeps_code (string_loop kind n delta repeat repne ticks)"
  by (rule exec_relI) (rule kc_string_loop)

lemma kc_string_op: "exec_rel keeps_code (string_op i)"
  by (auto simp: string_op_def split: option.split intro!: kc.quiet_rules kc_string_loop_rel)

lemma kc_exec: "exec_rel keeps_code (exec F i)"
proof -
  have "exec_rel keeps_code (exec_string ip i)" "exec_rel keeps_code (exec_other F ip i)" for ip
    by (auto simp: exec_string_def exec_other_def split: option.split
        intro!: kc.quiet_rules kc_string_op kc.quiet_simd_or_stop kc.quiet_conditional kc.quiet_x87)
  then show ?thesis
    by (auto simp: exec_def split: option.split intro!: kc.quiet_rules dest: kc.quiet_arm)
qed

text \<open>Everything but the repeat loop leaves the ticks of an unfinished string instruction alone.\<close>

definition same_partial :: "machine \<Rightarrow> machine \<Rightarrow> bool" where
  "same_partial s t \<longleftrightarrow> partial_ticks (fst t) = partial_ticks (fst s)"

interpretation pt: quiet_frame same_partial
  by unfold_locales (simp_all add: same_partial_def)

section \<open>The decode cache\<close>

text \<open>
  What the step relies on of the decoder: an instruction has between 1 and 16 bytes, all of them
  read, and its decoding does not look past them.
\<close>

definition decoder_local :: "decoder \<Rightarrow> bool" where
  "decoder_local dec \<longleftrightarrow> (\<forall>bs ip i. dec bs ip = Some i \<longrightarrow>
     0 < i_len i \<and> i_len i \<le> MAX_INSN \<and> i_len i \<le> length bs \<and>
     (\<forall>bs'. take (i_len i) bs' = take (i_len i) bs \<longrightarrow> dec bs' ip = Some i))"

text \<open>The decoding of the bytes in memory at an address.\<close>

definition decoded :: "decoder \<Rightarrow> mem \<Rightarrow> u32 \<Rightarrow> insn option" where
  "decoded dec m ip = dec (mapped_prefix (byte_at m) ip MAX_INSN) (ucast ip)"

text \<open>
  An entry of the current generation holds the decoding of the bytes in memory, and the pages
  of its first and last byte are marked executed. No entry is from a later generation.
\<close>

definition cache_inv :: "decoder \<Rightarrow> machine \<Rightarrow> bool" where
  "cache_inv dec s \<longleftrightarrow> mem_inv (snd s) \<and>
     (\<forall>k g ip i. cache (fst s) k = Some (g, ip, i) \<longrightarrow> g \<le> code_gen (snd s) \<and>
        (g = code_gen (snd s) \<longrightarrow> decoded dec (snd s) ip = Some i \<and>
           executed_at (snd s) (page_of ip) \<and> executed_at (snd s) (page_of (ip + of_nat (i_len i) - 1))))"

lemma mapped_prefix_length: "length (mapped_prefix f a n) \<le> n"
  by (induction n arbitrary: a) (auto split: option.splits)

lemma take_mapped_prefix: "take k (mapped_prefix f a n) = mapped_prefix f a (min k n)"
proof (induction n arbitrary: a k)
  case (Suc n)
  then show ?case by (cases k) (auto split: option.splits)
qed simp

lemma mapped_prefix_cong:
  "(\<And>j. j < n \<Longrightarrow> f (a + of_nat j) = g (a + of_nat j)) \<Longrightarrow> mapped_prefix f a n = mapped_prefix g a n"
proof (induction n arbitrary: a)
  case (Suc n)
  have "f a = g a" using Suc.prems [of 0] by simp
  moreover have "mapped_prefix f (a + 1) n = mapped_prefix g (a + 1) n"
    using Suc.prems [of "Suc j" for j] by (intro Suc.IH) (simp add: add_ac)
  ultimately show ?case by (simp split: option.split)
qed simp

text \<open>The bytes of an instruction of at most 16 bytes lie on the pages of its first and last byte.\<close>

lemma insn_pages:
  assumes "j < n" "n \<le> 16"
  shows "page_of (ip + of_nat j) = page_of ip \<or> page_of (ip + of_nat j) = page_of (ip + of_nat n - 1)"
proof (cases "page_off ip + j < PAGE_SIZE")
  case True
  then show ?thesis using same_page(1) by blast
next
  case False
  let ?b = "ip + of_nat j"
  obtain q where q: "unat ip = 4096 * q + page_off ip" "q < 1048576" by (rule addr_split)
  have lt: "page_off ip < 4096" using page_off_less [of ip] by (simp add: PAGE_SIZE_def)
  have j: "unat (of_nat j :: u32) = j" using assms by (intro unat_of_nat_lt) simp
  have "unat ?b = (unat ip + j) mod 4294967296" using j by (simp add: unat_word_ariths)
  then have "unat ?b mod 4096 = (unat ip + j) mod 4096"
    by (simp only: mod_mod_cancel [OF dvdI [of "4294967296 :: nat" 4096 1048576]] refl)
  also have "\<dots> = (page_off ip + j) mod 4096"
  proof -
    have "unat ip + j = 4096 * q + (page_off ip + j)" using q(1) by linarith
    then show ?thesis by (simp only: mod_mult_self4)
  qed
  also have "\<dots> = (page_off ip + j - 4096) mod 4096"
    using False by (intro le_mod_geq) (simp add: PAGE_SIZE_def)
  also have "\<dots> = page_off ip + j - 4096" using lt assms by (intro mod_less) linarith
  finally have off: "page_off ?b = page_off ip + j - 4096" by (simp only: page_off_mod [of ?b])
  have "page_off ?b + (n - 1 - j) < PAGE_SIZE"
    unfolding off using lt assms by (simp add: PAGE_SIZE_def)
  from same_page(1) [OF this] have "page_of (?b + of_nat (n - 1 - j)) = page_of ?b" .
  moreover have last: "?b + of_nat (n - 1 - j) = ip + of_nat n - 1"
    using assms by (simp add: of_nat_diff)
  ultimately have "page_of (ip + of_nat n - 1) = page_of ?b" by (simp only: last)
  then show ?thesis by simp
qed

lemma decoded_stable:
  assumes loc: "decoder_local dec" and dec: "decoded dec m ip = Some i"
    and bytes: "\<And>a. page_of a = page_of ip \<or> page_of a = page_of (ip + of_nat (i_len i) - 1) \<Longrightarrow>
      byte_at m' a = byte_at m a"
  shows "decoded dec m' ip = Some i"
proof -
  have len: "i_len i \<le> MAX_INSN" and ext: "\<And>bs'. take (i_len i) bs' =
      take (i_len i) (mapped_prefix (byte_at m) ip MAX_INSN) \<Longrightarrow> dec bs' (ucast ip) = Some i"
    using loc dec unfolding decoder_local_def decoded_def by blast+
  have "mapped_prefix (byte_at m') ip (i_len i) = mapped_prefix (byte_at m) ip (i_len i)"
    using insn_pages len by (intro mapped_prefix_cong bytes) (simp add: MAX_INSN_def)
  then show ?thesis unfolding decoded_def using len by (intro ext) (simp add: take_mapped_prefix min_absorb1)
qed

lemma code_frame_byte_at:
  assumes "code_frame m m'" "code_gen m' = code_gen m" "executed_at m (page_of a)"
  shows "byte_at m' a = byte_at m a"
proof -
  have "map_option p_bytes (page_at m' (page_of a)) = map_option p_bytes (page_at m (page_of a))"
    using assms by (simp add: code_frame_def)
  from arg_cong [OF this, of "map_option (\<lambda>bs. bs ! page_off a)"] show ?thesis
    by (simp add: byte_at_def option.map_comp o_def)
qed

lemma cache_inv_keeps:
  assumes loc: "decoder_local dec" and inv: "cache_inv dec s" and kc: "keeps_code s t"
  shows "cache_inv dec t"
proof -
  have fr: "code_frame (snd s) (snd t)" using inv kc by (simp add: cache_inv_def keeps_code_def)
  have "g \<le> code_gen (snd t) \<and> (g = code_gen (snd t) \<longrightarrow> decoded dec (snd t) ip = Some i \<and>
      executed_at (snd t) (page_of ip) \<and> executed_at (snd t) (page_of (ip + of_nat (i_len i) - 1)))"
    if "cache (fst t) k = Some (g, ip, i)" for k g ip i
  proof -
    have e: "cache (fst s) k = Some (g, ip, i)" using that kc by (simp add: keeps_code_def)
    then have le: "g \<le> code_gen (snd s)" using inv unfolding cache_inv_def by blast
    have mono: "code_gen (snd s) \<le> code_gen (snd t)" using fr by (simp add: code_frame_def)
    show ?thesis
    proof (intro conjI impI)
      show "g \<le> code_gen (snd t)" using le mono by simp
    next
      assume "g = code_gen (snd t)"
      then have g: "g = code_gen (snd s)" "code_gen (snd t) = code_gen (snd s)" using le mono by simp_all
      have "decoded dec (snd s) ip = Some i \<and> executed_at (snd s) (page_of ip) \<and>
          executed_at (snd s) (page_of (ip + of_nat (i_len i) - 1))"
        using inv e g(1) unfolding cache_inv_def by blast
      then have d: "decoded dec (snd s) ip = Some i" and x: "executed_at (snd s) (page_of ip)"
          "executed_at (snd s) (page_of (ip + of_nat (i_len i) - 1))" by blast+
      show "decoded dec (snd t) ip = Some i"
        by (rule decoded_stable [OF loc d]) (use code_frame_byte_at [OF fr g(2)] x in metis)
      show "executed_at (snd t) (page_of ip)" "executed_at (snd t) (page_of (ip + of_nat (i_len i) - 1))"
        using fr x unfolding code_frame_def by blast+
    qed
  qed
  then show ?thesis using fr unfolding cache_inv_def code_frame_def by blast
qed

text \<open>Decoding afresh: the decoding of the bytes in memory, and the new entry satisfies the invariant.\<close>

lemma fetch_fresh_result:
  assumes "mem_inv m"
  shows "fst (fetch_fresh dec (c, m)) =
    (if byte_at m (eip c) = None then Stopped (Fault \<lparr>f_addr = eip c, f_write = False\<rparr>)
     else case decoded dec m (eip c) of
       None \<Rightarrow> Stopped (Invalid (eip c))
     | Some i \<Rightarrow> if (of_nat (i_len i) :: u32) = 0 then Panicked else Done i)"
proof -
  obtain buf m1 where rc: "read_code m (eip c) MAX_INSN = (buf, m1)" by force
  have buf: "buf = mapped_prefix (byte_at m) (eip c) MAX_INSN"
    using read_code_spec [OF assms, of "eip c" MAX_INSN] rc by simp
  have "buf = [] \<longleftrightarrow> byte_at m (eip c) = None"
    unfolding buf by (simp add: MAX_INSN_def numeral_eq_Suc split: option.split)
  then show ?thesis
    by (simp add: fetch_fresh_def rc Let_def decoded_def buf split: option.split)
qed

lemma mapped_prefix_mapped: "j < length (mapped_prefix f a n) \<Longrightarrow> f (a + of_nat j) \<noteq> None"
proof (induction n arbitrary: a j)
  case (Suc n)
  then show ?case
  proof (cases j)
    case 0
    then show ?thesis using Suc.prems by (auto split: option.splits)
  next
    case (Suc k)
    then have "f (a + 1 + of_nat k) \<noteq> None" using Suc.prems by (intro Suc.IH) (auto split: option.splits)
    then show ?thesis using Suc by (simp add: add_ac)
  qed
qed simp

lemma mark_executed_at:
  assumes "mem_inv m" "byte_at m a \<noteq> None"
  shows "executed_at (mark_executed m a) (page_of a)"
  using assms(2) unfolding executed_at_def mark_executed_spec(5) [OF assms(1)] by (auto simp: byte_at_def)

lemma fetch_fresh_inv:
  assumes loc: "decoder_local dec" and inv: "cache_inv dec (c, m)"
  shows "cache_inv dec (snd (fetch_fresh dec (c, m)))"
proof -
  have minv: "mem_inv m" using inv by (simp add: cache_inv_def)
  obtain buf m1 where rc: "read_code m (eip c) MAX_INSN = (buf, m1)" by force
  have m1: "mem_inv m1" "same_mem m m1" and buf: "buf = mapped_prefix (byte_at m) (eip c) MAX_INSN"
    using read_code_spec [OF minv, of "eip c" MAX_INSN] rc by simp_all
  have step: "mem_step m m1" using step_read_code [of m "eip c" MAX_INSN] rc by simp
  have fr1: "code_frame m m1" by (rule mem_step_code_frame [OF step minv])
  have k1: "cache_inv dec (c, m1)"
    by (rule cache_inv_keeps [OF loc inv]) (simp add: keeps_code_def fr1)
  define m2 where "m2 = mark_executed m1 (eip c)"
  have fr2: "code_frame m1 m2" and inv2: "mem_inv m2"
    using mem_step_code_frame [OF step_executed m1(1)] mark_executed_spec(1) [OF m1(1)] by (simp_all add: m2_def)
  have k2: "cache_inv dec (c, m2)"
    by (rule cache_inv_keeps [OF loc k1]) (simp add: keeps_code_def fr2)
  show ?thesis
  proof (cases "buf = [] \<or> dec buf (ucast (eip c)) = None \<or>
      (\<exists>i. dec buf (ucast (eip c)) = Some i \<and> (of_nat (i_len i) :: u32) = 0)")
    case True
    then show ?thesis using k1 k2
      by (auto simp: fetch_fresh_def rc Let_def simp flip: m2_def split: option.split)
  next
    case False
    then obtain i where i: "buf \<noteq> []" "dec buf (ucast (eip c)) = Some i" "(of_nat (i_len i) :: u32) \<noteq> 0" by auto
    let ?e = "eip c + of_nat (i_len i) - 1"
    define m3 where "m3 = mark_executed m2 ?e"
    define c3 where "c3 = c\<lparr>cache := (cache c)(cache_index (eip c) \<mapsto> (code_generation m, eip c, i))\<rparr>"
    have eq: "snd (fetch_fresh dec (c, m)) = (c3, m3)"
      using i by (simp add: fetch_fresh_def rc Let_def m3_def c3_def flip: m2_def)
    have inv3: "mem_inv m3" and fr3: "code_frame m2 m3"
      using mem_step_code_frame [OF step_executed inv2] mark_executed_spec(1) [OF inv2] by (simp_all add: m3_def)
    have k3: "cache_inv dec (c, m3)"
      by (rule cache_inv_keeps [OF loc k2]) (simp add: keeps_code_def fr3)
    have gen: "code_gen m3 = code_gen m"
      using m1(2) by (simp add: m3_def m2_def mark_executed_spec inv2 m1(1) same_mem_def)
    have bytes: "byte_at m3 = byte_at m"
      using m1 by (simp add: m3_def m2_def mark_executed_spec inv2 [unfolded m2_def] same_mem_byte_at)
    have len: "i_len i \<le> length buf" "0 < i_len i" "i_len i \<le> 16"
      using loc i(2) unfolding decoder_local_def MAX_INSN_def by blast+
    have d: "decoded dec m3 (eip c) = Some i" using i(2) by (simp add: decoded_def bytes buf)
    have x: "executed_at m3 (page_of (eip c)) \<and> executed_at m3 (page_of ?e)"
    proof
      have e: "eip c + of_nat (i_len i - 1) = ?e" using len(2) by (simp add: of_nat_diff)
      have "i_len i - 1 < length (mapped_prefix (byte_at m) (eip c) MAX_INSN)"
        "0 < length (mapped_prefix (byte_at m) (eip c) MAX_INSN)" using len unfolding buf by linarith+
      from this [THEN mapped_prefix_mapped] have "byte_at m ?e \<noteq> None" "byte_at m (eip c) \<noteq> None"
        unfolding e by simp_all
      moreover have "byte_at m1 = byte_at m" by (rule same_mem_byte_at [OF m1(2)])
      ultimately have mapped: "byte_at m2 ?e \<noteq> None" "byte_at m1 (eip c) \<noteq> None"
        using mark_executed_spec(4) [OF m1(1)] by (simp_all add: m2_def)
      have "executed_at m2 (page_of (eip c))"
        using mark_executed_at [OF m1(1) mapped(2)] by (simp add: m2_def)
      then show "executed_at m3 (page_of (eip c))" using fr3 by (simp add: code_frame_def)
      show "executed_at m3 (page_of ?e)" unfolding m3_def by (rule mark_executed_at [OF inv2 mapped(1)])
    qed
    show ?thesis unfolding eq using k3 d x gen
      by (auto simp: cache_inv_def c3_def code_generation_def split: if_splits)
  qed
qed

lemma fetch_inv:
  assumes "decoder_local dec" "cache_inv dec s"
  shows "cache_inv dec (snd (fetch dec s))"
  using assms fetch_fresh_inv [of dec "fst s" "snd s"]
  by (auto simp: fetch_def split: option.split if_split)

lemma decoded_mapped:
  assumes "decoder_local dec" "decoded dec m ip = Some i"
  shows "byte_at m ip \<noteq> None" "(of_nat (i_len i) :: u32) \<noteq> 0"
proof -
  have len: "i_len i \<le> length (mapped_prefix (byte_at m) ip MAX_INSN)" "0 < i_len i" "i_len i \<le> 16"
    using assms unfolding decoder_local_def decoded_def MAX_INSN_def by blast+
  then have "0 < length (mapped_prefix (byte_at m) ip MAX_INSN)" by linarith
  from mapped_prefix_mapped [OF this] show "byte_at m ip \<noteq> None" by simp
  have "unat (of_nat (i_len i) :: u32) = i_len i" using len by (intro unat_of_nat_lt) simp
  then show "(of_nat (i_len i) :: u32) \<noteq> 0" using len(2) by auto
qed

lemma fetch_result:
  assumes loc: "decoder_local dec" and inv: "cache_inv dec (c, m)"
  shows "fst (fetch dec (c, m)) = fst (fetch_fresh dec (c, m))"
proof (cases "\<exists>i. cache c (cache_index (eip c)) = Some (code_gen m, eip c, i)")
  case True
  then obtain i where i: "cache c (cache_index (eip c)) = Some (code_gen m, eip c, i)" by blast
  then have d: "decoded dec m (eip c) = Some i" using inv by (simp add: cache_inv_def)
  then show ?thesis using i inv decoded_mapped [OF loc d]
    by (simp add: fetch_def code_generation_def cache_inv_def fetch_fresh_result)
qed (auto simp: fetch_def code_generation_def split: option.split)

lemma step_cache_inv:
  assumes loc: "decoder_local dec" and inv: "cache_inv dec s"
  shows "cache_inv dec (snd (step dec F s))"
proof -
  have keep: "cache_inv dec (snd (p t))" if "exec_rel keeps_code p" "cache_inv dec t" for p :: "'a exec" and t
    using that(1) by (intro cache_inv_keeps [OF loc that(2)]) (auto simp only: exec_rel_def)
  define t where "t = (fst s\<lparr>partial_ticks := 0\<rparr>, snd s)"
  have t: "cache_inv dec t" using inv by (simp add: t_def cache_inv_def)
  obtain r u where u: "fetch dec t = (r, u)" by (cases "fetch dec t")
  have uinv: "cache_inv dec u" using fetch_inv [OF loc t] u by simp
  have "cache_inv dec (snd ((then_x (put_x (advance i)) (exec F i)) u))" for i
    by (rule keep [OF _ uinv]) (intro kc.frame_then kc_put kc_exec, simp)
  then show ?thesis using u uinv
    by (cases r) (simp_all add: step_def then_x_def bind_x_def put_x_def flip: t_def)
qed

section \<open>Runs\<close>

text \<open>
  The machines a run reaches: from an empty cache, by steps, and by whatever the driver does to
  registers and memory between steps through the memory's own operations.
\<close>

inductive emu_reach :: "decoder \<Rightarrow> float_ops \<Rightarrow> machine \<Rightarrow> bool" for dec F where
  reach_start: "mem_inv m \<Longrightarrow> cache c = (\<lambda>_. None) \<Longrightarrow> emu_reach dec F (c, m)"
| reach_run: "emu_reach dec F s \<Longrightarrow> emu_reach dec F (snd (step dec F s))"
| reach_driver: "emu_reach dec F (c, m) \<Longrightarrow> mem_step\<^sup>*\<^sup>* m m' \<Longrightarrow> cache c' = cache c \<Longrightarrow> emu_reach dec F (c', m')"

lemma emu_reach_inv:
  assumes loc: "decoder_local dec" and "emu_reach dec F s"
  shows "cache_inv dec s"
  using assms(2)
proof induction
  case (reach_start m c)
  then show ?case by (simp add: cache_inv_def)
next
  case (reach_run s)
  then show ?case by (intro step_cache_inv loc)
next
  case (reach_driver c m m' c')
  then have "keeps_code (c, m) (c', m')"
    by (simp add: keeps_code_def mem_steps_code_frame)
  then show ?case by (rule cache_inv_keeps [OF loc reach_driver.IH])
qed

text \<open>
  C10. The decode cache is transparent on every run, self-modifying code included: the step
  executes the instruction that decoding the bytes now in memory at EIP gives, or stops with the
  fault or the invalid opcode that decoding afresh stops with. The decoder is one whose result
  depends on the instruction's own bytes only.
\<close>

theorem decode_cache_transparent:
  assumes "decoder_local dec" "emu_reach dec F (c, m)"
  shows "fst (fetch dec (c, m)) =
    (if byte_at m (eip c) = None then Stopped (Fault \<lparr>f_addr = eip c, f_write = False\<rparr>)
     else case decoded dec m (eip c) of None \<Rightarrow> Stopped (Invalid (eip c)) | Some i \<Rightarrow> Done i)"
proof -
  have inv: "cache_inv dec (c, m)" by (rule emu_reach_inv [OF assms])
  then have "mem_inv m" by (simp add: cache_inv_def)
  then show ?thesis
    using decoded_mapped(2) [OF assms(1)] fetch_result [OF assms(1) inv]
    by (auto simp: fetch_fresh_result split: option.split)
qed

text \<open>A decoder of the one-byte \<^verbatim>\<open>nop\<close>, and a run that has executed one.\<close>

definition nop_insn :: insn where
  "nop_insn = \<lparr>i_len = 1, i_mn = ''Nop'', i_ops = [OpNone, OpNone, OpNone], i_rep = False, i_repne = False,
     i_lock = False, i_osize = B4, i_addr16 = False\<rparr>"

definition nop_decoder :: decoder where
  "nop_decoder bs ip = (case bs of [] \<Rightarrow> None | b # _ \<Rightarrow> if b = 0x90 then Some nop_insn else None)"

lemma nop_decoder_local: "decoder_local nop_decoder"
proof -
  have "0 < i_len i \<and> i_len i \<le> MAX_INSN \<and> i_len i \<le> length bs \<and>
      (\<forall>bs'. take (i_len i) bs' = take (i_len i) bs \<longrightarrow> nop_decoder bs' ip = Some i)"
    if "nop_decoder bs ip = Some i" for bs ip i
  proof -
    from that obtain cs where bs: "bs = 0x90 # cs" and i: "i = nop_insn"
      by (auto simp: nop_decoder_def split: list.splits if_splits)
    have len: "i_len i = 1" using i by (simp add: nop_insn_def)
    have "nop_decoder bs' ip = Some i" if "take 1 bs' = take 1 bs" for bs'
      using that bs i by (cases bs') (simp_all add: nop_decoder_def)
    then show ?thesis using len bs by (simp add: MAX_INSN_def)
  qed
  then show ?thesis unfolding decoder_local_def by blast
qed

definition nop_start :: machine where
  "nop_start = (cpu_new\<lparr>eip := 0x1000\<rparr>, snd (write_u8 demo_mem 0x1000 0x90))"

theorem decode_cache_transparent_witness: "fst (fetch nop_decoder nop_start) = Done nop_insn"
proof -
  let ?c = "cpu_new\<lparr>eip := 0x1000\<rparr>" and ?m = "snd (write_u8 demo_mem 0x1000 0x90)"
  have "emu_reach nop_decoder undefined (?c, ?m)"
    by (rule reach_start [OF write_u8_view(3) [OF demo_mem_inv]]) (simp add: cpu_new_def)
  moreover have e: "eip ?c = 0x1000" by simp
  moreover note decode_cache_transparent [OF nop_decoder_local, of undefined ?c ?m]
  ultimately have eq: "fst (fetch nop_decoder nop_start) = (if byte_at ?m 0x1000 = None
      then Stopped (Fault \<lparr>f_addr = 0x1000, f_write = False\<rparr>)
      else case decoded nop_decoder ?m 0x1000 of None \<Rightarrow> Stopped (Invalid 0x1000) | Some i \<Rightarrow> Done i)"
    unfolding nop_start_def by (simp only: e)
  have byte: "byte_at ?m 0x1000 = Some 0x90"
    by (simp add: write_u8_view(2) [OF demo_mem_inv] demo_mem_byte page_of_def)
  have "decoded nop_decoder ?m 0x1000 = Some nop_insn"
    by (simp add: decoded_def MAX_INSN_def nop_decoder_def byte
        mapped_prefix.simps(2) [of _ _ "pred_numeral k" for k, folded numeral_eq_Suc])
  then show ?thesis by (simp add: eq byte)
qed

end
