(* ===== verification/Emu_NoPanic.thy ===== *)
theory Emu_NoPanic
  imports Emu_Frame
begin

text \<open>
  \<^verbatim>\<open>cpu.rs\<close> says of itself that every stop is a value, never a panic. This theory proves it for
  every instruction whose operands have the shape the decoder gives them: the checks the release
  profile makes (subtractions, shift amounts, divisors, slice bounds) always pass.
\<close>

section \<open>Executions that do not panic\<close>

definition no_panic :: "'a exec \<Rightarrow> bool" where
  "no_panic p \<longleftrightarrow> (\<forall>s. fst (p s) \<noteq> Panicked)"

lemma np_bind: "no_panic p \<Longrightarrow> (\<And>v. no_panic (f v)) \<Longrightarrow> no_panic (bind_x p f)"
  by (auto simp: no_panic_def bind_x_def split: prod.split outcome.split) (metis fst_conv)

lemma np_then: "no_panic p \<Longrightarrow> no_panic q \<Longrightarrow> no_panic (then_x p q)"
  by (simp add: then_x_def np_bind)

lemma np_pure:
  "no_panic (ret_x v)" "no_panic (stop_x e)" "no_panic (get_x f)" "no_panic (put_x h)"
  "no_panic (cpu_x k)" "no_panic (mem_x g)"
  by (auto simp: no_panic_def ret_x_def stop_x_def get_x_def put_x_def cpu_x_def mem_x_def
      split: prod.split sum.split)

lemma np_check: "b \<Longrightarrow> no_panic (check_x b)"
  by (simp add: no_panic_def check_x_def)

lemma np_try: "(\<And>c. k c \<noteq> None) \<Longrightarrow> no_panic (try_x k)"
  by (auto simp: no_panic_def try_x_def split: option.split)

lemma np_each: "(\<And>x. no_panic (f x)) \<Longrightarrow> no_panic (each_x f xs)"
  by (induction xs) (simp_all add: np_pure np_then)

lemma np_if: "(b \<Longrightarrow> no_panic p) \<Longrightarrow> (\<not> b \<Longrightarrow> no_panic q) \<Longrightarrow> no_panic (if b then p else q)"
  by simp

lemmas np_rules = np_bind np_then np_pure np_check np_each

lemma np_access:
  "no_panic (push32 v)" "no_panic pop32" "no_panic (push16 w)" "no_panic pop16"
  "no_panic (read_mem a n)" "no_panic (write_mem a n v)" "no_panic (unsupported i)"
  by (auto simp: push32_def pop32_def push16_def pop16_def read_mem_def write_mem_def unsupported_def
      intro!: np_rules)

lemma np_ops: "no_panic (read_op i k)" "no_panic (write_op i k v)"
  by (auto simp: read_op_def write_op_def split: opnd.split intro!: np_rules np_access)

section \<open>Well-formed instructions\<close>

text \<open>
  The shape of decoded operands: a wide memory operand has a positive width, a vector move's
  memory operand at most 16 bytes, and the lane shuffles that exist for XMM registers only name
  one.
\<close>

definition wf_opnd :: "opnd \<Rightarrow> bool" where
  "wf_opnd p = (case p of MemWide _ _ _ _ _ n _ \<Rightarrow> 0 < unat n | _ \<Rightarrow> True)"

definition wf_insn :: "insn \<Rightarrow> bool" where
  "wf_insn i \<longleftrightarrow> length (i_ops i) = 3 \<and> list_all wf_opnd (i_ops i) \<and>
     (i_mn i \<in> set simd_moves \<longrightarrow> mem_width i \<le> 16) \<and>
     (i_mn i \<in> {''Pshufd'', ''Pshufhw''} \<longrightarrow> is_xmm i 0)"

text \<open>A general-purpose read only succeeds on operands of 1 to 4 bytes.\<close>

lemma op_size_pos: "wf_insn i \<Longrightarrow> k < 3 \<Longrightarrow> 0 < op_size i k"
proof -
  assume "wf_insn i" "k < 3"
  then have "wf_opnd (i_ops i ! k)" by (simp add: wf_insn_def list_all_length)
  then show ?thesis by (auto simp: op_size_def size_bytes_def wf_opnd_def split: opnd.splits opsize.splits)
qed

lemma np_read_then:
  assumes "wf_insn i" "k < 3" and f: "\<And>v. 0 < op_size i k \<Longrightarrow> op_size i k \<le> 4 \<Longrightarrow> no_panic (f v)"
  shows "no_panic (bind_x (read_op i k) f)"
proof (cases "op_size i k \<le> 4")
  case True
  then show ?thesis using op_size_pos [OF assms(1,2)] by (intro np_bind np_ops f)
next
  case False
  then have "read_op i k = unsupported i"
    by (auto simp: read_op_def op_size_def size_bytes_def split: opnd.splits opsize.splits)
  then show ?thesis by (auto simp: no_panic_def bind_x_def unsupported_def get_x_def stop_x_def)
qed

section \<open>The arms\<close>

lemma np_move: "arm_move i = Some p \<Longrightarrow> no_panic p"
  by (auto simp: arm_move_def exec_mov_def exec_movzx_def exec_movsx_def exec_lea_def exec_xchg_def
      exec_xadd_def exec_cmpxchg_def exec_bswap_def Let_def split: if_splits intro!: np_rules np_ops)

lemma np_stack: "arm_stack i = Some p \<Longrightarrow> no_panic p"
  by (auto simp: arm_stack_def exec_push_def exec_pop_def exec_pushad_def exec_pusha_def exec_popad_def
      exec_popa_def exec_pushfd_def exec_pushf_def exec_popfd_def exec_popf_def exec_leave_def exec_enter_def
      push_reg32_def push_reg16_def pop_reg32_def pop_reg16_def enter_level_def Let_def
      split: if_splits intro!: np_rules np_ops np_access)

lemma np_mul: "wf_insn i \<Longrightarrow> no_panic (exec_mul i)"
  unfolding exec_mul_def Let_def
  by (intro np_bind [OF np_pure(3)] np_read_then np_then np_pure np_check) simp_all

lemma np_idiv: "wf_insn i \<Longrightarrow> no_panic (exec_idiv i)"
  unfolding exec_idiv_def Let_def
  by (intro np_read_then np_if) (auto split: option.split intro!: np_rules)

lemma np_alu: "wf_insn i \<Longrightarrow> arm_alu i = Some p \<Longrightarrow> no_panic p"
  by (auto simp: arm_alu_def exec_alu_def exec_incdec_def exec_neg_def exec_not_def
      exec_imul1_def exec_imul_def exec_div_def Let_def
      split: if_splits intro!: np_mul np_idiv np_rules np_ops)

text \<open>
  A shift by 1 to 31 of an operand of 1 to 4 bytes never subtracts below zero nor shifts too far; a
  count of 0, which the instruction returns on before it gets here, would.
\<close>

lemma chk_Some [simp]:
  "b \<le> a \<Longrightarrow> chk_sub a b = Some (a - b)" "0 < b \<Longrightarrow> chk_rem a b = Some (a mod b)"
  "k < 32 \<Longrightarrow> chk_shl v k = Some (push_bit k v)" "k < 32 \<Longrightarrow> chk_shr v k = Some (drop_bit k v)"
  by (simp_all add: chk_sub_def chk_rem_def chk_shl_def chk_shr_def)

lemma shift_results_Some:
  assumes "0 < count" "count < 32" "0 < n" "n \<le> 4"
  shows "shl_result v count n c \<noteq> None" "shr_result v count n c \<noteq> None" "sar_result v count n c \<noteq> None"
    "rc_result left v count n c \<noteq> None"
proof -
  have "n * 8 - min count (n * 8) < 32" "n * 8 < 64" "n * 8 + 1 < 64" "1 \<le> min count 31" "1 \<le> count" "count - 1 < 32"
    using assms by auto
  then show "shl_result v count n c \<noteq> None" "shr_result v count n c \<noteq> None" "sar_result v count n c \<noteq> None"
    "rc_result left v count n c \<noteq> None"
    by (simp_all only: shl_result_def shr_result_def sar_result_def rc_result_def Let_def chk_Some min.cobounded2 simp_thms
        Option.bind.simps if_cancel option.distinct if_True if_distrib [of "\<lambda>x. Option.bind x f" for f] split: if_split)
qed

lemma rotate_results_Some:
  assumes "count < 32" "0 < n" "n \<le> 4"
  shows "rol_result v count n c \<noteq> None" "ror_result v count n c \<noteq> None"
proof -
  let ?k = "count mod (n * 8)"
  have k: "?k < 32" "?k \<le> n * 8" "0 < n * 8" "2 \<le> n * 8" "n * 8 - 2 < 32"
    using assms mod_less_divisor [of "n * 8" count] mod_less_eq_dividend [of count "n * 8"] by linarith+
  have j: "?k \<noteq> 0 \<Longrightarrow> n * 8 - ?k < 32" using assms(3) by linarith
  show "rol_result v count n c \<noteq> None" "ror_result v count n c \<noteq> None"
    using k j by (cases "?k = 0"; cases "count = 1"; simp only: rol_result_def ror_result_def Let_def chk_Some simp_thms
        Option.bind.simps if_True if_False option.distinct not_False_eq_True)+
qed

lemma shift_result_Some:
  assumes "0 < count" "count < 32" "0 < n" "n \<le> 4"
  shows "shift_result m v count n c \<noteq> None"
  unfolding shift_result_def using shift_results_Some [OF assms] rotate_results_Some [OF assms(2-4)]
  by (simp only: split: if_split) blast

lemma count_bound: "unat (raw AND 0x1F) < 32" for raw :: u32
proof -
  have "raw AND 0x1F \<le> 0x1F" by (rule word_and_le1)
  then show ?thesis by (simp add: word_le_nat_alt)
qed

lemma np_shift: "wf_insn i \<Longrightarrow> no_panic (exec_shift i)"
  unfolding exec_shift_def Let_def
  by (intro np_bind np_if np_read_then np_try shift_result_Some np_ops np_then np_pure) (simp_all add: count_bound)

lemma shd_result_Some:
  assumes "0 < count" "count < n * 8" "n \<le> 4"
  shows "shd_result left dst src count n \<noteq> None"
  using assms by (auto simp: shd_result_def chk_sub_def chk_shl_def chk_shr_def Let_def)

lemma np_shd: "wf_insn i \<Longrightarrow> no_panic (exec_shd i)"
  unfolding exec_shd_def Let_def
  by (intro np_read_then np_bind np_if np_try np_ops np_pure) (simp_all add: shd_result_Some)

lemma leading_zeros_bound: "v \<noteq> 0 \<Longrightarrow> leading_zeros v \<le> 31"
proof -
  assume "v \<noteq> 0"
  then obtain k where "bit v k" by (auto simp: bit_eq_iff)
  then have "\<exists>k \<in> set (rev [0..<32]). \<not> \<not> bit v k" using bit_imp_le_length [of v k] by auto
  then have "takeWhile (\<lambda>k. \<not> bit v k) (rev [0..<32]) \<noteq> rev [0..<32]" by (metis takeWhile_eq_all_conv)
  then have "leading_zeros v \<noteq> 32"
    unfolding leading_zeros_def by (metis takeWhile_eq_take take_all_iff length_rev length_upt diff_zero order_refl)
  moreover have "leading_zeros v \<le> 32"
    unfolding leading_zeros_def by (metis length_takeWhile_le length_rev length_upt diff_zero)
  ultimately show ?thesis by simp
qed

lemma np_bs: "no_panic (exec_bs i)"
  unfolding exec_bs_def Let_def
  by (intro np_bind np_then np_if np_try np_ops np_pure) (simp add: leading_zeros_bound)

lemma np_bt: "wf_insn i \<Longrightarrow> no_panic (exec_bt i)"
proof -
  assume wf: "wf_insn i"
  have pos: "0 < op_size i 0" by (rule op_size_pos [OF wf]) simp
  have small: "op_size i 0 \<le> 4" if "is_mem i 0"
    using that by (auto simp: is_mem_def is_mem_op_def op_size_def size_bytes_def split: opnd.splits opsize.splits)
  have s: "nat (x mod (int (op_size i 0) * 8)) < 32" if "is_mem i 0" for x
    using small [OF that] pos pos_mod_bound [of "int (op_size i 0) * 8" x] by linarith
  have u: "k mod (op_size i 0 * 8) < 32" if "op_size i 0 \<le> 4" for k
    using that pos mod_less_divisor [of "op_size i 0 * 8" k] by linarith
  show ?thesis unfolding exec_bt_def Let_def
    by (rule np_bind [OF np_ops(1)], intro np_then np_check np_if np_bind [OF np_pure(3)] np_bind [OF np_access(5)]
        np_read_then np_ops np_pure np_access) (simp_all add: s u pos wf)
qed

lemma np_bits: "wf_insn i \<Longrightarrow> arm_bits i = Some p \<Longrightarrow> no_panic p"
  by (auto simp: arm_bits_def Let_def split: if_splits intro!: np_shift np_shd np_bt np_bs)

lemma np_flags: "arm_flags i = Some p \<Longrightarrow> no_panic p"
  by (auto simp: arm_flags_def exec_xlatb_def Let_def split: if_splits intro!: np_rules)

lemma np_flow: "arm_flow ip i = Some p \<Longrightarrow> no_panic p"
  by (auto simp: arm_flow_def exec_jmp_def exec_call_def exec_ret_def Let_def
      split: if_splits opnd.split intro!: np_rules np_ops np_access)

lemma np_misc: "arm_misc ip i = Some p \<Longrightarrow> no_panic p"
  by (auto simp: arm_misc_def exec_crc32_def exec_aam_aad_def Let_def split_beta
      split: if_splits intro!: np_rules np_ops)

lemma np_arm: "wf_insn i \<Longrightarrow> exec_arm ip i = Some p \<Longrightarrow> no_panic p"
  by (auto simp: exec_arm_def split: option.splits
      dest: np_move np_stack np_alu np_bits np_flags np_flow np_misc)

section \<open>String, vector and x87 instructions\<close>

lemma np_string_one: "no_panic (string_one kind n delta)"
  by (cases kind) (auto simp: string_one_def split_beta intro!: np_rules np_access)

lemma np_string_loop: "fst (string_loop kind n delta repeat repne ticks s) \<noteq> Panicked"
proof (induction kind n delta repeat repne ticks s rule: string_loop.induct)
  case (1 kind n delta repeat repne ticks s)
  obtain r c m where one: "string_one kind n delta s = (r, c, m)" by (cases "string_one kind n delta s") auto
  have "r \<noteq> Panicked" using np_string_one [of kind n delta] one unfolding no_panic_def by (metis fst_conv)
  then show ?case
  proof (cases r)
    case (Done u)
    show ?thesis using "1.IH" [OF _ one [symmetric] Done refl] one Done
      by (subst string_loop.simps) (auto simp: Let_def)
  qed (use one in \<open>subst string_loop.simps, auto\<close>)+
qed

lemma np_string_op: "no_panic (string_op i)"
proof -
  have "no_panic (string_loop kind n delta repeat repne ticks)" for kind n delta repeat repne ticks
    by (simp add: no_panic_def np_string_loop)
  then show ?thesis by (auto simp: string_op_def split: option.split intro!: np_rules)
qed

lemma np_read_simd: "n \<le> 16 \<Longrightarrow> no_panic (read_simd i k n)"
  by (auto simp: read_simd_def split: opnd.split intro!: np_rules np_access)

lemma np_write_simd: "no_panic (write_simd i k bs)"
  by (auto simp: write_simd_def split: opnd.split intro!: np_rules np_access)

lemma np_simd_move: "wf_insn i \<Longrightarrow> i_mn i \<in> set simd_moves \<Longrightarrow> no_panic (simd_move i)"
proof -
  assume "wf_insn i" "i_mn i \<in> set simd_moves"
  then have "move_width i \<le> 16"
    by (auto simp: move_width_def wf_insn_def simd_width_def min_def split: opnd.split)
  then show ?thesis
    by (auto simp: simd_move_def Let_def split: opnd.split bool.split intro!: np_rules np_read_simd np_write_simd)
qed

lemma shuffle_pick_less: "shuffle_pick order lane \<le> 3"
proof -
  have "drop_bit (lane * 2) order AND 3 = take_bit 2 (drop_bit (lane * 2) order)"
    by (simp add: take_bit_eq_mask mask_eq_exp_minus_1)
  then have "unat (drop_bit (lane * 2) order AND 3) < 4"
    by (simp add: take_bit_eq_mod unat_mod)
  then show ?thesis by (simp add: shuffle_pick_def)
qed

lemma np_simd_shuffle: "wf_insn i \<Longrightarrow> no_panic (simd_shuffle i)"
proof -
  assume wf: "wf_insn i"
  let ?order = "ucast (imm i 2) :: u8" and ?unit = "if i_mn i = ''Pshufd'' then 4 else 2 :: nat"
    and ?base = "if i_mn i = ''Pshufhw'' then 8 else 0 :: nat"
  have "?base + shuffle_pick ?order lane * ?unit + ?unit \<le> vector_bytes i" for lane
    using shuffle_pick_less [of ?order lane] wf by (auto simp: vector_bytes_def wf_insn_def)
  moreover have "vector_bytes i \<le> 16" by (simp add: vector_bytes_def)
  ultimately show ?thesis unfolding simd_shuffle_def Let_def
    by (intro np_rules np_read_simd np_write_simd) (auto simp: list_all_iff simp del: upt_rec_numeral)
qed

lemma np_simd: "wf_insn i \<Longrightarrow> no_panic (simd i)"
proof -
  assume wf: "wf_insn i"
  have v: "vector_bytes i \<le> 16" by (simp add: vector_bytes_def)
  show ?thesis unfolding simd_def simd_byte_shift_def simd_unpack_def simd_lanes_def Let_def using wf v
    by (intro np_if np_rules np_simd_move np_simd_shuffle np_read_simd np_write_simd) simp_all
qed

lemma np_float: "no_panic (read_u64_halves a)" "no_panic (read_float F a n)" "no_panic (write_float F a n v)"
  by (auto simp: read_u64_halves_def read_float_def write_float_def Let_def split_beta intro!: np_rules)

lemma np_x87_ops:
  "no_panic (x87_fld F i)" "no_panic (x87_fild F i)" "no_panic (x87_fst F i)" "no_panic (x87_fist F i)"
  "no_panic (x87_fnstenv i)" "no_panic (x87_load_cw i)" "no_panic (x87_fnstcw i)" "no_panic (x87_fnstsw i)"
  "no_panic (x87_arith F i)"
  by (auto simp: x87_fld_def x87_fild_def x87_fst_def x87_fist_def x87_fnstenv_def x87_load_cw_def
      x87_fnstcw_def x87_fnstsw_def x87_arith_def Let_def split_beta split: opnd.split intro!: np_rules np_float)

lemma np_x87: "no_panic (x87 F i)"
  unfolding x87_def Let_def by (intro np_rules np_if np_x87_ops)

lemma np_conditional: "no_panic (conditional i b)"
  by (auto simp: conditional_def intro!: np_rules np_ops)

lemma np_exec: "wf_insn i \<Longrightarrow> no_panic (exec F i)"
proof -
  assume wf: "wf_insn i"
  have so: "no_panic (simd_or_stop ip i)" for ip
    using np_simd [OF wf] by (auto simp: simd_or_stop_def intro!: np_rules)
  then have "no_panic (exec_string ip i)" "no_panic (exec_other F ip i)" for ip
    by (auto simp: exec_string_def exec_other_def split: option.split
        intro!: np_rules np_string_op np_conditional np_x87)
  then show ?thesis
    using np_arm [OF wf] by (auto simp: exec_def split: option.split intro!: np_rules)
qed

lemma step_no_panic:
  assumes "\<And>bs ip i. dec bs ip = Some i \<Longrightarrow> wf_insn i \<and> 0 < i_len i \<and> i_len i \<le> MAX_INSN"
    and "\<And>k g ip i. cache (fst s) k = Some (g, ip, i) \<Longrightarrow> wf_insn i"
  shows "fst (step dec F s) \<noteq> Panicked"
proof -
  define t where "t = (fst s\<lparr>partial_ticks := 0\<rparr>, snd s)"
  have nz: "(of_nat (i_len i) :: u32) \<noteq> 0" if "dec bs ip = Some i" for bs ip i
  proof -
    have "0 < i_len i" "i_len i \<le> 16" using assms(1) [OF that] by (simp_all add: MAX_INSN_def)
    then have "unat (of_nat (i_len i) :: u32) = i_len i" by (intro unat_of_nat_lt) simp
    then show ?thesis using \<open>0 < i_len i\<close> by auto
  qed
  have fresh: "fst (fetch_fresh dec t) \<noteq> Panicked \<and> (\<forall>i. fst (fetch_fresh dec t) = Done i \<longrightarrow> wf_insn i)"
    using assms(1) nz by (auto simp: fetch_fresh_def Let_def split_beta split: option.split)
  have "fst (fetch dec t) \<noteq> Panicked \<and> (\<forall>i. fst (fetch dec t) = Done i \<longrightarrow> wf_insn i)"
    using fresh assms(2) by (auto simp: fetch_def t_def split: option.splits)
  moreover obtain r u where u: "fetch dec t = (r, u)" by (cases "fetch dec t")
  ultimately have "r \<noteq> Panicked" "\<And>i. r = Done i \<Longrightarrow> wf_insn i" by simp_all
  moreover have "fst (then_x (put_x (advance i)) (exec F i) u) \<noteq> Panicked" if "wf_insn i" for i
    using np_then [OF np_pure(4) np_exec [OF that], of "advance i" F] unfolding no_panic_def by blast
  ultimately show ?thesis using u
    by (cases r) (simp_all add: step_def then_x_def bind_x_def put_x_def flip: t_def)
qed

text \<open>
  C16. No step of the emulator panics: given a decoder that returns well-formed instructions of
  1 to 16 bytes, and a decode cache that holds only such, fetching and executing an instruction in any
  such state ends with a value or with a stop. What is checked is what the code checks: subtractions,
  shift amounts and remainders of the shifts, rotates and bit tests, divisors, and slice bounds.
\<close>

theorem step_never_panics:
  assumes "\<And>bs ip i. dec bs ip = Some i \<Longrightarrow> wf_insn i \<and> 0 < i_len i \<and> i_len i \<le> MAX_INSN"
    and "\<And>k g ip i. cache (fst s) k = Some (g, ip, i) \<Longrightarrow> wf_insn i"
  shows "fst (step dec F s) \<noteq> Panicked"
  by (rule step_no_panic [OF assms])

theorem step_never_panics_witness: "fst (step nop_decoder undefined nop_start) \<noteq> Panicked"
proof (rule step_never_panics)
  have "mem_width nop_insn = 4" by (simp add: nop_insn_def mem_width_def)
  then have "wf_insn nop_insn" by (simp add: wf_insn_def nop_insn_def wf_opnd_def simd_moves_def)
  moreover have "i_len nop_insn = 1" by (simp add: nop_insn_def)
  ultimately show "wf_insn i \<and> 0 < i_len i \<and> i_len i \<le> MAX_INSN" if "nop_decoder bs ip = Some i" for bs ip i
    using that by (auto simp: nop_decoder_def MAX_INSN_def split: list.splits if_splits)
  show "wf_insn i" if "cache (fst nop_start) k = Some (g, ip, i)" for k g ip i
    using that by (simp add: nop_start_def cpu_new_def)
qed

end
