(* ===== verification/Emu_Stack.thy ===== *)
theory Emu_Stack
  imports Emu_Step
begin

text \<open>
  The emulated stack: words pushed and popped through the paged memory, the register and flag
  images that \<^verbatim>\<open>pushad\<close> and \<^verbatim>\<open>pushfd\<close> leave on it, and the return address of a call. The state
  predicate \<open>stack\<close> names the words above ESP and the mapped room below it.
\<close>

section \<open>Words in memory\<close>

definition word_at :: "mem \<Rightarrow> u32 \<Rightarrow> u32 option" where
  "word_at m a = (case bytes_at (byte_at m) a 4 of None \<Rightarrow> None | Some bs \<Rightarrow> Some (from_le bs))"

lemma word_at_iff: "word_at m a = Some v \<longleftrightarrow> bytes_at (byte_at m) a 4 = Some (to_le 4 v)"
proof (cases "bytes_at (byte_at m) a 4")
  case (Some bs)
  then have "to_le 4 (from_le bs :: u32) = bs" using bytes_at_length [OF Some] by (intro to_from_le) simp_all
  moreover have "from_le (to_le 4 v) = v" by (rule from_to_le) simp
  ultimately show ?thesis using Some by (auto simp: word_at_def)
qed (simp add: word_at_def)

lemma word_at_read: "mem_inv m \<Longrightarrow> word_at m a = Some v \<longleftrightarrow> fst (read_u32 m a) = Inr v"
  by (simp add: word_at_iff read_u32_bytes)

lemma word_at_cong: "byte_at m' = byte_at m \<Longrightarrow> word_at m' = word_at m"
  by (rule ext) (simp only: word_at_def)

lemma bytes_at_far:
  assumes "4 \<le> unat (b - a)" "4 \<le> unat (a - b)"
  shows "bytes_at (put_bytes f a (to_le 4 (v :: u32))) b 4 = bytes_at f b 4"
proof -
  have "put_bytes f a (to_le 4 v) (b + of_nat i) = f (b + of_nat i)" if "i < 4" for i
    using far_add [OF assms that] by (intro put_bytes_far) simp_all
  then show ?thesis by (simp add: bytes_at_eq)
qed

section \<open>Stack states\<close>

definition room :: "mem \<Rightarrow> u32 \<Rightarrow> nat \<Rightarrow> bool" where
  "room m sp n \<longleftrightarrow> (\<forall>j < 4 * n. byte_at m (sp - 1 - of_nat j) \<noteq> None)"

definition words :: "mem \<Rightarrow> u32 \<Rightarrow> u32 list \<Rightarrow> bool" where
  "words m sp vs \<longleftrightarrow> (\<forall>k < length vs. word_at m (sp + 4 * of_nat k) = Some (vs ! k))"

definition stack :: "machine \<Rightarrow> nat \<Rightarrow> u32 list \<Rightarrow> bool" where
  "stack s n vs \<longleftrightarrow> mem_inv (snd s) \<and> room (snd s) (reg (fst s) ESP) n \<and> words (snd s) (reg (fst s) ESP) vs"

lemma words_Cons:
  "words m sp (v # vs) \<longleftrightarrow> word_at m sp = Some v \<and> words m (sp + 4) vs"
  by (auto simp: words_def All_less_Suc2 algebra_simps)

lemma room_block: "room m sp (Suc n) \<Longrightarrow> bytes_at (byte_at m) (sp - 4) 4 \<noteq> None"
proof -
  assume r: "room m sp (Suc n)"
  have "byte_at m (sp - 4 + of_nat i) \<noteq> None" if "i < 4" for i
  proof -
    have "3 - i < 4 * Suc n" by simp
    then have "byte_at m (sp - 1 - of_nat (3 - i)) \<noteq> None" using r unfolding room_def by blast
    moreover have "sp - 1 - of_nat (3 - i) = sp - 4 + of_nat i" using that by (simp add: of_nat_diff)
    ultimately show ?thesis by simp
  qed
  then show ?thesis by (simp add: bytes_at_eq)
qed

lemma room_less: "room m sp (Suc n) \<Longrightarrow> room m (sp - 4) n"
proof -
  assume r: "room m sp (Suc n)"
  have "byte_at m (sp - 4 - 1 - of_nat j) \<noteq> None" if "j < 4 * n" for j
  proof -
    have "byte_at m (sp - 1 - of_nat (j + 4)) \<noteq> None"
      using r that unfolding room_def by (metis add.commute add_less_cancel_right mult_Suc_right)
    then show ?thesis by (simp add: algebra_simps)
  qed
  then show ?thesis by (simp add: room_def)
qed

lemma far_word:
  fixes sp :: u32
  assumes "k < 2 ^ 29"
  shows "4 \<le> unat (sp + 4 * of_nat k - (sp - 4))" "4 \<le> unat (sp - 4 - (sp + 4 * of_nat k))"
proof -
  let ?d = "of_nat (4 * (k + 1)) :: u32"
  have lt: "4 * (k + 1) < 2 ^ 32" using assms by simp
  then have u: "unat ?d = 4 * (k + 1)" by (intro unat_of_nat_lt) simp
  have e: "sp + 4 * of_nat k - (sp - 4) = ?d" "sp - 4 - (sp + 4 * of_nat k) = - ?d" by (simp_all add: algebra_simps)
  show "4 \<le> unat (sp + 4 * of_nat k - (sp - 4))" unfolding e(1) u by simp
  have "?d \<noteq> 0" using u by (metis Suc_eq_plus1 mult_is_0 nat.distinct(1) unsigned_0 zero_neq_numeral)
  then have "unat (- ?d) = 2 ^ 32 - 4 * (k + 1)" using unat_uminus u by metis
  then show "4 \<le> unat (sp - 4 - (sp + 4 * of_nat k))" unfolding e(2) using assms by simp
qed

lemma push32_stack:
  assumes st: "stack (c, m) (Suc n) vs" and len: "length vs < 2 ^ 29"
  obtains m' where "push32 v (c, m) = (Done (), set_reg ESP (reg c ESP - 4) c, m')"
    "stack (set_reg ESP (reg c ESP - 4) c, m') n (v # vs)"
proof -
  let ?sp = "reg c ESP"
  have inv: "mem_inv m" and room: "room m ?sp (Suc n)" and ws: "words m ?sp vs" using st by (simp_all add: stack_def)
  obtain r m' where w: "write_u32 m (?sp - 4) v = (r, m')" by force
  have spec: "mem_inv m'" "r = Inr ()" "byte_at m' = put_bytes (byte_at m) (?sp - 4) (to_le 4 v)"
    using write_bytes_spec [OF inv, of "?sp - 4" "to_le 4 v"] room_block [OF room] w
    by (simp_all add: write_u32_def write_frame_def)
  have "push32 v (c, m) = (Done (), set_reg ESP (?sp - 4) c, m')"
    using w spec(2) by (simp add: push32_def bind_x_def then_x_def get_x_def put_x_def mem_x_def)
  moreover have "word_at m' (?sp - 4) = Some v"
    using bytes_at_put_bytes [of "to_le 4 v" "byte_at m" "?sp - 4"] by (simp add: word_at_iff spec(3))
  moreover have "word_at m' (?sp + 4 * of_nat k) = word_at m (?sp + 4 * of_nat k)" if "k < length vs" for k
    using bytes_at_far [OF far_word, of k] that len by (simp add: word_at_def spec(3))
  moreover have "room m' (?sp - 4) n"
  proof -
    have "byte_at m' x \<noteq> None" if "byte_at m x \<noteq> None" for x
      using that by (simp add: spec(3) put_bytes_eq)
    then show ?thesis using room_less [OF room] by (simp add: room_def)
  qed
  ultimately show ?thesis using that ws spec(1)
    by (auto simp: stack_def words_Cons) (auto simp: words_def)
qed

lemma pop32_stack:
  assumes st: "stack (c, m) n (v # vs)"
  obtains m' where "pop32 (c, m) = (Done v, set_reg ESP (reg c ESP + 4) c, m')"
    "stack (set_reg ESP (reg c ESP + 4) c, m') 0 vs" "byte_at m' = byte_at m"
proof -
  let ?sp = "reg c ESP"
  have inv: "mem_inv m" and w: "word_at m ?sp = Some v" and ws: "words m (?sp + 4) vs"
    using st by (simp_all add: stack_def words_Cons)
  obtain r m' where rd: "read_u32 m ?sp = (r, m')" by force
  have r: "r = Inr v" using w rd by (simp add: word_at_read [OF inv])
  have inv': "mem_inv m'" using read_u32_inv [OF inv, of ?sp] rd by simp
  have "same_mem m m'"
    using read_into_spec [OF inv, of "replicate 4 0" ?sp] rd
    by (auto simp: read_u32_def split: prod.splits sum.splits)
  then have b: "byte_at m' = byte_at m" by (rule same_mem_byte_at)
  have "pop32 (c, m) = (Done v, set_reg ESP (?sp + 4) c, m')"
    using rd r by (simp add: pop32_def bind_x_def then_x_def get_x_def put_x_def mem_x_def ret_x_def)
  moreover have "stack (set_reg ESP (?sp + 4) c, m') 0 vs"
    using inv' ws word_at_cong [OF b] by (simp add: stack_def room_def words_def)
  ultimately show ?thesis using that b by blast
qed

lemma push_reg32_stack:
  assumes "stack (c, m) (Suc n) vs" "length vs < 2 ^ 29"
  obtains m' where "push_reg32 r (c, m) = (Done (), set_reg ESP (reg c ESP - 4) c, m')"
    "stack (set_reg ESP (reg c ESP - 4) c, m') n (reg c r # vs)"
  using push32_stack [OF assms, of "reg c r"] by (auto simp: push_reg32_def bind_x_def get_x_def)

lemma pop_reg32_stack:
  assumes "stack (c, m) n (v # vs)" "r \<noteq> ESP"
  obtains m' where "pop_reg32 r (c, m) = (Done (), set_reg r v (set_reg ESP (reg c ESP + 4) c), m')"
    "stack (set_reg r v (set_reg ESP (reg c ESP + 4) c), m') 0 vs"
proof -
  obtain m' where m': "pop32 (c, m) = (Done v, set_reg ESP (reg c ESP + 4) c, m')"
    "stack (set_reg ESP (reg c ESP + 4) c, m') 0 vs" by (rule pop32_stack [OF assms(1)])
  show ?thesis using m' assms(2) by (intro that [of m']) (simp_all add: pop_reg32_def bind_x_def put_x_def stack_def)
qed

lemma set_reg_twice [simp]: "set_reg r v (set_reg r w c) = set_reg r v c"
  by (simp add: set_reg_def)

lemma set_reg_id [simp]: "set_reg r (reg c r) c = c"
  by (simp add: set_reg_def reg_def)

text \<open>Runs of register pushes and pops.\<close>

lemma push_regs_stack:
  assumes "stack (c, m) (length rs + n) vs" "length vs + length rs < 2 ^ 29" "ESP \<notin> set rs"
  shows "\<exists>m'. each_x push_reg32 rs (c, m) = (Done (), set_reg ESP (reg c ESP - 4 * of_nat (length rs)) c, m') \<and>
    stack (set_reg ESP (reg c ESP - 4 * of_nat (length rs)) c, m') n (rev (map (reg c) rs) @ vs)"
  using assms
proof (induction rs arbitrary: c m vs)
  case Nil
  then show ?case by (auto simp: ret_x_def stack_def)
next
  case (Cons r rs)
  let ?c = "set_reg ESP (reg c ESP - 4) c"
  have "stack (c, m) (Suc (length rs + n)) vs" "length vs < 2 ^ 29" using Cons.prems by simp_all
  then obtain m1 where m1: "push_reg32 r (c, m) = (Done (), ?c, m1)"
      "stack (?c, m1) (length rs + n) (reg c r # vs)"
    by (rule push_reg32_stack)
  have same: "map (reg ?c) rs = map (reg c) rs" using Cons.prems(3) by (intro map_cong) auto
  have sp: "reg ?c ESP - 4 * of_nat (length rs) = reg c ESP - 4 * of_nat (length (r # rs))"
    by (simp add: algebra_simps)
  have "length (reg c r # vs) + length rs < 2 ^ 29" "ESP \<notin> set rs" using Cons.prems by simp_all
  from Cons.IH [OF m1(2) this, unfolded same sp] obtain m' where
    "each_x push_reg32 rs (?c, m1) = (Done (), set_reg ESP (reg c ESP - 4 * of_nat (length (r # rs))) c, m')"
    "stack (set_reg ESP (reg c ESP - 4 * of_nat (length (r # rs))) c, m') n (rev (map (reg c) rs) @ reg c r # vs)"
    by (auto simp only: set_reg_twice)
  then show ?case using m1(1) by (auto simp: then_x_def bind_x_def)
qed

lemma pop_regs_stack:
  assumes "stack (c, m) n (ws @ vs)" "length ws = length rs" "ESP \<notin> set rs" "distinct rs"
  shows "\<exists>m' c'. each_x pop_reg32 rs (c, m) = (Done (), c', m') \<and> stack (c', m') 0 vs \<and>
    reg c' ESP = reg c ESP + 4 * of_nat (length rs) \<and> (\<forall>k < length rs. reg c' (rs ! k) = ws ! k) \<and>
    (\<forall>q. q \<notin> set rs \<longrightarrow> q \<noteq> ESP \<longrightarrow> reg c' q = reg c q)"
  using assms
proof (induction rs arbitrary: c m ws n)
  case Nil
  then show ?case by (auto simp: ret_x_def stack_def room_def)
next
  case (Cons r rs)
  then obtain w ws' where ws: "ws = w # ws'" by (cases ws) auto
  let ?c = "set_reg r w (set_reg ESP (reg c ESP + 4) c)"
  have "stack (c, m) n (w # ws' @ vs)" "r \<noteq> ESP" using Cons.prems ws by auto
  then obtain m1 where m1: "pop_reg32 r (c, m) = (Done (), ?c, m1)" "stack (?c, m1) 0 (ws' @ vs)"
    by (rule pop_reg32_stack)
  from Cons.IH [OF m1(2)] Cons.prems ws obtain m' c' where
    IH: "each_x pop_reg32 rs (?c, m1) = (Done (), c', m')" "stack (c', m') 0 vs"
      "reg c' ESP = reg ?c ESP + 4 * of_nat (length rs)" "\<forall>k < length rs. reg c' (rs ! k) = ws' ! k"
      "\<forall>q. q \<notin> set rs \<longrightarrow> q \<noteq> ESP \<longrightarrow> reg c' q = reg ?c q" by auto
  have "reg c' r = w" using IH(5) Cons.prems by simp
  then show ?case using IH m1(1) ws Cons.prems
    by (auto simp: then_x_def bind_x_def All_less_Suc2 algebra_simps)
qed

section \<open>Saving and restoring registers\<close>

lemma pushad_stack:
  assumes "stack (c, m) 8 []"
  shows "\<exists>m'. exec_pushad (c, m) = (Done (), set_reg ESP (reg c ESP - 32) c, m') \<and>
    stack (set_reg ESP (reg c ESP - 32) c, m') 0
      (map (reg c) [EDI, ESI, EBP] @ reg c ESP # map (reg c) [EBX, EDX, ECX, EAX])"
proof -
  let ?c1 = "set_reg ESP (reg c ESP - 16) c" and ?c2 = "set_reg ESP (reg c ESP - 20) c"
  let ?v1 = "map (reg c) [EBX, EDX, ECX, EAX]"
  obtain m1 where m1: "each_x push_reg32 [EAX, ECX, EDX, EBX] (c, m) = (Done (), ?c1, m1)" "stack (?c1, m1) 4 ?v1"
    using push_regs_stack [of c m "[EAX, ECX, EDX, EBX]" 4 "[]"] assms by (auto simp del: each_x.simps)
  have "stack (?c1, m1) (Suc 3) ?v1" using m1(2) by simp
  then obtain m2 where m2: "push32 (reg c ESP) (?c1, m1) = (Done (), ?c2, m2)" "stack (?c2, m2) 3 (reg c ESP # ?v1)"
    using push32_stack [of ?c1 m1 3 ?v1 "reg c ESP"] by (auto simp: set_reg_def reg_def)
  have "map (reg ?c2) [EBP, ESI, EDI] = map (reg c) [EBP, ESI, EDI]"
    "stack (?c2, m2) (length [EBP, ESI, EDI] + 0) (reg c ESP # ?v1)" using m2(2) by (simp_all add: numeral_3_eq_3)
  then obtain m3 where m3: "each_x push_reg32 [EBP, ESI, EDI] (?c2, m2) = (Done (), set_reg ESP (reg c ESP - 32) c, m3)"
      "stack (set_reg ESP (reg c ESP - 32) c, m3) 0 (map (reg c) [EDI, ESI, EBP] @ reg c ESP # ?v1)"
    using push_regs_stack [of ?c2 m2 "[EBP, ESI, EDI]" 0 "reg c ESP # ?v1"]
    by (auto simp: set_reg_def reg_def algebra_simps simp del: each_x.simps)
  show ?thesis using m1(1) m2(1) m3
    by (auto simp: exec_pushad_def bind_x_def then_x_def get_x_def simp del: each_x.simps)
qed

lemma popad_stack:
  assumes "stack (c, m) 0 (map f [EDI, ESI, EBP] @ v # map f [EBX, EDX, ECX, EAX])"
  shows "\<exists>c' m'. exec_popad (c, m) = (Done (), c', m') \<and> reg c' ESP = reg c ESP + 32 \<and>
    (\<forall>r \<in> {EAX, ECX, EDX, EBX, EBP, ESI, EDI}. reg c' r = f r)"
proof -
  have "stack (c, m) 0 (map f [EDI, ESI, EBP] @ (v # map f [EBX, EDX, ECX, EAX]))" using assms by simp
  from pop_regs_stack [OF this, of "[EDI, ESI, EBP]"]
  obtain c1 m1 where 1: "each_x pop_reg32 [EDI, ESI, EBP] (c, m) = (Done (), c1, m1)"
      "stack (c1, m1) 0 (v # map f [EBX, EDX, ECX, EAX])" "reg c1 ESP = reg c ESP + 12"
      "\<forall>k < 3. reg c1 ([EDI, ESI, EBP] ! k) = map f [EDI, ESI, EBP] ! k" by auto
  let ?c2 = "set_reg ESP (reg c1 ESP + 4) c1"
  obtain m2 where 2: "pop32 (c1, m1) = (Done v, ?c2, m2)" "stack (?c2, m2) 0 (map f [EBX, EDX, ECX, EAX])"
    by (rule pop32_stack [OF 1(2)])
  have "stack (?c2, m2) 0 (map f [EBX, EDX, ECX, EAX] @ [])" using 2(2) by simp
  from pop_regs_stack [OF this, of "[EBX, EDX, ECX, EAX]"]
  obtain c3 m3 where 3: "each_x pop_reg32 [EBX, EDX, ECX, EAX] (?c2, m2) = (Done (), c3, m3)"
      "reg c3 ESP = reg ?c2 ESP + 16"
      "\<forall>k < 4. reg c3 ([EBX, EDX, ECX, EAX] ! k) = map f [EBX, EDX, ECX, EAX] ! k"
      "\<forall>q. q \<notin> set [EBX, EDX, ECX, EAX] \<longrightarrow> q \<noteq> ESP \<longrightarrow> reg c3 q = reg ?c2 q" by auto
  have "exec_popad (c, m) = (Done (), c3, m3)"
    using 1(1) 2(1) 3(1) by (simp add: exec_popad_def bind_x_def then_x_def del: each_x.simps)
  moreover have "reg c3 ESP = reg c ESP + 32" using 1(3) 3(2) by simp
  moreover have "\<forall>r \<in> {EAX, ECX, EDX, EBX, EBP, ESI, EDI}. reg c3 r = f r"
    using 1(4) 3(3,4) by (auto simp: numeral_eq_Suc All_less_Suc2)
  ultimately show ?thesis by blast
qed

text \<open>
  \<^verbatim>\<open>pushad\<close> with 32 mapped bytes below ESP succeeds, and a later \<^verbatim>\<open>popad\<close> on the same
  memory with ESP back where \<^verbatim>\<open>pushad\<close> left it restores all eight registers, whatever the code
  in between did to the others.
\<close>

theorem pushad_popad:
  assumes "stack (c, m) 8 []"
  shows "\<exists>c1 m1. exec_pushad (c, m) = (Done (), c1, m1) \<and>
    (\<forall>c2. reg c2 ESP = reg c1 ESP \<longrightarrow>
       (\<exists>c3 m3. exec_popad (c2, m1) = (Done (), c3, m3) \<and> (\<forall>r < 8. reg c3 r = reg c r)))"
proof -
  let ?vs = "map (reg c) [EDI, ESI, EBP] @ reg c ESP # map (reg c) [EBX, EDX, ECX, EAX]"
  obtain m1 where 1: "exec_pushad (c, m) = (Done (), set_reg ESP (reg c ESP - 32) c, m1)"
      "stack (set_reg ESP (reg c ESP - 32) c, m1) 0 ?vs"
    using pushad_stack [OF assms] by blast
  have "\<exists>c3 m3. exec_popad (c2, m1) = (Done (), c3, m3) \<and> (\<forall>r < 8. reg c3 r = reg c r)"
    if sp: "reg c2 ESP = reg (set_reg ESP (reg c ESP - 32) c) ESP" for c2
  proof -
    have "stack (c2, m1) 0 ?vs" using 1(2) sp by (simp add: stack_def)
    from popad_stack [OF this] obtain c3 m3 where 3: "exec_popad (c2, m1) = (Done (), c3, m3)"
      "reg c3 ESP = reg c2 ESP + 32" "\<forall>r \<in> {EAX, ECX, EDX, EBX, EBP, ESI, EDI}. reg c3 r = reg c r" by blast
    have "\<forall>r < 8. reg c3 r = reg c r" using 3(2,3) sp by (simp add: numeral_eq_Suc All_less_Suc2)
    then show ?thesis using 3(1) by blast
  qed
  then show ?thesis using 1(1) by blast
qed

text \<open>A machine with ESP sixteen bytes into the second mapped page.\<close>

definition demo_cpu :: cpu where
  "demo_cpu = set_reg ESP 0x2010 cpu_new"

lemma demo_stack: "stack (demo_cpu, demo_mem) 8 []"
proof -
  have "(\<forall>j < 32. byte_at demo_mem (0x2010 - 1 - of_nat j) \<noteq> None) \<longleftrightarrow>
      list_all (\<lambda>j. byte_at demo_mem (0x2010 - 1 - of_nat j) \<noteq> None) [0..<32]"
    by (simp add: list_all_iff Ball_def del: upt_rec_numeral)
  also have "\<dots>" by (simp add: demo_mem_byte page_of_def upt_rec)
  finally show ?thesis by (simp add: stack_def demo_mem_inv words_def room_def demo_cpu_def)
qed

theorem pushad_popad_witness:
  "\<exists>c1 m1. exec_pushad (demo_cpu, demo_mem) = (Done (), c1, m1) \<and>
     (\<exists>c3 m3. exec_popad (c1, m1) = (Done (), c3, m3) \<and> reg c3 ESP = 0x2010)"
proof -
  have "reg demo_cpu 4 = 0x2010" by (simp add: demo_cpu_def)
  then show ?thesis using pushad_popad [OF demo_stack] by fastforce
qed

section \<open>Flags and return addresses\<close>

definition flags :: "cpu \<Rightarrow> bool list" where
  "flags c = [cf c, pf c, af c, zf c, sf c, tf c, df c, of_flag c]"

lemma and_push_bit_1: "f AND push_bit k 1 \<noteq> 0 \<longleftrightarrow> bit f k" for f :: u32
  by (simp add: push_bit_of_1 and_exp_eq_0_iff_not_bit)

lemma bit_flag_bit: "bit (flag_bit b n) k \<longleftrightarrow> b \<and> k = n \<and> n < 32"
  by (auto simp: flag_bit_def bit_simps)

lemma set_eflags_eflags: "flags (set_eflags (eflags c) c') = flags c"
  unfolding flags_def set_eflags_def and_push_bit_1 eflags_def bit_or_iff bit_flag_bit by simp

lemma reg_set_eflags [simp]: "reg (set_eflags f c) r = reg c r"
  by (simp add: set_eflags_def reg_def)

lemma stack_less: "stack s (Suc n) vs \<Longrightarrow> stack s 0 vs"
  by (simp add: stack_def room_def)

text \<open>
  \<^verbatim>\<open>pushfd\<close> followed by \<^verbatim>\<open>popfd\<close> on the same stack word restores the carry, parity,
  adjust, zero, sign, trap, direction and overflow flags and ESP, whatever happened to the flags
  in between.
\<close>

theorem pushfd_popfd:
  assumes "stack (c, m) 1 []"
  shows "\<exists>c1 m1. exec_pushfd (c, m) = (Done (), c1, m1) \<and>
    (\<forall>c2. reg c2 ESP = reg c1 ESP \<longrightarrow>
       (\<exists>c3 m3. exec_popfd (c2, m1) = (Done (), c3, m3) \<and> flags c3 = flags c \<and> reg c3 ESP = reg c ESP))"
proof -
  let ?c1 = "set_reg ESP (reg c ESP - 4) c"
  have st: "stack (c, m) (Suc 0) []" using assms by simp
  obtain m1 where m1: "push32 (eflags c) (c, m) = (Done (), ?c1, m1)" "stack (?c1, m1) 0 [eflags c]"
    by (rule push32_stack [OF st]) simp_all
  have "\<exists>c3 m3. exec_popfd (c2, m1) = (Done (), c3, m3) \<and> flags c3 = flags c \<and> reg c3 ESP = reg c ESP"
    if sp: "reg c2 ESP = reg ?c1 ESP" for c2
  proof -
    have "stack (c2, m1) 0 [eflags c]" using m1(2) sp by (simp add: stack_def)
    then obtain m3 where "pop32 (c2, m1) = (Done (eflags c), set_reg ESP (reg c2 ESP + 4) c2, m3)"
      by (rule pop32_stack)
    then show ?thesis using sp
      by (simp add: exec_popfd_def bind_x_def put_x_def set_eflags_eflags)
  qed
  moreover have "exec_pushfd (c, m) = (Done (), ?c1, m1)" using m1(1) by (simp add: exec_pushfd_def bind_x_def get_x_def)
  ultimately show ?thesis by blast
qed

lemma demo_stack1: "stack (demo_cpu, demo_mem) 1 []"
  using demo_stack by (simp add: stack_def room_def words_def)

theorem pushfd_popfd_witness:
  "\<exists>c1 m1. exec_pushfd (demo_cpu, demo_mem) = (Done (), c1, m1) \<and>
     (\<exists>c3 m3. exec_popfd (c1\<lparr>cf := True\<rparr>, m1) = (Done (), c3, m3) \<and> \<not> cf c3)"
proof -
  from pushfd_popfd [OF demo_stack1] obtain c1 m1 where 1: "exec_pushfd (demo_cpu, demo_mem) = (Done (), c1, m1)"
    and 2: "\<forall>c2. reg c2 ESP = reg c1 ESP \<longrightarrow> (\<exists>c3 m3. exec_popfd (c2, m1) = (Done (), c3, m3) \<and>
      flags c3 = flags demo_cpu \<and> reg c3 ESP = reg demo_cpu ESP)" by blast
  have "reg (c1\<lparr>cf := True\<rparr>) ESP = reg c1 ESP" by (simp add: reg_def)
  with 2 obtain c3 m3 where "exec_popfd (c1\<lparr>cf := True\<rparr>, m1) = (Done (), c3, m3)" "flags c3 = flags demo_cpu" by blast
  then show ?thesis using 1 by (auto simp: flags_def demo_cpu_def set_reg_def cpu_new_def)
qed

text \<open>
  A near \<^verbatim>\<open>call\<close> transfers to its target, and a \<^verbatim>\<open>ret\<close> without operand on the stack as the
  call left it returns to the instruction after the call with ESP restored.
\<close>

theorem call_ret:
  assumes "stack (c, m) 1 []" "i_ops i ! 0 = Rel t" "op_count j = 0"
  shows "\<exists>c1 m1. exec_call ip i (c, m) = (Done (), c1, m1) \<and> eip c1 = ucast t \<and>
    (\<forall>c2. reg c2 ESP = reg c1 ESP \<longrightarrow>
       (\<exists>c3 m3. exec_ret j (c2, m1) = (Done (), c3, m3) \<and> eip c3 = eip c \<and> reg c3 ESP = reg c ESP))"
proof -
  let ?c = "set_reg ESP (reg c ESP - 4) c"
  let ?c1 = "?c\<lparr>eip := ucast t\<rparr>"
  have st: "stack (c, m) (Suc 0) []" using assms by simp
  obtain m1 where m1: "push32 (eip c) (c, m) = (Done (), ?c, m1)" "stack (?c, m1) 0 [eip c]"
    by (rule push32_stack [OF st]) simp_all
  have sp1: "reg ?c1 ESP = reg c ESP - 4" by (simp add: reg_def set_reg_def)
  have "\<exists>c3 m3. exec_ret j (c2, m1) = (Done (), c3, m3) \<and> eip c3 = eip c \<and> reg c3 ESP = reg c ESP"
    if sp: "reg c2 ESP = reg ?c1 ESP" for c2
  proof -
    have sp2: "reg c2 ESP = reg c ESP - 4" using sp sp1 by (simp only:)
    have "stack (c2, m1) 0 [eip c]" using m1(2) sp2 by (simp add: stack_def)
    then obtain m3 where "pop32 (c2, m1) = (Done (eip c), set_reg ESP (reg c2 ESP + 4) c2, m3)"
      by (rule pop32_stack)
    then show ?thesis using sp2 assms(3)
      by (simp add: exec_ret_def bind_x_def then_x_def put_x_def ret_x_def reg_def set_reg_def)
  qed
  moreover have "exec_call ip i (c, m) = (Done (), ?c1, m1)"
    using m1(1) assms(2) by (simp add: exec_call_def bind_x_def then_x_def get_x_def put_x_def)
  ultimately show ?thesis by (intro exI [of _ ?c1] exI [of _ m1]) simp
qed

definition call_insn :: insn where
  "call_insn = \<lparr>i_len = 5, i_mn = ''Call'', i_ops = [Rel 0x1234, OpNone, OpNone], i_rep = False, i_repne = False,
     i_lock = False, i_osize = B4, i_addr16 = False\<rparr>"

definition ret_insn :: insn where
  "ret_insn = call_insn\<lparr>i_len := 1, i_mn := ''Ret'', i_ops := [OpNone, OpNone, OpNone]\<rparr>"

theorem call_ret_witness:
  "\<exists>c1 m1. exec_call 0 call_insn (demo_cpu, demo_mem) = (Done (), c1, m1) \<and> eip c1 = 0x1234 \<and>
     (\<exists>c3 m3. exec_ret ret_insn (c1, m1) = (Done (), c3, m3) \<and> eip c3 = eip demo_cpu)"
proof -
  have "i_ops call_insn ! 0 = Rel 0x1234" "op_count ret_insn = 0"
    by (simp_all add: call_insn_def ret_insn_def op_count_def)
  from call_ret [OF demo_stack1 this, of 0] show ?thesis by force
qed

end
