(* ===== verification/Emu_Alu.thy ===== *)
theory Emu_Alu
  imports Emu_Step
begin

text \<open>
  What the arithmetic of the emulated processor computes. The interface \<open>operand_width\<close> ties the
  byte count the code passes around to a word type; it holds of 1, 2 and 4 bytes. Inside it the
  flag computations on masked 32-bit values are shown to be arithmetic on that word type.
\<close>

section \<open>Word arithmetic\<close>

lemma sint_range: "- (2 ^ (LENGTH('a) - 1)) \<le> sint x \<and> sint x < 2 ^ (LENGTH('a) - 1)" for x :: "'a::len word"
  by (simp add: sint_greater_eq sint_less)

lemma signed_take_bit_cases:
  fixes d :: int
  assumes "- (2 ^ Suc n) \<le> d" "d < 2 ^ Suc n"
  shows "signed_take_bit n d = (if d < - (2 ^ n) then d + 2 ^ Suc n else if 2 ^ n \<le> d then d - 2 ^ Suc n else d)"
proof -
  have eq: "signed_take_bit n d = (d + 2 ^ n) mod 2 ^ Suc n - 2 ^ n"
    by (simp only: signed_take_bit_eq_take_bit_shift take_bit_eq_mod)
  consider "d < - (2 ^ n)" | "2 ^ n \<le> d" | "- (2 ^ n) \<le> d" "d < 2 ^ n" by linarith
  then show ?thesis
  proof cases
    case 1
    then have "(d + 2 ^ n + 2 ^ Suc n) mod 2 ^ Suc n = d + 2 ^ n + 2 ^ Suc n"
      using assms by (intro mod_pos_pos_trivial) simp_all
    then have "(d + 2 ^ n) mod 2 ^ Suc n = d + 2 ^ n + 2 ^ Suc n" by (simp only: mod_add_self2)
    then show ?thesis using 1 eq by simp
  next
    case 2
    then have "(d + 2 ^ n - 2 ^ Suc n) mod 2 ^ Suc n = d + 2 ^ n - 2 ^ Suc n"
      using assms by (intro mod_pos_pos_trivial) simp_all
    then have "(d + 2 ^ n) mod 2 ^ Suc n = d + 2 ^ n - 2 ^ Suc n" by (simp only: minus_mod_self2)
    moreover have "(0 :: int) < 2 ^ n" by simp
    then have "\<not> d < - (2 ^ n)" using 2 by linarith
    ultimately show ?thesis using 2 eq by simp
  next
    case 3
    then have "(d + 2 ^ n) mod 2 ^ Suc n = d + 2 ^ n" by (intro mod_pos_pos_trivial) simp_all
    then show ?thesis using 3 eq by simp
  qed
qed

text \<open>
  A result congruent to \<open>d\<close>: its sign and whether it equals \<open>d\<close>, for the sums and differences
  of two operands and a carry.
\<close>

lemma sint_wrapped:
  fixes r :: "'a::len word"
  assumes "r = word_of_int d" "- (2 ^ LENGTH('a)) \<le> d" "d < 2 ^ LENGTH('a)"
  shows "sint r = (if d < - (2 ^ (LENGTH('a) - 1)) then d + 2 ^ LENGTH('a)
    else if 2 ^ (LENGTH('a) - 1) \<le> d then d - 2 ^ LENGTH('a) else d)"
proof -
  obtain n where n: "LENGTH('a) = Suc n" using len_not_eq_0 [where 'a = 'a] by (cases "LENGTH('a)") auto
  have "sint r = signed_take_bit n d" unfolding assms(1) sint_sbintrunc' n by simp
  then show ?thesis using signed_take_bit_cases [of n d] assms(2,3) unfolding n by simp
qed

lemma word_of_sint [simp]: "word_of_int (sint x) = x" for x :: "'a::len word"
  by (rule signed_word_eqI) (simp add: signed_of_int)

lemma half_word: "(2 :: int) ^ LENGTH('a::len) = 2 * 2 ^ (LENGTH('a) - 1)"
  using len_not_eq_0 [where 'a = 'a] by (cases "LENGTH('a)") auto

text \<open>The overflow flag of an addition and of a subtraction says whether the signed result fits.\<close>

lemma add_overflow:
  fixes x y :: "'a::len word" and k :: bool
  defines "d \<equiv> sint x + sint y + of_bool k" and "r \<equiv> x + y + of_bool k"
  shows "sint r \<noteq> d \<longleftrightarrow> ((sint x < 0) \<noteq> (sint r < 0) \<and> (sint y < 0) \<noteq> (sint r < 0))"
proof -
  have "r = word_of_int d" by (simp add: r_def d_def)
  moreover have "- (2 ^ LENGTH('a)) \<le> d" "d < 2 ^ LENGTH('a)"
    using sint_range [of x] sint_range [of y] unfolding d_def half_word by simp_all
  ultimately have "sint r = (if d < - (2 ^ (LENGTH('a) - 1)) then d + 2 ^ LENGTH('a)
    else if 2 ^ (LENGTH('a) - 1) \<le> d then d - 2 ^ LENGTH('a) else d)" by (rule sint_wrapped)
  then show ?thesis using sint_range [of x] sint_range [of y] unfolding d_def half_word
    by (auto split: if_splits)
qed

lemma sub_overflow:
  fixes x y :: "'a::len word" and k :: bool
  defines "d \<equiv> sint x - sint y - of_bool k" and "r \<equiv> x - y - of_bool k"
  shows "sint r \<noteq> d \<longleftrightarrow> ((sint x < 0) \<noteq> (sint y < 0) \<and> (sint x < 0) \<noteq> (sint r < 0))"
    and "d < 0 \<longleftrightarrow> (sint r < 0) \<noteq> (sint r \<noteq> d)"
proof -
  have "r = word_of_int d" by (simp add: r_def d_def)
  moreover have "- (2 ^ LENGTH('a)) \<le> d" "d < 2 ^ LENGTH('a)"
    using sint_range [of x] sint_range [of y] unfolding d_def half_word by simp_all
  ultimately have "sint r = (if d < - (2 ^ (LENGTH('a) - 1)) then d + 2 ^ LENGTH('a)
    else if 2 ^ (LENGTH('a) - 1) \<le> d then d - 2 ^ LENGTH('a) else d)" by (rule sint_wrapped)
  then show "sint r \<noteq> d \<longleftrightarrow> ((sint x < 0) \<noteq> (sint y < 0) \<and> (sint x < 0) \<noteq> (sint r < 0))"
    "d < 0 \<longleftrightarrow> (sint r < 0) \<noteq> (sint r \<noteq> d)"
    using sint_range [of x] sint_range [of y] unfolding d_def half_word by (auto split: if_splits)
qed

lemma ucast_down:
  fixes a b :: "'a::len word"
  assumes "LENGTH('b) \<le> LENGTH('a)"
  shows "(ucast (a - b) :: 'b::len word) = ucast a - ucast b"
    and "(ucast (a + b) :: 'b::len word) = ucast a + ucast b"
    and "(ucast (a * b) :: 'b::len word) = ucast a * ucast b"
  using assms by (transfer; metis take_bit_diff take_bit_add take_bit_mult take_bit_take_bit min.absorb1)+

lemma ucast_mask_id:
  fixes a :: "'a::len word"
  assumes "LENGTH('b) \<le> LENGTH('a)"
  shows "a AND mask LENGTH('b) = ucast (ucast a :: 'b::len word)"
  using assms by (intro bit_word_eqI) (auto simp: bit_simps)

lemma ucast_ucast_down:
  fixes a :: "'a::len word"
  assumes "LENGTH('b) \<le> LENGTH('c)"
  shows "(ucast (ucast a :: 'c::len word) :: 'b::len word) = ucast a"
  using assms by (intro bit_word_eqI) (auto simp: bit_simps)

lemma unat_ucast_up:
  fixes x :: "'a::len word"
  assumes "LENGTH('a) \<le> LENGTH('b)"
  shows "unat (ucast x :: 'b::len word) = unat x"
proof -
  have "unat x < 2 ^ LENGTH('b)"
    using unat_bound [of x] power_increasing [OF assms, of "2 :: nat"] by linarith
  then show ?thesis by (simp add: unsigned_ucast_eq take_bit_nat_eq_self)
qed

lemma ucast_up_eq_0:
  fixes x :: "'a::len word"
  assumes "LENGTH('a) \<le> LENGTH('b)"
  shows "(ucast x :: 'b::len word) = 0 \<longleftrightarrow> x = 0"
  using unat_ucast_up [OF assms, of x] by (metis unsigned_0 unsigned_word_eqI)

section \<open>Operand widths\<close>

locale operand_width =
  fixes n :: nat and ty :: "'w::len itself"
  assumes width: "LENGTH('w) \<le> 32"
    and bits_n: "LENGTH('w) = 8 * n"
    and mask_n: "op_mask n = mask LENGTH('w)"
    and sign_n: "sign_bit n = push_bit (LENGTH('w) - 1) 1"
    and extend_n: "sign_extend v n = scast (ucast v :: 'w word)"
begin

lemma masked: "v AND op_mask n = ucast (ucast v :: 'w word)"
  unfolding mask_n using width by (intro ucast_mask_id) simp

lemma sign_bit_iff: "ucast (x :: 'w word) AND sign_bit n \<noteq> 0 \<longleftrightarrow> sint x < 0"
proof -
  have "ucast x AND sign_bit n \<noteq> 0 \<longleftrightarrow> bit (ucast x :: u32) (LENGTH('w) - 1)"
    unfolding sign_n by (simp add: push_bit_of_1 and_exp_eq_0_iff_not_bit)
  also have "\<dots> \<longleftrightarrow> bit x (LENGTH('w) - 1)"
    using width by (auto simp: bit_simps)
  finally show ?thesis by (simp add: bit_last_iff)
qed

lemma sign_bit_and: "ucast (x :: 'w word) AND ucast (y :: 'w word) AND sign_bit n \<noteq> 0 \<longleftrightarrow> sint x < 0 \<and> sint y < 0"
proof -
  have "(ucast x AND ucast y :: u32) = ucast (x AND y)" by (simp add: unsigned_and_eq)
  moreover have "sint (x AND y) < 0 \<longleftrightarrow> sint x < 0 \<and> sint y < 0"
    by (simp flip: bit_last_iff add: bit_and_iff)
  ultimately show ?thesis using sign_bit_iff [of "x AND y"] by (simp add: and.assoc [symmetric])
qed

lemma sint_xor: "sint (x XOR y :: 'w word) < 0 \<longleftrightarrow> (sint x < 0) \<noteq> (sint y < 0)"
  by (simp flip: bit_last_iff add: bit_xor_iff)

lemma sint_extend: "sint (sign_extend v n) = sint (ucast v :: 'w word)"
  unfolding extend_n using width by (simp add: sint_up_scast is_up)

lemma ucast_width: "(ucast (ucast (x :: 'w word) :: u32) :: 'w word) = x"
  "(ucast (ucast (ucast x :: u32) :: u64) :: 'w word) = x"
  "(ucast (ucast v :: u32) :: 'w word) = ucast (v :: u64)"
  using width by (simp_all add: ucast_ucast_down)

lemma ucast_bool: "(ucast (of_bool k :: u32) :: u64) = of_bool k" "(ucast (of_bool k :: u64) :: 'w word) = of_bool k"
  by (cases k; simp)+

lemma set_szp_spec:
  "set_szp (ucast (r :: 'w word)) n c = c\<lparr>zf := (r = 0), sf := (sint r < 0), pf := even (count_ones (ucast (ucast r :: u32) :: u8))\<rparr>"
proof -
  have "(ucast r :: u32) AND op_mask n = ucast r" by (simp only: masked ucast_width)
  moreover have "(ucast r :: u32) = 0 \<longleftrightarrow> r = 0" using width by (intro ucast_up_eq_0) simp
  ultimately show ?thesis by (simp add: set_szp_def Let_def sign_bit_iff)
qed

lemma unat_up: "unat (ucast (ucast (x :: 'w word) :: u32) :: u64) = unat x"
proof -
  have "unat (ucast (ucast x :: u32) :: u64) = unat (ucast x :: u32)" by (rule unat_ucast_up) simp
  also have "\<dots> = unat x" using width by (intro unat_ucast_up) simp
  finally show ?thesis .
qed

lemma unat_width: "unat (x :: 'w word) < 4294967296"
proof -
  have "(2 :: nat) ^ LENGTH('w) \<le> 2 ^ 32" using width by (intro power_increasing) simp_all
  then have "(2 :: nat) ^ LENGTH('w) \<le> 4294967296" by simp
  then show ?thesis using unat_bound [of x] by linarith
qed

lemma unat_mask: "unat (op_mask n) = 2 ^ LENGTH('w) - 1"
proof -
  have "op_mask n = (- 1) AND op_mask n" by simp
  also have "\<dots> = ucast (ucast (- 1 :: u32) :: 'w word)" by (rule masked)
  also have "(ucast (- 1 :: u32) :: 'w word) = - 1"
    using width by (intro bit_word_eqI) (simp add: bit_simps)
  finally have "unat (op_mask n) = unat (ucast (- 1 :: 'w word) :: u32)" by (simp only:)
  also have "\<dots> = unat (- 1 :: 'w word)" using width by (intro unat_ucast_up) simp
  finally show ?thesis by (simp only: unat_minus_1)
qed

lemma xor_sign:
  fixes x y z w :: "'w word"
  shows "(ucast x XOR ucast y) AND (ucast z XOR ucast w) AND sign_bit n \<noteq> 0 \<longleftrightarrow>
     (sint x < 0) \<noteq> (sint y < 0) \<and> (sint z < 0) \<noteq> (sint w < 0)"
  using sign_bit_and [of "x XOR y" "z XOR w"] by (simp only: unsigned_xor_eq sint_xor)

text \<open>A subtraction with borrow, as \<^verbatim>\<open>sub\<close>, \<^verbatim>\<open>sbb\<close>, \<^verbatim>\<open>cmp\<close> and \<^verbatim>\<open>neg\<close> use it.\<close>

lemma flags_sub_spec:
  fixes a b :: u32 and k :: bool
  defines "x \<equiv> ucast a :: 'w word" and "y \<equiv> ucast b :: 'w word"
  defines "r \<equiv> x - y - of_bool k"
  shows "fst (flags_sub a b (of_bool k) n c) = ucast r"
    and "cf (snd (flags_sub a b (of_bool k) n c)) \<longleftrightarrow> unat x < unat y + of_bool k"
    and "zf (snd (flags_sub a b (of_bool k) n c)) \<longleftrightarrow> r = 0"
    and "sf (snd (flags_sub a b (of_bool k) n c)) \<longleftrightarrow> sint r < 0"
    and "of_flag (snd (flags_sub a b (of_bool k) n c)) \<longleftrightarrow> sint r \<noteq> sint x - sint y - of_bool k"
proof -
  let ?a = "ucast x :: u32" and ?b = "ucast y :: u32"
  have am: "a AND op_mask n = ?a" "b AND op_mask n = ?b" unfolding x_def y_def by (rule masked)+
  have "LENGTH('w) \<le> LENGTH(64)" using width by simp
  then have "(ucast (ucast ?a - ucast ?b - of_bool k :: u64) :: 'w word) = r"
    by (simp add: ucast_down ucast_width ucast_bool r_def)
  then have res: "(ucast (ucast ?a - ucast ?b - of_bool k :: u64) :: u32) AND op_mask n = ucast r"
    by (simp only: masked ucast_width)
  have "unat (ucast ?b + of_bool k :: u64) = unat y + of_bool k"
    using unat_width [of y] by (simp add: unat_word_ariths unat_up)
  then have less: "(ucast ?a :: u64) < ucast ?b + of_bool k \<longleftrightarrow> unat x < unat y + of_bool k"
    by (simp add: word_less_nat_alt unat_up)
  have eq: "flags_sub a b (of_bool k) n c = (ucast r, set_szp (ucast r) n
      (c\<lparr>cf := (unat x < unat y + of_bool k), af := ((?a XOR ?b XOR ucast r) AND 0x10 \<noteq> 0),
         of_flag := (sint r \<noteq> sint x - sint y - of_bool k)\<rparr>))"
    using xor_sign [of x y x r] sub_overflow(1) [of x y k]
    by (simp add: flags_sub_def Let_def am ucast_bool res less flip: r_def)
  show "fst (flags_sub a b (of_bool k) n c) = ucast r"
    "cf (snd (flags_sub a b (of_bool k) n c)) \<longleftrightarrow> unat x < unat y + of_bool k"
    "zf (snd (flags_sub a b (of_bool k) n c)) \<longleftrightarrow> r = 0"
    "sf (snd (flags_sub a b (of_bool k) n c)) \<longleftrightarrow> sint r < 0"
    "of_flag (snd (flags_sub a b (of_bool k) n c)) \<longleftrightarrow> sint r \<noteq> sint x - sint y - of_bool k"
    by (simp_all add: eq set_szp_spec)
qed

lemma flags_add_spec:
  fixes a b :: u32 and k :: bool
  defines "x \<equiv> ucast a :: 'w word" and "y \<equiv> ucast b :: 'w word"
  defines "r \<equiv> x + y + of_bool k"
  shows "fst (flags_add a b (of_bool k) n c) = ucast r"
    and "cf (snd (flags_add a b (of_bool k) n c)) \<longleftrightarrow> 2 ^ LENGTH('w) \<le> unat x + unat y + of_bool k"
    and "zf (snd (flags_add a b (of_bool k) n c)) \<longleftrightarrow> r = 0"
    and "sf (snd (flags_add a b (of_bool k) n c)) \<longleftrightarrow> sint r < 0"
    and "of_flag (snd (flags_add a b (of_bool k) n c)) \<longleftrightarrow> sint r \<noteq> sint x + sint y + of_bool k"
proof -
  let ?a = "ucast x :: u32" and ?b = "ucast y :: u32"
  have am: "a AND op_mask n = ?a" "b AND op_mask n = ?b" unfolding x_def y_def by (rule masked)+
  have "LENGTH('w) \<le> LENGTH(64)" using width by simp
  then have "(ucast (ucast ?a + ucast ?b + of_bool k :: u64) :: 'w word) = r"
    by (simp add: ucast_down ucast_width ucast_bool r_def)
  then have res: "(ucast (ucast ?a + ucast ?b + of_bool k :: u64) :: u32) AND op_mask n = ucast r"
    by (simp only: masked ucast_width)
  have full: "unat (ucast ?a + ucast ?b + of_bool k :: u64) = unat x + unat y + of_bool k"
    using unat_width [of x] unat_width [of y] by (simp add: unat_word_ariths unat_up)
  have "unat (ucast (op_mask n) :: u64) = 2 ^ LENGTH('w) - 1"
    using unat_ucast_up [of "op_mask n", where 'b = 64] by (simp add: unat_mask)
  then have less: "(ucast (op_mask n) :: u64) < ucast ?a + ucast ?b + of_bool k \<longleftrightarrow>
      2 ^ LENGTH('w) \<le> unat x + unat y + of_bool k"
    by (simp add: word_less_nat_alt full less_eq_Suc_le)
  have eq: "flags_add a b (of_bool k) n c = (ucast r, set_szp (ucast r) n
      (c\<lparr>cf := (2 ^ LENGTH('w) \<le> unat x + unat y + of_bool k), af := ((?a XOR ?b XOR ucast r) AND 0x10 \<noteq> 0),
         of_flag := (sint r \<noteq> sint x + sint y + of_bool k)\<rparr>))"
    using xor_sign [of x r y r] add_overflow [of x y k]
    by (simp add: flags_add_def Let_def am ucast_bool res less flip: r_def)
  show "fst (flags_add a b (of_bool k) n c) = ucast r"
    "cf (snd (flags_add a b (of_bool k) n c)) \<longleftrightarrow> 2 ^ LENGTH('w) \<le> unat x + unat y + of_bool k"
    "zf (snd (flags_add a b (of_bool k) n c)) \<longleftrightarrow> r = 0"
    "sf (snd (flags_add a b (of_bool k) n c)) \<longleftrightarrow> sint r < 0"
    "of_flag (snd (flags_add a b (of_bool k) n c)) \<longleftrightarrow> sint r \<noteq> sint x + sint y + of_bool k"
    by (simp_all add: eq set_szp_spec)
qed

lemma unat_masked: "unat (v AND op_mask n) = unat (ucast v :: 'w word)"
  unfolding masked using width by (intro unat_ucast_up) simp

lemma fits_iff:
  fixes r :: "'w word"
  assumes "r = word_of_int d"
  shows "sint r = d \<longleftrightarrow> - (2 ^ (8 * n - 1)) \<le> d \<and> d < 2 ^ (8 * n - 1)"
  unfolding assms sint_sbintrunc' signed_take_bit_int_eq_self_iff bits_n by simp

lemma sub_flags_width:
  fixes a b :: u32 and k :: bool and c :: cpu
  defines "c' \<equiv> snd (flags_sub a b (of_bool k) n c)" and "r \<equiv> fst (flags_sub a b (of_bool k) n c)"
    and "d \<equiv> sint (sign_extend a n) - sint (sign_extend b n) - of_bool k"
  shows "int (unat r) = int (unat (a AND op_mask n)) - int (unat (b AND op_mask n)) - of_bool k +
      (if cf c' then 2 ^ (8 * n) else 0)"
    and "zf c' \<longleftrightarrow> r = 0" and "sf c' \<longleftrightarrow> sint (sign_extend r n) < 0"
    and "of_flag c' \<longleftrightarrow> \<not> (- (2 ^ (8 * n - 1)) \<le> d \<and> d < 2 ^ (8 * n - 1))"
    and "\<not> of_flag c' \<Longrightarrow> sint (sign_extend r n) = d"
proof -
  let ?x = "ucast a :: 'w word" and ?y = "ucast b :: 'w word"
  let ?r = "?x - ?y - of_bool k"
  note spec = flags_sub_spec [of a b k c, folded c'_def r_def]
  have r: "unat r = unat ?r" unfolding spec(1) using width by (intro unat_ucast_up) simp
  have rs: "sint (sign_extend r n) = sint ?r" unfolding spec(1) by (simp add: sint_extend ucast_width)
  have mod: "uint ?r = (uint ?x - uint ?y - of_bool k) mod 2 ^ LENGTH('w)"
    by (cases k) (simp_all add: uint_word_ariths mod_simps)
  have b: "0 \<le> uint ?x" "uint ?x < 2 ^ LENGTH('w)" "0 \<le> uint ?y" "uint ?y < 2 ^ LENGTH('w)"
    by (simp_all add: uint_lt2p)
  have ob: "(0 :: int) \<le> of_bool k" "(of_bool k :: int) \<le> 1" by simp_all
  have "uint ?r = uint ?x - uint ?y - of_bool k + (if uint ?x < uint ?y + of_bool k then 2 ^ LENGTH('w) else 0)"
  proof (cases "uint ?x < uint ?y + of_bool k")
    case True
    have "(uint ?x - uint ?y - of_bool k + 2 ^ LENGTH('w)) mod 2 ^ LENGTH('w) =
        uint ?x - uint ?y - of_bool k + 2 ^ LENGTH('w)" using b ob True by (intro mod_pos_pos_trivial) linarith+
    then show ?thesis using True mod by (simp only: mod_add_self2) simp
  next
    case False
    have "(uint ?x - uint ?y - of_bool k) mod 2 ^ LENGTH('w) = uint ?x - uint ?y - of_bool k"
      using b ob False by (intro mod_pos_pos_trivial) linarith+
    then show ?thesis using False mod by simp
  qed
  moreover have "uint ?x = int (unat ?x)" "uint ?y = int (unat ?y)" by simp_all
  then have "cf c' \<longleftrightarrow> uint ?x < uint ?y + of_bool k"
    unfolding spec(2) by (cases k; simp only: of_bool_eq; linarith)
  ultimately show "int (unat r) = int (unat (a AND op_mask n)) - int (unat (b AND op_mask n)) - of_bool k +
      (if cf c' then 2 ^ (8 * n) else 0)"
    by (simp add: r unat_masked bits_n)
  have "r = 0 \<longleftrightarrow> ?r = 0" unfolding spec(1) using width by (intro ucast_up_eq_0) simp
  then show "zf c' \<longleftrightarrow> r = 0" using spec(3) by simp
  show "sf c' \<longleftrightarrow> sint (sign_extend r n) < 0" using spec(4) rs by simp
  have d: "d = sint ?x - sint ?y - of_bool k" by (simp add: d_def sint_extend)
  have w: "?r = word_of_int d" by (simp add: d)
  show "of_flag c' \<longleftrightarrow> \<not> (- (2 ^ (8 * n - 1)) \<le> d \<and> d < 2 ^ (8 * n - 1))"
    using spec(5) fits_iff [OF w] by (simp add: d)
  show "\<not> of_flag c' \<Longrightarrow> sint (sign_extend r n) = d" using spec(5) rs by (simp add: d)
qed

lemma add_flags_width:
  fixes a b :: u32 and k :: bool and c :: cpu
  defines "c' \<equiv> snd (flags_add a b (of_bool k) n c)" and "r \<equiv> fst (flags_add a b (of_bool k) n c)"
    and "d \<equiv> sint (sign_extend a n) + sint (sign_extend b n) + of_bool k"
  shows "int (unat r) = int (unat (a AND op_mask n)) + int (unat (b AND op_mask n)) + of_bool k -
      (if cf c' then 2 ^ (8 * n) else 0)"
    and "zf c' \<longleftrightarrow> r = 0" and "sf c' \<longleftrightarrow> sint (sign_extend r n) < 0"
    and "of_flag c' \<longleftrightarrow> \<not> (- (2 ^ (8 * n - 1)) \<le> d \<and> d < 2 ^ (8 * n - 1))"
    and "\<not> of_flag c' \<Longrightarrow> sint (sign_extend r n) = d"
proof -
  let ?x = "ucast a :: 'w word" and ?y = "ucast b :: 'w word"
  let ?r = "?x + ?y + of_bool k"
  note spec = flags_add_spec [of a b k c, folded c'_def r_def]
  have r: "unat r = unat ?r" unfolding spec(1) using width by (intro unat_ucast_up) simp
  have rs: "sint (sign_extend r n) = sint ?r" unfolding spec(1) by (simp add: sint_extend ucast_width)
  have mod: "unat ?r = (unat ?x + unat ?y + of_bool k) mod 2 ^ LENGTH('w)"
    by (cases k) (simp_all add: unat_word_ariths mod_simps)
  have b: "unat ?x < 2 ^ LENGTH('w)" "unat ?y < 2 ^ LENGTH('w)" by simp_all
  have ob: "(of_bool k :: nat) \<le> 1" by simp
  have "int (unat ?r) = int (unat ?x) + int (unat ?y) + of_bool k - (if cf c' then 2 ^ LENGTH('w) else 0)"
  proof (cases "cf c'")
    case True
    then have ge: "2 ^ LENGTH('w) \<le> unat ?x + unat ?y + of_bool k" using spec(2) by simp
    then have "unat ?r = unat ?x + unat ?y + of_bool k - 2 ^ LENGTH('w)"
      unfolding mod using b ob by (subst le_mod_geq) (assumption, intro mod_less, linarith)
    then show ?thesis using True ge by (simp add: of_nat_diff)
  next
    case False
    then show ?thesis using spec(2) mod by simp
  qed
  then show "int (unat r) = int (unat (a AND op_mask n)) + int (unat (b AND op_mask n)) + of_bool k -
      (if cf c' then 2 ^ (8 * n) else 0)"
    by (simp add: r unat_masked bits_n)
  have "r = 0 \<longleftrightarrow> ?r = 0" unfolding spec(1) using width by (intro ucast_up_eq_0) simp
  then show "zf c' \<longleftrightarrow> r = 0" using spec(3) by simp
  show "sf c' \<longleftrightarrow> sint (sign_extend r n) < 0" using spec(4) rs by simp
  have d: "d = sint ?x + sint ?y + of_bool k" by (simp add: d_def sint_extend)
  have w: "?r = word_of_int d" by (simp add: d)
  show "of_flag c' \<longleftrightarrow> \<not> (- (2 ^ (8 * n - 1)) \<le> d \<and> d < 2 ^ (8 * n - 1))"
    using spec(5) fits_iff [OF w] by (simp add: d)
  show "\<not> of_flag c' \<Longrightarrow> sint (sign_extend r n) = d" using spec(5) rs by (simp add: d)
qed

lemma cmp_flags:
  fixes a b :: u32 and c :: cpu
  defines "c' \<equiv> snd (flags_sub a b 0 n c)"
  shows "cf c' \<longleftrightarrow> unat (a AND op_mask n) < unat (b AND op_mask n)"
    and "zf c' \<longleftrightarrow> unat (a AND op_mask n) = unat (b AND op_mask n)"
    and "zf c' \<longleftrightarrow> sint (sign_extend a n) = sint (sign_extend b n)"
    and "sf c' \<noteq> of_flag c' \<longleftrightarrow> sint (sign_extend a n) < sint (sign_extend b n)"
proof -
  let ?x = "ucast a :: 'w word" and ?y = "ucast b :: 'w word"
  note spec = flags_sub_spec [of a b False c, simplified, folded c'_def]
  show "cf c' \<longleftrightarrow> unat (a AND op_mask n) < unat (b AND op_mask n)"
    using spec(2) by (simp add: unat_masked word_less_nat_alt)
  show "zf c' \<longleftrightarrow> unat (a AND op_mask n) = unat (b AND op_mask n)"
    using spec(3) by (simp add: unat_masked word_unat_eq_iff)
  show "zf c' \<longleftrightarrow> sint (sign_extend a n) = sint (sign_extend b n)"
    using spec(3) by (auto simp: sint_extend intro: signed_word_eqI)
  show "sf c' \<noteq> of_flag c' \<longleftrightarrow> sint (sign_extend a n) < sint (sign_extend b n)"
    using spec(4,5) sub_overflow(2) [of ?x ?y False] by (simp add: sint_extend)
qed

end

interpretation w8: operand_width 1 "TYPE(8)"
  by unfold_locales (simp_all add: op_mask_def sign_bit_def sign_extend_def mask_eq_exp_minus_1 push_bit_of_1)

interpretation w16: operand_width 2 "TYPE(16)"
  by unfold_locales (simp_all add: op_mask_def sign_bit_def sign_extend_def mask_eq_exp_minus_1 push_bit_of_1)

interpretation w32: operand_width 4 "TYPE(32)"
  by unfold_locales (simp_all add: op_mask_def sign_bit_def sign_extend_def mask_eq_exp_minus_1 push_bit_of_1)

section \<open>Properties\<close>

lemma width_cases:
  assumes "n \<in> {1, 2, 4 :: nat}"
  obtains "n = 1" | "n = 2" | "n = 4" using assms by blast

text \<open>
  After a comparison the condition codes mean what their mnemonics say, at each operand
  width: below, above and their negations compare the operands as unsigned numbers, less, greater
  and their negations as signed ones.
\<close>

theorem cmp_conditions:
  assumes "n \<in> {1, 2, 4}"
  shows "let c' = snd (flags_sub a b 0 n c);
             u = (\<lambda>v. unat (v AND op_mask n)); s = (\<lambda>v. sint (sign_extend v n))
    in cond ''Jb'' c' = Some (u a < u b) \<and> cond ''Jae'' c' = Some (u a \<ge> u b) \<and>
       cond ''Jbe'' c' = Some (u a \<le> u b) \<and> cond ''Ja'' c' = Some (u a > u b) \<and>
       cond ''Je'' c' = Some (u a = u b) \<and> cond ''Jne'' c' = Some (u a \<noteq> u b) \<and>
       cond ''Jl'' c' = Some (s a < s b) \<and> cond ''Jge'' c' = Some (s a \<ge> s b) \<and>
       cond ''Jle'' c' = Some (s a \<le> s b) \<and> cond ''Jg'' c' = Some (s a > s b)"
proof -
  let ?c = "snd (flags_sub a b 0 n c)"
  have "(cf ?c \<longleftrightarrow> unat (a AND op_mask n) < unat (b AND op_mask n)) \<and>
      (zf ?c \<longleftrightarrow> unat (a AND op_mask n) = unat (b AND op_mask n)) \<and>
      (zf ?c \<longleftrightarrow> sint (sign_extend a n) = sint (sign_extend b n)) \<and>
      (sf ?c \<noteq> of_flag ?c \<longleftrightarrow> sint (sign_extend a n) < sint (sign_extend b n))"
    using assms w8.cmp_flags [of a b c] w16.cmp_flags [of a b c] w32.cmp_flags [of a b c]
    by (elim width_cases) simp_all
  then show ?thesis by (auto simp: cond_def Let_def)
qed

theorem cmp_conditions_witness:
  "cond ''Jb'' (snd (flags_sub 1 0xFF 0 1 cpu_new)) = Some True \<and> cond ''Jl'' (snd (flags_sub 1 0xFF 0 1 cpu_new)) = Some False"
  using cmp_conditions [of 1 1 "0xFF" cpu_new] by (simp add: Let_def op_mask_def sign_extend_def)

text \<open>
  Addition with carry: at each width the result and the carry flag together are the exact
  unsigned sum, the overflow flag is set exactly when the signed sum does not fit, and otherwise
  the result is the signed sum; zero and sign flags describe the result.
\<close>

theorem add_flags:
  assumes "n \<in> {1, 2, 4}"
  shows "case flags_add a b (of_bool k) n c of (r, c') \<Rightarrow>
    let d = sint (sign_extend a n) + sint (sign_extend b n) + of_bool k in
    int (unat r) = int (unat (a AND op_mask n)) + int (unat (b AND op_mask n)) + of_bool k -
      (if cf c' then 2 ^ (8 * n) else 0) \<and>
    (of_flag c' \<longleftrightarrow> \<not> (- (2 ^ (8 * n - 1)) \<le> d \<and> d < 2 ^ (8 * n - 1))) \<and>
    (\<not> of_flag c' \<longrightarrow> sint (sign_extend r n) = d) \<and>
    (zf c' \<longleftrightarrow> r = 0) \<and> (sf c' \<longleftrightarrow> sint (sign_extend r n) < 0)"
  using assms
proof (rule width_cases)
  assume "n = 1"
  then show ?thesis using w8.add_flags_width [of a b k c] by (simp add: split_beta Let_def)
next
  assume "n = 2"
  then show ?thesis using w16.add_flags_width [of a b k c] by (simp add: split_beta Let_def)
next
  assume "n = 4"
  then show ?thesis using w32.add_flags_width [of a b k c] by (simp add: split_beta Let_def)
qed

theorem add_flags_witness:
  "cf (snd (flags_add 0xFF 0x80 1 1 cpu_new)) \<and> of_flag (snd (flags_add 0xFF 0x80 0 1 cpu_new))"
proof
  show "cf (snd (flags_add 0xFF 0x80 1 1 cpu_new))"
    using add_flags [of 1 "0xFF" "0x80" True cpu_new] unat_bound [of "fst (flags_add 0xFF 0x80 1 1 cpu_new)"]
    by (auto simp: split_beta Let_def op_mask_def flags_add_def split: if_splits)
  show "of_flag (snd (flags_add 0xFF 0x80 0 1 cpu_new))"
    using add_flags [of 1 "0xFF" "0x80" False cpu_new] by (simp add: split_beta Let_def sign_extend_def)
qed

text \<open>Subtraction with borrow, likewise, with the carry flag as the borrow.\<close>

theorem sub_flags:
  assumes "n \<in> {1, 2, 4}"
  shows "case flags_sub a b (of_bool k) n c of (r, c') \<Rightarrow>
    let d = sint (sign_extend a n) - sint (sign_extend b n) - of_bool k in
    int (unat r) = int (unat (a AND op_mask n)) - int (unat (b AND op_mask n)) - of_bool k +
      (if cf c' then 2 ^ (8 * n) else 0) \<and>
    (of_flag c' \<longleftrightarrow> \<not> (- (2 ^ (8 * n - 1)) \<le> d \<and> d < 2 ^ (8 * n - 1))) \<and>
    (\<not> of_flag c' \<longrightarrow> sint (sign_extend r n) = d) \<and>
    (zf c' \<longleftrightarrow> r = 0) \<and> (sf c' \<longleftrightarrow> sint (sign_extend r n) < 0)"
  using assms
proof (rule width_cases)
  assume "n = 1"
  then show ?thesis using w8.sub_flags_width [of a b k c] by (simp add: split_beta Let_def)
next
  assume "n = 2"
  then show ?thesis using w16.sub_flags_width [of a b k c] by (simp add: split_beta Let_def)
next
  assume "n = 4"
  then show ?thesis using w32.sub_flags_width [of a b k c] by (simp add: split_beta Let_def)
qed

theorem sub_flags_witness: "of_flag (snd (flags_sub 0x80 1 0 1 cpu_new))"
  using sub_flags [of 1 "0x80" 1 False cpu_new] by (simp add: split_beta Let_def sign_extend_def)

end
