(* ===== verification/Emu_Arith.thy ===== *)
theory Emu_Arith
  imports Emu_Alu
begin

text \<open>
  Registers at their widths, multiplication and division, shifts and rotates: what the
  instruction arms compute, as arithmetic on numbers. The masks of the code are rewritten to
  \<open>mask\<close> and shifts of it, so that equations between register contents are decided bit by bit.
\<close>

section \<open>Masks\<close>

lemma masks:
  "(0xFF :: u32) = mask 8" "(0xFFFF :: u32) = mask 16" "(0xFFFFFF00 :: u32) = push_bit 8 (mask 24)"
  "(0xFFFF0000 :: u32) = push_bit 16 (mask 16)" "(0xFFFFFFFF :: u32) = mask 32"
  "(0xFFFF00FF :: u32) = mask 8 OR push_bit 16 (mask 16)"
  by (simp_all add: mask_eq_exp_minus_1)

lemma and_full [simp]: "x AND 0xFFFFFFFF = x" for x :: u32
  unfolding masks by (rule bit_word_eqI) (auto simp: bit_simps)

lemma reg_num_less: "reg_num k < 8"
proof -
  have "k AND 7 = take_bit 3 k" by (simp add: take_bit_eq_mask mask_eq_exp_minus_1)
  then show ?thesis by (simp add: reg_num_def take_bit_eq_mod unat_mod)
qed

section \<open>Registers\<close>


text \<open>
  The register file behaves as cells at each width: a write is read back cut to the width, it
  leaves every other register of that width alone, and writing back what was read changes
  nothing. In particular the high-byte registers alias the second byte of the first four and
  nothing else.
\<close>

theorem reg_cells:
  "reg_read k s (reg_write k s v c) = v AND op_mask (size_bytes s) \<and>
   (reg_num k \<noteq> reg_num j \<longrightarrow> reg_read j s (reg_write k s v c) = reg_read j s c) \<and>
   reg_write k s (reg_read k s c) c = c"
proof -
  have id: "set_reg r (reg c r) c = c" for r by (simp add: set_reg_def reg_def)
  have low: "((a AND push_bit 8 (mask 24)) OR (x AND mask 8)) AND mask 8 = x AND mask 8"
    "drop_bit 8 ((a AND push_bit 8 (mask 24)) OR (x AND mask 8)) AND mask 8 = drop_bit 8 a AND mask 8"
    "((a AND push_bit 16 (mask 16)) OR (x AND mask 16)) AND mask 16 = x AND mask 16"
    "drop_bit 8 ((a AND (mask 8 OR push_bit 16 (mask 16))) OR push_bit 8 (x AND mask 8)) AND mask 8 = x AND mask 8"
    "((a AND (mask 8 OR push_bit 16 (mask 16))) OR push_bit 8 (x AND mask 8)) AND mask 8 = a AND mask 8"
    "(a AND push_bit 8 (mask 24)) OR (a AND mask 8) = a"
    "(a AND push_bit 16 (mask 16)) OR (a AND mask 16) = a"
    "(a AND (mask 8 OR push_bit 16 (mask 16))) OR push_bit 8 (drop_bit 8 a AND mask 8) = a"
    "x AND mask 32 = x" for a x :: u32
    by (rule bit_word_eqI; auto simp: bit_simps)+
  show ?thesis
    using reg_num_less [of k] reg_num_less [of j]
    by (cases s) (auto simp: reg_read_def reg_write_def Let_def size_bytes_def op_mask_def masks low id
        simp del: push_bit_and push_bit_or drop_bit_and drop_bit_or)
qed

theorem reg_cells_witness:
  "reg_read 4 B1 (reg_write 4 B1 0x112 cpu_new) = 0x12 \<and> reg_read 0 B1 (reg_write 4 B1 0x112 cpu_new) = 0"
  using reg_cells [of 4 B1 "0x112" cpu_new 0]
  by (simp add: reg_num_def op_mask_def size_bytes_def) (simp add: reg_read_def reg_num_def cpu_new_def reg_def)

section \<open>Wide values\<close>

definition quot_reg :: "nat \<Rightarrow> cpu \<Rightarrow> u32" where
  "quot_reg n c = reg c EAX AND op_mask n"

definition rem_reg :: "nat \<Rightarrow> cpu \<Rightarrow> u32" where
  "rem_reg n c = (if n = 1 then drop_bit 8 (reg c EAX) AND 0xFF else reg c EDX AND op_mask n)"

lemma merge_bytes:
  fixes a q r :: u32
  shows "((a AND push_bit 16 (mask 16)) OR (q AND mask 8) OR push_bit 8 (r AND mask 8)) AND mask 8 = q AND mask 8"
    "drop_bit 8 ((a AND push_bit 16 (mask 16)) OR (q AND mask 8) OR push_bit 8 (r AND mask 8)) AND mask 8 = r AND mask 8"
    "((a AND push_bit 16 (mask 16)) OR (q AND mask 16)) AND mask 16 = q AND mask 16"
    "q AND mask 32 = q"
  by (rule bit_word_eqI; auto simp: bit_simps)+

lemma store_quot_rem_regs:
  assumes "n \<in> {1, 2, 4}"
  shows "quot_reg n (store_quot_rem q r n c) = q AND op_mask n" "rem_reg n (store_quot_rem q r n c) = r AND op_mask n"
  using assms
  by (auto simp: quot_reg_def rem_reg_def store_quot_rem_def Let_def op_mask_def masks merge_bytes
      simp del: push_bit_and push_bit_or drop_bit_and drop_bit_or)

lemma or_add_disjoint:
  fixes x y :: "'a::len word"
  assumes "k < LENGTH('a)" "unat x * 2 ^ k < 2 ^ LENGTH('a)" "unat y < 2 ^ k"
  shows "unat (push_bit k x OR y) = unat x * 2 ^ k + unat y"
proof -
  have "unat (push_bit k x) = take_bit LENGTH('a) (unat x * 2 ^ k)"
    using push_bit_eq_mult [of k "unat x"] by (simp only: unsigned_push_bit_eq)
  then have px: "unat (push_bit k x) = unat x * 2 ^ k"
    by (simp only: take_bit_nat_eq_self [OF assms(2)])
  have "push_bit k x AND y = 0"
  proof (rule bit_word_eqI)
    fix j assume "j < LENGTH('a)"
    have "\<not> bit y j" if "k \<le> j"
    proof -
      have "unat y < 2 ^ j" using assms(3) power_increasing [OF that, of "2 :: nat"] by linarith
      then have "\<not> bit (unat y) j" by (simp add: bit_iff_odd)
      then show ?thesis by (simp add: bit_unsigned_iff)
    qed
    then show "bit (push_bit k x AND y) j = bit 0 j" by (auto simp: bit_simps)
  qed
  then have "push_bit k x OR y = push_bit k x + y" by (simp add: disjunctive_add_eq_or)
  moreover have "unat x * 2 ^ k + unat y < 2 ^ LENGTH('a)"
  proof -
    have "unat x < 2 ^ (LENGTH('a) - k)"
      using assms(1,2) by (metis le_add_diff_inverse2 less_or_eq_imp_le mult_less_cancel2 power_add)
    then have "(unat x + 1) * 2 ^ k \<le> 2 ^ (LENGTH('a) - k) * 2 ^ k" by (intro mult_le_mono1) simp
    also have "\<dots> = 2 ^ LENGTH('a)" using assms(1) by (simp flip: power_add)
    finally show ?thesis using assms(3) by simp
  qed
  ultimately show ?thesis using px by (simp add: unat_word_ariths)
qed

definition dividend :: "nat \<Rightarrow> cpu \<Rightarrow> nat" where
  "dividend n c = (if n = 1 then unat (reg c EAX AND 0xFFFF)
     else unat (reg c EDX AND op_mask n) * 2 ^ (8 * n) + unat (reg c EAX AND op_mask n))"

lemma load_wide_value:
  assumes "n \<in> {1, 2, 4}"
  shows "unat (load_wide n c) = dividend n c"
proof -
  have lt16: "unat (x AND 0xFFFF) < 2 ^ 16" for x :: u32
    using w16.unat_masked [of x] unat_bound [of "ucast x :: u16"] by (simp add: op_mask_def)
  have lt32: "unat x < 2 ^ 32" for x :: u32 using unat_bound [of x] by simp
  have up: "unat (ucast x :: u64) = unat x" for x :: u32 by (rule unat_ucast_up) simp
  have "unat (push_bit 16 (ucast (x AND 0xFFFF)) OR ucast (y AND 0xFFFF) :: u64) =
      unat (x AND 0xFFFF) * 2 ^ 16 + unat (y AND 0xFFFF)" for x y :: u32
    using lt16 [of x] lt16 [of y] by (subst or_add_disjoint) (simp_all add: up)
  moreover have "unat (push_bit 32 (ucast x) OR ucast y :: u64) = unat x * 2 ^ 32 + unat y" for x y :: u32
    using lt32 [of x] lt32 [of y] by (subst or_add_disjoint) (simp_all add: up)
  ultimately show ?thesis using assms by (auto simp: load_wide_def dividend_def up op_mask_def)
qed

section \<open>Division\<close>

text \<open>
  Unsigned division of the double-width accumulator: it stops with a divide error exactly
  when the divisor is zero or the quotient does not fit the width, and otherwise leaves the
  quotient and the remainder of the division in their registers.
\<close>

theorem div_correct:
  assumes n: "op_size i 0 = n" "n \<in> {1, 2, 4}" and rd: "read_op i 0 (c, m) = (Done v, c, m')"
  shows "let d = unat (v AND op_mask n); num = dividend n c in
    if d = 0 \<or> 2 ^ (8 * n) \<le> num div d then exec_div i (c, m) = (Stopped DivideError, c, m')
    else \<exists>c'. exec_div i (c, m) = (Done (), c', m') \<and>
      num = unat (quot_reg n c') * d + unat (rem_reg n c') \<and> unat (rem_reg n c') < d"
proof -
  define d where "d = v AND op_mask n"
  define num where "num = load_wide n c"
  have run: "exec_div i (c, m) =
      (if d = 0 then (Stopped DivideError, c, m')
       else if ucast (op_mask n) < num div ucast d then (Stopped DivideError, c, m')
       else (Done (), store_quot_rem (ucast (num div ucast d)) (ucast (num mod ucast d)) n c, m'))"
    using rd n by (simp add: exec_div_def bind_x_def get_x_def put_x_def stop_x_def Let_def d_def num_def)
  have num: "unat num = dividend n c" unfolding num_def by (rule load_wide_value [OF n(2)])
  have up: "unat (ucast d :: u64) = unat d" by (rule unat_ucast_up) simp
  have q: "unat (num div ucast d) = dividend n c div unat d" "unat (num mod ucast d) = dividend n c mod unat d"
    by (simp_all add: unat_div unat_mod num up)
  have mask: "unat (ucast (op_mask n) :: u64) = 2 ^ (8 * n) - 1"
  proof -
    have "unat (ucast (op_mask n) :: u64) = unat (op_mask n)" by (rule unat_ucast_up) simp
    then show ?thesis using n(2) by (auto simp: op_mask_def)
  qed
  then have over: "ucast (op_mask n) < num div ucast d \<longleftrightarrow> 2 ^ (8 * n) \<le> dividend n c div unat d"
    by (simp add: word_less_nat_alt q less_eq_Suc_le)
  have fit: "unat (ucast x AND op_mask n :: u32) = unat x" if "unat x < 2 ^ (8 * n)" for x :: u64
  proof -
    have "unat x < 2 ^ 32" using that n(2) by auto
    then have "unat (ucast x :: u32) = unat x" by (simp add: unsigned_ucast_eq take_bit_nat_eq_self)
    moreover have "unat (w AND op_mask n) = unat w" if "unat w < 2 ^ (8 * n)" for w :: u32
      using that n(2) w8.unat_masked [of w] w16.unat_masked [of w]
      by (auto simp: unsigned_ucast_eq take_bit_nat_eq_self op_mask_def)
    ultimately show ?thesis using that by simp
  qed
  show ?thesis
  proof (cases "d = 0 \<or> 2 ^ (8 * n) \<le> dividend n c div unat d")
    case True
    then show ?thesis using run over by (auto simp: Let_def unat_gt_0 simp flip: d_def)
  next
    case False
    then have nz: "d \<noteq> 0" and lt: "dividend n c div unat d < 2 ^ (8 * n)" by auto
    have pos: "0 < unat d" using nz by (simp add: unat_gt_0)
    have "unat d \<le> 2 ^ (8 * n)"
      using n(2) w8.unat_masked [of v] w16.unat_masked [of v] unat_bound [of "ucast v :: u8"]
        unat_bound [of "ucast v :: u16"] unat_bound [of v] by (auto simp: d_def op_mask_def)
    then have rlt: "dividend n c mod unat d < 2 ^ (8 * n)"
      using mod_less_divisor [OF pos, of "dividend n c"] by linarith
    let ?c = "store_quot_rem (ucast (num div ucast d)) (ucast (num mod ucast d)) n c"
    have "unat (quot_reg n ?c) = dividend n c div unat d" "unat (rem_reg n ?c) = dividend n c mod unat d"
      using lt rlt by (simp_all add: store_quot_rem_regs [OF n(2)] fit q)
    moreover have "exec_div i (c, m) = (Done (), ?c, m')" using run nz over lt by simp
    ultimately show ?thesis using False pos by (auto simp: Let_def simp flip: d_def)
  qed
qed

definition reg_insn :: "mnemonic \<Rightarrow> insn" where
  "reg_insn mn = \<lparr>i_len = 2, i_mn = mn, i_ops = [Reg 1 B4, OpNone, OpNone], i_rep = False, i_repne = False,
     i_lock = False, i_osize = B4, i_addr16 = False\<rparr>"

definition div_cpu :: cpu where
  "div_cpu = set_reg EAX 100 (set_reg ECX 7 cpu_new)"

lemma reg_insn_read:
  "op_size (reg_insn mn) 0 = 4" "read_op (reg_insn mn) 0 (div_cpu, m) = (Done 7, div_cpu, m)"
  by (simp_all add: reg_insn_def op_size_def size_bytes_def read_op_def get_x_def reg_read_def reg_num_def div_cpu_def)

lemma div_cpu_dividend: "dividend 4 div_cpu = 100"
  by (simp add: dividend_def div_cpu_def cpu_new_def op_mask_def reg_def set_reg_def)

theorem div_correct_witness:
  "\<exists>c'. exec_div (reg_insn ''Div'') (div_cpu, demo_mem) = (Done (), c', demo_mem) \<and>
     100 = unat (quot_reg 4 c') * 7 + unat (rem_reg 4 c') \<and> unat (rem_reg 4 c') < 7"
  using div_correct [OF reg_insn_read(1) _ reg_insn_read(2), of "''Div''" demo_mem]
  by (simp add: Let_def div_cpu_dividend op_mask_def)

lemma quot_rem:
  assumes "b \<noteq> 0"
  shows "a = quot a b * b + rem a b" "\<bar>rem a b\<bar> < \<bar>b\<bar>" "rem a b = 0 \<or> sgn (rem a b) = sgn a"
proof -
  have "a = sgn a * \<bar>a\<bar>" "b = sgn b * \<bar>b\<bar>" by (simp_all add: sgn_mult_abs)
  moreover have "sgn b * sgn b = 1" using assms by (simp add: sgn_if)
  moreover have "\<bar>a\<bar> = \<bar>a\<bar> div \<bar>b\<bar> * \<bar>b\<bar> + \<bar>a\<bar> mod \<bar>b\<bar>" by simp
  ultimately show "a = quot a b * b + rem a b"
    unfolding quot_def rem_def by (metis (no_types, opaque_lifting) distrib_left mult.assoc mult.commute mult.left_neutral)
  have m: "0 \<le> \<bar>a\<bar> mod \<bar>b\<bar>" "\<bar>a\<bar> mod \<bar>b\<bar> < \<bar>b\<bar>" using assms by simp_all
  then show "\<bar>rem a b\<bar> < \<bar>b\<bar>" by (auto simp: rem_def abs_mult abs_sgn_eq)
  show "rem a b = 0 \<or> sgn (rem a b) = sgn a"
    using m by (cases "\<bar>a\<bar> mod \<bar>b\<bar> = 0") (auto simp: rem_def sgn_mult)
qed

context operand_width
begin

lemma sint_stored:
  assumes "- (2 ^ (8 * n - 1)) \<le> q" "q < 2 ^ (8 * n - 1)"
  shows "sint (sign_extend ((word_of_int q AND op_mask n) AND op_mask n) n) = q"
proof -
  have "(ucast (word_of_int q :: u32) :: 'w word) = word_of_int q"
    using width by (intro bit_word_eqI) (simp add: bit_simps)
  then have "sint (sign_extend ((word_of_int q AND op_mask n) AND op_mask n) n) = sint (word_of_int q :: 'w word)"
    by (simp only: sint_extend masked ucast_width)
  then show ?thesis using fits_iff [OF refl] assms by simp
qed

lemma sint_extend_range: "- (2 ^ (8 * n - 1)) \<le> sint (sign_extend v n)" "sint (sign_extend v n) < 2 ^ (8 * n - 1)"
  using sint_range [of "ucast v :: 'w word"] by (simp_all add: sint_extend bits_n)

end

text \<open>
  Signed division: a divide error exactly when the divisor is zero or the truncated quotient
  does not fit the width, including the one overflow of the 64-bit division; otherwise quotient
  and remainder satisfy the division law, the remainder is smaller than the divisor and has the
  dividend's sign.
\<close>

theorem idiv_correct:
  assumes n: "op_size i 0 = n" "n \<in> {1, 2, 4}" and rd: "read_op i 0 (c, m) = (Done v, c, m')"
  shows "let d = sint (sign_extend v n); num = load_wide_signed n c; lim = 2 ^ (8 * n - 1) in
    if d = 0 \<or> \<not> (- lim \<le> quot num d \<and> quot num d < lim)
    then exec_idiv i (c, m) = (Stopped DivideError, c, m')
    else \<exists>c'. exec_idiv i (c, m) = (Done (), c', m') \<and>
      (let q = sint (sign_extend (quot_reg n c') n); r = sint (sign_extend (rem_reg n c') n)
       in num = q * d + r \<and> \<bar>r\<bar> < \<bar>d\<bar> \<and> (r = 0 \<or> sgn r = sgn num))"
proof -
  define d where "d = sint (sign_extend v n)"
  define num where "num = load_wide_signed n c"
  define lim :: int where "lim = 2 ^ (8 * n - 1)"
  let ?c = "store_quot_rem (word_of_int (quot num d) AND op_mask n) (word_of_int (rem num d) AND op_mask n) n c"
  have chk: "0 < n" "n * 8 - 1 < 64" using n(2) by auto
  have lim63: "lim \<le> 2 ^ 31" using n(2) by (auto simp: lim_def)
  have run: "exec_idiv i (c, m) =
      (if d = 0 \<or> num = - (2 ^ 63) \<and> d = - 1 \<or> lim \<le> quot num d \<or> quot num d < - lim
       then (Stopped DivideError, c, m') else (Done (), ?c, m'))"
    using rd n(1) chk by (auto simp: exec_idiv_def bind_x_def then_x_def get_x_def put_x_def stop_x_def check_x_def
        Let_def checked_div_i64_def mult.commute [of "op_size i 0" 8] d_def num_def lim_def)
  have "quot (- (2 ^ 63)) (- 1) = 2 ^ 63" by (simp add: quot_def)
  then have over: "(d = 0 \<or> num = - (2 ^ 63) \<and> d = - 1 \<or> lim \<le> quot num d \<or> quot num d < - lim) \<longleftrightarrow>
      (d = 0 \<or> \<not> (- lim \<le> quot num d \<and> quot num d < lim))" using lim63 by auto
  show ?thesis
  proof (cases "d = 0 \<or> \<not> (- lim \<le> quot num d \<and> quot num d < lim)")
    case True
    then show ?thesis using run over
      by (simp only: Let_def d_def [symmetric] num_def [symmetric] lim_def [symmetric] if_True simp_thms)
  next
    case False
    then have nz: "d \<noteq> 0" and q: "- lim \<le> quot num d" "quot num d < lim" by auto
    have "- lim \<le> d \<and> d < lim"
      using n(2) w8.sint_extend_range [of v] w16.sint_extend_range [of v] w32.sint_extend_range [of v]
      by (auto simp: d_def lim_def)
    then have r: "- lim \<le> rem num d" "rem num d < lim" using quot_rem(2) [OF nz, of num] by auto
    have fit: "sint (sign_extend ((word_of_int x AND op_mask n) AND op_mask n) n) = x" if "- lim \<le> x" "x < lim" for x
      using that n(2) w8.sint_stored [of x] w16.sint_stored [of x] w32.sint_stored [of x] by (auto simp: lim_def)
    have regs: "sint (sign_extend (quot_reg n ?c) n) = quot num d" "sint (sign_extend (rem_reg n ?c) n) = rem num d"
      unfolding store_quot_rem_regs [OF n(2)] by (rule fit [OF q], rule fit [OF r])
    have "exec_idiv i (c, m) = (Done (), ?c, m')" using run over False by simp
    moreover have "num = quot num d * d + rem num d" "\<bar>rem num d\<bar> < \<bar>d\<bar>" "rem num d = 0 \<or> sgn (rem num d) = sgn num"
      by (rule quot_rem [OF nz])+
    ultimately show ?thesis using False
      by (simp only: Let_def d_def [symmetric] num_def [symmetric] lim_def [symmetric] if_False)
        (intro exI [of _ ?c], simp add: regs)
  qed
qed

lemma div_cpu_signed: "load_wide_signed 4 div_cpu = 100"
  by (simp add: load_wide_signed_def div_cpu_def cpu_new_def reg_def set_reg_def)

theorem idiv_correct_witness:
  "\<exists>c'. exec_idiv (reg_insn ''Idiv'') (div_cpu, demo_mem) = (Done (), c', demo_mem) \<and>
     100 = sint (quot_reg 4 c') * 7 + sint (rem_reg 4 c')"
  using idiv_correct [OF reg_insn_read(1) _ reg_insn_read(2), of "''Idiv''" demo_mem]
  by (auto simp: Let_def div_cpu_signed sign_extend_def quot_def)

section \<open>Multiplication\<close>

lemma unat_drop_bit: "unat (drop_bit k x) = unat x div 2 ^ k" for x :: "'a::len word"
  using drop_bit_eq_div [of k "unat x"] by (simp only: unsigned_drop_bit_eq take_bit_nat_eq_self [OF unat_bound])

lemma dividend_set_cf_of: "dividend n (set_cf_of b c) = dividend n c"
  by (simp add: dividend_def reg_def set_cf_of_def)

lemma reg_set_cf_of [simp]: "reg (set_cf_of b c) r = reg c r"
  by (simp add: set_cf_of_def reg_def)

lemma store_wide_value:
  assumes "n \<in> {1, 2, 4}" "unat full < 2 ^ (16 * n)"
  shows "dividend n (store_wide full n c) = unat full"
proof -
  have m16: "((a AND 0xFFFF0000) OR (x AND 0xFFFF)) AND 0xFFFF = x AND 0xFFFF" for a x :: u32
    unfolding masks by (rule merge_bytes)
  have low: "unat (ucast x AND 0xFFFF :: u32) = unat x mod 2 ^ 16" for x :: u64
  proof -
    have "(ucast (ucast x :: u32) :: u16) = ucast x" by (rule ucast_ucast_down) simp
    moreover have "op_mask 2 = 0xFFFF" by (simp add: op_mask_def)
    ultimately have "unat (ucast x AND 0xFFFF :: u32) = unat (ucast x :: u16)"
      using w16.unat_masked [of "ucast x"] by (simp only:)
    then show ?thesis by (simp add: unsigned_ucast_eq take_bit_eq_mod)
  qed
  have hi: "unat (drop_bit k full) = unat full div 2 ^ k" for k
    by (rule unat_drop_bit)
  have up: "unat (ucast x :: u32) = unat x mod 2 ^ 32" for x :: u64
    by (simp add: unsigned_ucast_eq take_bit_eq_mod)
  consider "n = 1" | "n = 2" | "n = 4" using assms(1) by blast
  then show ?thesis
  proof cases
    case 1
    then show ?thesis using assms(2) by (simp add: dividend_def store_wide_def m16 low)
  next
    case 2
    have "unat full div 2 ^ 16 mod 2 ^ 16 = unat full div 2 ^ 16"
      using assms(2) 2 by (intro mod_less) (simp add: less_mult_imp_div_less)
    then show ?thesis using 2 by (simp add: dividend_def store_wide_def Let_def m16 low op_mask_def hi)
  next
    case 3
    have "unat full div 2 ^ 32 mod 2 ^ 32 = unat full div 2 ^ 32"
      using assms(2) 3 by (intro mod_less) (simp add: less_mult_imp_div_less)
    then show ?thesis using 3 by (simp add: dividend_def store_wide_def op_mask_def up hi)
  qed
qed

text \<open>
  Unsigned multiplication leaves the exact double-width product in the accumulator pair, and
  carry and overflow say whether it exceeds the width.
\<close>

theorem mul_correct:
  assumes n: "op_size i 0 = n" "n \<in> {1, 2, 4}" and rd: "read_op i 0 (c, m) = (Done v, c, m')"
  shows "\<exists>c'. exec_mul i (c, m) = (Done (), c', m') \<and>
    (let p = unat (reg c EAX AND op_mask n) * unat (v AND op_mask n)
     in dividend n c' = p \<and> (cf c' \<longleftrightarrow> 2 ^ (8 * n) \<le> p) \<and> (of_flag c' \<longleftrightarrow> 2 ^ (8 * n) \<le> p))"
proof -
  define a where "a = reg c EAX AND op_mask n"
  define b where "b = v AND op_mask n"
  define full where "full = (ucast a * ucast b :: u64)"
  have lt: "unat (x AND op_mask n) < 2 ^ (8 * n)" for x :: u32
    using n(2) w8.unat_masked [of x] w16.unat_masked [of x] unat_bound [of "ucast x :: u8"]
      unat_bound [of "ucast x :: u16"] unat_bound [of x] by (auto simp: op_mask_def)
  have up: "unat (ucast x :: u64) = unat x" for x :: u32 by (rule unat_ucast_up) simp
  have "unat a * unat b < 2 ^ (8 * n) * 2 ^ (8 * n)"
    unfolding a_def b_def by (intro mult_strict_mono lt) simp_all
  also have "\<dots> = 2 ^ (16 * n)" by (simp flip: power_add)
  finally have pl: "unat a * unat b < 2 ^ (16 * n)" .
  then have "unat a * unat b < 2 ^ 64" using n(2) by auto
  then have full: "unat full = unat a * unat b" by (simp add: full_def unat_word_ariths up)
  let ?c = "set_cf_of (drop_bit (n * 8) full \<noteq> 0) (store_wide full n c)"
  have "n * 8 < 64" using n(2) by auto
  then have "exec_mul i (c, m) = (Done (), ?c, m')"
    using rd n(1) by (simp add: exec_mul_def bind_x_def then_x_def get_x_def put_x_def check_x_def Let_def
        full_def a_def b_def)
  moreover have "dividend n ?c = unat a * unat b"
    using store_wide_value [OF n(2), of full c] full pl by (simp add: dividend_set_cf_of)
  moreover have "drop_bit (n * 8) full \<noteq> 0 \<longleftrightarrow> 2 ^ (8 * n) \<le> unat a * unat b"
  proof -
    have "drop_bit (n * 8) full \<noteq> 0 \<longleftrightarrow> unat (drop_bit (n * 8) full) \<noteq> 0" by (simp add: unat_eq_zero)
    also have "\<dots> \<longleftrightarrow> 2 ^ (8 * n) \<le> unat full"
      unfolding unat_drop_bit by (simp add: div_eq_0_iff not_less mult.commute)
    finally show ?thesis by (simp only: full)
  qed
  ultimately show ?thesis by (intro exI [of _ ?c]) (simp add: Let_def a_def b_def, simp add: set_cf_of_def)
qed

theorem mul_correct_witness:
  "\<exists>c'. exec_mul (reg_insn ''Mul'') (div_cpu, demo_mem) = (Done (), c', demo_mem) \<and> dividend 4 c' = 700 \<and> \<not> cf c'"
proof -
  have "unat (reg div_cpu EAX AND op_mask 4) = 100" by (simp add: div_cpu_def op_mask_def)
  then show ?thesis using mul_correct [OF reg_insn_read(1) _ reg_insn_read(2), of "''Mul''" demo_mem]
    by (auto simp: Let_def op_mask_def)
qed

end
