(* ===== verification/Emu_Shift.thy ===== *)
theory Emu_Shift
  imports Emu_Alu
begin

text \<open>Shifts as multiplication and division by powers of two, and the rotates as inverses.\<close>

section \<open>Shifts\<close>

lemma and_one_iff: "x AND 1 \<noteq> 0 \<longleftrightarrow> odd x" for x :: "'a::len word"
  by (simp add: and_one_eq odd_iff_mod_2_eq_one)

lemma drop_bit_odd: "drop_bit k x AND 1 \<noteq> 0 \<longleftrightarrow> bit x k" for x :: "'a::len word"
  unfolding and_one_iff bit_iff_odd_drop_bit ..

lemma div_in_range:
  fixes s l p :: int
  assumes "- l \<le> s" "s < l" "0 < p"
  shows "- l \<le> s div p" "s div p < l"
proof -
  have s: "s = s div p * p + s mod p" "0 \<le> s mod p" "s mod p < p" using assms(3) by simp_all
  have l: "0 < l" using assms(1,2) by linarith
  show "- l \<le> s div p"
  proof (rule ccontr)
    assume "\<not> - l \<le> s div p"
    then have "(s div p + 1) * p \<le> (- l) * p" using assms(3) by (intro mult_right_mono) simp_all
    then have "s div p * p + p \<le> - (l * p)" by (simp add: algebra_simps)
    then have "s < - (l * p)" using s by linarith
    moreover have "l * 1 \<le> l * p" using l assms(3) by (intro mult_left_mono) simp_all
    ultimately show False using assms(1) by simp
  qed
  show "s div p < l"
  proof (rule ccontr)
    assume "\<not> s div p < l"
    then have "l * p \<le> s div p * p" using assms(3) by (intro mult_right_mono) simp_all
    moreover have "l * 1 \<le> l * p" using l assms(3) by (intro mult_left_mono) simp_all
    ultimately show False using s assms(2) by linarith
  qed
qed

context operand_width
begin

lemma unat_take: "unat (w AND op_mask n) = unat w mod 2 ^ (8 * n)"
proof -
  have "w AND op_mask n = take_bit LENGTH('w) w" unfolding mask_n by (simp add: take_bit_eq_mask)
  then show ?thesis using take_bit_eq_mod [of "LENGTH('w)" "unat w"] by (simp only: unsigned_take_bit_eq bits_n)
qed

lemma unat_shl: "unat (push_bit k v AND op_mask n) = unat v * 2 ^ k mod 2 ^ (8 * n)" for v :: u32
proof -
  have le: "(2 :: nat) ^ (8 * n) dvd 2 ^ 32" using width bits_n by (intro le_imp_power_dvd) simp
  have "unat (push_bit k v) = (unat v * 2 ^ k) mod 2 ^ 32"
    using push_bit_eq_mult [of k "unat v"] by (simp only: unsigned_push_bit_eq take_bit_eq_mod len_of_numeral_defs) simp
  then show ?thesis unfolding unat_take using mod_mod_cancel [OF le] by (simp only:)
qed

lemma sint_sar:
  "sint (sign_extend (signed_drop_bit k (sign_extend v n) AND op_mask n) n) = sint (sign_extend v n) div 2 ^ k"
proof -
  let ?s = "sint (sign_extend v n)"
  have r: "- (2 ^ (8 * n - 1)) \<le> ?s" "?s < 2 ^ (8 * n - 1)"
    using sint_range [of "ucast v :: 'w word"] by (simp_all add: sint_extend bits_n)
  have "sint (signed_drop_bit k (sign_extend v n)) = ?s div 2 ^ k"
    using drop_bit_eq_div [of k ?s] by (simp only: sint_signed_drop_bit_eq)
  then have w: "signed_drop_bit k (sign_extend v n) = word_of_int (?s div 2 ^ k)"
    using word_of_sint [of "signed_drop_bit k (sign_extend v n)"] by (simp only:)
  have q: "- (2 ^ (8 * n - 1)) \<le> ?s div 2 ^ k" "?s div 2 ^ k < 2 ^ (8 * n - 1)"
    using div_in_range [OF r, of "2 ^ k"] by simp_all
  have "(ucast (word_of_int (?s div 2 ^ k) :: u32) :: 'w word) = word_of_int (?s div 2 ^ k)"
    using width by (intro bit_word_eqI) (simp add: bit_simps)
  then have "sint (sign_extend (signed_drop_bit k (sign_extend v n) AND op_mask n) n) =
      sint (word_of_int (?s div 2 ^ k) :: 'w word)"
    by (simp only: sint_extend masked ucast_width w)
  then show ?thesis using fits_iff [OF refl] q by simp
qed

end

text \<open>
  The shift instructions at each width and for counts 1 to 31: \<^verbatim>\<open>shl\<close> is multiplication by the
  power of two modulo the width, \<^verbatim>\<open>shr\<close> unsigned and \<^verbatim>\<open>sar\<close> signed division rounding down; the
  carry is the last bit shifted out, as long as the count does not exceed the width.
\<close>

theorem shift_values:
  assumes "n \<in> {1, 2, 4}" "0 < k" "k < 32"
  shows "(\<exists>r c'. shl_result v k n c = Some (r, c') \<and> unat r = unat v * 2 ^ k mod 2 ^ (8 * n) \<and>
      (cf c' \<longleftrightarrow> k \<le> 8 * n \<and> bit v (8 * n - k))) \<and>
    (\<exists>r c'. shr_result v k n c = Some (r, c') \<and> unat r = unat v div 2 ^ k \<and> (cf c' \<longleftrightarrow> k \<le> 8 * n \<and> bit v (k - 1))) \<and>
    (\<exists>r c'. sar_result v k n c = Some (r, c') \<and> sint (sign_extend r n) = sint (sign_extend v n) div 2 ^ k \<and>
      (cf c' \<longleftrightarrow> bit (sign_extend v n) (k - 1)))"
proof -
  have k: "min k 31 = k" using assms(3) by simp
  have cf: "cf (set_of_if b x c') = cf c'" for b x c' by (simp add: set_of_if_def)
  have n: "n * 8 - min k (n * 8) < 32" using assms by auto
  have "unat (push_bit k v AND op_mask n) = unat v * 2 ^ k mod 2 ^ (8 * n) \<and>
      sint (sign_extend (signed_drop_bit k (sign_extend v n) AND op_mask n) n) = sint (sign_extend v n) div 2 ^ k"
    using assms(1) w8.unat_shl w16.unat_shl w32.unat_shl w8.sint_sar w16.sint_sar w32.sint_sar
    by (elim width_cases) simp_all
  moreover have "unat (drop_bit k v) = unat v div 2 ^ k"
    using drop_bit_eq_div [of k "unat v"] by (simp only: unsigned_drop_bit_eq take_bit_nat_eq_self [OF unat_bound])
  moreover have "signed_drop_bit (k - 1) w AND 1 \<noteq> 0 \<longleftrightarrow> bit w (k - 1)" for w :: u32
    using assms(2,3) drop_bit_odd [of 0 "signed_drop_bit (k - 1) w"] by (auto simp: bit_simps)
  ultimately show ?thesis using k n assms(2,3)
    by (auto simp: shl_result_def shr_result_def sar_result_def chk_sub_def chk_shr_def Let_def cf drop_bit_odd min_def mult.commute)
qed

theorem shift_values_witness:
  "(\<exists>r c'. sar_result 0x80 3 1 cpu_new = Some (r, c') \<and> sint (sign_extend r 1) = - 16) \<and>
   (\<exists>r c'. shl_result 0x81 1 1 cpu_new = Some (r, c') \<and> unat r = 2)"
  using shift_values [of 1 3 "0x80" cpu_new] shift_values [of 1 1 "0x81" cpu_new] by (auto simp: sign_extend_def)

section \<open>Rotates\<close>

lemma rotate_inverse:
  fixes v :: u32
  assumes "0 < k" "k < b" "b \<le> 32" "v AND mask b = v"
  defines "r \<equiv> (push_bit k v OR drop_bit (b - k) v) AND mask b"
  shows "(drop_bit k r OR push_bit (b - k) r) AND mask b = v"
    and "r AND mask b = r"
proof -
  have high: "\<not> bit v j" if "b \<le> j" for j
    using that assms(4) by (metis bit_and_iff bit_mask_iff not_less)
  have r: "bit r j \<longleftrightarrow> j < b \<and> bit v (if k \<le> j then j - k else j + b - k)" for j
  proof (cases "k \<le> j")
    case True
    have "\<not> bit v (j + b - k)" using True by (intro high) simp
    then show ?thesis using True assms(1-3) unfolding r_def by (auto simp: bit_simps add.commute)
  next
    case False
    then show ?thesis using assms(1-3) unfolding r_def by (auto simp: bit_simps add.commute)
  qed
  show "(drop_bit k r OR push_bit (b - k) r) AND mask b = v"
  proof (rule bit_word_eqI)
    fix j assume j: "j < LENGTH(32)"
    consider "b \<le> j" | "j < b" "j + k < b" | "j < b" "b \<le> j + k" by linarith
    then show "bit ((drop_bit k r OR push_bit (b - k) r) AND mask b) j = bit v j"
    proof cases
      case 1
      then show ?thesis using high by (auto simp: bit_simps)
    next
      case 2
      then have "bit r (k + j) = bit v j" "\<not> b - k \<le> j" using r [of "k + j"] by auto
      then show ?thesis using 2 j assms(3) by (auto simp: bit_simps)
    next
      case 3
      then have "bit r (j - (b - k)) = bit v j" "\<not> bit r (k + j)"
        using r [of "j - (b - k)"] r [of "k + j"] assms(1,2) by (auto simp: add.commute)
      then show ?thesis using 3 j assms(2,3) by (auto simp: bit_simps)
    qed
  qed
  show "r AND mask b = r" unfolding r_def by (rule bit_word_eqI) (auto simp: bit_simps)
qed

text \<open>
  Rotating left and then right by the same count gives back the operand at each width, and
  rotating leaves the value within the width.
\<close>

theorem rol_ror:
  assumes "n \<in> {1, 2, 4}" "k < 32" "v AND op_mask n = v"
  shows "\<exists>r c1 c2. rol_result v k n c = Some (r, c1) \<and> ror_result r k n c' = Some (v, c2) \<and> r AND op_mask n = r"
proof (cases "k mod (n * 8) = 0")
  case True
  have "n * 8 \<noteq> 0" "2 \<le> n * 8" "n * 8 - 2 < 32" using assms(1) by auto
  then show ?thesis using True assms(3)
    by (simp add: rol_result_def ror_result_def chk_rem_def chk_sub_def chk_shr_def Let_def)
next
  case False
  define j r where "j = k mod (n * 8)" and "r = (push_bit j v OR drop_bit (n * 8 - j) v) AND mask (n * 8)"
  have mask: "op_mask n = mask (n * 8)" and b: "n * 8 \<le> 32" "0 < n * 8"
    using assms(1) by (auto simp: op_mask_def mask_eq_exp_minus_1)
  have rem: "chk_rem k (n * 8) = Some j" using b by (simp add: chk_rem_def j_def)
  have j: "0 < j" "j < n * 8" using False b(2) by (simp_all add: j_def)
  have chk: "j < 32" "n * 8 - j < 32" "j \<le> n * 8" "2 \<le> n * 8" "n * 8 - 2 < 32"
    using j b assms(1) by auto
  note inv = rotate_inverse [OF j b(1), of v, folded r_def] assms(3) [unfolded mask]
  have "\<exists>c1. rol_result v k n c = Some (r, c1)"
    using j chk by (simp add: rol_result_def rem mask chk_sub_def chk_shr_def chk_shl_def r_def Let_def)
  moreover have "\<exists>c2. ror_result r k n c' = Some (v, c2)"
    using j chk inv by (simp add: ror_result_def rem mask chk_sub_def chk_shr_def chk_shl_def Let_def)
  ultimately show ?thesis using inv by (auto simp: mask)
qed

theorem rol_ror_witness:
  "\<exists>r c1 c2. rol_result 0x81 3 1 cpu_new = Some (r, c1) \<and> ror_result r 3 1 cpu_new = Some (0x81, c2)"
  using rol_ror [of 1 3 "0x81" cpu_new cpu_new] by (auto simp: op_mask_def)

end
