(* ===== verification/Emu_Rep.thy ===== *)
theory Emu_Rep
  imports Emu_Frame Emu_Alu
begin

text \<open>
  The \<^verbatim>\<open>rep\<close> string loop: the work it is charged for is the work it did, whether it completes or
  faults half-way, and \<^verbatim>\<open>rep movsb\<close> and \<^verbatim>\<open>rep stosb\<close> copy and fill memory byte by byte, which
  for overlapping ranges repeats a pattern as decompressors rely on.
\<close>

section \<open>Accounting\<close>

definition same_count :: "machine \<Rightarrow> machine \<Rightarrow> bool" where
  "same_count s t \<longleftrightarrow> reg (fst t) ECX = reg (fst s) ECX \<and> partial_ticks (fst t) = partial_ticks (fst s)"

interpretation cnt: exec_frame same_count
  by unfold_locales (simp_all add: same_count_def)

lemma cnt_mem_x: "exec_rel same_count (mem_x g)"
  by (rule cnt.frame_mem) (simp add: same_count_def)

lemma cnt_mem: "exec_rel same_count (read_mem a n)" "exec_rel same_count (write_mem a n v)"
  by (simp_all add: read_mem_def write_mem_def cnt_mem_x cnt.frame_rules)

lemma string_one_count: "exec_rel same_count (string_one kind n delta)"
proof -
  have "exec_rel same_count (put_x (\<lambda>c. bump EDI delta (bump ESI delta c)))"
    "exec_rel same_count (put_x (bump EDI delta))"
    "exec_rel same_count (put_x (\<lambda>c. bump ESI delta (set_reg EAX ((reg c EAX AND NOT (op_mask n)) OR v) c)))" for v
    by (rule cnt.frame_put; simp add: same_count_def; simp add: bump_def)+
  moreover have "exec_rel same_count (cpu_x (flags_sub a b 0 n))" for a b
    by (rule cnt.frame_cpu) (simp add: same_count_def)
  ultimately show ?thesis
    by (cases kind) (auto simp: string_one_def split_beta intro!: cnt.frame_rules cnt_mem)
qed

text \<open>Charged \<open>ticks\<close> before, an execution from \<open>c\<close> that ends as \<open>r\<close> is charged for what it did.\<close>

definition charged :: "u64 \<Rightarrow> cpu \<Rightarrow> u64 outcome \<times> machine \<Rightarrow> bool" where
  "charged ticks c res =
     (case res of (r, c', m') \<Rightarrow>
        reg c' ECX \<le> reg c ECX \<and>
        (let done = ticks + (ucast (reg c ECX) - ucast (reg c' ECX))
         in case r of
              Done t \<Rightarrow> t = done
            | Stopped e \<Rightarrow> partial_ticks c' = saturating_add (partial_ticks c) done
            | Panicked \<Rightarrow> True))"

lemma ucast_pred:
  fixes x :: u32
  assumes "x \<noteq> 0"
  shows "ucast (x - 1) = (ucast x - 1 :: u64)"
proof -
  have "(ucast x :: u64) \<noteq> 0" using ucast_up_eq_0 [of x, where 'b = 64] assms by simp
  then have "unat (ucast x - 1 :: u64) = unat x - 1"
    using unat_ucast_up [of x, where 'b = 64] by (simp add: unat_minus_one)
  moreover have "unat (ucast (x - 1) :: u64) = unat x - 1"
    using unat_ucast_up [of "x - 1", where 'b = 64] assms by (simp add: unat_minus_one)
  ultimately show ?thesis by (simp add: word_unat_eq_iff)
qed

lemma charged_step:
  assumes "charged (ticks + 1) c2 res" "reg c ECX \<noteq> 0" "reg c2 ECX = reg c ECX - 1" "partial_ticks c2 = partial_ticks c"
  shows "charged ticks c res"
proof -
  have "reg c ECX - 1 \<le> reg c ECX" using assms(2) by (simp add: word_le_nat_alt unat_minus_one)
  then have le: "reg c2 ECX \<le> reg c ECX" using assms(3) by simp
  have u: "(ucast (reg c ECX) :: u64) = ucast (reg c2 ECX) + 1"
    unfolding assms(3) ucast_pred [OF assms(2)] by simp
  obtain r c' m' where res: "res = (r, c', m')" by (cases res) auto
  have "reg c' ECX \<le> reg c2 ECX" using assms(1) by (simp add: charged_def res)
  then have "reg c' ECX \<le> reg c ECX" using le by (rule order_trans)
  moreover have "ticks + (ucast (reg c ECX) - ucast (reg c' ECX)) = (ticks + 1) + (ucast (reg c2 ECX) - ucast (reg c' ECX))"
    unfolding u by simp
  ultimately show ?thesis using assms(1,4) unfolding charged_def res by (simp only: prod.case Let_def)
qed

text \<open>
  A repeated string instruction never counts more iterations than ECX held, and what it is
  charged is exactly what it did: on completion the ticks returned, and on a fault the ticks left
  in \<^verbatim>\<open>partial_ticks\<close>, are the amount by which it lowered ECX.
\<close>

theorem rep_accounting: "charged ticks c (string_loop kind n delta True repne ticks (c, m))"
proof (induction "unat (reg c ECX)" arbitrary: c m ticks rule: less_induct)
  case less
  obtain r c1 m1 where one: "string_one kind n delta (c, m) = (r, c1, m1)" by (cases "string_one kind n delta (c, m)") auto
  have same: "reg c1 ECX = reg c ECX" "partial_ticks c1 = partial_ticks c"
    using exec_relD [OF string_one_count one] by (simp_all add: same_count_def)
  show ?case
  proof (cases "reg c ECX = 0")
    case True
    then show ?thesis by (simp add: string_loop.simps charged_def)
  next
    case False
    let ?c = "set_reg ECX (reg c1 ECX - 1) c1"
    have lt: "unat (reg ?c ECX) < unat (reg c ECX)" using False same by (simp add: unat_minus_one unat_gt_0)
    have later: "charged ticks c res" if "charged (ticks + 1) ?c res" for res
      using that False same by (intro charged_step [of ticks ?c]) simp_all
    have stop: "charged (ticks + 1) ?c (Done (ticks + 1), ?c, m1)" by (simp add: charged_def)
    show ?thesis
    proof (cases r)
      case (Done u)
      then have "string_loop kind n delta True repne ticks (c, m) =
          (if kind \<in> {Scas, Cmps} \<and> (if repne then zf ?c else \<not> zf ?c) then (Done (ticks + 1), ?c, m1)
           else string_loop kind n delta True repne (ticks + 1) (?c, m1))"
        using one False by (subst string_loop.simps) (simp add: Let_def)
      then show ?thesis using later [OF stop] later [OF less.hyps [OF lt, of "ticks + 1" m1]] by simp
    next
      case (Stopped e)
      have "string_loop kind n delta True repne ticks (c, m) =
          (Stopped e, c1\<lparr>partial_ticks := saturating_add (partial_ticks c1) ticks\<rparr>, m1)"
        using one False Stopped by (subst string_loop.simps) simp
      then show ?thesis using same by (simp add: charged_def reg_def)
    next
      case Panicked
      have "string_loop kind n delta True repne ticks (c, m) = (Panicked, c1, m1)"
        using one False Panicked by (subst string_loop.simps) simp
      then show ?thesis using same by (simp add: charged_def)
    qed
  qed
qed

section \<open>Copy and fill\<close>

text \<open>Copying forward one byte at a time, each read seeing the writes before it.\<close>

fun copy_fwd :: "(u32 \<Rightarrow> u8 option) \<Rightarrow> u32 \<Rightarrow> u32 \<Rightarrow> nat \<Rightarrow> u32 \<Rightarrow> u8 option" where
  "copy_fwd f si di 0 = f"
| "copy_fwd f si di (Suc k) = copy_fwd (f(di := f si)) (si + 1) (di + 1) k"

lemma read_mem_byte:
  assumes "mem_inv m" "byte_at m a = Some b"
  obtains m' where "read_mem a 1 (c, m) = (Done (ucast b), c, m')" "mem_inv m'" "byte_at m' = byte_at m"
proof -
  obtain r m' where r: "read_u8 m a = (r, m')" by force
  have "r = Inr b" "mem_inv m'" "byte_at m' = byte_at m"
    using read_u8_spec [OF assms(1), of a] assms(2) r same_mem_byte_at by auto
  then show ?thesis using that r by (simp add: read_mem_def bind_x_def mem_x_def ret_x_def)
qed

lemma write_mem_byte:
  assumes "mem_inv m" "byte_at m a \<noteq> None"
  obtains m' where "write_mem a 1 v (c, m) = (Done (), c, m')" "mem_inv m'" "byte_at m' = (byte_at m)(a \<mapsto> ucast v)"
proof -
  obtain m' where "write_u8 m a (ucast v) = (Inr (), m')" "mem_inv m'" "byte_at m' = (byte_at m)(a \<mapsto> ucast v)"
    by (rule write_u8_Some [OF assms])
  then show ?thesis using that by (simp add: write_mem_def mem_x_def)
qed

lemma movsb_one:
  assumes "mem_inv m" "byte_at m (reg c ESI) = Some b" "byte_at m (reg c EDI) \<noteq> None"
  obtains m' where "string_one Movs 1 1 (c, m) = (Done (), bump EDI 1 (bump ESI 1 c), m')" "mem_inv m'"
    "byte_at m' = (byte_at m)(reg c EDI \<mapsto> b)"
proof -
  obtain m1 where 1: "read_mem (reg c ESI) 1 (c, m) = (Done (ucast b), c, m1)" "mem_inv m1" "byte_at m1 = byte_at m"
    by (rule read_mem_byte [OF assms(1,2), of c])
  then have "byte_at m1 (reg c EDI) \<noteq> None" using assms(3) by simp
  from write_mem_byte [OF 1(2) this, of "ucast b" c]
  obtain m2 where "write_mem (reg c EDI) 1 (ucast b) (c, m1) = (Done (), c, m2)" "mem_inv m2"
    "byte_at m2 = (byte_at m)(reg c EDI \<mapsto> b)" using 1(3) by (auto simp: ucast_ucast_down)
  then show ?thesis using that 1(1) by (simp add: string_one_def bind_x_def then_x_def get_x_def put_x_def)
qed

lemma loop_once:
  assumes "string_one kind n delta (c, m) = (Done (), c1, m1)" "reg c1 ECX = reg c ECX" "reg c ECX \<noteq> 0" "kind \<notin> {Scas, Cmps}"
  shows "string_loop kind n delta True repne ticks (c, m) =
         string_loop kind n delta True repne (ticks + 1) (set_reg ECX (reg c ECX - 1) c1, m1)"
  using assms by (subst string_loop.simps) (simp add: Let_def)

text \<open>The state of the loop after all of ECX is used up, the pointers having moved by as much.\<close>

definition moved :: "cpu \<Rightarrow> cpu \<Rightarrow> bool \<Rightarrow> bool" where
  "moved c c' src \<longleftrightarrow>
     reg c' ECX = 0 \<and> reg c' EDI = reg c EDI + reg c ECX \<and>
     reg c' ESI = (if src then reg c ESI + reg c ECX else reg c ESI) \<and>
     (\<forall>q. q \<notin> {ECX, EDI, ESI} \<longrightarrow> reg c' q = reg c q)"

lemma moved_step:
  assumes "moved (set_reg ECX (reg c ECX - 1) (bump EDI 1 (if src then bump ESI 1 c else c))) c' src"
  shows "moved c c' src"
  using assms unfolding moved_def by (auto simp: bump_def)

lemma below_3: "(\<forall>j < unat (3 :: u32). P j) \<longleftrightarrow> P 0 \<and> P 1 \<and> P 2"
proof -
  have "j < 3 \<Longrightarrow> j = 0 \<or> j = 1 \<or> j = 2" for j :: nat by arith
  then show ?thesis by auto
qed

lemma ecx_pred: "Suc k = unat x \<Longrightarrow> k = unat (x - 1)" for x :: u32
  by (subst unat_minus_one) auto

lemma movsb_loop:
  assumes "mem_inv m" "k = unat (reg c ECX)"
    "\<And>j. j < k \<Longrightarrow> byte_at m (reg c ESI + of_nat j) \<noteq> None"
    "\<And>j. j < k \<Longrightarrow> byte_at m (reg c EDI + of_nat j) \<noteq> None"
  shows "\<exists>c' m'. string_loop Movs 1 1 True repne ticks (c, m) = (Done (ticks + of_nat k), c', m') \<and> mem_inv m' \<and>
    byte_at m' = copy_fwd (byte_at m) (reg c ESI) (reg c EDI) k \<and> moved c c' True"
  using assms
proof (induction k arbitrary: c m ticks)
  case 0
  then have "reg c ECX = 0" by (metis unat_eq_zero)
  then show ?case using 0 by (simp add: string_loop.simps moved_def)
next
  case (Suc k)
  have nz: "reg c ECX \<noteq> 0" using Suc.prems(2) by auto
  obtain b where b: "byte_at m (reg c ESI) = Some b" using Suc.prems(3) [of 0] by auto
  have "byte_at m (reg c EDI) \<noteq> None" using Suc.prems(4) [of 0] by simp
  from movsb_one [OF Suc.prems(1) b this]
  obtain m1 where one: "string_one Movs 1 1 (c, m) = (Done (), bump EDI 1 (bump ESI 1 c), m1)" and inv: "mem_inv m1"
    and bytes: "byte_at m1 = (byte_at m)(reg c EDI \<mapsto> b)" by blast
  let ?c = "set_reg ECX (reg c ECX - 1) (bump EDI 1 (bump ESI 1 c))"
  have regs: "reg ?c ECX = reg c ECX - 1" "reg ?c ESI = reg c ESI + 1" "reg ?c EDI = reg c EDI + 1"
    by (simp_all add: bump_def)
  have step: "string_loop Movs 1 1 True repne ticks (c, m) = string_loop Movs 1 1 True repne (ticks + 1) (?c, m1)"
    using nz by (intro loop_once [OF one]) (simp_all add: bump_def)
  have k: "k = unat (reg ?c ECX)" unfolding regs by (rule ecx_pred [OF Suc.prems(2)])
  have "byte_at m1 (reg ?c ESI + of_nat j) \<noteq> None" "byte_at m1 (reg ?c EDI + of_nat j) \<noteq> None" if "j < k" for j
    using Suc.prems(3,4) [of "Suc j"] that unfolding regs bytes by (simp_all add: ac_simps)
  from Suc.IH [OF inv k this, of "ticks + 1"]
  obtain c' m' where r: "string_loop Movs 1 1 True repne (ticks + 1) (?c, m1) = (Done (ticks + 1 + of_nat k), c', m')" "mem_inv m'"
    "byte_at m' = copy_fwd (byte_at m1) (reg c ESI + 1) (reg c EDI + 1) k" and mv: "moved ?c c' True"
    unfolding regs by blast
  have "moved c c' True" by (rule moved_step) (use mv in simp)
  moreover have "copy_fwd (byte_at m1) (reg c ESI + 1) (reg c EDI + 1) k = copy_fwd (byte_at m) (reg c ESI) (reg c EDI) (Suc k)"
    by (simp add: bytes b)
  moreover have "ticks + 1 + of_nat k = ticks + of_nat (Suc k)" by simp
  ultimately show ?case using r unfolding step by metis
qed

text \<open>
  A \<^verbatim>\<open>rep movsb\<close> with the direction flag clear, whose source and destination bytes are all
  mapped, always completes: it leaves ECX at zero and both pointers advanced by the old ECX, it
  counts that many ticks (at least one), and memory afterwards is what copying one byte after the
  other gives, so a destination overlapping the source repeats the pattern between them.
\<close>

theorem rep_movsb_copies:
  assumes "i_mn i = ''Movsb''" "op_count i = 0" "i_rep i" "\<not> df c" "mem_inv m"
    "\<forall>j < unat (reg c ECX). byte_at m (reg c ESI + of_nat j) \<noteq> None \<and> byte_at m (reg c EDI + of_nat j) \<noteq> None"
  shows "\<exists>c' m'. string_op i (c, m) = (Done (Some (max (ucast (reg c ECX)) 1)), c', m') \<and> mem_inv m' \<and>
    byte_at m' = copy_fwd (byte_at m) (reg c ESI) (reg c EDI) (unat (reg c ECX)) \<and> moved c c' True"
proof -
  have "string_kind ''Movsb'' = Some (Movs, 1)" by (simp add: string_kind_def)
  moreover have "of_nat (unat (reg c ECX)) = (ucast (reg c ECX) :: u64)" by simp
  ultimately show ?thesis
    using movsb_loop [OF assms(5) refl, of c "i_repne i" 0] assms(1-4,6)
    by (auto simp: string_op_def bind_x_def get_x_def ret_x_def)
qed

definition copy_insn :: insn where
  "copy_insn = \<lparr>i_len = 2, i_mn = ''Movsb'', i_ops = [OpNone, OpNone, OpNone], i_rep = True, i_repne = False,
     i_lock = False, i_osize = B4, i_addr16 = False\<rparr>"

definition copy_cpu :: cpu where
  "copy_cpu = set_reg ESI 0x1000 (set_reg EDI 0x1001 (set_reg ECX 3 cpu_new))"

definition copy_mem :: mem where
  "copy_mem = snd (write_u8 demo_mem 0x1000 0x41)"

theorem rep_movsb_copies_witness:
  "\<exists>c' m'. string_op copy_insn (copy_cpu, copy_mem) = (Done (Some 3), c', m') \<and> byte_at m' 0x1003 = Some 0x41 \<and>
     reg c' ECX = 0 \<and> reg c' EDI = 0x1004"
proof -
  have i: "i_mn copy_insn = ''Movsb''" "op_count copy_insn = 0" "i_rep copy_insn" by (simp_all add: copy_insn_def op_count_def)
  have r: "reg copy_cpu ESI = 0x1000" "reg copy_cpu EDI = 0x1001" "reg copy_cpu ECX = 3" "\<not> df copy_cpu"
    by (simp_all add: copy_cpu_def cpu_new_def set_reg_def reg_def)
  have b: "byte_at copy_mem = (byte_at demo_mem)(0x1000 \<mapsto> 0x41)"
    by (simp add: copy_mem_def write_u8_view(2) [OF demo_mem_inv] demo_mem_byte page_of_def)
  have "\<forall>j < unat (reg copy_cpu ECX). byte_at copy_mem (reg copy_cpu ESI + of_nat j) \<noteq> None \<and>
      byte_at copy_mem (reg copy_cpu EDI + of_nat j) \<noteq> None"
    unfolding r below_3 by (simp add: b demo_mem_byte page_of_def)
  moreover have "mem_inv copy_mem" by (simp add: copy_mem_def write_u8_view(3) demo_mem_inv)
  ultimately obtain c' m' where
    x: "string_op copy_insn (copy_cpu, copy_mem) = (Done (Some (max (ucast (reg copy_cpu ECX)) 1)), c', m')"
    and y: "byte_at m' = copy_fwd (byte_at copy_mem) (reg copy_cpu ESI) (reg copy_cpu EDI) (unat (reg copy_cpu ECX))"
    and z: "moved copy_cpu c' True"
    using rep_movsb_copies [OF i r(4), of copy_mem] by blast
  have "copy_fwd f 0x1000 0x1001 3 0x1003 = f 0x1000" for f by (simp add: numeral_3_eq_3)
  then have "byte_at m' 0x1003 = Some 0x41" using y unfolding r by (simp add: b)
  moreover have "reg c' ECX = 0" "reg c' EDI = 0x1004" using z unfolding moved_def r by (simp_all del: One_nat_def)
  moreover have "max (ucast (3 :: u32)) 1 = (3 :: u64)" by simp
  ultimately show ?thesis using x unfolding r by metis
qed

text \<open>\<^verbatim>\<open>rep stosb\<close>: every byte of the destination becomes AL.\<close>

lemma stosb_one:
  assumes "mem_inv m" "byte_at m (reg c EDI) \<noteq> None"
  obtains m' where "string_one Stos 1 1 (c, m) = (Done (), bump EDI 1 c, m')" "mem_inv m'"
    "byte_at m' = (byte_at m)(reg c EDI \<mapsto> ucast (reg c EAX))"
proof -
  have low: "ucast (reg c EAX AND op_mask 1) = (ucast (reg c EAX) :: u8)"
  proof -
    have "op_mask 1 = mask 8" by (simp add: op_mask_def mask_eq_exp_minus_1)
    then show ?thesis by (intro bit_word_eqI) (auto simp: bit_simps)
  qed
  obtain m' where "write_mem (reg c EDI) 1 (reg c EAX AND op_mask 1) (c, m) = (Done (), c, m')" "mem_inv m'"
    "byte_at m' = (byte_at m)(reg c EDI \<mapsto> ucast (reg c EAX))"
    by (rule write_mem_byte [OF assms, of "reg c EAX AND op_mask 1" c]) (auto simp: low simp del: One_nat_def)
  then show ?thesis using that by (simp add: string_one_def bind_x_def then_x_def get_x_def put_x_def)
qed

lemma stosb_loop:
  assumes "mem_inv m" "k = unat (reg c ECX)" "\<And>j. j < k \<Longrightarrow> byte_at m (reg c EDI + of_nat j) \<noteq> None"
  shows "\<exists>c' m'. string_loop Stos 1 1 True repne ticks (c, m) = (Done (ticks + of_nat k), c', m') \<and> mem_inv m' \<and>
    byte_at m' = put_bytes (byte_at m) (reg c EDI) (replicate k (ucast (reg c EAX))) \<and> moved c c' False"
  using assms
proof (induction k arbitrary: c m ticks)
  case 0
  then have "reg c ECX = 0" by (metis unat_eq_zero)
  then show ?case using 0 by (simp add: string_loop.simps moved_def)
next
  case (Suc k)
  have nz: "reg c ECX \<noteq> 0" using Suc.prems(2) by auto
  have "byte_at m (reg c EDI) \<noteq> None" using Suc.prems(3) [of 0] by simp
  from stosb_one [OF Suc.prems(1) this]
  obtain m1 where one: "string_one Stos 1 1 (c, m) = (Done (), bump EDI 1 c, m1)" and inv: "mem_inv m1"
    and bytes: "byte_at m1 = (byte_at m)(reg c EDI \<mapsto> ucast (reg c EAX))" by blast
  let ?c = "set_reg ECX (reg c ECX - 1) (bump EDI 1 c)"
  have regs: "reg ?c ECX = reg c ECX - 1" "reg ?c EDI = reg c EDI + 1" "reg ?c EAX = reg c EAX"
    by (simp_all add: bump_def)
  have step: "string_loop Stos 1 1 True repne ticks (c, m) = string_loop Stos 1 1 True repne (ticks + 1) (?c, m1)"
    using nz by (intro loop_once [OF one]) (simp_all add: bump_def)
  have k: "k = unat (reg ?c ECX)" unfolding regs by (rule ecx_pred [OF Suc.prems(2)])
  have "byte_at m1 (reg ?c EDI + of_nat j) \<noteq> None" if "j < k" for j
    using Suc.prems(3) [of "Suc j"] that unfolding regs bytes by (simp add: ac_simps)
  from Suc.IH [OF inv k this, of "ticks + 1"]
  obtain c' m' where r: "string_loop Stos 1 1 True repne (ticks + 1) (?c, m1) = (Done (ticks + 1 + of_nat k), c', m')" "mem_inv m'"
    "byte_at m' = put_bytes (byte_at m1) (reg c EDI + 1) (replicate k (ucast (reg c EAX)))" and mv: "moved ?c c' False"
    unfolding regs by blast
  have "moved c c' False" by (rule moved_step) (use mv in simp)
  moreover have "put_bytes (byte_at m1) (reg c EDI + 1) (replicate k (ucast (reg c EAX))) =
      put_bytes (byte_at m) (reg c EDI) (replicate (Suc k) (ucast (reg c EAX)))" by (simp add: bytes)
  moreover have "ticks + 1 + of_nat k = ticks + of_nat (Suc k)" by simp
  ultimately show ?case using r unfolding step by metis
qed

text \<open>
  A \<^verbatim>\<open>rep stosb\<close> with the direction flag clear, whose destination is mapped, always
  completes: the destination holds ECX copies of AL and nothing else of memory changed, ECX is
  zero and EDI advanced by the old ECX.
\<close>

theorem rep_stosb_fills:
  assumes "i_mn i = ''Stosb''" "op_count i = 0" "i_rep i" "\<not> df c" "mem_inv m"
    "\<forall>j < unat (reg c ECX). byte_at m (reg c EDI + of_nat j) \<noteq> None"
  shows "\<exists>c' m'. string_op i (c, m) = (Done (Some (max (ucast (reg c ECX)) 1)), c', m') \<and> mem_inv m' \<and> moved c c' False \<and>
    (\<forall>a. byte_at m' a = (if a - reg c EDI < reg c ECX then Some (ucast (reg c EAX)) else byte_at m a))"
proof -
  let ?k = "unat (reg c ECX)"
  have "unat (reg c ECX) \<le> 2 ^ 32" using unsigned_less [of "reg c ECX", where 'a = nat] by simp
  then have fill: "put_bytes f (reg c EDI) (replicate ?k v) a = (if a - reg c EDI < reg c ECX then Some v else f a)" for f v a
    by (auto simp: put_bytes_eq word_less_nat_alt)
  have "string_kind ''Stosb'' = Some (Stos, 1)" by (simp add: string_kind_def)
  moreover have "of_nat ?k = (ucast (reg c ECX) :: u64)" by simp
  ultimately show ?thesis
    using stosb_loop [OF assms(5) refl, of c "i_repne i" 0] assms(1-4,6)
    by (auto simp: string_op_def bind_x_def get_x_def ret_x_def fill simp del: One_nat_def)
qed

definition fill_insn :: insn where
  "fill_insn = copy_insn\<lparr>i_mn := ''Stosb''\<rparr>"

definition fill_cpu :: cpu where
  "fill_cpu = set_reg EAX 0x1290 copy_cpu"

theorem rep_stosb_fills_witness:
  "\<exists>c' m'. string_op fill_insn (fill_cpu, demo_mem) = (Done (Some 3), c', m') \<and> byte_at m' 0x1003 = Some 0x90 \<and>
     byte_at m' 0x1004 = Some 0 \<and> reg c' EDI = 0x1004"
proof -
  have i: "i_mn fill_insn = ''Stosb''" "op_count fill_insn = 0" "i_rep fill_insn" by (simp_all add: fill_insn_def copy_insn_def op_count_def)
  have r: "reg fill_cpu EDI = 0x1001" "reg fill_cpu ECX = 3" "reg fill_cpu EAX = 0x1290" "\<not> df fill_cpu"
    by (simp_all add: fill_cpu_def copy_cpu_def cpu_new_def set_reg_def reg_def)
  have "\<forall>j < unat (reg fill_cpu ECX). byte_at demo_mem (reg fill_cpu EDI + of_nat j) \<noteq> None"
    unfolding r below_3 by (simp add: demo_mem_byte page_of_def)
  from rep_stosb_fills [OF i r(4) demo_mem_inv this] obtain c' m' where
    x: "string_op fill_insn (fill_cpu, demo_mem) = (Done (Some (max (ucast (reg fill_cpu ECX)) 1)), c', m')"
    and y: "\<forall>a. byte_at m' a = (if a - reg fill_cpu EDI < reg fill_cpu ECX then Some (ucast (reg fill_cpu EAX)) else byte_at demo_mem a)"
    and z: "moved fill_cpu c' False"
    by blast
  have "byte_at m' 0x1003 = Some 0x90" using y [rule_format, of "0x1003"] unfolding r by simp
  moreover have "byte_at m' 0x1004 = Some 0" using y [rule_format, of "0x1004"] unfolding r by (simp add: demo_mem_byte page_of_def)
  moreover have "reg c' EDI = 0x1004" using z unfolding moved_def r by (simp del: One_nat_def)
  moreover have "max (ucast (3 :: u32)) 1 = (3 :: u64)" by simp
  ultimately show ?thesis using x unfolding r by metis
qed

end
