(* ===== verification/Emu_Seh.thy ===== *)
theory Emu_Seh
  imports Emu_NoPanic Emu_Stack Emu_Rep
begin

text \<open>
  Structured exceptions of the emulated program (\<^verbatim>\<open>crates/exav-pe-emu/src/run.rs\<close>): the records built on
  the stack, the walk along the handler chain, and the processor state a handler resumes from.
  A checked addition that overflows is a panic.
\<close>

section \<open>Definitions\<close>

definition STATUS_ACCESS_VIOLATION :: u32 where "STATUS_ACCESS_VIOLATION = 0xC0000005"
definition STATUS_BREAKPOINT :: u32 where "STATUS_BREAKPOINT = 0x80000003"
definition STATUS_ILLEGAL_INSTRUCTION :: u32 where "STATUS_ILLEGAL_INSTRUCTION = 0xC000001D"
definition STATUS_INTEGER_DIVIDE_BY_ZERO :: u32 where "STATUS_INTEGER_DIVIDE_BY_ZERO = 0xC0000094"
definition STATUS_INTEGER_OVERFLOW :: u32 where "STATUS_INTEGER_OVERFLOW = 0xC0000095"
definition STATUS_PRIVILEGED_INSTRUCTION :: u32 where "STATUS_PRIVILEGED_INSTRUCTION = 0xC0000096"
definition STATUS_SINGLE_STEP :: u32 where "STATUS_SINGLE_STEP = 0x80000004"

definition CONTEXT_SIZE :: u32 where "CONTEXT_SIZE = 0x2CC"
definition EXC_RECORD_SIZE :: u32 where "EXC_RECORD_SIZE = 0x50"

definition exception_code :: "stop \<Rightarrow> u32 option" where
  "exception_code s =
     (case s of
        Fault _ \<Rightarrow> Some STATUS_ACCESS_VIOLATION
      | Invalid _ \<Rightarrow> Some STATUS_ILLEGAL_INSTRUCTION
      | Interrupt n \<Rightarrow>
          if n = 3 then Some STATUS_BREAKPOINT
          else if n = 4 then Some STATUS_INTEGER_OVERFLOW
          else Some STATUS_PRIVILEGED_INSTRUCTION
      | Privileged _ \<Rightarrow> Some STATUS_PRIVILEGED_INSTRUCTION
      | DivideError \<Rightarrow> Some STATUS_INTEGER_DIVIDE_BY_ZERO
      | Unsupported _ _ \<Rightarrow> None
      | Halt \<Rightarrow> None)"

record seh_state =
  seh_return :: u32
  seh_frame :: u32
  seh_context :: u32
  seh_record :: u32
  seh_active :: bool

datatype seh_outcome = Resumed | TryNext

definition add_x :: "u32 \<Rightarrow> u32 \<Rightarrow> u32 exec" where
  "add_x a b s = (case add_chk a b of None \<Rightarrow> (Panicked, s) | Some v \<Rightarrow> (Done v, s))"

definition put_field :: "nat \<Rightarrow> u32 \<Rightarrow> bytes \<Rightarrow> bytes" where
  "put_field off v c = copy_slice c off (to_le 4 v)"

definition context_fields :: "cpu \<Rightarrow> u32 \<Rightarrow> (nat \<times> u32) list" where
  "context_fields c at =
     [(0x00, 0x00010007), (0x8C, 0x0000), (0x90, 0x003B), (0x94, 0x0023), (0x98, 0x0023),
      (0x9C, reg c EDI), (0xA0, reg c ESI), (0xA4, reg c EBX), (0xA8, reg c EDX), (0xAC, reg c ECX), (0xB0, reg c EAX),
      (0xB4, reg c EBP), (0xB8, at), (0xBC, 0x001B), (0xC0, eflags c), (0xC4, reg c ESP), (0xC8, 0x0023)]"

definition context_bytes :: "cpu \<Rightarrow> u32 \<Rightarrow> bytes" where
  "context_bytes c at = fold (\<lambda>(off, v). put_field off v) (context_fields c at) (replicate (unat CONTEXT_SIZE) 0)"

definition write_context :: "u32 \<Rightarrow> u32 \<Rightarrow> unit exec" where
  "write_context addr at =
     bind_x (get_x (\<lambda>c. context_bytes c at)) (\<lambda>ctx. mem_x (\<lambda>m. write_bytes m addr ctx))"

definition context_get :: "u32 \<Rightarrow> u32 \<Rightarrow> u32 exec" where
  "context_get addr off = bind_x (add_x addr off) (\<lambda>a. mem_x (\<lambda>m. read_u32 m a))"

definition context_reg :: "u32 \<Rightarrow> u32 \<Rightarrow> nat \<Rightarrow> unit exec" where
  "context_reg addr off r = bind_x (context_get addr off) (\<lambda>v. put_x (set_reg r v))"

definition context_regs :: "(u32 \<times> nat) list" where
  "context_regs = [(0x9C, EDI), (0xA0, ESI), (0xA4, EBX), (0xA8, EDX), (0xAC, ECX), (0xB0, EAX), (0xB4, EBP)]"

definition read_context :: "u32 \<Rightarrow> unit exec" where
  "read_context addr =
     then_x (each_x (\<lambda>(off, r). context_reg addr off r) context_regs)
    (then_x (bind_x (context_get addr 0xB8) (\<lambda>v. put_x (\<lambda>c. c\<lparr>eip := v\<rparr>)))
    (then_x (bind_x (context_get addr 0xC0) (\<lambda>v. put_x (set_eflags v)))
            (context_reg addr 0xC4 ESP)))"

text \<open>The handler's four arguments and its return address.\<close>

definition enter_handler :: "seh_state \<Rightarrow> unit exec" where
  "enter_handler h =
     bind_x (add_x (seh_frame h) 4) (\<lambda>a.
     bind_x (mem_x (\<lambda>m. read_u32 m a)) (\<lambda>handler.
     then_x (push32 0)
    (then_x (push32 (seh_context h))
    (then_x (push32 (seh_frame h))
    (then_x (push32 (seh_record h))
    (then_x (push32 (seh_return h))
            (put_x (\<lambda>c. c\<lparr>eip := handler\<rparr>))))))))"

definition chain_end :: "u32 \<Rightarrow> mem \<Rightarrow> bool" where
  "chain_end p m \<longleftrightarrow> p = 0xFFFFFFFF \<or> p = 0 \<or> \<not> is_mapped m p 8"

definition with_seh :: "'a outcome \<times> machine \<Rightarrow> seh_state \<Rightarrow> 'a outcome \<times> seh_state \<times> machine" where
  "with_seh r h = (fst r, h, snd r)"

definition exc_record :: "u32 \<Rightarrow> u32 \<Rightarrow> bytes" where
  "exc_record code at = put_field 12 at (put_field 0 code (replicate (unat EXC_RECORD_SIZE) 0))"

definition seh_raise :: "u32 \<Rightarrow> u32 \<Rightarrow> seh_state \<Rightarrow> machine \<Rightarrow> bool outcome \<times> seh_state \<times> machine" where
  "seh_raise code at h s =
     (case mem_x (\<lambda>m. read_u32 m (fs_base (fst s))) s of
        (Stopped e, s) \<Rightarrow> (Stopped e, h, s)
      | (Panicked, s) \<Rightarrow> (Panicked, h, s)
      | (Done head, s) \<Rightarrow>
          if chain_end head (snd s) then (Done False, h, s)
          else
            (let context = (reg (fst s) ESP AND NOT 0xF) - CONTEXT_SIZE;
                 rec = context - EXC_RECORD_SIZE in
             if \<not> is_mapped (snd s) rec (CONTEXT_SIZE + EXC_RECORD_SIZE) then (Done False, h, s)
             else
               (case then_x (mem_x (\<lambda>m. write_bytes m rec (exc_record code at))) (write_context context at) s of
                  (Stopped e, s) \<Rightarrow> (Stopped e, h, s)
                | (Panicked, s) \<Rightarrow> (Panicked, h, s)
                | (Done _, s) \<Rightarrow>
                    (let h = h\<lparr>seh_frame := head, seh_context := context, seh_record := rec, seh_active := True\<rparr> in
                     with_seh (then_x (put_x (set_reg ESP rec)) (then_x (enter_handler h) (ret_x True)) s) h))))"

definition handler_returned :: "seh_state \<Rightarrow> machine \<Rightarrow> seh_outcome outcome \<times> seh_state \<times> machine" where
  "handler_returned h s =
     (if \<not> seh_active h then (Done TryNext, h, s)
      else if reg (fst s) EAX = 0 then
        (case read_context (seh_context h) s of
           (Stopped e, s) \<Rightarrow> (Stopped e, h, s)
         | (Panicked, s) \<Rightarrow> (Panicked, h, s)
         | (Done _, s) \<Rightarrow> (Done Resumed, h\<lparr>seh_active := False\<rparr>, s))
      else (Done TryNext, h, s))"

definition dispatch_next :: "seh_state \<Rightarrow> machine \<Rightarrow> bool outcome \<times> seh_state \<times> machine" where
  "dispatch_next h s =
     (case mem_x (\<lambda>m. read_u32 m (seh_frame h)) s of
        (Stopped e, s) \<Rightarrow> (Stopped e, h, s)
      | (Panicked, s) \<Rightarrow> (Panicked, h, s)
      | (Done nxt, s) \<Rightarrow>
          if chain_end nxt (snd s) then (Done False, h\<lparr>seh_active := False\<rparr>, s)
          else (let h = h\<lparr>seh_frame := nxt\<rparr> in with_seh (then_x (enter_handler h) (ret_x True) s) h))"

end
