(* ===== verification/Emu_Image.thy ===== *)
theory Emu_Image
  imports Emu_Mem_Props "HOL-Library.Monad_Syntax"
begin

text \<open>
  Loading a program into the emulated memory and dumping it back
  (\<^verbatim>\<open>crates/exav-pe-emu/src/image.rs\<close>). Offsets into a file are \<open>nat\<close>: they are \<^verbatim>\<open>usize\<close> values that
  start from 32-bit fields, so no sum of them overflows. An alignment is at least 0x1000 in every
  image that \<^verbatim>\<open>parse\<close> returns, so \<^verbatim>\<open>align - 1\<close> does not underflow.
\<close>

section \<open>Reading headers\<close>

record pe_section =
  vaddr :: u32
  vsize :: u32
  raw_ptr :: u32
  raw_size :: u32

record pe_image =
  im_base :: u32
  size_of_image :: u32
  size_of_headers :: u32
  entry_rva :: u32
  section_align :: u32
  file_align :: u32
  is_dll :: bool
  import_dir :: "u32 \<times> u32"
  tls_dir :: "u32 \<times> u32"
  im_sections :: "pe_section list"
  sec_table_off :: nat
  pe_off :: nat

text \<open>\<^verbatim>\<open>data.get(a..b)\<close>.\<close>

definition get_range :: "bytes \<Rightarrow> nat \<Rightarrow> nat \<Rightarrow> bytes option" where
  "get_range d a b = (if a \<le> b \<and> b \<le> length d then Some (take (b - a) (drop a d)) else None)"

definition u16_at :: "bytes \<Rightarrow> nat \<Rightarrow> u16 option" where
  "u16_at d k = map_option from_le (get_range d k (k + 2))"

definition u32_at :: "bytes \<Rightarrow> nat \<Rightarrow> u32 option" where
  "u32_at d k = map_option from_le (get_range d k (k + 4))"

definition or_else :: "'a option \<Rightarrow> 'a \<Rightarrow> 'a" where
  "or_else x y = (case x of Some v \<Rightarrow> v | None \<Rightarrow> y)"

definition require :: "bool \<Rightarrow> unit option" where
  "require b = (if b then Some () else None)"

definition MZ :: bytes where "MZ = [0x4D, 0x5A]"
definition PE00 :: bytes where "PE00 = [0x50, 0x45, 0, 0]"

text \<open>One entry of the section table.\<close>

definition section_at :: "bytes \<Rightarrow> nat \<Rightarrow> pe_section option" where
  "section_at data s =
     map_option (\<lambda>h. \<lparr>vaddr = from_le (take 4 (drop 12 h)), vsize = from_le (take 4 (drop 8 h)),
                     raw_ptr = from_le (take 4 (drop 20 h)), raw_size = from_le (take 4 (drop 16 h))\<rparr>)
       (get_range data s (s + 40))"

definition section_len :: "pe_section \<Rightarrow> u32" where
  "section_len s = max (vsize s) (raw_size s)"

definition align_up :: "u32 \<Rightarrow> u32 \<Rightarrow> u32" where
  "align_up v align = saturating_add v (align - 1) AND NOT (align - 1)"

definition sections_span :: "u32 \<Rightarrow> pe_section list \<Rightarrow> u32" where
  "sections_span align ss = fold (\<lambda>s. max (align_up (saturating_add (vaddr s) (section_len s)) align)) ss 0"

definition directory_at :: "bytes \<Rightarrow> u32 \<Rightarrow> nat \<Rightarrow> nat \<Rightarrow> u32 \<times> u32" where
  "directory_at data num_dirs k off =
     (if k \<le> unat num_dirs then (or_else (u32_at data off) 0, or_else (u32_at data (off + 4)) 0) else (0, 0))"

definition parse_pe :: "bytes \<Rightarrow> pe_image option" where
  "parse_pe data =
     do {
       require (0x40 \<le> length data \<and> take 2 data = MZ);
       pe \<leftarrow> u32_at data 0x3C;
       let pe = unat pe;
       let coff = pe + 4;
       sig \<leftarrow> get_range data pe coff;
       require (sig = PE00);
       machine \<leftarrow> u16_at data coff;
       num_sections \<leftarrow> u16_at data (coff + 2);
       opt_size \<leftarrow> u16_at data (coff + 16);
       chars \<leftarrow> u16_at data (coff + 18);
       require (machine = 0x14C \<and> num_sections \<noteq> 0 \<and> num_sections \<le> 96);
       let opt = coff + 20;
       magic \<leftarrow> u16_at data opt;
       require (magic = 0x10B);
       entry \<leftarrow> u32_at data (opt + 16);
       base \<leftarrow> u32_at data (opt + 28);
       align \<leftarrow> u32_at data (opt + 32);
       let align = max align 0x1000;
       let falign = or_else (u32_at data (opt + 36)) 0x200;
       soi \<leftarrow> u32_at data (opt + 56);
       soh \<leftarrow> u32_at data (opt + 60);
       let tab = opt + unat opt_size;
       let num_dirs = or_else (u32_at data (opt + 92)) 0;
       ss \<leftarrow> those (map (\<lambda>i. section_at data (tab + i * 40)) [0..<unat num_sections]);
       Some \<lparr>im_base = base, size_of_image = max (max soi (sections_span align ss)) 0x1000,
             size_of_headers = min soh 0x1000, entry_rva = entry, section_align = align, file_align = falign,
             is_dll = (chars AND 0x2000 \<noteq> 0), import_dir = directory_at data num_dirs 2 (opt + 104),
             tls_dir = directory_at data num_dirs 10 (opt + 168), im_sections = ss, sec_table_off = tab, pe_off = pe\<rparr>
     }"

fun position_from :: "nat \<Rightarrow> ('a \<Rightarrow> bool) \<Rightarrow> 'a list \<Rightarrow> nat option" where
  "position_from k P [] = None"
| "position_from k P (x # xs) = (if P x then Some k else position_from (Suc k) P xs)"

definition section_of :: "pe_image \<Rightarrow> u32 \<Rightarrow> nat option" where
  "section_of im rva =
     position_from 0 (\<lambda>s. vaddr s \<le> rva \<and> rva < saturating_add (vaddr s) (max (section_len s) (section_align im)))
       (im_sections im)"

section \<open>Loading\<close>

datatype map_failed = MapFailed

definition raw_start :: "pe_image \<Rightarrow> pe_section \<Rightarrow> nat" where
  "raw_start im s = (if 0x200 \<le> file_align im then unat (raw_ptr s AND NOT 0x1FF) else unat (raw_ptr s))"

fun map_sections :: "pe_image \<Rightarrow> bytes \<Rightarrow> pe_section list \<Rightarrow> mem \<Rightarrow> (map_failed + unit) \<times> mem" where
  "map_sections im data [] m = (Inr (), m)"
| "map_sections im data (s # ss) m =
     (let vlen = section_len s; addr = im_base im + vaddr s in
      if vlen = 0 then map_sections im data ss m
      else case map_mem m addr vlen of
        (Inl _, m) \<Rightarrow> (Inl MapFailed, m)
      | (Inr _, m) \<Rightarrow>
          (let start = raw_start im s; en = min (start + unat (raw_size s)) (length data) in
           if start < en then
             (let bs = take (en - start) (drop start data) in
              case write_bytes m addr (take (unat vlen) bs) of
                (Inl _, m) \<Rightarrow> (Inl MapFailed, m)
              | (Inr _, m) \<Rightarrow> map_sections im data ss m)
           else map_sections im data ss m))"

definition map_into :: "pe_image \<Rightarrow> bytes \<Rightarrow> mem \<Rightarrow> (map_failed + unit) \<times> mem" where
  "map_into im data m =
     (case map_mem m (im_base im) (size_of_image im) of
        (Inl _, m) \<Rightarrow> (Inl MapFailed, m)
      | (Inr _, m) \<Rightarrow>
          (case write_bytes m (im_base im) (take (min (unat (size_of_headers im)) (length data)) data) of
             (Inl _, m) \<Rightarrow> (Inl MapFailed, m)
           | (Inr _, m) \<Rightarrow>
               (case map_sections im data (im_sections im) m of
                  (Inl e, m) \<Rightarrow> (Inl e, m)
                | (Inr _, m) \<Rightarrow>
                    (Inr (), watch_range (clear_dirty m (im_base im) (size_of_image im)) (im_base im) (size_of_image im)))))"

section \<open>Dumping\<close>

definition content_end :: "pe_image \<Rightarrow> u32" where
  "content_end im =
     fold (\<lambda>s e. max e (align_up (saturating_add (vaddr s) (section_len s)) (section_align im)))
       (im_sections im) (max (size_of_headers im) (section_align im))"

text \<open>Storing a 32-bit field in a buffer; nothing is stored past its end.\<close>

definition put_u32 :: "nat \<Rightarrow> u32 \<Rightarrow> bytes \<Rightarrow> bytes" where
  "put_u32 off v buf = (if off + 4 \<le> length buf then copy_slice buf off (to_le 4 v) else buf)"

fun dump_sections :: "pe_image \<Rightarrow> nat \<Rightarrow> pe_section list \<Rightarrow> bytes \<Rightarrow> bytes" where
  "dump_sections im i [] out = out"
| "dump_sections im i (s # ss) out =
     (let off = sec_table_off im + i * 40 in
      if length out < off + 40 then out
      else
        (let vlen = min (align_up (section_len s) (section_align im)) (saturating_sub (size_of_image im) (vaddr s)) in
         dump_sections im (Suc i) ss (put_u32 (off + 20) (vaddr s) (put_u32 (off + 16) vlen out))))"

definition dump_headers :: "pe_image \<Rightarrow> u32 \<Rightarrow> bytes \<Rightarrow> bytes" where
  "dump_headers im oep out =
     (let opt = pe_off im + 24 in
      dump_sections im 0 (im_sections im)
        (put_u32 (opt + 60) (section_align im)
          (put_u32 (opt + 56) (size_of_image im)
            (put_u32 (opt + 36) (section_align im)
              (put_u32 (opt + 16) oep out)))))"

definition dump_pe :: "pe_image \<Rightarrow> mem \<Rightarrow> bytes \<Rightarrow> u32 \<Rightarrow> nat \<Rightarrow> bytes option \<times> mem" where
  "dump_pe im m data oep cap =
     (let total = unat (min (content_end im) (size_of_image im)) in
      if cap < total \<or> total < 0x40 then (None, m)
      else
        (case snapshot m (im_base im) total of (out, m) \<Rightarrow>
         let pe = pe_off im in
         if length out < pe + 24 + 0xE0 then (None, m)
         else if take 2 out \<noteq> MZ \<or> take 4 (drop pe out) \<noteq> PE00 then
           (let hdr_len = min (min (unat (size_of_headers im)) (length data)) (length out) in
            if hdr_len < pe + 24 + 0xE0 then (None, m)
            else (Some (dump_headers im oep (copy_slice out 0 (take hdr_len data))), m))
         else (Some (dump_headers im oep out), m)))"

end
