(* ===== verification/Emu_Image_Props.thy ===== *)
theory Emu_Image_Props
  imports Emu_Image
begin

text \<open>
  What loading and dumping promise: the shape of every parsed image, the memory a load leaves, and
  that a dump is a program the same parser reads back, with the recovered entry point and its
  sections where they lay in memory.
\<close>

section \<open>Ranges of a buffer\<close>

lemma get_range_Some: "get_range d a b = Some r \<longleftrightarrow> a \<le> b \<and> b \<le> length d \<and> r = take (b - a) (drop a d)"
  by (auto simp: get_range_def)

lemma get_range_cong:
  assumes "take n d = take n e" "b \<le> n" "n \<le> length d" "n \<le> length e"
  shows "get_range d a b = get_range e a b"
proof -
  have "take (b - a) (drop a d) = drop a (take b (take n d))" using assms(2) by (simp add: drop_take min_absorb1)
  moreover have "take (b - a) (drop a e) = drop a (take b (take n e))" using assms(2) by (simp add: drop_take min_absorb1)
  ultimately show ?thesis using assms by (simp add: get_range_def)
qed

lemma u32_at_cong: "get_range d k (k + 4) = get_range e k (k + 4) \<Longrightarrow> u32_at d k = u32_at e k"
  by (simp add: u32_at_def)

lemma u16_at_cong: "get_range d k (k + 2) = get_range e k (k + 2) \<Longrightarrow> u16_at d k = u16_at e k"
  by (simp add: u16_at_def)

lemma u32_at_None: "u32_at d k = None \<longleftrightarrow> length d < k + 4"
  by (auto simp: u32_at_def get_range_def)

lemma section_at_u32:
  "section_at d s =
     (if s + 40 \<le> length d then Some \<lparr>vaddr = the (u32_at d (s + 12)), vsize = the (u32_at d (s + 8)),
        raw_ptr = the (u32_at d (s + 20)), raw_size = the (u32_at d (s + 16))\<rparr> else None)"
  by (simp add: section_at_def u32_at_def get_range_def drop_take add.commute)

lemma length_put_u32 [simp]: "length (put_u32 off v buf) = length buf"
  by (simp add: put_u32_def length_copy_slice)

lemma get_range_put_other:
  assumes "b \<le> off \<or> off + 4 \<le> a"
  shows "get_range (put_u32 off v buf) a b = get_range buf a b"
proof -
  have "take (b - a) (drop a (copy_slice buf off (to_le 4 v))) = take (b - a) (drop a buf)" if "off + 4 \<le> length buf"
  proof (rule nth_equalityI)
    show "length (take (b - a) (drop a (copy_slice buf off (to_le 4 v)))) = length (take (b - a) (drop a buf))"
      using that by (simp add: length_copy_slice)
    fix i assume "i < length (take (b - a) (drop a (copy_slice buf off (to_le 4 v))))"
    then have "i < length buf - a \<and> i < b - a" using that by (simp add: length_copy_slice)
    then have i: "i < b - a" "a + i < length buf" by linarith+
    then show "take (b - a) (drop a (copy_slice buf off (to_le 4 v))) ! i = take (b - a) (drop a buf) ! i"
      using assms that by (auto simp: nth_copy_slice length_copy_slice)
  qed
  then show ?thesis by (simp add: get_range_def put_u32_def length_copy_slice)
qed

lemma get_range_put_same:
  assumes "off + 4 \<le> length buf"
  shows "get_range (put_u32 off v buf) off (off + 4) = Some (to_le 4 v)"
  using assms by (simp add: get_range_def put_u32_def length_copy_slice) (simp add: copy_slice_def)

lemma u32_at_put_same: "off + 4 \<le> length buf \<Longrightarrow> u32_at (put_u32 off v buf) off = Some v"
  by (simp add: u32_at_def get_range_put_same)

lemma u32_at_put_other: "k + 4 \<le> off \<or> off + 4 \<le> k \<Longrightarrow> u32_at (put_u32 off v buf) k = u32_at buf k"
  by (rule u32_at_cong) (rule get_range_put_other, linarith)

section \<open>The shape of a parsed image\<close>

lemma those_length: "those xs = Some ys \<Longrightarrow> length ys = length xs"
  by (induction xs arbitrary: ys) (auto split: option.splits)

lemma those_nth: "those xs = Some ys \<Longrightarrow> i < length xs \<Longrightarrow> xs ! i = Some (ys ! i)"
  by (induction xs arbitrary: ys i) (auto split: option.splits simp: nth_Cons')

lemma those_Some: "length ys = length xs \<Longrightarrow> (\<And>i. i < length xs \<Longrightarrow> xs ! i = Some (ys ! i)) \<Longrightarrow> those xs = Some ys"
proof (induction xs arbitrary: ys)
  case (Cons x xs)
  then obtain y zs where y: "ys = y # zs" by (cases ys) auto
  have "those xs = Some zs" using Cons.prems y by (intro Cons.IH) force+
  then show ?case using Cons.prems(2) [of 0] y by simp
qed simp

lemma align_up_ge:
  assumes "unat v + unat align \<le> 2 ^ 32" "align \<noteq> 0"
  shows "unat v \<le> unat (align_up v align)"
proof -
  have a: "unat (align - 1) = unat align - 1" by (rule unat_minus_one [OF assms(2)])
  have pos: "0 < unat align" using assms(2) by (simp add: unat_gt_0)
  let ?x = "saturating_add v (align - 1)"
  have x: "unat ?x = unat v + (unat align - 1)" proof -
    have "unat v + (unat align - 1) \<le> 2 ^ LENGTH(32) - 1" using assms(1) pos by simp
    then show ?thesis unfolding unat_saturating_add a by (rule min_absorb2)
  qed
  have "?x AND NOT (align - 1) = ?x - (?x AND (align - 1))"
  proof -
    have "(?x AND NOT (align - 1)) + (?x AND (align - 1)) = ?x"
    proof -
      have "(?x AND NOT (align - 1)) AND (?x AND (align - 1)) = 0" by (rule bit_word_eqI) (auto simp: bit_simps)
      then have "(?x AND NOT (align - 1)) + (?x AND (align - 1)) = (?x AND NOT (align - 1)) OR (?x AND (align - 1))"
        by (rule disjunctive_add_eq_or)
      also have "\<dots> = ?x" by (rule bit_word_eqI) (auto simp: bit_simps)
      finally show ?thesis .
    qed
    then show ?thesis by (metis add_diff_cancel_right')
  qed
  moreover have "unat (?x AND (align - 1)) \<le> unat align - 1"
    using word_and_le1 [of ?x "align - 1"] a by (simp add: word_le_nat_alt)
  moreover have "unat (?x - (?x AND (align - 1))) = unat ?x - unat (?x AND (align - 1))"
    by (rule unat_sub) (rule word_and_le2)
  ultimately show ?thesis using x by (simp add: align_up_def)
qed

lemma fold_max_ge: "x \<le> fold (\<lambda>s. max (f s)) ss x" for f :: "'a \<Rightarrow> u32"
  by (induction ss arbitrary: x) (auto intro: order_trans [OF max.cobounded2])

lemma fold_max_member: "s \<in> set ss \<Longrightarrow> f s \<le> fold (\<lambda>s. max (f s)) ss x" for f :: "'a \<Rightarrow> u32"
  by (induction ss arbitrary: x) (auto intro: order_trans [OF _ fold_max_ge])

lemma sections_span_ge:
  assumes "s \<in> set ss" "unat (vaddr s) + unat (section_len s) + unat align \<le> 2 ^ 32" "align \<noteq> 0"
  shows "unat (vaddr s) + unat (section_len s) \<le> unat (sections_span align ss)"
proof -
  have pos: "0 < unat align" using assms(3) by (simp add: unat_gt_0)
  have v: "unat (saturating_add (vaddr s) (section_len s)) = unat (vaddr s) + unat (section_len s)"
    using assms(2) pos by (simp add: unat_saturating_add min_def)
  have "unat (vaddr s) + unat (section_len s) \<le> unat (align_up (saturating_add (vaddr s) (section_len s)) align)"
    using align_up_ge [of "saturating_add (vaddr s) (section_len s)" align] assms(2,3) v by simp
  also have "\<dots> \<le> unat (sections_span align ss)"
    unfolding sections_span_def word_le_nat_alt [symmetric] by (rule fold_max_member [OF assms(1)])
  finally show ?thesis .
qed

lemma num_sections_range: "n \<noteq> 0 \<Longrightarrow> n \<le> 96 \<Longrightarrow> 1 \<le> unat n \<and> unat n \<le> 96" for n :: u16
  using unat_gt_0 [of n] by (simp add: word_le_nat_alt)

lemma max_word_le: "unat (max a b :: u32) = max (unat a) (unat b)"
  by (simp add: max_def word_le_nat_alt)

lemma those_upt:
  assumes "those (map f [0..<n]) = Some ys"
  shows "length ys = n" "i < n \<Longrightarrow> f i = Some (ys ! i)"
  using those_length [OF assms] those_nth [OF assms, of i] by simp_all

text \<open>The raw header fields an image is read from.\<close>

definition read_from :: "bytes \<Rightarrow> pe_image \<Rightarrow> u32 \<Rightarrow> u16 \<Rightarrow> u16 \<Rightarrow> u16 \<Rightarrow> u32 \<Rightarrow> u32 \<Rightarrow> u32 \<Rightarrow> bool" where
  "read_from d im z n os ch al si sh \<longleftrightarrow>
     0x40 \<le> length d \<and> take 2 d = MZ \<and> u32_at d 0x3C = Some z \<and> pe_off im = unat z \<and>
     get_range d (pe_off im) (pe_off im + 4) = Some PE00 \<and> u16_at d (pe_off im + 4) = Some 0x14C \<and>
     u16_at d (pe_off im + 6) = Some n \<and> length (im_sections im) = unat n \<and> n \<noteq> 0 \<and> n \<le> 96 \<and>
     u16_at d (pe_off im + 20) = Some os \<and> sec_table_off im = pe_off im + 24 + unat os \<and>
     u16_at d (pe_off im + 22) = Some ch \<and> is_dll im = (ch AND 0x2000 \<noteq> 0) \<and>
     u16_at d (pe_off im + 24) = Some 0x10B \<and> u32_at d (pe_off im + 40) = Some (entry_rva im) \<and>
     u32_at d (pe_off im + 52) = Some (im_base im) \<and>
     u32_at d (pe_off im + 56) = Some al \<and> section_align im = max al 0x1000 \<and>
     u32_at d (pe_off im + 80) = Some si \<and>
     size_of_image im = max (max si (sections_span (section_align im) (im_sections im))) 0x1000 \<and>
     u32_at d (pe_off im + 84) = Some sh \<and> size_of_headers im = min sh 0x1000 \<and>
     (\<forall>i < unat n. section_at d (sec_table_off im + i * 40) = Some (im_sections im ! i))"

lemma header_offsets:
  "p + 4 + 2 = p + 6" "p + 4 + 16 = p + 20" "p + 4 + 18 = p + 22" "p + 4 + 20 = p + 24" "p + 24 + 16 = p + 40"
  "p + 24 + 28 = p + 52" "p + 24 + 32 = p + 56" "p + 24 + 56 = p + 80" "p + 24 + 60 = p + 84" for p :: nat
  by simp_all

lemma option_bindE: "Option.bind x f = Some y \<Longrightarrow> (\<And>a. x = Some a \<Longrightarrow> f a = Some y \<Longrightarrow> P) \<Longrightarrow> P"
  by (cases x) simp_all

lemma requireE: "require b = Some u \<Longrightarrow> (b \<Longrightarrow> P) \<Longrightarrow> P"
  by (cases b) (simp_all add: require_def)

lemma read_fromI:
  assumes "0x40 \<le> length d" "take 2 d = MZ" "u32_at d 0x3C = Some z"
    "get_range d (unat z) (unat z + 4) = Some sig" "sig = PE00" "u16_at d (unat z + 4) = Some mc"
    "u16_at d (unat z + 6) = Some n" "u16_at d (unat z + 20) = Some os" "u16_at d (unat z + 22) = Some ch"
    "mc = 0x14C" "n \<noteq> 0" "n \<le> 96" "u16_at d (unat z + 24) = Some mg" "mg = 0x10B"
    "u32_at d (unat z + 40) = Some en" "u32_at d (unat z + 52) = Some ba"
    "u32_at d (unat z + 56) = Some al" "u32_at d (unat z + 80) = Some si" "u32_at d (unat z + 84) = Some sh"
    and t: "those (map (\<lambda>i. section_at d (unat z + 24 + unat os + i * 40)) [0..<unat n]) = Some ss"
    and im: "Some \<lparr>im_base = ba, size_of_image = max (max si (sections_span (max al 0x1000) ss)) 0x1000, size_of_headers = min sh 0x1000,
      entry_rva = en, section_align = max al 0x1000, file_align = fa, is_dll = (ch AND 0x2000 \<noteq> 0), import_dir = di, tls_dir = td,
      im_sections = ss, sec_table_off = unat z + 24 + unat os, pe_off = unat z\<rparr> = Some im"
  shows "read_from d im z n os ch al si sh"
  using assms(1-19) those_upt [OF t] im by (auto simp: read_from_def)

lemma parse_read_from:
  assumes "parse_pe d = Some im"
  obtains z n os ch al si sh where "read_from d im z n os ch al si sh"
  using assms unfolding parse_pe_def Let_def header_offsets
  by (elim option_bindE requireE conjE) (rule that, rule read_fromI; assumption)

lemma read_from_parse:
  assumes "read_from d im z n os ch al si sh"
  obtains f i t where "parse_pe d = Some (im\<lparr>file_align := f, import_dir := i, tls_dir := t\<rparr>)"
proof -
  note f = assms [unfolded read_from_def]
  have t: "those (map (\<lambda>i. section_at d (sec_table_off im + i * 40)) [0..<unat n]) = Some (im_sections im)"
  proof (rule those_Some)
    show "length (im_sections im) = length (map (\<lambda>i. section_at d (sec_table_off im + i * 40)) [0..<unat n])" using f by simp
    have "\<forall>i < unat n. section_at d (sec_table_off im + i * 40) = Some (im_sections im ! i)" using f by blast
    then show "map (\<lambda>i. section_at d (sec_table_off im + i * 40)) [0..<unat n] ! i = Some (im_sections im ! i)"
      if "i < length (map (\<lambda>i. section_at d (sec_table_off im + i * 40)) [0..<unat n])" for i
      using that by simp
  qed
  have "parse_pe d = Some (im\<lparr>file_align := or_else (u32_at d (pe_off im + 24 + 36)) 0x200,
      import_dir := directory_at d (or_else (u32_at d (pe_off im + 24 + 92)) 0) 2 (pe_off im + 24 + 104),
      tls_dir := directory_at d (or_else (u32_at d (pe_off im + 24 + 92)) 0) 10 (pe_off im + 24 + 168)\<rparr>)"
  proof -
    obtain p where p: "p = pe_off im" by blast
    have g: "0x40 \<le> length d \<and> take 2 d = MZ" "u32_at d 0x3C = Some z" "unat z = p" "get_range d p (p + 4) = Some PE00"
      "u16_at d (p + 4) = Some 0x14C" "u16_at d (p + 6) = Some n" "u16_at d (p + 20) = Some os" "u16_at d (p + 22) = Some ch"
      "n \<noteq> 0" "n \<le> 96" "u16_at d (p + 24) = Some 0x10B" "u32_at d (p + 40) = Some (entry_rva im)" "u32_at d (p + 52) = Some (im_base im)"
      "u32_at d (p + 56) = Some al" "u32_at d (p + 80) = Some si" "u32_at d (p + 84) = Some sh" "p + 24 + unat os = sec_table_off im"
      using f p by auto
    have h: "max al 0x1000 = section_align im" "max (max si (sections_span (section_align im) (im_sections im))) 0x1000 = size_of_image im"
      "min sh 0x1000 = size_of_headers im" "(ch AND 0x2000 \<noteq> 0) = is_dll im" using f by auto
    show ?thesis unfolding p [symmetric] parse_pe_def Let_def
      by (simp only: g(1,2,3) require_def if_True bind.bind_lunit header_offsets g(4-8,11-17) h t)
        (simp add: g(9,10) h(4) p)
  qed
  then show ?thesis by (rule that)
qed

lemma read_from_section:
  "read_from d im z n os ch al si sh \<Longrightarrow> i < length (im_sections im) \<Longrightarrow> section_at d (sec_table_off im + i * 40) = Some (im_sections im ! i)"
  unfolding read_from_def by metis

lemma parse_table_fits:
  assumes "parse_pe d = Some im"
  shows "sec_table_off im + 40 * length (im_sections im) \<le> length d"
proof -
  obtain z n os ch al si sh where r: "read_from d im z n os ch al si sh" using parse_read_from [OF assms] .
  have n: "1 \<le> length (im_sections im)" using r num_sections_range [of n] by (auto simp: read_from_def)
  have "section_at d (sec_table_off im + (length (im_sections im) - 1) * 40) \<noteq> None"
    using read_from_section [OF r, of "length (im_sections im) - 1"] n by (simp del: One_nat_def)
  then have "sec_table_off im + (length (im_sections im) - 1) * 40 + 40 \<le> length d" by (simp add: section_at_u32 split: if_splits)
  then show ?thesis using n by (simp add: algebra_simps)
qed

text \<open>
  C15. Every image the parser returns is well formed: one to 96 sections, whose table and whose headers
  lie within the file, alignments of at least a page, at most a page of headers, and an image size
  that covers every section that does not reach the top of the address space, once aligned. Where the data of a
  section lies in the file is not part of it: the parser takes it as it is written.
\<close>

theorem parse_pe_wf:
  assumes "parse_pe d = Some im"
  shows "1 \<le> length (im_sections im) \<and> length (im_sections im) \<le> 96 \<and> 0x1000 \<le> section_align im \<and> size_of_headers im \<le> 0x1000 \<and>
    0x1000 \<le> size_of_image im \<and> pe_off im + 88 \<le> length d \<and> sec_table_off im + 40 * length (im_sections im) \<le> length d \<and>
    (\<forall>s \<in> set (im_sections im). unat (vaddr s) + unat (section_len s) + unat (section_align im) \<le> 2 ^ 32 \<longrightarrow>
       unat (vaddr s) + unat (section_len s) \<le> unat (size_of_image im))"
proof -
  obtain z n os ch al si sh where r: "read_from d im z n os ch al si sh" using parse_read_from [OF assms] .
  have n: "1 \<le> length (im_sections im)" "length (im_sections im) \<le> 96" "length (im_sections im) = unat n"
    using r num_sections_range [of n] by (auto simp: read_from_def)
  have al: "section_align im \<noteq> 0" using r by (auto simp: read_from_def max_def)
  have "unat (sections_span (section_align im) (im_sections im)) \<le> unat (size_of_image im)"
    using r by (simp add: read_from_def max_word_le)
  then have sec: "unat (vaddr s) + unat (section_len s) \<le> unat (size_of_image im)"
    if "s \<in> set (im_sections im)" "unat (vaddr s) + unat (section_len s) + unat (section_align im) \<le> 2 ^ 32" for s
    using sections_span_ge [OF that al] by linarith
  have tab: "sec_table_off im + 40 * length (im_sections im) \<le> length d" by (rule parse_table_fits [OF assms])
  have "u32_at d (pe_off im + 84) = Some sh" using r unfolding read_from_def by blast
  then have "u32_at d (pe_off im + 84) \<noteq> None" by simp
  then have "pe_off im + 88 \<le> length d" by (simp add: u32_at_None not_less del: not_None_eq)
  moreover have "0x1000 \<le> section_align im" "size_of_headers im \<le> 0x1000" "0x1000 \<le> size_of_image im" using r by (auto simp: read_from_def)
  ultimately show ?thesis using n(1,2) tab sec by blast
qed

section \<open>Dumps\<close>

lemma length_dump_sections [simp]: "length (dump_sections im i ss out) = length out"
  by (induction im i ss out rule: dump_sections.induct) (simp add: Let_def)+

lemma get_range_dump_sections:
  "b \<le> sec_table_off im + i * 40 \<Longrightarrow> get_range (dump_sections im i ss out) a b = get_range out a b"
proof (induction im i ss out rule: dump_sections.induct)
  case (2 im i s ss out)
  then show ?case by (auto simp: Let_def get_range_put_other)
qed simp

definition dumped :: "pe_image \<Rightarrow> pe_section \<Rightarrow> pe_section" where
  "dumped im s = s\<lparr>raw_ptr := vaddr s,
     raw_size := min (align_up (section_len s) (section_align im)) (saturating_sub (size_of_image im) (vaddr s))\<rparr>"

lemma section_at_dump:
  assumes "sec_table_off im + (i + length ss) * 40 \<le> length out" "i \<le> k" "k < i + length ss"
    "section_at out (sec_table_off im + k * 40) = Some (ss ! (k - i))"
  shows "section_at (dump_sections im i ss out) (sec_table_off im + k * 40) = Some (dumped im (ss ! (k - i)))"
  using assms
proof (induction im i ss out rule: dump_sections.induct)
  case (2 im i s ss out)
  let ?off = "sec_table_off im + i * 40"
  let ?vlen = "min (align_up (section_len s) (section_align im)) (saturating_sub (size_of_image im) (vaddr s))"
  let ?out = "put_u32 (?off + 20) (vaddr s) (put_u32 (?off + 16) ?vlen out)"
  have fit: "?off + 40 \<le> length out" using "2.prems"(1) by simp
  have unf: "dump_sections im i (s # ss) out = dump_sections im (Suc i) ss ?out" using fit by (simp add: Let_def)
  show ?case
  proof (cases "k = i")
    case True
    have at: "section_at out ?off = Some s" using "2.prems"(4) True by simp
    have "get_range (dump_sections im (Suc i) ss ?out) a b = get_range ?out a b" if "b \<le> ?off + 40" for a b
      using that by (intro get_range_dump_sections) simp
    then have "u32_at (dump_sections im (Suc i) ss ?out) (?off + j) = u32_at ?out (?off + j)" if "j \<le> 36" for j
      using that by (intro u32_at_cong) simp
    then have "section_at (dump_sections im (Suc i) ss ?out) ?off = section_at ?out ?off" by (simp add: section_at_u32)
    also have "\<dots> = Some (dumped im s)"
      using at fit by (auto simp: section_at_u32 u32_at_put_same u32_at_put_other dumped_def section_len_def)
    finally show ?thesis using True unf by simp
  next
    case False
    then have k: "Suc i \<le> k" "k < Suc i + length ss" "(s # ss) ! (k - i) = ss ! (k - Suc i)" using "2.prems"(2,3) by (auto simp: nth_Cons' Suc_diff_Suc)
    obtain j where "k = Suc i + j" using k(1) le_Suc_ex by blast
    then have far: "?off + 24 \<le> sec_table_off im + k * 40" by simp
    have "section_at ?out (sec_table_off im + k * 40) = section_at out (sec_table_off im + k * 40)"
      using far by (simp add: section_at_u32 u32_at_put_other)
    then show ?thesis using "2.IH" [OF refl _ refl] fit k "2.prems" unf by (simp add: Let_def)
  qed
qed simp

definition dumped_image :: "pe_image \<Rightarrow> u32 \<Rightarrow> pe_image" where
  "dumped_image im oep =
     (let ss = map (dumped im) (im_sections im) in
      im\<lparr>entry_rva := oep, size_of_headers := min (section_align im) 0x1000,
         size_of_image := max (max (size_of_image im) (sections_span (section_align im) ss)) 0x1000, im_sections := ss\<rparr>)"

lemma dump_headers_read:
  assumes r: "read_from file im z n os ch al si sh" and lay: "0x40 \<le> pe_off im" "pe_off im + 24 + 0xE0 \<le> sec_table_off im"
    and H: "sec_table_off im + 40 * length (im_sections im) \<le> h" "h \<le> length out" "h \<le> length file" "take h out = take h file"
  shows "read_from (dump_headers im oep out) (dumped_image im oep) z n os ch al (size_of_image im) (section_align im)"
proof -
  let ?pe = "pe_off im"
  define out' where "out' = put_u32 (?pe + 84) (section_align im) (put_u32 (?pe + 80) (size_of_image im)
      (put_u32 (?pe + 60) (section_align im) (put_u32 (?pe + 40) oep out)))"
  have d: "dump_headers im oep out = dump_sections im 0 (im_sections im) out'"
    by (simp add: dump_headers_def Let_def out'_def add.commute)
  have len: "length out' = length out" by (simp add: out'_def)
  have h: "?pe + 24 + 0xE0 \<le> h" using lay(2) H(1) by linarith
  have early: "get_range (dump_headers im oep out) a b = get_range out' a b" if "b \<le> sec_table_off im" for a b
    unfolding d using that by (intro get_range_dump_sections) simp
  have same: "get_range out a b = get_range file a b" if "b \<le> h" for a b
    by (rule get_range_cong [OF H(4) that H(2,3)])
  have keep: "get_range out' a b = get_range file a b"
    if "b \<le> ?pe + 40 \<or> ?pe + 44 \<le> a \<and> b \<le> ?pe + 60 \<or> ?pe + 64 \<le> a \<and> b \<le> ?pe + 80 \<or> ?pe + 88 \<le> a" "b \<le> h" for a b
    using that(1) same [OF that(2)] unfolding out'_def by (auto simp: get_range_put_other)
  have head: "get_range (dump_headers im oep out) a b = get_range file a b" if "b \<le> ?pe + 40" for a b
    using that lay(2) h by (simp add: early keep)
  have u16: "u16_at (dump_headers im oep out) k = u16_at file k" if "k \<le> ?pe + 38" for k
    using that by (intro u16_at_cong head) simp
  have u32: "u32_at (dump_headers im oep out) k = u32_at file k" if "k = ?pe + 52 \<or> k = ?pe + 56 \<or> k \<le> ?pe + 36" for k
    using that lay(2) h by (intro u32_at_cong) (auto simp: early keep)
  have new: "u32_at (dump_headers im oep out) k = u32_at out' k" if "k \<le> ?pe + 84" for k
    using that lay(2) by (intro u32_at_cong early) simp
  have fields: "u32_at out' (?pe + 40) = Some oep" "u32_at out' (?pe + 80) = Some (size_of_image im)" "u32_at out' (?pe + 84) = Some (section_align im)"
    using h H(2) unfolding out'_def by (simp_all add: u32_at_put_same u32_at_put_other)
  have sec: "section_at (dump_headers im oep out) (sec_table_off im + i * 40) = Some (dumped im (im_sections im ! i))"
    if i: "i < length (im_sections im)" for i
  proof -
    have off: "sec_table_off im + i * 40 + 40 \<le> h" "?pe + 88 \<le> sec_table_off im + i * 40" using i H(1) lay(2) by linarith+
    have "u32_at out' (sec_table_off im + i * 40 + j) = u32_at file (sec_table_off im + i * 40 + j)" if "j \<le> 36" for j
      using that off by (intro u32_at_cong keep) simp_all
    then have "section_at out' (sec_table_off im + i * 40) = section_at file (sec_table_off im + i * 40)"
      using off H(2,3) len by (simp add: section_at_u32)
    also have "\<dots> = Some (im_sections im ! i)" by (rule read_from_section [OF r i])
    finally show ?thesis unfolding d using i H(1,2) len by (intro section_at_dump [where i = 0, simplified]) simp_all
  qed
  have mz: "take 2 (dump_headers im oep out) = MZ"
  proof -
    have "get_range (dump_headers im oep out) 0 2 = get_range file 0 2" using lay(1) by (intro head) simp
    moreover have "get_range file 0 2 = Some MZ" using r by (simp add: read_from_def get_range_def)
    ultimately show ?thesis by (simp add: get_range_Some)
  qed
  have z: "?pe = unat z" "u32_at file 0x3C = Some z" "get_range file ?pe (?pe + 4) = Some PE00" "u16_at file (?pe + 4) = Some 0x14C"
    "u16_at file (?pe + 6) = Some n" "length (im_sections im) = unat n" "n \<noteq> 0" "n \<le> 96" "u16_at file (?pe + 20) = Some os"
    "sec_table_off im = ?pe + 24 + unat os" "u16_at file (?pe + 22) = Some ch" "is_dll im = (ch AND 0x2000 \<noteq> 0)" "u16_at file (?pe + 24) = Some 0x10B"
    "u32_at file (?pe + 52) = Some (im_base im)" "u32_at file (?pe + 56) = Some al" "section_align im = max al 0x1000"
    using r unfolding read_from_def by blast+
  have fs: "pe_off (dumped_image im oep) = ?pe" "sec_table_off (dumped_image im oep) = sec_table_off im" "is_dll (dumped_image im oep) = is_dll im"
    "entry_rva (dumped_image im oep) = oep" "im_base (dumped_image im oep) = im_base im" "section_align (dumped_image im oep) = section_align im"
    "im_sections (dumped_image im oep) = map (dumped im) (im_sections im)" "size_of_headers (dumped_image im oep) = min (section_align im) 0x1000"
    "size_of_image (dumped_image im oep) = max (max (size_of_image im) (sections_span (section_align im) (map (dumped im) (im_sections im)))) 0x1000"
    by (simp_all add: dumped_image_def Let_def)
  have lo: "0x40 \<le> length (dump_headers im oep out)" using h H(2) lay(1) by (simp add: d len)
  have e: "u32_at (dump_headers im oep out) 0x3C = Some z" using u32 [of "0x3C"] lay(1) z(2) by simp
  have g: "get_range (dump_headers im oep out) ?pe (?pe + 4) = Some PE00" using head [of "?pe + 4" ?pe] z(3) by simp
  have b: "u32_at (dump_headers im oep out) (?pe + 52) = Some (im_base im)" "u32_at (dump_headers im oep out) (?pe + 56) = Some al"
    using u32 [of "?pe + 52"] u32 [of "?pe + 56"] z(14,15) by simp_all
  have w: "u16_at (dump_headers im oep out) (?pe + 4) = Some 0x14C" "u16_at (dump_headers im oep out) (?pe + 6) = Some n"
    "u16_at (dump_headers im oep out) (?pe + 20) = Some os" "u16_at (dump_headers im oep out) (?pe + 22) = Some ch"
    "u16_at (dump_headers im oep out) (?pe + 24) = Some 0x10B" "u32_at (dump_headers im oep out) (?pe + 40) = Some oep"
    "u32_at (dump_headers im oep out) (?pe + 80) = Some (size_of_image im)" "u32_at (dump_headers im oep out) (?pe + 84) = Some (section_align im)"
    using u16 [of "?pe + 4"] u16 [of "?pe + 6"] u16 [of "?pe + 20"] u16 [of "?pe + 22"] u16 [of "?pe + 24"]
      new [of "?pe + 40"] new [of "?pe + 80"] new [of "?pe + 84"] z(4,5,9,11,13) fields by simp_all
  have secs: "\<forall>i < unat n. section_at (dump_headers im oep out) (sec_table_off im + i * 40) = Some (map (dumped im) (im_sections im) ! i)"
    using sec by (simp add: z(6))
  show ?thesis unfolding read_from_def fs
    by (intro conjI lo mz e b z(1) g secs refl z(7) z(8) z(10) z(12) z(16) w) (simp add: z(6))
qed

lemma length_filled [simp]: "length (filled f a n) = n"
  by (induction n arbitrary: a) simp_all

lemma filled_nth: "k < n \<Longrightarrow> filled f a n ! k = (case f (a + of_nat k) of None \<Rightarrow> 0 | Some b \<Rightarrow> b)"
proof (induction n arbitrary: a k)
  case (Suc n)
  then show ?case by (cases k) (simp_all add: add.assoc)
qed simp

text \<open>Either the program left its headers in memory as they were, or it wiped the first byte of the image.\<close>

definition headers_found :: "pe_image \<Rightarrow> mem \<Rightarrow> bytes \<Rightarrow> bool" where
  "headers_found im m file \<longleftrightarrow>
     (let h = sec_table_off im + 40 * length (im_sections im) in
      (\<forall>k < h. byte_at m (im_base im + of_nat k) = Some (file ! k)) \<or>
      byte_at m (im_base im) \<noteq> Some 0x4D \<and> h \<le> unat (size_of_headers im))"

lemma dump_source:
  assumes p: "parse_pe file = Some im" and inv: "mem_inv m" and hf: "headers_found im m file"
    and d: "dump_pe im m file oep cap = (Some out, m')" and fit: "sec_table_off im + 40 * length (im_sections im) \<le> length out"
  obtains src where "out = dump_headers im oep src" "length out \<le> cap" "length src = length out"
    "take (sec_table_off im + 40 * length (im_sections im)) src = take (sec_table_off im + 40 * length (im_sections im)) file"
proof -
  let ?h = "sec_table_off im + 40 * length (im_sections im)"
  let ?total = "unat (min (content_end im) (size_of_image im))"
  obtain z n os ch al si sh where r: "read_from file im z n os ch al si sh" using parse_read_from [OF p] .
  have hl: "?h \<le> length file" by (rule parse_table_fits [OF p])
  define mems where "mems = filled (byte_at m) (im_base im) ?total"
  have snap: "fst (snapshot m (im_base im) ?total) = mems" using snapshot_spec [OF inv] by (simp add: mems_def)
  have len: "length (dump_headers im oep x) = length x" for x by (simp add: dump_headers_def Let_def)
  let ?hdr = "min (min (unat (size_of_headers im)) (length file)) (length mems)"
  have cases: "?total \<le> cap \<and> 0x40 \<le> ?total \<and>
     (if take 2 mems \<noteq> MZ \<or> take 4 (drop (pe_off im) mems) \<noteq> PE00
      then out = dump_headers im oep (copy_slice mems 0 (take ?hdr file)) else out = dump_headers im oep mems)"
    using d snap by (auto simp: dump_pe_def Let_def split: if_splits prod.splits)
  have lt: "length mems = ?total" by (simp add: mems_def)
  have lh: "length (copy_slice mems 0 (take ?hdr file)) = length mems" by (intro length_copy_slice) simp
  have lo: "length out = length mems" using cases len lh by (auto split: if_splits)
  show ?thesis
  proof (cases "\<forall>k < ?h. byte_at m (im_base im + of_nat k) = Some (file ! k)")
    case True
    have same: "take ?h mems = take ?h file"
      using True hl fit lo lt by (intro nth_equalityI) (simp_all add: mems_def filled_nth)
    have "take ?h (copy_slice mems 0 (take ?hdr file)) = take ?h file"
    proof (rule nth_equalityI)
      show "length (take ?h (copy_slice mems 0 (take ?hdr file))) = length (take ?h file)" using lh lo fit hl by simp
      fix i assume "i < length (take ?h (copy_slice mems 0 (take ?hdr file)))"
      then have i: "i < ?h" "i < length mems" using lh by simp_all
      have "mems ! i = file ! i" using same i by (metis nth_take)
      then show "take ?h (copy_slice mems 0 (take ?hdr file)) ! i = take ?h file ! i"
        using i by (simp add: nth_copy_slice)
    qed
    moreover have "length out \<le> cap" using cases lo lt by simp
    moreover have "out = dump_headers im oep (copy_slice mems 0 (take ?hdr file)) \<or> out = dump_headers im oep mems"
      using cases by (auto split: if_splits)
    ultimately show ?thesis using that [of mems] that [of "copy_slice mems 0 (take ?hdr file)"] same lo lh by metis
  next
    case False
    then have w: "byte_at m (im_base im) \<noteq> Some 0x4D" "?h \<le> unat (size_of_headers im)" using hf by (auto simp: headers_found_def Let_def)
    have "0 < ?total" using cases by linarith
    then have "mems ! 0 \<noteq> 0x4D" using w(1) by (auto simp: mems_def filled_nth split: option.splits)
    then have "take 2 mems \<noteq> MZ" using cases lt by (cases mems) (auto simp: MZ_def)
    then have out: "out = dump_headers im oep (copy_slice mems 0 (take ?hdr file))" using cases by simp
    have "?h \<le> ?hdr" using w(2) hl fit lo by simp
    then have "take ?h (copy_slice mems 0 (take ?hdr file)) = take ?h file" by (simp add: copy_slice_def)
    moreover have "length out \<le> cap" using cases lo lt by simp
    ultimately show ?thesis using that [OF out] lo lh by metis
  qed
qed

text \<open>
  C13. A dump is a program the parser reads back. When the headers are laid out in the usual order, the
  program left them in place or wiped their first byte, and the section table lies within the dump,
  the dump stays within its cap and parses: to the recovered entry point, the base, kind and section
  alignment of the original, and the same sections at the same addresses with the same sizes in
  memory, each to be found at the offset where it lay in memory. Nothing is said of the sizes in the
  file, the size of the image and the directories, which the dump rewrites or the parser computes anew.
\<close>

theorem dump_parses:
  assumes "parse_pe file = Some im" "mem_inv m" "headers_found im m file" "dump_pe im m file oep cap = (Some out, m')"
    and "0x40 \<le> pe_off im" "pe_off im + 24 + 0xE0 \<le> sec_table_off im" "sec_table_off im + 40 * length (im_sections im) \<le> length out"
  shows "length out \<le> cap \<and> (\<exists>im'. parse_pe out = Some im' \<and> entry_rva im' = oep \<and> im_base im' = im_base im \<and> is_dll im' = is_dll im \<and>
    section_align im' = section_align im \<and> map vaddr (im_sections im') = map vaddr (im_sections im) \<and>
    map vsize (im_sections im') = map vsize (im_sections im) \<and> map raw_ptr (im_sections im') = map vaddr (im_sections im))"
proof -
  obtain src where src: "out = dump_headers im oep src" "length out \<le> cap" "length src = length out"
    "take (sec_table_off im + 40 * length (im_sections im)) src = take (sec_table_off im + 40 * length (im_sections im)) file"
    using dump_source [OF assms(1-4) assms(7)] .
  obtain z n os ch al si sh where r: "read_from file im z n os ch al si sh" using parse_read_from [OF assms(1)] .
  have "sec_table_off im + 40 * length (im_sections im) \<le> length file" by (rule parse_table_fits [OF assms(1)])
  then have "read_from out (dumped_image im oep) z n os ch al (size_of_image im) (section_align im)"
    unfolding src(1) using assms(7) src(3) by (intro dump_headers_read [OF r assms(5,6) order_refl _ _ src(4)]) simp_all
  then obtain f i t where "parse_pe out = Some (dumped_image im oep\<lparr>file_align := f, import_dir := i, tls_dir := t\<rparr>)"
    using read_from_parse by blast
  then show ?thesis using src(2) by (simp add: dumped_image_def Let_def dumped_def comp_def)
qed

section \<open>Loading\<close>

text \<open>The memory a load leaves: what was mapped before, zeros in the new pages, then the headers and each section in turn.\<close>

definition zero_range :: "(u32 \<Rightarrow> u8 option) \<Rightarrow> u32 \<Rightarrow> u32 \<Rightarrow> u32 \<Rightarrow> u8 option" where
  "zero_range f a len x =
     (if f x = None \<and> len \<noteq> 0 \<and> page_of a \<le> page_of x \<and> page_of x \<le> page_of (saturating_add a (len - 1)) then Some 0 else f x)"

definition section_bytes :: "pe_image \<Rightarrow> bytes \<Rightarrow> pe_section \<Rightarrow> bytes" where
  "section_bytes im data s = take (unat (section_len s)) (take (unat (raw_size s)) (drop (raw_start im s) data))"

definition load_section :: "pe_image \<Rightarrow> bytes \<Rightarrow> pe_section \<Rightarrow> (u32 \<Rightarrow> u8 option) \<Rightarrow> u32 \<Rightarrow> u8 option" where
  "load_section im data s f =
     put_bytes (zero_range f (im_base im + vaddr s) (section_len s)) (im_base im + vaddr s) (section_bytes im data s)"

definition image_view :: "pe_image \<Rightarrow> bytes \<Rightarrow> (u32 \<Rightarrow> u8 option) \<Rightarrow> u32 \<Rightarrow> u8 option" where
  "image_view im data f =
     fold (load_section im data) (im_sections im)
       (put_bytes (zero_range f (im_base im) (size_of_image im)) (im_base im) (take (unat (size_of_headers im)) data))"

lemma map_pages_new: "index (snd (map_pages ps m)) q \<noteq> None \<Longrightarrow> index m q \<noteq> None \<or> q \<in> set ps"
  by (induction ps m rule: map_pages.induct) (auto split: if_splits)

lemma map_mem_view:
  assumes inv: "mem_inv m" and ok: "map_mem m a len = (Inr u, m')"
  shows "mem_inv m' \<and> byte_at m' = zero_range (byte_at m) a len"
proof (cases "len = 0")
  case True
  then show ?thesis using ok inv by (auto simp: map_mem_def zero_range_def fun_eq_iff)
next
  case False
  let ?ps = "page_range (page_of a) (page_of (saturating_add a (len - 1)))"
  have mp: "map_pages ?ps m = (Inr u, m')" using ok False by (simp add: map_mem_def)
  have small: "\<forall>p \<in> set ?ps. unat p < 2 ^ 20" using page_range_small by blast
  have all: "\<forall>p \<in> set ?ps. page_at m' p \<noteq> None" using map_pages_result [OF inv small] mp by simp
  have pa: "page_at m' q = (if page_at m q = None \<and> page_at m' q \<noteq> None then Some new_page else page_at m q)" for q
    using map_pages_page_at [OF inv small, of q] mp by simp
  have new: "page_at m' q \<noteq> None \<Longrightarrow> page_at m q \<noteq> None \<or> q \<in> set ?ps" for q
    using map_pages_new [of ?ps m q] mp by (auto simp: page_at_def)
  have "byte_at m' x = zero_range (byte_at m) a len x" for x
  proof (cases "page_at m (page_of x)")
    case (Some pg)
    then show ?thesis using pa [of "page_of x"] by (simp add: byte_at_def zero_range_def)
  next
    case None
    have in_ps: "page_of x \<in> set ?ps \<longleftrightarrow> page_of a \<le> page_of x \<and> page_of x \<le> page_of (saturating_add a (len - 1))"
      by (simp add: page_range_set)
    show ?thesis
    proof (cases "page_of x \<in> set ?ps")
      case True
      then have "page_at m' (page_of x) = Some new_page" using all pa [of "page_of x"] None by auto
      then show ?thesis using True None False unfolding in_ps by (simp add: byte_at_def zero_range_def new_page_def)
    next
      case out: False
      then have "page_at m' (page_of x) = None" using new [of "page_of x"] None by blast
      then show ?thesis using out None unfolding in_ps by (auto simp: byte_at_def zero_range_def)
    qed
  qed
  then show ?thesis using map_mem_inv [OF inv, of a len] ok by auto
qed

lemma write_bytes_view:
  assumes "mem_inv m" "write_bytes m a bs = (Inr u, m')"
  shows "mem_inv m' \<and> byte_at m' = put_bytes (byte_at m) a bs"
  using write_bytes_spec [OF assms(1), of a bs] write_bytes_inv [OF assms(1), of a bs] assms(2) by (auto split: if_splits)

lemma zero_range_none: "zero_range f a 0 = f"
  by (simp add: zero_range_def fun_eq_iff)

lemma map_sections_view:
  "mem_inv m \<Longrightarrow> map_sections im data ss m = (r, m') \<Longrightarrow> mem_inv m' \<and> (r = Inr () \<longrightarrow> byte_at m' = fold (load_section im data) ss (byte_at m))"
proof (induction ss arbitrary: m)
  case (Cons s ss)
  let ?addr = "im_base im + vaddr s" and ?start = "raw_start im s"
  let ?en = "min (?start + unat (raw_size s)) (length data)"
  show ?case
  proof (cases "section_len s = 0")
    case True
    then have "load_section im data s f = f" for f by (simp add: load_section_def section_bytes_def zero_range_none)
    then show ?thesis using Cons.IH [of m] Cons.prems True by simp
  next
    case False
    obtain r1 m1 where m1: "map_mem m ?addr (section_len s) = (r1, m1)" by force
    have inv1: "mem_inv m1" using map_mem_inv [OF Cons.prems(1), of ?addr "section_len s"] m1 by simp
    have bs: "take (unat (section_len s)) (take (?en - ?start) (drop ?start data)) = section_bytes im data s"
      by (simp add: section_bytes_def min_def)
    have stop: "?thesis" if "r1 = Inl e" for e using that Cons.prems(2) False m1 inv1 by (auto simp: Let_def)
    show ?thesis
    proof (cases r1)
      case (Inr u)
      have v1: "byte_at m1 = zero_range (byte_at m) ?addr (section_len s)" using map_mem_view [OF Cons.prems(1)] m1 Inr by blast
      show ?thesis
      proof (cases "?start < ?en")
        case True
        obtain r2 m2 where m2: "write_bytes m1 ?addr (section_bytes im data s) = (r2, m2)" by force
        have inv2: "mem_inv m2" using write_bytes_inv [OF inv1, of ?addr "section_bytes im data s"] m2 by simp
        have unf: "map_sections im data (s # ss) m = (case r2 of Inl _ \<Rightarrow> (Inl MapFailed, m2) | Inr _ \<Rightarrow> map_sections im data ss m2)"
          unfolding map_sections.simps Let_def bs using False m1 Inr True m2 by (simp split: sum.splits)
        show ?thesis
        proof (cases r2)
          case (Inr v)
          have "byte_at m2 = load_section im data s (byte_at m)" using write_bytes_view [OF inv1] m2 Inr v1 by (simp add: load_section_def)
          then show ?thesis using Cons.IH [OF inv2] Cons.prems(2) unf Inr by simp
        qed (use unf inv2 Cons.prems(2) in auto)
      next
        case short: False
        then have "section_bytes im data s = []" by (auto simp: section_bytes_def)
        then have "byte_at m1 = load_section im data s (byte_at m)" using v1 by (simp add: load_section_def)
        moreover have "map_sections im data (s # ss) m = map_sections im data ss m1"
          unfolding map_sections.simps Let_def using False m1 Inr short by (simp only: if_False prod.case sum.case)
        ultimately show ?thesis using Cons.IH [OF inv1] Cons.prems(2) by simp
      qed
    qed (rule stop)
  qed
qed simp

definition image_pages :: "pe_image \<Rightarrow> u32 list" where
  "image_pages im =
     (if size_of_image im = 0 then []
      else page_range (page_of (im_base im)) (page_of (saturating_add (im_base im) (size_of_image im - 1))))"

text \<open>
  C12. Loading keeps the memory well formed, and a load that succeeds leaves exactly the image: what was
  mapped before, new pages of zeros, the headers at the base, and every section in the order of the
  table with the bytes of the file that the loader takes for it. No page of the image counts as
  written, so a dirty page is one the program wrote.
\<close>

theorem map_into_view:
  assumes inv: "mem_inv m"
  shows "case map_into im data m of (r, m') \<Rightarrow> mem_inv m' \<and>
    (case r of Inl _ \<Rightarrow> True
     | Inr _ \<Rightarrow> byte_at m' = image_view im data (byte_at m) \<and> watched_dirty_bytes m' = 0 \<and>
         list_all (\<lambda>p. map_option p_dirty (page_at m' p) \<noteq> Some True) (image_pages im))"
proof -
  let ?hdr = "take (unat (size_of_headers im)) data"
  obtain r1 m1 where m1: "map_mem m (im_base im) (size_of_image im) = (r1, m1)" by force
  have inv1: "mem_inv m1" using map_mem_inv [OF inv, of "im_base im" "size_of_image im"] m1 by simp
  obtain r2 m2 where m2: "write_bytes m1 (im_base im) ?hdr = (r2, m2)" by force
  have inv2: "mem_inv m2" using write_bytes_inv [OF inv1, of "im_base im" ?hdr] m2 by simp
  obtain r3 m3 where m3: "map_sections im data (im_sections im) m2 = (r3, m3)" by force
  note s3 = map_sections_view [OF inv2 m3]
  show ?thesis
  proof (cases "\<exists>u v w. r1 = Inr u \<and> r2 = Inr v \<and> r3 = Inr w")
    case False
    then show ?thesis using m1 m2 m3 inv1 inv2 s3 by (auto simp: map_into_def min_def split: sum.splits)
  next
    case True
    let ?m = "watch_range (clear_dirty m3 (im_base im) (size_of_image im)) (im_base im) (size_of_image im)"
    have eq: "map_into im data m = (Inr (), ?m)" using True m1 m2 m3 by (auto simp: map_into_def min_def)
    have v2: "byte_at m2 = put_bytes (zero_range (byte_at m) (im_base im) (size_of_image im)) (im_base im) ?hdr"
      using map_mem_view [OF inv] m1 write_bytes_view [OF inv1] m2 True by metis
    have v3: "byte_at m3 = image_view im data (byte_at m)" using s3 True v2 by (simp add: image_view_def)
    have c: "mem_inv (clear_dirty m3 (im_base im) (size_of_image im))" using s3 by (simp add: clear_dirty_inv)
    have w: "page_at ?m = page_at (clear_dirty m3 (im_base im) (size_of_image im))" "watched_dirty_bytes ?m = 0" "mem_inv ?m"
      using c by (auto simp: watch_range_def page_at_def watched_dirty_bytes_def fun_eq_iff mem_inv_def)
    have cd: "byte_at (clear_dirty m3 (im_base im) (size_of_image im)) = byte_at m3"
        "\<forall>p \<in> set (image_pages im). map_option p_dirty (page_at (clear_dirty m3 (im_base im) (size_of_image im)) p) \<noteq> Some True"
      using clear_pages_spec [of m3 "image_pages im"] s3 by (auto simp: clear_dirty_def image_pages_def option.map_comp o_def split: if_splits)
    have "byte_at ?m = byte_at m3" unfolding cd(1) [symmetric] by (simp add: byte_at_def fun_eq_iff w(1))
    then show ?thesis unfolding eq using w(2,3) v3 cd(2) by (simp add: w(1) list_all_iff)
  qed
qed

section \<open>A program\<close>

text \<open>A file of one section of 16 bytes, with the usual header layout.\<close>

definition demo_pe :: bytes where
  "demo_pe = MZ @ replicate 58 0 @ to_le 4 (0x40 :: u32) @ PE00 @ to_le 4 (0x1014C :: u32) @ replicate 12 0 @ to_le 4 (0x10200E0 :: u32) @
     to_le 4 (0x10B :: u32) @ replicate 12 0 @ to_le 4 (0x1000 :: u32) @ replicate 8 0 @ to_le 4 (0x400000 :: u32) @ to_le 4 (0x1000 :: u32) @
     to_le 4 (0x200 :: u32) @ replicate 16 0 @ to_le 4 (0x2000 :: u32) @ to_le 4 (0x160 :: u32) @ replicate 168 0 @
     to_le 4 (0x10 :: u32) @ to_le 4 (0x1000 :: u32) @ to_le 4 (0x10 :: u32) @ replicate 20 0"

definition demo_image :: pe_image where
  "demo_image = \<lparr>im_base = 0x400000, size_of_image = 0x2000, size_of_headers = 0x160, entry_rva = 0x1000, section_align = 0x1000,
     file_align = 0x200, is_dll = False, import_dir = (0, 0), tls_dir = (0, 0),
     im_sections = [\<lparr>vaddr = 0x1000, vsize = 0x10, raw_ptr = 0, raw_size = 0x10\<rparr>], sec_table_off = 0x138, pe_off = 0x40\<rparr>"

lemma demo_length: "length demo_pe = 0x160" by (simp add: demo_pe_def MZ_def PE00_def)

lemma demo_fields:
  "take 2 demo_pe = MZ" "u32_at demo_pe 0x3C = Some 0x40" "get_range demo_pe 0x40 0x44 = Some PE00"
  "u16_at demo_pe 0x44 = Some 0x14C" "u16_at demo_pe 0x46 = Some 1" "u16_at demo_pe 0x54 = Some 0xE0" "u16_at demo_pe 0x56 = Some 0x102"
  "u16_at demo_pe 0x58 = Some 0x10B" "u32_at demo_pe 0x68 = Some 0x1000" "u32_at demo_pe 0x74 = Some 0x400000" "u32_at demo_pe 0x78 = Some 0x1000"
  "u32_at demo_pe 0x7C = Some 0x200" "u32_at demo_pe 0x90 = Some 0x2000" "u32_at demo_pe 0x94 = Some 0x160" "u32_at demo_pe 0xB4 = Some 0"
  "section_at demo_pe 0x138 = Some \<lparr>vaddr = 0x1000, vsize = 0x10, raw_ptr = 0, raw_size = 0x10\<rparr>"
  by code_simp+

lemma demo_span: "sections_span 0x1000 [\<lparr>vaddr = 0x1000, vsize = 0x10, raw_ptr = 0, raw_size = 0x10\<rparr>] = 0x2000"
  by (simp add: sections_span_def align_up_def saturating_add_def section_len_def)

lemma demo_parse: "parse_pe demo_pe = Some demo_image"
  by (simp add: parse_pe_def Let_def require_def demo_fields demo_length demo_span directory_at_def or_else_def demo_image_def)

theorem parse_pe_wf_witness:
  "sec_table_off demo_image + 40 * length (im_sections demo_image) \<le> length demo_pe \<and> 0x1000 \<le> section_align demo_image"
  using parse_pe_wf [OF demo_parse] by blast

lemma demo_dump:
  "\<exists>out m'. dump_pe demo_image (mem_new 16) demo_pe 0x1008 0x10000 = (Some out, m') \<and> length out = 0x2000"
proof -
  let ?z = "filled (byte_at (mem_new 16)) 0x400000 0x2000"
  have total: "content_end demo_image = 0x2000"
    by (simp add: content_end_def demo_image_def align_up_def saturating_add_def section_len_def)
  have f: "im_base demo_image = 0x400000" "size_of_image demo_image = 0x2000" "size_of_headers demo_image = 0x160" "pe_off demo_image = 0x40"
    by (simp_all add: demo_image_def)
  obtain m' where snap: "snapshot (mem_new 16) 0x400000 0x2000 = (?z, m')"
    using snapshot_spec [OF mem_new_inv, of 16 "0x400000" "0x2000"] by (metis prod.collapse)
  have z: "?z ! 0 = 0" by (subst filled_nth) (simp_all add: byte_at_def page_at_def mem_new_def)
  have "take 2 ?z \<noteq> MZ"
  proof
    assume "take 2 ?z = MZ"
    then have "take 2 ?z ! 0 = 0x4D" by (simp add: MZ_def)
    then show False using z by simp
  qed
  then have "dump_pe demo_image (mem_new 16) demo_pe 0x1008 0x10000 =
      (Some (dump_headers demo_image 0x1008 (copy_slice ?z 0 (take 0x160 demo_pe))), m')"
    using snap by (simp add: dump_pe_def total f demo_length Let_def)
  moreover have "length (copy_slice ?z 0 (take 0x160 demo_pe)) = 0x2000" by (subst length_copy_slice) (simp_all add: demo_length)
  ultimately show ?thesis by (simp add: dump_headers_def Let_def)
qed

theorem dump_parses_witness:
  "\<exists>out im'. fst (dump_pe demo_image (mem_new 16) demo_pe 0x1008 0x10000) = Some out \<and> parse_pe out = Some im' \<and> entry_rva im' = 0x1008"
proof -
  obtain out m' where d: "dump_pe demo_image (mem_new 16) demo_pe 0x1008 0x10000 = (Some out, m')" "length out = 0x2000" using demo_dump by blast
  have hf: "headers_found demo_image (mem_new 16) demo_pe"
    by (simp add: headers_found_def demo_image_def byte_at_def page_at_def mem_new_def)
  obtain im' where "parse_pe out = Some im'" "entry_rva im' = 0x1008"
    using dump_parses [OF demo_parse mem_new_inv hf d(1)] d(2) by (auto simp: demo_image_def)
  then show ?thesis using d(1) by auto
qed

lemma bytes_at_mapped: "(\<And>k. k < n \<Longrightarrow> f (a + of_nat k) \<noteq> None) \<Longrightarrow> bytes_at f a n \<noteq> None"
proof (induction n arbitrary: a)
  case (Suc n)
  have "f (a + 1 + of_nat k) \<noteq> None" if "k < n" for k using Suc.prems [of "Suc k"] that by (simp add: add.assoc)
  then show ?case using Suc.IH [of "a + 1"] Suc.prems [of 0] by auto
qed simp

text \<open>Two pages of an image stay mapped, so writes to them succeed.\<close>

definition two_pages :: "mem \<Rightarrow> bool" where
  "two_pages m \<longleftrightarrow> mem_inv m \<and> index m 0x400 \<noteq> None \<and> index m 0x401 \<noteq> None"

lemma two_pages_write:
  assumes "two_pages m" "unat a + length bs \<le> 0x402000" "0x400000 \<le> unat a"
  shows "fst (write_bytes m a bs) = Inr () \<and> two_pages (snd (write_bytes m a bs))"
proof -
  have inv: "mem_inv m" using assms(1) by (simp add: two_pages_def)
  have "byte_at m (a + of_nat k) \<noteq> None" if "k < length bs" for k
  proof -
    have "unat (of_nat k :: u32) = k" using that assms(2) by (intro unat_of_nat_lt) simp
    then have "unat (a + of_nat k) = unat a + k" using that assms(2) by (simp add: unat_word_ariths)
    then have "unat (page_of (a + of_nat k)) = 0x400 \<or> unat (page_of (a + of_nat k)) = 0x401"
      using that assms(2,3) unat_page_of [of "a + of_nat k"] by simp linarith
    then have "page_of (a + of_nat k) = 0x400 \<or> page_of (a + of_nat k) = 0x401" by (simp add: word_unat_eq_iff)
    then show ?thesis using assms(1) by (auto simp: two_pages_def byte_at_def page_at_def)
  qed
  then have b: "bytes_at (byte_at m) a (length bs) \<noteq> None" by (rule bytes_at_mapped)
  have fr: "write_frame m (snd (write_bytes m a bs))" "fst (write_bytes m a bs) = Inr ()" using write_bytes_spec [OF inv, of a bs] b by auto
  then show ?thesis using assms(1) by (auto simp: two_pages_def write_frame_def)
qed

lemma demo_map:
  "map_mem (mem_new 16) 0x400000 0x2000 = (Inr (), (mem_new 16)\<lparr>pages := [new_page, new_page], index := [0x400 \<mapsto> 0, 0x401 \<mapsto> 1]\<rparr>)"
proof -
  have "(saturating_add 0x400000 (0x2000 - 1) :: u32) = 0x401FFF" by (simp add: saturating_add_def)
  moreover have "page_range (page_of 0x400000) (page_of 0x401FFF) = [0x400, 0x401]" by (simp add: page_range_def page_of_def upt_rec)
  ultimately show ?thesis by (simp add: map_mem_def mem_new_def)
qed

lemma demo_section_map: "two_pages m \<Longrightarrow> map_mem m 0x401000 0x10 = (Inr (), m)"
proof -
  have "(saturating_add 0x401000 (0x10 - 1) :: u32) = 0x40100F" by (simp add: saturating_add_def)
  moreover have "page_range (page_of 0x401000) (page_of 0x40100F) = [0x401]" by (simp add: page_range_def page_of_def upt_rec)
  moreover assume "two_pages m"
  ultimately show ?thesis by (simp add: map_mem_def two_pages_def)
qed

lemma demo_load: "fst (map_into demo_image demo_pe (mem_new 16)) = Inr ()"
proof -
  let ?m = "(mem_new 16)\<lparr>pages := [new_page, new_page], index := [0x400 \<mapsto> 0, 0x401 \<mapsto> 1]\<rparr>"
  have "mem_inv ?m" using map_mem_inv [OF mem_new_inv, of 16 "0x400000" "0x2000"] by (simp add: demo_map)
  then have t0: "two_pages ?m" by (simp add: two_pages_def)
  obtain m2 where m2: "write_bytes ?m 0x400000 demo_pe = (Inr (), m2)" "two_pages m2"
    using two_pages_write [OF t0, of "0x400000" demo_pe] by (simp add: demo_length) (metis prod.collapse)
  obtain m3 where m3: "write_bytes m2 0x401000 (take 0x10 demo_pe) = (Inr (), m3)"
    using two_pages_write [OF m2(2), of "0x401000" "take 0x10 demo_pe"] by (simp add: demo_length) (metis prod.collapse)
  have secs: "map_sections demo_image demo_pe (im_sections demo_image) m2 = (Inr (), m3)"
    using m3 by (simp add: demo_image_def section_len_def raw_start_def demo_section_map [OF m2(2)] demo_length Let_def)
  show ?thesis unfolding map_into_def using m2(1) secs
    by (simp add: demo_map demo_image_def demo_length)
qed

theorem map_into_view_witness:
  "byte_at (snd (map_into demo_image demo_pe (mem_new 16))) = image_view demo_image demo_pe (byte_at (mem_new 16))"
  using map_into_view [OF mem_new_inv, of demo_image demo_pe 16] demo_load by (simp add: split_beta)

end
