(* ===== verification/Emu_Seh_Props.thy ===== *)
theory Emu_Seh_Props
  imports Emu_Seh Emu_Image_Props
begin

text \<open>
  What exception dispatch promises: it never panics, because every record it reads was checked to lie
  below the top of the address space, and a handler that continues resumes the interrupted program.
\<close>

section \<open>No panics\<close>

definition seh_inv :: "seh_state \<Rightarrow> bool" where
  "seh_inv h \<longleftrightarrow> (seh_active h \<longrightarrow> unat (seh_context h) + 0x2CC \<le> 2 ^ 32)"

lemma is_mapped_below: "is_mapped m a len \<Longrightarrow> len \<noteq> 0 \<Longrightarrow> unat a + unat len \<le> 2 ^ 32"
proof -
  assume m: "is_mapped m a len" and nz: "len \<noteq> 0"
  have "unat (len - 1) = unat len - 1" by (rule unat_minus_one [OF nz])
  moreover have "0 < unat len" using nz by (simp add: unat_gt_0)
  moreover have "unat a + unat (len - 1) < 2 ^ 32" using m nz by (auto simp: is_mapped_def add_chk_def split: if_splits)
  ultimately show ?thesis by simp
qed

lemma chain_end_below: "\<not> chain_end p m \<Longrightarrow> unat p + 8 \<le> 2 ^ 32"
  using is_mapped_below [of m p 8] by (simp add: chain_end_def)

lemma add_x_fits: "unat a + unat b < 2 ^ 32 \<Longrightarrow> add_x a b s = (Done (a + b), s)"
  by (simp add: add_x_def add_chk_def)

lemma np_add: "unat a + unat b < 2 ^ 32 \<Longrightarrow> no_panic (add_x a b)"
  by (simp add: no_panic_def add_x_fits)

lemma np_push: "no_panic (push32 v)"
  by (auto simp: push32_def intro!: np_rules)

lemma np_enter: "unat (seh_frame h) + 8 \<le> 2 ^ 32 \<Longrightarrow> no_panic (enter_handler h)"
  unfolding enter_handler_def by (intro np_rules np_push np_add) simp

lemma np_context: "unat a + 0x2CC \<le> 2 ^ 32 \<Longrightarrow> no_panic (read_context a)"
proof -
  assume a: "unat a + 0x2CC \<le> 2 ^ 32"
  have get: "no_panic (context_get a off)" if "unat off \<le> 0xC4" for off
    unfolding context_get_def using a that by (intro np_rules np_add) simp
  have reg: "no_panic (context_reg a off r)" if "unat off \<le> 0xC4" for off r
    unfolding context_reg_def by (intro np_rules get that)
  have regs: "no_panic (each_x (\<lambda>(off, r). context_reg a off r) context_regs)"
    unfolding context_regs_def each_x.simps prod.case by (intro np_rules reg) simp_all
  show ?thesis unfolding read_context_def by (intro np_then np_bind np_pure regs get reg) simp_all
qed

lemma np_write_context: "no_panic (write_context a at)"
  unfolding write_context_def by (intro np_rules)

lemma context_of_record:
  assumes "unat rec + 0x31C \<le> 2 ^ 32" "rec = ctx - EXC_RECORD_SIZE"
  shows "unat ctx = unat rec + 0x50"
proof -
  have "ctx = rec + 0x50" using assms(2) by (simp add: EXC_RECORD_SIZE_def)
  then show ?thesis using assms(1) by (simp add: unat_word_ariths)
qed

lemma record_fits:
  assumes "is_mapped m (c - EXC_RECORD_SIZE) (CONTEXT_SIZE + EXC_RECORD_SIZE)"
  shows "unat c + 0x2CC \<le> 2 ^ 32"
proof -
  have sz: "unat (CONTEXT_SIZE + EXC_RECORD_SIZE) = 0x31C" "CONTEXT_SIZE + EXC_RECORD_SIZE \<noteq> 0"
    by (simp_all add: CONTEXT_SIZE_def EXC_RECORD_SIZE_def)
  have "unat (c - EXC_RECORD_SIZE) + 0x31C \<le> 2 ^ 32" using is_mapped_below [OF assms sz(2)] sz(1) by simp
  then show ?thesis using context_of_record [OF _ refl, of c] by simp
qed

lemma np_D: "no_panic p \<Longrightarrow> p s \<noteq> (Panicked, t)"
  by (metis no_panic_def fst_conv)

lemma seh_raise_np:
  assumes "seh_inv h"
  shows "fst (seh_raise code at h s) \<noteq> Panicked \<and> seh_inv (fst (snd (seh_raise code at h s)))"
proof -
  have rd: "no_panic (mem_x (\<lambda>m. read_u32 m (fs_base (fst s))))" by (intro np_rules)
  have wr: "no_panic (then_x (mem_x (\<lambda>m. write_bytes m rec (exc_record code at))) (write_context cx at))" for rec cx
    by (intro np_rules np_write_context)
  have en: "no_panic (then_x (put_x (set_reg ESP rec)) (then_x (enter_handler g) (ret_x True)))" if "unat (seh_frame g) + 8 \<le> 2 ^ 32" for rec g
    by (intro np_rules np_enter that)
  show ?thesis using assms np_D [OF rd] np_D [OF wr] en [unfolded no_panic_def] chain_end_below record_fits
    by (auto simp: seh_raise_def Let_def with_seh_def seh_inv_def split: prod.splits outcome.splits)
qed

lemma handler_returned_np:
  assumes "seh_inv h"
  shows "fst (handler_returned h s) \<noteq> Panicked \<and> seh_inv (fst (snd (handler_returned h s)))"
proof -
  have "no_panic (read_context (seh_context h))" if "seh_active h" using assms that by (intro np_context) (simp add: seh_inv_def)
  then have "seh_active h \<Longrightarrow> read_context (seh_context h) s \<noteq> (Panicked, t)" for t by (metis np_D)
  then show ?thesis using assms by (auto simp: handler_returned_def seh_inv_def split: prod.splits outcome.splits)
qed

lemma dispatch_next_np:
  assumes "seh_inv h"
  shows "fst (dispatch_next h s) \<noteq> Panicked \<and> seh_inv (fst (snd (dispatch_next h s)))"
proof -
  have rd: "no_panic (mem_x (\<lambda>m. read_u32 m (seh_frame h)))" by (intro np_rules)
  have en: "no_panic (then_x (enter_handler g) (ret_x True))" if "unat (seh_frame g) + 8 \<le> 2 ^ 32" for g
    by (intro np_rules np_enter that)
  show ?thesis using assms np_D [OF rd] en [unfolded no_panic_def] chain_end_below
    by (auto simp: dispatch_next_def Let_def with_seh_def seh_inv_def split: prod.splits outcome.splits)
qed

section \<open>Resuming\<close>

lemma put_field_u32: "off + 4 \<le> length c \<Longrightarrow> put_field off v c = put_u32 off v c"
  by (simp add: put_field_def put_u32_def)

lemma context_put:
  "context_bytes c at = fold (\<lambda>(off, v). put_u32 off v) (context_fields c at) (replicate 0x2CC 0)"
  by (simp add: context_bytes_def context_fields_def put_field_u32 CONTEXT_SIZE_def)

lemma length_context [simp]: "length (context_bytes c at) = 0x2CC"
  by (simp add: context_put context_fields_def)

lemma context_field: "(off, v) \<in> set (context_fields c at) \<Longrightarrow> u32_at (context_bytes c at) off = Some v"
  unfolding context_put by (auto simp: context_fields_def u32_at_put_same u32_at_put_other)

lemma bytes_at_part:
  assumes "bytes_at f a n = Some bs" "k + l \<le> n"
  shows "bytes_at f (a + of_nat k) l = Some (take l (drop k bs))"
proof -
  have all: "\<forall>i<n. f (a + of_nat i) \<noteq> None" and bs: "bs = map (\<lambda>i. the (f (a + of_nat i))) [0..<n]"
    using assms(1) by (auto simp: bytes_at_eq split: if_splits)
  have "f (a + of_nat k + of_nat i) \<noteq> None" if "i < l" for i
    using all [rule_format, of "k + i"] that assms(2) by (simp add: add.assoc)
  moreover have "take l (drop k bs) = map (\<lambda>i. the (f (a + of_nat k + of_nat i))) [0..<l]"
    using assms(2) by (intro nth_equalityI) (simp_all add: bs add.assoc)
  ultimately show ?thesis by (simp add: bytes_at_eq)
qed

text \<open>The context of a processor state, held in memory.\<close>

definition context_at :: "mem \<Rightarrow> u32 \<Rightarrow> cpu \<Rightarrow> u32 \<Rightarrow> bool" where
  "context_at m a c at \<longleftrightarrow> mem_inv m \<and> unat a + 0x2CC \<le> 2 ^ 32 \<and> bytes_at (byte_at m) a 0x2CC = Some (context_bytes c at)"

lemma context_get_field:
  assumes "context_at m a c at" "(off, v) \<in> set (context_fields c at)"
  obtains m' where "context_get a (of_nat off) (c2, m) = (Done v, c2, m')" "context_at m' a c at" "byte_at m' = byte_at m"
proof -
  have off: "off \<le> 0xC8" using assms(2) by (auto simp: context_fields_def)
  have o: "unat (of_nat off :: u32) = off" using off by (intro unat_of_nat_lt) simp
  have fit: "unat a + unat (of_nat off :: u32) < 2 ^ 32" using assms(1) off o by (simp add: context_at_def)
  have inv: "mem_inv m" using assms(1) by (simp add: context_at_def)
  have "get_range (context_bytes c at) off (off + 4) = Some (to_le 4 v)"
  proof -
    have "map_option from_le (get_range (context_bytes c at) off (off + 4)) = Some v" using context_field [OF assms(2)] by (simp add: u32_at_def)
    then obtain bs where bs: "get_range (context_bytes c at) off (off + 4) = Some bs" "from_le bs = v" by auto
    then have "length bs = 4" by (auto simp: get_range_Some)
    then have "to_le 4 v = bs" using to_from_le [of bs 4, where 'a = 32] bs(2) by simp
    then show ?thesis using bs(1) by simp
  qed
  then have "take 4 (drop off (context_bytes c at)) = to_le 4 v" by (simp add: get_range_Some)
  then have "bytes_at (byte_at m) (a + of_nat off) 4 = Some (to_le 4 v)"
    using bytes_at_part [of "byte_at m" a "0x2CC" _ off 4] assms(1) off by (simp add: context_at_def)
  then have r: "fst (read_u32 m (a + of_nat off)) = Inr v" by (simp add: read_u32_bytes [OF inv])
  obtain m' where m': "read_u32 m (a + of_nat off) = (Inr v, m')" using r by (metis prod.collapse)
  have inv': "mem_inv m'" using read_u32_inv [OF inv, of "a + of_nat off"] m' by simp
  have "same_mem m m'" using read_into_spec [OF inv, of "replicate 4 0" "a + of_nat off"] m'
    by (auto simp: read_u32_def split: prod.splits sum.splits)
  then have b: "byte_at m' = byte_at m" by (rule same_mem_byte_at)
  have "context_get a (of_nat off) (c2, m) = (Done v, c2, m')"
    using m' by (simp add: context_get_def bind_x_def add_x_fits [OF fit] mem_x_def)
  moreover have "context_at m' a c at" using assms(1) inv' b by (simp add: context_at_def)
  ultimately show ?thesis using that b by blast
qed

lemma context_reg_field:
  assumes "context_at m a c at" "(off, v) \<in> set (context_fields c at)"
  obtains m' where "context_reg a (of_nat off) r (c2, m) = (Done (), set_reg r v c2, m')" "context_at m' a c at" "byte_at m' = byte_at m"
proof -
  obtain m' where "context_get a (of_nat off) (c2, m) = (Done v, c2, m')" "context_at m' a c at" "byte_at m' = byte_at m"
    using context_get_field [OF assms] .
  then show ?thesis using that [of m'] by (simp add: context_reg_def bind_x_def put_x_def)
qed

lemma context_regs_fields:
  assumes "context_at m a c at" "\<forall>(off, r) \<in> set rs. (unat off, reg c r) \<in> set (context_fields c at)"
  obtains m' where "each_x (\<lambda>(off, r). context_reg a off r) rs (c2, m) = (Done (), fold (\<lambda>(off, r). set_reg r (reg c r)) rs c2, m')"
    "context_at m' a c at" "byte_at m' = byte_at m"
  using assms
proof (induction rs arbitrary: c2 m thesis)
  case Nil
  then show ?case by (simp add: ret_x_def)
next
  case (Cons x rs)
  obtain off r where x: "x = (off, r)" by force
  have f: "(unat off, reg c r) \<in> set (context_fields c at)" using Cons.prems(3) x by simp
  obtain m1 where m1: "context_reg a off r (c2, m) = (Done (), set_reg r (reg c r) c2, m1)" "context_at m1 a c at" "byte_at m1 = byte_at m"
    using context_reg_field [OF Cons.prems(2) f, where r = r and ?c2.0 = c2] by auto
  obtain m2 where m2: "each_x (\<lambda>(off, r). context_reg a off r) rs (set_reg r (reg c r) c2, m1) =
      (Done (), fold (\<lambda>(off, r). set_reg r (reg c r)) rs (set_reg r (reg c r) c2), m2)" "context_at m2 a c at" "byte_at m2 = byte_at m1"
  proof (rule Cons.IH)
    show "context_at m1 a c at" by (rule m1(2))
    show "\<forall>(off, r) \<in> set rs. (unat off, reg c r) \<in> set (context_fields c at)" using Cons.prems(3) by simp
  qed
  show ?case by (rule Cons.prems(1) [of m2]) (use m1 m2 x in \<open>simp_all add: then_x_def bind_x_def\<close>)
qed

lemma read_context_restores:
  assumes ctx: "context_at m a c at"
  obtains c3 m3 where "read_context a (c2, m) = (Done (), c3, m3)" "\<forall>r < 8. reg c3 r = reg c r" "eip c3 = at" "flags c3 = flags c"
    "byte_at m3 = byte_at m" "mem_inv m3"
proof -
  let ?c1 = "fold (\<lambda>(off, r). set_reg r (reg c r)) context_regs c2"
  have fs: "\<forall>(off, r) \<in> set context_regs. (unat off, reg c r) \<in> set (context_fields c at)" by (simp add: context_regs_def context_fields_def)
  obtain m1 where m1: "each_x (\<lambda>(off, r). context_reg a off r) context_regs (c2, m) = (Done (), ?c1, m1)" "context_at m1 a c at" "byte_at m1 = byte_at m"
    using context_regs_fields [OF ctx fs, where ?c2.0 = c2] .
  let ?c2 = "?c1\<lparr>eip := at\<rparr>"
  obtain m2 where m2: "context_get a 0xB8 (?c1, m1) = (Done at, ?c1, m2)" "context_at m2 a c at" "byte_at m2 = byte_at m1"
    using context_get_field [OF m1(2), of "0xB8" at ?c1] by (auto simp: context_fields_def)
  let ?c3 = "set_eflags (eflags c) ?c2"
  obtain m3 where m3: "context_get a 0xC0 (?c2, m2) = (Done (eflags c), ?c2, m3)" "context_at m3 a c at" "byte_at m3 = byte_at m2"
    using context_get_field [OF m2(2), of "0xC0" "eflags c" ?c2] by (auto simp: context_fields_def)
  let ?c4 = "set_reg ESP (reg c ESP) ?c3"
  obtain m4 where m4: "context_reg a 0xC4 ESP (?c3, m3) = (Done (), ?c4, m4)" "context_at m4 a c at" "byte_at m4 = byte_at m3"
    using context_reg_field [OF m3(2), of "0xC4" "reg c ESP" ESP ?c3] by (auto simp: context_fields_def)
  have "read_context a (c2, m) = (Done (), ?c4, m4)"
    using m1(1) m2(1) m3(1) m4(1) by (simp add: read_context_def then_x_def bind_x_def put_x_def)
  moreover have "reg ?c4 r = reg c r" if "r < 8" for r
  proof -
    have "r \<in> {0, 1, 2, 3, 4, 5, 6, 7}" using that by auto
    then show ?thesis by (auto simp: set_reg_def reg_def set_eflags_def context_regs_def)
  qed
  moreover have "eip ?c4 = at" by (simp add: set_reg_def set_eflags_def)
  moreover have "flags ?c4 = flags c" using set_eflags_eflags [of c ?c2] by (simp add: flags_def set_reg_def)
  ultimately show ?thesis using that m1(3) m2(3) m3(3) m4(2,3) by (simp add: context_at_def)
qed

text \<open>What holds after an execution that completes.\<close>

definition after :: "(machine \<Rightarrow> bool) \<Rightarrow> 'a exec \<Rightarrow> (machine \<Rightarrow> bool) \<Rightarrow> bool" where
  "after P p Q \<longleftrightarrow> (\<forall>s v t. P s \<longrightarrow> p s = (Done v, t) \<longrightarrow> Q t)"

lemma after_bind: "after P p Q \<Longrightarrow> (\<And>v. after Q (f v) R) \<Longrightarrow> after P (bind_x p f) R"
  unfolding after_def bind_x_def by (auto split: prod.splits outcome.splits) blast

lemma after_then: "after P p Q \<Longrightarrow> after Q q R \<Longrightarrow> after P (then_x p q) R"
  by (simp add: then_x_def after_bind)

lemma after_put: "(\<And>c m. P (c, m) \<Longrightarrow> Q (f c, m)) \<Longrightarrow> after P (put_x f) Q"
  by (auto simp: after_def put_x_def)

lemma after_ret: "after P (ret_x v) P"
  by (simp add: after_def ret_x_def)

text \<open>A context in memory with the stack pointer \<open>0x50 + 4 n\<close> bytes below it.\<close>

definition ctx_above :: "u32 \<Rightarrow> cpu \<Rightarrow> u32 \<Rightarrow> nat \<Rightarrow> machine \<Rightarrow> bool" where
  "ctx_above a c at n s \<longleftrightarrow> context_at (snd s) a c at \<and> reg (fst s) ESP + of_nat (0x50 + 4 * n) = a"

lemma after_add: "after P (add_x a b) P"
  by (simp add: after_def add_x_def split: option.splits)

lemma after_read: "after (ctx_above a c at n) (mem_x (\<lambda>m. read_u32 m b)) (ctx_above a c at n)"
  unfolding after_def
proof (intro allI impI)
  fix s v t assume ab: "ctx_above a c at n s" and rd: "mem_x (\<lambda>m. read_u32 m b) s = (Done v, t)"
  have inv: "mem_inv (snd s)" using ab by (simp add: ctx_above_def context_at_def)
  obtain m' where m': "read_u32 (snd s) b = (Inr v, m')" "t = (fst s, m')" using rd by (auto simp: mem_x_def split: prod.splits sum.splits)
  have "mem_inv m'" using read_u32_inv [OF inv, of b] m' by simp
  moreover have "same_mem (snd s) m'" using read_into_spec [OF inv, of "replicate 4 0" b] m' by (auto simp: read_u32_def split: prod.splits sum.splits)
  then have "byte_at m' = byte_at (snd s)" by (rule same_mem_byte_at)
  ultimately show "ctx_above a c at n t" using ab m' by (simp add: ctx_above_def context_at_def)
qed

lemma after_push:
  assumes "n < 100" "k = Suc n"
  shows "after (ctx_above a c at n) (push32 v) (ctx_above a c at k)"
  unfolding after_def
proof (intro allI impI)
  fix s u t assume ab: "ctx_above a c at n s" and p: "push32 v s = (Done u, t)"
  let ?sp = "reg (fst s) ESP - 4"
  have inv: "mem_inv (snd s)" using ab by (simp add: ctx_above_def context_at_def)
  obtain m' where m': "write_u32 (snd s) ?sp v = (Inr (), m')" "t = (set_reg ESP ?sp (fst s), m')"
    using p by (auto simp: push32_def bind_x_def then_x_def get_x_def put_x_def mem_x_def split: prod.splits sum.splits)
  then have view: "mem_inv m'" "byte_at m' = put_bytes (byte_at (snd s)) ?sp (to_le 4 v)"
    using write_bytes_view [OF inv] by (auto simp: write_u32_def)
  have a: "?sp + of_nat (0x54 + 4 * n) = a" using ab by (simp add: ctx_above_def add.left_commute)
  have "byte_at m' (a + of_nat i) = byte_at (snd s) (a + of_nat i)" if "i < 0x2CC" for i
  proof -
    have "a + of_nat i - ?sp = of_nat (0x54 + 4 * n + i)" unfolding a [symmetric] by simp
    moreover have "unat (of_nat (0x54 + 4 * n + i) :: u32) = 0x54 + 4 * n + i" using that assms by (intro unat_of_nat_lt) simp
    ultimately have "unat (a + of_nat i - ?sp) = 0x54 + 4 * n + i" by (simp only:)
    then have "length (to_le 4 v) \<le> unat (a + of_nat i - ?sp)" by simp
    then show ?thesis unfolding view(2) by (intro put_bytes_far) simp_all
  qed
  then have "bytes_at (byte_at m') a 0x2CC = bytes_at (byte_at (snd s)) a 0x2CC" by (simp add: bytes_at_eq)
  then show "ctx_above a c at k t" using ab view(1) m'(2) a assms(2) by (simp add: ctx_above_def context_at_def set_reg_def reg_def)
qed

lemma after_enter: "after (ctx_above a c at 0) (enter_handler h) (ctx_above a c at 5)"
proof -
  have put: "after (ctx_above a c at 5) (put_x (\<lambda>c. c\<lparr>eip := v\<rparr>)) (ctx_above a c at 5)" for v
    by (rule after_put) (simp add: ctx_above_def reg_def)
  note p = after_push [of _ _ a c at]
  show ?thesis unfolding enter_handler_def
    by (rule after_bind [OF after_add], rule after_bind [OF after_read],
        rule after_then [OF p [of 0 1]], simp, simp, rule after_then [OF p [of 1 2]], simp, simp,
        rule after_then [OF p [of 2 3]], simp, simp, rule after_then [OF p [of 3 4]], simp, simp,
        rule after_then [OF p [of 4 5]], simp, simp, rule put)
qed

lemma write_context_at:
  assumes "mem_inv m" "unat a + 0x2CC \<le> 2 ^ 32" "write_context a at (c, m) = (Done u, t)"
  shows "fst t = c \<and> context_at (snd t) a c at"
proof -
  obtain m' where m': "write_bytes m a (context_bytes c at) = (Inr (), m')" "t = (c, m')"
    using assms(3) by (auto simp: write_context_def bind_x_def get_x_def mem_x_def split: prod.splits sum.splits)
  then have "mem_inv m'" "byte_at m' = put_bytes (byte_at m) a (context_bytes c at)" using write_bytes_view [OF assms(1)] by auto
  then show ?thesis using m'(2) assms(2) bytes_at_put_bytes [of "context_bytes c at" "byte_at m" a] by (simp add: context_at_def)
qed

lemma records_written:
  assumes "mem_inv m" "unat a + 0x2CC \<le> 2 ^ 32"
    and "then_x (mem_x (\<lambda>m. write_bytes m rec bs)) (write_context a at) (c, m) = (Done u, t)"
  shows "fst t = c \<and> context_at (snd t) a c at"
proof -
  obtain m1 where m1: "write_bytes m rec bs = (Inr (), m1)" "write_context a at (c, m1) = (Done u, t)"
    using assms(3) by (auto simp: then_x_def bind_x_def mem_x_def split: prod.splits sum.splits)
  have "mem_inv m1" using write_bytes_view [OF assms(1) m1(1)] by simp
  then show ?thesis using write_context_at assms(2) m1(2) by blast
qed

lemma with_seh_eq [simp]: "with_seh r h = (v, h1, s1) \<longleftrightarrow> r = (v, s1) \<and> h1 = h"
  by (auto simp: with_seh_def prod_eq_iff)

lemma seh_raise_done:
  assumes "seh_raise code at h s = (Done True, h1, s1)"
  obtains s2 s3 u where "mem_x (\<lambda>m. read_u32 m (fs_base (fst s))) s = (Done (seh_frame h1), s2)"
    "is_mapped (snd s2) (seh_context h1 - EXC_RECORD_SIZE) (CONTEXT_SIZE + EXC_RECORD_SIZE)"
    "then_x (mem_x (\<lambda>m. write_bytes m (seh_context h1 - EXC_RECORD_SIZE) (exc_record code at))) (write_context (seh_context h1) at) s2 = (Done u, s3)"
    "then_x (put_x (set_reg ESP (seh_context h1 - EXC_RECORD_SIZE))) (then_x (enter_handler h1) (ret_x True)) s3 = (Done True, s1)" "seh_active h1"
  using assms unfolding seh_raise_def Let_def
  by (auto split: prod.splits outcome.splits if_splits)

lemma after_resume: "after (\<lambda>s. context_at (snd s) a c at) (then_x (put_x (set_reg ESP (a - EXC_RECORD_SIZE))) (then_x (enter_handler h) (ret_x v))) (ctx_above a c at 5)"
proof (rule after_then)
  show "after (\<lambda>s. context_at (snd s) a c at) (put_x (set_reg ESP (a - EXC_RECORD_SIZE))) (ctx_above a c at 0)"
    by (rule after_put) (simp add: ctx_above_def EXC_RECORD_SIZE_def)
  show "after (ctx_above a c at 0) (then_x (enter_handler h) (ret_x v)) (ctx_above a c at 5)"
    by (rule after_then [OF after_enter after_ret])
qed

lemma seh_raise_context:
  assumes inv: "mem_inv m" and r: "seh_raise code at h (c, m) = (Done True, h1, s1)"
  shows "seh_active h1 \<and> context_at (snd s1) (seh_context h1) c at"
proof -
  let ?ctx = "seh_context h1"
  obtain s2 s3 u where rd: "mem_x (\<lambda>m. read_u32 m (fs_base c)) (c, m) = (Done (seh_frame h1), s2)"
    and mp: "is_mapped (snd s2) (?ctx - EXC_RECORD_SIZE) (CONTEXT_SIZE + EXC_RECORD_SIZE)"
    and wr: "then_x (mem_x (\<lambda>m. write_bytes m (?ctx - EXC_RECORD_SIZE) (exc_record code at))) (write_context ?ctx at) s2 = (Done u, s3)"
    and en: "then_x (put_x (set_reg ESP (?ctx - EXC_RECORD_SIZE))) (then_x (enter_handler h1) (ret_x True)) s3 = (Done True, s1)"
    and act: "seh_active h1"
    using seh_raise_done [OF r, unfolded fst_conv] .
  obtain m2 where m2: "s2 = (c, m2)" "mem_inv m2"
    using rd read_u32_inv [OF inv, of "fs_base c"] by (auto simp: mem_x_def split: prod.splits sum.splits)
  have "context_at (snd s3) ?ctx c at" using records_written [OF m2(2) record_fits [OF mp]] wr m2(1) by blast
  then have "ctx_above ?ctx c at 5 s1" using after_resume [of ?ctx c at h1 True, unfolded after_def, rule_format] en by blast
  then show ?thesis using act by (simp add: ctx_above_def)
qed

text \<open>
  A handler that continues resumes the interrupted program. When raising an exception enters the
  program's handler, and the handler later returns "continue" (\<open>EAX = 0\<close>) without having edited the
  context record, then whatever it did to the registers and to the rest of memory, all eight registers,
  the instruction pointer and the status flags are those at the fault, dispatch is no longer active, and memory
  reads as the handler left it.
\<close>

theorem seh_resume:
  assumes "mem_inv m" "seh_raise code at h (c, m) = (Done True, h1, s1)"
    and "mem_inv m2" "reg c2 EAX = 0"
    and "bytes_at (byte_at m2) (seh_context h1) 0x2CC = bytes_at (byte_at (snd s1)) (seh_context h1) 0x2CC"
  shows "\<exists>c3 m3. handler_returned h1 (c2, m2) = (Done Resumed, h1\<lparr>seh_active := False\<rparr>, c3, m3) \<and>
           (\<forall>r < 8. reg c3 r = reg c r) \<and> eip c3 = at \<and> flags c3 = flags c \<and> byte_at m3 = byte_at m2"
proof -
  have h: "seh_active h1" "context_at (snd s1) (seh_context h1) c at" using seh_raise_context [OF assms(1,2)] by auto
  have "context_at m2 (seh_context h1) c at" using h(2) assms(3,5) by (simp add: context_at_def)
  then obtain c3 m3 where "read_context (seh_context h1) (c2, m2) = (Done (), c3, m3)" "\<forall>r < 8. reg c3 r = reg c r" "eip c3 = at"
      "flags c3 = flags c" "byte_at m3 = byte_at m2"
    using read_context_restores [where ?c2.0 = c2] by metis
  then show ?thesis using h(1) assms(4) by (simp add: handler_returned_def)
qed

section \<open>A concrete exception\<close>

text \<open>
  Two pages with a one-link handler chain at their start: the thread's list head at \<open>0x400000\<close>, its frame at
  \<open>0x400010\<close>.
\<close>

definition seh_mem :: mem where
  "seh_mem = snd (write_u32 (snd (map_mem (mem_new 16) 0x400000 0x2000)) 0x400000 0x400010)"

definition seh_cpu :: cpu where
  "seh_cpu = set_reg ESP 0x401800 (cpu_new\<lparr>fs_base := 0x400000\<rparr>)"

definition seh_none :: seh_state where
  "seh_none = \<lparr>seh_return = 0x70000020, seh_frame = 0, seh_context = 0, seh_record = 0, seh_active = False\<rparr>"

lemma two_pages_mapped:
  assumes "two_pages m" "0x400000 \<le> unat a" "unat a < 0x402000"
  shows "byte_at m a \<noteq> None"
proof -
  have "unat (page_of a) = 0x400 \<or> unat (page_of a) = 0x401" using assms(2,3) unat_page_of [of a] by simp linarith
  then have "page_of a = 0x400 \<or> page_of a = 0x401" by (simp add: word_unat_eq_iff)
  then show ?thesis using assms(1) by (auto simp: two_pages_def byte_at_def page_at_def)
qed

lemma two_pages_is_mapped:
  assumes "two_pages m" "0x400000 \<le> unat a" "unat a + unat len \<le> 0x402000"
  shows "is_mapped m a len"
  unfolding is_mapped_iff
proof (intro disjI2 conjI allI impI)
  fix k assume k: "k < unat len"
  then have "unat (a + of_nat k) = unat a + k" using assms(3) by (simp add: unat_word_ariths unat_of_nat_lt)
  then show "byte_at m (a + of_nat k) \<noteq> None" using k assms by (intro two_pages_mapped [OF assms(1)]) simp_all
qed (use assms in simp)

definition ready :: "u32 \<Rightarrow> machine \<Rightarrow> bool" where
  "ready sp s \<longleftrightarrow> two_pages (snd s) \<and> reg (fst s) ESP = sp"

lemma ready_push:
  assumes "ready sp s" "0x400004 \<le> unat sp" "unat sp \<le> 0x402000"
  shows "\<exists>t. push32 v s = (Done (), t) \<and> ready (sp - 4) t"
proof -
  have "unat (sp - 4) = unat sp - 4" using assms(2) by (simp add: unat_sub word_le_nat_alt)
  then have "fst (write_bytes (snd s) (sp - 4) (to_le 4 v)) = Inr () \<and> two_pages (snd (write_bytes (snd s) (sp - 4) (to_le 4 v)))"
    using assms by (intro two_pages_write) (simp_all add: ready_def)
  then show ?thesis using assms(1)
    by (auto simp: ready_def push32_def bind_x_def then_x_def get_x_def put_x_def mem_x_def write_u32_def split: prod.splits sum.splits)
qed

lemma ready_read:
  assumes "ready sp s" "0x400000 \<le> unat a" "unat a \<le> 0x401FFC"
  obtains v t where "mem_x (\<lambda>m. read_u32 m a) s = (Done v, t)" "fst t = fst s" "ready sp t"
    "byte_at (snd t) = byte_at (snd s)" "bytes_at (byte_at (snd s)) a 4 = Some (to_le 4 v)"
proof -
  have inv: "mem_inv (snd s)" and tp: "two_pages (snd s)" using assms(1) by (simp_all add: ready_def two_pages_def)
  have "byte_at (snd s) (a + of_nat k) \<noteq> None" if "k < 4" for k
  proof -
    have "unat (a + of_nat k) = unat a + k" using assms(3) that by (simp add: unat_word_ariths unat_of_nat_lt)
    then show ?thesis using assms that by (intro two_pages_mapped [OF tp]) simp_all
  qed
  then have "bytes_at (byte_at (snd s)) a 4 \<noteq> None" by (rule bytes_at_mapped)
  then obtain bs where bs: "bytes_at (byte_at (snd s)) a 4 = Some bs" by blast
  then have le: "bs = to_le 4 (from_le bs :: u32)" using to_from_le [of bs 4, where 'a = 32] bytes_at_length [OF bs] by simp
  then have r: "fst (read_u32 (snd s) a) = Inr (from_le bs)" using bs by (simp add: read_u32_bytes [OF inv])
  obtain m' where m': "read_u32 (snd s) a = (Inr (from_le bs), m')" using r by (metis prod.collapse)
  have same: "same_mem (snd s) m'" using read_into_spec [OF inv, of "replicate 4 0" a] m' by (auto simp: read_u32_def split: prod.splits sum.splits)
  have "mem_inv m'" using read_u32_inv [OF inv, of a] m' by simp
  then have "ready sp (fst s, m')" using assms(1) same by (simp add: ready_def two_pages_def same_mem_def)
  then show ?thesis using that [of "from_le bs" "(fst s, m')"] m' same_mem_byte_at [OF same] bs le by (simp add: mem_x_def)
qed

lemma ready_enter:
  assumes "ready 0x4014E4 s" "seh_frame h = 0x400010"
  shows "\<exists>t. enter_handler h s = (Done (), t)"
proof -
  have fit: "add_x 0x400010 4 s = (Done 0x400014, s)" by (simp add: add_x_fits)
  obtain v s0 where s0: "mem_x (\<lambda>m. read_u32 m 0x400014) s = (Done v, s0)" "ready 0x4014E4 s0"
    by (rule ready_read [OF assms(1), where a = "0x400014"], simp, simp) blast
  obtain s1 where s1: "push32 0 s0 = (Done (), s1)" "ready 0x4014E0 s1" using ready_push [OF s0(2)] by fastforce
  obtain s2 where s2: "push32 (seh_context h) s1 = (Done (), s2)" "ready 0x4014DC s2" using ready_push [OF s1(2)] by fastforce
  obtain s3 where s3: "push32 (seh_frame h) s2 = (Done (), s3)" "ready 0x4014D8 s3" using ready_push [OF s2(2)] by fastforce
  obtain s4 where s4: "push32 (seh_record h) s3 = (Done (), s4)" "ready 0x4014D4 s4" using ready_push [OF s3(2)] by fastforce
  obtain s5 where s5: "push32 (seh_return h) s4 = (Done (), s5)" using ready_push [OF s4(2)] by fastforce
  show ?thesis unfolding enter_handler_def
    using fit s0 s1 s2 s3 s4 s5 assms(2) by (simp add: bind_x_def then_x_def put_x_def split: prod.splits)
qed

lemma ready_seh: "ready 0x401800 (seh_cpu, seh_mem)" and seh_mem_head: "bytes_at (byte_at seh_mem) 0x400000 4 = Some (to_le 4 (0x400010 :: u32))"
proof -
  let ?m = "snd (map_mem (mem_new 16) 0x400000 0x2000)"
  have inv: "mem_inv ?m" by (intro map_mem_inv mem_new_inv)
  then have "two_pages ?m" by (simp add: demo_map two_pages_def)
  then have w: "fst (write_bytes ?m 0x400000 (to_le 4 (0x400010 :: u32))) = Inr () \<and> two_pages seh_mem"
    unfolding seh_mem_def write_u32_def by (intro two_pages_write) simp_all
  then show "ready 0x401800 (seh_cpu, seh_mem)" by (simp add: ready_def seh_cpu_def)
  have "byte_at seh_mem = put_bytes (byte_at ?m) 0x400000 (to_le 4 (0x400010 :: u32))"
    using write_bytes_view [OF inv] w unfolding seh_mem_def write_u32_def by (metis prod.collapse)
  then show "bytes_at (byte_at seh_mem) 0x400000 4 = Some (to_le 4 (0x400010 :: u32))"
    using bytes_at_put_bytes [of "to_le 4 (0x400010 :: u32)" "byte_at ?m" "0x400000"] by simp
qed

lemma seh_demo: "\<exists>h1 s1. seh_raise STATUS_ACCESS_VIOLATION 0x400100 seh_none (seh_cpu, seh_mem) = (Done True, h1, s1)"
proof -
  let ?code = STATUS_ACCESS_VIOLATION
  obtain v s0 where s0: "mem_x (\<lambda>m. read_u32 m 0x400000) (seh_cpu, seh_mem) = (Done v, s0)" "fst s0 = seh_cpu" "ready 0x401800 s0"
      "byte_at (snd s0) = byte_at seh_mem" "bytes_at (byte_at seh_mem) 0x400000 4 = Some (to_le 4 v)"
    by (rule ready_read [OF ready_seh, where a = "0x400000", unfolded fst_conv snd_conv]) simp_all
  have "v = from_le (to_le 4 (0x400010 :: u32))" using s0(5) from_to_le [where n = 4 and w = v] by (simp add: seh_mem_head)
  then have v: "v = 0x400010" using from_to_le [where n = 4 and w = "0x400010 :: u32"] by simp
  have tp: "two_pages (snd s0)" using s0(3) by (simp add: ready_def)
  have chain: "\<not> chain_end v (snd s0)" using two_pages_is_mapped [OF tp, of "0x400010" 8] by (simp add: chain_end_def v)
  have room: "is_mapped (snd s0) 0x4014E4 0x31C" by (rule two_pages_is_mapped [OF tp]) simp_all
  have w1: "fst (write_bytes (snd s0) 0x4014E4 (exc_record ?code 0x400100)) = Inr () \<and> two_pages (snd (write_bytes (snd s0) 0x4014E4 (exc_record ?code 0x400100)))"
    by (rule two_pages_write [OF tp]) (simp_all add: exc_record_def put_field_u32 EXC_RECORD_SIZE_def)
  then obtain m1 where m1: "write_bytes (snd s0) 0x4014E4 (exc_record ?code 0x400100) = (Inr (), m1)" "two_pages m1" by (metis prod.collapse)
  have w2: "fst (write_bytes m1 0x401534 (context_bytes seh_cpu 0x400100)) = Inr () \<and> two_pages (snd (write_bytes m1 0x401534 (context_bytes seh_cpu 0x400100)))"
    by (rule two_pages_write [OF m1(2)]) simp_all
  then obtain m2 where m2: "write_bytes m1 0x401534 (context_bytes seh_cpu 0x400100) = (Inr (), m2)" "two_pages m2" by (metis prod.collapse)
  let ?h = "seh_none\<lparr>seh_frame := v, seh_context := 0x401534, seh_record := 0x4014E4, seh_active := True\<rparr>"
  obtain t where t: "enter_handler ?h (set_reg ESP 0x4014E4 seh_cpu, m2) = (Done (), t)"
    using ready_enter [of "(set_reg ESP 0x4014E4 seh_cpu, m2)" ?h] m2(2) v by (auto simp: ready_def)
  have recs: "then_x (mem_x (\<lambda>m. write_bytes m 0x4014E4 (exc_record ?code 0x400100))) (write_context 0x401534 0x400100) s0 = (Done (), seh_cpu, m2)"
    using s0(2) m1(1) m2(1) by (cases s0) (simp add: then_x_def bind_x_def mem_x_def write_context_def get_x_def)
  have fs: "fs_base seh_cpu = 0x400000" "reg seh_cpu ESP = 0x401800" by (simp_all add: seh_cpu_def set_reg_def reg_def)
  show ?thesis unfolding seh_raise_def fst_conv
    using s0(1,2) fs chain room recs t
    by (simp add: CONTEXT_SIZE_def EXC_RECORD_SIZE_def then_x_def bind_x_def put_x_def ret_x_def Let_def)
qed

theorem seh_resume_witness:
  "\<exists>h1 s1 c3 m3. seh_raise STATUS_ACCESS_VIOLATION 0x400100 seh_none (seh_cpu, seh_mem) = (Done True, h1, s1) \<and>
     handler_returned h1 (set_reg EAX 0 (fst s1), snd s1) = (Done Resumed, h1\<lparr>seh_active := False\<rparr>, c3, m3) \<and>
     reg c3 ESP = 0x401800 \<and> eip c3 = 0x400100 \<and> byte_at m3 = byte_at (snd s1)"
proof -
  obtain h1 s1 where r: "seh_raise STATUS_ACCESS_VIOLATION 0x400100 seh_none (seh_cpu, seh_mem) = (Done True, h1, s1)"
    using seh_demo by blast
  have inv: "mem_inv seh_mem" using ready_seh by (simp add: ready_def two_pages_def)
  have inv1: "mem_inv (snd s1)" using seh_raise_context [OF inv r] by (simp add: context_at_def)
  have "reg (set_reg EAX 0 (fst s1)) EAX = 0" "reg seh_cpu ESP = 0x401800" by (simp_all add: seh_cpu_def)
  then show ?thesis using seh_resume [OF inv r inv1 _ refl, of "set_reg EAX 0 (fst s1)"] r by fastforce
qed

end
