(* ===== verification/Emu_Run.thy ===== *)
theory Emu_Run
  imports Emu_Seh_Props
begin

text \<open>
  The driver that runs a packer stub and captures the image it rebuilds
  (\<^verbatim>\<open>crates/exav-pe-emu/src/run.rs\<close>), with the parts of the Windows environment
  (\<^verbatim>\<open>crates/exav-pe-emu/src/win.rs\<close>) it calls directly: allocation, static TLS, stack growth and the sentinel
  return addresses. Servicing an export, building the environment and binding imports are
  parameters. The log lines of \<^verbatim>\<open>limits.trace\<close> are left out, and a stop reason is a constructor
  instead of its text.

  One turn of the driver's loop is a sequence of stages. Each either falls through to the next, starts
  the next turn, ends the run, or aborts in a panic (an overflow of checked arithmetic).
\<close>

section \<open>The environment\<close>

definition STACK_GUARD_FLOOR :: u32 where "STACK_GUARD_FLOOR = 0x10000"
definition STACK_BASE :: u32 where "STACK_BASE = 0x100000"
definition STACK_SIZE :: u32 where "STACK_SIZE = 0x100000"
definition STACK_TOP :: u32 where "STACK_TOP = STACK_BASE + STACK_SIZE"
definition INITIAL_ESP :: u32 where "INITIAL_ESP = STACK_TOP - 0x4000"
definition TEB_BASE :: u32 where "TEB_BASE = 0x7FFDE000"
definition PEB_BASE :: u32 where "PEB_BASE = 0x7FFDF000"
definition HEAP_LIMIT :: u32 where "HEAP_LIMIT = 0x60000000"
definition RETURN_OFFSET :: u32 where "RETURN_OFFSET = 0x3F000"

text \<open>The fields the driver's own operations use; the rest of \<^verbatim>\<open>Env\<close> is the record's extension.\<close>

record win_env =
  modules :: "(string \<times> u32) list"
  trap_addrs :: "u32 set"
  heap_next :: u32
  allocations :: "(u32 \<times> u32) list"
  bulk_bytes :: u64

datatype api_effect = Continue | Exit | Unimplemented

definition is_trap :: "'e win_env_scheme \<Rightarrow> u32 \<Rightarrow> bool" where
  "is_trap env a \<longleftrightarrow> a \<in> trap_addrs env"

definition kernel32_base :: "'e win_env_scheme \<Rightarrow> u32" where
  "kernel32_base env = (case map_of (modules env) ''kernel32.dll'' of Some b \<Rightarrow> b | None \<Rightarrow> 0x7C800000)"

definition process_return :: "'e win_env_scheme \<Rightarrow> u32 option" where
  "process_return env = add_chk (kernel32_base env) RETURN_OFFSET"

definition seh_return_of :: "'e win_env_scheme \<Rightarrow> u32 option" where
  "seh_return_of env = (case process_return env of None \<Rightarrow> None | Some a \<Rightarrow> add_chk a 0x10)"

definition tls_return_of :: "'e win_env_scheme \<Rightarrow> u32 option" where
  "tls_return_of env = (case process_return env of None \<Rightarrow> None | Some a \<Rightarrow> add_chk a 0x20)"

text \<open>The guards keep every sum below \<open>2 ^ 32\<close>.\<close>

definition alloc :: "u32 \<Rightarrow> u32 \<Rightarrow> 'e win_env_scheme \<Rightarrow> mem \<Rightarrow> u32 \<times> 'e win_env_scheme \<times> mem" where
  "alloc addr len env m =
     (if len = 0 \<or> 0x20000000 < len then (0, env, m)
      else
        (let rounded = (len + 0xFFF) AND NOT 0xFFF in
         if addr = 0 \<and> HEAP_LIMIT \<le> saturating_add (heap_next env) rounded then (0, env, m)
         else
           (let base = (if addr \<noteq> 0 then addr AND NOT 0xFFF else heap_next env);
                env = (if addr \<noteq> 0 then env else env\<lparr>heap_next := heap_next env + rounded + 0x1000\<rparr>) in
            case map_mem m base rounded of
              (Inl _, m) \<Rightarrow> (0, env, m)
            | (Inr _, m) \<Rightarrow> (base, env\<lparr>allocations := allocations env @ [(base, rounded)]\<rparr>, m))))"

definition take_bulk_bytes :: "'e win_env_scheme \<Rightarrow> u64 \<times> 'e win_env_scheme" where
  "take_bulk_bytes env = (bulk_bytes env, env\<lparr>bulk_bytes := 0\<rparr>)"

definition grow_stack :: "mem \<Rightarrow> u32 \<Rightarrow> bool \<times> mem" where
  "grow_stack m a =
     (if \<not> (STACK_GUARD_FLOOR \<le> a \<and> a < STACK_BASE) then (False, m)
      else case map_mem m (a AND NOT 0xFFF) (of_nat PAGE_SIZE) of
        (Inl _, m) \<Rightarrow> (False, m)
      | (Inr _, m) \<Rightarrow> (True, m))"

text \<open>
  The stores of \<^verbatim>\<open>install_static_tls\<close>, whose only caller passes the index 0. \<open>None\<close> is an error or a
  failed allocation, which the caller treats alike.
\<close>

definition write_all :: "(u32 \<times> bytes) list \<Rightarrow> mem \<Rightarrow> bool \<times> mem" where
  "write_all ws m = fold (\<lambda>(a, bs) (ok, m). if \<not> ok then (ok, m) else case write_bytes m a bs of (Inl _, m) \<Rightarrow> (False, m) | (Inr _, m) \<Rightarrow> (True, m)) ws (True, m)"

definition install_static_tls :: "bytes \<Rightarrow> u32 \<Rightarrow> 'e win_env_scheme \<Rightarrow> mem \<Rightarrow> u32 option \<times> 'e win_env_scheme \<times> mem" where
  "install_static_tls template index_va env m =
     (case alloc 0 (max (of_nat (length template)) 1) env m of (block, env, m) \<Rightarrow>
      if block = 0 then (None, env, m)
      else
        (case write_bytes m block template of
           (Inl _, m) \<Rightarrow> (None, env, m)
         | (Inr _, m) \<Rightarrow>
             (case alloc 0 4 env m of (arr, env, m) \<Rightarrow>
              if arr = 0 then (None, env, m)
              else
                (case write_all ([(arr, to_le 4 block), (TEB_BASE + 0x2C, to_le 4 arr)] @ (if index_va \<noteq> 0 then [(index_va, to_le 4 (0 :: u32))] else [])) m of
                   (ok, m) \<Rightarrow> (if ok then Some block else None, env, m)))))"

section \<open>Starting the program\<close>

definition DLL_PROCESS_ATTACH :: u32 where "DLL_PROCESS_ATTACH = 1"
definition MAX_TLS_BLOCK :: u32 where "MAX_TLS_BLOCK = 0x100000"

definition image_end :: "pe_image \<Rightarrow> u32" where
  "image_end im = saturating_add (im_base im) (size_of_image im)"

definition in_image :: "pe_image \<Rightarrow> u32 \<Rightarrow> bool" where
  "in_image im va \<longleftrightarrow> im_base im \<le> va \<and> va < image_end im"

definition start_entry :: "pe_image \<Rightarrow> u32 \<Rightarrow> unit exec" where
  "start_entry im ret =
     then_x (put_x (\<lambda>c. set_reg EBX PEB_BASE (set_reg ESP INITIAL_ESP (c\<lparr>eip := im_base im + entry_rva im\<rparr>))))
       (if is_dll im then
          then_x (push32 0) (then_x (push32 DLL_PROCESS_ATTACH) (then_x (push32 (im_base im)) (push32 ret)))
        else push32 ret)"

definition enter_tls_callback :: "u32 \<Rightarrow> u32 \<Rightarrow> u32 \<Rightarrow> unit exec" where
  "enter_tls_callback callback image_base ret =
     then_x (put_x (set_reg ESP INITIAL_ESP))
    (then_x (push32 0)
    (then_x (push32 DLL_PROCESS_ATTACH)
    (then_x (push32 image_base)
    (then_x (push32 ret)
            (put_x (\<lambda>c. c\<lparr>eip := callback\<rparr>))))))"

text \<open>
  Reading the words of the directory. The code adds the offsets with a check; they are only read
  where the whole directory is mapped, and a range that is mapped does not reach past the end of
  the address space, so the sums here do not wrap.
\<close>

lemma mapped_no_wrap: "is_mapped m a len \<Longrightarrow> len \<noteq> 0 \<Longrightarrow> unat a + unat (len - 1) < 2 ^ 32"
  by (auto simp: is_mapped_def add_chk_def split: option.splits if_splits)

fun read_words :: "nat \<Rightarrow> u32 \<Rightarrow> mem \<Rightarrow> u32 list option \<times> mem" where
  "read_words 0 a m = (Some [], m)"
| "read_words (Suc n) a m =
     (case read_u32 m a of
        (Inl _, m) \<Rightarrow> (None, m)
      | (Inr v, m) \<Rightarrow> (case read_words n (a + 4) m of (vs, m) \<Rightarrow> (map_option ((#) v) vs, m)))"

definition tls_template :: "pe_image \<Rightarrow> u32 \<Rightarrow> u32 \<Rightarrow> mem \<Rightarrow> bytes \<times> mem" where
  "tls_template im lo hi m =
     (if lo < hi \<and> in_image im lo \<and> in_image im hi \<and> is_mapped m lo (min (hi - lo) MAX_TLS_BLOCK)
      then snapshot m lo (unat (min (hi - lo) MAX_TLS_BLOCK)) else ([], m))"

definition resize :: "nat \<Rightarrow> bytes \<Rightarrow> bytes" where
  "resize n bs = take n bs @ replicate (n - length bs) 0"

definition setup_tls :: "pe_image \<Rightarrow> 'e win_env_scheme \<Rightarrow> mem \<Rightarrow> u32 option \<times> 'e win_env_scheme \<times> mem" where
  "setup_tls im env m =
     (let td = im_base im + fst (tls_dir im) in
      if fst (tls_dir im) = 0 \<or> snd (tls_dir im) < 0x18 \<or> \<not> in_image im td \<or> \<not> is_mapped m td 0x18 then (None, env, m)
      else
        (case read_words 5 td m of
           (Some [lo, hi, index_va, cb_array, zero_fill], m) \<Rightarrow>
             (case tls_template im lo hi m of (template, m) \<Rightarrow>
              let total = min (saturating_add (of_nat (length template)) zero_fill) MAX_TLS_BLOCK;
                  index_va = (if index_va \<noteq> 0 \<and> in_image im index_va \<and> is_mapped m index_va 4 then index_va else 0) in
              case install_static_tls (resize (unat total) template) index_va env m of
                (None, env, m) \<Rightarrow> (None, env, m)
              | (Some _, env, m) \<Rightarrow>
                  (if cb_array \<noteq> 0 \<and> in_image im cb_array \<and> is_mapped m cb_array 4 then Some cb_array else None, env, m))
         | (_, m) \<Rightarrow> (None, env, m)))"

definition next_tls_callback :: "pe_image \<Rightarrow> u32 \<Rightarrow> u32 \<Rightarrow> mem \<Rightarrow> u32 option \<times> mem" where
  "next_tls_callback im cb_array idx m =
     (let at = cb_array + idx * 4 in
      if \<not> is_mapped m at 4 then (None, m)
      else case read_u32 m at of
        (Inl _, m) \<Rightarrow> (None, m)
      | (Inr cb, m) \<Rightarrow> (if cb \<noteq> 0 \<and> in_image im cb then Some cb else None, m))"

section \<open>Measuring what was rebuilt\<close>

definition RECHECK_INTERVAL :: u64 where "RECHECK_INTERVAL = 100000"
definition MAX_PAGES_SCANNED :: u32 where "MAX_PAGES_SCANNED = 0x10000"

definition section_pages :: "pe_image \<Rightarrow> pe_section \<Rightarrow> nat" where
  "section_pages im s = unat (min (max (max (section_len s) (section_align im) div of_nat PAGE_SIZE) 1) MAX_PAGES_SCANNED)"

definition dirty_section_pages :: "pe_image \<Rightarrow> pe_section \<Rightarrow> mem \<Rightarrow> nat" where
  "dirty_section_pages im s m =
     length (filter (\<lambda>p. is_dirty m (im_base im + vaddr s + of_nat (p * PAGE_SIZE))) [0..<section_pages im s])"

text \<open>\<open>None\<close> is a panic: an index out of range or an overflow of the deadline.\<close>

definition rebuilt :: "pe_image \<Rightarrow> nat option \<Rightarrow> mem \<Rightarrow> u64 list \<Rightarrow> u64 \<Rightarrow> (bool \<times> u64 list) option" where
  "rebuilt im sec m recheck ticks =
     (case sec of
        None \<Rightarrow> Some (False, recheck)
      | Some idx \<Rightarrow>
          (let k = min idx (length recheck - 1) in
           if length recheck \<le> k \<or> length (im_sections im) \<le> idx then None
           else if recheck ! k \<noteq> 0 \<and> ticks < recheck ! k then Some (False, recheck)
           else
             (case add_chk ticks RECHECK_INTERVAL of
                None \<Rightarrow> None
              | Some d \<Rightarrow>
                  (let s = im_sections im ! idx in
                   Some (section_pages im s \<le> dirty_section_pages im s m * 4, recheck[k := d])))))"

section \<open>The loop\<close>

record emu_limits =
  max_ticks :: u64
  limit_pages :: nat
  max_dump :: nat
  min_unpack_dirty :: nat
  min_partial_dirty :: nat

definition PROGRESS_WINDOW :: u64 where "PROGRESS_WINDOW = 8000000"
definition MIN_WRITE_SPREAD :: nat where "MIN_WRITE_SPREAD = 6"
definition MAX_UNIMPLEMENTED_CALLS :: u32 where "MAX_UNIMPLEMENTED_CALLS = 64"
definition MAX_TLS_CALLBACKS :: u32 where "MAX_TLS_CALLBACKS = 64"
definition TLS_CALLBACK_BUDGET_DIVISOR :: u64 where "TLS_CALLBACK_BUDGET_DIVISOR = 8"

datatype stop_reason =
    BudgetExhausted
  | NoProgress
  | StackNotMapped
  | ReturnedToLoader
  | NoHandlerAccepted
  | UnreadableContext
  | ExitProcess
  | TooManyUnimplemented
  | ApiNoWayBack
  | TooManyApiFaults
  | ApiStopped stop
  | ReachedEntry u32
  | SingleStepUnhandled
  | Unhandled stop
  | MemoryExhausted
  | NotPe
  | ImageTooBig
  | EnvTooBig
  | DumpTooBig stop_reason

text \<open>What stays fixed during a run, the parameters included.\<close>

record 'e run_ctx =
  rc_image :: pe_image
  rc_limits :: emu_limits
  rc_process_return :: u32
  rc_seh_return :: u32
  rc_tls_return :: u32
  rc_tls_array :: "u32 option"
  rc_dec :: decoder
  rc_float :: float_ops
  rc_call :: "'e win_env_scheme \<Rightarrow> machine \<Rightarrow> api_effect outcome \<times> 'e win_env_scheme \<times> machine"

record 'e run_state =
  rs_cpu :: cpu
  rs_mem :: mem
  rs_env :: "'e win_env_scheme"
  rs_seh :: seh_state
  rs_ticks :: u64
  unimplemented_calls :: u32
  faulted_api_calls :: u32
  progress_deadline :: u64
  rs_recheck :: "u64 list"
  in_tls :: bool
  tls_next :: u32
  tls_calls :: u32
  tls_deadline :: u64

datatype 'e flow = Fall "'e run_state" | Again "'e run_state" | Over stop_reason "u32 option" "'e run_state" | Abort

definition machine_of :: "'e run_state \<Rightarrow> machine" where
  "machine_of st = (rs_cpu st, rs_mem st)"

definition set_machine :: "machine \<Rightarrow> 'e run_state \<Rightarrow> 'e run_state" where
  "set_machine s st = st\<lparr>rs_cpu := fst s, rs_mem := snd s\<rparr>"

definition stub_section :: "'e run_ctx \<Rightarrow> nat option" where
  "stub_section X = section_of (rc_image X) (entry_rva (rc_image X))"

definition tls_callback_budget :: "'e run_ctx \<Rightarrow> u64" where
  "tls_callback_budget X = max_ticks (rc_limits X) div TLS_CALLBACK_BUDGET_DIVISOR"

text \<open>Charging the budget, and running an execution whose only error is an unmapped stack.\<close>

definition charge_ticks :: "u64 \<Rightarrow> 'e run_state \<Rightarrow> ('e run_state \<Rightarrow> 'e flow) \<Rightarrow> 'e flow" where
  "charge_ticks n st k = (case add_chk (rs_ticks st) n of None \<Rightarrow> Abort | Some t \<Rightarrow> k (st\<lparr>rs_ticks := t\<rparr>))"

definition enter :: "unit exec \<Rightarrow> 'e run_state \<Rightarrow> 'e flow" where
  "enter p st =
     (case p (machine_of st) of
        (Done _, s) \<Rightarrow> Again (set_machine s st)
      | (Stopped _, s) \<Rightarrow> Over StackNotMapped None (set_machine s st)
      | (Panicked, _) \<Rightarrow> Abort)"

definition check_budget :: "'e run_ctx \<Rightarrow> 'e run_state \<Rightarrow> 'e flow" where
  "check_budget X st = (if max_ticks (rc_limits X) \<le> rs_ticks st then Over BudgetExhausted None st else Fall st)"

definition check_progress :: "'e run_ctx \<Rightarrow> 'e run_state \<Rightarrow> 'e flow" where
  "check_progress X st =
     (if rs_ticks st < progress_deadline st then Fall st
      else
        (case take_write_spread (rs_mem st) of (n, m) \<Rightarrow>
         let st = st\<lparr>rs_mem := m\<rparr> in
         if n < MIN_WRITE_SPREAD then Over NoProgress None st
         else case add_chk (rs_ticks st) PROGRESS_WINDOW of
           None \<Rightarrow> Abort
         | Some d \<Rightarrow> Fall (st\<lparr>progress_deadline := d\<rparr>)))"

definition check_tls_slice :: "'e run_ctx \<Rightarrow> 'e run_state \<Rightarrow> 'e flow" where
  "check_tls_slice X st =
     (if in_tls st \<and> tls_deadline st \<le> rs_ticks st
      then enter (start_entry (rc_image X) (rc_process_return X)) (st\<lparr>in_tls := False\<rparr>)
      else Fall st)"

definition following_callback :: "'e run_ctx \<Rightarrow> 'e run_state \<Rightarrow> u32 option \<times> mem" where
  "following_callback X st =
     (if tls_calls st < MAX_TLS_CALLBACKS then
        (case rc_tls_array X of
           None \<Rightarrow> (None, rs_mem st)
         | Some a \<Rightarrow> next_tls_callback (rc_image X) a (tls_next st) (rs_mem st))
      else (None, rs_mem st))"

text \<open>A callback returned: the next one, or the entry point.\<close>

definition callback_returned :: "'e run_ctx \<Rightarrow> 'e run_state \<Rightarrow> 'e flow" where
  "callback_returned X st =
     (case following_callback X st of
        (Some cb, m) \<Rightarrow>
          (case (add_chk (tls_next st) 1, add_chk (tls_calls st) 1, add_chk (rs_ticks st) (tls_callback_budget X)) of
             (Some n, Some c, Some d) \<Rightarrow>
               enter (enter_tls_callback cb (im_base (rc_image X)) (rc_tls_return X))
                 (st\<lparr>rs_mem := m, tls_next := n, tls_calls := c, tls_deadline := d\<rparr>)
           | _ \<Rightarrow> Abort)
      | (None, m) \<Rightarrow> enter (start_entry (rc_image X) (rc_process_return X)) (st\<lparr>rs_mem := m, in_tls := False\<rparr>))"

definition check_tls_return :: "'e run_ctx \<Rightarrow> 'e run_state \<Rightarrow> 'e flow" where
  "check_tls_return X st =
     (if in_tls st \<and> eip (rs_cpu st) = rc_tls_return X then charge_ticks 1 st (callback_returned X) else Fall st)"

definition check_process_return :: "'e run_ctx \<Rightarrow> 'e run_state \<Rightarrow> 'e flow" where
  "check_process_return X st =
     (if eip (rs_cpu st) = rc_process_return X then Over ReturnedToLoader None st else Fall st)"

definition handler_back :: "'e run_state \<Rightarrow> 'e flow" where
  "handler_back st =
     (case handler_returned (rs_seh st) (machine_of st) of
        (Panicked, _) \<Rightarrow> Abort
      | (Stopped _, h, s) \<Rightarrow> Over UnreadableContext None (set_machine s (st\<lparr>rs_seh := h\<rparr>))
      | (Done Resumed, h, s) \<Rightarrow> Again (set_machine s (st\<lparr>rs_seh := h\<rparr>))
      | (Done TryNext, h, s) \<Rightarrow>
          (case dispatch_next h s of
             (Panicked, _) \<Rightarrow> Abort
           | (Done True, h, s) \<Rightarrow> Again (set_machine s (st\<lparr>rs_seh := h\<rparr>))
           | (_, h, s) \<Rightarrow> Over NoHandlerAccepted None (set_machine s (st\<lparr>rs_seh := h\<rparr>))))"

definition check_seh_return :: "'e run_ctx \<Rightarrow> 'e run_state \<Rightarrow> 'e flow" where
  "check_seh_return X st = (if eip (rs_cpu st) = rc_seh_return X then charge_ticks 1 st handler_back else Fall st)"

text \<open>An export that faulted: return failure to the caller, when the caller can be found.\<close>

definition api_faulted :: "u32 \<Rightarrow> 'e run_state \<Rightarrow> 'e flow" where
  "api_faulted call_esp st =
     (case read_u32 (rs_mem st) call_esp of (r, m) \<Rightarrow>
      let ret = (case r of Inl _ \<Rightarrow> 0 | Inr v \<Rightarrow> v); st = st\<lparr>rs_mem := m\<rparr> in
      if ret = 0 \<or> \<not> is_mapped m ret 1 then Over ApiNoWayBack None st
      else charge_ticks 1 (st\<lparr>rs_cpu := (set_reg ESP (call_esp + 4) (set_reg EAX 0 (rs_cpu st)))\<lparr>eip := ret\<rparr>\<rparr>) (\<lambda>st.
        case add_chk (faulted_api_calls st) 1 of
          None \<Rightarrow> Abort
        | Some n \<Rightarrow>
            (let st = st\<lparr>faulted_api_calls := n\<rparr> in
             if MAX_UNIMPLEMENTED_CALLS < n then Over TooManyApiFaults None st else Again st)))"

definition service_trap :: "'e run_ctx \<Rightarrow> 'e run_state \<Rightarrow> 'e flow" where
  "service_trap X st =
     (if \<not> is_trap (rs_env st) (eip (rs_cpu st)) then Fall st
      else
        (let call_esp = reg (rs_cpu st) ESP in
         case rc_call X (rs_env st) (machine_of st) of (r, env, s) \<Rightarrow>
         let st = set_machine s (st\<lparr>rs_env := env\<rparr>) in
         case r of
           Panicked \<Rightarrow> Abort
         | Done Continue \<Rightarrow>
             (case take_bulk_bytes env of (n, env) \<Rightarrow>
              case add_chk 1 (n div of_nat PAGE_SIZE) of
                None \<Rightarrow> Abort
              | Some k \<Rightarrow> charge_ticks k (st\<lparr>rs_env := env\<rparr>) Again)
         | Done Exit \<Rightarrow> Over ExitProcess None st
         | Done Unimplemented \<Rightarrow> charge_ticks 1 st (\<lambda>st.
             case add_chk (unimplemented_calls st) 1 of
               None \<Rightarrow> Abort
             | Some n \<Rightarrow>
                 (let st = st\<lparr>unimplemented_calls := n\<rparr> in
                  if MAX_UNIMPLEMENTED_CALLS < n then Over TooManyUnimplemented None st else Again st))
         | Stopped (Fault _) \<Rightarrow> api_faulted call_esp st
         | Stopped e \<Rightarrow> Over (ApiStopped e) None st))"

definition tail_transfer :: "'e run_ctx \<Rightarrow> 'e run_state \<Rightarrow> 'e flow" where
  "tail_transfer X st =
     (let im = rc_image X; ip = eip (rs_cpu st); m = rs_mem st in
      if min_unpack_dirty (rc_limits X) \<le> watched_dirty_bytes m \<and> in_image im ip \<and> is_dirty m ip then
        (let rva = ip - im_base im; sec = section_of im rva in
         if sec = stub_section X then Fall st
         else case rebuilt im sec m (rs_recheck st) (rs_ticks st) of
           None \<Rightarrow> Abort
         | Some (True, rc) \<Rightarrow> Over (ReachedEntry rva) (Some rva) (st\<lparr>rs_recheck := rc\<rparr>)
         | Some (False, rc) \<Rightarrow> Fall (st\<lparr>rs_recheck := rc\<rparr>))
      else Fall st)"

text \<open>Raising in the program: the next turn when a handler was entered, else the end with the reason given.\<close>

definition raise_or :: "stop_reason \<Rightarrow> u32 \<Rightarrow> u32 \<Rightarrow> 'e run_state \<Rightarrow> 'e flow" where
  "raise_or reason code at st =
     (case seh_raise code at (rs_seh st) (machine_of st) of
        (Panicked, _) \<Rightarrow> Abort
      | (Done True, h, s) \<Rightarrow> Again (set_machine s (st\<lparr>rs_seh := h\<rparr>))
      | (_, h, s) \<Rightarrow> Over reason None (set_machine s (st\<lparr>rs_seh := h\<rparr>)))"

text \<open>A stop is charged one tick and what a string instruction did before it.\<close>

definition charge_partial :: "'e run_state \<Rightarrow> ('e run_state \<Rightarrow> 'e flow) \<Rightarrow> 'e flow" where
  "charge_partial st k =
     (case take_partial_ticks (rs_cpu st) of (n, c) \<Rightarrow>
      case add_chk 1 n of None \<Rightarrow> Abort | Some n \<Rightarrow> charge_ticks n (st\<lparr>rs_cpu := c\<rparr>) k)"

definition stopped :: "stop \<Rightarrow> u32 \<Rightarrow> 'e run_state \<Rightarrow> 'e flow" where
  "stopped e at st = charge_partial st (\<lambda>st.
     case exception_code e of None \<Rightarrow> Over (Unhandled e) None st | Some code \<Rightarrow> raise_or (Unhandled e) code at st)"

definition exec_one :: "'e run_ctx \<Rightarrow> 'e run_state \<Rightarrow> 'e flow" where
  "exec_one X st =
     (let at = eip (rs_cpu st); stepping = tf (rs_cpu st) in
      case step (rc_dec X) (rc_float X) (machine_of st) of
        (Panicked, _) \<Rightarrow> Abort
      | (Done t, s) \<Rightarrow> charge_ticks t (set_machine s st) (\<lambda>st.
          if stepping \<and> tf (rs_cpu st)
          then raise_or SingleStepUnhandled STATUS_SINGLE_STEP at (st\<lparr>rs_cpu := (rs_cpu st)\<lparr>tf := False\<rparr>\<rparr>)
          else Fall st)
      | (Stopped (Fault f), s) \<Rightarrow>
          (case grow_stack (snd s) (f_addr f) of (grown, m) \<Rightarrow>
           let st = set_machine (fst s, m) st in
           if grown then charge_partial st Again else stopped (Fault f) at st)
      | (Stopped e, s) \<Rightarrow> stopped e at (set_machine s st))"

definition check_capacity :: "'e run_state \<Rightarrow> 'e flow" where
  "check_capacity st = (if at_capacity (rs_mem st) then Over MemoryExhausted None st else Again st)"

definition on_fall :: "('e run_state \<Rightarrow> 'e flow) \<Rightarrow> ('e run_state \<Rightarrow> 'e flow) \<Rightarrow> 'e run_state \<Rightarrow> 'e flow" where
  "on_fall p q st = (case p st of Fall st \<Rightarrow> q st | r \<Rightarrow> r)"

definition run_turn :: "'e run_ctx \<Rightarrow> 'e run_state \<Rightarrow> 'e flow" where
  "run_turn X =
     on_fall (check_budget X) (on_fall (check_progress X) (on_fall (check_tls_slice X) (on_fall (check_tls_return X)
       (on_fall (check_process_return X) (on_fall (check_seh_return X) (on_fall (service_trap X)
         (on_fall (tail_transfer X) (on_fall (exec_one X) check_capacity))))))))"

text \<open>The loop; \<open>None\<close> is running out of turns.\<close>

fun run_loop :: "nat \<Rightarrow> 'e run_ctx \<Rightarrow> 'e run_state \<Rightarrow> 'e flow option" where
  "run_loop 0 X st = None"
| "run_loop (Suc n) X st =
     (case run_turn X st of
        Fall st \<Rightarrow> run_loop n X st
      | Again st \<Rightarrow> run_loop n X st
      | r \<Rightarrow> Some r)"

section \<open>The run and its report\<close>

record unpacked_image =
  un_data :: bytes
  oep_rva :: u32
  reached_oep :: bool

record emu_report =
  rp_unpacked :: "unpacked_image option"
  rp_stop :: stop_reason
  rp_ticks :: u64
  dirty_bytes :: nat
  extra :: "bytes list"
  rp_fpu :: bool

definition no_report :: "stop_reason \<Rightarrow> emu_report" where
  "no_report r = \<lparr>rp_unpacked = None, rp_stop = r, rp_ticks = 0, dirty_bytes = 0, extra = [], rp_fpu = False\<rparr>"

definition image_dirty_bytes :: "pe_image \<Rightarrow> mem \<Rightarrow> nat" where
  "image_dirty_bytes im m =
     PAGE_SIZE * length (filter (\<lambda>i. is_dirty m (of_nat (unat (im_base im) + i * PAGE_SIZE)))
       [0..<(unat (image_end im) - unat (im_base im)) div PAGE_SIZE])"

definition same_prefix :: "bytes \<Rightarrow> bytes \<Rightarrow> bool" where
  "same_prefix body file \<longleftrightarrow>
     length file \<le> length body \<and> 0x200 \<le> length file \<and> take (min (length file) 0x1000) body = take (min (length file) 0x1000) file"

text \<open>One allocated region: its image, when it holds one that is not a copy of the input.\<close>

definition payload_at :: "nat \<Rightarrow> bytes \<Rightarrow> u32 \<times> u32 \<Rightarrow> mem \<Rightarrow> bytes option \<times> mem" where
  "payload_at cap file r m =
     (case r of (base, len) \<Rightarrow>
      if len < 0x200 \<or> cap < unat len then (None, m)
      else case snapshot m base 0x40 of (head, m) \<Rightarrow>
        if length head < 2 \<or> take 2 head \<noteq> MZ then (None, m)
        else case snapshot m base (unat len) of (body, m) \<Rightarrow>
          if parse_pe body = None \<or> same_prefix body file then (None, m) else (Some body, m))"

fun allocated_payloads :: "nat \<Rightarrow> bytes \<Rightarrow> (u32 \<times> u32) list \<Rightarrow> bytes list \<Rightarrow> mem \<Rightarrow> bytes list \<times> mem" where
  "allocated_payloads cap file [] out m = (out, m)"
| "allocated_payloads cap file (r # rs) out m =
     (case payload_at cap file r m of
        (None, m) \<Rightarrow> allocated_payloads cap file rs out m
      | (Some body, m) \<Rightarrow>
          (let out = out @ [body] in
           if 4 \<le> length out then (out, m) else allocated_payloads cap file rs out m))"

definition finish :: "'e run_ctx \<Rightarrow> bytes \<Rightarrow> stop_reason \<Rightarrow> u32 option \<Rightarrow> 'e run_state \<Rightarrow> emu_report" where
  "finish X file reason oep st =
     (let im = rc_image X; lim = rc_limits X; dirty = image_dirty_bytes im (rs_mem st) in
      case allocated_payloads (max_dump lim) file (allocations (rs_env st)) [] (rs_mem st) of (ex, m) \<Rightarrow>
      let rp = \<lparr>rp_unpacked = None, rp_stop = reason, rp_ticks = rs_ticks st, dirty_bytes = dirty, extra = ex,
                rp_fpu = fpu_approximated (rs_cpu st)\<rparr> in
      if dirty = 0 \<or> (oep = None \<and> dirty < min_partial_dirty lim) then rp
      else
        (let entry = (case oep of Some a \<Rightarrow> a | None \<Rightarrow> entry_rva im) in
         case fst (dump_pe im m file entry (max_dump lim)) of
           None \<Rightarrow> rp\<lparr>rp_stop := DumpTooBig reason\<rparr>
         | Some data \<Rightarrow> rp\<lparr>rp_unpacked := Some \<lparr>un_data = data, oep_rva = entry, reached_oep = (oep \<noteq> None)\<rparr>\<rparr>))"

text \<open>The parameters: building the environment, binding imports and servicing exports; the decoder and the host's floats.\<close>

record 'e emu_params =
  ep_new :: "mem \<Rightarrow> u32 \<Rightarrow> u32 \<Rightarrow> bytes \<Rightarrow> (stop + 'e win_env_scheme) \<times> mem"
  ep_bind :: "'e win_env_scheme \<Rightarrow> mem \<Rightarrow> u32 \<Rightarrow> u32 \<Rightarrow> u32 \<Rightarrow> 'e win_env_scheme \<times> mem"
  ep_call :: "'e win_env_scheme \<Rightarrow> machine \<Rightarrow> api_effect outcome \<times> 'e win_env_scheme \<times> machine"
  ep_dec :: decoder
  ep_float :: float_ops

definition first_state :: "'e run_ctx \<Rightarrow> cpu \<Rightarrow> mem \<Rightarrow> 'e win_env_scheme \<Rightarrow> bool \<Rightarrow> 'e run_state" where
  "first_state X c m env tls =
     \<lparr>rs_cpu = c, rs_mem = m, rs_env = env,
       rs_seh = \<lparr>seh_return = rc_seh_return X, seh_frame = 0, seh_context = 0, seh_record = 0, seh_active = False\<rparr>,
       rs_ticks = 0, unimplemented_calls = 0, faulted_api_calls = 0, progress_deadline = PROGRESS_WINDOW,
       rs_recheck = replicate (length (im_sections (rc_image X)) + 1) 0, in_tls = tls,
       tls_next = (if tls then 1 else 0), tls_calls = (if tls then 1 else 0), tls_deadline = tls_callback_budget X\<rparr>"

text \<open>Entering the first TLS callback, or the entry point when there is none.\<close>

definition start_run :: "'e run_ctx \<Rightarrow> 'e win_env_scheme \<Rightarrow> mem \<Rightarrow> 'e flow" where
  "start_run X env m =
     (let c = cpu_new\<lparr>fs_base := TEB_BASE\<rparr>; im = rc_image X in
      case (case rc_tls_array X of None \<Rightarrow> (None, m) | Some a \<Rightarrow> next_tls_callback im a 0 m) of
        (Some cb, m) \<Rightarrow> enter (enter_tls_callback cb (im_base im) (rc_tls_return X)) (first_state X c m env True)
      | (None, m) \<Rightarrow> enter (start_entry im (rc_process_return X)) (first_state X c m env False))"

definition turns :: "emu_limits \<Rightarrow> nat" where
  "turns lim = 2 * unat (max_ticks lim) + 2"

definition run_program :: "'e run_ctx \<Rightarrow> bytes \<Rightarrow> 'e win_env_scheme \<Rightarrow> mem \<Rightarrow> emu_report outcome option" where
  "run_program X file env m =
     (case start_run X env m of
        Over r oep st \<Rightarrow> Some (Done (no_report r))
      | Abort \<Rightarrow> Some Panicked
      | Fall st \<Rightarrow> None
      | Again st \<Rightarrow>
          (case run_loop (turns (rc_limits X)) X st of
             Some (Over r oep st) \<Rightarrow> Some (Done (finish X file r oep st))
           | Some _ \<Rightarrow> Some Panicked
           | None \<Rightarrow> None))"

definition unpack :: "'e emu_params \<Rightarrow> bytes \<Rightarrow> emu_limits \<Rightarrow> emu_report outcome option" where
  "unpack E file lim =
     (case parse_pe file of
        None \<Rightarrow> Some (Done (no_report NotPe))
      | Some im \<Rightarrow>
          (case map_into im file (mem_new (limit_pages lim)) of
             (Inl _, m) \<Rightarrow> Some (Done (no_report ImageTooBig))
           | (Inr _, m) \<Rightarrow>
               (case ep_new E m (im_base im) (size_of_image im) file of
                  (Inl _, m) \<Rightarrow> Some (Done (no_report EnvTooBig))
                | (Inr env, m) \<Rightarrow>
                    (case ep_bind E env m (im_base im) (fst (import_dir im)) (snd (import_dir im)) of (env, m) \<Rightarrow>
                     case (process_return env, seh_return_of env, tls_return_of env) of
                       (Some pr, Some sr, Some tr) \<Rightarrow>
                         (case setup_tls im env m of (arr, env, m) \<Rightarrow>
                          run_program \<lparr>rc_image = im, rc_limits = lim, rc_process_return = pr, rc_seh_return = sr,
                            rc_tls_return = tr, rc_tls_array = arr, rc_dec = ep_dec E, rc_float = ep_float E, rc_call = ep_call E\<rparr>
                            file env m)
                     | _ \<Rightarrow> Some Panicked))))"

end
