(* ===== verification/Emu_Run_Props.thy ===== *)
theory Emu_Run_Props
  imports Emu_Run
begin

text \<open>
  What the driver promises whatever the emulated program and the environment do: every turn of its loop
  advances the budget, so that the run ends; it does not panic; and what it reports as an entry point
  was rebuilt by the program.
\<close>

section \<open>The price of a step\<close>

text \<open>A completed step costs between 1 and \<open>2 ^ 32\<close> ticks, a stopped one leaves at most \<open>2 ^ 32\<close> to be charged.\<close>

definition priced :: "u64 outcome \<times> machine \<Rightarrow> bool" where
  "priced r = (case fst r of
       Done t \<Rightarrow> 1 \<le> unat t \<and> unat t \<le> 2 ^ 32
     | Stopped _ \<Rightarrow> unat (partial_ticks (fst (snd r))) \<le> 2 ^ 32
     | Panicked \<Rightarrow> True)"

lemma unat_ucast_diff:
  fixes a b :: u32
  assumes "b \<le> a"
  shows "unat (ucast a - ucast b :: u64) \<le> 2 ^ 32"
proof -
  have u: "unat (ucast x :: u64) = unat x" for x :: u32 using unat_ucast_up [of x, where 'b = 64] by simp
  have "unat (ucast b :: u64) \<le> unat (ucast a :: u64)" using assms by (simp add: u word_le_nat_alt)
  then have "unat (ucast a - ucast b :: u64) = unat a - unat b" by (simp add: unat_sub word_le_nat_alt u)
  moreover have "unat a < 2 ^ 32" using unat_bound [of a] by simp
  ultimately show ?thesis by simp
qed

lemma string_loop_priced:
  assumes "partial_ticks c = 0" "string_loop kind n delta repeat repne 0 (c, m) = (r, c', m')"
  shows "case r of Done t \<Rightarrow> unat t \<le> 2 ^ 32 | Stopped _ \<Rightarrow> unat (partial_ticks c') \<le> 2 ^ 32 | Panicked \<Rightarrow> True"
proof (cases repeat)
  case True
  have ch: "charged 0 c (r, c', m')" using rep_accounting [of 0 c kind n delta repne m] assms(2) True by simp
  then have le: "unat (ucast (reg c ECX) - ucast (reg c' ECX) :: u64) \<le> 2 ^ 32" by (intro unat_ucast_diff) (simp add: charged_def)
  show ?thesis using ch le assms(1) by (cases r) (simp_all add: charged_def Let_def saturating_add_def)
next
  case False
  obtain r1 c1 m1 where one: "string_one kind n delta (c, m) = (r1, c1, m1)" by (cases "string_one kind n delta (c, m)") auto
  have "partial_ticks c1 = 0" using exec_relD [OF string_one_count one] assms(1) by (simp add: same_count_def)
  then show ?thesis using assms(2) one False
    by (subst (asm) string_loop.simps) (auto simp: saturating_add_def split: outcome.splits)
qed

lemma string_op_priced:
  assumes "partial_ticks c = 0" "string_op i (c, m) = (r, c', m')"
  shows "case r of Done None \<Rightarrow> c' = c | Done (Some t) \<Rightarrow> 1 \<le> unat t \<and> unat t \<le> 2 ^ 32
    | Stopped _ \<Rightarrow> unat (partial_ticks c') \<le> 2 ^ 32 | Panicked \<Rightarrow> True"
proof (cases "op_count i \<noteq> 0 \<or> string_kind (i_mn i) = None")
  case True
  then show ?thesis using assms(2) by (cases "op_count i \<noteq> 0") (auto simp: string_op_def ret_x_def)
next
  case False
  then obtain kind n where k: "op_count i = 0" "string_kind (i_mn i) = Some (kind, n)" by auto
  obtain r1 c1 m1 where lp: "string_loop kind n (if df c then - of_nat n else of_nat n) (i_rep i \<or> i_repne i) (i_repne i) 0 (c, m) = (r1, c1, m1)"
    by (metis surj_pair)
  have "1 \<le> unat (max t 1) \<and> unat (max t 1) \<le> 2 ^ 32" if "unat t \<le> 2 ^ 32" for t :: u64
    using that by (auto simp: max_def word_le_nat_alt)
  then show ?thesis using string_loop_priced [OF assms(1) lp] lp assms(2) k
    by (auto simp: string_op_def bind_x_def get_x_def ret_x_def split: outcome.splits)
qed

lemma quiet_priced:
  assumes "exec_rel same_partial p" "\<And>s t s'. p s = (Done t, s') \<Longrightarrow> t = 1" "partial_ticks (fst s) = 0"
  shows "priced (p s)"
proof -
  obtain r s' where ps: "p s = (r, s')" by (metis surj_pair)
  have "partial_ticks (fst s') = 0" using exec_relD [OF assms(1) ps] assms(3) by (simp add: same_partial_def)
  then show ?thesis using assms(2) [of s _ s'] ps by (cases r) (auto simp: priced_def)
qed

lemma then_one: "then_x p (ret_x 1) s = (Done t, s') \<Longrightarrow> t = 1"
  by (auto simp: then_x_def bind_x_def ret_x_def split: prod.splits outcome.splits)

lemma simd_one: "simd_or_stop ip i s = (Done t, s') \<Longrightarrow> t = 1"
  by (auto simp: simd_or_stop_def bind_x_def ret_x_def stop_x_def split: prod.splits outcome.splits if_splits)

lemma exec_priced:
  assumes "partial_ticks (fst s) = 0"
  shows "priced (exec F i s)"
proof -
  obtain c m where s: "s = (c, m)" by force
  let ?ip = "eip c - of_nat (i_len i)"
  have simd: "priced (simd_or_stop ?ip i t)" if "partial_ticks (fst t) = 0" for t
    by (rule quiet_priced [OF pt.quiet_simd_or_stop simd_one that])
  have one: "priced (then_x p (ret_x 1) t)" if "exec_rel same_partial p" "partial_ticks (fst t) = 0" for p :: "unit exec" and t
    by (rule quiet_priced [OF pt.frame_then [OF that(1) pt.frame_pure(1)] then_one that(2)])
  have str: "priced (exec_string ?ip i s)"
  proof -
    obtain r c' m' where r: "string_op i (c, m) = (r, c', m')" by (metis surj_pair)
    have p: "partial_ticks c = 0" using assms s by simp
    show ?thesis using string_op_priced [OF p r] r simd [of "(c, m')"] p
      by (auto simp: s exec_string_def bind_x_def ret_x_def priced_def split: outcome.splits option.splits)
  qed
  have oth: "priced (exec_other F ?ip i s)"
    using assms simd [of s] one [OF pt.quiet_conditional] one [OF pt.quiet_x87]
    by (auto simp: exec_other_def bind_x_def get_x_def s split: option.splits)
  show ?thesis using str oth one [OF pt.quiet_arm] assms
    by (auto simp: exec_def bind_x_def get_x_def s split: option.splits)
qed

lemma step_priced: "priced (step dec F s)"
proof -
  let ?t = "(fst s\<lparr>partial_ticks := 0\<rparr>, snd s)"
  obtain r u where u: "fetch dec ?t = (r, u)" by (metis surj_pair)
  have p: "partial_ticks (fst u) = 0"
    using u by (auto simp: fetch_def fetch_fresh_def Let_def split: option.splits if_splits prod.splits)
  have "priced (exec F i (advance i (fst u), snd u))" for i by (rule exec_priced) (simp add: p)
  then show ?thesis using u p
    by (cases r) (simp_all add: step_def then_x_def bind_x_def put_x_def priced_def split_beta)
qed

section \<open>Every turn advances\<close>

text \<open>What holds of the outcome of a stage; \<open>B\<close> allows a panic.\<close>

definition flow_ok :: "('e run_state \<Rightarrow> bool) \<Rightarrow> ('e run_state \<Rightarrow> bool) \<Rightarrow> (stop_reason \<Rightarrow> u32 option \<Rightarrow> 'e run_state \<Rightarrow> bool) \<Rightarrow> bool \<Rightarrow> 'e flow \<Rightarrow> bool" where
  "flow_ok Fa Ag Ov B r = (case r of Fall st \<Rightarrow> Fa st | Again st \<Rightarrow> Ag st | Over reason oep st \<Rightarrow> Ov reason oep st | Abort \<Rightarrow> B)"

lemma flow_ok_simps [simp]:
  "flow_ok Fa Ag Ov B (Fall st) = Fa st" "flow_ok Fa Ag Ov B (Again st) = Ag st"
  "flow_ok Fa Ag Ov B (Over reason oep st) = Ov reason oep st" "flow_ok Fa Ag Ov B Abort = B"
  by (simp_all add: flow_ok_def)

lemma flow_ok_on_fall:
  assumes "flow_ok Fa Ag Ov B (p st)" "\<And>st'. Fa st' \<Longrightarrow> flow_ok Fa' Ag Ov B (q st')"
  shows "flow_ok Fa' Ag Ov B (on_fall p q st)"
  using assms by (cases "p st") (simp_all add: on_fall_def)

lemma flow_ok_charge:
  assumes "\<And>t. unat t = unat (rs_ticks st) + unat n \<Longrightarrow> flow_ok Fa Ag Ov B (k (st\<lparr>rs_ticks := t\<rparr>))"
    and "B \<or> unat (rs_ticks st) + unat n < 2 ^ 64"
  shows "flow_ok Fa Ag Ov B (charge_ticks n st k)"
proof (cases "add_chk (rs_ticks st) n")
  case None
  then have B using assms(2) by (auto simp: add_chk_def split: if_splits)
  then show ?thesis using None by (simp add: charge_ticks_def)
next
  case (Some t)
  then show ?thesis using assms(1) [OF add_chk_Some [OF Some]] by (simp add: charge_ticks_def)
qed

definition advanced :: "'e run_state \<Rightarrow> 'e run_state \<Rightarrow> bool" where
  "advanced st st' \<longleftrightarrow> rs_ticks st < rs_ticks st' \<or> rs_ticks st' = rs_ticks st \<and> in_tls st \<and> \<not> in_tls st'"

definition same_time :: "'e run_state \<Rightarrow> 'e run_state \<Rightarrow> bool" where
  "same_time st st' \<longleftrightarrow> rs_ticks st' = rs_ticks st \<and> in_tls st' = in_tls st"

abbreviation moves :: "'e run_state \<Rightarrow> 'e flow \<Rightarrow> bool" where
  "moves st \<equiv> flow_ok (same_time st) (advanced st) (\<lambda>_ _ _. True) True"

lemma set_machine_fields [simp]:
  "rs_ticks (set_machine s st) = rs_ticks st" "in_tls (set_machine s st) = in_tls st" "rs_seh (set_machine s st) = rs_seh st"
  "rs_env (set_machine s st) = rs_env st" "rs_cpu (set_machine s st) = fst s" "rs_mem (set_machine s st) = snd s"
  "rs_recheck (set_machine s st) = rs_recheck st" "unimplemented_calls (set_machine s st) = unimplemented_calls st"
  "faulted_api_calls (set_machine s st) = faulted_api_calls st" "tls_next (set_machine s st) = tls_next st"
  "tls_calls (set_machine s st) = tls_calls st"
  by (simp_all add: set_machine_def)

lemma advanced_charge: "unat t = unat (rs_ticks st) + unat n \<Longrightarrow> n \<noteq> 0 \<Longrightarrow> rs_ticks st' = t \<Longrightarrow> advanced st st'"
  by (simp add: advanced_def word_less_nat_alt unat_gt_0)

lemma moves_stages:
  "moves st (check_budget X st)" "moves st (check_progress X st)" "moves st (check_tls_slice X st)" "moves st (check_process_return X st)"
  "moves st (tail_transfer X st)"
  by (auto simp: check_budget_def check_progress_def check_tls_slice_def check_process_return_def tail_transfer_def enter_def
      same_time_def advanced_def Let_def split: option.split prod.split outcome.split bool.split)

lemma advances_enter: "rs_ticks st < rs_ticks st' \<Longrightarrow> flow_ok Fa (advanced st) (\<lambda>_ _ _. True) True (enter p st')"
  by (auto simp: enter_def advanced_def split: prod.split outcome.split)

lemma advances_raise: "rs_ticks st < rs_ticks st' \<Longrightarrow> flow_ok Fa (advanced st) (\<lambda>_ _ _. True) True (raise_or r code at st')"
  by (auto simp: raise_or_def advanced_def split: prod.split outcome.split bool.split)

lemma moves_tls_return: "moves st (check_tls_return X st)"
  unfolding check_tls_return_def callback_returned_def
  by (auto simp: same_time_def word_less_nat_alt intro!: flow_ok_charge advances_enter split: prod.split option.split)

lemma moves_seh_return: "moves st (check_seh_return X st)"
  unfolding check_seh_return_def handler_back_def
  by (auto simp: same_time_def advanced_def word_less_nat_alt intro!: flow_ok_charge split: prod.split outcome.split seh_outcome.split bool.split)

lemma moves_api_faulted: "same_time st st' \<Longrightarrow> flow_ok Fa (advanced st) (\<lambda>_ _ _. True) True (api_faulted esp st')"
  unfolding api_faulted_def
  by (auto simp: same_time_def advanced_def word_less_nat_alt Let_def intro!: flow_ok_charge split: prod.split option.split sum.split)

lemma moves_service_trap: "moves st (service_trap X st)"
  unfolding service_trap_def
  by (auto simp: same_time_def advanced_def word_less_nat_alt Let_def take_bulk_bytes_def add_chk_def unat_word_ariths
      intro!: flow_ok_charge moves_api_faulted
      split: prod.split option.split outcome.split api_effect.split stop.split)

lemma advances_partial:
  assumes "same_time st st'" "\<And>u. rs_ticks st < rs_ticks u \<Longrightarrow> flow_ok Fa (advanced st) (\<lambda>_ _ _. True) True (k u)"
  shows "flow_ok Fa (advanced st) (\<lambda>_ _ _. True) True (charge_partial st' k)"
proof (cases "add_chk 1 (partial_ticks (rs_cpu st'))")
  case None
  then show ?thesis by (simp add: charge_partial_def take_partial_ticks_def)
next
  case (Some n)
  then have "0 < unat n" using add_chk_Some [OF Some] by simp
  then have "rs_ticks st < t" if "unat t = unat (rs_ticks st') + unat n" for t
    using that assms(1) by (simp add: same_time_def word_less_nat_alt)
  then show ?thesis using Some assms(2) by (auto simp: charge_partial_def take_partial_ticks_def intro!: flow_ok_charge)
qed

lemma advances_stopped: "same_time st st' \<Longrightarrow> flow_ok Fa (advanced st) (\<lambda>_ _ _. True) True (stopped e at st')"
  unfolding stopped_def by (rule advances_partial) (auto intro: advances_raise split: option.split)

lemma advances_exec_one: "flow_ok (advanced st) (advanced st) (\<lambda>_ _ _. True) True (exec_one X st)"
proof -
  obtain r s where st: "step (rc_dec X) (rc_float X) (machine_of st) = (r, s)" by (metis surj_pair)
  have pr: "priced (r, s)" using step_priced [of "rc_dec X" "rc_float X" "machine_of st"] st by simp
  have same: "same_time st (set_machine u st)" for u by (simp add: same_time_def)
  have lt: "rs_ticks st < t" if "r = Done n" "unat t = unat (rs_ticks st) + unat n" for n t
    using pr that by (simp add: priced_def word_less_nat_alt)
  show ?thesis
  proof (cases r)
    case (Done n)
    then show ?thesis using st lt [OF Done]
      by (auto simp: exec_one_def Let_def intro!: flow_ok_charge advances_raise) (simp_all add: advanced_def)
  next
    case (Stopped e)
    have grow: "flow_ok (advanced st) (advanced st) (\<lambda>_ _ _. True) True (charge_partial (set_machine u st) Again)" for u
      by (rule advances_partial [OF same]) (simp add: advanced_def)
    show ?thesis using st Stopped advances_stopped [OF same] grow
      by (cases e) (simp_all add: exec_one_def Let_def split: prod.split)
  next
    case Panicked
    then show ?thesis using st by (simp add: exec_one_def Let_def)
  qed
qed

lemma moves_then:
  assumes "moves st (p st)" "\<And>st'. same_time st st' \<Longrightarrow> flow_ok Fa (advanced st) (\<lambda>_ _ _. True) True (q st')"
  shows "flow_ok Fa (advanced st) (\<lambda>_ _ _. True) True (on_fall p q st)"
  by (rule flow_ok_on_fall [where p = p and st = st, OF assms(1)]) (rule assms(2))

lemma advanced_same: "same_time st st' \<Longrightarrow> advanced st' = advanced st" "same_time st st' \<Longrightarrow> same_time st' = same_time st"
  by (simp_all add: same_time_def advanced_def fun_eq_iff)

lemma same_time_refl: "same_time st st"
  by (simp add: same_time_def)

lemma moves_chain:
  assumes "\<And>st. moves st (p st)" "\<And>st. flow_ok (\<lambda>_. False) (advanced st) (\<lambda>_ _ _. True) True (q st)"
  shows "flow_ok (\<lambda>_. False) (advanced st) (\<lambda>_ _ _. True) True (on_fall p q st)"
proof (rule moves_then [OF assms(1)])
  fix st' assume "same_time st st'"
  then show "flow_ok (\<lambda>_. False) (advanced st) (\<lambda>_ _ _. True) True (q st')" using assms(2) [of st'] by (simp add: advanced_same)
qed

lemma run_turn_advances: "flow_ok (\<lambda>_. False) (advanced st) (\<lambda>_ _ _. True) True (run_turn X st)"
proof -
  have last: "flow_ok (\<lambda>_. False) (advanced st) (\<lambda>_ _ _. True) True (on_fall (exec_one X) check_capacity st)" for st :: "'a run_state"
    by (rule flow_ok_on_fall [where p = "exec_one X" and st = st, OF advances_exec_one]) (simp add: check_capacity_def)
  show ?thesis unfolding run_turn_def
    by (intro moves_chain moves_stages moves_tls_return moves_seh_return moves_service_trap last)
qed

section \<open>The run ends\<close>

definition work_left :: "'e run_ctx \<Rightarrow> 'e run_state \<Rightarrow> nat" where
  "work_left X st = 2 * (unat (max_ticks (rc_limits X)) - unat (rs_ticks st)) + (if in_tls st then 1 else 0)"

lemma work_left_decreases:
  assumes "rs_ticks st < max_ticks (rc_limits X)" "advanced st st'"
  shows "work_left X st' < work_left X st"
  using assms by (auto simp: work_left_def advanced_def word_less_nat_alt)

lemma run_loop_ends: "work_left X st < n \<Longrightarrow> \<exists>r. run_loop n X st = Some r \<and> (\<forall>st'. r \<noteq> Fall st' \<and> r \<noteq> Again st')"
proof (induction n arbitrary: st)
  case (Suc n)
  show ?case
  proof (cases "run_turn X st")
    case (Again st')
    have "rs_ticks st < max_ticks (rc_limits X)" using Again by (auto simp: run_turn_def on_fall_def check_budget_def split: if_splits)
    then have "work_left X st' < work_left X st" using run_turn_advances [of st X] Again by (simp add: work_left_decreases)
    then show ?thesis using Suc Again by simp
  qed (use run_turn_advances [of st X] in simp_all)
qed simp

text \<open>
  C9. The run ends. Whatever the emulated program does and whatever the environment answers, unpacking a file
  returns a report or panics: the driver's loop ends within twice the tick budget plus two turns, because
  every turn that continues either spends a tick or leaves the TLS phase for good.
\<close>

theorem unpack_ends: "\<exists>out. unpack E file lim = Some out"
proof -
  have prog: "\<exists>out. run_program X file env m = Some out" for X :: "'a run_ctx" and env m
  proof (cases "start_run X env m")
    case (Again st)
    have "unat (rs_ticks st) = 0" "\<not> in_tls st \<or> in_tls st" using Again
      by (auto simp: start_run_def enter_def first_state_def Let_def split: prod.splits option.splits outcome.splits)
    then have "work_left X st < turns (rc_limits X)" by (simp add: work_left_def turns_def)
    then obtain r where r: "run_loop (turns (rc_limits X)) X st = Some r" using run_loop_ends by blast
    then show ?thesis using Again by (cases r) (simp_all add: run_program_def)
  next
    case (Fall st)
    then show ?thesis by (auto simp: start_run_def enter_def Let_def split: prod.splits option.splits outcome.splits)
  qed (simp_all add: run_program_def)
  then show ?thesis by (auto simp: unpack_def split: option.split prod.split sum.split)
qed

section \<open>No panics\<close>

definition wf_cache :: "cpu \<Rightarrow> bool" where
  "wf_cache c \<longleftrightarrow> (\<forall>k g ip i. cache c k = Some (g, ip, i) \<longrightarrow> wf_insn i)"

definition wf_decoder :: "decoder \<Rightarrow> bool" where
  "wf_decoder dec \<longleftrightarrow> (\<forall>bs ip i. dec bs ip = Some i \<longrightarrow> wf_insn i \<and> 0 < i_len i \<and> i_len i \<le> MAX_INSN)"

lemma wf_cache_same: "cache c' = cache c \<Longrightarrow> wf_cache c \<Longrightarrow> wf_cache c'"
  by (simp add: wf_cache_def)

lemma keeps_cache: "exec_rel keeps_code p \<Longrightarrow> p s = (r, t) \<Longrightarrow> cache (fst t) = cache (fst s)"
  using exec_relD [of keeps_code p] by (simp add: keeps_code_def)

lemma fetch_wf_cache:
  assumes "wf_decoder dec" "wf_cache (fst s)"
  shows "wf_cache (fst (snd (fetch dec s)))"
proof -
  have "wf_cache (fst (snd (fetch_fresh dec s)))"
    using assms by (auto simp: fetch_fresh_def wf_cache_def wf_decoder_def Let_def split_beta split: option.split)
  then show ?thesis using assms(2) by (auto simp: fetch_def split: option.splits)
qed

lemma step_wf:
  assumes "wf_decoder dec" "wf_cache (fst s)" "step dec F s = (r, t)"
  shows "r \<noteq> Panicked \<and> wf_cache (fst t)"
proof -
  have np: "fst (step dec F s) \<noteq> Panicked" by (rule step_no_panic) (use assms(1,2) in \<open>auto simp: wf_decoder_def wf_cache_def\<close>)
  let ?t = "(fst s\<lparr>partial_ticks := 0\<rparr>, snd s)"
  obtain q u where u: "fetch dec ?t = (q, u)" by (metis surj_pair)
  have wu: "wf_cache (fst u)" using fetch_wf_cache [OF assms(1), of ?t] u assms(2) by (simp add: wf_cache_def)
  have "cache (fst (snd (exec F i (advance i (fst u), snd u)))) = cache (fst u)" for i
    using keeps_cache [OF kc_exec, of F i "(advance i (fst u), snd u)"] by (metis cache_updates(14) fst_conv prod.collapse)
  then have "wf_cache (fst (snd (step dec F s)))" using u wu
    by (cases q) (auto simp: step_def then_x_def bind_x_def put_x_def split_beta intro: wf_cache_same)
  then show ?thesis using np assms(3) by simp
qed

lemma kc_driver:
  "exec_rel keeps_code (start_entry im ret)" "exec_rel keeps_code (enter_tls_callback cb b ret)" "exec_rel keeps_code (enter_handler h)"
  "exec_rel keeps_code (read_context a)" "exec_rel keeps_code (write_context a at)"
proof -
  have add: "exec_rel keeps_code (add_x a b)" for a b
    by (auto simp: exec_rel_def add_x_def kc.R_refl split: option.splits)
  have get: "exec_rel keeps_code (context_get a off)" for a off
    unfolding context_get_def by (intro kc.quiet_rules add)
  have reg: "exec_rel keeps_code (context_reg a off r)" for a off r
    unfolding context_reg_def by (intro kc.quiet_rules get) simp
  show "exec_rel keeps_code (start_entry im ret)" "exec_rel keeps_code (enter_tls_callback cb b ret)" "exec_rel keeps_code (enter_handler h)"
    "exec_rel keeps_code (read_context a)" "exec_rel keeps_code (write_context a at)"
    unfolding start_entry_def enter_tls_callback_def enter_handler_def read_context_def write_context_def
    by (auto simp: split_beta intro!: kc.quiet_rules kc.quiet_access add get reg)
qed

lemma np_driver: "no_panic (start_entry im ret)" "no_panic (enter_tls_callback cb b ret)"
  unfolding start_entry_def enter_tls_callback_def by (auto intro!: np_rules np_push)

lemma seh_cache:
  "seh_raise code at h s = (r, h', t) \<Longrightarrow> cache (fst t) = cache (fst s)"
  "handler_returned h s = (q, h', t) \<Longrightarrow> cache (fst t) = cache (fst s)"
  "dispatch_next h s = (r, h', t) \<Longrightarrow> cache (fst t) = cache (fst s)"
proof -
  have rd: "mem_x (\<lambda>m. read_u32 m a) s = (v, t) \<Longrightarrow> cache (fst t) = cache (fst s)" for a s v t by (rule keeps_cache [OF kc.quiet_mem(3)])
  have wr: "then_x (mem_x (\<lambda>m. write_bytes m a bs)) (write_context b at) s = (v, t) \<Longrightarrow> cache (fst t) = cache (fst s)" for a bs b at s v t
    by (rule keeps_cache [OF kc.frame_then [OF kc.quiet_mem(8) kc_driver(5)]])
  have en: "then_x (enter_handler g) (ret_x True) s = (v, t) \<Longrightarrow> cache (fst t) = cache (fst s)" for g s v t
    by (rule keeps_cache [OF kc.frame_then [OF kc_driver(3) kc.frame_pure(1)]])
  have se: "exec_rel keeps_code (put_x (set_reg ESP a))" for a by (rule kc_put) simp
  have en2: "then_x (put_x (set_reg ESP a)) (then_x (enter_handler g) (ret_x True)) s = (v, t) \<Longrightarrow> cache (fst t) = cache (fst s)" for a g s v t
    by (rule keeps_cache [OF kc.frame_then [OF se kc.frame_then [OF kc_driver(3) kc.frame_pure(1)]]])
  show "seh_raise code at h s = (r, h', t) \<Longrightarrow> cache (fst t) = cache (fst s)"
    unfolding seh_raise_def Let_def by (auto split: prod.splits outcome.splits if_splits dest!: rd wr en2)
  show "dispatch_next h s = (r, h', t) \<Longrightarrow> cache (fst t) = cache (fst s)"
    unfolding dispatch_next_def Let_def by (auto split: prod.splits outcome.splits if_splits dest!: rd en)
  show "handler_returned h s = (q, h', t) \<Longrightarrow> cache (fst t) = cache (fst s)"
    unfolding handler_returned_def by (auto split: prod.splits outcome.splits if_splits dest!: keeps_cache [OF kc_driver(4)])
qed

text \<open>What every turn keeps, and what holds inside a turn once the budget was checked.\<close>

definition run_inv :: "'e run_ctx \<Rightarrow> 'e run_state \<Rightarrow> bool" where
  "run_inv X st \<longleftrightarrow> wf_cache (rs_cpu st) \<and> seh_inv (rs_seh st) \<and> length (rs_recheck st) = length (im_sections (rc_image X)) + 1 \<and>
     unat (unimplemented_calls st) \<le> 64 \<and> unat (faulted_api_calls st) \<le> 64 \<and> unat (tls_calls st) \<le> 64 \<and> tls_next st = tls_calls st"

definition in_budget :: "'e run_ctx \<Rightarrow> 'e run_state \<Rightarrow> bool" where
  "in_budget X st \<longleftrightarrow> run_inv X st \<and> unat (rs_ticks st) < 2 ^ 62"

text \<open>What the driver relies on: a decoder of well-formed instructions, an environment that does not panic and leaves the decode cache alone, a budget of at most \<open>2 ^ 62\<close>.\<close>

definition good_ctx :: "'e run_ctx \<Rightarrow> bool" where
  "good_ctx X \<longleftrightarrow> wf_decoder (rc_dec X) \<and> unat (max_ticks (rc_limits X)) \<le> 2 ^ 62 \<and>
     (\<forall>env s. fst (rc_call X env s) \<noteq> Panicked \<and> cache (fst (snd (snd (rc_call X env s)))) = cache (fst s))"

abbreviation sound :: "'e run_ctx \<Rightarrow> 'e flow \<Rightarrow> bool" where
  "sound X \<equiv> flow_ok (in_budget X) (run_inv X) (\<lambda>_ _ _. True) False"

lemma sound_budget: "good_ctx X \<Longrightarrow> run_inv X st \<Longrightarrow> sound X (check_budget X st)"
  by (auto simp: check_budget_def in_budget_def good_ctx_def word_le_nat_alt)

lemma sound_progress:
  assumes "in_budget X st"
  shows "sound X (check_progress X st)"
proof -
  have "unat (rs_ticks st) + unat PROGRESS_WINDOW < 2 ^ 64" using assms by (simp add: in_budget_def PROGRESS_WINDOW_def)
  then have "\<exists>d. add_chk (rs_ticks st) PROGRESS_WINDOW = Some d" by (simp add: add_chk_def)
  then show ?thesis using assms by (auto simp: check_progress_def in_budget_def run_inv_def Let_def split: prod.split)
qed

lemma sound_enter:
  assumes "run_inv X st" "no_panic p" "exec_rel keeps_code p"
  shows "sound X (enter p st)"
proof -
  obtain r t where t: "p (machine_of st) = (r, t)" by (metis surj_pair)
  have "wf_cache (fst t)" using keeps_cache [OF assms(3) t] assms(1) by (simp add: machine_of_def run_inv_def wf_cache_def)
  moreover have "r \<noteq> Panicked" using assms(2) t unfolding no_panic_def by (metis fst_conv)
  ultimately show ?thesis using assms(1) t by (auto simp: enter_def run_inv_def split: outcome.split)
qed

lemma sound_tls_slice: "in_budget X st \<Longrightarrow> sound X (check_tls_slice X st)"
  unfolding check_tls_slice_def
  by (auto intro!: sound_enter np_driver kc_driver) (simp add: in_budget_def run_inv_def)

lemma tick_fits: "in_budget X st \<Longrightarrow> unat n \<le> 2 ^ 53 \<Longrightarrow> unat (rs_ticks st) + unat n < 2 ^ 64"
  by (simp add: in_budget_def)

lemma sound_charge:
  assumes "in_budget X st" "unat n \<le> 2 ^ 53" "\<And>t :: u64. unat t < 2 ^ 63 \<Longrightarrow> sound X (k (st\<lparr>rs_ticks := t\<rparr>))"
  shows "sound X (charge_ticks n st k)"
proof (rule flow_ok_charge)
  show "False \<or> unat (rs_ticks st) + unat n < 2 ^ 64" using tick_fits [OF assms(1,2)] by simp
  fix t :: u64 assume "unat t = unat (rs_ticks st) + unat n"
  then have "unat t < 2 ^ 63" using assms(1,2) by (simp add: in_budget_def)
  then show "sound X (k (st\<lparr>rs_ticks := t\<rparr>))" by (rule assms(3))
qed

lemma sound_callback:
  assumes "good_ctx X" "run_inv X st" "unat (rs_ticks st) < 2 ^ 63"
  shows "sound X (callback_returned X st)"
proof -
  have "unat (tls_callback_budget X) \<le> 2 ^ 62" using assms(1)
    by (simp add: tls_callback_budget_def TLS_CALLBACK_BUDGET_DIVISOR_def good_ctx_def unat_div) linarith
  then obtain d where d: "add_chk (rs_ticks st) (tls_callback_budget X) = Some d" using assms(3) by (simp add: add_chk_def)
  have calls: "unat (tls_calls st) \<le> 64" "tls_next st = tls_calls st" using assms(2) by (simp_all add: run_inv_def)
  then obtain n where n: "add_chk (tls_calls st) 1 = Some n" by (simp add: add_chk_def)
  have "unat n \<le> 64" if "tls_calls st < MAX_TLS_CALLBACKS"
    using that add_chk_Some [OF n] by (simp add: word_less_nat_alt MAX_TLS_CALLBACKS_def)
  moreover have "tls_calls st < MAX_TLS_CALLBACKS" if "following_callback X st = (Some cb, m)" for cb m
    using that by (auto simp: following_callback_def split: if_splits)
  ultimately show ?thesis using assms(2) d n calls
    by (auto simp: callback_returned_def split: prod.split option.split intro!: sound_enter np_driver kc_driver)
       (simp_all add: run_inv_def)
qed

lemma sound_tls_return:
  assumes "good_ctx X" "in_budget X st"
  shows "sound X (check_tls_return X st)"
  using assms by (auto simp: check_tls_return_def intro!: sound_charge sound_callback) (simp_all add: in_budget_def run_inv_def)

lemma sound_handler_back:
  assumes "run_inv X st"
  shows "sound X (handler_back st)"
proof -
  have h: "seh_inv (rs_seh st)" "wf_cache (rs_cpu st)" using assms by (simp_all add: run_inv_def)
  obtain r h1 s1 where r: "handler_returned (rs_seh st) (machine_of st) = (r, h1, s1)" by (metis surj_pair)
  have 1: "r \<noteq> Panicked" "seh_inv h1" "wf_cache (fst s1)"
    using handler_returned_np [OF h(1), of "machine_of st"] r seh_cache(2) [OF r] h(2) by (simp_all add: machine_of_def wf_cache_def)
  obtain q h2 s2 where q: "dispatch_next h1 s1 = (q, h2, s2)" by (metis surj_pair)
  have 2: "q \<noteq> Panicked" "seh_inv h2" "wf_cache (fst s2)"
    using dispatch_next_np [OF 1(2), of s1] q seh_cache(3) [OF q] 1(3) by (simp_all add: wf_cache_def)
  show ?thesis using assms r q 1 2
    by (auto simp: handler_back_def run_inv_def split: outcome.split seh_outcome.split bool.split)
qed

lemma sound_seh_return: "in_budget X st \<Longrightarrow> sound X (check_seh_return X st)"
  by (auto simp: check_seh_return_def intro!: sound_charge sound_handler_back) (simp_all add: in_budget_def run_inv_def)

lemma sound_raise:
  assumes "run_inv X st"
  shows "sound X (raise_or reason code at st)"
proof -
  have h: "seh_inv (rs_seh st)" "wf_cache (rs_cpu st)" using assms by (simp_all add: run_inv_def)
  obtain r h1 s1 where r: "seh_raise code at (rs_seh st) (machine_of st) = (r, h1, s1)" by (metis surj_pair)
  have "r \<noteq> Panicked" "seh_inv h1" "wf_cache (fst s1)"
    using seh_raise_np [OF h(1), of code at "machine_of st"] r seh_cache(1) [OF r] h(2) by (simp_all add: machine_of_def wf_cache_def)
  then show ?thesis using assms r by (auto simp: raise_or_def run_inv_def split: outcome.split bool.split)
qed

lemma count_fits:
  fixes n :: u32
  assumes "unat n \<le> 64"
  obtains k where "add_chk n 1 = Some k" "\<not> 64 < k \<Longrightarrow> unat k \<le> 64"
proof -
  have "add_chk n 1 = Some (n + 1)" using assms by (simp add: add_chk_def)
  then show ?thesis using that [of "n + 1"] by (simp add: word_less_nat_alt)
qed

lemma sound_api_faulted:
  assumes "in_budget X st"
  shows "sound X (api_faulted esp st)"
proof -
  obtain k where k: "add_chk (faulted_api_calls st) 1 = Some k" "\<not> 64 < k \<Longrightarrow> unat k \<le> 64"
    using assms by (auto simp: in_budget_def run_inv_def intro: count_fits)
  have "in_budget X (st\<lparr>rs_mem := m, rs_cpu := c\<rparr>)" if "cache c = cache (rs_cpu st)" for m c
    using assms that by (simp add: in_budget_def run_inv_def wf_cache_def)
  then show ?thesis using assms k unfolding api_faulted_def Let_def
    by (auto simp: MAX_UNIMPLEMENTED_CALLS_def split: prod.split sum.split intro!: sound_charge)
       (auto simp: in_budget_def run_inv_def wf_cache_def)
qed

lemma sound_service_trap:
  assumes "good_ctx X" "in_budget X st"
  shows "sound X (service_trap X st)"
proof (cases "is_trap (rs_env st) (eip (rs_cpu st))")
  case True
  obtain r env s where c: "rc_call X (rs_env st) (machine_of st) = (r, env, s)" by (metis surj_pair)
  have "fst (rc_call X (rs_env st) (machine_of st)) \<noteq> Panicked" "cache (fst (snd (snd (rc_call X (rs_env st) (machine_of st))))) = cache (fst (machine_of st))"
    using assms(1) unfolding good_ctx_def by blast+
  then have r: "r \<noteq> Panicked" "cache (fst s) = cache (rs_cpu st)" using c by (simp_all add: machine_of_def)
  let ?st = "set_machine s (st\<lparr>rs_env := env\<rparr>)"
  have b: "in_budget X ?st" using assms(2) r(2) by (simp add: in_budget_def run_inv_def wf_cache_def)
  obtain k where k: "add_chk (unimplemented_calls st) 1 = Some k" "\<not> 64 < k \<Longrightarrow> unat k \<le> 64"
    using assms(2) by (auto simp: in_budget_def run_inv_def intro: count_fits)
  have pages: "unat (bulk_bytes env div of_nat PAGE_SIZE) \<le> 2 ^ 52"
  proof -
    have "unat (bulk_bytes env) < 2 ^ 64" using unat_bound [of "bulk_bytes env"] by simp
    then show ?thesis by (simp add: unat_div PAGE_SIZE_def)
  qed
  then obtain n where n: "add_chk 1 (bulk_bytes env div of_nat PAGE_SIZE) = Some n" by (simp add: add_chk_def)
  have np: "unat n \<le> 2 ^ 53" using add_chk_Some [OF n] pages by simp
  have cont: "sound X (charge_ticks n (?st\<lparr>rs_env := env\<lparr>bulk_bytes := 0\<rparr>\<rparr>) Again)"
    using b np by (intro sound_charge) (simp_all add: in_budget_def run_inv_def)
  have unimp: "sound X (charge_ticks 1 ?st (\<lambda>st. case add_chk (unimplemented_calls st) 1 of None \<Rightarrow> Abort
      | Some n \<Rightarrow> (let st = st\<lparr>unimplemented_calls := n\<rparr> in if MAX_UNIMPLEMENTED_CALLS < n then Over TooManyUnimplemented None st else Again st)))"
    by (rule sound_charge [OF b]) (use b k in \<open>simp_all add: MAX_UNIMPLEMENTED_CALLS_def Let_def in_budget_def run_inv_def\<close>)
  show ?thesis
    unfolding service_trap_def using True c r(1) cont unimp sound_api_faulted [OF b] n
    by (cases r) (simp_all add: Let_def take_bulk_bytes_def split: api_effect.split stop.split)
next
  case False
  then show ?thesis using assms(2) by (simp add: service_trap_def)
qed

lemma position_from_less: "position_from k P xs = Some j \<Longrightarrow> j < k + length xs"
  by (induction k P xs rule: position_from.induct) (auto split: if_splits)

lemma sound_tail:
  assumes "in_budget X st"
  shows "sound X (tail_transfer X st)"
proof -
  have d: "add_chk (rs_ticks st) RECHECK_INTERVAL \<noteq> None" using assms by (simp add: in_budget_def add_chk_def RECHECK_INTERVAL_def)
  have "\<exists>b rc. rebuilt (rc_image X) (section_of (rc_image X) rva) m (rs_recheck st) (rs_ticks st) = Some (b, rc) \<and> length rc = length (rs_recheck st)" for rva m
  proof (cases "section_of (rc_image X) rva")
    case (Some idx)
    have "idx < length (im_sections (rc_image X))" using position_from_less Some by (fastforce simp: section_of_def)
    then show ?thesis using Some assms d by (auto simp: rebuilt_def Let_def in_budget_def run_inv_def split: option.split)
  qed (auto simp: rebuilt_def)
  then obtain b rc where rb: "rebuilt (rc_image X) (section_of (rc_image X) (eip (rs_cpu st) - im_base (rc_image X))) (rs_mem st) (rs_recheck st) (rs_ticks st) = Some (b, rc)"
      "length rc = length (rs_recheck st)"
    by blast
  then show ?thesis using assms by (cases b) (simp_all add: tail_transfer_def Let_def in_budget_def run_inv_def)
qed

lemma sound_partial:
  assumes "in_budget X st" "unat (partial_ticks (rs_cpu st)) \<le> 2 ^ 32" "\<And>u. run_inv X u \<Longrightarrow> sound X (k u)"
  shows "sound X (charge_partial st k)"
proof -
  obtain n where n: "add_chk 1 (partial_ticks (rs_cpu st)) = Some n" using assms(2) by (simp add: add_chk_def)
  have "unat n \<le> 2 ^ 53" using add_chk_Some [OF n] assms(2) by simp
  moreover have "in_budget X (st\<lparr>rs_cpu := (rs_cpu st)\<lparr>partial_ticks := 0\<rparr>\<rparr>)" using assms(1) by (simp add: in_budget_def run_inv_def wf_cache_def)
  ultimately have "sound X (charge_ticks n (st\<lparr>rs_cpu := (rs_cpu st)\<lparr>partial_ticks := 0\<rparr>\<rparr>) k)"
    using assms(1) by (intro sound_charge assms(3)) (simp_all add: in_budget_def run_inv_def wf_cache_def)
  then show ?thesis using n by (simp add: charge_partial_def take_partial_ticks_def)
qed

lemma sound_stopped:
  assumes "in_budget X st" "unat (partial_ticks (rs_cpu st)) \<le> 2 ^ 32"
  shows "sound X (stopped e at st)"
  unfolding stopped_def by (rule sound_partial [OF assms]) (auto intro: sound_raise split: option.split)

lemma sound_weaken: "flow_ok Fa Ag Ov B r \<Longrightarrow> (\<And>st. Fa st \<Longrightarrow> Fa' st) \<Longrightarrow> flow_ok Fa' Ag Ov B r"
  by (cases r) simp_all

lemma sound_exec_one:
  assumes "good_ctx X" "in_budget X st"
  shows "flow_ok (run_inv X) (run_inv X) (\<lambda>_ _ _. True) False (exec_one X st)"
proof -
  have weak: "flow_ok (run_inv X) (run_inv X) (\<lambda>_ _ _. True) False f" if "sound X f" for f
    using sound_weaken [OF that] by (simp add: in_budget_def)
  obtain r s where st: "step (rc_dec X) (rc_float X) (machine_of st) = (r, s)" by (metis surj_pair)
  have pr: "priced (r, s)" using step_priced [of "rc_dec X" "rc_float X" "machine_of st"] st by simp
  have wf: "r \<noteq> Panicked" "wf_cache (fst s)"
    using step_wf [OF _ _ st] assms by (simp_all add: good_ctx_def in_budget_def run_inv_def machine_of_def)
  have b: "in_budget X (set_machine (fst s, m) st)" for m using assms(2) wf(2) by (simp add: in_budget_def run_inv_def)
  show ?thesis
  proof (cases r)
    case (Done t)
    have t: "unat t \<le> 2 ^ 32" using pr Done by (simp add: priced_def)
    let ?k = "\<lambda>u. if tf (rs_cpu st) \<and> tf (rs_cpu u)
        then raise_or SingleStepUnhandled STATUS_SINGLE_STEP (eip (rs_cpu st)) (u\<lparr>rs_cpu := (rs_cpu u)\<lparr>tf := False\<rparr>\<rparr>) else Fall u"
    have k: "flow_ok (run_inv X) (run_inv X) (\<lambda>_ _ _. True) False (?k u)" if "run_inv X u" for u
      using that by (auto intro!: weak sound_raise simp: run_inv_def wf_cache_def)
    have "flow_ok (run_inv X) (run_inv X) (\<lambda>_ _ _. True) False (charge_ticks t (set_machine s st) ?k)"
      using b [of "snd s"] t by (intro flow_ok_charge k) (simp_all add: in_budget_def run_inv_def)
    then show ?thesis using st Done by (simp add: exec_one_def Let_def)
  next
    case (Stopped e)
    have p: "unat (partial_ticks (fst s)) \<le> 2 ^ 32" using pr Stopped by (simp add: priced_def)
    have sp: "flow_ok (run_inv X) (run_inv X) (\<lambda>_ _ _. True) False (stopped f at (set_machine (fst s, m) st))" for f at m
      using p by (intro weak sound_stopped [OF b]) simp
    have gr: "flow_ok (run_inv X) (run_inv X) (\<lambda>_ _ _. True) False (charge_partial (set_machine (fst s, m) st) Again)" for m
      using p by (intro weak sound_partial [OF b]) simp_all
    show ?thesis using st Stopped sp gr sp [of _ _ "snd s"] by (cases e) (simp_all add: exec_one_def Let_def split: prod.split)
  qed (use wf in simp)
qed

lemma run_turn_sound:
  assumes "good_ctx X" "run_inv X st"
  shows "flow_ok (\<lambda>_. False) (run_inv X) (\<lambda>_ _ _. True) False (run_turn X st)"
proof -
  note g = assms(1)
  have chain: "flow_ok (\<lambda>_. False) (run_inv X) (\<lambda>_ _ _. True) False (on_fall p q st)"
    if "sound X (p st)" "\<And>u. in_budget X u \<Longrightarrow> flow_ok (\<lambda>_. False) (run_inv X) (\<lambda>_ _ _. True) False (q u)" for p q st
    by (rule flow_ok_on_fall [where p = p and st = st, OF that(1)]) (rule that(2))
  have last: "flow_ok (\<lambda>_. False) (run_inv X) (\<lambda>_ _ _. True) False (on_fall (exec_one X) check_capacity u)" if "in_budget X u" for u
    by (rule flow_ok_on_fall [where p = "exec_one X" and st = u, OF sound_exec_one [OF g that]]) (simp add: check_capacity_def)
  have proc: "sound X (check_process_return X u)" if "in_budget X u" for u using that by (simp add: check_process_return_def)
  show ?thesis unfolding run_turn_def
    by (intro chain sound_budget [OF g assms(2)] sound_progress sound_tls_slice sound_tls_return [OF g] proc
      sound_seh_return sound_service_trap [OF g] sound_tail last; assumption)
qed

lemma run_loop_sound: "good_ctx X \<Longrightarrow> run_inv X st \<Longrightarrow> run_loop n X st \<noteq> Some Abort"
proof (induction n arbitrary: st)
  case (Suc n)
  then show ?case using run_turn_sound [OF Suc.prems] by (cases "run_turn X st") simp_all
qed simp

text \<open>
  What the emulator relies on of its environment: the decoder returns well-formed instructions of 1 to
  16 bytes; building, binding and servicing do not panic, and servicing an export leaves the processor's decode cache
  alone; and kernel32 is loaded no higher than the address it prefers.
\<close>

definition good_params :: "'e emu_params \<Rightarrow> bool" where
  "good_params E \<longleftrightarrow> wf_decoder (ep_dec E) \<and>
     (\<forall>env s. fst (ep_call E env s) \<noteq> Panicked \<and> cache (fst (snd (snd (ep_call E env s)))) = cache (fst s)) \<and>
     (\<forall>m b z file env m'. ep_new E m b z file = (Inr env, m') \<longrightarrow> kernel32_base env \<le> 0x7C800000) \<and>
     (\<forall>env m b r z. kernel32_base env \<le> 0x7C800000 \<longrightarrow> kernel32_base (fst (ep_bind E env m b r z)) \<le> 0x7C800000)"

lemma start_run_sound:
  assumes "start_run X env m = f"
  shows "f \<noteq> Abort \<and> (\<forall>st. f = Again st \<longrightarrow> run_inv X st)"
proof -
  have inv: "run_inv X (first_state X (cpu_new\<lparr>fs_base := TEB_BASE\<rparr>) m env b)" for m b
    by (simp add: run_inv_def first_state_def wf_cache_def cpu_new_def seh_inv_def)
  have "sound X (start_run X env m)"
    unfolding start_run_def Let_def by (auto intro!: sound_enter inv np_driver kc_driver split: prod.split option.split)
  then show ?thesis using assms by auto
qed

lemma unpack_reports:
  assumes "good_params E" "unat (max_ticks lim) \<le> 2 ^ 62"
  shows "\<exists>rp. unpack E file lim = Some (Done rp)"
proof -
  have prog: "\<exists>rp. run_program X file env m = Some (Done rp)" if X: "good_ctx X" for X :: "'a run_ctx" and env m
  proof (cases "start_run X env m")
    case (Again st)
    have inv: "run_inv X st" using start_run_sound [OF Again] by blast
    have "unat (rs_ticks st) = 0" using Again
      by (auto simp: start_run_def enter_def first_state_def Let_def split: prod.splits option.splits outcome.splits)
    then have "work_left X st < turns (rc_limits X)" by (simp add: work_left_def turns_def)
    then obtain r where r: "run_loop (turns (rc_limits X)) X st = Some r" "\<forall>st'. r \<noteq> Fall st' \<and> r \<noteq> Again st'" using run_loop_ends by blast
    then have "r \<noteq> Abort" using run_loop_sound [OF X inv] by metis
    then show ?thesis using Again r by (cases r) (simp_all add: run_program_def)
  next
    case (Fall st)
    then show ?thesis by (auto simp: start_run_def enter_def Let_def split: prod.splits option.splits outcome.splits)
  next
    case Abort
    then show ?thesis using start_run_sound by blast
  qed (simp add: run_program_def)
  have ret: "\<exists>p q r. process_return env = Some p \<and> seh_return_of env = Some q \<and> tls_return_of env = Some r"
    if "kernel32_base env \<le> 0x7C800000" for env :: "'a win_env_scheme"
    using that by (simp add: process_return_def seh_return_of_def tls_return_of_def add_chk_def RETURN_OFFSET_def word_le_nat_alt unat_word_ariths)
  show ?thesis
  proof (cases "parse_pe file")
    case (Some im)
    obtain r1 m1 where 1: "map_into im file (mem_new (limit_pages lim)) = (r1, m1)" by (metis surj_pair)
    obtain r2 m2 where 2: "ep_new E m1 (im_base im) (size_of_image im) file = (r2, m2)" by (metis surj_pair)
    show ?thesis
    proof (cases r1; cases r2)
      fix u env assume r: "r1 = Inr u" "r2 = Inr env"
      obtain env3 m3 where 3: "ep_bind E env m2 (im_base im) (fst (import_dir im)) (snd (import_dir im)) = (env3, m3)" by (metis surj_pair)
      have k: "kernel32_base env \<le> 0x7C800000" using assms(1) 2 r(2) unfolding good_params_def by blast
      then have "kernel32_base env3 \<le> 0x7C800000" using assms(1) 3 unfolding good_params_def by (metis fst_conv)
      then obtain pr sr tr where p: "process_return env3 = Some pr" "seh_return_of env3 = Some sr" "tls_return_of env3 = Some tr" using ret by blast
      obtain arr env4 m4 where 4: "setup_tls im env3 m3 = (arr, env4, m4)" by (metis surj_pair)
      have "good_ctx \<lparr>rc_image = im, rc_limits = lim, rc_process_return = pr, rc_seh_return = sr, rc_tls_return = tr,
          rc_tls_array = arr, rc_dec = ep_dec E, rc_float = ep_float E, rc_call = ep_call E\<rparr>"
        using assms by (simp add: good_ctx_def good_params_def)
      then show ?thesis using prog Some 1 2 3 4 r p by (simp add: unpack_def)
    qed (simp_all add: unpack_def Some 1 2)
  qed (simp add: unpack_def)
qed

text \<open>
  C3. The emulator never panics. For every file, every budget of at most \<open>2 ^ 62\<close> ticks and every
  environment that itself does not panic, with a decoder that returns well-formed instructions of 1 to
  16 bytes, unpacking ends with a report, whatever the program being run does: no check fails that the
  code makes of an addition in the loop or in exception dispatch, of a subtraction, shift amount,
  divisor or slice in an instruction, or of an index.
\<close>

theorem unpack_never_panics:
  assumes "good_params E" "unat (max_ticks lim) \<le> 2 ^ 62"
  shows "\<exists>rp. unpack E file lim = Some (Done rp)"
  by (rule unpack_reports [OF assms])

text \<open>An environment with a mapped stack and one export, whose call exits; and a small budget.\<close>

definition demo_env :: "unit win_env_scheme" where
  "demo_env = \<lparr>modules = [(''kernel32.dll'', 0x7C800000)], trap_addrs = {0x7C818000}, heap_next = 0x1000000, allocations = [], bulk_bytes = 0\<rparr>"

definition demo_params :: "unit emu_params" where
  "demo_params = \<lparr>
     ep_new = (\<lambda>m b z file. case map_mem m STACK_BASE STACK_SIZE of (Inl _, m) \<Rightarrow> (Inl Halt, m) | (Inr _, m) \<Rightarrow> (Inr demo_env, m)),
     ep_bind = (\<lambda>env m b r z. (env, m)),
     ep_call = (\<lambda>env s. (Done Exit, env, s)),
     ep_dec = nop_decoder, ep_float = undefined\<rparr>"

definition demo_limits :: emu_limits where
  "demo_limits = \<lparr>max_ticks = 100, limit_pages = 1000, max_dump = 0x100000, min_unpack_dirty = 0x8000, min_partial_dirty = 0x10000\<rparr>"

lemma nop_wf_decoder: "wf_decoder nop_decoder"
proof -
  have "mem_width nop_insn = 4" by (simp add: nop_insn_def mem_width_def)
  then have "wf_insn nop_insn" by (simp add: wf_insn_def nop_insn_def wf_opnd_def simd_moves_def)
  moreover have "i_len nop_insn = 1" by (simp add: nop_insn_def)
  ultimately show ?thesis by (auto simp: wf_decoder_def nop_decoder_def MAX_INSN_def split: list.splits if_splits)
qed

lemma demo_params_good: "good_params demo_params"
  using nop_wf_decoder
  by (auto simp: good_params_def demo_params_def demo_env_def kernel32_base_def split: prod.splits sum.splits)

theorem unpack_never_panics_witness: "\<exists>rp. unpack demo_params demo_pe demo_limits = Some (Done rp)"
  by (rule unpack_never_panics [OF demo_params_good]) (simp add: demo_limits_def)

section \<open>What a report says\<close>

lemma snapshot_length: "length (fst (snapshot m a n)) \<le> n"
proof (induction m a n rule: snapshot.induct)
  case (1 m a n)
  show ?case
  proof (cases "n = 0")
    case False
    let ?c = "min (PAGE_SIZE - page_off a) n"
    obtain p m1 where sl: "slot m (page_of a) = (p, m1)" by (metis surj_pair)
    have ih: "length (fst (snapshot m1 (a + of_nat ?c) (n - ?c))) \<le> n - ?c"
      using "1.IH" False sl by (cases p) fastforce+
    show ?thesis
      using ih False sl by (subst snapshot.simps) (auto simp: Let_def split_beta split: option.split; linarith)
  qed (simp add: snapshot.simps)
qed

lemma dump_length:
  assumes "fst (dump_pe im m data oep cap) = Some out"
  shows "length out \<le> cap"
proof -
  let ?total = "unat (min (content_end im) (size_of_image im))"
  have l: "length (fst (snapshot m (im_base im) ?total)) \<le> ?total" by (rule snapshot_length)
  have h: "length (dump_headers im oep x) = length x" for x by (simp add: dump_headers_def Let_def)
  have c: "length (copy_slice x 0 (take (min k (length x)) data)) = length x" for x :: bytes and k
    by (rule length_copy_slice) simp
  show ?thesis using assms l
    by (auto simp: dump_pe_def Let_def h c split_beta split: if_splits)
qed

definition payload_ok :: "nat \<Rightarrow> bytes \<Rightarrow> bytes \<Rightarrow> bool" where
  "payload_ok cap file b \<longleftrightarrow> length b \<le> cap \<and> parse_pe b \<noteq> None \<and> \<not> same_prefix b file"

lemma payload_at_ok:
  assumes "payload_at cap file r m = (Some b, m')"
  shows "payload_ok cap file b"
proof -
  obtain base len where r: "r = (base, len)" by force
  have "length (fst (snapshot m2 base (unat len))) \<le> unat len" for m2 by (rule snapshot_length)
  then have "snapshot m2 base (unat len) = (x, m3) \<Longrightarrow> length x \<le> unat len" for m2 x m3 by (metis fst_conv)
  then show ?thesis using assms unfolding payload_at_def r
    by (auto simp: payload_ok_def split: prod.splits if_splits) (meson le_trans not_less)
qed

lemma allocated_payloads_ok:
  assumes "length out < 4" "\<forall>b \<in> set out. payload_ok cap data b" "allocated_payloads cap data rs out m = (ps, m')"
  shows "length ps \<le> 4 \<and> (\<forall>b \<in> set ps. payload_ok cap data b)"
  using assms
proof (induction rs arbitrary: out m)
  case (Cons r rs)
  obtain q m1 where q: "payload_at cap data r m = (q, m1)" by (metis surj_pair)
  show ?case
  proof (cases q)
    case None
    then show ?thesis using Cons.IH [of out m1] Cons.prems q by simp
  next
    case (Some b)
    have ok: "payload_ok cap data b" using payload_at_ok q Some by blast
    show ?thesis using Cons.IH [of "out @ [b]" m1] Cons.prems q Some ok
      by (auto simp: Let_def split: if_splits)
  qed
qed simp

text \<open>What ends a run: an entry point only with the reason that names it, and then all that the reason claims.\<close>

definition entry_found :: "'e run_ctx \<Rightarrow> u32 \<Rightarrow> 'e run_state \<Rightarrow> bool" where
  "entry_found X rva st \<longleftrightarrow>
     (let im = rc_image X; m = rs_mem st in
      eip (rs_cpu st) = im_base im + rva \<and> in_image im (im_base im + rva) \<and> is_dirty m (im_base im + rva) \<and>
      min_unpack_dirty (rc_limits X) \<le> watched_dirty_bytes m \<and> section_of im rva \<noteq> stub_section X \<and>
      (case section_of im rva of None \<Rightarrow> False
       | Some k \<Rightarrow> section_pages im (im_sections im ! k) \<le> dirty_section_pages im (im_sections im ! k) m * 4))"

definition ending :: "'e run_ctx \<Rightarrow> stop_reason \<Rightarrow> u32 option \<Rightarrow> 'e run_state \<Rightarrow> bool" where
  "ending X r oep st = (case oep of None \<Rightarrow> \<forall>a. r \<noteq> ReachedEntry a | Some rva \<Rightarrow> r = ReachedEntry rva \<and> entry_found X rva st)"

abbreviation ends_well :: "'e run_ctx \<Rightarrow> 'e flow \<Rightarrow> bool" where
  "ends_well X \<equiv> flow_ok (\<lambda>_. True) (\<lambda>_. True) (ending X) True"

lemma ending_None [simp]: "ending X r None st \<longleftrightarrow> (\<forall>a. r \<noteq> ReachedEntry a)"
  by (simp add: ending_def)

lemma rebuilt_true:
  assumes "rebuilt im sec m rc t = Some (True, rc')"
  shows "\<exists>k. sec = Some k \<and> section_pages im (im_sections im ! k) \<le> dirty_section_pages im (im_sections im ! k) m * 4"
  using assms by (auto simp: rebuilt_def Let_def split: option.splits if_splits)

lemma ends_tail: "ends_well X (tail_transfer X st)"
proof -
  have "ending X (ReachedEntry rva) (Some rva) (st\<lparr>rs_recheck := rc\<rparr>)"
    if "rva = eip (rs_cpu st) - im_base (rc_image X)" "min_unpack_dirty (rc_limits X) \<le> watched_dirty_bytes (rs_mem st)"
      "in_image (rc_image X) (eip (rs_cpu st))" "is_dirty (rs_mem st) (eip (rs_cpu st))" "section_of (rc_image X) rva \<noteq> stub_section X"
      "rebuilt (rc_image X) (section_of (rc_image X) rva) (rs_mem st) (rs_recheck st) (rs_ticks st) = Some (True, rc)" for rva rc
    using that rebuilt_true [OF that(6)] by (auto simp: ending_def entry_found_def Let_def)
  then show ?thesis by (auto simp: tail_transfer_def Let_def split: option.split bool.split)
qed

lemma ends_charge: "(\<And>u. ends_well X (k u)) \<Longrightarrow> ends_well X (charge_ticks n st k)"
  by (simp add: charge_ticks_def split: option.split)

lemma ends_simple:
  "ends_well X (enter p st)" "ends_well X (handler_back st)" "ends_well X (api_faulted a st)" "ends_well X (callback_returned X st)"
  by (auto simp: enter_def handler_back_def api_faulted_def callback_returned_def Let_def intro!: ends_charge
      split: prod.split outcome.split option.split sum.split seh_outcome.split bool.split)

lemma ends_raise: "(\<And>a. r \<noteq> ReachedEntry a) \<Longrightarrow> ends_well X (raise_or r code at st)"
  by (auto simp: raise_or_def split: prod.split outcome.split bool.split)

lemma ends_stages:
  "ends_well X (check_budget X st)" "ends_well X (check_progress X st)" "ends_well X (check_tls_slice X st)" "ends_well X (check_tls_return X st)"
  "ends_well X (check_process_return X st)" "ends_well X (check_seh_return X st)" "ends_well X (check_capacity st)"
  by (auto simp: check_budget_def check_progress_def check_tls_slice_def check_tls_return_def check_process_return_def check_seh_return_def
      check_capacity_def Let_def intro!: ends_charge ends_simple split: prod.split option.split)

lemma ends_service: "ends_well X (service_trap X st)"
  unfolding service_trap_def
  by (auto simp: Let_def intro!: ends_charge ends_simple split: prod.split option.split outcome.split api_effect.split stop.split)

lemma ends_exec_one: "ends_well X (exec_one X st)"
proof -
  have part: "ends_well X (charge_partial u k)" if "\<And>v. ends_well X (k v)" for u k
    using that by (auto simp: charge_partial_def take_partial_ticks_def intro!: ends_charge split: option.split)
  have stop: "ends_well X (stopped e at u)" for e at u
    unfolding stopped_def by (rule part) (auto intro: ends_raise split: option.split)
  show ?thesis unfolding exec_one_def Let_def
    by (auto intro!: ends_charge ends_raise part stop split: prod.split outcome.split stop.split)
qed

lemma run_turn_ends_well: "ends_well X (run_turn X st)"
proof -
  have chain: "ends_well X (on_fall p q st)" if "\<And>u. ends_well X (p u)" "\<And>u. ends_well X (q u)" for p q st
    by (rule flow_ok_on_fall [where p = p and st = st, OF that(1)]) (rule that(2))
  show ?thesis unfolding run_turn_def by (intro chain ends_stages ends_service ends_tail ends_exec_one)
qed

lemma run_loop_ending: "run_loop n X st = Some (Over r oep st') \<Longrightarrow> ending X r oep st'"
proof (induction n arbitrary: st)
  case (Suc n)
  then show ?case using run_turn_ends_well [of X st] by (auto split: flow.splits)
qed simp

text \<open>
  C11. An address reported as the original entry point was rebuilt by the program. When a run ends there, execution
  stands at that address, inside the image and on a page the program wrote, in another section than
  the one the stub started in; at least the required amount of the image was rewritten, and at
  least a quarter of the pages of the section entered were.
\<close>

theorem entry_is_rebuilt:
  assumes "run_loop n X st = Some (Over r (Some rva) st')"
  shows "r = ReachedEntry rva \<and> entry_found X rva st'"
  using run_loop_ending [OF assms] by (simp add: ending_def)

text \<open>A run that stands in a section it wrote: three pages, the last of them in the second of two sections.\<close>

definition entry_image :: pe_image where
  "entry_image = demo_image\<lparr>size_of_image := 0x3000,
     im_sections := [\<lparr>vaddr = 0x1000, vsize = 0x10, raw_ptr = 0, raw_size = 0x10\<rparr>, \<lparr>vaddr = 0x2000, vsize = 0x10, raw_ptr = 0, raw_size = 0x10\<rparr>]\<rparr>"

definition entry_mem :: mem where
  "entry_mem = snd (write_u8 (watch_range (snd (map_mem (mem_new 16) 0x400000 0x3000)) 0x400000 0x3000) 0x402000 0x90)"

definition entry_ctx :: "unit run_ctx" where
  "entry_ctx = \<lparr>rc_image = entry_image, rc_limits = demo_limits\<lparr>min_unpack_dirty := 0x1000\<rparr>, rc_process_return = 0x7C83F000,
     rc_seh_return = 0x7C83F010, rc_tls_return = 0x7C83F020, rc_tls_array = None, rc_dec = nop_decoder, rc_float = undefined,
     rc_call = ep_call demo_params\<rparr>"

definition entry_state :: "unit run_state" where
  "entry_state = first_state entry_ctx (cpu_new\<lparr>eip := 0x402000\<rparr>) entry_mem demo_env False"

lemma entry_mem_view: "index entry_mem 0x402 = Some 2 \<and> p_dirty (pages entry_mem ! 2) \<and> watch_dirty entry_mem = 1"
proof -
  have "(saturating_add 0x400000 (0x3000 - 1) :: u32) = 0x402FFF" "(saturating_add 0x400000 0x3000 :: u32) = 0x403000" by (simp_all add: saturating_add_def)
  moreover have "page_range (page_of 0x400000) (page_of 0x402FFF) = [0x400, 0x401, 0x402]" by (simp add: page_range_def page_of_def upt_rec)
  ultimately show ?thesis
    by (simp add: entry_mem_def map_mem_def mem_new_def watch_range_def write_u8_def slot_def store_page_def count_dirty_def page_of_def new_page_def Let_def)
qed

lemma entry_sections:
  "stub_section entry_ctx = Some 0" "section_of entry_image 0x2000 = Some 1" "section_pages entry_image (im_sections entry_image ! 1) = 1"
  by (simp_all add: stub_section_def entry_ctx_def section_of_def entry_image_def demo_image_def section_len_def saturating_add_def section_pages_def
      PAGE_SIZE_def MAX_PAGES_SCANNED_def)

lemma entry_dirty: "is_dirty entry_mem 0x402000" "watched_dirty_bytes entry_mem = 0x1000"
  "dirty_section_pages entry_image (im_sections entry_image ! 1) entry_mem = 1"
  using entry_mem_view unfolding dirty_section_pages_def entry_sections(3)
  by (simp_all add: is_dirty_def watched_dirty_bytes_def PAGE_SIZE_def page_of_def entry_image_def demo_image_def)

lemma entry_run: "\<exists>st. run_loop 1 entry_ctx entry_state = Some (Over (ReachedEntry 0x2000) (Some 0x2000) st)"
proof -
  have im: "im_base entry_image = 0x400000" "image_end entry_image = 0x403000" "length (im_sections entry_image) = 2"
    by (simp_all add: entry_image_def demo_image_def image_end_def saturating_add_def)
  have rb: "rebuilt entry_image (Some 1) entry_mem [0, 0, 0] 0 = Some (True, [0, RECHECK_INTERVAL, 0])"
    using entry_dirty(3) entry_sections(3) by (simp add: rebuilt_def im add_chk_def RECHECK_INTERVAL_def Let_def)
  have rc: "rs_recheck entry_state = [0, 0, 0]" by (simp add: entry_state_def first_state_def entry_ctx_def im numeral_eq_Suc)
  have st: "rs_ticks entry_state = 0" "\<not> in_tls entry_state" "eip (rs_cpu entry_state) = 0x402000" "rs_mem entry_state = entry_mem"
    "rs_env entry_state = demo_env" "progress_deadline entry_state = PROGRESS_WINDOW"
    by (simp_all add: entry_state_def first_state_def)
  have X: "rc_image entry_ctx = entry_image" "rc_process_return entry_ctx = 0x7C83F000" "rc_seh_return entry_ctx = 0x7C83F010"
    "max_ticks (rc_limits entry_ctx) = 100" "min_unpack_dirty (rc_limits entry_ctx) = 0x1000"
    by (simp_all add: entry_ctx_def demo_limits_def)
  have "tail_transfer entry_ctx entry_state = Over (ReachedEntry 0x2000) (Some 0x2000) (entry_state\<lparr>rs_recheck := [0, RECHECK_INTERVAL, 0]\<rparr>)"
    using rb by (simp add: tail_transfer_def X st entry_dirty in_image_def im entry_sections rc)
  then have "run_turn entry_ctx entry_state = Over (ReachedEntry 0x2000) (Some 0x2000) (entry_state\<lparr>rs_recheck := [0, RECHECK_INTERVAL, 0]\<rparr>)"
    by (simp add: run_turn_def on_fall_def check_budget_def check_progress_def check_tls_slice_def check_tls_return_def check_process_return_def
        check_seh_return_def service_trap_def is_trap_def X st demo_env_def PROGRESS_WINDOW_def)
  then show ?thesis by simp
qed

theorem entry_is_rebuilt_witness:
  "\<exists>st. run_loop 1 entry_ctx entry_state = Some (Over (ReachedEntry 0x2000) (Some 0x2000) st) \<and> entry_found entry_ctx 0x2000 st"
  using entry_run entry_is_rebuilt by blast

text \<open>
  A fault in a TLS callback that nothing handles ends the run. The module's documentation says that the TLS phase is
  then abandoned and execution proceeds to the entry point; the code ends the run with the fault as its
  reason, and only a callback that outruns its slice of the budget is abandoned for the entry point.
\<close>

theorem tls_fault_ends_run:
  assumes "in_tls st" "step (rc_dec X) (rc_float X) (machine_of st) = (Stopped e, c, m)" "\<And>f. e \<noteq> Fault f"
    and "\<And>code. exception_code e = Some code \<Longrightarrow>
      fst (seh_raise code (eip (rs_cpu st)) (rs_seh st) (c\<lparr>partial_ticks := 0\<rparr>, m)) \<notin> {Done True, Panicked}"
    and "unat (rs_ticks st) + unat (partial_ticks c) + 1 < 2 ^ 64"
  shows "\<exists>st'. exec_one X st = Over (Unhandled e) None st'"
proof -
  let ?st = "set_machine (c, m) st"
  have "exec_one X st = stopped e (eip (rs_cpu st)) ?st" using assms(2) assms(3) by (cases e) (auto simp: exec_one_def)
  moreover obtain n where n: "add_chk 1 (partial_ticks c) = Some n" using assms(5) by (simp add: add_chk_def)
  moreover obtain t where t: "add_chk (rs_ticks st) n = Some t" using assms(5) add_chk_Some [OF n] by (simp add: add_chk_def)
  moreover have "\<exists>st'. raise_or (Unhandled e) code (eip (rs_cpu st)) (?st\<lparr>rs_cpu := c\<lparr>partial_ticks := 0\<rparr>, rs_ticks := t\<rparr>) = Over (Unhandled e) None st'"
    if "exception_code e = Some code" for code
    using assms(4) [OF that] by (auto simp: raise_or_def machine_of_def split: prod.split outcome.split bool.split)
  ultimately show ?thesis by (auto simp: stopped_def charge_partial_def take_partial_ticks_def charge_ticks_def split: option.split)
qed

text \<open>The run above in a TLS callback, with a decoder that accepts nothing and no exception list.\<close>

definition fault_ctx :: "unit run_ctx" where
  "fault_ctx = entry_ctx\<lparr>rc_dec := (\<lambda>bs ip. None)\<rparr>"

definition fault_state :: "unit run_state" where
  "fault_state = entry_state\<lparr>in_tls := True\<rparr>"

lemma entry_mem_inv: "mem_inv entry_mem"
proof -
  have "mem_inv (snd (map_mem (mem_new 16) 0x400000 0x3000))" by (intro map_mem_inv mem_new_inv)
  then have "mem_inv (watch_range (snd (map_mem (mem_new 16) 0x400000 0x3000)) 0x400000 0x3000)" by (rule mem_step_inv [OF step_watch])
  then show ?thesis unfolding entry_mem_def by (rule write_u8_view(3))
qed

lemma entry_mem_bytes: "byte_at entry_mem 0x402000 \<noteq> None" "byte_at entry_mem 0 = None"
proof -
  have "(saturating_add 0x400000 (0x3000 - 1) :: u32) = 0x402FFF" by (simp add: saturating_add_def)
  moreover have "page_range (page_of 0x400000) (page_of 0x402FFF) = [0x400, 0x401, 0x402]" by (simp add: page_range_def page_of_def upt_rec)
  ultimately have "index entry_mem 0 = None"
    by (simp add: entry_mem_def map_mem_def mem_new_def watch_range_def write_u8_def slot_def store_page_def count_dirty_def page_of_def new_page_def Let_def)
  then show "byte_at entry_mem 0 = None" by (simp add: byte_at_def page_at_def page_of_def)
  show "byte_at entry_mem 0x402000 \<noteq> None" using entry_mem_view by (simp add: byte_at_def page_at_def page_of_def)
qed

lemma fault_step:
  obtains m where "step (rc_dec fault_ctx) (rc_float fault_ctx) (machine_of fault_state) = (Stopped (Invalid 0x402000), cpu_new\<lparr>eip := 0x402000\<rparr>, m)"
    "mem_inv m" "byte_at m = byte_at entry_mem"
proof -
  let ?c = "cpu_new\<lparr>eip := 0x402000\<rparr>"
  obtain buf m where rc: "read_code entry_mem 0x402000 MAX_INSN = (buf, m)" by force
  have m: "mem_inv m" "byte_at m = byte_at entry_mem" and buf: "buf = mapped_prefix (byte_at entry_mem) 0x402000 MAX_INSN"
    using read_code_spec [OF entry_mem_inv, of "0x402000" MAX_INSN] rc same_mem_byte_at by auto
  have "buf \<noteq> []" using entry_mem_bytes(1) unfolding buf by (auto simp: MAX_INSN_def numeral_eq_Suc split: option.split)
  then have "fetch_fresh (\<lambda>bs ip. None) (?c, entry_mem) = (Stopped (Invalid 0x402000), ?c, m)" by (simp add: fetch_fresh_def rc)
  then have "fetch (\<lambda>bs ip. None) (?c, entry_mem) = (Stopped (Invalid 0x402000), ?c, m)" by (simp add: fetch_def cpu_new_def)
  moreover have "?c\<lparr>partial_ticks := 0\<rparr> = ?c" by (simp add: cpu_new_def)
  ultimately have "step (\<lambda>bs ip. None) (rc_float fault_ctx) (?c, entry_mem) = (Stopped (Invalid 0x402000), ?c, m)"
    by (simp add: step_def then_x_def bind_x_def put_x_def)
  then show ?thesis using m that by (simp add: fault_ctx_def machine_of_def fault_state_def entry_state_def first_state_def)
qed

theorem tls_fault_ends_run_witness: "\<exists>st'. exec_one fault_ctx fault_state = Over (Unhandled (Invalid 0x402000)) None st'"
proof -
  obtain m where st: "step (rc_dec fault_ctx) (rc_float fault_ctx) (machine_of fault_state) = (Stopped (Invalid 0x402000), cpu_new\<lparr>eip := 0x402000\<rparr>, m)"
    "mem_inv m" "byte_at m = byte_at entry_mem" using fault_step .
  have "bytes_at (byte_at m) 0 4 = None" using entry_mem_bytes(2) st(3) by (simp add: numeral_eq_Suc)
  then have "fst (read_u32 m 0) \<noteq> Inr v" for v using read_u32_bytes [OF st(2), of 0 v] by simp
  then obtain e m2 where rd: "read_u32 m 0 = (Inl e, m2)" by (metis old.sum.exhaust prod.collapse)
  have "seh_raise code at h ((cpu_new\<lparr>eip := 0x402000\<rparr>)\<lparr>partial_ticks := 0\<rparr>, m) = (Stopped (Fault e), h, (cpu_new\<lparr>eip := 0x402000\<rparr>)\<lparr>partial_ticks := 0\<rparr>, m2)" for code at h
    using rd by (simp add: seh_raise_def mem_x_def cpu_new_def)
  then show ?thesis
    by (intro tls_fault_ends_run [OF _ st(1)]) (simp_all add: fault_state_def entry_state_def first_state_def cpu_new_def)
qed

lemma finish_report:
  assumes "ending X r oep st" "rp = finish X file r oep st"
  shows "length (extra rp) \<le> 4 \<and> (\<forall>b \<in> set (extra rp). payload_ok (max_dump (rc_limits X)) file b) \<and>
    (\<forall>u. rp_unpacked rp = Some u \<longrightarrow> length (un_data u) \<le> max_dump (rc_limits X) \<and> 0 < dirty_bytes rp \<and>
      (if reached_oep u then rp_stop rp = ReachedEntry (oep_rva u)
       else oep_rva u = entry_rva (rc_image X) \<and> min_partial_dirty (rc_limits X) \<le> dirty_bytes rp))"
proof -
  let ?lim = "rc_limits X" and ?im = "rc_image X"
  obtain ps m where ps: "allocated_payloads (max_dump ?lim) file (allocations (rs_env st)) [] (rs_mem st) = (ps, m)" by (metis surj_pair)
  have ok: "length ps \<le> 4" "\<forall>b \<in> set ps. payload_ok (max_dump ?lim) file b" using allocated_payloads_ok [OF _ _ ps] by simp_all
  have ex: "extra rp = ps" unfolding assms(2) by (simp add: finish_def ps Let_def split: option.split)
  have "length (un_data u) \<le> max_dump ?lim \<and> 0 < dirty_bytes rp \<and>
      (if reached_oep u then rp_stop rp = ReachedEntry (oep_rva u) else oep_rva u = entry_rva ?im \<and> min_partial_dirty ?lim \<le> dirty_bytes rp)"
    if u: "rp_unpacked rp = Some u" for u
  proof -
    obtain out where out: "fst (dump_pe ?im m file (case oep of Some a \<Rightarrow> a | None \<Rightarrow> entry_rva ?im) (max_dump ?lim)) = Some out"
        "u = \<lparr>un_data = out, oep_rva = (case oep of Some a \<Rightarrow> a | None \<Rightarrow> entry_rva ?im), reached_oep = (oep \<noteq> None)\<rparr>"
        "rp_stop rp = r" "dirty_bytes rp \<noteq> 0" "\<not> (oep = None \<and> dirty_bytes rp < min_partial_dirty ?lim)"
      using u unfolding assms(2) by (auto simp: finish_def ps Let_def split: option.splits if_splits)
    show ?thesis using out dump_length [OF out(1)] assms(1) by (cases oep) (simp_all add: ending_def)
  qed
  then show ?thesis using ok ex by simp
qed

lemma run_program_cases:
  assumes "run_program X file env m = Some (Done rp)"
  shows "(\<exists>r. rp = no_report r) \<or> (\<exists>st n r oep st'. run_loop n X st = Some (Over r oep st') \<and> rp = finish X file r oep st')"
proof (cases "start_run X env m")
  case (Again st)
  then obtain r oep st' where "run_loop (turns (rc_limits X)) X st = Some (Over r oep st')" "rp = finish X file r oep st'"
    using assms by (auto simp: run_program_def split: flow.splits option.splits)
  then show ?thesis by blast
qed (use assms in \<open>auto simp: run_program_def\<close>)

lemma unpack_cases:
  fixes E :: "'e emu_params"
  assumes "unpack E file lim = Some (Done rp)"
  shows "(\<exists>r. rp = no_report r) \<or> (\<exists>(X :: 'e run_ctx) st n r oep st'. parse_pe file = Some (rc_image X) \<and> rc_limits X = lim \<and>
    run_loop n X st = Some (Over r oep st') \<and> rp = finish X file r oep st')"
proof -
  have "(\<exists>r. rp = no_report r) \<or> (\<exists>(X :: 'e run_ctx) env m. parse_pe file = Some (rc_image X) \<and> rc_limits X = lim \<and> run_program X file env m = Some (Done rp))"
    using assms unfolding unpack_def by (auto split: option.splits prod.splits sum.splits)
  then show ?thesis using run_program_cases by blast
qed

text \<open>
  C14. A report holds what it claims, within its bounds. At most four further images are returned, each within the dump
  cap, each a program that parses and none a copy of the input. An unpacked image is within the cap and is
  returned only if the program rewrote part of its own image; it is marked as having reached the
  entry point only when the run stopped there, and otherwise it carries the file's own entry
  point and at least the amount required of a partial result was rewritten.
\<close>

theorem unpack_report:
  assumes "unpack E file lim = Some (Done rp)"
  shows "length (extra rp) \<le> 4 \<and> (\<forall>b \<in> set (extra rp). length b \<le> max_dump lim \<and> parse_pe b \<noteq> None \<and> \<not> same_prefix b file) \<and>
    (\<forall>u. rp_unpacked rp = Some u \<longrightarrow> length (un_data u) \<le> max_dump lim \<and> 0 < dirty_bytes rp \<and>
      (if reached_oep u then rp_stop rp = ReachedEntry (oep_rva u)
       else map_option entry_rva (parse_pe file) = Some (oep_rva u) \<and> min_partial_dirty lim \<le> dirty_bytes rp))"
proof (cases "\<exists>r. rp = no_report r")
  case True
  then show ?thesis by (auto simp: no_report_def)
next
  case False
  then obtain X :: "'a run_ctx" and st n r oep st' where
    X: "parse_pe file = Some (rc_image X)" "rc_limits X = lim" and run: "run_loop n X st = Some (Over r oep st')" "rp = finish X file r oep st'"
    using unpack_cases [OF assms] by blast
  show ?thesis using finish_report [OF run_loop_ending [OF run(1)] run(2)] X(1) unfolding X(2) by (simp add: payload_ok_def)
qed

theorem unpack_report_witness:
  "\<exists>rp. unpack demo_params demo_pe demo_limits = Some (Done rp) \<and> length (extra rp) \<le> 4 \<and>
     (\<forall>u. rp_unpacked rp = Some u \<longrightarrow> length (un_data u) \<le> 0x100000)"
proof -
  obtain rp where rp: "unpack demo_params demo_pe demo_limits = Some (Done rp)"
    using unpack_reports [OF demo_params_good, of demo_limits demo_pe] by (auto simp: demo_limits_def)
  then show ?thesis using unpack_report [OF rp] by (auto simp: demo_limits_def)
qed

end
