(* ===== verification/Spill.thy ===== *)
theory Spill
  imports Exav_Prelude
begin

text \<open>
  The temp-file budget (\<^verbatim>\<open>crates/exav/src/spill.rs\<close>): an object too large for memory goes to a
  temp file, bounded per object and, through one process-wide counter, over all the objects in
  flight. A pool of files that any number of connections create, write and drop in any order is
  a step relation; the counter is updated by a compare-and-swap, so each update is one step.

  The temp filesystem is not part of the sources: it answers each open and each write with
  success or a failure after some bytes, and the answers are a script in the state.
\<close>

section \<open>Settings and state\<close>

record spill_config =
  enabled :: bool
  threshold :: u64
  max_object :: u64
  max_total :: u64

definition default_config :: spill_config where
  "default_config =
     \<lparr>enabled = True, threshold = 16 * 1024 * 1024, max_object = 2 * 1024 * 1024 * 1024,
      max_total = 8 * 1024 * 1024 * 1024\<rparr>"

datatype spill_error = Budget string | Spill_io

record spill_file =
  f_data :: bytes
  read_back :: bool
  charged :: u64

record spill_env =
  in_use :: u64
  disk :: "nat option list"

text \<open>The filesystem's next answer: \<open>None\<close> is success, \<open>Some n\<close> a failure after \<open>n\<close> bytes.\<close>

definition disk_answer :: "spill_env \<Rightarrow> nat option \<times> spill_env" where
  "disk_answer e = (case disk e of [] \<Rightarrow> (None, e) | a # as \<Rightarrow> (a, e\<lparr>disk := as\<rparr>))"

section \<open>Messages\<close>

definition human_bytes :: "u64 \<Rightarrow> string" where
  "human_bytes w =
     (let n = unat w; kib = 1024; mib = 1024 * kib; gib = 1024 * mib in
      if gib \<le> n \<and> n mod gib = 0 then dec_string (n div gib) @ '' GiB''
      else if mib \<le> n \<and> n mod mib = 0 then dec_string (n div mib) @ '' MiB''
      else if kib \<le> n \<and> n mod kib = 0 then dec_string (n div kib) @ '' KiB''
      else dec_string n @ '' bytes'')"

section \<open>Operations\<close>

definition spill_create :: "spill_config \<Rightarrow> spill_env \<Rightarrow> (spill_error + spill_file) \<times> spill_env" where
  "spill_create cfg e =
     (if \<not> enabled cfg then
        (Inl (Budget (''object exceeds the '' @ human_bytes (threshold cfg) @
           '' that fits in memory and spilling to disk is off (--spill-dir off)'')), e)
      else case disk_answer e of
        (None, e) \<Rightarrow> (Inr \<lparr>f_data = [], read_back = False, charged = 0\<rparr>, e)
      | (Some _, e) \<Rightarrow> (Inl Spill_io, e))"

definition charge :: "spill_config \<Rightarrow> u64 \<Rightarrow> spill_file \<Rightarrow> spill_env \<Rightarrow> (spill_error + unit) \<times> spill_file \<times> spill_env" where
  "charge cfg n f e =
     (let want = saturating_add (charged f) n in
      if max_object cfg < want then
        (Inl (Budget (''object exceeds the '' @ human_bytes (max_object cfg) @ '' spill ceiling for one object'')), f, e)
      else
        let total = saturating_add (in_use e) n in
        if total \<le> max_total cfg then (Inr (), f\<lparr>charged := want\<rparr>, e\<lparr>in_use := total\<rparr>)
        else
          (Inl (Budget (''no room in the '' @ human_bytes (max_total cfg) @ '' process-wide spill budget ('' @
             human_bytes (in_use e) @ '' in use)'')), f, e))"

definition spill_write_all :: "spill_config \<Rightarrow> bytes \<Rightarrow> spill_file \<Rightarrow> spill_env \<Rightarrow> (spill_error + unit) \<times> spill_file \<times> spill_env" where
  "spill_write_all cfg bs f e =
     (case charge cfg (of_nat (length bs)) f e of
        (Inl err, f, e) \<Rightarrow> (Inl err, f, e)
      | (Inr _, f, e) \<Rightarrow>
          if read_back f then (Inl Spill_io, f, e)
          else case disk_answer e of
            (None, e) \<Rightarrow> (Inr (), f\<lparr>f_data := f_data f @ bs\<rparr>, e)
          | (Some k, e) \<Rightarrow> (Inl Spill_io, f\<lparr>f_data := f_data f @ take k bs\<rparr>, e))"

text \<open>Reading back returns the whole file from its start and refuses every later write.\<close>

definition reopen :: "spill_file \<Rightarrow> bytes \<times> spill_file" where
  "reopen f = (f_data f, f\<lparr>read_back := True\<rparr>)"

definition spill_len :: "spill_file \<Rightarrow> u64" where
  "spill_len f = of_nat (length (f_data f))"

definition spill_drop :: "spill_file \<Rightarrow> spill_env \<Rightarrow> spill_env" where
  "spill_drop f e = e\<lparr>in_use := in_use e - charged f\<rparr>"

section \<open>The pool\<close>

record pool =
  live :: "nat \<rightharpoonup> spill_file"
  env :: spill_env

inductive pool_step :: "spill_config \<Rightarrow> pool \<Rightarrow> pool \<Rightarrow> bool" for cfg where
  step_create:
    "spill_create cfg (env p) = (Inr f, e) \<Longrightarrow> live p k = None \<Longrightarrow>
     pool_step cfg p (p\<lparr>live := (live p)(k \<mapsto> f), env := e\<rparr>)"
| step_create_fails:
    "spill_create cfg (env p) = (Inl err, e) \<Longrightarrow> pool_step cfg p (p\<lparr>env := e\<rparr>)"
| step_write:
    "live p k = Some f \<Longrightarrow> length bs < 2 ^ 63 \<Longrightarrow> spill_write_all cfg bs f (env p) = (res, f', e) \<Longrightarrow>
     pool_step cfg p (p\<lparr>live := (live p)(k \<mapsto> f'), env := e\<rparr>)"
| step_reopen:
    "live p k = Some f \<Longrightarrow> reopen f = (bs, f') \<Longrightarrow> pool_step cfg p (p\<lparr>live := (live p)(k \<mapsto> f')\<rparr>)"
| step_drop:
    "live p k = Some f \<Longrightarrow> pool_step cfg p (p\<lparr>live := (live p)(k := None), env := spill_drop f (env p)\<rparr>)"

inductive pool_reach :: "spill_config \<Rightarrow> pool \<Rightarrow> bool" for cfg where
  pool_start: "pool_reach cfg \<lparr>live = Map.empty, env = \<lparr>in_use = 0, disk = script\<rparr>\<rparr>"
| pool_next: "pool_reach cfg p \<Longrightarrow> pool_step cfg p q \<Longrightarrow> pool_reach cfg q"

inductive_cases pool_stepE: "pool_step cfg p q"

definition shares :: "(nat \<rightharpoonup> spill_file) \<Rightarrow> nat" where
  "shares m = (\<Sum>k\<in>dom m. unat (charged (the (m k))))"

definition stored :: "(nat \<rightharpoonup> spill_file) \<Rightarrow> nat" where
  "stored m = (\<Sum>k\<in>dom m. length (f_data (the (m k))))"

definition file_ok :: "spill_config \<Rightarrow> spill_file \<Rightarrow> bool" where
  "file_ok cfg f \<longleftrightarrow> charged f \<le> max_object cfg \<and> length (f_data f) \<le> unat (charged f) \<and> enabled cfg"

definition pool_inv :: "spill_config \<Rightarrow> pool \<Rightarrow> bool" where
  "pool_inv cfg p \<longleftrightarrow> finite (dom (live p)) \<and> unat (in_use (env p)) = shares (live p) \<and>
     in_use (env p) \<le> max_total cfg \<and> (\<forall>f \<in> ran (live p). file_ok cfg f)"

section \<open>Accounting\<close>

lemma disk_answer_in_use: "disk_answer e = (a, e') \<Longrightarrow> in_use e' = in_use e"
  by (auto simp: disk_answer_def split: list.splits)

lemma shares_update:
  assumes "finite (dom m)"
  shows "shares (m(k \<mapsto> f)) + (case m k of None \<Rightarrow> 0 | Some g \<Rightarrow> unat (charged g)) = shares m + unat (charged f)"
proof -
  let ?g = "\<lambda>m k. unat (charged (the (m k)))"
  have "sum (?g (m(k \<mapsto> f))) (dom m - {k}) = sum (?g m) (dom m - {k})" by (rule sum.cong) auto
  then have a: "shares (m(k \<mapsto> f)) = unat (charged f) + sum (?g m) (dom m - {k})"
    using assms by (simp add: shares_def sum.insert_remove)
  show ?thesis
  proof (cases "m k")
    case None
    then show ?thesis using a by (simp add: shares_def domIff)
  next
    case (Some g)
    then have "shares m = unat (charged g) + sum (?g m) (dom m - {k})"
      using assms unfolding shares_def by (subst sum.remove [of _ k]) auto
    then show ?thesis using a Some by simp
  qed
qed

lemma shares_remove:
  assumes "finite (dom m)" "m k = Some f"
  shows "shares m = shares (m(k := None)) + unat (charged f)"
proof -
  have "m = (m(k := None))(k \<mapsto> f)" using assms(2) by (simp add: fun_upd_idem)
  moreover have "finite (dom (m(k := None)))" using assms(1) by simp
  ultimately show ?thesis using shares_update [of "m(k := None)" k f] by simp
qed

lemma saturating_add_exact:
  "saturating_add a b < - 1 \<Longrightarrow> unat (saturating_add a b) = unat a + unat b" for a b :: "'a::len word"
  by (auto simp: saturating_add_def unat_word_ariths split: if_splits)

text \<open>What a successful charge did.\<close>

lemma charge_ok:
  assumes "charge cfg n f e = (Inr (), f', e')" "max_total cfg < - 1" "unat (charged f) \<le> unat (in_use e)"
  shows "f_data f' = f_data f" "unat (charged f') = unat (charged f) + unat n" "charged f' \<le> max_object cfg"
    "unat (in_use e') = unat (in_use e) + unat n" "in_use e' \<le> max_total cfg" "disk e' = disk e"
proof -
  have tot: "in_use e' = saturating_add (in_use e) n" "saturating_add (in_use e) n \<le> max_total cfg"
    and f': "f' = f\<lparr>charged := saturating_add (charged f) n\<rparr>" "saturating_add (charged f) n \<le> max_object cfg"
    and "disk e' = disk e"
    using assms(1) by (auto simp: charge_def Let_def not_less split: if_splits)
  then show "f_data f' = f_data f" "charged f' \<le> max_object cfg" "in_use e' \<le> max_total cfg" "disk e' = disk e" by simp_all
  have "saturating_add (in_use e) n < - 1" using tot(2) assms(2) by simp
  then have s: "unat (saturating_add (in_use e) n) = unat (in_use e) + unat n" by (rule saturating_add_exact)
  then show "unat (in_use e') = unat (in_use e) + unat n" using tot by simp
  have "unat (in_use e) + unat n < 2 ^ 64" using s unat_bound [of "saturating_add (in_use e) n"] by simp
  then have "saturating_add (charged f) n = charged f + n" "unat (charged f + n) = unat (charged f) + unat n"
    using assms(3) by (simp_all add: saturating_add_def unat_word_ariths)
  then show "unat (charged f') = unat (charged f) + unat n" using f' by simp
qed

lemma charge_refused: "charge cfg n f e = (Inl err, f', e') \<Longrightarrow> f' = f \<and> e' = e \<and> (\<exists>msg. err = Budget msg)"
  by (auto simp: charge_def Let_def split: if_splits)

lemma spill_write_all_ok:
  assumes "spill_write_all cfg bs f e = (res, f', e')" "max_total cfg < - 1" "unat (charged f) \<le> unat (in_use e)"
    "length bs < 2 ^ 63" "file_ok cfg f" "in_use e \<le> max_total cfg"
  shows "file_ok cfg f'" "in_use e' \<le> max_total cfg"
    "unat (in_use e') + unat (charged f) = unat (in_use e) + unat (charged f')"
proof -
  have n: "unat (of_nat (length bs) :: u64) = length bs" using assms(4) by (intro unat_of_nat_lt) simp
  obtain r g d where c: "charge cfg (of_nat (length bs)) f e = (r, g, d)" by (cases "charge cfg (of_nat (length bs)) f e") auto
  have "file_ok cfg f' \<and> in_use e' \<le> max_total cfg \<and> unat (in_use e') + unat (charged f) = unat (in_use e) + unat (charged f')"
  proof (cases r)
    case (Inl err)
    then show ?thesis using c assms charge_refused [OF c [unfolded Inl]] by (auto simp: spill_write_all_def)
  next
    case (Inr u)
    note ok = charge_ok [OF c [unfolded Inr, simplified] assms(2,3)]
    obtain a d' where d: "disk_answer d = (a, d')" by (cases "disk_answer d") auto
    have c': "charge cfg (of_nat (length bs)) f e = (Inr (), g, d)" using c Inr by simp
    have eq: "(res, f', e') = (if read_back g then (Inl Spill_io, g, d)
        else case a of None \<Rightarrow> (Inr (), g\<lparr>f_data := f_data g @ bs\<rparr>, d')
          | Some k \<Rightarrow> (Inl Spill_io, g\<lparr>f_data := f_data g @ take k bs\<rparr>, d'))"
      unfolding assms(1) [symmetric] spill_write_all_def c' by (simp add: d)
    have in_use': "in_use e' = in_use d" and ch: "charged f' = charged g" and data: "length (f_data f') \<le> length (f_data f) + length bs"
      using eq ok(1) disk_answer_in_use [OF d] by (cases "read_back g"; cases a; simp)+
    show ?thesis using ok in_use' ch data assms(5) n unfolding file_ok_def by simp
  qed
  then show "file_ok cfg f'" "in_use e' \<le> max_total cfg"
    "unat (in_use e') + unat (charged f) = unat (in_use e) + unat (charged f')" by blast+
qed

lemma shares_ge: "finite (dom m) \<Longrightarrow> m k = Some f \<Longrightarrow> unat (charged f) \<le> shares m"
  by (simp add: shares_remove)

lemma pool_inv_start: "pool_inv cfg \<lparr>live = Map.empty, env = \<lparr>in_use = 0, disk = script\<rparr>\<rparr>"
  by (simp add: pool_inv_def shares_def)

lemma pool_inv_update:
  assumes "pool_inv cfg p" "file_ok cfg f'" "in_use e \<le> max_total cfg"
    "unat (in_use e) + (case live p k of None \<Rightarrow> 0 | Some g \<Rightarrow> unat (charged g)) = unat (in_use (env p)) + unat (charged f')"
  shows "pool_inv cfg (p\<lparr>live := (live p)(k \<mapsto> f'), env := e\<rparr>)"
proof -
  have fin: "finite (dom (live p))" and use: "unat (in_use (env p)) = shares (live p)" using assms(1) by (simp_all add: pool_inv_def)
  have "unat (in_use e) = shares ((live p)(k \<mapsto> f'))" using shares_update [OF fin, of k f'] assms(4) use by simp
  moreover have "ran ((live p)(k \<mapsto> f')) \<subseteq> insert f' (ran (live p))" by (auto simp: ran_def)
  ultimately show ?thesis using assms(1-3) unfolding pool_inv_def by auto
qed

lemma pool_inv_drop:
  assumes "pool_inv cfg p" "live p k = Some f"
  shows "pool_inv cfg (p\<lparr>live := (live p)(k := None), env := spill_drop f (env p)\<rparr>)"
proof -
  have fin: "finite (dom (live p))" and use: "unat (in_use (env p)) = shares (live p)" and tot: "in_use (env p) \<le> max_total cfg"
    using assms(1) by (simp_all add: pool_inv_def)
  have sh: "shares (live p) = shares ((live p)(k := None)) + unat (charged f)" by (rule shares_remove [OF fin assms(2)])
  then have le: "charged f \<le> in_use (env p)" using use by (simp add: word_le_nat_alt)
  then have u: "unat (in_use (env p) - charged f) = unat (in_use (env p)) - unat (charged f)" by (rule unat_sub)
  then have "in_use (env p) - charged f \<le> max_total cfg" using tot by (simp add: word_le_nat_alt)
  moreover have "ran ((live p)(k := None)) \<subseteq> ran (live p)" by (auto simp: ran_def)
  ultimately show ?thesis using assms(1) u use sh unfolding pool_inv_def by (auto simp: spill_drop_def)
qed

lemma pool_inv_step:
  assumes "pool_step cfg p q" "max_total cfg < - 1" "pool_inv cfg p"
  shows "pool_inv cfg q"
  using assms(1)
proof cases
  case (step_create f e k)
  then have "f = \<lparr>f_data = [], read_back = False, charged = 0\<rparr>" "in_use e = in_use (env p)" "enabled cfg"
    by (auto simp: spill_create_def dest: disk_answer_in_use split: if_splits prod.splits option.splits)
  then show ?thesis using step_create assms(3)
    by (simp only:, intro pool_inv_update) (simp_all add: file_ok_def pool_inv_def)
next
  case (step_create_fails err e)
  then have "in_use e = in_use (env p)"
    by (auto simp: spill_create_def dest: disk_answer_in_use split: if_splits prod.splits option.splits)
  then show ?thesis using step_create_fails assms(3) by (simp add: pool_inv_def)
next
  case (step_write k f bs res f' e)
  have fin: "finite (dom (live p))" and use: "unat (in_use (env p)) = shares (live p)"
    and tot: "in_use (env p) \<le> max_total cfg" and ok: "file_ok cfg f"
    using assms(3) step_write(2) by (auto simp: pool_inv_def ran_def)
  have le: "unat (charged f) \<le> unat (in_use (env p))" using shares_ge [OF fin step_write(2)] use by simp
  show ?thesis
    using spill_write_all_ok [OF step_write(4) assms(2) le step_write(3) ok tot] assms(3) step_write
    by (simp only:, intro pool_inv_update) simp_all
next
  case (step_reopen k f bs f')
  have "file_ok cfg f" using assms(3) step_reopen(2) by (auto simp: pool_inv_def ran_def)
  then have "pool_inv cfg (p\<lparr>live := (live p)(k \<mapsto> f'), env := env p\<rparr>)"
    using assms(3) step_reopen by (intro pool_inv_update) (auto simp: pool_inv_def reopen_def file_ok_def)
  then show ?thesis using step_reopen(1) by simp
next
  case (step_drop k f)
  then show ?thesis using pool_inv_drop [OF assms(3)] by simp
qed

lemma pool_inv_reach:
  assumes "pool_reach cfg p" "max_total cfg < - 1"
  shows "pool_inv cfg p"
  using assms by (induction rule: pool_reach.induct) (auto intro: pool_inv_start pool_inv_step)

lemma stored_le_shares:
  "finite (dom m) \<Longrightarrow> \<forall>f \<in> ran m. length (f_data f) \<le> unat (charged f) \<Longrightarrow> stored m \<le> shares m"
  unfolding stored_def shares_def by (intro sum_mono) (auto simp: ran_def)

text \<open>
  C33. In whatever order connections create, write, read back and drop spill files, and however
  the temp filesystem fails, the process-wide counter is the sum of what the live files were
  charged, the bytes on disk are covered by it and never exceed the configured total, no file
  exceeds the per-object ceiling, the counter is back at zero once every file is dropped, and with
  spilling off there is never a file.
\<close>

theorem spill_budget:
  assumes "pool_reach cfg p" "max_total cfg < - 1"
  shows "unat (in_use (env p)) = shares (live p) \<and> stored (live p) \<le> unat (max_total cfg) \<and>
    (\<forall>k f. live p k = Some f \<longrightarrow> length (f_data f) \<le> unat (max_object cfg)) \<and>
    (live p = Map.empty \<longrightarrow> in_use (env p) = 0) \<and> (\<not> enabled cfg \<longrightarrow> live p = Map.empty)"
proof -
  have inv: "pool_inv cfg p" using assms by (rule pool_inv_reach)
  then have fin: "finite (dom (live p))" and use: "unat (in_use (env p)) = shares (live p)" and tot: "in_use (env p) \<le> max_total cfg"
    and ok: "\<And>k f. live p k = Some f \<Longrightarrow> file_ok cfg f" by (auto simp: pool_inv_def ran_def)
  have "stored (live p) \<le> shares (live p)" using ok by (intro stored_le_shares [OF fin]) (auto simp: ran_def file_ok_def)
  then have "stored (live p) \<le> unat (max_total cfg)" using use tot by (simp add: word_le_nat_alt)
  moreover have "length (f_data f) \<le> unat (max_object cfg)" if "live p k = Some f" for k f
    using ok [OF that] by (auto simp: file_ok_def word_le_nat_alt)
  moreover have "live p = Map.empty \<Longrightarrow> in_use (env p) = 0" using use by (simp add: shares_def unat_eq_0)
  moreover have "\<not> enabled cfg \<Longrightarrow> live p = Map.empty" using ok by (auto simp: file_ok_def fun_eq_iff) (metis not_Some_eq)
  ultimately show ?thesis using use by blast
qed

definition demo_pool :: pool where
  "demo_pool = \<lparr>live = [0 \<mapsto> \<lparr>f_data = [], read_back = False, charged = 0\<rparr>], env = \<lparr>in_use = 0, disk = []\<rparr>\<rparr>"

theorem spill_budget_witness: "stored (live demo_pool) \<le> 8 * 1024 * 1024 * 1024"
proof -
  have "spill_create default_config \<lparr>in_use = 0, disk = []\<rparr> = (Inr \<lparr>f_data = [], read_back = False, charged = 0\<rparr>, \<lparr>in_use = 0, disk = []\<rparr>)"
    by (simp add: spill_create_def default_config_def disk_answer_def)
  then have "pool_step default_config \<lparr>live = Map.empty, env = \<lparr>in_use = 0, disk = []\<rparr>\<rparr> demo_pool"
    using step_create [of default_config "\<lparr>live = Map.empty, env = \<lparr>in_use = 0, disk = []\<rparr>\<rparr>" _ _ 0] by (simp add: demo_pool_def)
  then have "pool_reach default_config demo_pool" by (rule pool_next [OF pool_start])
  from spill_budget [OF this] show ?thesis by (simp add: default_config_def)
qed

end
