(* ===== verification/Icap_Chunked.thy ===== *)
theory Icap_Chunked
  imports Spill
begin

text \<open>
  The chunked-body decoder of the ICAP listener and its encoders
  (\<^verbatim>\<open>crates/exav/src/icap/chunked.rs\<close>), with the body buffer that spills past a threshold.

  The transport is a list of the pieces it delivers: \<open>Data\<close> with the bytes one \<^verbatim>\<open>fill_buf\<close> makes
  available, \<open>Fail\<close> an I/O error. An empty piece, or no piece at all, is the end of the stream.
  Every claim below holds for every way of cutting a stream into pieces.
\<close>

section \<open>The reader\<close>

datatype segment = Data bytes | Fail
type_synonym reader = "segment list"

abbreviation LF :: u8 where "LF \<equiv> 0x0A"
abbreviation CR :: u8 where "CR \<equiv> 0x0D"

definition consume :: "nat \<Rightarrow> bytes \<Rightarrow> reader \<Rightarrow> reader" where
  "consume n buf r = (if length buf \<le> n then r else Data (drop n buf) # r)"

fun position :: "('a \<Rightarrow> bool) \<Rightarrow> 'a list \<Rightarrow> nat option" where
  "position P [] = None"
| "position P (x # xs) = (if P x then Some 0 else map_option Suc (position P xs))"

text \<open>One \<^verbatim>\<open>read\<close> of at most \<open>want\<close> bytes; \<open>None\<close> is an I/O error, no bytes the end.\<close>

fun read_some :: "nat \<Rightarrow> reader \<Rightarrow> bytes option \<times> reader" where
  "read_some want [] = (Some [], [])"
| "read_some want (Fail # r) = (None, r)"
| "read_some want (Data bs # r) = (Some (take want bs), consume want bs r)"

datatype io_error = Unexpected_eof | Line_too_long | Transport | Temp_file

fun read_line_from :: "bytes \<Rightarrow> nat \<Rightarrow> reader \<Rightarrow> (io_error + bytes option) \<times> reader" where
  "read_line_from out mx [] = (if out = [] then Inr None else Inl Unexpected_eof, [])"
| "read_line_from out mx (Fail # r) = (Inl Transport, r)"
| "read_line_from out mx (Data buf # r) =
     (if buf = [] then (if out = [] then Inr None else Inl Unexpected_eof, r)
      else case position (\<lambda>b. b = LF) buf of
        Some i \<Rightarrow> (Inr (Some (out @ take (Suc i) buf)), consume (Suc i) buf r)
      | None \<Rightarrow>
          if mx < length (out @ buf) then (Inl Line_too_long, r)
          else read_line_from (out @ buf) mx r)"

definition read_line :: "nat \<Rightarrow> reader \<Rightarrow> (io_error + bytes option) \<times> reader" where
  "read_line mx r = read_line_from [] mx r"

definition strip_last :: "u8 \<Rightarrow> bytes \<Rightarrow> bytes" where
  "strip_last b line = (if line \<noteq> [] \<and> last line = b then butlast line else line)"

definition trim_eol :: "bytes \<Rightarrow> bytes" where
  "trim_eol line = strip_last CR (strip_last LF line)"

section \<open>The body buffer\<close>

record body =
  ram :: bytes
  spill :: "spill_file option"
  b_len :: u64

definition body_new :: body where
  "body_new = \<lparr>ram = [], spill = None, b_len = 0\<rparr>"

datatype write_res = WOk | WErr spill_error | WPanic

definition sub_chk :: "u64 \<Rightarrow> u64 \<Rightarrow> u64 option" where
  "sub_chk a b = (if b \<le> a then Some (a - b) else None)"

text \<open>\<^verbatim>\<open>Body::write\<close> once a spill file exists.\<close>

definition body_append :: "spill_config \<Rightarrow> bytes \<Rightarrow> spill_file \<Rightarrow> body \<Rightarrow> spill_env \<Rightarrow> write_res \<times> body \<times> spill_env" where
  "body_append cfg bs tmp b e =
     (case spill_write_all cfg bs tmp e of
        (Inl err, tmp, e) \<Rightarrow> (WErr err, b\<lparr>spill := Some tmp\<rparr>, e)
      | (Inr _, tmp, e) \<Rightarrow>
          (case add_chk (b_len b) (of_nat (length bs)) of
             None \<Rightarrow> (WPanic, b\<lparr>spill := Some tmp\<rparr>, e)
           | Some n \<Rightarrow> (WOk, b\<lparr>spill := Some tmp, b_len := n\<rparr>, e)))"

definition body_write :: "spill_config \<Rightarrow> bytes \<Rightarrow> body \<Rightarrow> spill_env \<Rightarrow> write_res \<times> body \<times> spill_env" where
  "body_write cfg bs b e =
     (case spill b of
        Some tmp \<Rightarrow> body_append cfg bs tmp b e
      | None \<Rightarrow>
          (case sub_chk (threshold cfg) (of_nat (length (ram b))) of
             None \<Rightarrow> (WPanic, b, e)
           | Some room \<Rightarrow>
               if length bs \<le> unat room then
                 (case add_chk (b_len b) (of_nat (length bs)) of
                    None \<Rightarrow> (WPanic, b\<lparr>ram := ram b @ bs\<rparr>, e)
                  | Some n \<Rightarrow> (WOk, b\<lparr>ram := ram b @ bs, b_len := n\<rparr>, e))
               else
                 (let fits = take (unat room) bs; rest = drop (unat room) bs;
                      b = b\<lparr>ram := ram b @ fits\<rparr> in
                  case add_chk (b_len b) (of_nat (length fits)) of
                    None \<Rightarrow> (WPanic, b, e)
                  | Some n \<Rightarrow>
                      (let b = b\<lparr>b_len := n\<rparr> in
                       case spill_create cfg e of
                         (Inl err, e) \<Rightarrow> (WErr err, b, e)
                       | (Inr tmp, e) \<Rightarrow>
                           (case spill_write_all cfg (ram b) tmp e of
                              (Inl err, tmp, e) \<Rightarrow> (WErr err, b, spill_drop tmp e)
                            | (Inr _, tmp, e) \<Rightarrow> body_append cfg rest tmp (b\<lparr>spill := Some tmp\<rparr>) e)))))"

datatype stream_payload = Mem bytes | Disk spill_file u64

definition body_finish :: "body \<Rightarrow> stream_payload" where
  "body_finish b = (case spill b of None \<Rightarrow> Mem (ram b) | Some tmp \<Rightarrow> Disk tmp (spill_len tmp))"

definition payload_bytes :: "stream_payload \<Rightarrow> bytes" where
  "payload_bytes p = (case p of Mem v \<Rightarrow> v | Disk tmp _ \<Rightarrow> fst (reopen tmp))"

section \<open>Chunk headers\<close>

datatype body_end = Eof | Ieof
datatype body_error = Malformed string | Body_io io_error

record body_outcome =
  o_end :: body_end
  over_limit :: bool
  abandoned :: bool
  rejected :: "string option"
  total :: u64

definition MAX_CHUNK_LINE :: nat where "MAX_CHUNK_LINE = 1024"
definition MAX_TRAILER_LINES :: nat where "MAX_TRAILER_LINES = 32"

definition is_ws :: "u8 \<Rightarrow> bool" where
  "is_ws b \<longleftrightarrow> b \<in> {0x09, 0x0A, 0x0C, 0x0D, 0x20}"

definition trim_ascii :: "bytes \<Rightarrow> bytes" where
  "trim_ascii bs = rev (dropWhile is_ws (rev (dropWhile is_ws bs)))"

definition hex_val :: "u8 \<Rightarrow> nat option" where
  "hex_val b =
     (if 0x30 \<le> b \<and> b \<le> 0x39 then Some (unat b - 0x30)
      else if 0x41 \<le> b \<and> b \<le> 0x46 then Some (unat b - 0x41 + 10)
      else if 0x61 \<le> b \<and> b \<le> 0x66 then Some (unat b - 0x61 + 10)
      else None)"

definition hex_num :: "bytes \<Rightarrow> nat" where
  "hex_num bs = foldl (\<lambda>a b. 16 * a + the (hex_val b)) 0 bs"

definition parse_chunk_size :: "bytes \<Rightarrow> body_error + u64" where
  "parse_chunk_size text =
     (let text = trim_ascii text in
      if text = [] then Inl (Malformed ''empty chunk size'')
      else if 16 < length text \<or> \<not> list_all (\<lambda>b. hex_val b \<noteq> None) text then Inl (Malformed ''malformed chunk size'')
      else if hex_num text < 2 ^ 64 then Inr (of_nat (hex_num text))
      else Inl (Malformed ''malformed chunk size''))"

definition lower :: "u8 \<Rightarrow> u8" where
  "lower b = (if 0x41 \<le> b \<and> b \<le> 0x5A then b + 0x20 else b)"

fun split_on :: "('a \<Rightarrow> bool) \<Rightarrow> 'a list \<Rightarrow> 'a list list" where
  "split_on P [] = [[]]"
| "split_on P (x # xs) =
     (if P x then [] # split_on P xs
      else case split_on P xs of [] \<Rightarrow> [[x]] | y # ys \<Rightarrow> (x # y) # ys)"

definition has_ieof :: "bytes \<Rightarrow> bool" where
  "has_ieof ext = list_ex (\<lambda>t. map lower (trim_ascii t) = [0x69, 0x65, 0x6F, 0x66]) (split_on (\<lambda>b. b = 0x3B) ext)"

definition split_header :: "bytes \<Rightarrow> bytes \<times> bytes" where
  "split_header line =
     (case position (\<lambda>b. b = 0x3B) line of
        Some i \<Rightarrow> (take i line, drop (Suc i) line)
      | None \<Rightarrow> (line, []))"

fun trailer_lines :: "nat \<Rightarrow> reader \<Rightarrow> (body_error + unit) \<times> reader" where
  "trailer_lines 0 r = (Inl (Malformed ''trailer section too long''), r)"
| "trailer_lines (Suc n) r =
     (case read_line MAX_CHUNK_LINE r of
        (Inl e, r) \<Rightarrow> (Inl (Body_io e), r)
      | (Inr None, r) \<Rightarrow> (Inr (), r)
      | (Inr (Some line), r) \<Rightarrow> if trim_eol line = [] then (Inr (), r) else trailer_lines n r)"

definition read_trailer :: "reader \<Rightarrow> (body_error + unit) \<times> reader" where
  "read_trailer r = trailer_lines MAX_TRAILER_LINES r"

section \<open>Chunk data\<close>

fun seg_size :: "segment \<Rightarrow> nat" where
  "seg_size (Data bs) = Suc (length bs)"
| "seg_size Fail = 1"

definition stream_size :: "reader \<Rightarrow> nat" where
  "stream_size r = sum_list (map seg_size r)"

lemma stream_size_consume: "0 < n \<Longrightarrow> bs \<noteq> [] \<Longrightarrow> stream_size (consume n bs r) < stream_size (Data bs # r)"
  by (auto simp: consume_def stream_size_def)

lemma read_some_shrinks:
  assumes "read_some want r = (Some got, r')" "got \<noteq> []"
  shows "stream_size r' < stream_size r"
  using assms by (cases "(want, r)" rule: read_some.cases) (auto intro!: stream_size_consume)

definition SINK :: u64 where "SINK = 16 * 1024"

datatype keep_res = KDone | KRejected string u64 | KErr body_error | KPanic

text \<open>The copy through the fixed buffer; a refused budget reports what was still unread.\<close>

function keep_loop :: "spill_config \<Rightarrow> u64 \<Rightarrow> body \<Rightarrow> spill_env \<Rightarrow> reader \<Rightarrow> keep_res \<times> body \<times> spill_env \<times> reader" where
  "keep_loop cfg keep b e r =
     (if keep = 0 then (KDone, b, e, r)
      else case read_some (unat (min keep SINK)) r of
        (None, r) \<Rightarrow> (KErr (Body_io Transport), b, e, r)
      | (Some got, r') \<Rightarrow>
          if got = [] then (KErr (Malformed ''chunk shorter than its declared size''), b, e, r')
          else case body_write cfg got b e of
            (WOk, b, e) \<Rightarrow> keep_loop cfg (keep - of_nat (length got)) b e r'
          | (WErr Spill_io, b, e) \<Rightarrow> (KErr (Body_io Temp_file), b, e, r')
          | (WErr (Budget reason), b, e) \<Rightarrow> (KRejected reason (keep - of_nat (length got)), b, e, r')
          | (WPanic, b, e) \<Rightarrow> (KPanic, b, e, r'))"
  by pat_completeness auto
termination
  by (relation "measure (\<lambda>(cfg, keep, b, e, r). stream_size r)") (auto dest: read_some_shrinks [OF sym])

declare keep_loop.simps [simp del]

function discard_loop :: "u64 \<Rightarrow> reader \<Rightarrow> (body_error + unit) \<times> reader" where
  "discard_loop discard r =
     (if discard = 0 then (Inr (), r)
      else case read_some (unat (min discard SINK)) r of
        (None, r) \<Rightarrow> (Inl (Body_io Transport), r)
      | (Some got, r') \<Rightarrow>
          if got = [] then (Inl (Malformed ''chunk shorter than its declared size''), r')
          else discard_loop (discard - of_nat (length got)) r')"
  by pat_completeness auto
termination
  by (relation "measure (\<lambda>(discard, r). stream_size r)") (auto dest: read_some_shrinks [OF sym])

declare discard_loop.simps [simp del]

section \<open>The decoder\<close>

record chunk_decoder =
  d_over :: bool
  drained :: u64
  d_rejected :: "string option"
  d_total :: u64

datatype decode_result = Outcome body_outcome | DErr body_error | DPanic
datatype progress = Ended decode_result | More chunk_decoder

definition charge_drain :: "u64 \<Rightarrow> u64 \<Rightarrow> u64 \<Rightarrow> bool \<times> u64" where
  "charge_drain drain_limit n dr =
     (if n = 0 then (True, dr) else let d = saturating_add dr n in (d \<le> drain_limit, d))"

definition abandon :: "chunk_decoder \<Rightarrow> decode_result" where
  "abandon d = Outcome \<lparr>o_end = Eof, over_limit = True, abandoned = True, rejected = d_rejected d, total = d_total d\<rparr>"

text \<open>What follows the data of a chunk: the rest of it is dropped and its line end checked.\<close>

definition chunk_tail :: "u64 \<Rightarrow> chunk_decoder \<Rightarrow> reader \<Rightarrow> progress \<times> reader" where
  "chunk_tail discard d r =
     (case discard_loop discard r of
        (Inl err, r) \<Rightarrow> (Ended (DErr err), r)
      | (Inr _, r) \<Rightarrow>
          (case read_line 64 r of
             (Inl err, r) \<Rightarrow> (Ended (DErr (Body_io err)), r)
           | (Inr None, r) \<Rightarrow> (Ended (DErr (Malformed ''chunk not terminated'')), r)
           | (Inr (Some eol), r) \<Rightarrow>
               if trim_eol eol \<noteq> [] then (Ended (DErr (Malformed ''chunk data overruns its declared size'')), r)
               else (More d, r)))"

text \<open>How much of a chunk is kept, and the charge for what is not.\<close>

definition kept :: "u64 \<Rightarrow> chunk_decoder \<Rightarrow> body \<Rightarrow> u64 \<Rightarrow> u64" where
  "kept limit d b sz = (if d_rejected d \<noteq> None then 0 else min (saturating_sub limit (b_len b)) sz)"

definition charge_discard :: "u64 \<Rightarrow> u64 \<Rightarrow> chunk_decoder \<Rightarrow> bool \<times> chunk_decoder" where
  "charge_discard drain_limit n d =
     (case charge_drain drain_limit n (drained d) of
        (ok, dr) \<Rightarrow> (ok, if n = 0 then d else d\<lparr>d_over := True, drained := dr\<rparr>))"

definition chunk_data :: "spill_config \<Rightarrow> u64 \<Rightarrow> u64 \<Rightarrow> u64 \<Rightarrow> chunk_decoder \<Rightarrow> body \<Rightarrow> spill_env \<Rightarrow> reader
    \<Rightarrow> progress \<times> body \<times> spill_env \<times> reader" where
  "chunk_data cfg limit drain_limit sz d b e r =
     (let keep = kept limit d b sz; discard = sz - keep in
      case charge_discard drain_limit discard (d\<lparr>d_total := saturating_add (d_total d) sz\<rparr>) of (ok, d) \<Rightarrow>
      if \<not> ok then (Ended (abandon d), b, e, r)
      else case keep_loop cfg keep b e r of
        (KDone, b, e, r) \<Rightarrow> (case chunk_tail discard d r of (p, r) \<Rightarrow> (p, b, e, r))
      | (KErr err, b, e, r) \<Rightarrow> (Ended (DErr err), b, e, r)
      | (KPanic, b, e, r) \<Rightarrow> (Ended DPanic, b, e, r)
      | (KRejected reason unread, b, e, r) \<Rightarrow>
          (case charge_discard drain_limit unread (d\<lparr>d_rejected := Some reason, d_over := True\<rparr>) of (ok, d) \<Rightarrow>
           if \<not> ok then (Ended (abandon d), b, e, r)
           else case chunk_tail (discard + unread) d r of (p, r) \<Rightarrow> (p, b, e, r)))"

definition chunk_step :: "spill_config \<Rightarrow> u64 \<Rightarrow> u64 \<Rightarrow> chunk_decoder \<Rightarrow> body \<Rightarrow> spill_env \<Rightarrow> reader
    \<Rightarrow> progress \<times> body \<times> spill_env \<times> reader" where
  "chunk_step cfg limit drain_limit d b e r =
     (case read_line MAX_CHUNK_LINE r of
        (Inl err, r) \<Rightarrow> (Ended (DErr (Body_io err)), b, e, r)
      | (Inr None, r) \<Rightarrow> (Ended (DErr (Malformed ''stream ended before the last chunk'')), b, e, r)
      | (Inr (Some line), r) \<Rightarrow>
          (case split_header (trim_eol line) of (size_text, ext) \<Rightarrow>
           case parse_chunk_size size_text of
             Inl err \<Rightarrow> (Ended (DErr err), b, e, r)
           | Inr sz \<Rightarrow>
               if sz = 0 then
                 (case read_trailer r of
                    (Inl err, r) \<Rightarrow> (Ended (DErr err), b, e, r)
                  | (Inr _, r) \<Rightarrow>
                      (Ended (Outcome \<lparr>o_end = (if has_ieof ext then Ieof else Eof), over_limit = d_over d,
                         abandoned = False, rejected = d_rejected d, total = d_total d\<rparr>), b, e, r))
               else chunk_data cfg limit drain_limit sz d b e r))"

text \<open>The loop, by fuel; \<open>None\<close> is running out of it.\<close>

fun chunk_loop :: "nat \<Rightarrow> spill_config \<Rightarrow> u64 \<Rightarrow> u64 \<Rightarrow> chunk_decoder \<Rightarrow> body \<Rightarrow> spill_env \<Rightarrow> reader
    \<Rightarrow> (decode_result \<times> body \<times> spill_env \<times> reader) option" where
  "chunk_loop 0 cfg limit drain_limit d b e r = None"
| "chunk_loop (Suc n) cfg limit drain_limit d b e r =
     (case chunk_step cfg limit drain_limit d b e r of
        (Ended res, b, e, r) \<Rightarrow> Some (res, b, e, r)
      | (More d, b, e, r) \<Rightarrow> chunk_loop n cfg limit drain_limit d b e r)"

definition decoder_start :: chunk_decoder where
  "decoder_start = \<lparr>d_over = False, drained = 0, d_rejected = None, d_total = 0\<rparr>"

definition limit_of :: "u64 option \<Rightarrow> u64" where
  "limit_of limit = (case limit of None \<Rightarrow> - 1 | Some l \<Rightarrow> l)"

definition read_chunked_body :: "spill_config \<Rightarrow> u64 option \<Rightarrow> u64 \<Rightarrow> body \<Rightarrow> spill_env \<Rightarrow> reader
    \<Rightarrow> (decode_result \<times> body \<times> spill_env \<times> reader) option" where
  "read_chunked_body cfg limit drain_limit b e r =
     chunk_loop (Suc (stream_size r)) cfg (limit_of limit) drain_limit decoder_start b e r"

section \<open>The encoders\<close>

definition hex_digit :: "nat \<Rightarrow> u8" where
  "hex_digit k = (if k < 10 then of_nat (0x30 + k) else of_nat (0x57 + k))"

fun hex_bytes :: "nat \<Rightarrow> bytes" where
  "hex_bytes n = (if n < 16 then [hex_digit n] else hex_bytes (n div 16) @ [hex_digit (n mod 16)])"

declare hex_bytes.simps [simp del]

definition CRLF :: bytes where "CRLF = [CR, LF]"

definition chunk_frame :: "bytes \<Rightarrow> bytes" where
  "chunk_frame c = hex_bytes (length c) @ CRLF @ c @ CRLF"

definition last_chunk :: bytes where "last_chunk = [0x30] @ CRLF @ CRLF"

definition encode :: "bytes \<Rightarrow> bytes" where
  "encode body = (if body = [] then [] else chunk_frame body) @ last_chunk"

definition BLOCK :: nat where "BLOCK = 64 * 1024"

text \<open>
  The blocks that one read after the other returns. A read may return less than the buffer
  holds: \<open>sizes\<close> says how much each one does, up to the buffer and at least a byte.
\<close>

definition block_size :: "nat list \<Rightarrow> nat" where
  "block_size sizes = (case sizes of [] \<Rightarrow> BLOCK | n # _ \<Rightarrow> max 1 (min n BLOCK))"

lemma block_size_pos: "0 < block_size sizes"
  by (auto simp: block_size_def BLOCK_def split: list.splits)

function blocks :: "nat list \<Rightarrow> bytes \<Rightarrow> bytes list" where
  "blocks sizes bs =
     (if bs = [] then [] else take (block_size sizes) bs # blocks (tl sizes) (drop (block_size sizes) bs))"
  by pat_completeness auto
termination
  by (relation "measure (\<lambda>(sizes, bs). length bs)") (auto simp: block_size_pos)

declare blocks.simps [simp del]

definition encode_into :: "nat list \<Rightarrow> stream_payload \<Rightarrow> bytes" where
  "encode_into sizes p = concat (map chunk_frame (blocks sizes (payload_bytes p))) @ last_chunk"

end
