(* ===== verification/Icap_Chunked_Props.thy ===== *)
theory Icap_Chunked_Props
  imports Icap_Chunked
begin

text \<open>
  What the chunked decoder accepts and keeps. Its reader lemmas hold for every segmentation of the
  stream; the decoder is then related to a grammar of framed text, in both directions, and the
  encoders' output is shown to decode to what was encoded.
\<close>

section \<open>Streams\<close>

fun seg_bytes :: "segment \<Rightarrow> bytes" where
  "seg_bytes (Data bs) = bs"
| "seg_bytes Fail = []"

definition stream :: "reader \<Rightarrow> bytes" where
  "stream r = concat (map seg_bytes r)"

fun seg_clean :: "segment \<Rightarrow> bool" where
  "seg_clean (Data bs) = (bs \<noteq> [])"
| "seg_clean Fail = False"

text \<open>A transport that neither fails nor ends early.\<close>

definition clean :: "reader \<Rightarrow> bool" where
  "clean r = list_all seg_clean r"

lemma stream_simps [simp]: "stream [] = []" "stream (s # r) = seg_bytes s @ stream r"
  by (simp_all add: stream_def)

lemma clean_simps [simp]: "clean []" "clean (s # r) \<longleftrightarrow> seg_clean s \<and> clean r"
  by (simp_all add: clean_def)

lemma stream_consume [simp]: "stream (consume n bs r) = drop n bs @ stream r"
  by (simp add: consume_def)

lemma clean_consume [simp]: "clean r \<Longrightarrow> clean (consume n bs r)"
  by (simp add: consume_def)

lemma position_eq: "position (\<lambda>b. b = c) xs = (if c \<in> set xs then Some (length (takeWhile (\<lambda>b. b \<noteq> c) xs)) else None)"
  by (induction xs) auto

lemma position_split: "position (\<lambda>b. b = c) xs = Some i \<Longrightarrow> \<exists>l t. xs = l @ c # t \<and> c \<notin> set l \<and> i = length l"
proof (induction xs arbitrary: i)
  case (Cons x xs)
  show ?case
  proof (cases "x = c")
    case True
    then show ?thesis using Cons.prems by (intro exI [of _ "[]"] exI [of _ xs]) auto
  next
    case False
    then obtain j where "position (\<lambda>b. b = c) xs = Some j" "i = Suc j" using Cons.prems by auto
    with Cons.IH obtain l t where "xs = l @ c # t" "c \<notin> set l" "j = length l" by blast
    then show ?thesis using False \<open>i = Suc j\<close> by (intro exI [of _ "x # l"] exI [of _ t]) auto
  qed
qed simp

lemma position_at: "c \<notin> set l \<Longrightarrow> position (\<lambda>b. b = c) (l @ c # t) = Some (length l)"
  by (induction l) auto

lemma position_none: "c \<notin> set l \<Longrightarrow> position (\<lambda>b. b = c) l = None"
  by (simp add: position_eq)

lemma read_line_from_sound:
  assumes "read_line_from out mx r = (Inr (Some line), r')" "LF \<notin> set out"
  shows "\<exists>l. line = out @ l @ [LF] \<and> LF \<notin> set l \<and> stream r = l @ LF # stream r' \<and> (clean r \<longrightarrow> clean r') \<and> stream_size r' < stream_size r"
  using assms
proof (induction out mx r rule: read_line_from.induct)
  case (3 out mx buf r)
  show ?case
  proof (cases "position (\<lambda>b. b = LF) buf")
    case None
    then have nl: "LF \<notin> set buf" by (auto simp: position_eq split: if_splits)
    have ne: "buf \<noteq> []" and le: "\<not> mx < length (out @ buf)" and rec: "read_line_from (out @ buf) mx r = (Inr (Some line), r')"
      using "3.prems"(1) None by (auto split: if_splits)
    obtain l where "line = (out @ buf) @ l @ [LF]" "LF \<notin> set l" "stream r = l @ LF # stream r'" "clean r \<longrightarrow> clean r'"
      "stream_size r' < stream_size r"
      using "3.IH" [OF ne None le rec] "3.prems"(2) nl by auto
    then show ?thesis using nl by (intro exI [of _ "buf @ l"]) (auto simp: stream_size_def)
  next
    case (Some i)
    obtain l t where b: "buf = l @ LF # t" "LF \<notin> set l" "i = length l" using position_split [OF Some] by blast
    have "stream_size (consume (Suc i) buf r) < stream_size (Data buf # r)" using b by (intro stream_size_consume) auto
    then show ?thesis using "3.prems"(1) Some b by auto
  qed
qed (auto split: if_splits)

lemma read_line_sound:
  assumes "read_line mx r = (Inr (Some line), r')"
  obtains l where "line = l @ [LF]" "LF \<notin> set l" "stream r = l @ LF # stream r'" "clean r \<Longrightarrow> clean r'" "stream_size r' < stream_size r"
  using read_line_from_sound [of "[]" mx r line r'] assms unfolding read_line_def by auto

lemma read_line_from_complete:
  assumes "clean r" "stream r = l @ LF # rest" "LF \<notin> set l" "length out + length l \<le> mx"
  shows "\<exists>r'. read_line_from out mx r = (Inr (Some (out @ l @ [LF])), r') \<and> clean r' \<and> stream r' = rest"
  using assms
proof (induction out mx r arbitrary: l rule: read_line_from.induct)
  case (3 out mx buf r)
  have ne: "buf \<noteq> []" and cl: "clean r" and eq: "buf @ stream r = l @ LF # rest" using "3.prems" by auto
  from eq consider (in_buf) t where "buf = l @ LF # t" "rest = t @ stream r" | (later) l' where "l = buf @ l'" "stream r = l' @ LF # rest"
    by (auto simp: append_eq_append_conv2 append_eq_Cons_conv)
  then show ?case
  proof cases
    case in_buf
    then show ?thesis using "3.prems" ne by (simp add: position_at)
  next
    case later
    then have pn: "position (\<lambda>b. b = LF) buf = None" using "3.prems"(3) by (intro position_none) auto
    have le: "\<not> mx < length (out @ buf)" using later "3.prems"(4) by simp
    show ?thesis using "3.IH" [OF ne pn le cl later(2)] later "3.prems"(3,4) ne pn by auto
  qed
qed auto

lemma read_line_complete:
  assumes "clean r" "stream r = l @ LF # rest" "LF \<notin> set l" "length l \<le> mx"
  obtains r' where "read_line mx r = (Inr (Some (l @ [LF])), r')" "clean r'" "stream r' = rest"
  using read_line_from_complete [of r l rest "[]" mx] assms unfolding read_line_def by auto

lemma trim_eol_line: "trim_eol (l @ [LF]) = strip_last CR l"
  by (simp add: trim_eol_def strip_last_def)

lemma trim_eol_blank: "trim_eol (l @ [LF]) = [] \<longleftrightarrow> l = [] \<or> l = [CR]"
  unfolding trim_eol_line by (cases l rule: rev_cases) (auto simp: strip_last_def)

lemma read_some_stream: "read_some want r = (Some got, r') \<Longrightarrow> stream r = got @ stream r' \<and> (clean r \<longrightarrow> clean r') \<and> length got \<le> want"
  by (cases "(want, r)" rule: read_some.cases) auto

lemma read_some_clean:
  assumes "clean r" "stream r \<noteq> []" "0 < want"
  obtains got r' where "read_some want r = (Some got, r')" "got \<noteq> []"
  using assms by (cases "(want, r)" rule: read_some.cases) auto

section \<open>The body buffer\<close>

definition content :: "body \<Rightarrow> bytes" where
  "content b = (case spill b of None \<Rightarrow> ram b | Some f \<Rightarrow> f_data f)"

definition body_inv :: "spill_config \<Rightarrow> body \<Rightarrow> bool" where
  "body_inv cfg b \<longleftrightarrow> length (ram b) \<le> unat (threshold cfg) \<and> unat (b_len b) = length (content b)"

lemma body_new_inv [simp]: "body_inv cfg body_new" "content body_new = []"
  by (simp_all add: body_inv_def body_new_def content_def)

lemma spill_write_all_data:
  assumes "spill_write_all cfg bs f e = (res, f', e')"
  shows "res = Inr () \<Longrightarrow> f_data f' = f_data f @ bs" "res = Inl (Budget m) \<Longrightarrow> f_data f' = f_data f"
proof -
  obtain r g d where c: "charge cfg (of_nat (length bs)) f e = (r, g, d)" by (cases "charge cfg (of_nat (length bs)) f e") auto
  obtain a d' where d: "disk_answer d = (a, d')" by (cases "disk_answer d") auto
  have g: "f_data g = f_data f" using c by (auto simp: charge_def Let_def split: if_splits)
  have eq: "(res, f', e') = (case r of Inl err \<Rightarrow> (Inl err, g, d) | Inr _ \<Rightarrow>
      if read_back g then (Inl Spill_io, g, d)
      else case a of None \<Rightarrow> (Inr (), g\<lparr>f_data := f_data g @ bs\<rparr>, d')
        | Some k \<Rightarrow> (Inl Spill_io, g\<lparr>f_data := f_data g @ take k bs\<rparr>, d'))"
    unfolding assms [symmetric] spill_write_all_def c by (simp add: d split: sum.splits)
  show "res = Inr () \<Longrightarrow> f_data f' = f_data f @ bs" "res = Inl (Budget m) \<Longrightarrow> f_data f' = f_data f"
    using eq g by (auto split: sum.splits if_splits option.splits)
qed

text \<open>A write is either whole, or refused by a budget with a head of it kept; it never panics.\<close>

definition write_spec :: "spill_config \<Rightarrow> body \<Rightarrow> bytes \<Rightarrow> write_res \<Rightarrow> body \<Rightarrow> bool" where
  "write_spec cfg b bs res b' \<longleftrightarrow>
     (case res of
        WOk \<Rightarrow> body_inv cfg b' \<and> content b' = content b @ bs
      | WErr (Budget m) \<Rightarrow> body_inv cfg b' \<and> (\<exists>k. content b' = content b @ take k bs)
      | WErr Spill_io \<Rightarrow> True
      | WPanic \<Rightarrow> False)"

lemma len_add:
  assumes "unat n = length xs" "length xs + length ys < 2 ^ 64"
  shows "\<exists>k. add_chk n (of_nat (length ys) :: u64) = Some k \<and> unat k = length (xs @ ys)"
proof -
  have "unat (of_nat (length ys) :: u64) = length ys" using assms(2) by (intro unat_of_nat_lt) simp
  then show ?thesis using add_chk_fits [of n "of_nat (length ys)"] assms by auto
qed

lemma body_append_spec:
  assumes "body_append cfg bs tmp b e = (res, b', e')" "spill b = Some tmp" "body_inv cfg b" "length (content b) + length bs < 2 ^ 64"
  shows "write_spec cfg b bs res b'"
proof -
  obtain r tmp' d where w: "spill_write_all cfg bs tmp e = (r, tmp', d)" by (cases "spill_write_all cfg bs tmp e") auto
  have c: "content b = f_data tmp" and n: "unat (b_len b) = length (f_data tmp)" using assms(2,3) by (simp_all add: content_def body_inv_def)
  obtain k where k: "add_chk (b_len b) (of_nat (length bs)) = Some k" "unat k = length (f_data tmp @ bs)"
    using len_add [OF n] assms(4) c by auto
  have eq: "(res, b') = (case r of Inl err \<Rightarrow> (WErr err, b\<lparr>spill := Some tmp'\<rparr>) | Inr _ \<Rightarrow> (WOk, b\<lparr>spill := Some tmp', b_len := k\<rparr>))"
    using assms(1) unfolding body_append_def w by (auto simp: k split: sum.splits)
  show ?thesis
  proof (cases r)
    case (Inl err)
    then show ?thesis using eq c n assms(3) spill_write_all_data(2) [OF w]
      by (cases err) (auto simp: write_spec_def body_inv_def content_def intro: exI [of _ 0])
  next
    case (Inr u)
    then show ?thesis using eq c n k assms(3) spill_write_all_data(1) [OF w] by (auto simp: write_spec_def body_inv_def content_def)
  qed
qed

lemma body_write_spec:
  assumes "body_write cfg bs b e = (res, b', e')" "body_inv cfg b" "length (content b) + length bs < 2 ^ 64"
  shows "write_spec cfg b bs res b'"
proof (cases "spill b")
  case (Some tmp)
  then show ?thesis using assms body_append_spec by (simp add: body_write_def)
next
  case None
  have c: "content b = ram b" and n: "unat (b_len b) = length (ram b)" and le: "length (ram b) \<le> unat (threshold cfg)"
    using None assms(2) by (simp_all add: content_def body_inv_def)
  have l: "unat (of_nat (length (ram b)) :: u64) = length (ram b)" using assms(3) c by (intro unat_of_nat_lt) simp
  define room where "room = threshold cfg - of_nat (length (ram b))"
  have s: "sub_chk (threshold cfg) (of_nat (length (ram b))) = Some room" and room: "unat room = unat (threshold cfg) - length (ram b)"
    using le l by (simp_all add: sub_chk_def room_def word_le_nat_alt unat_sub)
  show ?thesis
  proof (cases "length bs \<le> unat room")
    case True
    obtain k where k: "add_chk (b_len b) (of_nat (length bs)) = Some k" "unat k = length (ram b @ bs)" using len_add [OF n] assms(3) c by auto
    then show ?thesis using assms(1,2) None s True room le
      by (auto simp: body_write_def write_spec_def body_inv_def content_def)
  next
    case False
    let ?fits = "take (unat room) bs" and ?rest = "drop (unat room) bs"
    have "length ?fits \<le> length bs" by simp
    then obtain k where k: "add_chk (b_len b) (of_nat (length ?fits)) = Some k" "unat k = length (ram b @ ?fits)"
      using len_add [OF n, of ?fits] assms(3) c by fastforce
    let ?b = "b\<lparr>ram := ram b @ ?fits, b_len := k\<rparr>"
    obtain cr e1 where cr: "spill_create cfg e = (cr, e1)" by (cases "spill_create cfg e") auto
    have eq: "body_write cfg bs b e = (case cr of Inl err \<Rightarrow> (WErr err, ?b, e1) | Inr tmp \<Rightarrow>
       (case spill_write_all cfg (ram ?b) tmp e1 of
          (Inl err, tmp, e) \<Rightarrow> (WErr err, ?b, spill_drop tmp e)
        | (Inr _, tmp, e) \<Rightarrow> body_append cfg ?rest tmp (?b\<lparr>spill := Some tmp\<rparr>) e))"
      using None s False k cr unfolding body_write_def by (simp add: Let_def split: sum.splits)
    have part: "write_spec cfg b bs (WErr err) ?b" for err
      using le room None k by (cases err) (auto simp: write_spec_def body_inv_def content_def)
    show ?thesis
    proof (cases cr)
      case (Inl err)
      then show ?thesis using eq assms(1) part by auto
    next
      case (Inr tmp)
      obtain w tmp' e2 where w: "spill_write_all cfg (ram ?b) tmp e1 = (w, tmp', e2)" by (cases "spill_write_all cfg (ram ?b) tmp e1") auto
      have new: "f_data tmp = []" using cr Inr by (auto simp: spill_create_def split: if_splits prod.splits option.splits)
      show ?thesis
      proof (cases w)
        case (Inl err)
        then show ?thesis using eq assms(1) part Inr w by auto
      next
        case (Inr u)
        let ?b1 = "?b\<lparr>spill := Some tmp'\<rparr>"
        have d: "f_data tmp' = ram b @ ?fits" using spill_write_all_data(1) [OF w] Inr new by simp
        have ap: "body_append cfg ?rest tmp' ?b1 e2 = (res, b', e')" using eq assms(1) \<open>cr = Inr tmp\<close> w Inr by simp
        have inv: "body_inv cfg ?b1" using le room k d by (auto simp: body_inv_def content_def)
        have ct: "content ?b1 = content b @ ?fits" using d c by (simp add: content_def)
        have "write_spec cfg ?b1 ?rest res b'"
          by (rule body_append_spec [OF ap _ inv]) (use ct assms(3) in auto)
        moreover have "\<exists>j. content b' = content b @ take j bs" if "content b' = content ?b1 @ take i ?rest" for i
          using that ct False by (intro exI [of _ "unat room + i"]) (simp add: take_add)
        moreover have "content b @ ?fits @ ?rest = content b @ bs" by simp
        ultimately show ?thesis using ct unfolding write_spec_def by (auto split: write_res.splits spill_error.splits)
      qed
    qed
  qed
qed

section \<open>Chunk data\<close>

lemma keep_less: "unat (min a SINK) \<le> unat a" by (simp add: word_le_nat_alt [symmetric])

lemma loops_0 [simp]: "keep_loop cfg 0 b e r = (KDone, b, e, r)" "discard_loop 0 r = (Inr (), r)"
  by (simp_all add: keep_loop.simps [of _ 0] discard_loop.simps [of 0])

lemma minus_got:
  assumes "length got \<le> unat (min keep SINK)"
  shows "unat (keep - of_nat (length got)) + length got = unat keep"
proof -
  have le: "length got \<le> unat keep" using assms keep_less [of keep] by linarith
  have u: "unat (of_nat (length got) :: u64) = length got" using le unat_bound [of keep] by (intro unat_of_nat_lt) simp
  then have "of_nat (length got) \<le> keep" using le by (simp add: word_le_nat_alt)
  then have "unat (keep - of_nat (length got)) = unat keep - length got" using u by (simp add: unat_sub)
  then show ?thesis using le by simp
qed

text \<open>Keeping a chunk's data: all of it appended, or a head of what was read before a refusal.\<close>

definition keep_spec :: "spill_config \<Rightarrow> u64 \<Rightarrow> body \<Rightarrow> reader \<Rightarrow> keep_res \<Rightarrow> body \<Rightarrow> reader \<Rightarrow> bool" where
  "keep_spec cfg keep b r res b' r' \<longleftrightarrow>
     (case res of
        KDone \<Rightarrow> body_inv cfg b' \<and> (\<exists>x. stream r = x @ stream r' \<and> length x = unat keep \<and> content b' = content b @ x)
      | KRejected m u \<Rightarrow> body_inv cfg b' \<and> (\<exists>x k. stream r = x @ stream r' \<and> length x + unat u = unat keep \<and> content b' = content b @ take k x)
      | KErr _ \<Rightarrow> True
      | KPanic \<Rightarrow> False)"

lemma keep_spec_step:
  assumes "keep_spec cfg k1 b1 r1 res b' r'" "content b1 = content b @ got" "stream r = got @ stream r1"
    "unat k1 + length got = unat keep"
  shows "keep_spec cfg keep b r res b' r'"
proof (cases res)
  case KDone
  then obtain x where x: "body_inv cfg b'" "stream r1 = x @ stream r'" "length x = unat k1" "content b' = content b1 @ x"
    using assms(1) by (auto simp: keep_spec_def)
  then have "stream r = (got @ x) @ stream r'" "length (got @ x) = unat keep" "content b' = content b @ got @ x"
    using assms(2-4) by simp_all
  then show ?thesis using KDone x(1) unfolding keep_spec_def by auto
next
  case (KRejected m u)
  then obtain x k where x: "body_inv cfg b'" "stream r1 = x @ stream r'" "length x + unat u = unat k1" "content b' = content b1 @ take k x"
    using assms(1) by (auto simp: keep_spec_def)
  then have "stream r = (got @ x) @ stream r'" "length (got @ x) + unat u = unat keep"
    "content b' = content b @ take (length got + k) (got @ x)"
    using assms(2-4) by simp_all
  then show ?thesis using KRejected x(1) unfolding keep_spec_def by (simp only: keep_res.case) blast
qed (use assms(1) in \<open>simp_all add: keep_spec_def\<close>)

lemma keep_loop_spec:
  assumes "keep_loop cfg keep b e r = (res, b', e', r')" "body_inv cfg b" "length (content b) + length (stream r) < 2 ^ 64"
  shows "keep_spec cfg keep b r res b' r'"
  using assms
proof (induction cfg keep b e r rule: keep_loop.induct)
  case (1 cfg keep b e r)
  show ?case
  proof (cases "keep = 0")
    case True
    then show ?thesis using "1.prems" by (auto simp: keep_spec_def)
  next
    case False
    obtain g r1 where rd: "read_some (unat (min keep SINK)) r = (g, r1)" by (cases "read_some (unat (min keep SINK)) r") auto
    show ?thesis
    proof (cases "g = None \<or> g = Some []")
      case True
      then show ?thesis using "1.prems"(1) False rd by (auto simp: keep_loop.simps [of cfg keep] keep_spec_def)
    next
      case False
      then obtain got where g: "g = Some got" "got \<noteq> []" by auto
      note rd = rd [unfolded g(1)]
      note st = read_some_stream [OF rd]
      obtain w b1 e1 where w: "body_write cfg got b e = (w, b1, e1)" by (cases "body_write cfg got b e") auto
      have ws: "write_spec cfg b got w b1" using "1.prems" st by (intro body_write_spec [OF w]) auto
      have m: "unat (keep - of_nat (length got)) + length got = unat keep" using st by (intro minus_got) simp
      have eq: "keep_loop cfg keep b e r = (case w of WOk \<Rightarrow> keep_loop cfg (keep - of_nat (length got)) b1 e1 r1
          | WErr Spill_io \<Rightarrow> (KErr (Body_io Temp_file), b1, e1, r1)
          | WErr (Budget reason) \<Rightarrow> (KRejected reason (keep - of_nat (length got)), b1, e1, r1)
          | WPanic \<Rightarrow> (KPanic, b1, e1, r1))"
        using \<open>keep \<noteq> 0\<close> rd g w by (simp add: keep_loop.simps [of cfg keep] split: write_res.splits spill_error.splits)
      show ?thesis
      proof (cases w)
        case WOk
        then have inv: "body_inv cfg b1" and c: "content b1 = content b @ got" using ws by (simp_all add: write_spec_def)
        have "keep_spec cfg (keep - of_nat (length got)) b1 r1 res b' r'"
          using "1.prems" eq WOk inv c st by (intro "1.IH" [OF \<open>keep \<noteq> 0\<close> rd [symmetric] refl g(2) w [symmetric] WOk refl]) auto
        then show ?thesis by (rule keep_spec_step [OF _ c _ m]) (use st in simp)
      next
        case (WErr err)
        then show ?thesis using eq "1.prems"(1) ws m st by (cases err) (auto simp: keep_spec_def write_spec_def)
      next
        case WPanic
        then show ?thesis using ws by (simp add: write_spec_def)
      qed
    qed
  qed
qed

lemma discard_loop_spec:
  assumes "discard_loop n r = (Inr u, r')"
  shows "\<exists>x. stream r = x @ stream r' \<and> length x = unat n \<and> (clean r \<longrightarrow> clean r')"
  using assms
proof (induction n r rule: discard_loop.induct)
  case (1 n r)
  show ?case
  proof (cases "n = 0")
    case True
    then show ?thesis using "1.prems" by auto
  next
    case False
    obtain g r1 where rd: "read_some (unat (min n SINK)) r = (g, r1)" by (cases "read_some (unat (min n SINK)) r") auto
    then obtain got where g: "g = Some got" "got \<noteq> []" and rec: "discard_loop (n - of_nat (length got)) r1 = (Inr u, r')"
      using "1.prems" False by (auto simp: discard_loop.simps [of n] split: option.splits if_splits)
    note rd = rd [unfolded g(1)]
    note st = read_some_stream [OF rd]
    obtain x where "stream r1 = x @ stream r'" "length x = unat (n - of_nat (length got))" "clean r1 \<longrightarrow> clean r'"
      using "1.IH" [OF False rd [symmetric] refl g(2) rec] by auto
    moreover have "unat (n - of_nat (length got)) + length got = unat n" using st by (intro minus_got) simp
    ultimately show ?thesis using st by (intro exI [of _ "got @ x"]) auto
  qed
qed

section \<open>The grammar\<close>

text \<open>A header line, without its line feed, and the size and extensions it declares.\<close>

definition header :: "bytes \<Rightarrow> u64 \<Rightarrow> bytes \<Rightarrow> bool" where
  "header l sz ext \<longleftrightarrow> LF \<notin> set l \<and>
     (case split_header (strip_last CR l) of (t, x) \<Rightarrow> parse_chunk_size t = Inr sz \<and> ext = x)"

definition chunk_text :: "bytes \<Rightarrow> bytes \<Rightarrow> bool" where
  "chunk_text q c \<longleftrightarrow> c \<noteq> [] \<and> (\<exists>l sz ext eol. header l sz ext \<and> unat sz = length c \<and>
     eol \<in> {[LF], [CR, LF]} \<and> q = l @ [LF] @ c @ eol)"

inductive chunks :: "bytes \<Rightarrow> bytes \<Rightarrow> bool" where
  chunks_nil: "chunks [] []"
| chunks_cons: "chunk_text q c \<Longrightarrow> chunks p d \<Longrightarrow> chunks (q @ p) (c @ d)"

text \<open>A trailer: at most \<open>n\<close> lines ending in a blank one, or cut off by the end of the stream.\<close>

inductive trailer :: "nat \<Rightarrow> bytes \<Rightarrow> bool \<Rightarrow> bool" where
  trailer_cut: "trailer (Suc n) [] True"
| trailer_blank: "l = [] \<or> l = [CR] \<Longrightarrow> trailer (Suc n) (l @ [LF]) False"
| trailer_line: "LF \<notin> set l \<Longrightarrow> l \<noteq> [] \<Longrightarrow> l \<noteq> [CR] \<Longrightarrow> trailer n t ended \<Longrightarrow> trailer (Suc n) (l @ [LF] @ t) ended"

definition last_text :: "bytes \<Rightarrow> body_end \<Rightarrow> bool \<Rightarrow> bool" where
  "last_text q en ended \<longleftrightarrow> (\<exists>l ext t. header l 0 ext \<and> trailer MAX_TRAILER_LINES t ended \<and>
     q = l @ [LF] @ t \<and> en = (if has_ieof ext then Ieof else Eof))"

section \<open>Soundness\<close>

lemma consume_size: "stream_size (consume n bs r) \<le> stream_size (Data bs # r)"
  by (auto simp: consume_def stream_size_def)

lemma read_some_size: "read_some want r = (g, r') \<Longrightarrow> stream_size r' \<le> stream_size r"
  by (cases "(want, r)" rule: read_some.cases) (auto simp: consume_size intro: order_trans [OF _ consume_size], auto simp: stream_size_def)

lemma read_line_from_none: "read_line_from out mx r = (Inr None, r') \<Longrightarrow> out = [] \<and> stream r' = stream r"
  by (induction out mx r rule: read_line_from.induct) (auto split: if_splits option.splits)

lemma read_line_none: "read_line mx r = (Inr None, r') \<Longrightarrow> stream r' = stream r"
  unfolding read_line_def using read_line_from_none by blast

lemma keep_loop_size: "keep_loop cfg keep b e r = (res, b', e', r') \<Longrightarrow> stream_size r' \<le> stream_size r"
proof (induction cfg keep b e r rule: keep_loop.induct)
  case (1 cfg keep b e r)
  show ?case
  proof (cases "keep = 0")
    case False
    obtain g r1 where rd: "read_some (unat (min keep SINK)) r = (g, r1)" by (cases "read_some (unat (min keep SINK)) r") auto
    note sz = read_some_size [OF rd]
    show ?thesis
    proof (cases g)
      case None
      then show ?thesis using "1.prems" False rd sz by (simp add: keep_loop.simps [of cfg keep])
    next
      case (Some got)
      obtain w b1 e1 where w: "body_write cfg got b e = (w, b1, e1)" by (cases "body_write cfg got b e") auto
      show ?thesis
      proof (cases "got \<noteq> [] \<and> w = WOk")
        case True
        then have "keep_loop cfg (keep - of_nat (length got)) b1 e1 r1 = (res, b', e', r')"
          using "1.prems" False rd Some w by (simp add: keep_loop.simps [of cfg keep])
        then show ?thesis using "1.IH" [OF False rd [unfolded Some, symmetric] refl _ w [symmetric] _ refl] True sz by auto
      next
        case nok: False
        then show ?thesis using "1.prems" False rd Some w sz
          by (auto simp: keep_loop.simps [of cfg keep] split: if_splits write_res.splits spill_error.splits)
      qed
    qed
  qed (use "1.prems" in simp)
qed

lemma discard_loop_size: "discard_loop n r = (res, r') \<Longrightarrow> stream_size r' \<le> stream_size r"
proof (induction n r rule: discard_loop.induct)
  case (1 n r)
  show ?case
  proof (cases "n = 0")
    case False
    obtain g r1 where rd: "read_some (unat (min n SINK)) r = (g, r1)" by (cases "read_some (unat (min n SINK)) r") auto
    note sz = read_some_size [OF rd]
    show ?thesis
    proof (cases "g = None \<or> g = Some []")
      case True
      then show ?thesis using "1.prems" False rd sz by (auto simp: discard_loop.simps [of n])
    next
      case more: False
      then obtain got where g: "g = Some got" "got \<noteq> []" by auto
      then have "discard_loop (n - of_nat (length got)) r1 = (res, r')" using "1.prems" False rd by (simp add: discard_loop.simps [of n])
      then show ?thesis using "1.IH" [OF False rd [unfolded g(1), symmetric] refl g(2)] sz by auto
    qed
  qed (use "1.prems" in simp)
qed

lemma trailer_lines_sound:
  assumes "trailer_lines n r = (Inr u, r')"
  shows "\<exists>t ended. trailer n t ended \<and> stream r = t @ stream r'"
  using assms
proof (induction n arbitrary: r)
  case (Suc n)
  obtain ln r1 where rl: "read_line MAX_CHUNK_LINE r = (ln, r1)" by (cases "read_line MAX_CHUNK_LINE r") auto
  show ?case
  proof (cases "ln = Inr None")
    case True
    then have "r' = r1" using Suc.prems rl by simp
    then show ?thesis using read_line_none [OF rl [unfolded True]] trailer_cut [of n]
      by (intro exI [of _ "[]"] exI [of _ True]) simp
  next
    case False
    then obtain line where l: "ln = Inr (Some line)" using Suc.prems rl by (auto split: sum.splits option.splits)
    obtain k where k: "line = k @ [LF]" "LF \<notin> set k" "stream r = k @ LF # stream r1"
      by (rule read_line_sound [OF rl [unfolded l]]) blast
    show ?thesis
    proof (cases "trim_eol line = []")
      case True
      then have "k = [] \<or> k = [CR]" "r' = r1" using k trim_eol_blank Suc.prems rl l by auto
      then show ?thesis using k(3) trailer_blank [of k n] by (intro exI [of _ "k @ [LF]"] exI [of _ False]) simp
    next
      case False
      then have "trailer_lines n r1 = (Inr u, r')" using Suc.prems rl l by simp
      then obtain t ended where t: "trailer n t ended" "stream r1 = t @ stream r'" using Suc.IH by blast
      have "k \<noteq> []" "k \<noteq> [CR]" using False k(1) trim_eol_blank [of k] by auto
      then show ?thesis using trailer_line [OF k(2) _ _ t(1)] t(2) k(3) by (intro exI [of _ "k @ [LF] @ t"] exI [of _ ended]) simp
    qed
  qed
qed simp

lemma chunk_tail_sound:
  assumes "chunk_tail n d r = (More d', r')"
  shows "d' = d \<and> (\<exists>x eol. stream r = x @ eol @ stream r' \<and> length x = unat n \<and> eol \<in> {[LF], [CR, LF]}) \<and> stream_size r' < stream_size r"
proof -
  obtain dr r1 where dr: "discard_loop n r = (dr, r1)" by (cases "discard_loop n r") auto
  then obtain u where u: "dr = Inr u" using assms by (auto simp: chunk_tail_def split: sum.splits)
  obtain x where x: "stream r = x @ stream r1" "length x = unat n" using discard_loop_spec [OF dr [unfolded u]] by blast
  obtain ln r2 where rl: "read_line 64 r1 = (ln, r2)" by (cases "read_line 64 r1") auto
  then obtain line where l: "ln = Inr (Some line)" and d': "d' = d" "r' = r2" "trim_eol line = []"
    using assms dr u by (auto simp: chunk_tail_def split: sum.splits option.splits if_splits)
  obtain k where k: "line = k @ [LF]" "stream r1 = k @ LF # stream r2" "stream_size r2 < stream_size r1"
    by (rule read_line_sound [OF rl [unfolded l]]) blast
  have "k = [] \<or> k = [CR]" using d'(3) k(1) trim_eol_blank by simp
  then have "stream r = x @ (k @ [LF]) @ stream r2 \<and> k @ [LF] \<in> {[LF], [CR, LF]}" using x k(2) by auto
  moreover have "stream_size r1 \<le> stream_size r" using dr by (rule discard_loop_size)
  ultimately show ?thesis using d' x(2) k(3) order_less_le_trans by blast
qed

lemma unat_kept:
  assumes "body_inv cfg b"
  shows "unat (kept lim d b sz) = (if d_rejected d \<noteq> None then 0 else min (unat lim - length (content b)) (unat sz))"
    "unat (sz - kept lim d b sz) = unat sz - unat (kept lim d b sz)"
proof -
  have "unat (saturating_sub lim (b_len b)) = unat lim - length (content b)"
    using assms by (auto simp: saturating_sub_def unat_sub word_le_nat_alt body_inv_def)
  moreover have "unat (min a b) = min (unat a) (unat b)" for a b :: u64 by (auto simp: min_def word_le_nat_alt)
  ultimately show "unat (kept lim d b sz) = (if d_rejected d \<noteq> None then 0 else min (unat lim - length (content b)) (unat sz))"
    by (simp add: kept_def)
  have "kept lim d b sz \<le> sz" by (simp add: kept_def)
  then show "unat (sz - kept lim d b sz) = unat sz - unat (kept lim d b sz)" by (rule unat_sub)
qed

text \<open>What one chunk of size \<open>sz\<close> does when the decoder goes on after it.\<close>

definition chunk_post :: "spill_config \<Rightarrow> u64 \<Rightarrow> u64 \<Rightarrow> chunk_decoder \<Rightarrow> body \<Rightarrow> bytes \<Rightarrow> chunk_decoder \<Rightarrow> body \<Rightarrow> bool" where
  "chunk_post cfg lim sz d b c d' b' \<longleftrightarrow>
     length c = unat sz \<and> body_inv cfg b' \<and> d_total d' = saturating_add (d_total d) sz \<and>
     (\<exists>k. content b' = content b @ take k c) \<and> length (content b') \<le> max (unat lim) (length (content b)) \<and>
     (d_rejected d' = None \<longrightarrow> d_rejected d = None \<and> content b' = content b @ take (unat lim - length (content b)) c \<and>
        (d_over d' \<longleftrightarrow> d_over d \<or> unat lim - length (content b) < length c)) \<and>
     (d_rejected d' \<noteq> None \<longrightarrow> d_rejected d = None \<longrightarrow> d_over d') \<and> (d_over d \<longrightarrow> d_over d') \<and>
     (d_rejected d \<noteq> None \<longrightarrow> d_rejected d' \<noteq> None \<and> content b' = content b)"

text \<open>What it leaves when it gives up in the middle of a chunk.\<close>

definition abandon_post :: "spill_config \<Rightarrow> u64 \<Rightarrow> body \<Rightarrow> bytes \<Rightarrow> body_outcome \<Rightarrow> body \<Rightarrow> bool" where
  "abandon_post cfg lim b c outc b' \<longleftrightarrow>
     abandoned outc \<and> over_limit outc \<and> body_inv cfg b' \<and>
     (\<exists>k. content b' = content b @ take k c) \<and> length (content b') \<le> max (unat lim) (length (content b))"

lemma tail_never_panics: "chunk_tail n d r = (Ended x, r') \<Longrightarrow> \<exists>err. x = DErr err"
  by (auto simp: chunk_tail_def split: prod.splits sum.splits option.splits if_splits)

lemma charge_discard_keeps:
  assumes "charge_discard dl n d = (ok, d')"
  shows "d_total d' = d_total d" "d_rejected d' = d_rejected d" "d_over d' \<longleftrightarrow> d_over d \<or> n \<noteq> 0"
  using assms by (auto simp: charge_discard_def split: prod.splits if_splits)

lemma abandon_simps [simp]:
  "abandon d = Outcome outc \<longleftrightarrow> outc = \<lparr>o_end = Eof, over_limit = True, abandoned = True, rejected = d_rejected d, total = d_total d\<rparr>"
  "abandon d \<noteq> DPanic"
  by (auto simp: abandon_def)

text \<open>Kept data \<open>x\<close> and dropped data \<open>y\<close> together are the chunk.\<close>

lemma chunk_post_whole:
  assumes "body_inv cfg b" "body_inv cfg b'" "content b' = content b @ x" "length x = unat (kept lim d b sz)"
    "length y = unat (sz - kept lim d b sz)" "charge_discard dl (sz - kept lim d b sz) (d\<lparr>d_total := saturating_add (d_total d) sz\<rparr>) = (ok, d2)"
  shows "chunk_post cfg lim sz d b (x @ y) d2 b'"
proof -
  note k = unat_kept [OF assms(1), where lim = lim and d = d and sz = sz]
  note d2 = charge_discard_keeps [OF assms(6)]
  have le: "unat (kept lim d b sz) \<le> unat sz" using k(1) by (simp split: if_splits)
  have over: "sz - kept lim d b sz \<noteq> 0 \<longleftrightarrow> unat (kept lim d b sz) < unat sz" using k(2) by (metis unat_eq_zero diff_is_0_eq not_le)
  have len: "length (x @ y) = unat sz" using assms(4,5) k(2) le by simp
  have pre: "content b' = content b @ take (length x) (x @ y)" using assms(3) by simp
  have full: "content b' = content b @ take (unat lim - length (content b)) (x @ y)" if "d_rejected d = None"
    using that k(1) assms(3-5) k(2) by (auto simp: min_def split: if_splits)
  have room: "length (content b') \<le> max (unat lim) (length (content b))" using assms(3,4) k(1) by (auto split: if_splits)
  have ov: "d_over d2 \<longleftrightarrow> d_over d \<or> unat lim - length (content b) < length (x @ y)" if "d_rejected d = None"
    using d2(3) over k(1) that len by auto
  have "\<exists>k. content b' = content b @ take k (x @ y)" using pre by blast
  moreover have "d_rejected d \<noteq> None \<Longrightarrow> content b' = content b" using assms(3,4) k(1) by simp
  ultimately show ?thesis unfolding chunk_post_def using len assms(2) d2 room full ov by (auto simp del: take_append length_append not_None_eq)
qed

lemma chunk_post_refused:
  assumes "body_inv cfg b" "body_inv cfg b'" "content b' = content b @ take k x" "length x + unat u = unat (kept lim d b sz)"
    "length y = unat (sz - kept lim d b sz + u)" "d_total d2 = saturating_add (d_total d) sz" "d_rejected d2 \<noteq> None" "d_over d2"
  shows "chunk_post cfg lim sz d b (x @ y) d2 b'"
proof -
  note kk = unat_kept [OF assms(1), where lim = lim and d = d and sz = sz]
  have le: "unat (kept lim d b sz) \<le> unat sz" using kk(1) by (simp split: if_splits)
  have "unat (sz - kept lim d b sz + u) = unat sz - unat (kept lim d b sz) + unat u"
    using kk(2) assms(4) le unat_bound [of sz] by (simp add: unat_word_ariths)
  then have len: "length (x @ y) = unat sz" using assms(4,5) le by simp
  have "content b' = content b @ take (min k (length x)) (x @ y)" using assms(3) by (simp add: min_def)
  then have "\<exists>k. content b' = content b @ take k (x @ y)" by blast
  moreover have "length (content b') \<le> max (unat lim) (length (content b))" using assms(3,4) kk(1) by (auto split: if_splits)
  moreover have "d_rejected d \<noteq> None \<Longrightarrow> content b' = content b" using assms(3,4) kk(1) by simp
  ultimately show ?thesis unfolding chunk_post_def using len assms(2,6-8) by (auto simp del: take_append length_append not_None_eq)
qed

lemma refused_room:
  assumes "body_inv cfg b" "content b' = content b @ take k x" "length x \<le> unat (kept lim d b sz)"
  shows "length (content b') \<le> max (unat lim) (length (content b))"
  using assms unat_kept(1) [OF assms(1), of lim d sz] by (auto split: if_splits)

lemma chunk_data_sound:
  assumes cd: "chunk_data cfg lim dl sz d b e r = (p, b', e', r')" and inv: "body_inv cfg b"
    and fits: "length (content b) + length (stream r) < 2 ^ 64"
  shows "p \<noteq> Ended DPanic \<and>
    (\<forall>outc. p = Ended (Outcome outc) \<longrightarrow> (\<exists>c. stream r = c @ stream r' \<and> abandon_post cfg lim b c outc b')) \<and>
    (\<forall>d'. p = More d' \<longrightarrow> (\<exists>c eol. stream r = c @ eol @ stream r' \<and> eol \<in> {[LF], [CR, LF]} \<and>
       chunk_post cfg lim sz d b c d' b' \<and> stream_size r' < stream_size r))"
proof -
  define keep where "keep = kept lim d b sz"
  let ?d = "d\<lparr>d_total := saturating_add (d_total d) sz\<rparr>"
  obtain ok d2 where d2: "charge_discard dl (sz - keep) ?d = (ok, d2)" by (cases "charge_discard dl (sz - keep) ?d") auto
  obtain kr b1 e1 r1 where kl: "keep_loop cfg keep b e r = (kr, b1, e1, r1)" by (cases "keep_loop cfg keep b e r") auto
  note unf = cd [unfolded chunk_data_def Let_def, folded keep_def, unfolded d2 kl prod.case]
  have ks: "keep_spec cfg keep b r kr b1 r1" by (rule keep_loop_spec [OF kl inv fits])
  have sz1: "stream_size r1 \<le> stream_size r" by (rule keep_loop_size [OF kl])
  show ?thesis
  proof (cases "ok")
    case False
    then have "p = Ended (abandon d2)" "b' = b" "r' = r" using unf by auto
    then show ?thesis using inv by (auto simp: abandon_post_def)
  next
    case True
    show ?thesis
    proof (cases kr)
      case KDone
      obtain q r2 where ct: "chunk_tail (sz - keep) d2 r1 = (q, r2)" by (cases "chunk_tail (sz - keep) d2 r1") auto
      have eq: "p = q" "b' = b1" "r' = r2" using unf True KDone ct by auto
      obtain x where x: "body_inv cfg b1" "stream r = x @ stream r1" "length x = unat keep" "content b1 = content b @ x"
        using ks KDone by (auto simp: keep_spec_def)
      have "\<exists>c eol. stream r = c @ eol @ stream r' \<and> eol \<in> {[LF], [CR, LF]} \<and>
          chunk_post cfg lim sz d b c d' b' \<and> stream_size r' < stream_size r" if more: "p = More d'" for d'
      proof -
        obtain y eol where t: "d' = d2" "stream r1 = y @ eol @ stream r2" "length y = unat (sz - keep)" "eol \<in> {[LF], [CR, LF]}"
          "stream_size r2 < stream_size r1" using chunk_tail_sound [of _ _ r1 d' r2] ct eq(1) more by blast
        have "chunk_post cfg lim sz d b (x @ y) d2 b1"
          using chunk_post_whole [OF inv x(1,4)] x(3) t(3) d2 unfolding keep_def by blast
        moreover have "stream r = (x @ y) @ eol @ stream r2" using x(2) t(2) by simp
        moreover have "stream_size r2 < stream_size r" using t(5) sz1 by simp
        ultimately show ?thesis unfolding eq(2,3) t(1) using t(4) by blast
      qed
      then show ?thesis using tail_never_panics [of _ d2 r1 _ r2] ct eq(1) by (cases q) fastforce+
    next
      case (KRejected m u)
      let ?d3 = "d2\<lparr>d_rejected := Some m, d_over := True\<rparr>"
      obtain ok3 d3 where d3: "charge_discard dl u ?d3 = (ok3, d3)" by (cases "charge_discard dl u ?d3") auto
      note d3s = charge_discard_keeps [OF d3]
      obtain x k where x: "body_inv cfg b1" "stream r = x @ stream r1" "length x + unat u = unat keep" "content b1 = content b @ take k x"
        using ks KRejected by (auto simp: keep_spec_def)
      note unf3 = unf [unfolded KRejected keep_res.case d3 prod.case]
      show ?thesis
      proof (cases ok3)
        case False
        then have eq: "p = Ended (abandon d3)" "b' = b1" "r' = r1" using unf3 True by auto
        have "length x \<le> unat keep" using x(3) by simp
        then have "length (content b1) \<le> max (unat lim) (length (content b))" unfolding keep_def by (rule refused_room [OF inv x(4)])
        then show ?thesis using eq x by (auto simp: abandon_post_def)
      next
        case ok3: True
        obtain q r2 where ct: "chunk_tail (sz - keep + u) d3 r1 = (q, r2)" by (cases "chunk_tail (sz - keep + u) d3 r1") auto
        have eq: "p = q" "b' = b1" "r' = r2" using unf3 True ok3 ct by auto
        have "\<exists>c eol. stream r = c @ eol @ stream r' \<and> eol \<in> {[LF], [CR, LF]} \<and>
            chunk_post cfg lim sz d b c d' b' \<and> stream_size r' < stream_size r" if more: "p = More d'" for d'
        proof -
          obtain y eol where t: "d' = d3" "stream r1 = y @ eol @ stream r2" "length y = unat (sz - keep + u)" "eol \<in> {[LF], [CR, LF]}"
            "stream_size r2 < stream_size r1" using chunk_tail_sound [of _ _ r1 d' r2] ct eq(1) more by blast
          have "chunk_post cfg lim sz d b (x @ y) d3 b1"
            using chunk_post_refused [OF inv x(1,4)] x(3) t(3) d3s charge_discard_keeps(1) [OF d2] unfolding keep_def by simp
          moreover have "stream r = (x @ y) @ eol @ stream r2" using x(2) t(2) by simp
          moreover have "stream_size r2 < stream_size r" using t(5) sz1 by simp
        ultimately show ?thesis unfolding eq(2,3) t(1) using t(4) by blast
        qed
        then show ?thesis using tail_never_panics [of _ d3 r1 _ r2] ct eq(1) by (cases q) fastforce+
      qed
    next
      case (KErr err)
      then show ?thesis using unf True by auto
    next
      case KPanic
      then show ?thesis using ks by (simp add: keep_spec_def)
    qed
  qed
qed

text \<open>One turn of the loop.\<close>

definition last_post :: "chunk_decoder \<Rightarrow> body \<Rightarrow> reader \<Rightarrow> body_outcome \<Rightarrow> body \<Rightarrow> reader \<Rightarrow> bool" where
  "last_post d b r outc b' r' \<longleftrightarrow> b' = b \<and>
     over_limit outc = d_over d \<and> rejected outc = d_rejected d \<and> total outc = d_total d \<and> \<not> abandoned outc \<and>
     (\<exists>q ended. stream r = q @ stream r' \<and> last_text q (o_end outc) ended)"

lemma chunk_step_sound:
  assumes cs: "chunk_step cfg lim dl d b e r = (p, b', e', r')" and inv: "body_inv cfg b"
    and fits: "length (content b) + length (stream r) < 2 ^ 64"
  shows "p \<noteq> Ended DPanic \<and>
    (\<forall>outc. p = Ended (Outcome outc) \<longrightarrow>
       last_post d b r outc b' r' \<or> (\<exists>h c. stream r = h @ c @ stream r' \<and> abandon_post cfg lim b c outc b')) \<and>
    (\<forall>d'. p = More d' \<longrightarrow> (\<exists>q c sz. stream r = q @ stream r' \<and> chunk_text q c \<and>
       chunk_post cfg lim sz d b c d' b' \<and> stream_size r' < stream_size r))"
proof -
  obtain ln r1 where rl: "read_line MAX_CHUNK_LINE r = (ln, r1)" by (cases "read_line MAX_CHUNK_LINE r") auto
  show ?thesis
  proof (cases "\<exists>line. ln = Inr (Some line)")
    case False
    then have "\<exists>err. p = Ended (DErr err)" using cs rl by (auto simp: chunk_step_def split: sum.splits option.splits)
    then show ?thesis by auto
  next
    case True
    then obtain line where ln: "ln = Inr (Some line)" by blast
    obtain l where l: "line = l @ [LF]" "LF \<notin> set l" "stream r = l @ LF # stream r1" "stream_size r1 < stream_size r"
      by (rule read_line_sound [OF rl [unfolded ln]]) blast
    obtain st ext where sh: "split_header (strip_last CR l) = (st, ext)" by (cases "split_header (strip_last CR l)") auto
    have te: "trim_eol line = strip_last CR l" using l(1) trim_eol_line by simp
    note unf = cs [unfolded chunk_step_def rl ln prod.case sum.case option.case te sh]
    show ?thesis
    proof (cases "parse_chunk_size st")
      case (Inl err)
      then show ?thesis using unf by auto
    next
      case (Inr sz)
      have hd: "header l sz ext" using l(2) sh Inr by (simp add: header_def)
      show ?thesis
      proof (cases "sz = 0")
        case True
        obtain tr r2 where tr: "read_trailer r1 = (tr, r2)" by (cases "read_trailer r1") auto
        show ?thesis
        proof (cases tr)
          case (Inl err)
          then show ?thesis using unf Inr \<open>parse_chunk_size st = Inr sz\<close> True tr by auto
        next
          case (Inr u)
          then obtain t ended where t: "trailer MAX_TRAILER_LINES t ended" "stream r1 = t @ stream r2"
            using trailer_lines_sound tr unfolding read_trailer_def by blast
          have eq: "p = Ended (Outcome \<lparr>o_end = (if has_ieof ext then Ieof else Eof), over_limit = d_over d,
              abandoned = False, rejected = d_rejected d, total = d_total d\<rparr>)" "b' = b" "r' = r2"
            using unf Inr \<open>parse_chunk_size st = Inr sz\<close> True tr by auto
          have "last_text (l @ [LF] @ t) (if has_ieof ext then Ieof else Eof) ended"
            unfolding last_text_def using hd True t(1) by blast
          moreover have "stream r = (l @ [LF] @ t) @ stream r2" using l(3) t(2) by simp
          ultimately have "\<exists>q ended. stream r = q @ stream r' \<and> last_text q (if has_ieof ext then Ieof else Eof) ended" using eq(3) by blast
          then show ?thesis using eq by (auto simp: last_post_def)
        qed
      next
        case False
        then have cd: "chunk_data cfg lim dl sz d b e r1 = (p, b', e', r')" using unf Inr by simp
        have f1: "length (content b) + length (stream r1) < 2 ^ 64" using fits l(3) by simp
        note cds = chunk_data_sound [OF cd inv f1]
        have "last_post d b r outc b' r' \<or> (\<exists>h c. stream r = h @ c @ stream r' \<and> abandon_post cfg lim b c outc b')"
          if "p = Ended (Outcome outc)" for outc
        proof -
          obtain c where "stream r1 = c @ stream r'" "abandon_post cfg lim b c outc b'" using cds \<open>p = Ended (Outcome outc)\<close> by blast
          then have "stream r = (l @ [LF]) @ c @ stream r'" "abandon_post cfg lim b c outc b'" using l(3) by simp_all
          then show ?thesis by blast
        qed
        moreover have "\<exists>q c sz. stream r = q @ stream r' \<and> chunk_text q c \<and> chunk_post cfg lim sz d b c d' b' \<and> stream_size r' < stream_size r"
          if "p = More d'" for d'
        proof -
          obtain c eol where c: "stream r1 = c @ eol @ stream r'" "eol \<in> {[LF], [CR, LF]}" "chunk_post cfg lim sz d b c d' b'"
            "stream_size r' < stream_size r1" using cds \<open>p = More d'\<close> by blast
          have len: "length c = unat sz" using c(3) by (simp add: chunk_post_def)
          then have "c \<noteq> []" using False by (auto simp: unat_eq_0)
          then have "chunk_text (l @ [LF] @ c @ eol) c" unfolding chunk_text_def using hd len c(2) by metis
          moreover have "stream r = (l @ [LF] @ c @ eol) @ stream r'" using l(3) c(1) by simp
          moreover have "stream_size r' < stream_size r" using c(4) l(4) by simp
          ultimately show ?thesis using c(3) by blast
        qed
        ultimately show ?thesis using cds by blast
      qed
    qed
  qed
qed

end
