(* ===== verification/Icap_Decode.thy ===== *)
theory Icap_Decode
  imports Icap_Chunked_Props
begin

text \<open>
  The chunked decoder as a whole: it always answers and never panics, what it accepts is framed as
  the grammar says and what it keeps is the framed data up to the limit, it accepts everything
  framed that way, and it inverts the encoders.
\<close>

section \<open>The loop\<close>

text \<open>
  The bytes consumed are chunks \<open>p\<close> carrying \<open>data\<close> and then the last chunk \<open>q\<close>; the body has grown
  by the data up to the limit, or by some head of it after a budget refused the object.
\<close>

definition framed :: "u64 \<Rightarrow> chunk_decoder \<Rightarrow> body \<Rightarrow> reader \<Rightarrow> body_outcome \<Rightarrow> body \<Rightarrow> reader \<Rightarrow> bytes \<Rightarrow> bytes \<Rightarrow> bytes \<Rightarrow> bool \<Rightarrow> bool" where
  "framed lim d b r outc b' r' p q data ended \<longleftrightarrow>
     stream r = p @ q @ stream r' \<and> chunks p data \<and> last_text q (o_end outc) ended \<and>
     unat (total outc) = unat (d_total d) + length data \<and>
     (\<exists>k. content b' = content b @ take k data) \<and> (d_rejected d \<noteq> None \<longrightarrow> content b' = content b \<and> rejected outc \<noteq> None) \<and>
     (rejected outc = None \<longrightarrow> content b' = content b @ take (unat lim - length (content b)) data \<and>
        (over_limit outc \<longleftrightarrow> d_over d \<or> unat lim - length (content b) < length data))"

definition decode_spec :: "spill_config \<Rightarrow> u64 \<Rightarrow> chunk_decoder \<Rightarrow> body \<Rightarrow> reader \<Rightarrow> body_outcome \<Rightarrow> body \<Rightarrow> reader \<Rightarrow> bool" where
  "decode_spec cfg lim d b r outc b' r' \<longleftrightarrow>
     body_inv cfg b' \<and> length (content b') \<le> max (unat lim) (length (content b)) \<and>
     (abandoned outc \<longrightarrow> over_limit outc) \<and> (rejected outc \<noteq> None \<longrightarrow> over_limit outc) \<and>
     (\<not> abandoned outc \<longrightarrow>
        (\<exists>p q data ended. framed lim d b r outc b' r' p q data ended))"

lemma decode_spec_last:
  assumes "last_post d b r outc b' r'" "body_inv cfg b" "d_rejected d \<noteq> None \<longrightarrow> d_over d"
  shows "decode_spec cfg lim d b r outc b' r'"
proof -
  obtain q ended where "stream r = [] @ q @ stream r'" "last_text q (o_end outc) ended" using assms(1) by (auto simp: last_post_def)
  then have "framed lim d b r outc b' r' [] q [] ended" using assms(1) chunks_nil by (simp add: framed_def last_post_def)
  then show ?thesis using assms unfolding decode_spec_def last_post_def by auto
qed

lemma decode_spec_abandon:
  "abandon_post cfg lim b c outc b' \<Longrightarrow> decode_spec cfg lim d b r outc b' r'"
  by (simp add: decode_spec_def abandon_post_def)

text \<open>Taking from two lists in turn, the second only after all of the first.\<close>

lemma take_chain: "n < length c \<longrightarrow> y = [] \<Longrightarrow> y = take m e \<Longrightarrow> \<exists>j. take n c @ y = take j (c @ e)"
proof (cases "n < length c")
  case True
  assume "n < length c \<longrightarrow> y = []"
  then show ?thesis using True by (intro exI [of _ n]) simp
next
  case False
  assume "y = take m e"
  then show ?thesis using False by (intro exI [of _ "length c + m"]) simp
qed

lemma decode_spec_step:
  assumes ct: "chunk_text q c" and cp: "chunk_post cfg lim sz d b c d1 b1" and ds: "decode_spec cfg lim d1 b1 r1 outc b' r'"
    and st: "stream r = q @ stream r1" and fits: "unat (d_total d) + length (stream r) < 2 ^ 64"
  shows "decode_spec cfg lim d b r outc b' r'"
proof -
  have len: "length c = unat sz" and room: "length (content b1) \<le> max (unat lim) (length (content b))"
    using cp by (simp_all add: chunk_post_def)
  have bound: "length (content b') \<le> max (unat lim) (length (content b))" using ds room by (auto simp: decode_spec_def)
  have "length c \<le> length q" using ct by (auto simp: chunk_text_def)
  then have "unat (d_total d) + unat sz < 2 ^ 64" using fits st len by simp
  then have tot: "unat (d_total d1) = unat (d_total d) + length c" using cp len
    by (simp add: chunk_post_def saturating_add_def unat_word_ariths)
  have main: "\<exists>p q data ended. framed lim d b r outc b' r' p q data ended"
    if "\<not> abandoned outc"
  proof -
    obtain p q2 e ended where f: "framed lim d1 b1 r1 outc b' r' p q2 e ended"
      using ds \<open>\<not> abandoned outc\<close> unfolding decode_spec_def by auto
    then obtain k where p: "stream r1 = p @ q2 @ stream r'" "chunks p e" "last_text q2 (o_end outc) ended"
      "unat (total outc) = unat (d_total d1) + length e" "content b' = content b1 @ take k e" unfolding framed_def by auto
    have rej: "d_rejected d1 \<noteq> None \<Longrightarrow> content b' = content b1 \<and> rejected outc \<noteq> None"
      and whole: "rejected outc = None \<Longrightarrow> content b' = content b1 @ take (unat lim - length (content b1)) e \<and>
          (over_limit outc \<longleftrightarrow> d_over d1 \<or> unat lim - length (content b1) < length e)"
      using f unfolding framed_def by blast+
    obtain j where j: "content b1 = content b @ take j c" using cp by (auto simp: chunk_post_def)
    have "stream r = (q @ p) @ q2 @ stream r'" using st p(1) by simp
    moreover have "chunks (q @ p) (c @ e)" using ct p(2) by (rule chunks_cons)
    moreover have "unat (total outc) = unat (d_total d) + length (c @ e)" using p(4) tot by simp
    moreover have "\<exists>k. content b' = content b @ take k (c @ e)"
    proof (cases "d_rejected d1 = None")
      case False
      then have "content b' = content b @ take (min j (length c)) (c @ e)" using rej j by (simp add: min_def)
      then show ?thesis by blast
    next
      case True
      then have t: "content b1 = content b @ take (unat lim - length (content b)) c" using cp by (simp add: chunk_post_def)
      have "take k e = []" if "unat lim - length (content b) < length c"
      proof -
        have "length (content b1) = max (unat lim) (length (content b))" using t that by (auto simp: max_def)
        then show ?thesis using bound p(5) by (auto simp: min_def split: if_splits)
      qed
      then obtain i where "take (unat lim - length (content b)) c @ take k e = take i (c @ e)" using take_chain by blast
      then show ?thesis using p(5) t by (metis append_assoc)
    qed
    moreover have "d_rejected d \<noteq> None \<longrightarrow> content b' = content b \<and> rejected outc \<noteq> None" using cp rej by (auto simp: chunk_post_def)
    moreover have "content b' = content b @ take (unat lim - length (content b)) (c @ e) \<and>
        (over_limit outc \<longleftrightarrow> d_over d \<or> unat lim - length (content b) < length (c @ e))" if r: "rejected outc = None"
    proof -
      have "d_rejected d1 = None" using rej r by blast
      then have t: "content b1 = content b @ take (unat lim - length (content b)) c"
        and o1: "d_over d1 \<longleftrightarrow> d_over d \<or> unat lim - length (content b) < length c" using cp by (simp_all add: chunk_post_def)
      have rest: "unat lim - length (content b1) = unat lim - length (content b) - length c" using t by (auto simp: min_def)
      show ?thesis using whole [OF r] t o1 rest by auto
    qed
    ultimately have "framed lim d b r outc b' r' (q @ p) q2 (c @ e) ended" using p(3) unfolding framed_def by blast
    then show ?thesis by blast
  qed
  show ?thesis using ds bound main unfolding decode_spec_def by blast
qed

lemma chunk_loop_sound:
  assumes "chunk_loop n cfg lim dl d b e r = Some (res, b', e', r')" "body_inv cfg b" "d_rejected d \<noteq> None \<longrightarrow> d_over d"
    "length (content b) + length (stream r) < 2 ^ 64" "unat (d_total d) + length (stream r) < 2 ^ 64"
  shows "res \<noteq> DPanic \<and> (\<forall>outc. res = Outcome outc \<longrightarrow> decode_spec cfg lim d b r outc b' r')"
  using assms
proof (induction n arbitrary: d b e r)
  case (Suc n)
  obtain p b1 e1 r1 where cs: "chunk_step cfg lim dl d b e r = (p, b1, e1, r1)" by (cases "chunk_step cfg lim dl d b e r") auto
  note s = chunk_step_sound [OF cs Suc.prems(2,4)]
  show ?case
  proof (cases p)
    case (Ended x)
    then have eq: "res = x" "b' = b1" "r' = r1" using Suc.prems(1) cs by auto
    show ?thesis using s Ended eq decode_spec_last [OF _ Suc.prems(2,3)] decode_spec_abandon by blast
  next
    case (More d1)
    then obtain q c sz where c: "stream r = q @ stream r1" "chunk_text q c" "chunk_post cfg lim sz d b c d1 b1" using s by blast
    have loop: "chunk_loop n cfg lim dl d1 b1 e1 r1 = Some (res, b', e', r')" using Suc.prems(1) cs More by simp
    have inv1: "body_inv cfg b1" and rej1: "d_rejected d1 \<noteq> None \<longrightarrow> d_over d1" using c(3) Suc.prems(3) by (auto simp: chunk_post_def)
    have lc: "length c = unat sz" using c(3) by (simp add: chunk_post_def)
    have cq: "length c \<le> length q" using c(2) by (auto simp: chunk_text_def)
    have "length (content b1) \<le> length (content b) + length c" using c(3) by (auto simp: chunk_post_def)
    then have f1: "length (content b1) + length (stream r1) < 2 ^ 64" using Suc.prems(4) c(1) cq by simp
    have "unat (d_total d1) \<le> unat (d_total d) + length c" using c(3) lc by (simp add: chunk_post_def unat_saturating_add)
    then have f2: "unat (d_total d1) + length (stream r1) < 2 ^ 64" using Suc.prems(5) c(1) cq by simp
    show ?thesis using Suc.IH [OF loop inv1 rej1 f1 f2] decode_spec_step [OF c(2,3) _ c(1) Suc.prems(5)] by blast
  qed
qed simp

lemma chunk_loop_ends:
  assumes "stream_size r < n" "body_inv cfg b" "length (content b) + length (stream r) < 2 ^ 64"
  shows "\<exists>x. chunk_loop n cfg lim dl d b e r = Some x"
  using assms
proof (induction n arbitrary: d b e r)
  case (Suc n)
  obtain p b1 e1 r1 where cs: "chunk_step cfg lim dl d b e r = (p, b1, e1, r1)" by (cases "chunk_step cfg lim dl d b e r") auto
  note s = chunk_step_sound [OF cs Suc.prems(2,3)]
  show ?case
  proof (cases p)
    case (Ended x)
    then show ?thesis using cs by simp
  next
    case (More d1)
    then obtain q c sz where c: "stream r = q @ stream r1" "chunk_text q c" "chunk_post cfg lim sz d b c d1 b1" "stream_size r1 < stream_size r"
      using s by blast
    have cq: "length c \<le> length q" using c(2) by (auto simp: chunk_text_def)
    have "length (content b1) \<le> length (content b) + length c" "body_inv cfg b1" using c(3) by (auto simp: chunk_post_def)
    then show ?thesis using Suc.IH [of r1 b1 d1 e1] Suc.prems c(1,4) cq cs More by auto
  qed
qed simp

text \<open>More fuel does not change an answer.\<close>

lemma chunk_loop_mono: "chunk_loop n cfg lim dl d b e r = Some x \<Longrightarrow> n \<le> m \<Longrightarrow> chunk_loop m cfg lim dl d b e r = Some x"
proof (induction n arbitrary: m d b e r)
  case (Suc n)
  then obtain k where m: "m = Suc k" "n \<le> k" by (cases m) auto
  show ?case using Suc.prems(1) Suc.IH [OF _ m(2)] m(1) by (auto split: prod.splits progress.splits)
qed simp

text \<open>
  C36. Decoding always ends and never panics: whatever the stream delivers, in whatever pieces and
  with whatever failures, and whatever the limit, the drain limit and the spill budgets, the
  decoder returns an outcome or an error, and giving the loop more turns changes nothing.
\<close>

theorem decode_total:
  assumes "body_inv cfg b" "length (content b) + length (stream r) < 2 ^ 64"
  shows "\<exists>res b' e' r'. read_chunked_body cfg limit dl b e r = Some (res, b', e', r') \<and> res \<noteq> DPanic \<and>
    (\<forall>n > stream_size r. chunk_loop n cfg (limit_of limit) dl decoder_start b e r = Some (res, b', e', r'))"
proof -
  obtain res b' e' r' where l: "chunk_loop (Suc (stream_size r)) cfg (limit_of limit) dl decoder_start b e r = Some (res, b', e', r')"
    using chunk_loop_ends [OF lessI assms, of "limit_of limit" dl decoder_start e] by auto
  moreover have "res \<noteq> DPanic" using chunk_loop_sound [OF l assms(1) _ assms(2)] assms(2) by (simp add: decoder_start_def)
  ultimately show ?thesis using chunk_loop_mono [OF l] by (auto simp: read_chunked_body_def Suc_le_eq)
qed

text \<open>
  C19. What the decoder accepts is framed: an outcome that was not abandoned means the bytes consumed
  are a sequence of chunks, each with its declared size and its line end, then a last chunk and its
  trailer; the total is the size of the data. The body holds the earlier content followed by the
  data up to the limit, or by a head of it when a spill budget refused the object, and the outcome
  says so; memory stays under the threshold and the body under the limit in every case.
\<close>

theorem decode_sound:
  assumes "read_chunked_body cfg limit dl b e r = Some (Outcome outc, b', e', r')" "body_inv cfg b"
    "length (content b) + length (stream r) < 2 ^ 64"
  shows "length (ram b') \<le> unat (threshold cfg) \<and> length (content b') \<le> max (unat (limit_of limit)) (length (content b)) \<and>
    (rejected outc \<noteq> None \<or> abandoned outc \<longrightarrow> over_limit outc) \<and>
    (\<not> abandoned outc \<longrightarrow> (\<exists>p q data ended. framed (limit_of limit) decoder_start b r outc b' r' p q data ended))"
proof -
  have "decode_spec cfg (limit_of limit) decoder_start b r outc b' r'"
    using chunk_loop_sound [OF assms(1) [unfolded read_chunked_body_def] assms(2) _ assms(3)] assms(3) by (simp add: decoder_start_def)
  then show ?thesis unfolding decode_spec_def body_inv_def by blast
qed

end
