(* ===== verification/Icap_Roundtrip.thy ===== *)
theory Icap_Roundtrip
  imports Icap_Decode
begin

text \<open>
  The decoder inverts the encoders: chunk sizes print and parse back, and a body framed by
  \<^verbatim>\<open>encode\<close> or \<^verbatim>\<open>encode_into\<close> is decoded to itself, however the transport cuts it up, when the limit
  and the spill budgets leave room for it.
\<close>

section \<open>Chunk sizes\<close>

lemma unat_hex_digit: "k < 16 \<Longrightarrow> unat (hex_digit k) = (if k < 10 then 0x30 + k else 0x57 + k)"
  unfolding hex_digit_def by (auto simp del: of_nat_add intro!: unat_of_nat_lt)

lemma hex_val_digit: "k < 16 \<Longrightarrow> hex_val (hex_digit k) = Some k"
  using unat_hex_digit [of k] by (simp add: hex_val_def word_le_nat_alt split: if_splits)

lemma hex_num_snoc: "hex_num (bs @ [b]) = 16 * hex_num bs + the (hex_val b)"
  by (simp add: hex_num_def)

lemma hex_num_bytes: "hex_num (hex_bytes n) = n"
proof (induction n rule: hex_bytes.induct)
  case (1 n)
  show ?case
  proof (cases "n < 16")
    case True
    then show ?thesis by (simp add: hex_bytes.simps [of n] hex_num_def hex_val_digit)
  next
    case False
    then show ?thesis using 1 by (simp add: hex_bytes.simps [of n] hex_num_snoc hex_val_digit)
  qed
qed

lemma hex_bytes_digits: "b \<in> set (hex_bytes n) \<Longrightarrow> \<exists>k < 16. b = hex_digit k"
proof (induction n rule: hex_bytes.induct)
  case (1 n)
  show ?case
  proof (cases "n < 16")
    case True
    then show ?thesis using "1.prems" by (auto simp: hex_bytes.simps [of n])
  next
    case False
    then have "b \<in> set (hex_bytes (n div 16)) \<or> b = hex_digit (n mod 16)" using "1.prems" by (auto simp: hex_bytes.simps [of n])
    moreover have "n mod 16 < 16" by simp
    ultimately show ?thesis using "1.IH" [OF False] by blast
  qed
qed

lemma hex_bytes_length: "n < 16 ^ Suc k \<Longrightarrow> length (hex_bytes n) \<le> Suc k"
proof (induction k arbitrary: n)
  case (Suc k)
  have "n div 16 < 16 ^ Suc k" using Suc.prems by (simp add: less_mult_imp_div_less)
  then show ?case using Suc.IH by (subst hex_bytes.simps) simp
qed (simp add: hex_bytes.simps)

lemma hex_bytes_ne: "hex_bytes n \<noteq> []"
  by (subst hex_bytes.simps) simp

lemma hex_digit_plain: "k < 16 \<Longrightarrow> \<not> is_ws (hex_digit k) \<and> hex_digit k \<noteq> 0x3B \<and> hex_digit k \<noteq> CR \<and> hex_digit k \<noteq> LF"
  using unat_hex_digit [of k] by (auto simp: is_ws_def split: if_splits)

lemma hex_bytes_plain: "b \<in> set (hex_bytes n) \<Longrightarrow> \<not> is_ws b \<and> b \<noteq> 0x3B \<and> b \<noteq> CR \<and> b \<noteq> LF \<and> hex_val b \<noteq> None"
  using hex_bytes_digits [of b n] hex_digit_plain hex_val_digit by fastforce

lemma trim_plain: "(\<And>b. b \<in> set bs \<Longrightarrow> \<not> is_ws b) \<Longrightarrow> trim_ascii bs = bs"
proof -
  assume *: "\<And>b. b \<in> set bs \<Longrightarrow> \<not> is_ws b"
  have "dropWhile is_ws xs = xs" if "set xs \<subseteq> set bs" for xs
    using * that by (cases xs) auto
  then show ?thesis by (simp add: trim_ascii_def)
qed

lemma parse_hex_bytes:
  assumes "n < 2 ^ 64"
  shows "parse_chunk_size (hex_bytes n) = Inr (of_nat n)"
proof -
  have "n < 16 ^ Suc 15" using assms by simp
  then have "length (hex_bytes n) \<le> 16" using hex_bytes_length by fastforce
  then show ?thesis using assms hex_bytes_plain [of _ n]
    by (simp add: parse_chunk_size_def trim_plain hex_bytes_ne hex_num_bytes list_all_iff del: power_numeral)
qed

lemma header_hex:
  assumes "n < 2 ^ 64"
  shows "header (hex_bytes n @ [CR]) (of_nat n) []"
proof -
  have "0x3B \<notin> set (hex_bytes n)" "LF \<notin> set (hex_bytes n)" using hex_bytes_plain by blast+
  then show ?thesis using parse_hex_bytes [OF assms]
    by (simp add: header_def strip_last_def split_header_def position_none)
qed

section \<open>Room\<close>

text \<open>The body can take \<open>n\<close> more bytes: they fit in memory, or the budgets and a working disk take them.\<close>

definition has_room :: "spill_config \<Rightarrow> body \<Rightarrow> spill_env \<Rightarrow> nat \<Rightarrow> bool" where
  "has_room cfg b e n \<longleftrightarrow> body_inv cfg b \<and> length (content b) + n < 2 ^ 64 \<and>
     (case spill b of
        None \<Rightarrow> length (ram b) + n \<le> unat (threshold cfg) \<or>
          enabled cfg \<and> disk e = [] \<and> length (ram b) + n \<le> unat (max_object cfg) \<and>
          unat (in_use e) + length (ram b) + n \<le> unat (max_total cfg)
      | Some f \<Rightarrow> \<not> read_back f \<and> disk e = [] \<and> unat (charged f) + n \<le> unat (max_object cfg) \<and>
          unat (in_use e) + n \<le> unat (max_total cfg))"

lemma saturating_add_fits:
  "unat a + n \<le> unat m \<Longrightarrow> saturating_add a (of_nat n) \<le> m \<and> unat (saturating_add a (of_nat n)) = unat a + n"
  for a m :: "64 word"
proof -
  assume le: "unat a + n \<le> unat m"
  have "unat m < 2 ^ 64" using unat_bound [of m] by simp
  then have "unat (of_nat n :: u64) = n" using le by (intro unat_of_nat_lt) simp
  then show ?thesis using le \<open>unat m < 2 ^ 64\<close> by (simp add: word_le_nat_alt unat_saturating_add)
qed

lemma spill_write_room:
  assumes "\<not> read_back f" "disk e = []" "unat (charged f) + length bs \<le> unat (max_object cfg)"
    "unat (in_use e) + length bs \<le> unat (max_total cfg)"
  obtains f' e' where "spill_write_all cfg bs f e = (Inr (), f', e')" "f_data f' = f_data f @ bs" "\<not> read_back f'" "disk e' = []"
    "unat (charged f') = unat (charged f) + length bs" "unat (in_use e') = unat (in_use e) + length bs"
proof -
  note o = saturating_add_fits [OF assms(3)] and t = saturating_add_fits [OF assms(4)]
  let ?f = "f\<lparr>charged := saturating_add (charged f) (of_nat (length bs)), f_data := f_data f @ bs\<rparr>"
  let ?e = "e\<lparr>in_use := saturating_add (in_use e) (of_nat (length bs))\<rparr>"
  have "spill_write_all cfg bs f e = (Inr (), ?f, ?e)"
    using o t assms(1,2) by (simp add: spill_write_all_def charge_def Let_def not_less [symmetric] disk_answer_def)
  then show ?thesis using o t assms(1,2) by (intro that [of ?f ?e]) simp_all
qed

lemma body_append_room:
  assumes "spill b = Some f" "has_room cfg b e n" "length bs \<le> n"
  obtains b' e' where "body_append cfg bs f b e = (WOk, b', e')" "has_room cfg b' e' (n - length bs)" "content b' = content b @ bs"
proof -
  have f: "\<not> read_back f" "disk e = []" "unat (charged f) + n \<le> unat (max_object cfg)" "unat (in_use e) + n \<le> unat (max_total cfg)"
    and inv: "body_inv cfg b" and fits: "length (content b) + n < 2 ^ 64" using assms(1,2) by (auto simp: has_room_def)
  obtain f' e' where w: "spill_write_all cfg bs f e = (Inr (), f', e')" "f_data f' = f_data f @ bs" "\<not> read_back f'" "disk e' = []"
    "unat (charged f') = unat (charged f) + length bs" "unat (in_use e') = unat (in_use e) + length bs"
    by (rule spill_write_room [OF f(1,2), of bs cfg]) (use f assms(3) in auto)
  have n: "unat (b_len b) = length (f_data f)" using inv assms(1) by (simp add: body_inv_def content_def)
  obtain k where k: "add_chk (b_len b) (of_nat (length bs)) = Some k" "unat k = length (f_data f @ bs)"
    using len_add [OF n, of bs] fits assms(1,3) by (auto simp: content_def)
  show ?thesis
  proof (rule that)
    show "body_append cfg bs f b e = (WOk, b\<lparr>spill := Some f', b_len := k\<rparr>, e')" by (simp add: body_append_def w k)
    show "has_room cfg (b\<lparr>spill := Some f', b_len := k\<rparr>) e' (n - length bs)"
      using w k inv fits f assms(1,3) by (auto simp: has_room_def body_inv_def content_def)
    show "content (b\<lparr>spill := Some f', b_len := k\<rparr>) = content b @ bs" using w assms(1) by (simp add: content_def)
  qed
qed

lemma body_write_room:
  assumes "has_room cfg b e n" "length bs \<le> n"
  obtains b' e' where "body_write cfg bs b e = (WOk, b', e')" "has_room cfg b' e' (n - length bs)" "content b' = content b @ bs"
proof (cases "spill b")
  case (Some f)
  then show ?thesis using body_append_room [OF Some assms] that by (auto simp: body_write_def)
next
  case None
  have inv: "body_inv cfg b" and fits: "length (content b) + n < 2 ^ 64" and c: "content b = ram b"
    using assms(1) None by (auto simp: has_room_def content_def)
  have n: "unat (b_len b) = length (ram b)" and le: "length (ram b) \<le> unat (threshold cfg)" using inv c by (simp_all add: body_inv_def)
  have l: "unat (of_nat (length (ram b)) :: u64) = length (ram b)" using fits c by (intro unat_of_nat_lt) simp
  define room where "room = threshold cfg - of_nat (length (ram b))"
  have s: "sub_chk (threshold cfg) (of_nat (length (ram b))) = Some room" and room: "unat room = unat (threshold cfg) - length (ram b)"
    using le l by (simp_all add: sub_chk_def room_def word_le_nat_alt unat_sub)
  show ?thesis
  proof (cases "length bs \<le> unat room")
    case True
    obtain k where k: "add_chk (b_len b) (of_nat (length bs)) = Some k" "unat k = length (ram b @ bs)"
      using len_add [OF n, of bs] fits c assms(2) by auto
    show ?thesis
    proof (rule that)
      show "body_write cfg bs b e = (WOk, b\<lparr>ram := ram b @ bs, b_len := k\<rparr>, e)" by (simp add: body_write_def None s True k)
      show "has_room cfg (b\<lparr>ram := ram b @ bs, b_len := k\<rparr>) e (n - length bs)"
        using assms None True room le k fits c by (auto simp: has_room_def body_inv_def content_def)
      show "content (b\<lparr>ram := ram b @ bs, b_len := k\<rparr>) = content b @ bs" using None by (simp add: content_def)
    qed
  next
    case False
    let ?fits = "take (unat room) bs" and ?rest = "drop (unat room) bs"
    have big: "enabled cfg" "disk e = []" "length (ram b) + n \<le> unat (max_object cfg)" "unat (in_use e) + length (ram b) + n \<le> unat (max_total cfg)"
      using assms None False room le by (auto simp: has_room_def)
    obtain k where k: "add_chk (b_len b) (of_nat (length ?fits)) = Some k" "unat k = length (ram b @ ?fits)"
      using len_add [OF n, of ?fits] fits c assms(2) by fastforce
    let ?b = "b\<lparr>ram := ram b @ ?fits, b_len := k\<rparr>" and ?f = "\<lparr>f_data = [], read_back = False, charged = 0\<rparr> :: spill_file"
    have cr: "spill_create cfg e = (Inr ?f, e)" using big by (simp add: spill_create_def disk_answer_def)
    obtain f' e' where w: "spill_write_all cfg (ram ?b) ?f e = (Inr (), f', e')" "f_data f' = ram ?b" "\<not> read_back f'" "disk e' = []"
      "unat (charged f') = length (ram ?b)" "unat (in_use e') = unat (in_use e) + length (ram ?b)"
      by (rule spill_write_room [of ?f e "ram ?b" cfg]) (use big assms(2) in auto)
    let ?b1 = "?b\<lparr>spill := Some f'\<rparr>"
    have r1: "has_room cfg ?b1 e' (n - length ?fits)"
      using w k room le big fits c assms(2) by (auto simp: has_room_def body_inv_def content_def)
    obtain b2 e2 where a: "body_append cfg ?rest f' ?b1 e' = (WOk, b2, e2)" "has_room cfg b2 e2 (n - length ?fits - length ?rest)"
      "content b2 = content ?b1 @ ?rest"
      by (rule body_append_room [OF _ r1, of f' ?rest]) (use assms(2) in auto)
    have "n - length ?fits - length ?rest = n - length bs" using assms(2) by auto
    moreover have "content b2 = content b @ bs" using a(3) w(2) c by (simp add: content_def)
    moreover have "body_write cfg bs b e = (WOk, b2, e2)" using None s False k cr w a unfolding body_write_def by (simp add: Let_def)
    ultimately show ?thesis using that a(2) by simp
  qed
qed

section \<open>Decoding what was encoded\<close>

lemma keep_loop_room:
  assumes "clean r" "stream r = c @ rest" "length c = unat keep" "has_room cfg b e n" "length c \<le> n"
  shows "\<exists>b' e' r'. keep_loop cfg keep b e r = (KDone, b', e', r') \<and> clean r' \<and> stream r' = rest \<and>
    has_room cfg b' e' (n - length c) \<and> content b' = content b @ c"
  using assms
proof (induction "stream_size r" arbitrary: c keep b e n r rule: less_induct)
  case less
  show ?case
  proof (cases "keep = 0")
    case True
    then show ?thesis using less.prems by auto
  next
    case False
    then have ne: "c \<noteq> []" and pos: "0 < unat (min keep SINK)"
      using less.prems(3) by (auto simp: unat_eq_0 unat_gt_0 SINK_def min_def)
    obtain got r1 where rd: "read_some (unat (min keep SINK)) r = (Some got, r1)" "got \<noteq> []"
      by (rule read_some_clean [OF less.prems(1) _ pos]) (use ne less.prems(2) in auto)
    note st = read_some_stream [OF rd(1)]
    have m: "unat (keep - of_nat (length got)) + length got = unat keep" using st by (intro minus_got) simp
    then have "length got \<le> length c" using less.prems(3) by simp
    then obtain c1 where c1: "c = got @ c1" "stream r1 = c1 @ rest"
      using st less.prems(2) by (auto simp: append_eq_append_conv2)
    obtain b1 e1 where w: "body_write cfg got b e = (WOk, b1, e1)" "has_room cfg b1 e1 (n - length got)" "content b1 = content b @ got"
      by (rule body_write_room [OF less.prems(4), of got]) (use c1 less.prems(5) in auto)
    have eq: "keep_loop cfg keep b e r = keep_loop cfg (keep - of_nat (length got)) b1 e1 r1"
      using False rd w by (simp add: keep_loop.simps [of cfg keep])
    have "\<exists>b' e' r'. keep_loop cfg (keep - of_nat (length got)) b1 e1 r1 = (KDone, b', e', r') \<and> clean r' \<and> stream r' = rest \<and>
        has_room cfg b' e' (n - length got - length c1) \<and> content b' = content b1 @ c1"
      using st less.prems c1 m by (intro less.hyps [OF read_some_shrinks [OF rd] _ c1(2) _ w(2)]) auto
    then show ?thesis using eq w(3) c1(1) by (auto simp: diff_diff_eq)
  qed
qed

lemma chunk_step_frame:
  assumes "clean r" "stream r = chunk_frame c @ rest" "c \<noteq> []" "has_room cfg b e n" "length c \<le> n" "d_rejected d = None"
    "length (content b) + length c \<le> unat lim"
  shows "\<exists>b' e' r'. chunk_step cfg lim dl d b e r = (More (d\<lparr>d_total := saturating_add (d_total d) (of_nat (length c))\<rparr>), b', e', r') \<and>
    clean r' \<and> stream r' = rest \<and> has_room cfg b' e' (n - length c) \<and> content b' = content b @ c"
proof -
  let ?sz = "of_nat (length c) :: u64"
  have inv: "body_inv cfg b" and lt: "length c < 2 ^ 64" using assms(4,5) by (auto simp: has_room_def)
  have sz: "unat ?sz = length c" using lt by (intro unat_of_nat_lt) simp
  let ?l = "hex_bytes (length c) @ [CR]"
  have hd: "header ?l ?sz []" by (rule header_hex [OF lt])
  have nl: "LF \<notin> set ?l" using hd by (simp add: header_def)
  have "length c < 16 ^ Suc 15" using lt by simp
  then have "length ?l \<le> MAX_CHUNK_LINE" using hex_bytes_length [of "length c" 15] by (simp add: MAX_CHUNK_LINE_def)
  moreover have "stream r = ?l @ LF # (c @ CRLF @ rest)" using assms(2) by (simp add: chunk_frame_def CRLF_def)
  ultimately obtain r1 where rl: "read_line MAX_CHUNK_LINE r = (Inr (Some (?l @ [LF])), r1)" "clean r1" "stream r1 = c @ CRLF @ rest"
    using read_line_complete [OF assms(1) _ nl] by blast
  obtain b2 e2 r2 where k: "keep_loop cfg ?sz b e r1 = (KDone, b2, e2, r2)" "clean r2" "stream r2 = CRLF @ rest"
    "has_room cfg b2 e2 (n - length c)" "content b2 = content b @ c"
    using keep_loop_room [OF rl(2,3) sz [symmetric] assms(4,5)] by blast
  have "stream r2 = [CR] @ LF # rest" using k(3) by (simp add: CRLF_def)
  from read_line_complete [OF k(2) this, of 64] obtain r3 where r3: "read_line 64 r2 = (Inr (Some ([CR] @ [LF])), r3)" "clean r3" "stream r3 = rest"
    by auto
  have kept: "kept lim d b ?sz = ?sz"
  proof -
    have "unat (kept lim d b ?sz) = unat ?sz" using unat_kept(1) [OF inv, of lim d ?sz] assms(6,7) sz by simp
    then show ?thesis by (simp only: word_unat_eq_iff)
  qed
  have tail: "chunk_tail 0 dd r2 = (More dd, r3)" for dd
    using r3(1) trim_eol_blank [of "[CR]"] by (simp add: chunk_tail_def)
  have "?sz \<noteq> 0" using sz assms(3) by (metis length_0_conv unat_0)
  then have "chunk_step cfg lim dl d b e r = chunk_data cfg lim dl ?sz d b e r1"
    using rl(1) hd trim_eol_line [of ?l] unfolding chunk_step_def by (auto simp: header_def split: prod.splits)
  also have "\<dots> = (More (d\<lparr>d_total := saturating_add (d_total d) ?sz\<rparr>), b2, e2, r3)"
    by (simp add: chunk_data_def Let_def kept charge_discard_def charge_drain_def k(1) tail)
  finally show ?thesis using k(4,5) r3 by blast
qed

lemma chunk_step_last:
  assumes "clean r" "stream r = last_chunk @ rest"
  shows "\<exists>r'. chunk_step cfg lim dl d b e r = (Ended (Outcome \<lparr>o_end = Eof, over_limit = d_over d, abandoned = False,
      rejected = d_rejected d, total = d_total d\<rparr>), b, e, r') \<and> clean r' \<and> stream r' = rest"
proof -
  have h: "header [0x30, CR] 0 []" using header_hex [of 0] by (simp add: hex_bytes.simps hex_digit_def)
  have "stream r = [0x30, CR] @ LF # (CRLF @ rest)" using assms(2) by (simp add: last_chunk_def CRLF_def)
  from read_line_complete [OF assms(1) this, of MAX_CHUNK_LINE]
  obtain r1 where rl: "read_line MAX_CHUNK_LINE r = (Inr (Some ([0x30, CR] @ [LF])), r1)" "clean r1" "stream r1 = CRLF @ rest"
    by (auto simp: MAX_CHUNK_LINE_def)
  have "stream r1 = [CR] @ LF # rest" using rl(3) by (simp add: CRLF_def)
  from read_line_complete [OF rl(2) this, of MAX_CHUNK_LINE]
  obtain r2 where r2: "read_line MAX_CHUNK_LINE r1 = (Inr (Some ([CR] @ [LF])), r2)" "clean r2" "stream r2 = rest"
    by (auto simp: MAX_CHUNK_LINE_def)
  have "trailer_lines 32 r1 = (Inr (), r2)" using r2(1) trim_eol_blank [of "[CR]"] by (simp add: trailer_lines.simps(2) [of 31, simplified])
  then have tr: "read_trailer r1 = (Inr (), r2)" unfolding read_trailer_def MAX_TRAILER_LINES_def by simp
  have "\<not> has_ieof []" by (simp add: has_ieof_def trim_ascii_def)
  then show ?thesis using rl(1) h trim_eol_line [of "[0x30, CR]"] tr r2(2,3) unfolding chunk_step_def
    by (auto simp: header_def split: prod.splits)
qed

lemma chunk_loop_frames:
  assumes "clean r" "stream r = concat (map chunk_frame cs) @ last_chunk @ rest" "list_all (\<lambda>c. c \<noteq> []) cs"
    "has_room cfg b e (length (concat cs))" "d_rejected d = None" "length (content b) + length (concat cs) \<le> unat lim" "length cs < n"
    "unat (d_total d) + length (concat cs) < 2 ^ 64"
  shows "\<exists>b' e' r'. chunk_loop n cfg lim dl d b e r = Some (Outcome \<lparr>o_end = Eof, over_limit = d_over d, abandoned = False,
      rejected = None, total = d_total d + of_nat (length (concat cs))\<rparr>, b', e', r') \<and> clean r' \<and> stream r' = rest \<and>
      content b' = content b @ concat cs"
  using assms
proof (induction cs arbitrary: n d b e r)
  case Nil
  then obtain k where n: "n = Suc k" by (cases n) auto
  have "stream r = last_chunk @ rest" using Nil.prems(2) by simp
  from chunk_step_last [OF Nil.prems(1) this, of cfg lim dl d b e] show ?case using Nil.prems(5) by (auto simp: n)
next
  case (Cons c cs)
  then obtain k where n: "n = Suc k" "length cs < k" by (cases n) auto
  let ?d = "d\<lparr>d_total := saturating_add (d_total d) (of_nat (length c))\<rparr>"
  have fr: "stream r = chunk_frame c @ concat (map chunk_frame cs) @ last_chunk @ rest" "c \<noteq> []" "list_all (\<lambda>c. c \<noteq> []) cs"
    using Cons.prems(2,3) by simp_all
  have "length c \<le> length (concat (c # cs))" "length (content b) + length c \<le> unat lim" using Cons.prems(6) by simp_all
  from chunk_step_frame [OF Cons.prems(1) fr(1,2) Cons.prems(4) this(1) Cons.prems(5) this(2), of dl]
  obtain b1 e1 r1 where s: "chunk_step cfg lim dl d b e r = (More ?d, b1, e1, r1)" "clean r1"
    "stream r1 = concat (map chunk_frame cs) @ last_chunk @ rest" "has_room cfg b1 e1 (length (concat cs))" "content b1 = content b @ c"
    by auto
  have "unat (of_nat (length c) :: u64) = length c" using Cons.prems(8) by (intro unat_of_nat_lt) simp
  then have t: "d_total ?d = d_total d + of_nat (length c)" "unat (d_total ?d) = unat (d_total d) + length c"
    using Cons.prems(8) by (simp_all add: saturating_add_def unat_word_ariths)
  have "\<exists>b' e' r'. chunk_loop k cfg lim dl ?d b1 e1 r1 = Some (Outcome \<lparr>o_end = Eof, over_limit = d_over ?d, abandoned = False,
      rejected = None, total = d_total ?d + of_nat (length (concat cs))\<rparr>, b', e', r') \<and> clean r' \<and> stream r' = rest \<and>
      content b' = content b1 @ concat cs"
    using Cons.prems(5,6,8) s(5) t(2) by (intro Cons.IH [OF s(2,3) fr(3) s(4) _ _ n(2)]) simp_all
  then show ?case using s t(1) n(1) by (auto simp: add.assoc)
qed

lemma blocks_concat: "concat (blocks sizes bs) = bs \<and> list_all (\<lambda>c. c \<noteq> []) (blocks sizes bs)"
proof (induction sizes bs rule: blocks.induct)
  case (1 sizes bs)
  show ?case
  proof (cases "bs = []")
    case False
    then show ?thesis using 1 block_size_pos [of sizes] by (simp add: blocks.simps [of sizes])
  qed (simp add: blocks.simps)
qed

lemma encode_frames:
  assumes "enc = encode (payload_bytes p) \<or> enc = encode_into sizes p"
  obtains cs where "enc = concat (map chunk_frame cs) @ last_chunk" "concat cs = payload_bytes p" "list_all (\<lambda>c. c \<noteq> []) cs"
proof (cases "enc = encode (payload_bytes p)")
  case True
  then show ?thesis using that [of "if payload_bytes p = [] then [] else [payload_bytes p]"] by (simp add: encode_def split: if_splits)
next
  case False
  then show ?thesis using assms that [of "blocks sizes (payload_bytes p)"] blocks_concat [of sizes "payload_bytes p"]
    by (simp add: encode_into_def)
qed

lemma frames_length: "length cs \<le> length (concat (map chunk_frame cs))"
  by (induction cs) (auto simp: chunk_frame_def CRLF_def)

lemma stream_size_ge: "length (stream r) \<le> stream_size r"
proof (induction r)
  case (Cons s r)
  then show ?case by (cases s) (auto simp: stream_size_def)
qed (simp add: stream_size_def)

lemma finish_content: "payload_bytes (body_finish b) = content b"
  by (simp add: payload_bytes_def body_finish_def content_def reopen_def split: option.splits)

lemma decode_frames:
  assumes "clean r" "stream r = concat (map chunk_frame cs) @ last_chunk @ rest" "list_all (\<lambda>c. c \<noteq> []) cs"
    "has_room cfg b e (length (concat cs))" "length (content b) + length (concat cs) \<le> unat (limit_of limit)"
  shows "\<exists>b' e' r'. read_chunked_body cfg limit dl b e r = Some (Outcome \<lparr>o_end = Eof, over_limit = False, abandoned = False,
      rejected = None, total = of_nat (length (concat cs))\<rparr>, b', e', r') \<and> clean r' \<and> stream r' = rest \<and> content b' = content b @ concat cs"
proof -
  have "length cs \<le> length (stream r)" using assms(2) frames_length [of cs] by simp
  then have n: "length cs < Suc (stream_size r)" using stream_size_ge [of r] by simp
  have "length (concat cs) < 2 ^ 64" using assms(4) by (auto simp: has_room_def)
  then show ?thesis
    using chunk_loop_frames [OF assms(1-4) _ assms(5) n, of decoder_start dl] by (simp add: read_chunked_body_def decoder_start_def)
qed

text \<open>
  C37. A payload framed by either encoder, followed by anything, decodes to itself: however the
  transport cuts the bytes, when the limit and the budgets leave room, the decoder reports a plain
  end with nothing dropped and the right total, the body handed to the scanner is what was there
  before followed by the payload, and the stream is left exactly after the framed body.
\<close>

theorem decode_encode:
  assumes "clean r" "stream r = enc @ rest" "enc = encode (payload_bytes p) \<or> enc = encode_into sizes p"
    "has_room cfg b e (length (payload_bytes p))" "length (content b) + length (payload_bytes p) \<le> unat (limit_of limit)"
  shows "\<exists>b' e' r'. read_chunked_body cfg limit dl b e r = Some (Outcome \<lparr>o_end = Eof, over_limit = False, abandoned = False,
      rejected = None, total = of_nat (length (payload_bytes p))\<rparr>, b', e', r') \<and> clean r' \<and> stream r' = rest \<and>
      payload_bytes (body_finish b') = content b @ payload_bytes p"
proof -
  obtain cs where cs: "enc = concat (map chunk_frame cs) @ last_chunk" "concat cs = payload_bytes p" "list_all (\<lambda>c. c \<noteq> []) cs"
    by (rule encode_frames [OF assms(3)])
  have "stream r = concat (map chunk_frame cs) @ last_chunk @ rest" using assms(2) cs(1) by simp
  from decode_frames [OF assms(1) this cs(3), of cfg b e limit dl] assms(4,5) cs(2) show ?thesis by (simp add: finish_content)
qed

definition demo_stream :: reader where
  "demo_stream = [Data [0x32, CR], Data [LF, 0x61], Data ([0x62] @ CRLF @ last_chunk)]"

theorem decode_encode_witness:
  "\<exists>b' e' r'. read_chunked_body default_config None 0 body_new \<lparr>in_use = 0, disk = []\<rparr> demo_stream =
     Some (Outcome \<lparr>o_end = Eof, over_limit = False, abandoned = False, rejected = None, total = 2\<rparr>, b', e', r') \<and>
     stream r' = [] \<and> payload_bytes (body_finish b') = [0x61, 0x62]"
proof -
  have p: "payload_bytes (Mem [0x61, 0x62]) = [0x61, 0x62]" by (simp add: payload_bytes_def)
  have c: "clean demo_stream" by (simp add: demo_stream_def)
  have s: "stream demo_stream = encode (payload_bytes (Mem [0x61, 0x62])) @ []"
    by (simp add: demo_stream_def p encode_def chunk_frame_def CRLF_def hex_bytes.simps hex_digit_def)
  have r: "has_room default_config body_new \<lparr>in_use = 0, disk = []\<rparr> (length (payload_bytes (Mem [0x61, 0x62])))"
    by (simp add: p has_room_def body_new_def body_inv_def content_def default_config_def)
  have l: "length (content body_new) + length (payload_bytes (Mem [0x61, 0x62])) \<le> unat (limit_of None)"
    by (simp add: p limit_of_def unat_minus_1)
  show ?thesis using decode_encode [OF c s disjI1 [OF refl] r l, of 0] by (auto simp: p)
qed

theorem decode_total_witness:
  "\<exists>res b' e' r'. read_chunked_body default_config None 0 body_new \<lparr>in_use = 0, disk = []\<rparr> [Data [0x32, CR], Fail] = Some (res, b', e', r') \<and>
     res \<noteq> DPanic"
proof -
  have "length (content body_new) + length (stream [Data [0x32, CR], Fail]) < 2 ^ 64" by simp
  from decode_total [OF body_new_inv(1) this] show ?thesis by meson
qed

theorem decode_sound_witness:
  "\<exists>b' e' r' outc. read_chunked_body default_config (Some 2) 0 body_new \<lparr>in_use = 0, disk = []\<rparr> demo_stream =
     Some (Outcome outc, b', e', r') \<and> length (content b') \<le> 2"
proof -
  have c: "clean demo_stream" and s: "stream demo_stream = concat (map chunk_frame [[0x61, 0x62]]) @ last_chunk @ []"
    by (simp_all add: demo_stream_def chunk_frame_def CRLF_def hex_bytes.simps hex_digit_def)
  have "has_room default_config body_new \<lparr>in_use = 0, disk = []\<rparr> (length (concat [[0x61 :: u8, 0x62]]))"
    by (simp add: has_room_def body_new_def body_inv_def content_def default_config_def)
  from decode_frames [OF c s _ this, of "Some 2" 0] obtain b' e' r' outc where
    d: "read_chunked_body default_config (Some 2) 0 body_new \<lparr>in_use = 0, disk = []\<rparr> demo_stream = Some (Outcome outc, b', e', r')"
    by (auto simp: limit_of_def)
  have "length (stream demo_stream) < 2 ^ 64" by (simp add: demo_stream_def last_chunk_def CRLF_def)
  then have "length (content b') \<le> max (unat (limit_of (Some 2))) 0" using decode_sound [OF d] by simp
  then show ?thesis using d by (auto simp: limit_of_def)
qed

section \<open>The line ceiling\<close>

text \<open>
  The ceiling on a line only counts bytes of pieces without a line feed: a line of any length that
  arrives in one piece is accepted.
\<close>

lemma read_line_overlong:
  assumes "LF \<notin> set l"
  shows "read_line MAX_CHUNK_LINE [Data (l @ [LF])] = (Inr (Some (l @ [LF])), [])"
  using assms by (simp add: read_line_def position_at consume_def)

end
