(* ===== verification/Source.thy ===== *)
theory Source
  imports Exav_Prelude
begin

text \<open>
  Random access to the object being scanned (\<^verbatim>\<open>crates/exav-unpack/src/source.rs\<close>): the provided
  methods of the \<^verbatim>\<open>ByteSource\<close> trait, its implementations by a slice, by the block cache over a
  seekable source, by a sub-range and by the lowercased view, the reading cursor, and the two
  implementations of the \<^verbatim>\<open>Bytes\<close> trait for index loops.

  A source is a state with a length and a \<^verbatim>\<open>window\<close> function; the trait's provided methods take the
  function as an argument, as the trait takes it from its implementor. Offsets and lengths are
  natural numbers: the code's saturating additions are clamped to the length at once, and no sum
  here exceeds twice an object's length. The substring search of the \<^verbatim>\<open>memchr\<close> package is an
  argument as well.
\<close>

definition BLOCK_SIZE :: nat where "BLOCK_SIZE = 64 * 1024"
definition CACHE_BYTES :: nat where "CACHE_BYTES = 8 * 1024 * 1024"
definition CHUNK :: nat where "CHUNK = 1024 * 1024"

type_synonym 's window_fn = "'s \<Rightarrow> nat \<Rightarrow> nat \<Rightarrow> bytes \<times> 's"
type_synonym memmem = "bytes \<Rightarrow> bytes \<Rightarrow> nat option"

section \<open>The trait's provided methods\<close>

text \<open>The visitor returns whether to go on, with its own state.\<close>

function chunks_loop :: "'s window_fn \<Rightarrow> (nat \<Rightarrow> bytes \<Rightarrow> 'a \<Rightarrow> bool \<times> 'a) \<Rightarrow> nat \<Rightarrow> nat \<Rightarrow> 'a \<Rightarrow> 's \<Rightarrow> 'a \<times> 's" where
  "chunks_loop win f to at a s =
     (if at < to then
        (case win s at (min (to - at) CHUNK) of (w, s) \<Rightarrow>
         if w = [] then (a, s)
         else case f at w a of (go, a) \<Rightarrow>
           if go then chunks_loop win f to (at + length w) a s else (a, s))
      else (a, s))"
  by pat_completeness auto
termination
  by (relation "measure (\<lambda>(win, f, to, at, a, s). to - at)") (auto simp: diff_less_mono2)

declare chunks_loop.simps [simp del]

definition src_chunks :: "('s \<Rightarrow> nat) \<Rightarrow> 's window_fn \<Rightarrow> (nat \<Rightarrow> bytes \<Rightarrow> 'a \<Rightarrow> bool \<times> 'a) \<Rightarrow> nat \<Rightarrow> nat \<Rightarrow> 'a \<Rightarrow> 's \<Rightarrow> 'a \<times> 's" where
  "src_chunks len win f from to a s = chunks_loop win f (min to (len s)) from a s"

text \<open>The search: never entered with an empty needle.\<close>

function find_loop :: "'s window_fn \<Rightarrow> memmem \<Rightarrow> bytes \<Rightarrow> nat \<Rightarrow> nat \<Rightarrow> nat \<Rightarrow> 's \<Rightarrow> nat option \<times> 's" where
  "find_loop win memmem needle to at span s =
     (if needle \<noteq> [] \<and> at + length needle \<le> to then
        (case win s at (min (to - at) (span + length needle - 1)) of (w, s) \<Rightarrow>
         if length w < length needle then (None, s)
         else case memmem w needle of
           Some p \<Rightarrow> (Some (at + p), s)
         | None \<Rightarrow> find_loop win memmem needle to (at + (length w - (length needle - 1))) (min (span * 2) CHUNK) s)
      else (None, s))"
  by pat_completeness auto
termination
proof (relation "measure (\<lambda>(win, memmem, needle, to, at, span, s). to - at)")
  fix win :: "'s window_fn" and memmem and needle :: bytes and to at span :: nat and s :: 's and p w s'
  assume "needle \<noteq> [] \<and> at + length needle \<le> to" "\<not> length w < length needle"
  then have "0 < length needle" "at + length needle \<le> to" "length needle \<le> length w" by auto
  then have "at < to" "length needle - 1 < length w" by linarith+
  then show "((win, memmem, needle, to, at + (length w - (length needle - 1)), min (span * 2) CHUNK, s'),
      win, memmem, needle, to, at, span, s) \<in> measure (\<lambda>(win, memmem, needle, to, at, span, s). to - at)"
    by auto
qed simp

declare find_loop.simps [simp del]

definition src_find :: "('s \<Rightarrow> nat) \<Rightarrow> 's window_fn \<Rightarrow> memmem \<Rightarrow> bytes \<Rightarrow> nat \<Rightarrow> nat \<Rightarrow> 's \<Rightarrow> nat option \<times> 's" where
  "src_find len win memmem needle from to s =
     (let to = min to (len s) in
      if needle = [] then (if from \<le> to then Some from else None, s)
      else if from \<ge> to \<or> to - from < length needle then (None, s)
      else find_loop win memmem needle to from 4096 s)"

definition src_materialize :: "('s \<Rightarrow> bytes option) \<Rightarrow> ('s \<Rightarrow> nat) \<Rightarrow> 's window_fn \<Rightarrow> nat \<Rightarrow> 's \<Rightarrow> bytes option \<times> 's" where
  "src_materialize as_slice len win limit s =
     (case as_slice s of
        Some b \<Rightarrow> (Some b, s)
      | None \<Rightarrow>
          if limit < len s then (None, s)
          else case win s 0 (len s) of (w, s') \<Rightarrow> (if length w = len s then Some w else None, s'))"

section \<open>A slice\<close>

definition slice_window :: "bytes window_fn" where
  "slice_window s off n =
     (let start = min off (length s); en = min (start + n) (length s)
      in (take (en - start) (drop start s), s))"

definition slice_chunks :: "(nat \<Rightarrow> bytes \<Rightarrow> 'a \<Rightarrow> bool \<times> 'a) \<Rightarrow> nat \<Rightarrow> nat \<Rightarrow> 'a \<Rightarrow> bytes \<Rightarrow> 'a" where
  "slice_chunks f from to a s =
     (let to = min to (length s) in
      if from < to then snd (f from (take (to - from) (drop from s)) a) else a)"

definition slice_find :: "memmem \<Rightarrow> bytes \<Rightarrow> nat \<Rightarrow> nat \<Rightarrow> bytes \<Rightarrow> nat option" where
  "slice_find memmem needle from to s =
     (let to = min to (length s) in
      if to < from then None
      else map_option (\<lambda>p. from + p) (memmem (take (to - from) (drop from s)) needle))"

section \<open>The block cache\<close>

text \<open>
  The seekable source under the cache: its bytes, the length it claims, and how it answers. A read
  may deliver fewer bytes than asked for (but at least one where there is one), be interrupted, or
  fail; a seek may fail. Out of answers, it delivers what is asked.
\<close>

datatype answer = Short nat | Interrupted | Failed string

record raw =
  r_file :: bytes
  claimed :: nat
  answers :: "answer list"

fun raw_answer :: "raw \<Rightarrow> answer option \<times> raw" where
  "raw_answer r = (case answers r of [] \<Rightarrow> (None, r) | a # as \<Rightarrow> (Some a, r\<lparr>answers := as\<rparr>))"

text \<open>One \<^verbatim>\<open>read\<close> of \<open>n\<close> bytes at the position \<open>p\<close>.\<close>

datatype read_res = Got bytes | Retry | Err string

definition raw_read :: "nat \<Rightarrow> nat \<Rightarrow> raw \<Rightarrow> read_res \<times> raw" where
  "raw_read p n r =
     (case raw_answer r of
        (None, r) \<Rightarrow> (Got (take n (drop p (r_file r))), r)
      | (Some (Short k), r) \<Rightarrow> (Got (take (min n (Suc k)) (drop p (r_file r))), r)
      | (Some Interrupted, r) \<Rightarrow> (Retry, r)
      | (Some (Failed e), r) \<Rightarrow> (Err e, r))"

definition raw_seek :: "raw \<Rightarrow> string option \<times> raw" where
  "raw_seek r = (case raw_answer r of (Some (Failed e), r) \<Rightarrow> (Some e, r) | (_, r) \<Rightarrow> (None, r))"

lemma raw_read_measure:
  assumes "raw_read p n r = (x, r')"
  shows "length (answers r') \<le> length (answers r)" "x = Retry \<Longrightarrow> length (answers r') < length (answers r)"
  using assms by (auto simp: raw_read_def split: list.splits answer.splits)

function read_full :: "nat \<Rightarrow> nat \<Rightarrow> bytes \<Rightarrow> raw \<Rightarrow> (string + bytes) \<times> raw" where
  "read_full p n acc r =
     (if length acc < n then
        (case raw_read (p + length acc) (n - length acc) r of
           (Got bs, r) \<Rightarrow> if bs = [] then (Inr acc, r) else read_full p n (acc @ bs) r
         | (Retry, r) \<Rightarrow> read_full p n acc r
         | (Err e, r) \<Rightarrow> (Inl e, r))
      else (Inr acc, r))"
  by pat_completeness auto
termination
proof (relation "measures [\<lambda>(p, n, acc, r). n - length acc, \<lambda>(p, n, acc, r). length (answers r)]")
  fix p n :: nat and acc bs :: bytes and r x r'
  assume "length acc < n" "bs \<noteq> []"
  then show "((p, n, acc @ bs, r'), p, n, acc, r) \<in> measures [\<lambda>(p, n, acc, r). n - length acc, \<lambda>(p, n, acc, r). length (answers r)]"
    by (auto simp: diff_less_mono2)
next
  fix p n :: nat and acc :: bytes and r x r'
  assume "(x, r') = raw_read (p + length acc) (n - length acc) r" "x = Retry"
  then show "((p, n, acc, r'), p, n, acc, r) \<in> measures [\<lambda>(p, n, acc, r). n - length acc, \<lambda>(p, n, acc, r). length (answers r)]"
    using raw_read_measure(2) [of "p + length acc" "n - length acc" r x r'] by simp
qed simp

declare read_full.simps [simp del]

record block_cache =
  c_src :: raw
  c_len :: nat
  block :: nat
  blocks :: "(nat \<times> bytes \<times> nat) list"
  max_blocks :: nat
  tick :: nat
  c_error :: "string option"

definition cache_new :: "nat \<Rightarrow> nat \<Rightarrow> raw \<Rightarrow> string + block_cache" where
  "cache_new blk capacity r =
     (case raw_seek r of
        (Some e, _) \<Rightarrow> Inl e
      | (None, r) \<Rightarrow>
          (let blk = max blk 1 in
           Inr \<lparr>c_src = r, c_len = claimed r, block = blk, blocks = [], max_blocks = max (capacity div blk) 2,
                tick = 0, c_error = None\<rparr>))"

text \<open>The least recently used entry; ticks are distinct.\<close>

fun oldest :: "(nat \<times> bytes \<times> nat) list \<Rightarrow> (nat \<times> nat) option" where
  "oldest [] = None"
| "oldest ((k, d, t) # bs) =
     (case oldest bs of None \<Rightarrow> Some (k, t) | Some (k', t') \<Rightarrow> if t \<le> t' then Some (k, t) else Some (k', t'))"

definition drop_key :: "nat \<Rightarrow> (nat \<times> 'b) list \<Rightarrow> (nat \<times> 'b) list" where
  "drop_key k bs = filter (\<lambda>(j, _). j \<noteq> k) bs"

definition evict :: "nat \<Rightarrow> (nat \<times> bytes \<times> nat) list \<Rightarrow> (nat \<times> bytes \<times> nat) list" where
  "evict mx bs = (if mx \<le> length bs then (case oldest bs of None \<Rightarrow> bs | Some (k, _) \<Rightarrow> drop_key k bs) else bs)"

definition block_part :: "bytes \<Rightarrow> nat \<Rightarrow> nat \<Rightarrow> bytes \<times> bool" where
  "block_part data skip want =
     (let en = min (skip + want) (length data)
      in (if skip < en then take (en - skip) (drop skip data) else [], en = skip + want))"

text \<open>Reading block \<open>idx\<close> from the source, and keeping what was read.\<close>

definition load_block :: "block_cache \<Rightarrow> nat \<Rightarrow> (string + bytes) \<times> raw" where
  "load_block c idx =
     (let start = idx * block c; sz = min (block c) (c_len c - start) in
      case raw_seek (c_src c) of
        (Some e, r) \<Rightarrow> (Inl e, r)
      | (None, r) \<Rightarrow> read_full start sz [] r)"

definition keep_block :: "block_cache \<Rightarrow> nat \<Rightarrow> bytes \<Rightarrow> block_cache" where
  "keep_block c idx data =
     (let start = idx * block c; sz = min (block c) (c_len c - start);
          c = (if length data = sz then c
               else c\<lparr>c_error := Some (''the source ended at '' @ dec_string (start + length data) @
                      '' of its '' @ dec_string (c_len c) @ '' bytes'')\<rparr>)
      in c\<lparr>blocks := (idx, data, tick c) # evict (max_blocks c) (blocks c)\<rparr>)"

definition copy_block :: "block_cache \<Rightarrow> nat \<Rightarrow> nat \<Rightarrow> nat \<Rightarrow> (bytes \<times> bool) \<times> block_cache" where
  "copy_block c idx skip want =
     (let c = c\<lparr>tick := Suc (tick c)\<rparr> in
      case map_of (blocks c) idx of
        Some (data, _) \<Rightarrow> (block_part data skip want, c\<lparr>blocks := (idx, data, tick c) # drop_key idx (blocks c)\<rparr>)
      | None \<Rightarrow>
          if c_error c \<noteq> None then (([], False), c)
          else case load_block c idx of
            (Inl e, src) \<Rightarrow>
              (([], False), c\<lparr>c_src := src, c_error := Some (''read at '' @ dec_string (idx * block c) @ '' failed: '' @ e)\<rparr>)
          | (Inr data, src) \<Rightarrow> (block_part data skip want, keep_block (c\<lparr>c_src := src\<rparr>) idx data))"

function window_loop :: "nat \<Rightarrow> nat \<Rightarrow> bytes \<Rightarrow> block_cache \<Rightarrow> bytes \<times> block_cache" where
  "window_loop en at out c =
     (if at < en \<and> 0 < block c then
        (let idx = at div block c; skip = at - idx * block c; want = min (block c - skip) (en - at) in
         case copy_block c idx skip want of ((bs, whole), c) \<Rightarrow>
           if whole then window_loop en (at + want) (out @ bs) c else (out @ bs, c))
      else (out, c))"
  by pat_completeness auto
termination
proof (relation "measure (\<lambda>(en, at, out, c). en - at)")
  fix en at :: nat and out :: bytes and c :: block_cache and idx skip want p c1 q bs whole
  assume *: "at < en \<and> 0 < block c" "idx = at div block c" "skip = at - idx * block c" "want = min (block c - skip) (en - at)"
  have "skip = at mod block c" using * by (simp add: minus_div_mult_eq_mod)
  then have "0 < want" using * by simp
  then show "((en, at + want, out @ bs, c1), en, at, out, c) \<in> measure (\<lambda>(en, at, out, c). en - at)" using * by auto
qed simp

declare window_loop.simps [simp del]

definition cache_window :: "block_cache window_fn" where
  "cache_window c off n =
     (let en = min (off + n) (c_len c) in
      if en \<le> off then ([], c) else window_loop en off [] c)"

section \<open>Views of another source\<close>

record 's sub_src =
  inner :: 's
  base :: nat
  sub_len :: nat

definition sub_new :: "('s \<Rightarrow> nat) \<Rightarrow> 's \<Rightarrow> nat \<Rightarrow> nat \<Rightarrow> 's sub_src" where
  "sub_new len i b n = (let b = min b (len i) in \<lparr>inner = i, base = b, sub_len = min n (len i - b)\<rparr>)"

definition sub_window :: "'s window_fn \<Rightarrow> 's sub_src window_fn" where
  "sub_window win s off n =
     (let off = min off (sub_len s); n = min n (sub_len s - off) in
      case win (inner s) (base s + off) n of (w, i) \<Rightarrow> (w, s\<lparr>inner := i\<rparr>))"

definition sub_as_slice :: "('s \<Rightarrow> bytes option) \<Rightarrow> 's sub_src \<Rightarrow> bytes option" where
  "sub_as_slice as_slice s = map_option (\<lambda>b. take (sub_len s) (drop (base s) b)) (as_slice (inner s))"

definition sub_find :: "('s \<Rightarrow> nat \<Rightarrow> nat \<Rightarrow> nat option \<times> 's) \<Rightarrow> nat \<Rightarrow> nat \<Rightarrow> 's sub_src \<Rightarrow> nat option \<times> 's sub_src" where
  "sub_find find_inner from to s =
     (let to = min to (sub_len s) in
      if to < from then (None, s)
      else case find_inner (inner s) (base s + from) (base s + to) of
        (p, i) \<Rightarrow> (map_option (\<lambda>p. p - base s) p, s\<lparr>inner := i\<rparr>))"

definition ascii_lower :: "u8 \<Rightarrow> u8" where
  "ascii_lower b = (if 0x41 \<le> b \<and> b \<le> 0x5A then b + 0x20 else b)"

definition lower_window :: "'s window_fn \<Rightarrow> 's window_fn" where
  "lower_window win s off n = (case win s off n of (w, s) \<Rightarrow> (map ascii_lower w, s))"

section \<open>The cursor\<close>

record 's cursor =
  cur_src :: 's
  pos :: nat
  cur_base :: nat
  cur_len :: nat

definition cursor_range :: "('s \<Rightarrow> nat) \<Rightarrow> 's \<Rightarrow> nat \<Rightarrow> nat \<Rightarrow> 's cursor" where
  "cursor_range len s from to =
     (let to = min to (len s); from = min from to
      in \<lparr>cur_src = s, pos = 0, cur_base = from, cur_len = to - from\<rparr>)"

datatype cursor_out = Bytes_read bytes | Read_error string

definition cursor_read :: "('s \<Rightarrow> string option) \<Rightarrow> 's window_fn \<Rightarrow> nat \<Rightarrow> 's cursor \<Rightarrow> cursor_out \<times> 's cursor" where
  "cursor_read read_error win n c =
     (if cur_len c \<le> pos c then (Bytes_read [], c)
      else
        (let want = min (min n (cur_len c - pos c)) CHUNK in
         case win (cur_src c) (cur_base c + pos c) want of (w, s) \<Rightarrow>
           (let c = c\<lparr>cur_src := s\<rparr> in
            if w = [] then
              (Read_error (case read_error s of Some e \<Rightarrow> e | None \<Rightarrow> ''the source ended early''), c)
            else (Bytes_read w, c\<lparr>pos := pos c + length w\<rparr>))))"

datatype seek_from = Start nat | End int | Current int

definition cursor_seek :: "seek_from \<Rightarrow> 's cursor \<Rightarrow> (string + nat) \<times> 's cursor" where
  "cursor_seek t c =
     (let p = (case t of Start n \<Rightarrow> int n | End d \<Rightarrow> int (cur_len c) + d | Current d \<Rightarrow> int (pos c) + d) in
      if p < 0 then (Inl ''seek before the start'', c)
      else if p < 2 ^ 64 then (Inr (nat p), c\<lparr>pos := nat p\<rparr>)
      else (Inl ''seek past the largest offset'', c))"

section \<open>Bytes by index\<close>

text \<open>\<open>None\<close> is the panic of an index out of range.\<close>

definition indexed_at :: "bytes \<Rightarrow> nat \<Rightarrow> (u8 \<times> bytes) option" where
  "indexed_at s i = (if i < length s then Some (s ! i, s) else None)"

definition indexed_range :: "bytes \<Rightarrow> nat \<Rightarrow> nat \<Rightarrow> bytes \<times> bytes" where
  "indexed_range s from to = (let to = min to (length s) in (take (to - min from to) (drop (min from to) s), s))"

record 's stepper =
  st_src :: 's
  st_buf :: bytes
  st_base :: nat

definition BEHIND :: nat where "BEHIND = 128"

definition stepper_new :: "'s \<Rightarrow> 's stepper" where
  "stepper_new s = \<lparr>st_src = s, st_buf = [], st_base = 0\<rparr>"

definition stepper_at :: "'s window_fn \<Rightarrow> 's stepper \<Rightarrow> nat \<Rightarrow> (u8 \<times> 's stepper) option" where
  "stepper_at win t i =
     (let t = (if i < st_base t \<or> length (st_buf t) \<le> i - st_base t then
                 (case win (st_src t) (i - BEHIND) (CHUNK + BEHIND) of (w, s) \<Rightarrow>
                    \<lparr>st_src = s, st_buf = w, st_base = i - BEHIND\<rparr>)
               else t)
      in Some (if i - st_base t < length (st_buf t) then st_buf t ! (i - st_base t) else 0, t))"

definition stepper_range :: "('s \<Rightarrow> nat) \<Rightarrow> 's window_fn \<Rightarrow> 's stepper \<Rightarrow> nat \<Rightarrow> nat \<Rightarrow> bytes \<times> 's stepper" where
  "stepper_range len win t from to =
     (let to = min to (len (st_src t)); from = min from to in
      if st_base t \<le> from \<and> to - st_base t \<le> length (st_buf t) then
        (take (to - from) (drop (from - st_base t) (st_buf t)), t)
      else case win (st_src t) from (to - from) of (w, s) \<Rightarrow> (w, t\<lparr>st_src := s\<rparr>))"

text \<open>The iterator over \<open>[from, to)\<close>, as the list it yields.\<close>

function bytes_loop :: "'s window_fn \<Rightarrow> nat \<Rightarrow> nat \<Rightarrow> 's \<Rightarrow> bytes \<times> 's" where
  "bytes_loop win to at s =
     (if at < to then
        (case win s at (min (to - at) CHUNK) of (w, s) \<Rightarrow>
         if w = [] then ([], s)
         else case bytes_loop win to (at + length w) s of (bs, s) \<Rightarrow> (w @ bs, s))
      else ([], s))"
  by pat_completeness auto
termination
  by (relation "measure (\<lambda>(win, to, at, s). to - at)") (auto simp: diff_less_mono2)

declare bytes_loop.simps [simp del]

definition src_bytes :: "('s \<Rightarrow> nat) \<Rightarrow> 's window_fn \<Rightarrow> nat \<Rightarrow> nat \<Rightarrow> 's \<Rightarrow> bytes \<times> 's" where
  "src_bytes len win from to s = bytes_loop win (min to (len s)) from s"

end
