(* ===== verification/Source_Props.thy ===== *)
theory Source_Props
  imports Source
begin

text \<open>
  What a byte source promises, as a locale: its windows are those of the bytes it shows. The trait's
  provided methods and the index readers are proved once against the promise; the slice, the block
  cache and the views of another source are shown to keep it.
\<close>

section \<open>The contract\<close>

lemma take_drop_take: "take n (drop k (take m xs)) = take (min n (m - k)) (drop k xs)"
  by (simp add: drop_take)

definition occurs :: "bytes \<Rightarrow> bytes \<Rightarrow> nat \<Rightarrow> bool" where
  "occurs n h p \<longleftrightarrow> p + length n \<le> length h \<and> take (length n) (drop p h) = n"

definition first_from :: "bytes \<Rightarrow> bytes \<Rightarrow> nat \<Rightarrow> nat option" where
  "first_from n h a = (if \<exists>p\<ge>a. occurs n h p then Some (LEAST p. a \<le> p \<and> occurs n h p) else None)"

text \<open>The documented behaviour of the search: the index of the first occurrence, if any.\<close>

definition first_occurrence :: "memmem \<Rightarrow> bool" where
  "first_occurrence mm \<longleftrightarrow> (\<forall>h n. mm h n = first_from n h 0)"

text \<open>The pieces a visitor sees, and the visit of a list of pieces.\<close>

function pieces :: "nat \<Rightarrow> bytes \<Rightarrow> (nat \<times> bytes) list" where
  "pieces at bs = (if bs = [] then [] else (at, take CHUNK bs) # pieces (at + length (take CHUNK bs)) (drop CHUNK bs))"
  by pat_completeness auto
termination by (relation "measure (\<lambda>(at, bs). length bs)") (auto simp: CHUNK_def)

declare pieces.simps [simp del]

fun visit :: "(nat \<Rightarrow> bytes \<Rightarrow> 'a \<Rightarrow> bool \<times> 'a) \<Rightarrow> (nat \<times> bytes) list \<Rightarrow> 'a \<Rightarrow> 'a" where
  "visit f [] a = a"
| "visit f ((at, w) # ps) a = (case f at w a of (go, a) \<Rightarrow> if go then visit f ps a else a)"

lemma pieces_concat: "concat (map snd (pieces at bs)) = bs"
  by (induction at bs rule: pieces.induct) (subst pieces.simps, simp)

lemma first_from_least:
  assumes "occurs n h p" "a \<le> p" "\<And>q. a \<le> q \<Longrightarrow> q < p \<Longrightarrow> \<not> occurs n h q"
  shows "first_from n h a = Some p"
proof -
  have "(LEAST p. a \<le> p \<and> occurs n h p) = p" using assms by (intro Least_equality) (auto simp: not_less [symmetric])
  then show ?thesis using assms(1,2) by (auto simp: first_from_def)
qed

lemma first_from_SomeD:
  assumes "first_from n h a = Some p"
  shows "occurs n h p" "a \<le> p" "\<And>q. a \<le> q \<Longrightarrow> q < p \<Longrightarrow> \<not> occurs n h q"
proof -
  obtain p0 where "a \<le> p0 \<and> occurs n h p0" and p: "p = (LEAST p. a \<le> p \<and> occurs n h p)"
    using assms by (auto simp: first_from_def split: if_splits)
  then have "a \<le> p \<and> occurs n h p" using LeastI [of "\<lambda>p. a \<le> p \<and> occurs n h p"] by blast
  then show "occurs n h p" "a \<le> p" by auto
  show "\<not> occurs n h q" if "a \<le> q" "q < p" for q using not_less_Least [of q "\<lambda>p. a \<le> p \<and> occurs n h p"] that p by auto
qed

lemma first_from_NoneD: "first_from n h a = None \<longleftrightarrow> (\<forall>q\<ge>a. \<not> occurs n h q)"
  by (auto simp: first_from_def)

lemma first_from_skip:
  assumes "\<And>q. a \<le> q \<Longrightarrow> q < b \<Longrightarrow> \<not> occurs n h q" "a \<le> b"
  shows "first_from n h a = first_from n h b"
proof (cases "first_from n h b")
  case None
  then show ?thesis using assms by (metis first_from_NoneD not_less)
next
  case (Some p)
  note d = first_from_SomeD [OF Some]
  have "\<not> occurs n h q" if "a \<le> q" "q < p" for q using assms(1) d(3) that by (cases "q < b") auto
  then have "first_from n h a = Some p" using assms(2) d by (intro first_from_least) auto
  then show ?thesis using Some by simp
qed

text \<open>An occurrence in a window is one in the whole.\<close>

lemma occurs_window:
  assumes "w = take k (drop a h)" "length w = k" "a \<le> length h"
  shows "occurs n w p \<longleftrightarrow> p + length n \<le> k \<and> occurs n h (a + p)"
proof -
  have len: "a + k \<le> length h \<or> k = 0" using assms by auto
  have "take (length n) (drop p w) = take (length n) (drop (a + p) h)" if "p + length n \<le> k"
    using assms that by (simp add: drop_take take_drop_take min_def ac_simps)
  then show ?thesis using assms(2,3) len by (auto simp: occurs_def)
qed

lemma first_from_window:
  assumes "w = take k (drop a h)" "length w = k" "a \<le> length h"
  shows "first_from n w 0 = Some p \<Longrightarrow> first_from n h a = Some (a + p)"
    "first_from n w 0 = None \<Longrightarrow> a \<le> q \<Longrightarrow> q + length n \<le> a + k \<Longrightarrow> \<not> occurs n h q"
proof -
  note oc = occurs_window [OF assms]
  show "first_from n h a = Some (a + p)" if "first_from n w 0 = Some p"
  proof (rule first_from_least)
    note d = first_from_SomeD [OF that]
    show "occurs n h (a + p)" using d(1) oc by simp
    show "\<not> occurs n h q" if "a \<le> q" "q < a + p" for q
    proof -
      have "q - a < p" "q - a + length n \<le> k" using that d(1) oc by auto
      then show ?thesis using d(3) [of "q - a"] oc [of n "q - a"] \<open>a \<le> q\<close> by simp
    qed
  qed simp
  show "\<not> occurs n h q" if "first_from n w 0 = None" "a \<le> q" "q + length n \<le> a + k"
    using that oc [of n "q - a"] by (auto simp: first_from_NoneD)
qed

text \<open>What a stepper holds: a source that keeps its promise and a piece of what it shows.\<close>

definition stepper_ok :: "('s \<Rightarrow> bytes) \<Rightarrow> ('s \<Rightarrow> bool) \<Rightarrow> 's stepper \<Rightarrow> bool" where
  "stepper_ok view ok t \<longleftrightarrow> ok (st_src t) \<and> (\<exists>k. st_buf t = take k (drop (st_base t) (view (st_src t))))"

locale byte_source =
  fixes len :: "'s \<Rightarrow> nat" and window :: "'s window_fn" and view :: "'s \<Rightarrow> bytes" and ok :: "'s \<Rightarrow> bool"
  assumes len_view: "ok s \<Longrightarrow> len s = length (view s)"
    and window_view: "ok s \<Longrightarrow> window s off n = (w, s') \<Longrightarrow> w = take n (drop off (view s)) \<and> ok s' \<and> view s' = view s"
begin

lemma window_eq:
  assumes "ok s"
  obtains s' where "window s off n = (take n (drop off (view s)), s')" "ok s'" "view s' = view s"
  using window_view [OF assms, of off n] by (cases "window s off n") auto

lemma chunks_loop_visit:
  assumes "ok s" "to \<le> length (view s)"
  shows "\<exists>s'. chunks_loop window f to at a s = (visit f (pieces at (take (to - at) (drop at (view s)))) a, s') \<and> ok s' \<and> view s' = view s"
  using assms
proof (induction "to - at" arbitrary: at a s rule: less_induct)
  case less
  show ?case
  proof (cases "at < to")
    case False
    then show ?thesis using less.prems by (auto simp: chunks_loop.simps [of _ _ _ at] pieces.simps)
  next
    case True
    let ?bs = "take (to - at) (drop at (view s))"
    obtain s1 where w: "window s at (min (to - at) CHUNK) = (take (min (to - at) CHUNK) (drop at (view s)), s1)"
      and s1: "ok s1" "view s1 = view s" by (rule window_eq [OF less.prems(1)])
    have tk: "take (min (to - at) CHUNK) (drop at (view s)) = take CHUNK ?bs" by (simp add: min.commute)
    have ne: "?bs \<noteq> []" using True less.prems(2) by simp
    then have wne: "take CHUNK ?bs \<noteq> []" by (simp add: CHUNK_def)
    have rest: "drop CHUNK ?bs = take (to - (at + length (take CHUNK ?bs))) (drop (at + length (take CHUNK ?bs)) (view s1))"
      using True less.prems(2) s1(2) by (auto simp: drop_take min_def add.commute)
    obtain go a1 where f: "f at (take CHUNK ?bs) a = (go, a1)" by (cases "f at (take CHUNK ?bs) a")
    have p: "pieces at ?bs = (at, take CHUNK ?bs) # pieces (at + length (take CHUNK ?bs)) (drop CHUNK ?bs)"
      using ne by (subst pieces.simps) simp
    have "0 < length (take CHUNK ?bs)" using wne by blast
    then have lt: "to - (at + length (take CHUNK ?bs)) < to - at" using True by linarith
    show ?thesis
    proof (cases go)
      case True
      have "chunks_loop window f to at a s = chunks_loop window f to (at + length (take CHUNK ?bs)) a1 s1"
        using \<open>at < to\<close> w wne f True by (subst chunks_loop.simps) (simp only: tk if_True if_False prod.case)
      then show ?thesis using less.hyps [OF lt s1(1), of a1] less.prems(2) s1(2) p f True rest by simp
    next
      case False
      then have "chunks_loop window f to at a s = (a1, s1)"
        using \<open>at < to\<close> w wne f by (subst chunks_loop.simps) (simp only: tk if_True if_False prod.case)
      then show ?thesis using s1 p f False by simp
    qed
  qed
qed

text \<open>Visiting a range sees consecutive pieces of exactly that range, until the visitor stops.\<close>

lemma chunks_visit:
  assumes "ok s"
  obtains s' where "src_chunks len window f from to a s =
      (visit f (pieces from (take (min to (length (view s)) - from) (drop from (view s)))) a, s')" "ok s'" "view s' = view s"
  using chunks_loop_visit [OF assms, of "min to (length (view s))" f "from" a] len_view [OF assms] unfolding src_chunks_def by auto

lemma bytes_loop_view:
  assumes "ok s" "to \<le> length (view s)"
  shows "\<exists>s'. bytes_loop window to at s = (take (to - at) (drop at (view s)), s') \<and> ok s' \<and> view s' = view s"
  using assms
proof (induction "to - at" arbitrary: at s rule: less_induct)
  case less
  show ?case
  proof (cases "at < to")
    case False
    then show ?thesis using less.prems by (auto simp: bytes_loop.simps [of _ _ at])
  next
    case True
    define k where "k = min (to - at) CHUNK"
    have k: "0 < k" "k \<le> to - at" using True by (auto simp: k_def CHUNK_def)
    obtain s1 where w: "window s at k = (take k (drop at (view s)), s1)"
      and s1: "ok s1" "view s1 = view s" by (rule window_eq [OF less.prems(1)])
    have l: "length (take k (drop at (view s))) = k" using k True less.prems(2) by simp
    then have ne: "take k (drop at (view s)) \<noteq> []" using k(1) by auto
    have "to - (at + k) < to - at" using k True by linarith
    from less.hyps [OF this s1(1)] less.prems(2) s1(2) obtain s2 where
      r: "bytes_loop window to (at + k) s1 = (take (to - (at + k)) (drop (at + k) (view s)), s2)" "ok s2" "view s2 = view s" by auto
    have "take k (drop at (view s)) @ take (to - (at + k)) (drop (at + k) (view s)) = take (to - at) (drop at (view s))"
      using take_add [of k "to - at - k" "drop at (view s)"] k by (simp add: ac_simps)
    then show ?thesis using True w ne l r by (subst bytes_loop.simps) (simp add: k_def [symmetric])
  qed
qed

lemma bytes_view:
  assumes "ok s"
  obtains s' where "src_bytes len window from to s = (take (min to (length (view s)) - from) (drop from (view s)), s')" "ok s'" "view s' = view s"
  using bytes_loop_view [OF assms, of "min to (length (view s))" "from"] len_view [OF assms] unfolding src_bytes_def by auto

lemma find_loop_view:
  assumes "ok s" "to \<le> length (view s)" "first_occurrence mm" "needle \<noteq> []" "0 < span"
  shows "\<exists>s'. find_loop window mm needle to at span s = (first_from needle (take to (view s)) at, s') \<and> ok s' \<and> view s' = view s"
  using assms
proof (induction "to - at" arbitrary: at span s rule: less_induct)
  case less
  let ?n = "length needle" and ?V = "take to (view s)"
  have n: "0 < ?n" using less.prems(4) by auto
  have V: "length ?V = to" using less.prems(2) by simp
  show ?case
  proof (cases "at + ?n \<le> to")
    case False
    then have "first_from needle ?V at = None" using V by (auto simp: first_from_NoneD occurs_def)
    then show ?thesis using False less.prems(1) by (subst find_loop.simps) simp
  next
    case True
    define k where "k = min (to - at) (span + ?n - 1)"
    have k: "?n \<le> k" "at + k \<le> to" using True n less.prems(5) by (auto simp: k_def)
    obtain s1 where w: "window s at k = (take k (drop at (view s)), s1)" and s1: "ok s1" "view s1 = view s"
      by (rule window_eq [OF less.prems(1)])
    have tk: "take k (drop at (view s)) = take k (drop at ?V)" using k by (simp add: drop_take)
    let ?w = "take k (drop at ?V)"
    have wl: "length ?w = k" using k V by simp
    have al: "at \<le> length ?V" using V k by simp
    note fw = first_from_window [OF refl wl al]
    have mm: "mm ?w needle = first_from needle ?w 0" using less.prems(3) by (simp add: first_occurrence_def)
    have step: "find_loop window mm needle to at span s =
        (case mm ?w needle of Some p \<Rightarrow> (Some (at + p), s1)
         | None \<Rightarrow> find_loop window mm needle to (at + (k - (?n - 1))) (min (span * 2) CHUNK) s1)"
      using True less.prems(4) w wl k by (subst find_loop.simps) (simp add: k_def [symmetric] tk del: One_nat_def length_take length_drop split: option.split)
    show ?thesis
    proof (cases "first_from needle ?w 0")
      case (Some p)
      have "first_from needle ?V at = Some (at + p)" by (rule fw(1) [OF Some])
      then show ?thesis using step mm Some s1 by simp
    next
      case None
      let ?at = "at + (k - (?n - 1))"
      have "\<not> occurs needle ?V q" if "at \<le> q" "q < ?at" for q
        using that n k by (intro fw(2) [OF None]) auto
      then have "first_from needle ?V at = first_from needle ?V ?at" by (intro first_from_skip) auto
      moreover have "to - ?at < to - at" using k n by linarith
      moreover have "0 < min (span * 2) CHUNK" using less.prems(5) by (simp add: CHUNK_def)
      ultimately show ?thesis using less.hyps [OF _ s1(1) _ less.prems(3,4)] less.prems(2) s1(2) step mm None by fastforce
    qed
  qed
qed

text \<open>Searching through windows, across their seams, finds what searching the whole finds.\<close>

lemma find_view:
  assumes "ok s" "first_occurrence mm"
  obtains s' where "src_find len window mm needle from to s = (slice_find mm needle from to (view s), s')" "ok s'" "view s' = view s"
proof -
  let ?to = "min to (length (view s))" and ?h = "take (min to (length (view s)) - from) (drop from (view s))"
  have mm: "mm ?h needle = first_from needle ?h 0" using assms(2) by (simp add: first_occurrence_def)
  show ?thesis
  proof (cases "needle = []")
    case True
    have "first_from [] ?h 0 = Some 0" by (rule first_from_least) (auto simp: occurs_def)
    then have "src_find len window mm needle from to s = (slice_find mm needle from to (view s), s)"
      using True mm len_view [OF assms(1)] by (auto simp: src_find_def slice_find_def Let_def)
    then show ?thesis using that assms(1) by blast
  next
    case False
    show ?thesis
    proof (cases "?to \<le> from \<or> ?to - from < length needle")
      case True
      then have "first_from needle ?h 0 = None" using False by (auto simp: first_from_NoneD occurs_def)
      then have "src_find len window mm needle from to s = (slice_find mm needle from to (view s), s)"
        using True False mm len_view [OF assms(1)] by (auto simp: src_find_def slice_find_def Let_def)
      then show ?thesis using that assms(1) by blast
    next
      case in_range: False
      have V: "length (take ?to (view s)) = ?to" by simp
      have h: "?h = take (?to - from) (drop from (take ?to (view s)))" by (simp add: drop_take)
      have hl: "length ?h = ?to - from" using in_range by simp
      have al: "from \<le> length (take ?to (view s))" using in_range by auto
      note fw = first_from_window [OF h hl al]
      have "first_from needle (take ?to (view s)) from = map_option (\<lambda>p. from + p) (first_from needle ?h 0)"
      proof (cases "first_from needle ?h 0")
        case None
        have "\<not> occurs needle (take ?to (view s)) q" if "from \<le> q" for q
          using fw(2) [OF None that] V by (auto simp: occurs_def)
        then have "first_from needle (take ?to (view s)) from = None" unfolding first_from_NoneD by blast
        then show ?thesis using None by simp
      next
        case (Some p)
        then show ?thesis using fw(1) [OF Some] by simp
      qed
      moreover have "src_find len window mm needle from to s = find_loop window mm needle ?to from 4096 s"
        using False in_range len_view [OF assms(1)] by (auto simp: src_find_def Let_def)
      moreover have "slice_find mm needle from to (view s) = map_option (\<lambda>p. from + p) (first_from needle ?h 0)"
        using in_range mm by (auto simp: slice_find_def Let_def)
      ultimately show ?thesis using find_loop_view [OF assms(1) _ assms(2) False, of ?to 4096 "from"] that by auto
    qed
  qed
qed

lemma materialize_view:
  assumes "ok s" "\<And>b. as_slice s = Some b \<Longrightarrow> b = view s"
  obtains s' where "src_materialize as_slice len window limit s =
      (if as_slice s \<noteq> None \<or> length (view s) \<le> limit then Some (view s) else None, s')" "ok s'" "view s' = view s"
proof (cases "as_slice s = None \<and> length (view s) \<le> limit")
  case True
  obtain s1 where "window s 0 (length (view s)) = (view s, s1)" "ok s1" "view s1 = view s"
    by (rule window_eq [OF assms(1), of 0 "length (view s)"]) simp
  then show ?thesis using that True len_view [OF assms(1)] by (auto simp: src_materialize_def)
next
  case False
  then show ?thesis using that [OF _ assms(1) refl] assms len_view [OF assms(1)]
    by (cases "as_slice s") (auto simp: src_materialize_def)
qed

text \<open>A sub-range of a source, and a source with its letters lowered, are sources.\<close>

lemma sub_source:
  "byte_source sub_len (sub_window window) (\<lambda>t. take (sub_len t) (drop (base t) (view (inner t))))
     (\<lambda>t. ok (inner t) \<and> base t + sub_len t \<le> length (view (inner t)))"
proof
  fix t :: "'s sub_src" and off n w t'
  assume t: "ok (inner t) \<and> base t + sub_len t \<le> length (view (inner t))"
  then show "sub_len t = length (take (sub_len t) (drop (base t) (view (inner t))))" by auto
  assume w: "sub_window window t off n = (w, t')"
  let ?off = "min off (sub_len t)"
  let ?n = "min n (sub_len t - ?off)"
  obtain i where i: "window (inner t) (base t + ?off) ?n = (take ?n (drop (base t + ?off) (view (inner t))), i)" "ok i" "view i = view (inner t)"
    by (rule window_eq) (use t in auto)
  have "w = take ?n (drop (base t + ?off) (view (inner t)))" "t' = t\<lparr>inner := i\<rparr>" using w i(1) by (auto simp: sub_window_def Let_def)
  moreover have "take ?n (drop (base t + ?off) (view (inner t))) = take n (drop off (take (sub_len t) (drop (base t) (view (inner t)))))"
    by (auto simp: drop_take min_def add.commute)
  ultimately show "w = take n (drop off (take (sub_len t) (drop (base t) (view (inner t))))) \<and>
      (ok (inner t') \<and> base t' + sub_len t' \<le> length (view (inner t'))) \<and>
      take (sub_len t') (drop (base t') (view (inner t'))) = take (sub_len t) (drop (base t) (view (inner t)))"
    using i t by simp
qed

lemma sub_new_ok:
  assumes "ok s"
  shows "ok (inner (sub_new len s b n)) \<and> base (sub_new len s b n) + sub_len (sub_new len s b n) \<le> length (view (inner (sub_new len s b n)))"
    "take (sub_len (sub_new len s b n)) (drop (base (sub_new len s b n)) (view s)) = take n (drop b (view s))"
  using assms len_view [OF assms] by (auto simp: sub_new_def Let_def min_def)

lemma lower_source: "byte_source len (lower_window window) (\<lambda>s. map ascii_lower (view s)) ok"
  by unfold_locales (auto simp: lower_window_def take_map drop_map len_view dest: window_view split: prod.splits)

text \<open>A read of the cursor delivers the next bytes of its range, at least one before the end.\<close>

lemma cursor_read_view:
  assumes "ok (cur_src c)" "cur_base c + cur_len c \<le> length (view (cur_src c))" "0 < n" "pos c < cur_len c"
  obtains w s' where "cursor_read err window n c = (Bytes_read w, c\<lparr>cur_src := s', pos := pos c + length w\<rparr>)" "w \<noteq> []"
    "w = take (length w) (drop (cur_base c + pos c) (view (cur_src c)))" "pos c + length w \<le> cur_len c" "length w \<le> n"
    "ok s'" "view s' = view (cur_src c)"
proof -
  define k where "k = min (min n (cur_len c - pos c)) CHUNK"
  let ?w = "take k (drop (cur_base c + pos c) (view (cur_src c)))"
  obtain s' where s': "window (cur_src c) (cur_base c + pos c) k = (?w, s')"
    "ok s'" "view s' = view (cur_src c)" by (rule window_eq [OF assms(1)])
  have k: "0 < k" "k \<le> n" "k \<le> cur_len c - pos c" using assms(3,4) by (auto simp: k_def CHUNK_def)
  have l: "length ?w = k" using k(3) assms(2,4) by simp
  then have "?w \<noteq> []" using k(1) by auto
  then have "cursor_read err window n c = (Bytes_read ?w, c\<lparr>cur_src := s', pos := pos c + length ?w\<rparr>)"
    using s'(1) assms(4) by (simp add: cursor_read_def Let_def k_def [symmetric])
  then show ?thesis using that [of ?w s'] s'(2,3) k l \<open>?w \<noteq> []\<close> assms(4) by simp
qed

text \<open>Bytes by index over a source.\<close>

lemma stepper_new_ok: "ok s \<Longrightarrow> stepper_ok view ok (stepper_new s)"
  by (auto simp: stepper_ok_def stepper_new_def intro: exI [of _ 0])

lemma stepper_at_view:
  assumes "stepper_ok view ok t" "i < length (view (st_src t))"
  obtains t' where "stepper_at window t i = Some (view (st_src t) ! i, t')" "stepper_ok view ok t'" "view (st_src t') = view (st_src t)"
proof (cases "i < st_base t \<or> length (st_buf t) \<le> i - st_base t")
  case True
  obtain s' where w: "window (st_src t) (i - BEHIND) (CHUNK + BEHIND) = (take (CHUNK + BEHIND) (drop (i - BEHIND) (view (st_src t))), s')"
    "ok s'" "view s' = view (st_src t)" by (rule window_eq) (use assms(1) in \<open>auto simp: stepper_ok_def\<close>)
  have "i - (i - BEHIND) \<le> BEHIND" by simp
  then have d: "i - (i - BEHIND) < CHUNK + BEHIND" by (simp add: CHUNK_def)
  let ?t = "\<lparr>st_src = s', st_buf = take (CHUNK + BEHIND) (drop (i - BEHIND) (view (st_src t))), st_base = i - BEHIND\<rparr>"
  have "stepper_at window t i = Some (view (st_src t) ! i, ?t)" using True w d assms(2) by (auto simp: stepper_at_def Let_def)
  moreover have "stepper_ok view ok ?t" using w by (auto simp: stepper_ok_def)
  ultimately show ?thesis using that w(3) by simp
next
  case False
  obtain k where k: "st_buf t = take k (drop (st_base t) (view (st_src t)))" using assms(1) by (auto simp: stepper_ok_def)
  then have "st_buf t ! (i - st_base t) = view (st_src t) ! i" using False by auto
  then show ?thesis using that [OF _ assms(1)] False by (auto simp: stepper_at_def Let_def)
qed

lemma stepper_range_view:
  assumes "stepper_ok view ok t"
  obtains t' where "stepper_range len window t from to = (fst (indexed_range (view (st_src t)) from to), t')" "stepper_ok view ok t'" "view (st_src t') = view (st_src t)"
proof -
  have ok: "ok (st_src t)" using assms by (simp add: stepper_ok_def)
  let ?to = "min to (length (view (st_src t)))"
  let ?from = "min from ?to"
  have r: "fst (indexed_range (view (st_src t)) from to) = take (?to - ?from) (drop ?from (view (st_src t)))"
    by (simp add: indexed_range_def Let_def)
  show ?thesis
  proof (cases "st_base t \<le> ?from \<and> ?to - st_base t \<le> length (st_buf t)")
    case True
    obtain k where k: "st_buf t = take k (drop (st_base t) (view (st_src t)))" using assms by (auto simp: stepper_ok_def)
    have "?to - ?from \<le> k - (?from - st_base t)" using True k by (auto simp: min_def split: if_splits)
    then have "take (?to - ?from) (drop (?from - st_base t) (st_buf t)) = take (?to - ?from) (drop ?from (view (st_src t)))"
      using True k by (simp add: drop_take min_def)
    then show ?thesis using that [OF _ assms refl] True r len_view [OF ok] by (simp add: stepper_range_def Let_def)
  next
    case False
    obtain s' where w: "window (st_src t) ?from (?to - ?from) = (take (?to - ?from) (drop ?from (view (st_src t))), s')"
      "ok s'" "view s' = view (st_src t)" by (rule window_eq [OF ok])
    then have "stepper_ok view ok (t\<lparr>st_src := s'\<rparr>)" using assms by (auto simp: stepper_ok_def)
    moreover have "stepper_range len window t from to = (fst (indexed_range (view (st_src t)) from to), t\<lparr>st_src := s'\<rparr>)"
      unfolding stepper_range_def Let_def len_view [OF ok] r using False w(1) by (simp only: if_False prod.case)
    ultimately show ?thesis using that w(3) by simp
  qed
qed

end

section \<open>Bytes by index\<close>

locale byte_index =
  fixes blen :: "'t \<Rightarrow> nat" and at :: "'t \<Rightarrow> nat \<Rightarrow> (u8 \<times> 't) option" and range :: "'t \<Rightarrow> nat \<Rightarrow> nat \<Rightarrow> bytes \<times> 't"
    and bview :: "'t \<Rightarrow> bytes" and bok :: "'t \<Rightarrow> bool"
  assumes blen_view: "bok t \<Longrightarrow> blen t = length (bview t)"
    and at_view: "bok t \<Longrightarrow> i < length (bview t) \<Longrightarrow> \<exists>t'. at t i = Some (bview t ! i, t') \<and> bok t' \<and> bview t' = bview t"
    and range_view: "bok t \<Longrightarrow> \<exists>t'. range t from to = (fst (indexed_range (bview t) from to), t') \<and> bok t' \<and> bview t' = bview t"

interpretation indexed: byte_index length indexed_at indexed_range id "\<lambda>_. True"
  by unfold_locales (auto simp: indexed_at_def indexed_range_def Let_def)

text \<open>A stepper over any source that keeps its promise reads that source's bytes by index.\<close>

context byte_source
begin

lemma stepper_index:
  "byte_index (\<lambda>t. len (st_src t)) (stepper_at window) (stepper_range len window) (\<lambda>t. view (st_src t)) (stepper_ok view ok)"
proof
  fix t i "from" to
  assume t: "stepper_ok view ok t"
  then show "len (st_src t) = length (view (st_src t))" by (simp add: stepper_ok_def len_view)
  show "\<exists>t'. stepper_at window t i = Some (view (st_src t) ! i, t') \<and> stepper_ok view ok t' \<and> view (st_src t') = view (st_src t)"
    if "i < length (view (st_src t))" using stepper_at_view [OF t that] by metis
  show "\<exists>t'. stepper_range len window t from to = (fst (indexed_range (view (st_src t)) from to), t') \<and> stepper_ok view ok t' \<and> view (st_src t') = view (st_src t)"
    using stepper_range_view [OF t] by metis
qed

end

section \<open>The slice\<close>

interpretation slice: byte_source length slice_window id "\<lambda>_. True"
proof
  fix s off n w s'
  assume "slice_window s off n = (w, s')"
  then show "w = take n (drop off (id s)) \<and> True \<and> id s' = id s"
    by (auto simp: slice_window_def Let_def min_def split: if_splits)
qed simp

end
