(* ===== verification/Source_Cache.thy ===== *)
theory Source_Cache
  imports Source_Props
begin

text \<open>
  The block cache keeps the contract of a source: whatever the source under it does, a window holds
  the file's own bytes, is short only when the error is recorded, and the cache stays within its
  bound. When the source neither fails nor ends before its claimed length, the cache is a byte
  source showing the file.
\<close>

section \<open>Reading from the source\<close>

lemma raw_read_file: "raw_read p n r = (x, r') \<Longrightarrow> r_file r' = r_file r \<and> claimed r' = claimed r"
  by (auto simp: raw_read_def split: list.splits answer.splits)

lemma raw_read_Got:
  assumes "raw_read p n r = (Got bs, r')"
  obtains k where "bs = take k (drop p (r_file r))" "k \<le> n" "0 < n \<Longrightarrow> 0 < k"
  using assms that by (auto simp: raw_read_def split: list.splits answer.splits)

definition benign :: "raw \<Rightarrow> bool" where
  "benign r \<longleftrightarrow> (\<forall>e. Failed e \<notin> set (answers r))"

lemma raw_read_benign: "raw_read p n r = (x, r') \<Longrightarrow> benign r \<Longrightarrow> benign r' \<and> (\<forall>e. x \<noteq> Err e)"
  by (auto simp: raw_read_def benign_def split: list.splits answer.splits)

lemma raw_seek_keeps:
  "raw_seek r = (x, r') \<Longrightarrow> r_file r' = r_file r \<and> claimed r' = claimed r \<and> (benign r \<longrightarrow> benign r' \<and> x = None)"
  by (auto simp: raw_seek_def benign_def split: list.splits answer.splits)

lemma read_full_spec:
  assumes "read_full p n acc r = (res, r')" "acc = take (length acc) (drop p (r_file r))" "length acc \<le> n"
  shows "r_file r' = r_file r \<and> claimed r' = claimed r \<and> (\<forall>d. res = Inr d \<longrightarrow> d = take n (drop p (r_file r))) \<and>
    (benign r \<longrightarrow> benign r' \<and> (\<exists>d. res = Inr d))"
  using assms
proof (induction p n acc r rule: read_full.induct)
  case (1 p n acc r)
  show ?case
  proof (cases "length acc < n")
    case False
    then have eq: "res = Inr acc" "r' = r" using "1.prems"(1) by (auto simp: read_full.simps [of p n])
    have "n = length acc" using False "1.prems"(3) by simp
    then have "acc = take n (drop p (r_file r))" using "1.prems"(2) by simp
    then show ?thesis using eq by auto
  next
    case True
    obtain x r1 where rd: "raw_read (p + length acc) (n - length acc) r = (x, r1)" by (cases "raw_read (p + length acc) (n - length acc) r") auto
    note keep = raw_read_file [OF rd] and ben = raw_read_benign [OF rd]
    show ?thesis
    proof (cases x)
      case (Got bs)
      obtain k where k: "bs = take k (drop (p + length acc) (r_file r))" "k \<le> n - length acc" "0 < k"
        by (rule raw_read_Got [OF rd [unfolded Got]]) (use True in auto)
      show ?thesis
      proof (cases "bs = []")
        case True
        then have eq: "res = Inr acc" "r' = r1" using "1.prems"(1) rd Got \<open>length acc < n\<close> by (auto simp: read_full.simps [of p n])
        have "length (r_file r) \<le> p + length acc" using True k by simp
        then have "length (drop p (r_file r)) \<le> length acc" by simp
        then have "acc = take n (drop p (r_file r))" using "1.prems"(2,3) by simp
        then show ?thesis using eq keep ben by auto
      next
        case False
        have acc: "acc @ bs = take (length (acc @ bs)) (drop p (r_file (r1)))"
        proof -
          have "drop (length acc) (drop p (r_file r)) = drop (p + length acc) (r_file r)" by (simp add: add.commute)
          then have "acc @ bs = take (length acc + k) (drop p (r_file r))" unfolding take_add k(1) using "1.prems"(2) by metis
          then show ?thesis using keep by (metis length_take min.cobounded1 take_all take_take length_append min.absorb2)
        qed
        have "length (acc @ bs) \<le> n" using k True by simp
        moreover have "read_full p n (acc @ bs) r1 = (res, r')" using "1.prems"(1) rd Got False True by (simp add: read_full.simps [of p n acc])
        ultimately show ?thesis using "1.IH"(1) [OF True rd [symmetric] Got False _ acc] keep ben by auto
      qed
    next
      case Retry
      then have "read_full p n acc r1 = (res, r')" using "1.prems"(1) rd True by (simp add: read_full.simps [of p n acc r])
      then show ?thesis using "1.IH"(2) [OF True rd [symmetric] Retry] "1.prems" keep ben by auto
    next
      case (Err e)
      then have "res = Inl e" "r' = r1" using "1.prems"(1) rd True by (auto simp: read_full.simps [of p n])
      then show ?thesis using keep ben Err by auto
    qed
  qed
qed

section \<open>The cache invariant\<close>

definition blk_size :: "block_cache \<Rightarrow> nat \<Rightarrow> nat" where
  "blk_size c k = min (block c) (c_len c - k * block c)"

definition true_block :: "block_cache \<Rightarrow> nat \<Rightarrow> bytes" where
  "true_block c k = take (blk_size c k) (drop (k * block c) (r_file (c_src c)))"

definition block_cache_inv :: "block_cache \<Rightarrow> bool" where
  "block_cache_inv c \<longleftrightarrow> 0 < block c \<and> 2 \<le> max_blocks c \<and> distinct (map fst (blocks c)) \<and> length (blocks c) \<le> max_blocks c \<and>
     (\<forall>(k, d, t) \<in> set (blocks c). d = true_block c k \<and> (length d < blk_size c k \<longrightarrow> c_error c \<noteq> None))"

text \<open>What stays the same while a cache works.\<close>

definition same_src :: "block_cache \<Rightarrow> block_cache \<Rightarrow> bool" where
  "same_src c c' \<longleftrightarrow> block c' = block c \<and> c_len c' = c_len c \<and> max_blocks c' = max_blocks c \<and>
     r_file (c_src c') = r_file (c_src c) \<and> (c_error c \<noteq> None \<longrightarrow> c_error c' \<noteq> None)"

lemma same_src_refl [simp]: "same_src c c"
  by (simp add: same_src_def)

lemma same_src_trans: "same_src a b \<Longrightarrow> same_src b c \<Longrightarrow> same_src a c"
  by (simp add: same_src_def)

lemma same_src_block: "same_src c c' \<Longrightarrow> true_block c' k = true_block c k \<and> blk_size c' k = blk_size c k"
  by (simp add: same_src_def true_block_def blk_size_def)

lemma oldest_key: "oldest bs = Some (k, t) \<Longrightarrow> k \<in> fst ` set bs"
  by (induction bs arbitrary: k t rule: oldest.induct) (fastforce split: option.splits if_splits)+

lemma oldest_None: "oldest bs = None \<longleftrightarrow> bs = []"
  by (cases bs) (auto split: option.splits prod.splits)

lemma drop_key_set: "x \<in> set (drop_key k bs) \<Longrightarrow> x \<in> set bs \<and> fst x \<noteq> k"
  by (auto simp: drop_key_def)

lemma drop_key_distinct: "distinct (map fst bs) \<Longrightarrow> distinct (map fst (drop_key k bs))"
  unfolding drop_key_def by (rule distinct_map_filter)

lemma drop_key_length:
  assumes "distinct (map fst bs)" "k \<in> fst ` set bs"
  shows "length (drop_key k bs) < length bs"
  using assms(2) unfolding drop_key_def by (auto intro!: length_filter_less)

lemma evict_bound:
  assumes "distinct (map fst bs)" "length bs \<le> mx" "0 < mx"
  shows "length (evict mx bs) < mx"
proof (cases "mx \<le> length bs")
  case True
  then obtain k t where o: "oldest bs = Some (k, t)" using assms(3) oldest_None [of bs] by (cases "oldest bs") auto
  then show ?thesis using drop_key_length [OF assms(1) oldest_key [OF o]] assms(2) True by (simp add: evict_def)
qed (use assms in \<open>simp add: evict_def\<close>)

lemma evict_set: "x \<in> set (evict mx bs) \<Longrightarrow> x \<in> set bs"
  by (auto simp: evict_def dest: drop_key_set split: if_splits option.splits)

lemma evict_distinct: "distinct (map fst bs) \<Longrightarrow> distinct (map fst (evict mx bs))"
  by (auto simp: evict_def drop_key_distinct split: option.splits)

lemma cache_inv_insert:
  assumes "block_cache_inv c" "same_src c c'" "d = true_block c k" "length d < blk_size c k \<longrightarrow> c_error c' \<noteq> None"
    "blocks c' = (k, d, t) # bs" "set bs \<subseteq> set (blocks c)" "distinct (map fst bs)" "k \<notin> fst ` set bs" "length bs < max_blocks c"
  shows "block_cache_inv c'"
proof -
  have "\<forall>(j, x, u) \<in> set (blocks c'). x = true_block c' j \<and> (length x < blk_size c' j \<longrightarrow> c_error c' \<noteq> None)"
    using assms same_src_block [OF assms(2)] unfolding block_cache_inv_def same_src_def by fastforce
  then show ?thesis using assms unfolding block_cache_inv_def same_src_def by simp
qed

section \<open>One block\<close>

lemma block_part_spec:
  "block_part data skip want = (take want (drop skip data), skip + want \<le> length data)"
  by (auto simp: block_part_def Let_def min_def)

lemma load_block_spec:
  assumes "load_block c idx = (got, src)"
  shows "r_file src = r_file (c_src c) \<and> claimed src = claimed (c_src c) \<and> (\<forall>d. got = Inr d \<longrightarrow> d = true_block c idx) \<and>
    (benign (c_src c) \<longrightarrow> benign src \<and> (\<exists>d. got = Inr d))"
proof -
  obtain x r1 where sk: "raw_seek (c_src c) = (x, r1)" by (cases "raw_seek (c_src c)") auto
  note k = raw_seek_keeps [OF sk]
  show ?thesis
  proof (cases x)
    case None
    then have "read_full (idx * block c) (blk_size c idx) [] r1 = (got, src)"
      using assms sk by (simp add: load_block_def Let_def blk_size_def)
    from read_full_spec [OF this] k show ?thesis by (simp add: true_block_def)
  next
    case (Some e)
    then show ?thesis using assms sk k by (auto simp: load_block_def Let_def)
  qed
qed

lemma copy_block_spec:
  assumes cb: "copy_block c idx skip want = ((bs, whole), c')" and inv: "block_cache_inv c" and sz: "skip + want \<le> blk_size c idx"
  shows "block_cache_inv c' \<and> same_src c c' \<and> (whole \<longrightarrow> bs = take want (drop skip (true_block c idx)) \<and> length bs = want) \<and>
    (\<exists>k. bs = take k (drop skip (true_block c idx))) \<and> length bs \<le> want \<and> (\<not> whole \<longrightarrow> c_error c' \<noteq> None)"
proof (cases "map_of (blocks c) idx")
  case (Some e)
  obtain data u where e: "e = (data, u)" by (cases e)
  have mem: "(idx, data, u) \<in> set (blocks c)" using map_of_SomeD [OF Some] e by simp
  have d: "data = true_block c idx" "length data < blk_size c idx \<longrightarrow> c_error c \<noteq> None" using inv mem by (auto simp: block_cache_inv_def)
  have eq: "bs = take want (drop skip data)" "whole \<longleftrightarrow> skip + want \<le> length data"
    "c' = c\<lparr>tick := Suc (tick c), blocks := (idx, data, Suc (tick c)) # drop_key idx (blocks c)\<rparr>"
    using cb Some e by (auto simp: copy_block_def Let_def block_part_spec)
  have src: "same_src c c'" by (simp add: eq(3) same_src_def)
  have dist: "distinct (map fst (blocks c))" using inv by (simp add: block_cache_inv_def)
  have "idx \<in> fst ` set (blocks c)" using mem by force
  then have "length (drop_key idx (blocks c)) < max_blocks c" using drop_key_length [OF dist] inv by (fastforce simp: block_cache_inv_def)
  then have "block_cache_inv c'" using inv src d eq(3) dist
    by (intro cache_inv_insert [OF inv src d(1), where bs = "drop_key idx (blocks c)"]) (auto dest: drop_key_set drop_key_distinct)
  then show ?thesis using src eq d sz by auto
next
  case None
  let ?c = "c\<lparr>tick := Suc (tick c)\<rparr>"
  show ?thesis
  proof (cases "c_error c = None")
    case False
    then have "bs = [] \<and> \<not> whole \<and> c' = ?c" using cb None by (auto simp: copy_block_def Let_def)
    moreover have "block_cache_inv ?c" using inv by (simp add: block_cache_inv_def true_block_def blk_size_def)
    ultimately show ?thesis using False by (auto simp: same_src_def)
  next
    case True
    obtain got src where gs: "load_block ?c idx = (got, src)" by (cases "load_block ?c idx")
    have got: "r_file src = r_file (c_src c) \<and> (\<forall>d. got = Inr d \<longrightarrow> d = true_block c idx)"
      using load_block_spec [OF gs] by (simp add: true_block_def blk_size_def)
    show ?thesis
    proof (cases got)
      case (Inl e)
      then have eq: "bs = []" "\<not> whole" "c_error c' \<noteq> None" "same_src c c'" "blocks c' = blocks c"
        using cb None True gs got by (auto simp: copy_block_def Let_def same_src_def)
      have "block_cache_inv c'" using inv eq(3-5) same_src_block [OF eq(4)] by (auto simp: block_cache_inv_def same_src_def)
      then show ?thesis using eq by auto
    next
      case (Inr data)
      have d: "data = true_block c idx" using got Inr by simp
      have "c' = keep_block (?c\<lparr>c_src := src\<rparr>) idx data" and bs: "bs = take want (drop skip data)" "whole \<longleftrightarrow> skip + want \<le> length data"
        using cb None True gs Inr by (auto simp: copy_block_def Let_def block_part_spec)
      then have eq: "same_src c c'" "length data < blk_size c idx \<longrightarrow> c_error c' \<noteq> None"
        "blocks c' = (idx, data, Suc (tick c)) # evict (max_blocks c) (blocks c)"
        using got True by (auto simp: keep_block_def Let_def same_src_def blk_size_def)
      have dist: "distinct (map fst (blocks c))" and len: "length (blocks c) \<le> max_blocks c" "0 < max_blocks c"
        using inv by (auto simp: block_cache_inv_def)
      have "idx \<notin> fst ` set (blocks c)" using None by (auto simp: map_of_eq_None_iff)
      then have "idx \<notin> fst ` set (evict (max_blocks c) (blocks c))" using evict_set by fastforce
      then have "block_cache_inv c'"
        using evict_bound [OF dist len] evict_distinct [OF dist] evict_set eq(2)
        by (intro cache_inv_insert [OF inv eq(1) d _ eq(3)]) auto
      then show ?thesis using eq bs d sz by auto
    qed
  qed
qed

section \<open>Windows\<close>

lemma same_src_file: "same_src c c' \<Longrightarrow> r_file (c_src c') = r_file (c_src c) \<and> c_len c' = c_len c \<and> block c' = block c"
  by (simp add: same_src_def)

lemma in_block:
  assumes "0 < block c" "at < en" "en \<le> c_len c"
  defines "skip \<equiv> at - at div block c * block c"
  defines "want \<equiv> min (block c - skip) (en - at)"
  shows "skip + want \<le> blk_size c (at div block c)" "0 < want" "at + want \<le> en"
    "take n (drop skip (true_block c (at div block c))) = take (min n (blk_size c (at div block c) - skip)) (drop at (r_file (c_src c)))"
proof -
  have m: "skip = at mod block c" by (simp add: skip_def minus_div_mult_eq_mod)
  have at: "at div block c * block c + skip = at" by (simp add: m)
  have "skip < block c" using assms(1) m by simp
  then show "0 < want" "at + want \<le> en" "skip + want \<le> blk_size c (at div block c)"
    using assms(2,3) at by (auto simp: want_def blk_size_def)
  show "take n (drop skip (true_block c (at div block c))) = take (min n (blk_size c (at div block c) - skip)) (drop at (r_file (c_src c)))"
    unfolding true_block_def take_drop_take drop_drop using at by (simp add: add.commute)
qed

lemma take_length_id: "x = take k y \<Longrightarrow> x = take (length x) y"
  by (metis length_take min.cobounded1 take_all take_take min.absorb2)

lemma window_loop_spec:
  assumes "window_loop en at out c = (w, c')" "block_cache_inv c" "en \<le> c_len c"
  shows "block_cache_inv c' \<and> same_src c c' \<and> (\<exists>x. w = out @ x \<and> x = take (length x) (drop at (r_file (c_src c))) \<and> length x \<le> en - at \<and>
    (length x < en - at \<longrightarrow> c_error c' \<noteq> None))"
  using assms
proof (induction "en - at" arbitrary: at out c rule: less_induct)
  case less
  have B: "0 < block c" using less.prems(2) by (simp add: block_cache_inv_def)
  show ?case
  proof (cases "at < en")
    case False
    then have "w = out" "c' = c" using less.prems(1) by (auto simp: window_loop.simps [of en at])
    then show ?thesis using less.prems(2) False by simp
  next
    case True
    define idx where "idx = at div block c"
    define skip where "skip = at - idx * block c"
    define want where "want = min (block c - skip) (en - at)"
    note ib = in_block [OF B True less.prems(3), folded idx_def, folded skip_def, folded want_def]
    obtain bs whole c1 where cb: "copy_block c idx skip want = ((bs, whole), c1)" by (cases "copy_block c idx skip want") auto
    note spec = copy_block_spec [OF cb less.prems(2) ib(1)]
    note sf = same_src_file [of c c1]
    obtain k where "bs = take k (drop skip (true_block c idx))" using spec by blast
    then have pre: "bs = take (length bs) (drop at (r_file (c_src c)))" using ib(4) [of k] take_length_id by metis
    have eq: "window_loop en at out c = (if whole then window_loop en (at + want) (out @ bs) c1 else (out @ bs, c1))"
      using True B cb by (subst window_loop.simps) (simp add: Let_def idx_def [symmetric] skip_def [symmetric] want_def [symmetric])
    show ?thesis
    proof (cases whole)
      case False
      have "length bs \<le> en - at" using spec ib(3) by linarith
      then show ?thesis using eq less.prems(1) False spec pre by auto
    next
      case whole: True
      then have lb: "length bs = want" using spec by blast
      have "en - (at + want) < en - at" using True ib(2) by linarith
      moreover have "window_loop en (at + want) (out @ bs) c1 = (w, c')" using eq less.prems(1) whole by simp
      moreover have "block_cache_inv c1" "en \<le> c_len c1" using spec less.prems(3) sf by auto
      ultimately obtain x where x: "block_cache_inv c'" "same_src c1 c'" "w = (out @ bs) @ x" "x = take (length x) (drop (at + want) (r_file (c_src c)))"
        "length x \<le> en - (at + want)" "length x < en - (at + want) \<longrightarrow> c_error c' \<noteq> None"
        using less.hyps [of "at + want" "out @ bs" c1] sf spec by auto
      have "bs @ x = take (want + length x) (drop at (r_file (c_src c)))"
      proof -
        have "drop want (drop at (r_file (c_src c))) = drop (at + want) (r_file (c_src c))" by (simp add: add.commute)
        then show ?thesis unfolding take_add using pre x(4) lb by metis
      qed
      then have "bs @ x = take (length (bs @ x)) (drop at (r_file (c_src c)))" by (rule take_length_id)
      moreover have "same_src c c'" using spec x(2) same_src_trans by blast
      moreover have "length (bs @ x) \<le> en - at" "length (bs @ x) < en - at \<longrightarrow> c_error c' \<noteq> None" using x(5,6) lb ib(3) by auto
      ultimately show ?thesis using x(1,3) by (metis append_assoc)
    qed
  qed
qed

text \<open>
  Whatever the source under the cache does (short reads, interruptions, failed seeks and reads, an
  end before its claimed length), a window holds the file's bytes from its offset on, and it is
  shorter than asked only when the cache has recorded the error; the cache keeps its invariant, so
  it never holds more than its number of blocks, each a block's worth of the file.
\<close>

theorem cache_window_honest:
  assumes "block_cache_inv c" "cache_window c off n = (w, c')"
  shows "block_cache_inv c' \<and> same_src c c' \<and> w = take (length w) (drop off (r_file (c_src c))) \<and>
    length w \<le> min n (c_len c - off) \<and> (length w < min n (c_len c - off) \<longrightarrow> c_error c' \<noteq> None) \<and>
    sum_list (map (\<lambda>(k, d, t). length d) (blocks c')) \<le> max_blocks c * block c"
proof -
  define en where "en = min (off + n) (c_len c)"
  have en: "en - off = min n (c_len c - off)" "en \<le> c_len c" by (auto simp: en_def)
  have main: "block_cache_inv c' \<and> same_src c c' \<and> w = take (length w) (drop off (r_file (c_src c))) \<and>
      length w \<le> en - off \<and> (length w < en - off \<longrightarrow> c_error c' \<noteq> None)"
  proof (cases "en \<le> off")
    case True
    then show ?thesis using assms by (simp add: cache_window_def Let_def en_def)
  next
    case False
    then have "window_loop en off [] c = (w, c')" using assms(2) by (simp add: cache_window_def Let_def en_def)
    from window_loop_spec [OF this assms(1) en(2)] show ?thesis by auto
  qed
  then have inv: "block_cache_inv c'" "max_blocks c' = max_blocks c" "block c' = block c" by (auto simp: same_src_def)
  have "(case x of (k, d, t) \<Rightarrow> length d) \<le> block c'" if "x \<in> set (blocks c')" for x
    using inv(1) that by (auto simp: block_cache_inv_def true_block_def blk_size_def)
  then have "sum_list (map (\<lambda>(k, d, t). length d) (blocks c')) \<le> length (blocks c') * block c'" by (rule sum_list_bound)
  also have "\<dots> \<le> max_blocks c * block c" using inv by (simp add: block_cache_inv_def)
  finally show ?thesis using main en(1) by simp
qed

lemma cache_new_inv: "cache_new blk cap r = Inr c \<Longrightarrow> block_cache_inv c \<and> r_file (c_src c) = r_file r \<and> c_len c = claimed r \<and> c_error c = None \<and> (benign r \<longrightarrow> benign (c_src c))"
  by (auto simp: cache_new_def Let_def block_cache_inv_def split: prod.splits option.splits dest!: raw_seek_keeps)

section \<open>A faithful source\<close>

definition cache_ok :: "block_cache \<Rightarrow> bool" where
  "cache_ok c \<longleftrightarrow> block_cache_inv c \<and> c_error c = None \<and> c_len c = length (r_file (c_src c)) \<and> benign (c_src c)"

lemma true_block_full: "c_len c = length (r_file (c_src c)) \<Longrightarrow> length (true_block c k) = blk_size c k"
  by (simp add: true_block_def blk_size_def)

lemma copy_block_ok:
  assumes "copy_block c idx skip want = ((bs, whole), c')" "cache_ok c" "skip + want \<le> blk_size c idx"
  shows "whole" "cache_ok c'"
proof -
  have inv: "block_cache_inv c" and ok: "c_error c = None" "c_len c = length (r_file (c_src c))" "benign (c_src c)" using assms(2) by (auto simp: cache_ok_def)
  note spec = copy_block_spec [OF assms(1) inv assms(3)]
  have len: "length (true_block c idx) = blk_size c idx" using ok(2) by (rule true_block_full)
  have "c_error c' = None \<and> benign (c_src c')"
  proof (cases "map_of (blocks c) idx")
    case (Some e)
    then show ?thesis using assms(1) ok by (auto simp: copy_block_def Let_def split: prod.splits)
  next
    case None
    let ?c = "c\<lparr>tick := Suc (tick c)\<rparr>"
    obtain got src where gs: "load_block ?c idx = (got, src)" by (cases "load_block ?c idx")
    have l: "benign src" "\<exists>d. got = Inr d" "\<And>d. got = Inr d \<Longrightarrow> d = true_block c idx"
      using load_block_spec [OF gs] ok(3) by (auto simp: true_block_def blk_size_def)
    then obtain d where d: "got = Inr d" "d = true_block c idx" by blast
    then have "c' = keep_block (?c\<lparr>c_src := src\<rparr>) idx d" using assms(1) None ok(1) gs by (auto simp: copy_block_def Let_def)
    then show ?thesis using l(1) d(2) len ok(1) by (simp add: keep_block_def Let_def blk_size_def)
  qed
  then show "whole" "cache_ok c'" using spec ok(2) same_src_file [of c c'] by (auto simp: cache_ok_def)
qed

lemma window_loop_ok:
  assumes "window_loop en at out c = (w, c')" "cache_ok c" "en \<le> c_len c"
  shows "cache_ok c'"
  using assms
proof (induction "en - at" arbitrary: at out c rule: less_induct)
  case less
  have B: "0 < block c" and inv: "block_cache_inv c" using less.prems(2) by (auto simp: cache_ok_def block_cache_inv_def)
  show ?case
  proof (cases "at < en")
    case False
    then show ?thesis using less.prems by (auto simp: window_loop.simps [of en at])
  next
    case True
    define idx where "idx = at div block c"
    define skip where "skip = at - idx * block c"
    define want where "want = min (block c - skip) (en - at)"
    note ib = in_block [OF B True less.prems(3), folded idx_def, folded skip_def, folded want_def]
    obtain bs whole c1 where cb: "copy_block c idx skip want = ((bs, whole), c1)" by (cases "copy_block c idx skip want") auto
    note ok = copy_block_ok [OF cb less.prems(2) ib(1)]
    have "window_loop en at out c = window_loop en (at + want) (out @ bs) c1"
      using True B cb ok(1) by (subst window_loop.simps) (simp add: Let_def idx_def [symmetric] skip_def [symmetric] want_def [symmetric])
    moreover have "en - (at + want) < en - at" using True ib(2) by linarith
    moreover have "en \<le> c_len c1" using copy_block_spec [OF cb inv ib(1)] same_src_file [of c c1] less.prems(3) by auto
    ultimately show ?thesis using less.hyps [of "at + want" "out @ bs" c1] less.prems(1) ok(2) by simp
  qed
qed

interpretation cached: byte_source c_len cache_window "\<lambda>c. r_file (c_src c)" cache_ok
proof
  fix c off n w c'
  assume ok: "cache_ok c"
  then show "c_len c = length (r_file (c_src c))" by (simp add: cache_ok_def)
  assume w: "cache_window c off n = (w, c')"
  have inv: "block_cache_inv c" and len: "c_len c = length (r_file (c_src c))" using ok by (auto simp: cache_ok_def)
  define en where "en = min (off + n) (c_len c)"
  show "w = take n (drop off (r_file (c_src c))) \<and> cache_ok c' \<and> r_file (c_src c') = r_file (c_src c)"
  proof (cases "en \<le> off")
    case True
    then have "w = []" "c' = c" using w by (auto simp: cache_window_def Let_def en_def)
    moreover have "take n (drop off (r_file (c_src c))) = []" using True len by (auto simp: en_def)
    ultimately show ?thesis using ok by simp
  next
    case False
    then have wl: "window_loop en off [] c = (w, c')" using w by (simp add: cache_window_def Let_def en_def)
    have en: "en \<le> c_len c" by (simp add: en_def)
    have ok': "cache_ok c'" by (rule window_loop_ok [OF wl ok en])
    obtain x where x: "same_src c c'" "w = x" "x = take (length x) (drop off (r_file (c_src c)))" "length x \<le> en - off"
      "length x < en - off \<longrightarrow> c_error c' \<noteq> None" using window_loop_spec [OF wl inv en] by auto
    then have "length x = en - off" using ok' by (auto simp: cache_ok_def)
    then have "w = take (en - off) (drop off (r_file (c_src c)))" using x by metis
    also have "\<dots> = take n (drop off (r_file (c_src c)))" using len False by (auto simp: en_def min_def)
    finally show ?thesis using ok' x(1) same_src_file by blast
  qed
qed

interpretation stepped: byte_index "\<lambda>t. c_len (st_src t)" "stepper_at cache_window" "stepper_range c_len cache_window"
    "\<lambda>t. r_file (c_src (st_src t))" "stepper_ok (\<lambda>c. r_file (c_src c)) cache_ok"
  by (rule cached.stepper_index)

section \<open>Searching and reading through the cache\<close>

text \<open>
  C34. Searching a file through the cache, in windows that overlap by the needle's length, finds the
  same first occurrence as searching the file held in memory, for every needle and range.
\<close>

theorem cached_find:
  assumes "cache_ok c" "first_occurrence mm"
  shows "fst (src_find c_len cache_window mm needle from to c) = slice_find mm needle from to (r_file (c_src c))"
  by (rule cached.find_view [OF assms, of needle "from" to]) simp

text \<open>
  Visiting a range of a file through the cache hands the visitor consecutive pieces that together
  are exactly the range, until it stops; iterating over the bytes yields exactly the range.
\<close>

theorem cached_chunks:
  assumes "cache_ok c"
  shows "fst (src_chunks c_len cache_window f from to a c) =
      visit f (pieces from (take (min to (c_len c) - from) (drop from (r_file (c_src c))))) a \<and>
    concat (map snd (pieces from (take (min to (c_len c) - from) (drop from (r_file (c_src c)))))) =
      take (min to (c_len c) - from) (drop from (r_file (c_src c))) \<and>
    fst (src_bytes c_len cache_window from to c) = take (min to (c_len c) - from) (drop from (r_file (c_src c)))"
proof -
  have "c_len c = length (r_file (c_src c))" using assms by (simp add: cache_ok_def)
  then show ?thesis
    using cached.chunks_visit [OF assms, of f "from" to a] cached.bytes_view [OF assms, of "from" to]
    by (metis fst_conv pieces_concat)
qed

text \<open>A plain search, and a small file read in blocks of four bytes, to instantiate the claims.\<close>

fun naive_find :: "nat \<Rightarrow> bytes \<Rightarrow> bytes \<Rightarrow> nat option" where
  "naive_find k [] n = (if n = [] then Some k else None)"
| "naive_find k (b # h) n = (if take (length n) (b # h) = n then Some k else naive_find (Suc k) h n)"

lemma occurs_Suc: "occurs n (b # h) (Suc p) \<longleftrightarrow> occurs n h p"
  by (simp add: occurs_def)

lemma naive_find_first: "naive_find k h n = map_option (\<lambda>p. k + p) (first_from n h 0)"
proof (induction k h n rule: naive_find.induct)
  case (1 k n)
  show ?case
  proof (cases "n = []")
    case True
    then have "first_from n [] 0 = Some 0" by (intro first_from_least) (auto simp: occurs_def)
    then show ?thesis using True by simp
  next
    case False
    then have "first_from n [] 0 = None" by (auto simp: first_from_NoneD occurs_def)
    then show ?thesis using False by simp
  qed
next
  case (2 k b h n)
  show ?case
  proof (cases "take (length n) (b # h) = n")
    case True
    then have "length n \<le> length (b # h)" by (metis length_take min.cobounded1)
    then have "first_from n (b # h) 0 = Some 0" using True by (intro first_from_least) (auto simp: occurs_def)
    then show ?thesis using True by simp
  next
    case False
    then have no: "\<not> occurs n (b # h) 0" by (simp add: occurs_def)
    show ?thesis
    proof (cases "first_from n h 0")
      case None
      have "\<not> occurs n (b # h) p" for p using None no by (cases p) (auto simp: first_from_NoneD occurs_Suc)
      then have "first_from n (b # h) 0 = None" by (simp add: first_from_NoneD)
      then show ?thesis using 2 False None by simp
    next
      case (Some p)
      note d = first_from_SomeD [OF Some]
      have "\<not> occurs n (b # h) q" if "q < Suc p" for q using d(3) no that by (cases q) (auto simp: occurs_Suc)
      then have "first_from n (b # h) 0 = Some (Suc p)" using d(1) by (intro first_from_least) (auto simp: occurs_Suc)
      then show ?thesis using 2 False Some by simp
    qed
  qed
qed

lemma naive_first_occurrence: "first_occurrence (\<lambda>h n. naive_find 0 h n)"
  by (simp add: first_occurrence_def naive_find_first option.map_ident)

definition demo_raw :: raw where
  "demo_raw = \<lparr>r_file = [1, 2, 3, 4, 5, 6, 7], claimed = 7, answers = [Interrupted, Short 0, Short 1]\<rparr>"

definition demo_cache :: block_cache where
  "demo_cache = (case cache_new 4 8 demo_raw of Inr c \<Rightarrow> c | Inl _ \<Rightarrow> undefined)"

lemma demo_cache_ok: "cache_ok demo_cache" "r_file (c_src demo_cache) = [1, 2, 3, 4, 5, 6, 7]"
  by (auto simp: demo_cache_def cache_new_def raw_seek_def demo_raw_def cache_ok_def block_cache_inv_def benign_def Let_def)

theorem cached_find_witness:
  "fst (src_find c_len cache_window (\<lambda>h n. naive_find 0 h n) [5, 6] 1 9 demo_cache) = Some 4"
  unfolding cached_find [OF demo_cache_ok(1) naive_first_occurrence] demo_cache_ok(2) by (simp add: slice_find_def)

theorem cached_chunks_witness: "fst (src_bytes c_len cache_window 2 5 demo_cache) = [3, 4, 5]"
  using cached_chunks [OF demo_cache_ok(1), of "\<lambda>_ _ a. (True, a)" 2 5 "()"] demo_cache_ok
  by (simp add: cache_ok_def numeral_eq_Suc)

theorem cache_window_honest_witness:
  "\<exists>w c'. cache_window demo_cache 3 2 = (w, c') \<and> w = take (length w) [4, 5, 6, 7] \<and> length w \<le> 2"
proof -
  obtain w c' where w: "cache_window demo_cache 3 2 = (w, c')" by (cases "cache_window demo_cache 3 2")
  have "block_cache_inv demo_cache" using demo_cache_ok(1) by (simp add: cache_ok_def)
  from cache_window_honest [OF this w] show ?thesis using w demo_cache_ok(2) by (auto simp: numeral_eq_Suc)
qed

end
