(* ===== verification/Dlp.thy ===== *)
theory Dlp
  imports Source_Cache
begin

text \<open>
  The structured-data heuristics (\<^verbatim>\<open>crates/exav-core/src/dlp.rs\<close>): counting payment-card and social
  security numbers in an object read by index. A count is a function of the two operations of the
  \<^verbatim>\<open>Bytes\<close> trait it is given; \<open>None\<close> is a panic.
\<close>

section \<open>Definitions\<close>

datatype ssn_mode = Normal | Stripped | Both

record bin =
  lo :: u32
  hi :: u32
  len_lo :: nat
  len_hi :: nat
  credit :: bool

definition mk_bin :: "u32 \<Rightarrow> u32 \<Rightarrow> nat \<Rightarrow> nat \<Rightarrow> bool \<Rightarrow> bin" where
  "mk_bin l h a b c = \<lparr>lo = l, hi = h, len_lo = a, len_hi = b, credit = c\<rparr>"

definition BINS :: "bin list" where
  "BINS =
    [mk_bin 100000 199999 15 15 False,
     mk_bin 222100 272099 16 16 True,
     mk_bin 300000 305999 14 16 True,
     mk_bin 309500 309599 14 16 True,
     mk_bin 340000 349999 15 15 True,
     mk_bin 352800 358999 16 16 True,
     mk_bin 360000 369999 14 16 True,
     mk_bin 370000 379999 15 15 True,
     mk_bin 380000 399999 16 16 True,
     mk_bin 400000 499999 16 16 True,
     mk_bin 500000 509999 16 16 False,
     mk_bin 510000 559999 16 16 True,
     mk_bin 601100 601199 16 16 True,
     mk_bin 620000 629999 16 16 True,
     mk_bin 644000 659999 16 16 True]"

definition MAX_SEPARATORS :: nat where "MAX_SEPARATORS = 8"

fun bin_for_in :: "bin list \<Rightarrow> u32 \<Rightarrow> bool \<Rightarrow> bin option" where
  "bin_for_in [] prefix credit_only = None"
| "bin_for_in (b # bs) prefix credit_only =
     (if prefix < lo b then None
      else if prefix \<le> hi b \<and> (\<not> credit_only \<or> credit b) then Some b
      else bin_for_in bs prefix credit_only)"

definition bin_for :: "u32 \<Rightarrow> bool \<Rightarrow> bin option" where
  "bin_for prefix credit_only = bin_for_in BINS prefix credit_only"

definition is_ascii_digit :: "u8 \<Rightarrow> bool" where
  "is_ascii_digit c \<longleftrightarrow> 0x30 \<le> c \<and> c \<le> 0x39"

text \<open>
  The checksum runs over ASCII digits, at most nineteen of them, so neither the subtraction nor the
  sum leaves its range.
\<close>

fun luhn_step :: "u8 \<Rightarrow> int \<times> bool \<Rightarrow> int \<times> bool" where
  "luhn_step d (acc, double) =
     (let v = int (unat (d - 0x30));
          v = (if double then (let w = v * 2 in if w > 9 then w - 9 else w) else v)
      in (acc + v, \<not> double))"

definition luhn_valid :: "bytes \<Rightarrow> bool" where
  "luhn_valid digits = (fst (fold luhn_step (rev digits) (0, False)) mod 10 = 0)"

definition digits_to_u32 :: "bytes \<Rightarrow> u32" where
  "digits_to_u32 d = foldl (\<lambda>a c. a * 10 + ucast (c - 0x30)) 0 d"

text \<open>
  Collecting digits up to \<open>mx\<close>, skipping single separators: the digits, the separators used and the
  rest of the buffer. The digits go to an array of nineteen; writing past it would panic.
\<close>

fun collect :: "nat \<Rightarrow> bytes \<Rightarrow> bytes \<Rightarrow> nat \<Rightarrow> (bytes \<times> nat \<times> bytes) option" where
  "collect mx [] ds seps = Some (ds, seps, [])"
| "collect mx (c # cs) ds seps =
     (if length ds < mx then
        if is_ascii_digit c then (if length ds < 19 then collect mx cs (ds @ [c]) seps else None)
        else if (c = 0x20 \<or> c = 0x2D) \<and> seps < MAX_SEPARATORS then collect mx cs ds (Suc seps)
        else Some (ds, seps, c # cs)
      else Some (ds, seps, c # cs))"

definition card_at :: "bytes \<Rightarrow> bool \<Rightarrow> bool option" where
  "card_at buf credit_only =
     (case collect 6 buf [] 0 of
        None \<Rightarrow> None
      | Some (ds, seps, rest) \<Rightarrow>
          if length ds < 6 then Some False
          else case bin_for (digits_to_u32 (take 6 ds)) credit_only of
            None \<Rightarrow> Some False
          | Some b \<Rightarrow>
              (case collect (len_hi b) rest ds seps of
                 None \<Rightarrow> None
               | Some (ds, _, rest) \<Rightarrow>
                   if length ds < len_lo b \<or> (rest \<noteq> [] \<and> is_ascii_digit (hd rest)) then Some False
                   else Some (luhn_valid ds)))"

definition CARD_REACH :: nat where "CARD_REACH = 19 + MAX_SEPARATORS + 1"

text \<open>Whether a number starts at \<open>i\<close>: a digit there and none before it.\<close>

definition number_start :: "('t \<Rightarrow> nat \<Rightarrow> (u8 \<times> 't) option) \<Rightarrow> 't \<Rightarrow> nat \<Rightarrow> (bool \<times> 't) option" where
  "number_start at t i =
     (case at t i of
        None \<Rightarrow> None
      | Some (c, t) \<Rightarrow>
          if \<not> is_ascii_digit c then Some (False, t)
          else if i = 0 then Some (True, t)
          else (case at t (i - 1) of None \<Rightarrow> None | Some (p, t) \<Rightarrow> Some (\<not> is_ascii_digit p, t)))"

text \<open>The scan both counts share: \<open>n\<close> is the object's length, which no read changes.\<close>

function count_loop :: "('t \<Rightarrow> nat \<Rightarrow> (u8 \<times> 't) option) \<Rightarrow> ('t \<Rightarrow> nat \<Rightarrow> nat \<Rightarrow> bytes \<times> 't) \<Rightarrow> (bytes \<Rightarrow> bool option) \<Rightarrow>
    nat \<Rightarrow> nat \<Rightarrow> nat \<Rightarrow> nat \<Rightarrow> nat \<Rightarrow> 't \<Rightarrow> (nat \<times> 't) option" where
  "count_loop at rng test reach skip n i cnt t =
     (if i < n then
        (case number_start at t i of
           None \<Rightarrow> None
         | Some (start, t) \<Rightarrow>
             if \<not> start then count_loop at rng test reach skip n (i + 1) cnt t
             else
               (case rng t i (i + reach) of (w, t) \<Rightarrow>
                case test w of
                  None \<Rightarrow> None
                | Some hit \<Rightarrow>
                    if hit then count_loop at rng test reach skip n (i + skip + 1) (cnt + 1) t
                    else count_loop at rng test reach skip n (i + 1) cnt t))
      else Some (cnt, t))"
  by pat_completeness auto
termination
  by (relation "measure (\<lambda>(at, rng, test, reach, skip, n, i, cnt, t). n - i)") auto

declare count_loop.simps [simp del]

definition count_credit_cards_in :: "('t \<Rightarrow> nat) \<Rightarrow> ('t \<Rightarrow> nat \<Rightarrow> (u8 \<times> 't) option) \<Rightarrow> ('t \<Rightarrow> nat \<Rightarrow> nat \<Rightarrow> bytes \<times> 't) \<Rightarrow> 't \<Rightarrow> nat option" where
  "count_credit_cards_in blen at rng t =
     map_option fst (count_loop at rng (\<lambda>w. card_at w True) CARD_REACH 13 (blen t) 0 0 t)"

definition count_credit_cards :: "bytes \<Rightarrow> nat option" where
  "count_credit_cards data = count_credit_cards_in length indexed_at indexed_range data"

text \<open>A field of digits; the widest has four, so the sum stays in range.\<close>

fun field_from :: "int \<Rightarrow> bytes \<Rightarrow> int option" where
  "field_from v [] = Some v"
| "field_from v (c # cs) = (if \<not> is_ascii_digit c then None else field_from (v * 10 + int (unat (c - 0x30))) cs)"

definition field :: "bytes \<Rightarrow> int option" where
  "field bs = field_from 0 bs"

definition ssn_width :: "bool \<Rightarrow> nat" where
  "ssn_width hyphens = (if hyphens then 11 else 9)"

definition sub_bytes :: "bytes \<Rightarrow> nat \<Rightarrow> nat \<Rightarrow> bytes" where
  "sub_bytes bs a b = take (b - a) (drop a bs)"

definition ssn_fields :: "bytes \<Rightarrow> bool \<Rightarrow> (int \<times> int \<times> int) option" where
  "ssn_fields buf hyphens =
     (if hyphens then
        if buf ! 3 \<noteq> 0x2D \<or> buf ! 6 \<noteq> 0x2D then None
        else (case (field (sub_bytes buf 0 3), field (sub_bytes buf 4 6), field (sub_bytes buf 7 11)) of
                (Some a, Some g, Some s) \<Rightarrow> Some (a, g, s) | _ \<Rightarrow> None)
      else (case (field (sub_bytes buf 0 3), field (sub_bytes buf 3 5), field (sub_bytes buf 5 9)) of
              (Some a, Some g, Some s) \<Rightarrow> Some (a, g, s) | _ \<Rightarrow> None))"

definition ssn_at :: "bytes \<Rightarrow> bool \<Rightarrow> bool" where
  "ssn_at buf hyphens =
     (let width = ssn_width hyphens in
      if length buf < width then False
      else if width < length buf \<and> is_ascii_digit (buf ! width) then False
      else case ssn_fields buf hyphens of
        None \<Rightarrow> False
      | Some (area, grp, serial) \<Rightarrow>
          1 \<le> area \<and> area \<le> 899 \<and> area \<noteq> 666 \<and> 1 \<le> grp \<and> grp \<le> 99 \<and> 1 \<le> serial \<and> serial \<le> 9999)"

definition count_ssn_fmt :: "('t \<Rightarrow> nat) \<Rightarrow> ('t \<Rightarrow> nat \<Rightarrow> (u8 \<times> 't) option) \<Rightarrow> ('t \<Rightarrow> nat \<Rightarrow> nat \<Rightarrow> bytes \<times> 't) \<Rightarrow> bool \<Rightarrow> 't \<Rightarrow> (nat \<times> 't) option" where
  "count_ssn_fmt blen at rng hyphens t =
     count_loop at rng (\<lambda>w. Some (ssn_at w hyphens)) (ssn_width hyphens + 1) (ssn_width hyphens) (blen t) 0 0 t"

definition count_ssns_in :: "('t \<Rightarrow> nat) \<Rightarrow> ('t \<Rightarrow> nat \<Rightarrow> (u8 \<times> 't) option) \<Rightarrow> ('t \<Rightarrow> nat \<Rightarrow> nat \<Rightarrow> bytes \<times> 't) \<Rightarrow> ssn_mode \<Rightarrow> 't \<Rightarrow> nat option" where
  "count_ssns_in blen at rng mode t =
     (case mode of
        Normal \<Rightarrow> map_option fst (count_ssn_fmt blen at rng True t)
      | Stripped \<Rightarrow> map_option fst (count_ssn_fmt blen at rng False t)
      | Both \<Rightarrow>
          (case count_ssn_fmt blen at rng True t of
             None \<Rightarrow> None
           | Some (a, t) \<Rightarrow> map_option (\<lambda>(b, _). a + b) (count_ssn_fmt blen at rng False t)))"

definition count_ssns :: "bytes \<Rightarrow> ssn_mode \<Rightarrow> nat option" where
  "count_ssns data mode = count_ssns_in length indexed_at indexed_range mode data"

end
