(* ===== verification/Dlp_Props.thy ===== *)
theory Dlp_Props
  imports Dlp
begin

text \<open>
  What the counts promise: the same count over every source, no panic, windows that reach far
  enough, a checksum that catches every single-digit error, and the published validity rules.
\<close>

section \<open>Networks\<close>

lemma bin_for_in_sorted:
  assumes "sorted (map lo bs)"
  shows "bin_for_in bs p co = find (\<lambda>b. lo b \<le> p \<and> p \<le> hi b \<and> (\<not> co \<or> credit b)) bs"
  using assms
proof (induction bs)
  case (Cons b bs)
  show ?case
  proof (cases "p < lo b")
    case True
    then have "\<forall>c \<in> set (b # bs). p < lo c" using Cons.prems by auto
    then have "find (\<lambda>b. lo b \<le> p \<and> p \<le> hi b \<and> (\<not> co \<or> credit b)) (b # bs) = None" by (subst find_None_iff) force
    then show ?thesis using True by simp
  next
    case False
    then show ?thesis using Cons by (auto simp: not_less)
  qed
qed simp

lemma BINS_sorted: "sorted (map lo BINS)"
  by (simp add: BINS_def mk_bin_def)

lemma BINS_lengths: "b \<in> set BINS \<Longrightarrow> 6 \<le> len_lo b \<and> len_lo b \<le> len_hi b \<and> len_hi b \<le> 16"
  by (auto simp: BINS_def mk_bin_def)

lemma bin_for_mem: "bin_for p co = Some b \<Longrightarrow> b \<in> set BINS"
  unfolding bin_for_def bin_for_in_sorted [OF BINS_sorted] by (auto simp: find_Some_iff)

section \<open>Collecting\<close>

lemma collect_spec:
  assumes "length ds \<le> mx" "mx \<le> 19" "seps \<le> MAX_SEPARATORS"
  shows "\<exists>ds' s' rest. collect mx buf ds seps = Some (ds', s', rest) \<and> length ds \<le> length ds' \<and> length ds' \<le> mx \<and>
    seps \<le> s' \<and> s' \<le> MAX_SEPARATORS \<and> length rest + (length ds' - length ds) + (s' - seps) = length buf \<and>
    (\<forall>n. (mx - length ds) + (MAX_SEPARATORS - seps) < n \<longrightarrow>
       collect mx (take n buf) ds seps = Some (ds', s', take (n - (length ds' - length ds) - (s' - seps)) rest))"
  using assms
proof (induction mx buf ds seps rule: collect.induct)
  case (2 mx c cs ds seps)
  consider (full) "\<not> length ds < mx" | (digit) "length ds < mx" "is_ascii_digit c"
    | (sep) "length ds < mx" "\<not> is_ascii_digit c" "(c = 0x20 \<or> c = 0x2D) \<and> seps < MAX_SEPARATORS"
    | (stop) "length ds < mx" "\<not> is_ascii_digit c" "\<not> ((c = 0x20 \<or> c = 0x2D) \<and> seps < MAX_SEPARATORS)" by blast
  then show ?case
  proof cases
    case full
    then show ?thesis using "2.prems" by (auto simp: take_Cons')
  next
    case digit
    have l: "length ds < 19" using digit "2.prems" by simp
    have p: "length (ds @ [c]) \<le> mx" using digit by simp
    obtain ds' s' rest where r: "collect mx cs (ds @ [c]) seps = Some (ds', s', rest)" "length (ds @ [c]) \<le> length ds'" "length ds' \<le> mx"
      "seps \<le> s'" "s' \<le> MAX_SEPARATORS" "length rest + (length ds' - length (ds @ [c])) + (s' - seps) = length cs"
      "\<And>n. (mx - length (ds @ [c])) + (MAX_SEPARATORS - seps) < n \<Longrightarrow>
         collect mx (take n cs) (ds @ [c]) seps = Some (ds', s', take (n - (length ds' - length (ds @ [c])) - (s' - seps)) rest)"
      using "2.IH"(1) [OF digit l p "2.prems"(2,3)] by blast
    have cut: "collect mx (take n (c # cs)) ds seps = Some (ds', s', take (n - (length ds' - length ds) - (s' - seps)) rest)"
      if n: "(mx - length ds) + (MAX_SEPARATORS - seps) < n" for n
    proof -
      obtain m where m: "n = Suc m" using n by (cases n) auto
      then have "(mx - length (ds @ [c])) + (MAX_SEPARATORS - seps) < m" using n digit by simp
      then show ?thesis using r(7) [of m] digit l m r(2) by (simp add: Suc_diff_le)
    qed
    have "collect mx (c # cs) ds seps = Some (ds', s', rest)" using r(1) digit l by simp
    moreover have "length ds \<le> length ds'" "length rest + (length ds' - length ds) + (s' - seps) = length (c # cs)" using r(2,6) by auto
    ultimately show ?thesis using cut r(3-5) by blast
  next
    case sep
    have p: "Suc seps \<le> MAX_SEPARATORS" using sep by simp
    obtain ds' s' rest where r: "collect mx cs ds (Suc seps) = Some (ds', s', rest)" "length ds \<le> length ds'" "length ds' \<le> mx"
      "Suc seps \<le> s'" "s' \<le> MAX_SEPARATORS" "length rest + (length ds' - length ds) + (s' - Suc seps) = length cs"
      "\<And>n. (mx - length ds) + (MAX_SEPARATORS - Suc seps) < n \<Longrightarrow>
         collect mx (take n cs) ds (Suc seps) = Some (ds', s', take (n - (length ds' - length ds) - (s' - Suc seps)) rest)"
      using "2.IH"(2) [OF sep "2.prems"(1,2) p] by blast
    have cut: "collect mx (take n (c # cs)) ds seps = Some (ds', s', take (n - (length ds' - length ds) - (s' - seps)) rest)"
      if n: "(mx - length ds) + (MAX_SEPARATORS - seps) < n" for n
    proof -
      obtain m where m: "n = Suc m" using n by (cases n) auto
      then have "(mx - length ds) + (MAX_SEPARATORS - Suc seps) < m" using n sep by linarith
      moreover have "Suc m - (length ds' - length ds) - (s' - seps) = m - (length ds' - length ds) - (s' - Suc seps)" using r(4) by linarith
      ultimately show ?thesis using r(7) [of m] sep m by simp
    qed
    have "collect mx (c # cs) ds seps = Some (ds', s', rest)" using r(1) sep by auto
    moreover have "seps \<le> s'" "length rest + (length ds' - length ds) + (s' - seps) = length (c # cs)" using r(4,6) by auto
    ultimately show ?thesis using cut r(2,3,5) by blast
  next
    case stop
    then show ?thesis using "2.prems" by (auto simp: take_Cons')
  qed
qed auto

text \<open>Reading one card needs no more than the reach, and never panics.\<close>

lemma card_at_reach: "card_at (take CARD_REACH buf) co = card_at buf co \<and> card_at buf co \<noteq> None"
proof -
  obtain ds s rest where c1: "collect 6 buf [] 0 = Some (ds, s, rest)" "length ds \<le> 6" "s \<le> MAX_SEPARATORS"
    and t1: "\<And>n. 6 + MAX_SEPARATORS < n \<Longrightarrow> collect 6 (take n buf) [] 0 = Some (ds, s, take (n - length ds - s) rest)"
    using collect_spec [of "[]" 6 0 buf] by auto
  have t: "collect 6 (take CARD_REACH buf) [] 0 = Some (ds, s, take (CARD_REACH - length ds - s) rest)"
    by (rule t1) (simp add: CARD_REACH_def)
  show ?thesis
  proof (cases "length ds < 6")
    case True
    then show ?thesis using c1(1) t by (simp add: card_at_def)
  next
    case False
    then have l6: "length ds = 6" using c1(2) by simp
    show ?thesis
    proof (cases "bin_for (digits_to_u32 (take 6 ds)) co")
      case None
      then show ?thesis using c1(1) t False by (simp add: card_at_def)
    next
      case (Some b)
      have b: "6 \<le> len_hi b" "len_hi b \<le> 16" using BINS_lengths [OF bin_for_mem [OF Some]] by auto
      obtain ds2 s2 rest2 where c2: "collect (len_hi b) rest ds s = Some (ds2, s2, rest2)" "length ds2 \<le> len_hi b" "s \<le> s2" "s2 \<le> MAX_SEPARATORS"
        and t2: "\<And>n. (len_hi b - 6) + (MAX_SEPARATORS - s) < n \<Longrightarrow>
          collect (len_hi b) (take n rest) ds s = Some (ds2, s2, take (n - (length ds2 - 6) - (s2 - s)) rest2)"
        using collect_spec [of ds "len_hi b" s rest] b c1(3) l6 by auto
      define m where "m = CARD_REACH - 6 - s"
      have m: "(len_hi b - 6) + (MAX_SEPARATORS - s) < m" using b c1(3) by (simp add: m_def CARD_REACH_def MAX_SEPARATORS_def)
      then have "0 < m - (length ds2 - 6) - (s2 - s)" using c2(2-4) b by linarith
      then have hd: "take (m - (length ds2 - 6) - (s2 - s)) rest2 \<noteq> [] \<longleftrightarrow> rest2 \<noteq> []"
        "hd (take (m - (length ds2 - 6) - (s2 - s)) rest2) = hd rest2" by (auto simp: hd_take)
      have "card_at (take CARD_REACH buf) co = card_at buf co"
        unfolding card_at_def c1(1) t using l6 Some c2(1) t2 [OF m] hd by (simp add: m_def)
      moreover have "card_at buf co \<noteq> None" using c1(1) l6 Some c2(1) by (simp add: card_at_def del: not_None_eq)
      ultimately show ?thesis by blast
    qed
  qed
qed

section \<open>One count for every source\<close>

text \<open>The reference: at every position where a number starts, look at all that follows.\<close>

function number_count :: "(bytes \<Rightarrow> bool) \<Rightarrow> nat \<Rightarrow> bytes \<Rightarrow> nat \<Rightarrow> nat" where
  "number_count P skip data i =
     (if i < length data then
        if is_ascii_digit (data ! i) \<and> (i = 0 \<or> \<not> is_ascii_digit (data ! (i - 1))) \<and> P (drop i data)
        then Suc (number_count P skip data (i + skip + 1))
        else number_count P skip data (i + 1)
      else 0)"
  by pat_completeness auto
termination by (relation "measure (\<lambda>(P, skip, data, i). length data - i)") auto

declare number_count.simps [simp del]

context byte_index
begin

lemma number_start_view:
  assumes "bok t" "i < length (bview t)"
  shows "\<exists>t'. number_start at t i = Some (is_ascii_digit (bview t ! i) \<and> (i = 0 \<or> \<not> is_ascii_digit (bview t ! (i - 1))), t') \<and>
    bok t' \<and> bview t' = bview t"
proof -
  obtain t1 where t1: "at t i = Some (bview t ! i, t1)" "bok t1" "bview t1 = bview t" using at_view [OF assms] by blast
  show ?thesis
  proof (cases "is_ascii_digit (bview t ! i) \<and> i \<noteq> 0")
    case True
    then have "i - 1 < length (bview t1)" using assms(2) t1(3) by simp
    then obtain t2 where "at t1 (i - 1) = Some (bview t ! (i - 1), t2)" "bok t2" "bview t2 = bview t" using at_view [OF t1(2)] t1(3) by metis
    then show ?thesis using t1(1) True by (simp add: number_start_def)
  next
    case False
    then show ?thesis using t1 by (auto simp: number_start_def)
  qed
qed

lemma count_loop_view:
  assumes "bok t" "\<And>s. test (take reach s) = Some (P s)"
  shows "\<exists>t'. count_loop at range test reach skip (length (bview t)) i cnt t = Some (cnt + number_count P skip (bview t) i, t') \<and>
    bok t' \<and> bview t' = bview t"
  using assms(1)
proof (induction "length (bview t) - i" arbitrary: i cnt t rule: less_induct)
  case less
  show ?case
  proof (cases "i < length (bview t)")
    case False
    then show ?thesis using less.prems by (simp add: count_loop.simps [of _ _ _ _ _ _ i] number_count.simps [of _ _ _ i])
  next
    case True
    let ?start = "is_ascii_digit (bview t ! i) \<and> (i = 0 \<or> \<not> is_ascii_digit (bview t ! (i - 1)))"
    obtain t1 where t1: "number_start at t i = Some (?start, t1)" "bok t1" "bview t1 = bview t"
      using number_start_view [OF less.prems True] by blast
    have d: "length (bview t) - (i + k + 1) < length (bview t) - i" for k using True by simp
    have next_one: "\<exists>t'. count_loop at range test reach skip (length (bview t)) (i + k + 1) c u = Some (c + number_count P skip (bview t) (i + k + 1), t') \<and>
        bok t' \<and> bview t' = bview t" if "bok u" "bview u = bview t" for u k c
      using less.hyps [of u "i + k + 1" c] d [of k] that by simp
    show ?thesis
    proof (cases ?start)
      case False
      then have "number_count P skip (bview t) i = number_count P skip (bview t) (i + 1)" using True by (subst number_count.simps) auto
      moreover have "count_loop at range test reach skip (length (bview t)) i cnt t = count_loop at range test reach skip (length (bview t)) (i + 1) cnt t1"
        using True t1(1) False by (subst count_loop.simps) auto
      ultimately show ?thesis using next_one [OF t1(2,3), of 0 cnt] by simp
    next
      case start: True
      obtain t2 where t2: "range t1 i (i + reach) = (fst (indexed_range (bview t) i (i + reach)), t2)" "bok t2" "bview t2 = bview t"
        using range_view [OF t1(2), of i "i + reach"] t1(3) by auto
      have "fst (indexed_range (bview t) i (i + reach)) = take reach (drop i (bview t))"
        using True by (auto simp: indexed_range_def Let_def min_def)
      then have test: "test (fst (indexed_range (bview t) i (i + reach))) = Some (P (drop i (bview t)))" using assms(2) by simp
      have unf: "count_loop at range test reach skip (length (bview t)) i cnt t =
          (if P (drop i (bview t)) then count_loop at range test reach skip (length (bview t)) (i + skip + 1) (cnt + 1) t2
           else count_loop at range test reach skip (length (bview t)) (i + 1) cnt t2)"
        using True t1(1) start t2(1) test by (subst count_loop.simps) simp
      show ?thesis unfolding unf using next_one [OF t2(2,3), of skip "cnt + 1"] next_one [OF t2(2,3), of 0 cnt] True start
        by (auto simp: number_count.simps [of _ _ _ i])
    qed
  qed
qed

end

lemma ssn_at_reach: "ssn_at (take (ssn_width h + 1) buf) h = ssn_at buf h"
proof -
  have "sub_bytes (take (ssn_width h + 1) buf) a b = sub_bytes buf a b" if "b \<le> ssn_width h" for a b
    using that by (simp add: sub_bytes_def drop_take)
  then have "ssn_fields (take (ssn_width h + 1) buf) h = ssn_fields buf h"
    by (cases h) (simp_all add: ssn_fields_def ssn_width_def)
  then show ?thesis unfolding ssn_at_def Let_def by (auto simp: not_less)
qed

definition has_card :: "bytes \<Rightarrow> bool" where
  "has_card s \<longleftrightarrow> card_at s True = Some True"

lemma card_test: "card_at (take CARD_REACH s) True = Some (has_card s)"
  using card_at_reach [of s True] by (auto simp: has_card_def)

definition ssn_total :: "bytes \<Rightarrow> ssn_mode \<Rightarrow> nat" where
  "ssn_total data mode =
     (let n = number_count (\<lambda>s. ssn_at s True) 11 data 0; b = number_count (\<lambda>s. ssn_at s False) 9 data 0
      in case mode of Normal \<Rightarrow> n | Stripped \<Rightarrow> b | Both \<Rightarrow> n + b)"

context byte_index
begin

lemma cards_view:
  assumes "bok t"
  shows "count_credit_cards_in blen at range t = Some (number_count has_card 13 (bview t) 0)"
  using count_loop_view [OF assms, where test = "\<lambda>w. card_at w True" and P = has_card and reach = CARD_REACH, OF card_test, of 13 0 0]
    blen_view [OF assms] by (auto simp: count_credit_cards_in_def)

lemma ssn_fmt_view:
  assumes "bok t"
  shows "\<exists>t'. count_ssn_fmt blen at range h t = Some (number_count (\<lambda>s. ssn_at s h) (ssn_width h) (bview t) 0, t') \<and> bok t' \<and> bview t' = bview t"
  using count_loop_view [OF assms, of "\<lambda>w. Some (ssn_at w h)" "ssn_width h + 1" "\<lambda>s. ssn_at s h" "ssn_width h" 0 0] blen_view [OF assms]
  by (simp add: count_ssn_fmt_def ssn_at_reach [simplified])

lemma ssns_view:
  assumes "bok t"
  shows "count_ssns_in blen at range mode t = Some (ssn_total (bview t) mode)"
proof -
  obtain t1 where t1: "count_ssn_fmt blen at range True t = Some (number_count (\<lambda>s. ssn_at s True) (ssn_width True) (bview t) 0, t1)"
    "bok t1" "bview t1 = bview t" using ssn_fmt_view [OF assms] by blast
  obtain t2 where t2: "count_ssn_fmt blen at range False t = Some (number_count (\<lambda>s. ssn_at s False) (ssn_width False) (bview t) 0, t2)"
    using ssn_fmt_view [OF assms] by blast
  obtain t3 where t3: "count_ssn_fmt blen at range False t1 = Some (number_count (\<lambda>s. ssn_at s False) (ssn_width False) (bview t) 0, t3)"
    using ssn_fmt_view [OF t1(2)] t1(3) by metis
  show ?thesis using t1(1) t2 t3 by (simp add: count_ssns_in_def ssn_total_def ssn_width_def Let_def split: ssn_mode.splits)
qed

end

text \<open>
  C35. The counts never panic and do not depend on how the object is held: read through a stepper over the
  block cache, they are what they are on the bytes in memory, and both are the reference count that
  looks at all that follows each start of a number, so the windows reach far enough.
\<close>

theorem dlp_counts:
  assumes "cache_ok c"
  shows "count_credit_cards_in (\<lambda>t. c_len (st_src t)) (stepper_at cache_window) (stepper_range c_len cache_window) (stepper_new c) =
      count_credit_cards (r_file (c_src c)) \<and>
    count_credit_cards (r_file (c_src c)) = Some (number_count has_card 13 (r_file (c_src c)) 0) \<and>
    count_ssns_in (\<lambda>t. c_len (st_src t)) (stepper_at cache_window) (stepper_range c_len cache_window) mode (stepper_new c) =
      count_ssns (r_file (c_src c)) mode \<and>
    count_ssns (r_file (c_src c)) mode = Some (ssn_total (r_file (c_src c)) mode)"
proof -
  have "stepper_ok (\<lambda>c. r_file (c_src c)) cache_ok (stepper_new c)" by (rule cached.stepper_new_ok [OF assms])
  moreover have "st_src (stepper_new c) = c" by (simp add: stepper_new_def)
  ultimately show ?thesis
    using stepped.cards_view [of "stepper_new c"] stepped.ssns_view [where t = "stepper_new c" and mode = mode]
      indexed.cards_view [of "r_file (c_src c)"] indexed.ssns_view [where t = "r_file (c_src c)" and mode = mode]
    by (simp add: count_credit_cards_def count_ssns_def)
qed

definition card_bytes :: bytes where
  "card_bytes = [0x34, 0x31, 0x31, 0x31, 0x31, 0x31, 0x31, 0x31, 0x31, 0x31, 0x31, 0x31, 0x31, 0x31, 0x31, 0x31]"

definition card_cache :: block_cache where
  "card_cache = (case cache_new 4 8 \<lparr>r_file = card_bytes, claimed = 16, answers = [Interrupted, Short 2]\<rparr> of Inr c \<Rightarrow> c | Inl _ \<Rightarrow> undefined)"

lemma card_cache_ok: "cache_ok card_cache" "r_file (c_src card_cache) = card_bytes"
  by (auto simp: card_cache_def cache_new_def raw_seek_def cache_ok_def block_cache_inv_def benign_def Let_def card_bytes_def)

lemma card_bytes_count: "count_credit_cards card_bytes = Some 1"
  by code_simp

theorem dlp_counts_witness:
  "count_credit_cards_in (\<lambda>t. c_len (st_src t)) (stepper_at cache_window) (stepper_range c_len cache_window) (stepper_new card_cache) = Some 1"
  using dlp_counts [OF card_cache_ok(1), of Normal] card_bytes_count by (simp add: card_cache_ok(2))

section \<open>The checksum\<close>

definition weight :: "bool \<Rightarrow> u8 \<Rightarrow> int" where
  "weight double d =
     (let v = int (unat (d - 0x30)) in if double then (if 2 * v > 9 then 2 * v - 9 else 2 * v) else v)"

fun weights :: "bool \<Rightarrow> bytes \<Rightarrow> int" where
  "weights double [] = 0"
| "weights double (d # ds) = weight double d + weights (\<not> double) ds"

lemma fold_luhn: "fst (fold luhn_step ds (a, double)) = a + weights double ds"
  by (induction ds arbitrary: a double) (auto simp: weight_def Let_def)

lemma luhn_weights: "luhn_valid ds \<longleftrightarrow> weights False (rev ds) mod 10 = 0"
  by (simp add: luhn_valid_def fold_luhn)

lemma digit_value: "is_ascii_digit d \<Longrightarrow> unat (d - 0x30) = unat d - 0x30 \<and> 0x30 \<le> unat d \<and> unat d \<le> 0x39"
  by (auto simp: is_ascii_digit_def word_le_nat_alt unat_sub)

lemma digit_cases:
  assumes "is_ascii_digit d"
  obtains n where "n \<le> 9" "unat d = 0x30 + n" "unat (d - 0x30) = n"
  using digit_value [OF assms] that [of "unat d - 0x30"] by simp

lemma weight_digit: "unat (d - 0x30) = n \<Longrightarrow> weight b d = (if b then if 9 < 2 * n then 2 * int n - 9 else 2 * int n else int n)"
  by (auto simp: weight_def Let_def)

lemma weight_range: "is_ascii_digit d \<Longrightarrow> 0 \<le> weight b d \<and> weight b d \<le> 9"
  by (erule digit_cases) (simp add: weight_digit)

lemma weight_inj:
  assumes "is_ascii_digit d" "is_ascii_digit e" "weight b d = weight b e"
  shows "d = e"
proof -
  obtain n m where n: "n \<le> 9" "unat d = 0x30 + n" "unat (d - 0x30) = n" and m: "m \<le> 9" "unat e = 0x30 + m" "unat (e - 0x30) = m"
    using digit_cases [OF assms(1)] digit_cases [OF assms(2)] by metis
  have "n = m" using assms(3) n(1) m(1) unfolding weight_digit [OF n(3)] weight_digit [OF m(3)] by (auto split: if_splits) presburger+
  then show ?thesis using n(2) m(2) by (simp add: word_unat_eq_iff)
qed

lemma weights_update:
  "i < length ds \<Longrightarrow> weights b (ds[i := d]) = weights b ds - weight (b \<noteq> odd i) (ds ! i) + weight (b \<noteq> odd i) d"
proof (induction ds arbitrary: i b)
  case (Cons x ds)
  show ?case
  proof (cases i)
    case (Suc k)
    have "((\<not> b) \<noteq> odd k) = (b \<noteq> odd i)" using Suc by auto
    then show ?thesis using Cons.IH [of k "\<not> b"] Cons.prems Suc by (simp del: not_not)
  qed simp
qed simp

text \<open>
  The checksum catches every single-digit error: changing one digit of a number that passes makes one
  that fails.
\<close>

theorem luhn_detects:
  assumes "luhn_valid ds" "list_all is_ascii_digit ds" "i < length ds" "is_ascii_digit d" "d \<noteq> ds ! i"
  shows "\<not> luhn_valid (ds[i := d])"
proof
  define j where "j = length ds - i - 1"
  have j: "j < length (rev ds)" "rev ds ! j = ds ! i" using assms(3) by (auto simp: j_def rev_nth)
  assume "luhn_valid (ds[i := d])"
  then have "weights False ((rev ds)[j := d]) mod 10 = 0" unfolding luhn_weights using assms(3) by (simp add: rev_update j_def)
  then have "(weight (odd j) d - weight (odd j) (ds ! i)) mod 10 = 0"
    using weights_update [OF j(1), of False d] assms(1) j(2) unfolding luhn_weights by (simp add: mod_eq_0_iff_dvd) presburger
  moreover have di: "is_ascii_digit (ds ! i)" using assms(2,3) by (auto simp: list_all_length)
  ultimately have "weight (odd j) d = weight (odd j) (ds ! i)"
    using weight_range [OF assms(4), of "odd j"] weight_range [OF di, of "odd j"] by (simp add: mod_eq_0_iff_dvd) presburger
  then show False using weight_inj [OF assms(4) di] assms(5) by blast
qed

theorem luhn_detects_witness: "\<not> luhn_valid (card_bytes[3 := 0x37])"
proof -
  have "luhn_valid card_bytes" by code_simp
  moreover have "list_all is_ascii_digit card_bytes" "3 < length card_bytes" "(0x37 :: u8) \<noteq> card_bytes ! 3"
    by (simp_all add: card_bytes_def is_ascii_digit_def)
  ultimately show ?thesis by (intro luhn_detects) (simp_all add: is_ascii_digit_def)
qed

section \<open>Social security numbers\<close>

text \<open>A number printed in exactly \<open>k\<close> digits, and the two textual formats.\<close>

fun fixed :: "nat \<Rightarrow> nat \<Rightarrow> bytes" where
  "fixed 0 v = []"
| "fixed (Suc k) v = fixed k (v div 10) @ [of_nat (0x30 + v mod 10)]"

definition ssn_text :: "bool \<Rightarrow> nat \<Rightarrow> nat \<Rightarrow> nat \<Rightarrow> bytes" where
  "ssn_text h a g s = fixed 3 a @ (if h then [0x2D] else []) @ fixed 2 g @ (if h then [0x2D] else []) @ fixed 4 s"

lemma length_fixed [simp]: "length (fixed k v) = k"
  by (induction k v rule: fixed.induct) auto

lemma field_from_append: "field_from v (xs @ ys) = (case field_from v xs of None \<Rightarrow> None | Some w \<Rightarrow> field_from w ys)"
  by (induction v xs rule: field_from.induct) auto

lemma unat_digit: "v < 10 \<Longrightarrow> unat (of_nat (0x30 + v) :: u8) = 0x30 + v"
  by (intro unat_of_nat_lt) simp

lemma digit_of: "v < 10 \<Longrightarrow> is_ascii_digit (of_nat (0x30 + v)) \<and> unat (of_nat (0x30 + v) - 0x30 :: u8) = v"
  using unat_digit [of v] digit_value [of "of_nat (0x30 + v)"] unfolding is_ascii_digit_def word_le_nat_alt by simp

lemma field_fixed: "v < 10 ^ k \<Longrightarrow> field (fixed k v) = Some (int v)"
proof (induction k arbitrary: v)
  case (Suc k)
  have "v div 10 < 10 ^ k" using Suc.prems by (simp add: less_mult_imp_div_less mult.commute)
  then have "field_from 0 (fixed k (v div 10)) = Some (int (v div 10))" using Suc.IH by (simp add: field_def)
  moreover have "int (v div 10) * 10 + int (v mod 10) = int v" by (simp add: zdiv_int zmod_int)
  ultimately show ?case using digit_of [of "v mod 10"] by (simp add: field_def field_from_append del: of_nat_add)
qed (simp add: field_def)

lemma fixed_field:
  "field bs = Some v \<Longrightarrow> 0 \<le> v \<and> v < 10 ^ length bs \<and> bs = fixed (length bs) (nat v)"
proof (induction bs arbitrary: v rule: rev_induct)
  case (snoc c bs)
  obtain w where w: "field bs = Some w" "is_ascii_digit c" "v = w * 10 + int (unat (c - 0x30))"
    using snoc.prems by (auto simp: field_def field_from_append split: option.splits if_splits)
  note ih = snoc.IH [OF w(1)] and dv = digit_value [OF w(2)]
  have d: "unat (c - 0x30) < 10" using dv by linarith
  have n: "nat v = nat w * 10 + unat (c - 0x30)" using w(3) ih by (simp add: nat_add_distrib nat_mult_distrib)
  then have "nat v div 10 = nat w" "nat v mod 10 = unat (c - 0x30)" using d by simp_all
  moreover have "of_nat (0x30 + unat (c - 0x30)) = c" using dv unat_digit [OF d] by (simp add: word_unat_eq_iff)
  ultimately have "bs @ [c] = fixed (length (bs @ [c])) (nat v)" using ih by (simp del: of_nat_add)
  moreover have "v < 10 ^ length (bs @ [c])"
  proof -
    have "w + 1 \<le> 10 ^ length bs" using ih by linarith
    moreover have "int (unat (c - 0x30)) < 10" using d by linarith
    moreover have "(10 :: int) ^ length (bs @ [c]) = 10 * 10 ^ length bs" by simp
    ultimately show ?thesis using w(3) by linarith
  qed
  ultimately show ?case using ih w(3) by simp
qed (simp add: field_def)

lemma take_pieces:
  assumes "a \<le> b" "b \<le> length xs"
  shows "take b xs = take a xs @ sub_bytes xs a b"
proof -
  have "take b xs = take a (take b xs) @ drop a (take b xs)" by (rule append_take_drop_id [symmetric])
  then show ?thesis using assms by (simp add: sub_bytes_def drop_take min_absorb1)
qed

lemma sub_bytes_one: "a < length xs \<Longrightarrow> sub_bytes xs a (Suc a) = [xs ! a]"
  by (simp add: sub_bytes_def take_Suc_conv_app_nth)

lemma length_sub_bytes: "b \<le> length xs \<Longrightarrow> length (sub_bytes xs a b) = b - a"
  by (simp add: sub_bytes_def)

lemma field_at:
  assumes "field (sub_bytes xs a b) = Some v" "b \<le> length xs"
  shows "0 \<le> v \<and> v < 10 ^ (b - a) \<and> sub_bytes xs a b = fixed (b - a) (nat v)"
  using fixed_field [OF assms(1)] by (simp add: length_sub_bytes [OF assms(2)])

lemma ssn_fields_text:
  assumes "ssn_fields buf h = Some (a, g, s)" "ssn_width h \<le> length buf"
  shows "0 \<le> a \<and> 0 \<le> g \<and> 0 \<le> s \<and> take (ssn_width h) buf = ssn_text h (nat a) (nat g) (nat s)"
proof (cases h)
  case True
  then have l: "11 \<le> length buf" using assms(2) by (simp add: ssn_width_def)
  have f: "buf ! 3 = 0x2D" "buf ! 6 = 0x2D" "field (sub_bytes buf 0 3) = Some a" "field (sub_bytes buf 4 6) = Some g"
    "field (sub_bytes buf 7 11) = Some s"
    using assms(1) True by (auto simp: ssn_fields_def split: if_splits option.splits)
  note p = field_at [OF f(3)] field_at [OF f(4)] field_at [OF f(5)]
  have "take 11 buf = sub_bytes buf 0 3 @ sub_bytes buf 3 4 @ sub_bytes buf 4 6 @ sub_bytes buf 6 7 @ sub_bytes buf 7 11"
    using take_pieces [of 0 3 buf] take_pieces [of 3 4 buf] take_pieces [of 4 6 buf] take_pieces [of 6 7 buf] take_pieces [of 7 11 buf] l by simp
  also have "\<dots> = fixed 3 (nat a) @ [0x2D] @ fixed 2 (nat g) @ [0x2D] @ fixed 4 (nat s)"
    using p l sub_bytes_one [of 3 buf] sub_bytes_one [of 6 buf] f(1,2) by (simp add: numeral_eq_Suc del: fixed.simps)
  finally show ?thesis using True p l by (simp add: ssn_text_def ssn_width_def del: fixed.simps)
next
  case False
  then have l: "9 \<le> length buf" using assms(2) by (simp add: ssn_width_def)
  have f: "field (sub_bytes buf 0 3) = Some a" "field (sub_bytes buf 3 5) = Some g" "field (sub_bytes buf 5 9) = Some s"
    using assms(1) False by (auto simp: ssn_fields_def split: if_splits option.splits)
  note p = field_at [OF f(1)] field_at [OF f(2)] field_at [OF f(3)]
  have "take 9 buf = sub_bytes buf 0 3 @ sub_bytes buf 3 5 @ sub_bytes buf 5 9"
    using take_pieces [of 0 3 buf] take_pieces [of 3 5 buf] take_pieces [of 5 9 buf] l by simp
  then show ?thesis using False p l by (simp add: ssn_text_def ssn_width_def del: fixed.simps)
qed

lemma length_ssn_text [simp]: "length (ssn_text h a g s) = ssn_width h"
  by (simp add: ssn_text_def ssn_width_def)

lemma ssn_text_fields:
  assumes "a < 1000" "g < 100" "s < 10000"
  shows "ssn_fields (ssn_text h a g s @ rest) h = Some (int a, int g, int s)"
proof -
  have f: "field (fixed 3 a) = Some (int a)" "field (fixed 2 g) = Some (int g)" "field (fixed 4 s) = Some (int s)"
    using field_fixed [of a 3] field_fixed [of g 2] field_fixed [of s 4] assms by simp_all
  show ?thesis
  proof (cases h)
    case True
    then have "(ssn_text h a g s @ rest) ! 3 = 0x2D" "(ssn_text h a g s @ rest) ! 6 = 0x2D"
      "sub_bytes (ssn_text h a g s @ rest) 0 3 = fixed 3 a" "sub_bytes (ssn_text h a g s @ rest) 4 6 = fixed 2 g"
      "sub_bytes (ssn_text h a g s @ rest) 7 11 = fixed 4 s"
      by (simp_all add: ssn_text_def sub_bytes_def nth_append)
    then show ?thesis using f True by (simp add: ssn_fields_def)
  next
    case False
    then have "sub_bytes (ssn_text h a g s @ rest) 0 3 = fixed 3 a" "sub_bytes (ssn_text h a g s @ rest) 3 5 = fixed 2 g"
      "sub_bytes (ssn_text h a g s @ rest) 5 9 = fixed 4 s"
      by (simp_all add: ssn_text_def sub_bytes_def)
    then show ?thesis using f False by (simp add: ssn_fields_def)
  qed
qed

text \<open>
  A social security number is recognized exactly when it is printed there: the three fields at their
  widths, with hyphens or without, an area of 1 to 899 other than 666, a group of 1 to 99, a serial of
  1 to 9999, and no further digit after it.
\<close>

theorem ssn_at_iff:
  "ssn_at buf h \<longleftrightarrow>
     (\<exists>a g s rest. buf = ssn_text h a g s @ rest \<and> 1 \<le> a \<and> a \<le> 899 \<and> a \<noteq> 666 \<and> 1 \<le> g \<and> g \<le> 99 \<and> 1 \<le> s \<and> s \<le> 9999 \<and>
        (rest = [] \<or> \<not> is_ascii_digit (hd rest)))" (is "_ \<longleftrightarrow> ?printed")
proof
  assume at: "ssn_at buf h"
  then have w: "ssn_width h \<le> length buf" "\<not> (ssn_width h < length buf \<and> is_ascii_digit (buf ! ssn_width h))"
    by (auto simp: ssn_at_def Let_def split: if_splits)
  obtain a g s where f: "ssn_fields buf h = Some (a, g, s)" and r: "1 \<le> a" "a \<le> 899" "a \<noteq> 666" "1 \<le> g" "g \<le> 99" "1 \<le> s" "s \<le> 9999"
    using at by (auto simp: ssn_at_def Let_def split: if_splits option.splits)
  have "buf = ssn_text h (nat a) (nat g) (nat s) @ drop (ssn_width h) buf"
    using ssn_fields_text [OF f w(1)] by (metis append_take_drop_id)
  moreover have "drop (ssn_width h) buf = [] \<or> \<not> is_ascii_digit (hd (drop (ssn_width h) buf))"
    using w(2) by (auto simp: hd_drop_conv_nth not_less)
  moreover have "1 \<le> nat a" "nat a \<le> 899" "nat a \<noteq> 666" "1 \<le> nat g" "nat g \<le> 99" "1 \<le> nat s" "nat s \<le> 9999" using r by linarith+
  ultimately show ?printed by metis
next
  assume ?printed
  then obtain a g s rest where t: "buf = ssn_text h a g s @ rest" and r: "1 \<le> a" "a \<le> 899" "a \<noteq> 666" "1 \<le> g" "g \<le> 99" "1 \<le> s" "s \<le> 9999"
    and e: "rest = [] \<or> \<not> is_ascii_digit (hd rest)" by blast
  have "\<not> (ssn_width h < length buf \<and> is_ascii_digit (buf ! ssn_width h))" using e by (auto simp: t nth_append hd_conv_nth)
  moreover have "ssn_fields buf h = Some (int a, int g, int s)" using ssn_text_fields [of a g s h rest] r by (simp add: t)
  ultimately show "ssn_at buf h" using r by (simp add: ssn_at_def Let_def t)
qed

theorem ssn_at_iff_witness: "ssn_at (ssn_text True 123 45 6789 @ [0x20]) True"
proof -
  have "(1 :: nat) \<le> 123 \<and> (123 :: nat) \<le> 899 \<and> (123 :: nat) \<noteq> 666" "(1 :: nat) \<le> 45 \<and> (45 :: nat) \<le> 99" "(1 :: nat) \<le> 6789 \<and> (6789 :: nat) \<le> 9999"
    "\<not> is_ascii_digit (hd [0x20])" by (simp_all add: is_ascii_digit_def)
  then show ?thesis unfolding ssn_at_iff by blast
qed

end
