(* ===== verification/Exav_Text.thy ===== *)
theory Exav_Text
  imports Exav_Prelude "HOL-Library.Monad_Syntax"
begin

text \<open>
  The operations of Rust's \<^verbatim>\<open>str\<close> that the naming and policy code uses. A \<^verbatim>\<open>str\<close> is the list of
  its UTF-8 bytes, one \<open>char\<close> each, so lengths and offsets are byte lengths and offsets; every
  pattern that is searched for is ASCII, hence no offset falls inside a code point.
\<close>

section \<open>ASCII classes and case\<close>

definition char_lower :: "char \<Rightarrow> char" where
  "char_lower c = (let n = of_char c :: nat in if 65 \<le> n \<and> n \<le> 90 then char_of (n + 32) else c)"

definition char_upper :: "char \<Rightarrow> char" where
  "char_upper c = (let n = of_char c :: nat in if 97 \<le> n \<and> n \<le> 122 then char_of (n - 32) else c)"

definition to_ascii_lowercase :: "string \<Rightarrow> string" where
  "to_ascii_lowercase s = map char_lower s"

definition eq_ignore_ascii_case :: "string \<Rightarrow> string \<Rightarrow> bool" where
  "eq_ignore_ascii_case a b = (to_ascii_lowercase a = to_ascii_lowercase b)"

definition digit_char :: "char \<Rightarrow> bool" where
  "digit_char c = (let n = of_char c :: nat in 48 \<le> n \<and> n \<le> 57)"

definition alnum_char :: "char \<Rightarrow> bool" where
  "alnum_char c =
     (let n = of_char c :: nat in digit_char c \<or> (65 \<le> n \<and> n \<le> 90) \<or> (97 \<le> n \<and> n \<le> 122))"

section \<open>Searching and splitting\<close>

definition strip_suffix :: "'a list \<Rightarrow> 'a list \<Rightarrow> 'a list option" where
  "strip_suffix suf s =
     (if length suf \<le> length s \<and> drop (length s - length suf) s = suf
      then Some (take (length s - length suf) s) else None)"

definition strip_prefix :: "'a list \<Rightarrow> 'a list \<Rightarrow> 'a list option" where
  "strip_prefix pre s = (if take (length pre) s = pre then Some (drop (length pre) s) else None)"

text \<open>The last occurrence of a pattern.\<close>

definition rfind :: "'a list \<Rightarrow> 'a list \<Rightarrow> nat option" where
  "rfind p s = find (\<lambda>i. take (length p) (drop i s) = p) (rev [0..<Suc (length s)])"

definition split_once :: "'a \<Rightarrow> 'a list \<Rightarrow> ('a list \<times> 'a list) option" where
  "split_once c s =
     (if c \<in> set s then Some (takeWhile (\<lambda>x. x \<noteq> c) s, tl (dropWhile (\<lambda>x. x \<noteq> c) s)) else None)"

definition rsplit_once :: "'a \<Rightarrow> 'a list \<Rightarrow> ('a list \<times> 'a list) option" where
  "rsplit_once c s = map_option (\<lambda>(a, b). (rev b, rev a)) (split_once c (rev s))"

fun split_char :: "'a \<Rightarrow> 'a list \<Rightarrow> 'a list list" where
  "split_char c [] = [[]]"
| "split_char c (x # xs) =
     (if x = c then [] # split_char c xs
      else case split_char c xs of [] \<Rightarrow> [[x]] | w # ws \<Rightarrow> (x # w) # ws)"

fun join_with :: "'a list \<Rightarrow> 'a list list \<Rightarrow> 'a list" where
  "join_with sep [] = []"
| "join_with sep [w] = w"
| "join_with sep (w # ws) = w @ sep @ join_with sep ws"

section \<open>Numbers\<close>

text \<open>\<^verbatim>\<open>str::parse::<usize>\<close> of a text of one or more decimal digits: an error past 64 bits.\<close>

definition decimal_val :: "string \<Rightarrow> nat" where
  "decimal_val ds = foldl (\<lambda>n c. 10 * n + (of_char c - 48)) 0 ds"

definition parse_usize :: "string \<Rightarrow> nat option" where
  "parse_usize ds = (let n = decimal_val ds in if n < 2 ^ 64 then Some n else None)"

definition checked_sub :: "nat \<Rightarrow> nat \<Rightarrow> nat option" where
  "checked_sub a b = (if b \<le> a then Some (a - b) else None)"

text \<open>\<^verbatim>\<open>{:0width$}\<close>.\<close>

definition pad_dec :: "nat \<Rightarrow> nat \<Rightarrow> string" where
  "pad_dec width n = (let d = dec_string n in replicate (width - length d) CHR ''0'' @ d)"

section \<open>Lemmas\<close>

lemma char_lower_idem [simp]: "char_lower (char_lower c) = char_lower c"
  by (simp add: char_lower_def Let_def)

lemma char_lower_digit [simp]: "digit_char c \<Longrightarrow> char_lower c = c"
  by (simp add: char_lower_def digit_char_def Let_def)

lemma digit_char_lower [simp]: "digit_char (char_lower c) = digit_char c"
  by (simp add: char_lower_def digit_char_def Let_def)

lemma char_lower_dot [simp]: "char_lower c = CHR ''.'' \<longleftrightarrow> c = CHR ''.''"
proof -
  have "of_char c + 32 \<noteq> (46::nat)" if "65 \<le> (of_char c :: nat)" using that by simp
  moreover have "c = CHR ''.''" if "char_of (of_char c + 32 :: nat) = CHR ''.''" "65 \<le> (of_char c :: nat)" "(of_char c :: nat) \<le> 90"
  proof -
    from that(1) have "(of_char (char_of (of_char c + 32 :: nat)) :: nat) = of_char CHR ''.''" by simp
    then have "(of_char c + 32) mod 256 = (46::nat)" by simp
    with that(2,3) show ?thesis by simp
  qed
  ultimately show ?thesis by (auto simp: char_lower_def Let_def)
qed

lemma to_ascii_lowercase_simps [simp]:
  "to_ascii_lowercase [] = []"
  "to_ascii_lowercase (c # s) = char_lower c # to_ascii_lowercase s"
  "to_ascii_lowercase (s @ t) = to_ascii_lowercase s @ to_ascii_lowercase t"
  "length (to_ascii_lowercase s) = length s"
  "to_ascii_lowercase (to_ascii_lowercase s) = to_ascii_lowercase s"
  by (simp_all add: to_ascii_lowercase_def)

lemma take_to_ascii_lowercase: "take n (to_ascii_lowercase s) = to_ascii_lowercase (take n s)"
  by (simp add: to_ascii_lowercase_def take_map)

lemma to_ascii_lowercase_digits [simp]:
  "list_all digit_char ds \<Longrightarrow> to_ascii_lowercase ds = ds"
  by (induction ds) auto

lemma eq_ignore_ascii_case_equiv:
  "eq_ignore_ascii_case a a"
  "eq_ignore_ascii_case a b = eq_ignore_ascii_case b a"
  "eq_ignore_ascii_case a b \<Longrightarrow> eq_ignore_ascii_case b c \<Longrightarrow> eq_ignore_ascii_case a c"
  by (auto simp: eq_ignore_ascii_case_def)

lemma eq_ignore_ascii_case_lower [simp]: "eq_ignore_ascii_case (to_ascii_lowercase a) a"
  by (simp add: eq_ignore_ascii_case_def)

lemma strip_suffix_append [simp]: "strip_suffix suf (s @ suf) = Some s"
  by (simp add: strip_suffix_def)

lemma strip_suffix_SomeD: "strip_suffix suf s = Some r \<Longrightarrow> s = r @ suf"
  by (auto simp: strip_suffix_def split: if_splits) (metis append_take_drop_id)

lemma strip_suffix_last:
  "suf \<noteq> [] \<Longrightarrow> s \<noteq> [] \<Longrightarrow> last s \<noteq> last suf \<Longrightarrow> strip_suffix suf s = None"
  by (auto simp: strip_suffix_def dest: arg_cong [where f = last])

lemma split_once_append [simp]:
  "c \<notin> set a \<Longrightarrow> split_once c (a @ c # b) = Some (a, b)"
  by (induction a) (auto simp: split_once_def)

lemma rsplit_once_append [simp]:
  "c \<notin> set b \<Longrightarrow> rsplit_once c (a @ c # b) = Some (a, b)"
  using split_once_append [of c "rev b" "rev a"] by (simp add: rsplit_once_def)

lemma split_once_SomeD: "split_once c s = Some (a, b) \<Longrightarrow> s = a @ c # b \<and> c \<notin> set a"
proof -
  assume h: "split_once c s = Some (a, b)"
  then have c: "c \<in> set s" by (auto simp: split_once_def split: if_splits)
  then obtain u v where "s = u @ c # v" "c \<notin> set u" using split_list_first by metis
  with h show ?thesis by simp
qed

lemma rsplit_once_SomeD: "rsplit_once c s = Some (a, b) \<Longrightarrow> s = a @ c # b \<and> c \<notin> set b"
proof -
  assume "rsplit_once c s = Some (a, b)"
  then have "split_once c (rev s) = Some (rev b, rev a)"
    by (auto simp: rsplit_once_def)
  then have "rev s = rev b @ c # rev a" "c \<notin> set (rev b)" by (auto dest: split_once_SomeD)
  then show ?thesis by (metis append.assoc append_Cons append_Nil rev.simps(2) rev_append rev_rev_ident set_rev)
qed

lemma find_map_SomeD: "find P xs = Some x \<Longrightarrow> P x \<and> x \<in> set xs"
  by (auto simp: find_Some_iff)

lemma rfind_SomeD: "rfind p s = Some i \<Longrightarrow> take (length p) (drop i s) = p"
  unfolding rfind_def by (drule find_map_SomeD) simp

text \<open>Behind the last occurrence there is no other one.\<close>

lemma rfind_append:
  assumes "\<And>i. length a < i \<Longrightarrow> i \<le> length (a @ p @ b) \<Longrightarrow> take (length p) (drop i (a @ p @ b)) \<noteq> p"
  shows "rfind p (a @ p @ b) = Some (length a)"
proof -
  let ?s = "a @ p @ b"
  let ?P = "\<lambda>i. take (length p) (drop i ?s) = p"
  have u: "[0..<Suc (length ?s)] = [0..<length a] @ length a # [Suc (length a)..<Suc (length ?s)]"
    using upt_add_eq_append [of 0 "length a" "Suc (length p + length b)"] upt_conv_Cons [of "length a" "Suc (length ?s)"]
    by (simp add: add.assoc)
  have none: "find ?P (rev [Suc (length a)..<Suc (length ?s)]) = None"
  proof -
    have "\<not> ?P i" if "i \<in> set (rev [Suc (length a)..<Suc (length ?s)])" for i
      using that assms [of i] by (simp del: upt_Suc)
    then show ?thesis unfolding find_None_iff by blast
  qed
  have app: "find P (xs @ ys) = (case find P xs of None \<Rightarrow> find P ys | Some x \<Rightarrow> Some x)" for P xs and ys :: "nat list"
    by (induction xs) auto
  show ?thesis
    unfolding rfind_def u using none by (simp add: app del: upt_Suc)
qed

lemma rfind_first:
  assumes "c \<notin> set q" "c \<notin> set b"
  shows "rfind (c # q) (a @ (c # q) @ b) = Some (length a)"
proof (rule rfind_append)
  fix i assume i: "length a < i"
  have "drop i (a @ (c # q) @ b) = drop (i - length a) ((c # q) @ b)" using i by simp
  also have "\<dots> = drop (i - Suc (length a)) (q @ b)" using i by (simp add: drop_Cons')
  finally have "set (drop i (a @ (c # q) @ b)) \<subseteq> set (q @ b)" by (metis set_drop_subset)
  then have "c \<notin> set (drop i (a @ (c # q) @ b))" using assms by auto
  then show "take (length (c # q)) (drop i (a @ (c # q) @ b)) \<noteq> c # q"
    by (metis in_set_takeD list.set_intros(1))
qed

lemma length_split_char_pos: "split_char c s \<noteq> []"
  by (induction s) (auto split: list.splits)

lemma split_char_notin [simp]: "c \<notin> set w \<Longrightarrow> split_char c w = [w]"
  by (induction w) auto

lemma split_char_append [simp]:
  "c \<notin> set w \<Longrightarrow> split_char c (w @ c # s) = w # split_char c s"
  by (induction w) auto

lemma split_join:
  "ws \<noteq> [] \<Longrightarrow> (\<And>w. w \<in> set ws \<Longrightarrow> c \<notin> set w) \<Longrightarrow> split_char c (join_with [c] ws) = ws"
proof (induction "[c]" ws rule: join_with.induct)
  case (3 w v vs)
  then show ?case by simp
qed auto

lemma digit_char_of: "n < 10 \<Longrightarrow> digit_char (char_of (48 + n :: nat))"
  by (simp add: digit_char_def)

lemma dec_string_digits [simp]: "list_all digit_char (dec_string n)"
proof (induction n rule: dec_string.induct)
  case (1 n)
  then show ?case
    by (subst dec_string.simps) (cases "n < 10", auto simp: digit_char_of)
qed

lemma dec_string_nonempty [simp]: "dec_string n \<noteq> []"
  by (subst dec_string.simps) simp

lemma decimal_val_append: "decimal_val (a @ [c]) = 10 * decimal_val a + (of_char c - 48)"
  by (simp add: decimal_val_def)

lemma decimal_val_dec [simp]: "decimal_val (dec_string n) = n"
proof (induction n rule: dec_string.induct)
  case (1 n)
  show ?case
  proof (cases "n < 10")
    case True
    then show ?thesis by (subst dec_string.simps) (simp add: decimal_val_def)
  next
    case False
    then have "decimal_val (dec_string (n div 10)) = n div 10" by (rule 1)
    with False show ?thesis by (subst dec_string.simps) (simp add: decimal_val_append)
  qed
qed

lemma decimal_val_pad [simp]: "decimal_val (replicate k CHR ''0'' @ ds) = decimal_val ds"
proof -
  have "foldl (\<lambda>n c. 10 * n + (of_char c - 48)) 0 (replicate k CHR ''0'') = (0::nat)"
    by (induction k) auto
  then show ?thesis by (simp add: decimal_val_def)
qed

lemma pad_dec_facts [simp]:
  "list_all digit_char (pad_dec w n)" "decimal_val (pad_dec w n) = n"
  "pad_dec w n \<noteq> []" "w \<le> length (pad_dec w n)"
proof -
  have "list_all digit_char (replicate k CHR ''0'')" for k
    by (induction k) (auto simp: digit_char_def)
  then show "list_all digit_char (pad_dec w n)" by (simp add: pad_dec_def Let_def)
qed (simp_all add: pad_dec_def Let_def)

lemma parse_usize_pad [simp]: "parse_usize (pad_dec w n) = (if n < 2 ^ 64 then Some n else None)"
  by (simp add: parse_usize_def Let_def)

lemma length_dec_string: "n < 10 ^ Suc k \<Longrightarrow> length (dec_string n) \<le> Suc k"
proof (induction k arbitrary: n)
  case 0
  then show ?case by (subst dec_string.simps) simp
next
  case (Suc k)
  have "n div 10 < 10 ^ Suc k" using Suc.prems by (simp add: div_less_iff_less_mult ac_simps)
  from Suc.IH [OF this] show ?case by (subst dec_string.simps) simp
qed

lemma length_pad_dec: "n < 10 ^ w \<Longrightarrow> 0 < w \<Longrightarrow> length (pad_dec w n) = w"
  using length_dec_string [of n "w - 1"] by (simp add: pad_dec_def Let_def)

end
