(* ===== verification/Volume.thy ===== *)
theory Volume
  imports Exav_Text "HOL-Library.Multiset"
begin

text \<open>
  Multi-volume archives by name (\<^verbatim>\<open>exav-unpack/src/volume.rs\<close>): recognising a volume name,
  naming the other volumes of its set, grouping a listing into sets, and the collector that
  holds the parts of byte-split sets while a container is walked and rejoins them at its end.

  \<^verbatim>\<open>usize\<close> is taken as 64 bits wide. Byte counts are naturals; the one addition that saturates
  is written with its bound.
\<close>

section \<open>Names\<close>

datatype scheme = RarPart nat | RarOld | NumberedSuffix string nat | ZipSplit

record volume_name =
  stem :: string
  index :: nat
  scheme :: scheme

text \<open>The two digits behind a one-letter prefix, as in \<^verbatim>\<open>.r00\<close> and \<^verbatim>\<open>.z01\<close>.\<close>

definition two_digits :: "char \<Rightarrow> string \<Rightarrow> string option" where
  "two_digits p ext =
     (case strip_prefix [p] ext of
        Some digits \<Rightarrow> if length digits = 2 \<and> list_all digit_char digits then Some digits else None
      | None \<Rightarrow> None)"

definition parse_rar :: "string \<Rightarrow> string \<Rightarrow> volume_name option" where
  "parse_rar name rest =
     (let old = Some \<lparr>stem = take (length rest) name, index = 0, scheme = RarOld\<rparr> in
      case rfind ''.part'' rest of
        Some dot \<Rightarrow>
          (let digits = drop (dot + length ''.part'') rest in
           if digits \<noteq> [] \<and> list_all digit_char digits then
             do { n \<leftarrow> parse_usize digits;
                  i \<leftarrow> checked_sub n 1;
                  Some \<lparr>stem = take dot name, index = i, scheme = RarPart (length digits)\<rparr> }
           else old)
      | None \<Rightarrow> old)"

definition parse_numbered :: "string \<Rightarrow> string \<Rightarrow> string \<Rightarrow> volume_name option" where
  "parse_numbered name stem_l ext =
     do { n \<leftarrow> parse_usize ext;
          (base_l, base_ext) \<leftarrow> rsplit_once CHR ''.'' stem_l;
          if base_ext = [] \<or> \<not> list_all alnum_char base_ext then None
          else do { i \<leftarrow> checked_sub n 1;
                    Some \<lparr>stem = take (length base_l) name, index = i,
                          scheme = NumberedSuffix base_ext (length ext)\<rparr> } }"

definition volume_parse :: "string \<Rightarrow> volume_name option" where
  "volume_parse name =
     (let lower = to_ascii_lowercase name in
      case strip_suffix ''.rar'' lower of
        Some rest \<Rightarrow> parse_rar name rest
      | None \<Rightarrow>
          do { (stem_l, ext) \<leftarrow> rsplit_once CHR ''.'' lower;
               let st = take (length stem_l) name;
               case two_digits CHR ''r'' ext of
                 Some digits \<Rightarrow>
                   do { n \<leftarrow> parse_usize digits;
                        Some \<lparr>stem = st, index = n + 1, scheme = RarOld\<rparr> }
               | None \<Rightarrow>
                   (case two_digits CHR ''z'' ext of
                      Some digits \<Rightarrow>
                        do { n \<leftarrow> parse_usize digits;
                             i \<leftarrow> checked_sub n 1;
                             Some \<lparr>stem = st, index = i, scheme = ZipSplit\<rparr> }
                    | None \<Rightarrow>
                        if 2 \<le> length ext \<and> list_all digit_char ext
                        then parse_numbered name stem_l ext
                        else None) })"

text \<open>The outer \<open>None\<close> is the overflow panic of \<open>index + 1\<close>.\<close>

definition name_at :: "volume_name \<Rightarrow> nat \<Rightarrow> string option option" where
  "name_at v i =
     (case scheme v of
        RarPart width \<Rightarrow>
          if i + 1 < 2 ^ 64 then Some (Some (stem v @ ''.part'' @ pad_dec width (i + 1) @ ''.rar''))
          else None
      | RarOld \<Rightarrow>
          Some (if i = 0 then Some (stem v @ ''.rar'')
                else if i \<le> 100 then Some (stem v @ ''.r'' @ pad_dec 2 (i - 1))
                else None)
      | NumberedSuffix base_ext width \<Rightarrow>
          if i + 1 < 2 ^ 64 then Some (Some (stem v @ ''.'' @ base_ext @ ''.'' @ pad_dec width (i + 1)))
          else None
      | ZipSplit \<Rightarrow>
          if i + 1 < 2 ^ 64 then Some (Some (stem v @ ''.z'' @ pad_dec 2 (i + 1))) else None)"

fun same_scheme :: "scheme \<Rightarrow> scheme \<Rightarrow> bool" where
  "same_scheme (NumberedSuffix a _) (NumberedSuffix b _) = eq_ignore_ascii_case a b"
| "same_scheme (RarPart _) (RarPart _) = True"
| "same_scheme RarOld RarOld = True"
| "same_scheme ZipSplit ZipSplit = True"
| "same_scheme _ _ = False"

definition same_set_as :: "volume_name \<Rightarrow> volume_name \<Rightarrow> bool" where
  "same_set_as v w \<longleftrightarrow> eq_ignore_ascii_case (stem v) (stem w) \<and> same_scheme (scheme v) (scheme w)"

fun is_byte_split :: "scheme \<Rightarrow> bool" where
  "is_byte_split (NumberedSuffix _ _) = True"
| "is_byte_split _ = False"

section \<open>Grouping a listing\<close>

text \<open>The inner loop: the later, unclaimed names of the set of \<open>vi\<close>, with what is claimed then.\<close>

fun claim_members ::
  "volume_name \<Rightarrow> (nat \<times> volume_name option) list \<Rightarrow> bool list \<Rightarrow> (nat \<times> nat) list \<times> bool list" where
  "claim_members vi [] claimed = ([], claimed)"
| "claim_members vi ((j, item) # rest) claimed =
     (if claimed ! j then claim_members vi rest claimed
      else case item of
        Some vj \<Rightarrow>
          if same_set_as vi vj then
            let (ms, claimed') = claim_members vi rest (claimed[j := True])
            in ((index vj, j) # ms, claimed')
          else claim_members vi rest claimed
      | None \<Rightarrow> claim_members vi rest claimed)"

fun adjacent_equal :: "nat list \<Rightarrow> bool" where
  "adjacent_equal (a # b # xs) = (a = b \<or> adjacent_equal (b # xs))"
| "adjacent_equal _ = False"

fun group_from :: "(nat \<times> volume_name option) list \<Rightarrow> bool list \<Rightarrow> nat list list" where
  "group_from [] claimed = []"
| "group_from ((i, item) # rest) claimed =
     (if claimed ! i then group_from rest claimed
      else case item of
        None \<Rightarrow> group_from rest claimed
      | Some vi \<Rightarrow>
          let (more, claimed') = claim_members vi rest claimed;
              members = (index vi, i) # more
          in if length members < 2 then group_from rest claimed'
             else let members = sort_key fst members
                  in if adjacent_equal (map fst members) then group_from rest (claimed'[i := True])
                     else map snd members # group_from rest (claimed'[i := True]))"

definition volume_group :: "string list \<Rightarrow> nat list list" where
  "volume_group names =
     group_from (enumerate 0 (map volume_parse names)) (replicate (length names) False)"

section \<open>The collector\<close>

type_synonym part = "nat \<times> string \<times> bytes"

datatype offer_result = PassThrough string bytes | Held

record joined =
  j_name :: string
  j_data :: bytes
  j_parts :: "string list"

record unjoined =
  u_name :: string
  u_data :: bytes
  u_incomplete_set :: "string option"

record finished =
  joined :: "joined list"
  unjoined :: "unjoined list"

record pending =
  key :: volume_name
  parts :: "part list"
  lost_part :: bool

record collector =
  pending :: "pending list"
  max_held_bytes :: nat
  held_bytes :: nat

definition into_scannable :: "finished \<Rightarrow> (string \<times> bytes \<times> string option) list" where
  "into_scannable f =
     map (\<lambda>j. (j_name j, j_data j, None)) (joined f) @
     map (\<lambda>u. (u_name u, u_data u, u_incomplete_set u)) (unjoined f)"

definition collector_new :: "nat \<Rightarrow> collector" where
  "collector_new m = \<lparr>pending = [], max_held_bytes = m, held_bytes = 0\<rparr>"

text \<open>
  The set a volume goes to: the first one it belongs to, else a new one at the end. \<open>upd\<close>
  changes that set.
\<close>

fun in_set :: "volume_name \<Rightarrow> (pending \<Rightarrow> pending) \<Rightarrow> pending list \<Rightarrow> pending list" where
  "in_set vn upd [] = [upd \<lparr>key = vn, parts = [], lost_part = False\<rparr>]"
| "in_set vn upd (p # ps) = (if same_set_as (key p) vn then upd p # ps else p # in_set vn upd ps)"

fun set_parts :: "volume_name \<Rightarrow> pending list \<Rightarrow> part list" where
  "set_parts vn [] = []"
| "set_parts vn (p # ps) = (if same_set_as (key p) vn then parts p else set_parts vn ps)"

definition offer :: "collector \<Rightarrow> string \<Rightarrow> bytes \<Rightarrow> offer_result \<times> collector" where
  "offer c name data =
     (case volume_parse name of
        None \<Rightarrow> (PassThrough name data, c)
      | Some vn \<Rightarrow>
          if \<not> is_byte_split (scheme vn) then (PassThrough name data, c)
          else
            let over_budget = max_held_bytes c < min (2 ^ 64 - 1) (held_bytes c + length data)
            in if over_budget \<or> index vn \<in> fst ` set (set_parts vn (pending c)) then
                 (PassThrough name data,
                  c\<lparr>pending := in_set vn (\<lambda>p. p\<lparr>lost_part := True\<rparr>) (pending c)\<rparr>)
               else
                 (Held,
                  c\<lparr>held_bytes := held_bytes c + length data,
                    pending := in_set vn (\<lambda>p. p\<lparr>parts := parts p @ [(index vn, name, data)]\<rparr>) (pending c)\<rparr>))"

definition LOST_PART :: string where
  "LOST_PART = ''part of a multi-volume set one of whose volumes could not be held for rejoining''"

definition NO_FIRST :: string where
  "NO_FIRST = ''part of a multi-volume set whose first volume was not present''"

definition INCOMPLETE :: string where
  "INCOMPLETE = ''part of an incomplete multi-volume set; the other volumes were not present''"

fun consecutive :: "nat list \<Rightarrow> bool" where
  "consecutive (a # b # xs) = (b = a + 1 \<and> consecutive (b # xs))"
| "consecutive _ = True"

definition hand_back :: "string option \<Rightarrow> part list \<Rightarrow> unjoined list" where
  "hand_back why ps = map (\<lambda>(_, name, data). \<lparr>u_name = name, u_data = data, u_incomplete_set = why\<rparr>) ps"

definition set_name :: "volume_name \<Rightarrow> string" where
  "set_name v = (case scheme v of NumberedSuffix base_ext _ \<Rightarrow> stem v @ ''.'' @ base_ext | _ \<Rightarrow> stem v)"

text \<open>What one set comes to when the container ends: the file it joins to, or its parts.\<close>

definition finish_set :: "pending \<Rightarrow> joined list \<times> unjoined list" where
  "finish_set p =
     (let ps = sort_key fst (parts p); idx = map fst ps in
      if lost_part p then ([], hand_back (Some LOST_PART) ps)
      else if length ps < 2 then ([], hand_back None ps)
      else if \<not> (hd idx = 0 \<and> consecutive idx) then
        ([], hand_back (Some (if hd idx \<noteq> 0 then NO_FIRST else INCOMPLETE)) ps)
      else ([\<lparr>j_name = set_name (key p), j_data = concat (map (\<lambda>(_, _, d). d) ps),
              j_parts = map (\<lambda>(_, n, _). n) ps\<rparr>], []))"

definition collector_finish :: "collector \<Rightarrow> finished" where
  "collector_finish c =
     \<lparr>joined = concat (map (fst \<circ> finish_set) (pending c)),
      unjoined = concat (map (snd \<circ> finish_set) (pending c))\<rparr>"

end
