(* ===== verification/Volume_Props.thy ===== *)
theory Volume_Props
  imports Volume
begin

text \<open>
  What the volume code promises: a generated name is recognised as the volume it stands for, a
  grouping is sound, and the collector neither drops nor invents bytes.
\<close>

section \<open>Same set\<close>

lemma same_scheme_equiv:
  "same_scheme a a"
  "same_scheme a b = same_scheme b a"
  "same_scheme a b \<Longrightarrow> same_scheme b c \<Longrightarrow> same_scheme a c"
  by (cases a; cases b; cases c; auto simp: eq_ignore_ascii_case_def)+

lemma same_set_as_equiv:
  "same_set_as a a"
  "same_set_as a b = same_set_as b a"
  "same_set_as a b \<Longrightarrow> same_set_as b c \<Longrightarrow> same_set_as a c"
  by (auto simp: same_set_as_def eq_ignore_ascii_case_def same_scheme_equiv dest: same_scheme_equiv(3))

section \<open>The collector\<close>

abbreviation part_of :: "part \<Rightarrow> string \<times> bytes" where
  "part_of \<equiv> \<lambda>(_, n, d). (n, d)"

definition set_pieces :: "pending \<Rightarrow> (string \<times> bytes) multiset" where
  "set_pieces p = image_mset part_of (mset (parts p))"

definition held_pieces :: "pending list \<Rightarrow> (string \<times> bytes) multiset" where
  "held_pieces ps = sum_list (map set_pieces ps)"

lemma held_pieces_simps [simp]:
  "held_pieces [] = {#}" "held_pieces (p # ps) = set_pieces p + held_pieces ps"
  by (simp_all add: held_pieces_def)

lemma held_pieces_lost [simp]:
  "held_pieces (in_set vn (\<lambda>p. p\<lparr>lost_part := True\<rparr>) ps) = held_pieces ps"
  by (induction ps) (auto simp: set_pieces_def)

lemma held_pieces_add [simp]:
  "held_pieces (in_set vn (\<lambda>p. p\<lparr>parts := parts p @ [(i, n, d)]\<rparr>) ps) = add_mset (n, d) (held_pieces ps)"
  by (induction ps) (auto simp: set_pieces_def)

text \<open>
  The sets held: each part is under the position its name says in the set of its key, positions
  are not repeated, and only byte-split sets are held.
\<close>

definition set_ok :: "pending \<Rightarrow> bool" where
  "set_ok p \<longleftrightarrow> is_byte_split (scheme (key p)) \<and> distinct (map fst (parts p)) \<and>
     (\<forall>(i, n, d) \<in> set (parts p). \<exists>v. volume_parse n = Some v \<and> index v = i \<and> same_set_as (key p) v)"

definition collector_ok :: "collector \<Rightarrow> bool" where
  "collector_ok c \<longleftrightarrow> (\<forall>p \<in> set (pending c). set_ok p) \<and>
     held_bytes c = sum_mset (image_mset (length \<circ> snd) (held_pieces (pending c))) \<and>
     held_bytes c \<le> max_held_bytes c"

lemma set_ok_new: "is_byte_split (scheme vn) \<Longrightarrow> set_ok \<lparr>key = vn, parts = [], lost_part = False\<rparr>"
  by (simp add: set_ok_def)

lemma set_ok_lost: "set_ok p \<Longrightarrow> set_ok (p\<lparr>lost_part := True\<rparr>)"
  by (simp add: set_ok_def)

lemma set_ok_add:
  assumes "set_ok p" "same_set_as (key p) vn" "volume_parse n = Some vn" "index vn \<notin> fst ` set (parts p)"
  shows "set_ok (p\<lparr>parts := parts p @ [(index vn, n, d)]\<rparr>)"
  using assms by (auto simp: set_ok_def)

lemma set_ok_add':
  assumes "set_ok p" "same_set_as (key p) vn" "volume_parse n = Some vn" "parts p = ps" "index vn \<notin> fst ` set ps"
  shows "set_ok (p\<lparr>parts := ps @ [(index vn, n, d)]\<rparr>)"
  using set_ok_add assms by metis

lemma in_set_ok:
  assumes "\<forall>p \<in> set ps. set_ok p" "is_byte_split (scheme vn)"
    and "\<And>p. set_ok p \<Longrightarrow> same_set_as (key p) vn \<Longrightarrow> parts p = set_parts vn ps \<Longrightarrow> set_ok (upd p)"
  shows "\<forall>p \<in> set (in_set vn upd ps). set_ok p"
  using assms
proof (induction ps)
  case Nil
  then show ?case by (simp add: set_ok_new same_set_as_equiv)
next
  case (Cons p ps)
  then show ?case by (auto split: if_splits)
qed


lemma set_parts_None: "\<not> (\<exists>p \<in> set ps. same_set_as (key p) vn) \<Longrightarrow> set_parts vn ps = []"
  by (induction ps) auto

abbreviation passed :: "offer_result \<Rightarrow> (string \<times> bytes) list" where
  "passed r \<equiv> case r of PassThrough n d \<Rightarrow> [(n, d)] | Held \<Rightarrow> []"

text \<open>One offer: the member is passed through or held, and the invariant is kept.\<close>

lemma offer_step:
  assumes ok: "collector_ok c" and lim: "max_held_bytes c < 2 ^ 64 - 1" and o: "offer c n d = (r, c')"
  shows "collector_ok c' \<and> max_held_bytes c' = max_held_bytes c \<and>
    held_pieces (pending c') + mset (passed r) = add_mset (n, d) (held_pieces (pending c))"
proof (cases "volume_parse n")
  case None
  with ok o show ?thesis by (auto simp: offer_def)
next
  case vn: (Some vn)
  show ?thesis
  proof (cases "is_byte_split (scheme vn)")
    case False
    with vn ok o show ?thesis by (auto simp: offer_def)
  next
    case split: True
    let ?over = "max_held_bytes c < min (2 ^ 64 - 1) (held_bytes c + length d) \<or>
      index vn \<in> fst ` set (set_parts vn (pending c))"
    show ?thesis
    proof (cases ?over)
      case True
      with vn split o have "r = PassThrough n d"
        and c': "c' = c\<lparr>pending := in_set vn (\<lambda>p. p\<lparr>lost_part := True\<rparr>) (pending c)\<rparr>"
        by (auto simp: offer_def Let_def)
      moreover have "\<forall>p \<in> set (pending c'). set_ok p"
        unfolding c' using ok split
        by (simp add: collector_ok_def) (rule in_set_ok, auto intro: set_ok_lost)
      ultimately show ?thesis using ok by (simp add: collector_ok_def)
    next
      case False
      with vn split o have r: "r = Held"
        and c': "c' = c\<lparr>held_bytes := held_bytes c + length d,
          pending := in_set vn (\<lambda>p. p\<lparr>parts := parts p @ [(index vn, n, d)]\<rparr>) (pending c)\<rparr>"
        by (auto simp: offer_def Let_def)
      have "\<forall>p \<in> set (pending c'). set_ok p"
        unfolding c' using ok split False vn
        by (simp add: collector_ok_def) (rule in_set_ok, auto intro: set_ok_add')
      moreover have "held_bytes c + length d \<le> max_held_bytes c"
        using False lim by (simp add: min_def split: if_splits)
      ultimately show ?thesis using ok r c' by (simp add: collector_ok_def)
    qed
  qed
qed

text \<open>A whole container: the members passed through on arrival, and the collector at its end.\<close>

fun offer_all :: "collector \<Rightarrow> (string \<times> bytes) list \<Rightarrow> (string \<times> bytes) list \<times> collector" where
  "offer_all c [] = ([], c)"
| "offer_all c ((n, d) # ms) =
     (let (r, c1) = offer c n d; (out, c2) = offer_all c1 ms in (passed r @ out, c2))"

lemma offer_all_step:
  assumes "collector_ok c" "max_held_bytes c < 2 ^ 64 - 1" "offer_all c ms = (out, c')"
  shows "collector_ok c' \<and> max_held_bytes c' = max_held_bytes c \<and>
    held_pieces (pending c') + mset out = mset ms + held_pieces (pending c)"
  using assms
proof (induction ms arbitrary: c out)
  case (Cons m ms)
  obtain n d where m: "m = (n, d)" by (cases m)
  obtain r c1 where o: "offer c n d = (r, c1)" by fastforce
  obtain out' where a: "offer_all c1 ms = (out', c')" and out: "out = passed r @ out'"
    using Cons.prems(3) by (auto simp: m o split: prod.splits)
  have s: "collector_ok c1 \<and> max_held_bytes c1 = max_held_bytes c \<and>
    held_pieces (pending c1) + mset (passed r) = add_mset (n, d) (held_pieces (pending c))"
    by (rule offer_step [OF Cons.prems(1,2) o])
  have i: "collector_ok c' \<and> max_held_bytes c' = max_held_bytes c1 \<and>
    held_pieces (pending c') + mset out' = mset ms + held_pieces (pending c1)"
    using s Cons.prems(2) by (intro Cons.IH [OF _ _ a]) auto
  have "held_pieces (pending c') + mset out = (held_pieces (pending c') + mset out') + mset (passed r)"
    by (simp add: out ac_simps)
  also have "\<dots> = mset ms + (held_pieces (pending c1) + mset (passed r))" using i by (simp add: ac_simps)
  also have "\<dots> = mset (m # ms) + held_pieces (pending c)" using s by (simp add: m)
  finally show ?case using s i by simp
qed auto

lemma collector_new_ok: "collector_ok (collector_new m)"
  by (simp add: collector_ok_def collector_new_def)

section \<open>The end of the container\<close>

lemma consecutive_upt: "consecutive (a # xs) \<Longrightarrow> a # xs = [a..<a + length (a # xs)]"
proof (induction xs arbitrary: a)
  case (Cons b xs)
  then have b: "b = Suc a" by simp
  have i: "b # xs = [b..<b + length (b # xs)]" by (rule Cons.IH) (use Cons.prems in auto)
  have "[a..<a + length (a # b # xs)] = a # [Suc a..<Suc a + length (b # xs)]"
    by (simp add: upt_conv_Cons del: upt_Suc)
  then show ?case using i unfolding b by (simp del: upt_Suc)
qed simp

lemma consecutive_from_0: "xs \<noteq> [] \<Longrightarrow> hd xs = 0 \<Longrightarrow> consecutive xs \<Longrightarrow> xs = [0..<length xs]"
  using consecutive_upt [of "hd xs" "tl xs"] by (cases xs) auto

text \<open>
  A file put back together: the data and names of two or more parts at the positions 0, 1, ...
  of one set, in that order.
\<close>

definition joins :: "(string \<times> bytes) list \<Rightarrow> joined \<Rightarrow> bool" where
  "joins ps j \<longleftrightarrow> 2 \<le> length ps \<and> j_data j = concat (map snd ps) \<and> j_parts j = map fst ps \<and>
     (\<exists>k. j_name j = set_name k \<and> is_byte_split (scheme k) \<and>
        (\<forall>i < length ps. \<exists>v. volume_parse (fst (ps ! i)) = Some v \<and> index v = i \<and> same_set_as k v))"

definition given_back :: "unjoined list \<Rightarrow> (string \<times> bytes) multiset" where
  "given_back us = image_mset (\<lambda>u. (u_name u, u_data u)) (mset us)"

lemma given_back_simps [simp]:
  "given_back [] = {#}" "given_back (us @ vs) = given_back us + given_back vs"
  by (simp_all add: given_back_def)

lemma given_back_hand_back: "given_back (hand_back why ps) = image_mset part_of (mset ps)"
  by (simp add: given_back_def hand_back_def multiset.map_comp comp_def case_prod_unfold)

lemma finish_set_pieces:
  assumes ok: "set_ok p" and f: "finish_set p = (js, us)"
  shows "\<exists>pss. list_all2 joins pss js \<and> mset (concat pss) + given_back us = set_pieces p"
proof -
  let ?ps = "sort_key fst (parts p)"
  have m: "mset ?ps = mset (parts p)" by simp
  consider (handed) why where "js = []" "us = hand_back why ?ps"
    | (whole) "\<not> length ?ps < 2" "hd (map fst ?ps) = 0" "consecutive (map fst ?ps)"
      "js = [\<lparr>j_name = set_name (key p), j_data = concat (map (\<lambda>(_, _, d). d) ?ps),
              j_parts = map (\<lambda>(_, n, _). n) ?ps\<rparr>]" "us = []"
    using f unfolding finish_set_def Let_def by (fastforce split: if_splits)
  then show ?thesis
  proof cases
    case handed
    then show ?thesis
      by (intro exI [of _ "[]"]) (simp add: given_back_hand_back set_pieces_def)
  next
    case whole
    let ?qs = "map part_of ?ps"
    have idx: "map fst ?ps = [0..<length ?ps]"
    proof -
      have "map fst ?ps \<noteq> []" using whole(1) by force
      from consecutive_from_0 [OF this whole(2,3)] show ?thesis by simp
    qed
    have "\<exists>v. volume_parse (fst (?qs ! i)) = Some v \<and> index v = i \<and> same_set_as (key p) v"
      if i: "i < length ?qs" for i
    proof -
      have "?ps ! i \<in> set (parts p)" using i by (metis length_map nth_mem set_sort)
      moreover have "fst (?ps ! i) = i"
        using i arg_cong [OF idx, of "\<lambda>xs. xs ! i"] by simp
      ultimately show ?thesis using ok i by (force simp: set_ok_def)
    qed
    then have "joins ?qs (hd js)"
      unfolding joins_def using whole ok
      by (intro conjI exI [of _ "key p"]) (auto simp: set_ok_def comp_def case_prod_unfold)
    then have "list_all2 joins [?qs] js" using whole by simp
    moreover have "mset (concat [?qs]) = set_pieces p"
      by (simp add: set_pieces_def)
    ultimately show ?thesis using whole(5) by (intro exI [of _ "[?qs]"]) simp
  qed
qed

lemma finish_pieces:
  assumes "\<forall>p \<in> set ps. set_ok p"
  shows "\<exists>pss. list_all2 joins pss (concat (map (fst \<circ> finish_set) ps)) \<and>
    mset (concat pss) + given_back (concat (map (snd \<circ> finish_set) ps)) = held_pieces ps"
  using assms
proof (induction ps)
  case (Cons p ps)
  obtain js us where f: "finish_set p = (js, us)" by fastforce
  obtain pss1 where 1: "list_all2 joins pss1 js" "mset (concat pss1) + given_back us = set_pieces p"
    using finish_set_pieces [OF _ f] Cons.prems by auto
  obtain pss2 where 2: "list_all2 joins pss2 (concat (map (fst \<circ> finish_set) ps))"
    "mset (concat pss2) + given_back (concat (map (snd \<circ> finish_set) ps)) = held_pieces ps"
    using Cons.IH Cons.prems unfolding comp_def by auto
  have "list_all2 joins (pss1 @ pss2) (js @ concat (map (fst \<circ> finish_set) ps))"
    using 1(1) 2(1) by (rule list_all2_appendI)
  moreover have "mset (concat (pss1 @ pss2)) + given_back (us @ concat (map (snd \<circ> finish_set) ps))
     = set_pieces p + held_pieces ps"
    by (simp add: 1(2) [symmetric] 2(2) [symmetric] ac_simps)
  ultimately show ?case by (intro exI [of _ "pss1 @ pss2"]) (simp add: f comp_def)
qed (auto intro: exI [of _ "[]"])

text \<open>
  C21. A container's members are all accounted for. Whatever members are offered to the
  collector, each is passed through on arrival, or is given back when the container ends, or is a
  part of exactly one rejoined file; a rejoined file is the concatenation of two or more parts
  that stand at the positions 0, 1, ... of one set, however they arrived; and what is held never
  exceeds the bound the collector was given.
\<close>

theorem collector_conserves:
  assumes "m < 2 ^ 64 - 1" "offer_all (collector_new m) ms = (out, c)"
  shows "\<exists>pss. list_all2 joins pss (joined (collector_finish c)) \<and>
      mset out + mset (concat pss) + given_back (unjoined (collector_finish c)) = mset ms \<and>
      sum_list (map (length \<circ> snd) (concat pss)) \<le> m"
proof -
  have s: "collector_ok c" "max_held_bytes c = m" "held_pieces (pending c) + mset out = mset ms"
    using offer_all_step [OF collector_new_ok _ assms(2)] assms(1) by (auto simp: collector_new_def)
  have "\<forall>p \<in> set (pending c). set_ok p" using s(1) by (simp add: collector_ok_def)
  from finish_pieces [OF this] obtain pss
    where p: "list_all2 joins pss (joined (collector_finish c))"
      "mset (concat pss) + given_back (unjoined (collector_finish c)) = held_pieces (pending c)"
    by (auto simp: collector_finish_def)
  have "sum_list (map (length \<circ> snd) (concat pss)) = sum_mset (image_mset (length \<circ> snd) (mset (concat pss)))"
    by (metis mset_map sum_mset_sum_list)
  also have "\<dots> \<le> sum_mset (image_mset (length \<circ> snd) (held_pieces (pending c)))"
    unfolding p(2) [symmetric] by simp
  also have "\<dots> \<le> m" using s(1,2) by (simp add: collector_ok_def)
  finally show ?thesis
    using p s(3) by (intro exI [of _ pss]) (simp add: ac_simps)
qed

theorem collector_conserves_witness:
  "let r = offer_all (collector_new 100) [(''x.7z.002'', [2]), (''note'', [9]), (''x.7z.001'', [1])] in
   \<exists>pss. list_all2 joins pss (joined (collector_finish (snd r))) \<and>
      mset (fst r) + mset (concat pss) + given_back (unjoined (collector_finish (snd r))) =
        mset [(''x.7z.002'', [2]), (''note'', [9]), (''x.7z.001'', [1])] \<and>
      sum_list (map (length \<circ> snd) (concat pss)) \<le> 100"
  unfolding Let_def by (rule collector_conserves) simp_all

section \<open>Names\<close>

lemma alnum_not_dot: "list_all alnum_char s \<Longrightarrow> CHR ''.'' \<notin> set s"
  by (auto simp: list_all_iff alnum_char_def digit_char_def)

lemma digits_not:
  "list_all digit_char s \<Longrightarrow> \<not> digit_char c \<Longrightarrow> c \<notin> set s"
  by (auto simp: list_all_iff)

lemma not_digit [simp]:
  "\<not> digit_char CHR ''.''" "\<not> digit_char CHR ''r''" "\<not> digit_char CHR ''z''"
  by (simp_all add: digit_char_def)

lemma lower_lits [simp]:
  "char_lower CHR ''.'' = CHR ''.''" "char_lower CHR ''r'' = CHR ''r''" "char_lower CHR ''a'' = CHR ''a''"
  "char_lower CHR ''p'' = CHR ''p''" "char_lower CHR ''t'' = CHR ''t''" "char_lower CHR ''z'' = CHR ''z''"
  by (simp_all add: char_lower_def)

lemma digits_no_rar:
  assumes "list_all digit_char ds" "ds \<noteq> []"
  shows "strip_suffix ''.rar'' (s @ ds) = None"
proof (rule strip_suffix_last)
  have "last ds \<in> set ds" using assms(2) by simp
  then have "last ds \<noteq> CHR ''r''" using digits_not [OF assms(1) not_digit(2)] by metis
  then show "last (s @ ds) \<noteq> last ''.rar''" using assms(2) by simp
qed (use assms in auto)

lemma two_digits_first: "list_all digit_char ds \<Longrightarrow> \<not> digit_char p \<Longrightarrow> two_digits p ds = None"
  by (cases ds) (auto simp: two_digits_def strip_prefix_def split: if_splits)

lemma rfind_part [simp]:
  assumes "list_all digit_char ds"
  shows "rfind ''.part'' (a @ CHR ''.'' # CHR ''p'' # CHR ''a'' # CHR ''r'' # CHR ''t'' # ds) = Some (length a)"
  using rfind_first [of "CHR ''.''" "''part''" ds a] digits_not [OF assms not_digit(1)] by simp

lemma parse_rar_part:
  assumes "list_all digit_char ds" "ds \<noteq> []" "length st = length a"
  shows "parse_rar (st @ rest) (a @ ''.part'' @ ds) =
    do { n \<leftarrow> parse_usize ds; i \<leftarrow> checked_sub n 1;
         Some \<lparr>stem = st, index = i, scheme = RarPart (length ds)\<rparr> }"
  using assms by (simp add: parse_rar_def Let_def)

lemma parse_part_name:
  assumes "list_all digit_char ds" "ds \<noteq> []" "decimal_val ds = Suc i" "Suc i < 2 ^ 64"
  shows "volume_parse (st @ ''.part'' @ ds @ ''.rar'') =
    Some \<lparr>stem = st, index = i, scheme = RarPart (length ds)\<rparr>"
proof -
  let ?l = "to_ascii_lowercase st"
  have l: "to_ascii_lowercase (st @ ''.part'' @ ds @ ''.rar'') = (?l @ ''.part'' @ ds) @ ''.rar''"
    using assms by simp
  have "volume_parse (st @ ''.part'' @ ds @ ''.rar'')
      = parse_rar (st @ ''.part'' @ ds @ ''.rar'') (?l @ ''.part'' @ ds)"
    unfolding volume_parse_def l Let_def strip_suffix_append by (simp only: option.case)
  also have "\<dots> = Some \<lparr>stem = st, index = i, scheme = RarPart (length ds)\<rparr>"
    using assms by (subst parse_rar_part) (simp_all add: parse_usize_def checked_sub_def)
  finally show ?thesis .
qed

lemma parse_numbered_name:
  assumes "list_all digit_char ds" "2 \<le> length ds" "be \<noteq> []" "list_all alnum_char be"
    "to_ascii_lowercase be = be" "decimal_val ds = Suc i" "Suc i < 2 ^ 64"
  shows "volume_parse (st @ ''.'' @ be @ ''.'' @ ds) =
    Some \<lparr>stem = st, index = i, scheme = NumberedSuffix be (length ds)\<rparr>"
proof -
  let ?l = "to_ascii_lowercase st"
  have ne: "ds \<noteq> []" using assms(2) by auto
  have l: "to_ascii_lowercase (st @ ''.'' @ be @ ''.'' @ ds) = (?l @ ''.'' @ be) @ CHR ''.'' # ds"
    using assms by simp
  have "strip_suffix ''.rar'' ((?l @ ''.'' @ be) @ CHR ''.'' # ds) = None"
    using digits_no_rar [OF assms(1) ne, of "(?l @ ''.'' @ be) @ ''.''"] by simp
  moreover have "rsplit_once CHR ''.'' ((?l @ ''.'' @ be) @ CHR ''.'' # ds) = Some (?l @ ''.'' @ be, ds)"
    using digits_not [OF assms(1) not_digit(1)] by (rule rsplit_once_append)
  moreover have "rsplit_once CHR ''.'' (?l @ ''.'' @ be) = Some (?l, be)"
    using rsplit_once_append [OF alnum_not_dot [OF assms(4)], of ?l] by simp
  moreover have "two_digits CHR ''r'' ds = None" "two_digits CHR ''z'' ds = None"
    using two_digits_first [OF assms(1)] by simp_all
  ultimately show ?thesis
    using assms unfolding volume_parse_def l Let_def
    by (simp add: parse_numbered_def parse_usize_def checked_sub_def)
qed

lemma parse_two_digits_name:
  assumes "list_all digit_char ds" "length ds = 2" "c \<in> {CHR ''r'', CHR ''z''}"
  shows "volume_parse (st @ CHR ''.'' # c # ds) =
    (if c = CHR ''r'' then Some \<lparr>stem = st, index = decimal_val ds + 1, scheme = RarOld\<rparr>
     else if 1 \<le> decimal_val ds then Some \<lparr>stem = st, index = decimal_val ds - 1, scheme = ZipSplit\<rparr>
     else None)"
proof -
  let ?l = "to_ascii_lowercase st"
  have ne: "ds \<noteq> []" using assms(2) by auto
  have l: "to_ascii_lowercase (st @ CHR ''.'' # c # ds) = ?l @ CHR ''.'' # c # ds"
    using assms by auto
  have "strip_suffix ''.rar'' (?l @ CHR ''.'' # c # ds) = None"
    using digits_no_rar [OF assms(1) ne, of "?l @ [CHR ''.'', c]"] by simp
  moreover have "rsplit_once CHR ''.'' (?l @ CHR ''.'' # c # ds) = Some (?l, c # ds)"
    using digits_not [OF assms(1) not_digit(1)] assms(3) by (intro rsplit_once_append) auto
  moreover have "two_digits c (c # ds) = Some ds" "c \<noteq> d \<Longrightarrow> two_digits d (c # ds) = None" for d
    using assms by (auto simp: two_digits_def strip_prefix_def)
  moreover have "parse_usize ds = Some (decimal_val ds)"
  proof -
    obtain a b where ds: "ds = [a, b]" using assms(2) by (auto simp: length_Suc_conv numeral_2_eq_2)
    have "decimal_val ds < 2 ^ 64" using assms(1)
      by (simp add: ds decimal_val_def digit_char_def Let_def) arith
    then show ?thesis by (simp add: parse_usize_def)
  qed
  ultimately show ?thesis
    using assms(3) unfolding volume_parse_def l Let_def
    by (cases "c = CHR ''r''") (simp_all add: checked_sub_def)
qed

text \<open>The name of a numbered part, for evaluation on concrete names.\<close>

lemma volume_parse_numbered:
  "volume_parse [a, b, c, CHR ''.'', d, e, CHR ''.'', x, y, z] =
     Some \<lparr>stem = [a, b, c], index = decimal_val [x, y, z] - 1, scheme = NumberedSuffix [d, e] 3\<rparr>"
  if "digit_char x \<and> digit_char y \<and> digit_char z \<and> alnum_char d \<and>
     alnum_char e \<and> char_lower d = d \<and> char_lower e = e \<and> decimal_val [x, y, z] \<noteq> 0"
proof -
  have "decimal_val [x, y, z] < 2 ^ 64"
    using that by (simp add: decimal_val_def digit_char_def Let_def) arith
  then show ?thesis
    using that parse_numbered_name [of "[x, y, z]" "[d, e]" "decimal_val [x, y, z] - 1" "[a, b, c]"] by simp
qed

text \<open>What a parsed name carries besides its position.\<close>

definition name_shape :: "volume_name \<Rightarrow> bool" where
  "name_shape v \<longleftrightarrow>
     (case scheme v of
        RarPart w \<Rightarrow> True
      | RarOld \<Rightarrow> index v = 0 \<longrightarrow>
          (\<forall>m. parse_rar m (to_ascii_lowercase (stem v)) =
            Some \<lparr>stem = take (length (stem v)) m, index = 0, scheme = RarOld\<rparr>)
      | NumberedSuffix be w \<Rightarrow>
          be \<noteq> [] \<and> list_all alnum_char be \<and> to_ascii_lowercase be = be \<and> 2 \<le> w
      | ZipSplit \<Rightarrow> True)"

lemma parse_rar_shape:
  assumes "parse_rar n rest = Some v" "rest = to_ascii_lowercase (take (length rest) n)"
  shows "name_shape v"
proof (cases "scheme v = RarOld")
  case True
  then have v: "v = \<lparr>stem = take (length rest) n, index = 0, scheme = RarOld\<rparr>"
    using assms(1) by (auto simp: parse_rar_def Let_def split: option.splits if_splits bind_splits)
  have "parse_rar m rest = Some \<lparr>stem = take (length rest) m, index = 0, scheme = RarOld\<rparr>" for m
    using assms(1) unfolding v parse_rar_def Let_def
    by (auto split: option.splits if_splits bind_splits)
  moreover have "to_ascii_lowercase (stem v) = rest" "length (stem v) = length rest"
    using assms(2) v by (simp_all, metis to_ascii_lowercase_simps(4) length_take)
  ultimately show ?thesis by (simp add: name_shape_def v)
next
  case False
  then obtain w where "scheme v = RarPart w"
    using assms(1) by (auto simp: parse_rar_def Let_def split: option.splits if_splits bind_splits)
  then show ?thesis by (simp add: name_shape_def)
qed

lemma parse_shape:
  assumes "volume_parse n = Some v"
  shows "name_shape v"
proof (cases "strip_suffix ''.rar'' (to_ascii_lowercase n)")
  case (Some rest)
  then have "to_ascii_lowercase n = rest @ ''.rar''" by (rule strip_suffix_SomeD)
  then have "rest = to_ascii_lowercase (take (length rest) n)"
    by (metis append_eq_conv_conj take_to_ascii_lowercase)
  moreover have "parse_rar n rest = Some v" using assms Some by (simp add: volume_parse_def)
  ultimately show ?thesis using parse_rar_shape by blast
next
  case None
  then obtain sl ext where r: "rsplit_once CHR ''.'' (to_ascii_lowercase n) = Some (sl, ext)"
    using assms by (auto simp: volume_parse_def split: bind_splits)
  consider (old) "scheme v = RarOld" "index v \<noteq> 0" | (zip) "scheme v = ZipSplit"
    | (num) "2 \<le> length ext" "parse_numbered n sl ext = Some v"
    using assms None r
    by (auto simp: volume_parse_def Let_def split: option.splits bind_splits if_splits)
  then show ?thesis
  proof cases
    case num
    then obtain bl be where b: "rsplit_once CHR ''.'' sl = Some (bl, be)"
      and v: "scheme v = NumberedSuffix be (length ext)" "be \<noteq> []" "list_all alnum_char be"
      by (auto simp: parse_numbered_def split: bind_splits if_splits)
    have "to_ascii_lowercase n = (bl @ CHR ''.'' # be) @ CHR ''.'' # ext"
      using rsplit_once_SomeD [OF r] rsplit_once_SomeD [OF b] by simp
    then have "to_ascii_lowercase ((bl @ CHR ''.'' # be) @ CHR ''.'' # ext) = (bl @ CHR ''.'' # be) @ CHR ''.'' # ext"
      by (metis to_ascii_lowercase_simps(5))
    then have "to_ascii_lowercase be = be"
      by (simp add: append_eq_append_conv)
    then show ?thesis using v num by (simp add: name_shape_def)
  qed (auto simp: name_shape_def)
qed

text \<open>
  C24. A generated volume name is recognised as what it stands for: given a name that parses as a
  volume, the name generated for position \<open>i\<close> of its set parses as position \<open>i\<close> of the same set.
  The two exceptions are in the hypotheses: a two-digit ZIP suffix has no position 99 or later,
  and the first volume of an old RAR set is only taken from the name of that volume (from
  \<^verbatim>\<open>a.part1.r00\<close> the generated \<^verbatim>\<open>a.part1.rar\<close> reads as a set of the other scheme).
\<close>

theorem name_at_parses:
  assumes "volume_parse n = Some v" "name_at v i = Some (Some m)"
    and "scheme v = ZipSplit \<longrightarrow> i < 99" "scheme v = RarOld \<and> i = 0 \<longrightarrow> index v = 0"
  shows "\<exists>w. volume_parse m = Some w \<and> index w = i \<and> same_set_as v w \<and> stem w = stem v"
proof (cases "scheme v")
  case (RarPart w)
  then have "m = stem v @ ''.part'' @ pad_dec w (i + 1) @ ''.rar''" "i + 1 < 2 ^ 64"
    using assms(2) by (auto simp: name_at_def split: if_splits)
  then show ?thesis
    using parse_part_name [of "pad_dec w (i + 1)" i "stem v"] RarPart
    by (simp add: same_set_as_def eq_ignore_ascii_case_equiv)
next
  case RarOld
  show ?thesis
  proof (cases "i = 0")
    case True
    then have m: "m = stem v @ ''.rar''" and "index v = 0"
      using assms(2,4) RarOld by (auto simp: name_at_def)
    then have "volume_parse m = Some \<lparr>stem = stem v, index = 0, scheme = RarOld\<rparr>"
      using parse_shape [OF assms(1)] RarOld strip_suffix_append [of "''.rar''" "to_ascii_lowercase (stem v)"]
      by (simp add: name_shape_def volume_parse_def)
    then show ?thesis using True RarOld by (simp add: same_set_as_def eq_ignore_ascii_case_equiv)
  next
    case False
    then have "m = stem v @ ''.r'' @ pad_dec 2 (i - 1)" "i \<le> 100"
      using assms(2) RarOld by (auto simp: name_at_def split: if_splits)
    then show ?thesis
      using parse_two_digits_name [of "pad_dec 2 (i - 1)" "CHR ''r''" "stem v"] False RarOld
      by (simp add: same_set_as_def eq_ignore_ascii_case_equiv length_pad_dec)
  qed
next
  case (NumberedSuffix be w)
  then have "m = stem v @ ''.'' @ be @ ''.'' @ pad_dec w (i + 1)" "i + 1 < 2 ^ 64"
    using assms(2) by (auto simp: name_at_def split: if_splits)
  moreover have "2 \<le> length (pad_dec w (i + 1))"
  proof -
    have "2 \<le> w" using parse_shape [OF assms(1)] NumberedSuffix by (simp add: name_shape_def)
    then show ?thesis using pad_dec_facts(4) [of w "i + 1"] by linarith
  qed
  ultimately show ?thesis
    using parse_numbered_name [of "pad_dec w (i + 1)" be i "stem v"] NumberedSuffix parse_shape [OF assms(1)]
    by (simp add: same_set_as_def eq_ignore_ascii_case_equiv name_shape_def)
next
  case ZipSplit
  then have "m = stem v @ ''.z'' @ pad_dec 2 (i + 1)" "i < 99"
    using assms(2,3) by (auto simp: name_at_def split: if_splits)
  then show ?thesis
    using parse_two_digits_name [of "pad_dec 2 (i + 1)" "CHR ''z''" "stem v"] ZipSplit
    by (simp add: same_set_as_def eq_ignore_ascii_case_equiv length_pad_dec)
qed

theorem name_at_parses_witness:
  "\<exists>w. volume_parse ''Big.7z.012'' = Some w \<and> index w = 11 \<and>
     same_set_as \<lparr>stem = ''Big'', index = 2, scheme = NumberedSuffix ''7z'' 3\<rparr> w \<and> stem w = ''Big''"
proof -
  have "volume_parse ''Big.7z.003'' = Some \<lparr>stem = ''Big'', index = 2, scheme = NumberedSuffix ''7z'' 3\<rparr>"
    by (subst volume_parse_numbered)
      (simp_all add: digit_char_def alnum_char_def char_lower_def decimal_val_def)
  moreover have "name_at \<lparr>stem = ''Big'', index = 2, scheme = NumberedSuffix ''7z'' 3\<rparr> 11 = Some (Some ''Big.7z.012'')"
    by (simp add: name_at_def pad_dec_def dec_string.simps, code_simp)
  ultimately show ?thesis
    using name_at_parses [of "''Big.7z.003''" "\<lparr>stem = ''Big'', index = 2, scheme = NumberedSuffix ''7z'' 3\<rparr>" 11 "''Big.7z.012''"]
    by simp
qed

section \<open>A set none of whose parts is held\<close>

lemma in_set_lost_new:
  "\<forall>p \<in> set ps. \<not> same_set_as (key p) vn \<Longrightarrow> \<forall>p \<in> set qs. parts p = [] \<Longrightarrow>
   \<exists>rs. in_set vn (\<lambda>p. p\<lparr>lost_part := True\<rparr>) (ps @ qs) = ps @ rs \<and> (\<forall>p \<in> set rs. parts p = [])"
proof (induction ps)
  case Nil
  have "\<forall>p \<in> set (in_set vn (\<lambda>p. p\<lparr>lost_part := True\<rparr>) qs). parts p = []"
    using Nil(2) by (induction qs) auto
  then show ?case by simp
qed auto

lemma offer_over:
  assumes "volume_parse n = Some v" "is_byte_split (scheme v)"
    "max_held_bytes c < min (2 ^ 64 - 1) (held_bytes c + length d)"
  shows "offer c n d = (PassThrough n d, c\<lparr>pending := in_set v (\<lambda>p. p\<lparr>lost_part := True\<rparr>) (pending c)\<rparr>)"
  using assms by (simp add: offer_def Let_def)

lemma offer_all_over:
  assumes "\<forall>(n, d) \<in> set ms. \<exists>v. volume_parse n = Some v \<and> is_byte_split (scheme v) \<and>
      max_held_bytes c < min (2 ^ 64 - 1) (held_bytes c + length d) \<and>
      (\<forall>p \<in> set ps. \<not> same_set_as (key p) v)"
    and "pending c = ps @ qs" "\<forall>p \<in> set qs. parts p = []"
  shows "\<exists>rs. offer_all c ms = (ms, c\<lparr>pending := ps @ rs\<rparr>) \<and> (\<forall>p \<in> set rs. parts p = [])"
  using assms
proof (induction ms arbitrary: c qs)
  case Nil
  then show ?case by (intro exI [of _ qs]) (cases c, simp)
next
  case (Cons m ms)
  obtain n d where m: "m = (n, d)" by (cases m)
  obtain v where v: "volume_parse n = Some v" "is_byte_split (scheme v)"
    "max_held_bytes c < min (2 ^ 64 - 1) (held_bytes c + length d)" "\<forall>p \<in> set ps. \<not> same_set_as (key p) v"
    using Cons.prems(1) m by auto
  obtain rs where rs: "in_set v (\<lambda>p. p\<lparr>lost_part := True\<rparr>) (ps @ qs) = ps @ rs" "\<forall>p \<in> set rs. parts p = []"
    using in_set_lost_new [OF v(4) Cons.prems(3)] by blast
  have "\<exists>ts. offer_all (c\<lparr>pending := ps @ rs\<rparr>) ms = (ms, c\<lparr>pending := ps @ rs\<rparr>\<lparr>pending := ps @ ts\<rparr>)
      \<and> (\<forall>p \<in> set ts. parts p = [])"
    using Cons.prems(1) rs(2) by (intro Cons.IH) auto
  then show ?case
    using offer_over [OF v(1-3)] rs(1) by (auto simp: m Cons.prems(2) Let_def)
qed

lemma finish_set_empty: "parts p = [] \<Longrightarrow> finish_set p = ([], [])"
  by (simp add: finish_set_def hand_back_def)

text \<open>
  C28. A split set none of whose parts could be held leaves no trace. When every part of a set is
  over what the collector has left to hold, each is passed through to be scanned as a file of its
  own, and what the collector gives back at the end is what it gives back without them: nothing
  flags the set as one that was not rejoined, although the record kept of a lost part is meant to.
\<close>

theorem lost_set_unreported:
  assumes "\<forall>(n, d) \<in> set ms. \<exists>v. volume_parse n = Some v \<and> is_byte_split (scheme v) \<and>
      max_held_bytes c < min (2 ^ 64 - 1) (held_bytes c + length d) \<and>
      (\<forall>p \<in> set (pending c). \<not> same_set_as (key p) v)"
    and "offer_all c ms = (out, c')"
  shows "out = ms \<and> into_scannable (collector_finish c') = into_scannable (collector_finish c)"
proof -
  obtain rs where rs: "offer_all c ms = (ms, c\<lparr>pending := pending c @ rs\<rparr>)" "\<forall>p \<in> set rs. parts p = []"
    using offer_all_over [OF assms(1), of "[]"] by auto
  have e: "concat (map (fst \<circ> finish_set) rs) = []" "concat (map (snd \<circ> finish_set) rs) = []"
    using rs(2) by (auto simp: finish_set_empty)
  from rs(1) assms(2) have o: "out = ms" and c': "pending c' = pending c @ rs" by auto
  have "collector_finish c' = collector_finish c"
    unfolding collector_finish_def c' map_append concat_append e append_Nil2 ..
  with o show ?thesis by simp
qed

theorem lost_set_unreported_witness:
  "offer_all (collector_new 2) [(''arc.gz.001'', [1, 2, 3]), (''arc.gz.002'', [4, 5, 6])] =
     ([(''arc.gz.001'', [1, 2, 3]), (''arc.gz.002'', [4, 5, 6])],
      snd (offer_all (collector_new 2) [(''arc.gz.001'', [1, 2, 3]), (''arc.gz.002'', [4, 5, 6])])) \<and>
   into_scannable (collector_finish
     (snd (offer_all (collector_new 2) [(''arc.gz.001'', [1, 2, 3]), (''arc.gz.002'', [4, 5, 6])]))) = []"
proof -
  have p: "volume_parse ''arc.gz.001'' = Some \<lparr>stem = ''arc'', index = 0, scheme = NumberedSuffix ''gz'' 3\<rparr>"
    "volume_parse ''arc.gz.002'' = Some \<lparr>stem = ''arc'', index = 1, scheme = NumberedSuffix ''gz'' 3\<rparr>"
    by (subst volume_parse_numbered,
        simp_all add: digit_char_def alnum_char_def char_lower_def decimal_val_def)+
  let ?ms = "[(''arc.gz.001'', [1, 2, 3]), (''arc.gz.002'', [4, 5, 6 :: u8])]"
  have "fst (offer_all (collector_new 2) ?ms) = ?ms \<and>
     into_scannable (collector_finish (snd (offer_all (collector_new 2) ?ms)))
       = into_scannable (collector_finish (collector_new 2))"
    by (rule lost_set_unreported) (simp_all add: p collector_new_def)
  moreover have "into_scannable (collector_finish (collector_new 2)) = []"
    by (simp add: into_scannable_def collector_finish_def collector_new_def)
  ultimately show ?thesis by (metis prod.collapse)
qed

section \<open>Grouping\<close>

text \<open>A group: two or more names of one set, in the strict order of their positions.\<close>

definition good_group :: "(nat \<times> volume_name option) list \<Rightarrow> nat list \<Rightarrow> bool" where
  "good_group es g \<longleftrightarrow> 2 \<le> length g \<and>
     (\<exists>vs. list_all2 (\<lambda>j v. (j, Some v) \<in> set es) g vs \<and> sorted_wrt (<) (map index vs) \<and>
        (\<forall>v \<in> set vs. \<forall>w \<in> set vs. same_set_as v w))"

lemma good_group_mono: "good_group es g \<Longrightarrow> set es \<subseteq> set fs \<Longrightarrow> good_group fs g"
  unfolding good_group_def by (elim conjE exE, intro conjI exI) (auto elim!: list_all2_mono)

text \<open>What the inner loop claims was unclaimed, is claimed afterwards and is of the set.\<close>

definition claims ::
  "volume_name \<Rightarrow> (nat \<times> volume_name option) list \<Rightarrow> bool list \<Rightarrow> bool list \<Rightarrow> nat \<times> nat \<Rightarrow> bool" where
  "claims vi es cl cl' = (\<lambda>(x, j). \<not> cl ! j \<and> cl' ! j \<and> j < length cl \<and>
     (\<exists>v. (j, Some v) \<in> set es \<and> same_set_as vi v \<and> x = index v))"

lemma claim_members_spec:
  assumes "claim_members vi es cl = (ms, cl')" "\<forall>e \<in> set es. fst e < length cl" "distinct (map fst es)"
  shows "length cl' = length cl \<and> (\<forall>j. cl ! j \<longrightarrow> cl' ! j) \<and> distinct (map snd ms) \<and>
    (\<forall>m \<in> set ms. claims vi es cl cl' m)"
  using assms
proof (induction es arbitrary: cl ms)
  case Nil
  then show ?case by simp
next
  case (Cons e es)
  obtain j item where e: "e = (j, item)" by (cases e)
  have es: "\<forall>e \<in> set es. fst e < length cl" "distinct (map fst es)" "j < length cl" "j \<notin> fst ` set es"
    using Cons.prems(2,3) by (auto simp: e)
  consider (skip) "claim_members vi es cl = (ms, cl')"
    | (take) vj ms' where "\<not> cl ! j" "item = Some vj" "same_set_as vi vj"
      "claim_members vi es (cl[j := True]) = (ms', cl')" "ms = (index vj, j) # ms'"
    using Cons.prems(1) by (auto simp: e Let_def split: if_splits option.splits prod.splits)
  then show ?case
  proof cases
    case skip
    have "claims vi es cl cl' m \<Longrightarrow> claims vi (e # es) cl cl' m" for m
      unfolding claims_def by (cases m) auto
    with Cons.IH [OF skip es(1,2)] show ?thesis by blast
  next
    case take
    have "\<forall>e \<in> set es. fst e < length (cl[j := True])" using es(1) by simp
    note ih = Cons.IH [OF take(4) this es(2)]
    have keep: "cl ! i \<longrightarrow> cl' ! i" for i
    proof -
      have "cl ! i \<longrightarrow> cl[j := True] ! i" by (cases "i = j") (use es(3) in simp_all)
      with ih show ?thesis by blast
    qed
    have "cl' ! j" using ih es(3) by (metis nth_list_update_eq)
    then have j: "claims vi (e # es) cl cl' (index vj, j)"
      using take(1-3) es(3) by (auto simp: claims_def e)
    have m: "claims vi (e # es) cl cl' m \<and> snd m \<noteq> j" if "m \<in> set ms'" for m
    proof -
      have c: "claims vi es (cl[j := True]) cl' m" using ih that by blast
      then have "snd m \<noteq> j" using es(3) by (auto simp: claims_def split: prod.splits)
      with c show ?thesis by (auto simp: claims_def split: prod.splits)
    qed
    from ih keep j m show ?thesis unfolding take(5) by force
  qed
qed

lemma adjacent_equal_sorted: "sorted xs \<Longrightarrow> \<not> adjacent_equal xs \<Longrightarrow> sorted_wrt (<) xs"
proof (induction xs rule: adjacent_equal.induct)
  case (1 a b xs)
  then have "a < b" "sorted_wrt (<) (b # xs)" by auto
  then show ?case by auto
qed auto

text \<open>The members of one group, as found by the inner loop from the name \<open>i\<close>.\<close>

lemma found_group:
  assumes "claim_members vi es cl = (ext, cl')" "\<forall>e \<in> set es. fst e < length cl"
    "distinct (map fst es)" "i \<notin> fst ` set es"
    and g: "g = map snd ms" "ms = sort_key fst ((index vi, i) # ext)" "2 \<le> length ms"
      "\<not> adjacent_equal (map fst ms)"
  shows "good_group ((i, Some vi) # es) g \<and> distinct g \<and>
    (\<forall>j \<in> set g. j = i \<or> (\<not> cl ! j \<and> cl' ! j \<and> j \<in> fst ` set es))"
proof -
  note spec = claim_members_spec [OF assms(1-3)]
  let ?P = "\<lambda>(x, j) v. (j, Some v) \<in> set ((i, Some vi) # es) \<and> same_set_as vi v \<and> x = index v"
  have ex: "\<exists>v. ?P m v" if "m \<in> set ms" for m
  proof (cases "m = (index vi, i)")
    case True
    then show ?thesis by (auto simp: same_set_as_equiv)
  next
    case False
    moreover have "m \<in> set ((index vi, i) # ext)" using that unfolding g(2) by (simp only: set_sort)
    ultimately have "m \<in> set ext" by simp
    then have "claims vi es cl cl' m" using spec by blast
    then show ?thesis by (cases m) (auto simp: claims_def)
  qed
  then have "\<exists>f. \<forall>m \<in> set ms. ?P m (f m)" by (intro bchoice) blast
  then obtain f where f: "\<And>m. m \<in> set ms \<Longrightarrow> ?P m (f m)" by blast
  let ?vs = "map f ms"
  have "list_all2 (\<lambda>j v. (j, Some v) \<in> set ((i, Some vi) # es)) g ?vs"
    using f by (fastforce simp: g(1) list_all2_map1 list_all2_map2 list_all2_same)
  moreover have idx: "map index ?vs = map fst ms" using f by fastforce
  have "sorted (map fst ms)" unfolding g(2) by (rule sorted_sort_key)
  then have "sorted_wrt (<) (map index ?vs)" using adjacent_equal_sorted g(4) idx by metis
  moreover have "same_set_as v w" if "v \<in> set ?vs" "w \<in> set ?vs" for v w
  proof -
    have "same_set_as vi v" "same_set_as vi w" using that f by (auto split: prod.splits)
    then show ?thesis using same_set_as_equiv by metis
  qed
  ultimately have "good_group ((i, Some vi) # es) g"
    using g(1,3) unfolding good_group_def by (intro conjI exI [of _ ?vs]) auto
  moreover have mem: "m = (index vi, i) \<or> m \<in> set ext" if "m \<in> set ms" for m
    using that unfolding g(2) set_sort by simp
  have "\<forall>j \<in> set g. j = i \<or> (\<not> cl ! j \<and> cl' ! j \<and> j \<in> fst ` set es)"
  proof
    fix j assume "j \<in> set g"
    then obtain x where "(x, j) \<in> set ms" by (auto simp: g(1))
    with mem have "j = i \<or> claims vi es cl cl' (x, j)" using spec by blast
    then show "j = i \<or> (\<not> cl ! j \<and> cl' ! j \<and> j \<in> fst ` set es)" by (force simp: claims_def)
  qed
  moreover have "distinct g"
  proof -
    have "i \<notin> snd ` set ext" using spec assms(4) by (force simp: claims_def)
    then have "distinct (map snd ((index vi, i) # ext))" using spec by simp
    moreover have "mset (map snd ms) = mset (map snd ((index vi, i) # ext))" by (simp add: g(2))
    ultimately show ?thesis unfolding g(1) by (metis mset_eq_imp_distinct_iff)
  qed
  ultimately show ?thesis by blast
qed

lemma group_from_spec:
  assumes "\<forall>e \<in> set es. fst e < length cl" "distinct (map fst es)"
  shows "(\<forall>g \<in> set (group_from es cl). good_group es g \<and> (\<forall>j \<in> set g. \<not> cl ! j \<and> j \<in> fst ` set es)) \<and>
    distinct (concat (group_from es cl))"
  using assms
proof (induction es arbitrary: cl)
  case (Cons e es)
  obtain i item where e: "e = (i, item)" by (cases e)
  have es: "\<forall>e \<in> set es. fst e < length cl" "distinct (map fst es)" "i < length cl" "i \<notin> fst ` set es"
    using Cons.prems by (auto simp: e)
  have up: "good_group es g \<Longrightarrow> good_group (e # es) g" for g by (erule good_group_mono) auto
  show ?case
  proof (cases "cl ! i \<or> item = None")
    case True
    then have "group_from (e # es) cl = group_from es cl" by (auto simp: e)
    with Cons.IH [OF es(1,2)] up show ?thesis by auto
  next
    case False
    then obtain vi where vi: "item = Some vi" "\<not> cl ! i" by auto
    obtain ext cl1 where c: "claim_members vi es cl = (ext, cl1)" by fastforce
    note spec = claim_members_spec [OF c es(1,2)]
    let ?ms = "sort_key fst ((index vi, i) # ext)"
    let ?rest = "\<lambda>cl2. group_from es cl2"
    have rest: "(\<forall>g \<in> set (?rest cl2). good_group (e # es) g \<and>
        (\<forall>j \<in> set g. \<not> cl2 ! j \<and> \<not> cl ! j \<and> j \<in> fst ` set es)) \<and> distinct (concat (?rest cl2))"
      if "length cl2 = length cl" "\<forall>j. cl ! j \<longrightarrow> cl2 ! j" for cl2
      using Cons.IH [of cl2] es(1,2) that up by auto
    have cl2: "length (cl1[i := True]) = length cl" "\<forall>j. cl1 ! j \<longrightarrow> cl1[i := True] ! j"
      using spec es(3) by (simp_all add: nth_list_update)
    have cl2': "\<forall>j. cl ! j \<longrightarrow> cl1[i := True] ! j" using cl2(2) spec by blast
    have step: "group_from (e # es) cl =
        (if length ((index vi, i) # ext) < 2 then ?rest cl1
         else if adjacent_equal (map fst ?ms) then ?rest (cl1[i := True])
         else map snd ?ms # ?rest (cl1[i := True]))"
      unfolding e group_from.simps using vi c by (simp only: option.case if_False Let_def prod.case)
    have len: "length ?ms = length ((index vi, i) # ext)" by (rule length_sort)
    consider (lone) "group_from (e # es) cl = ?rest cl1"
      | (dup) "group_from (e # es) cl = ?rest (cl1[i := True])"
      | (found) "group_from (e # es) cl = map snd ?ms # ?rest (cl1[i := True])"
        "2 \<le> length ?ms" "\<not> adjacent_equal (map fst ?ms)"
      unfolding step len by (metis not_less)
    then show ?thesis
    proof cases
      case lone
      with rest [of cl1] spec show ?thesis by auto
    next
      case dup
      with rest [OF cl2(1) cl2'] show ?thesis by auto
    next
      case found
      let ?g = "map snd ?ms"
      have g: "good_group (e # es) ?g" "distinct ?g"
        "\<forall>j \<in> set ?g. j = i \<or> (\<not> cl ! j \<and> cl1 ! j \<and> j \<in> fst ` set es)"
        using found_group [OF c es(1,2,4) refl refl found(2,3)] by (auto simp: e vi)
      have used: "cl1[i := True] ! j" if "j \<in> set ?g" for j
        using g(3) that cl2(2) spec es(3) by (metis nth_list_update_eq)
      have "set ?g \<inter> set (concat (?rest (cl1[i := True]))) = {}"
        using rest [OF cl2(1) cl2'] used by (auto simp del: set_map)
      then show ?thesis
        using rest [OF cl2(1) cl2'] g vi(2)
        unfolding found(1) by (auto simp del: set_map set_sort simp: e)
    qed
  qed
qed simp

text \<open>
  A grouping is sound: every group names two or more volumes of one set, in the strict order
  of their positions (so none twice), each group element is a position in the listing whose name
  parses as that volume, and no name is in two groups.
\<close>

theorem group_sound:
  "(\<forall>g \<in> set (volume_group names). 2 \<le> length g \<and>
      (\<exists>vs. list_all2 (\<lambda>j v. j < length names \<and> volume_parse (names ! j) = Some v) g vs \<and>
         sorted_wrt (<) (map index vs) \<and> (\<forall>v \<in> set vs. \<forall>w \<in> set vs. same_set_as v w))) \<and>
    distinct (concat (volume_group names))"
proof -
  let ?es = "enumerate 0 (map volume_parse names)"
  have e: "(j, Some v) \<in> set ?es \<longleftrightarrow> j < length names \<and> volume_parse (names ! j) = Some v" for j v
    by (auto simp: in_set_enumerate_eq)
  have "\<forall>e \<in> set ?es. fst e < length (replicate (length names) False)"
    by (auto simp: in_set_enumerate_eq)
  from group_from_spec [OF this] have "(\<forall>g \<in> set (volume_group names). good_group ?es g) \<and>
      distinct (concat (volume_group names))"
    by (simp add: volume_group_def)
  then show ?thesis unfolding good_group_def e by blast
qed

theorem group_sound_witness:
  "volume_group [''arc.gz.002'', ''arc.gz.001''] = [[1, 0]] \<and>
    (\<exists>vs. list_all2 (\<lambda>j v. j < length [''arc.gz.002'', ''arc.gz.001''] \<and> volume_parse ([''arc.gz.002'', ''arc.gz.001''] ! j) = Some v) [1, 0] vs \<and>
       sorted_wrt (<) (map index vs) \<and> (\<forall>v \<in> set vs. \<forall>w \<in> set vs. same_set_as v w))"
proof -
  let ?ns = "[''arc.gz.002'', ''arc.gz.001'']"
  have p: "volume_parse ''arc.gz.001'' = Some \<lparr>stem = ''arc'', index = 0, scheme = NumberedSuffix ''gz'' 3\<rparr>"
    "volume_parse ''arc.gz.002'' = Some \<lparr>stem = ''arc'', index = 1, scheme = NumberedSuffix ''gz'' 3\<rparr>"
    by (subst volume_parse_numbered,
        simp_all add: digit_char_def alnum_char_def char_lower_def decimal_val_def)+
  have g: "volume_group ?ns = [[1, 0]]"
    by (simp add: volume_group_def p same_set_as_def eq_ignore_ascii_case_def)
  then have "[1, 0] \<in> set (volume_group ?ns)" by simp
  with group_sound [of ?ns] have "\<exists>vs. list_all2 (\<lambda>j v. j < length ?ns \<and> volume_parse (?ns ! j) = Some v) [1, 0] vs \<and>
       sorted_wrt (<) (map index vs) \<and> (\<forall>v \<in> set vs. \<forall>w \<in> set vs. same_set_as v w)"
    by blast
  with g show ?thesis by blast
qed

end
