(* ===== verification/Scan_Verdict.thy ===== *)
theory Scan_Verdict
  imports Exav_Text
begin

text \<open>
  What a scan answers (\<^verbatim>\<open>exav-core/src/lib.rs\<close>, the flags of \<^verbatim>\<open>exav-core/src/engine/mod.rs\<close>, the
  budget of \<^verbatim>\<open>exav-unpack/src/lib.rs\<close>): the verdict of a report, the outcome a walk speaks in, the
  marks a check leaves when it stops short, the budget and its stops, and how these become the
  report a caller sees.

  Sizes and counters are naturals; a sum the code saturates at 64 bits is written with the bound.
\<close>

section \<open>Verdicts\<close>

datatype hit_method = Pattern | Hash | Heuristic | Fuzzy | Static | Bytecode | Yara

datatype verdict =
    V_Clean
  | V_Infected string nat hit_method
  | V_LimitsExceeded string
  | V_Unscannable string
  | V_PasswordProtected string

datatype verdict_category = Cat_Clean | Cat_Infected | Cat_Partial

fun category :: "verdict \<Rightarrow> verdict_category" where
  "category V_Clean = Cat_Clean"
| "category (V_Infected _ _ _) = Cat_Infected"
| "category (V_LimitsExceeded _) = Cat_Partial"
| "category (V_Unscannable _) = Cat_Partial"
| "category (V_PasswordProtected _) = Cat_Partial"

fun status_tag :: "verdict \<Rightarrow> string" where
  "status_tag V_Clean = ''OK''"
| "status_tag (V_Infected _ _ _) = ''FOUND''"
| "status_tag (V_LimitsExceeded _) = ''LIMITS-EXCEEDED''"
| "status_tag (V_Unscannable _) = ''UNSCANNABLE''"
| "status_tag (V_PasswordProtected _) = ''PASSWORD-PROTECTED''"

fun detail :: "verdict \<Rightarrow> string option" where
  "detail V_Clean = None"
| "detail (V_Infected signature _ _) = Some signature"
| "detail (V_LimitsExceeded reason) = Some reason"
| "detail (V_Unscannable reason) = Some reason"
| "detail (V_PasswordProtected reason) = Some reason"

type_synonym finding = "string \<times> string"

record scan_report =
  verdict :: verdict
  findings :: "finding list"

text \<open>
  Control characters in the UTF-8 encoding: U+0000 to U+001F and U+007F are one byte each,
  U+0080 to U+009F the byte 0xC2 and one that carries the value.
\<close>

definition c0_control :: "char \<Rightarrow> bool" where
  "c0_control c = (let n = of_char c :: nat in n < 32 \<or> n = 127)"

definition c1_control :: "char \<Rightarrow> char \<Rightarrow> bool" where
  "c1_control c d = ((of_char c :: nat) = 0xC2 \<and> 0x80 \<le> (of_char d :: nat) \<and> (of_char d :: nat) \<le> 0x9F)"

fun has_control :: "string \<Rightarrow> bool" where
  "has_control [] = False"
| "has_control [c] = c0_control c"
| "has_control (c # d # s) = (c0_control c \<or> c1_control c d \<or> has_control (d # s))"

fun replace_control :: "string \<Rightarrow> string" where
  "replace_control [] = []"
| "replace_control [c] = (if c0_control c then ''_'' else [c])"
| "replace_control (c # d # s) =
     (if c0_control c then CHR ''_'' # replace_control (d # s)
      else if c1_control c d then CHR ''_'' # replace_control s
      else c # replace_control (d # s))"

definition one_line :: "string \<Rightarrow> string" where
  "one_line reason = (if \<not> has_control reason then reason else replace_control reason)"

definition report_clean :: "finding list \<Rightarrow> scan_report" where
  "report_clean fs = \<lparr>verdict = V_Clean, findings = fs\<rparr>"

definition report_infected :: "string \<Rightarrow> nat \<Rightarrow> hit_method \<Rightarrow> finding list \<Rightarrow> scan_report" where
  "report_infected sig off m fs = \<lparr>verdict = V_Infected sig off m, findings = fs\<rparr>"

definition report_limits :: "string \<Rightarrow> finding list \<Rightarrow> scan_report" where
  "report_limits reason fs = \<lparr>verdict = V_LimitsExceeded (one_line reason), findings = fs\<rparr>"

definition report_unscannable :: "string \<Rightarrow> finding list \<Rightarrow> scan_report" where
  "report_unscannable reason fs = \<lparr>verdict = V_Unscannable (one_line reason), findings = fs\<rparr>"

definition report_password_protected :: "string \<Rightarrow> finding list \<Rightarrow> scan_report" where
  "report_password_protected reason fs = \<lparr>verdict = V_PasswordProtected (one_line reason), findings = fs\<rparr>"

definition report_name :: "string \<Rightarrow> bool \<Rightarrow> bool \<Rightarrow> string" where
  "report_name name unofficial suffix =
     (if suffix \<and> unofficial \<and> strip_suffix ''.UNOFFICIAL'' name = None
      then name @ ''.UNOFFICIAL'' else name)"

section \<open>Budget\<close>

datatype limit_kind = MaxScanSize | MaxFileSize | MaxFiles | MaxRecursion | MaxScanTime | Corrupt

record limit_hit =
  reason :: string
  kind :: limit_kind

definition is_corrupt :: "limit_hit \<Rightarrow> bool" where
  "is_corrupt h \<longleftrightarrow> kind h = Corrupt"

definition hit_of_kind :: "limit_kind \<Rightarrow> string \<Rightarrow> limit_hit" where
  "hit_of_kind k r = \<lparr>reason = r, kind = k\<rparr>"

definition hit_new :: "string \<Rightarrow> limit_hit" where
  "hit_new r = \<lparr>reason = r, kind = MaxFileSize\<rparr>"

definition hit_corrupt :: "string \<Rightarrow> limit_hit" where
  "hit_corrupt r = \<lparr>reason = r, kind = Corrupt\<rparr>"

record limits =
  max_recursion :: nat
  max_members :: nat
  max_extracted_bytes :: nat
  max_compression_ratio :: nat
  max_buffer_bytes :: nat
  max_scanned_bytes :: nat
  max_bytecode_memory_bytes :: nat
  max_pe_emulation_steps :: nat

definition default_limits :: limits where
  "default_limits =
     \<lparr>max_recursion = 16, max_members = 100000, max_extracted_bytes = 1024 * 1024 * 1024,
      max_compression_ratio = 1000, max_buffer_bytes = 256 * 1024 * 1024,
      max_scanned_bytes = 10 * 1024 * 1024 * 1024, max_bytecode_memory_bytes = 256 * 1024 * 1024,
      max_pe_emulation_steps = 1000000000\<rparr>"

record budget =
  limits :: limits
  files :: nat
  total_out :: nat
  scanned :: nat
  pe_emulation_steps :: nat
  verify_checksums :: bool

definition budget_new :: "limits \<Rightarrow> budget" where
  "budget_new l =
     \<lparr>limits = l, files = 0, total_out = 0, scanned = 0, pe_emulation_steps = 0, verify_checksums = False\<rparr>"

abbreviation sat64 :: "nat \<Rightarrow> nat" where "sat64 n \<equiv> min (2 ^ 64 - 1) n"

definition charge_scan :: "nat \<Rightarrow> budget \<Rightarrow> (limit_hit + unit) \<times> budget" where
  "charge_scan n b =
     (let b = b\<lparr>scanned := sat64 (scanned b + n)\<rparr> in
      if max_scanned_bytes (limits b) < scanned b
      then (Inl (hit_of_kind MaxScanSize (''scanned bytes > '' @ dec_string (max_scanned_bytes (limits b)))), b)
      else (Inr (), b))"

definition remaining_scan :: "budget \<Rightarrow> nat" where
  "remaining_scan b = max_scanned_bytes (limits b) - scanned b"

definition count_entry :: "budget \<Rightarrow> (limit_hit + unit) \<times> budget" where
  "count_entry b =
     (let b = b\<lparr>files := files b + 1\<rparr> in
      if max_members (limits b) < files b
      then (Inl (hit_of_kind MaxFiles (''file count > '' @ dec_string (max_members (limits b)))), b)
      else (Inr (), b))"

definition reserve :: "budget \<Rightarrow> limit_hit + nat" where
  "reserve b =
     (let remaining = max_extracted_bytes (limits b) - total_out b in
      if remaining = 0
      then Inl (hit_new (''extracted bytes > '' @ dec_string (max_extracted_bytes (limits b)) @
             '', the total a scan may hold (exav's --max-process-bytes sets it)''))
      else Inr (min remaining (max_buffer_bytes (limits b))))"

definition commit :: "nat \<Rightarrow> budget \<Rightarrow> budget" where
  "commit n b = b\<lparr>total_out := sat64 (total_out b + n)\<rparr>"

section \<open>Marks of a check that stopped short\<close>

record scan_flags =
  scan_truncated :: bool
  scan_over_size :: "string option"
  scan_capped :: "string option"

definition no_flags :: scan_flags where
  "no_flags = \<lparr>scan_truncated = False, scan_over_size = None, scan_capped = None\<rparr>"

text \<open>\<^verbatim>\<open>Option::get_or_insert\<close>: the first reason is the one kept.\<close>

definition get_or_insert :: "'a option \<Rightarrow> 'a \<Rightarrow> 'a option" where
  "get_or_insert r x = (case r of None \<Rightarrow> Some x | Some y \<Rightarrow> Some y)"

definition mark_scan_truncated :: "scan_flags \<Rightarrow> scan_flags" where
  "mark_scan_truncated f = f\<lparr>scan_truncated := True\<rparr>"

definition mark_over_size :: "string \<Rightarrow> scan_flags \<Rightarrow> scan_flags" where
  "mark_over_size r f = f\<lparr>scan_truncated := True, scan_over_size := get_or_insert (scan_over_size f) r\<rparr>"

definition mark_capped :: "string \<Rightarrow> scan_flags \<Rightarrow> scan_flags" where
  "mark_capped r f = f\<lparr>scan_truncated := True, scan_capped := get_or_insert (scan_capped f) r\<rparr>"

section \<open>Outcomes\<close>

datatype deep_outcome =
    Clean
  | Infected string nat hit_method
  | Limits string
  | Unscannable string
  | PasswordProtected string

text \<open>Keep the first outcome that does not stop the walk.\<close>

definition defer_outcome :: "deep_outcome \<Rightarrow> deep_outcome \<Rightarrow> deep_outcome" where
  "defer_outcome slot out = (if slot = Clean then out else slot)"

fun limits_alert_name :: "limit_kind \<Rightarrow> string option" where
  "limits_alert_name MaxScanSize = Some ''Heuristics.Limits.Exceeded.MaxScanSize''"
| "limits_alert_name MaxFileSize = Some ''Heuristics.Limits.Exceeded.MaxFileSize''"
| "limits_alert_name MaxFiles = Some ''Heuristics.Limits.Exceeded.MaxFiles''"
| "limits_alert_name MaxRecursion = Some ''Heuristics.Limits.Exceeded.MaxRecursion''"
| "limits_alert_name MaxScanTime = Some ''Heuristics.Limits.Exceeded.MaxScanTime''"
| "limits_alert_name Corrupt = None"

text \<open>\<open>alert\<close> is \<^verbatim>\<open>ScanOptions::alert_exceeds_max\<close>.\<close>

definition limits_outcome :: "bool \<Rightarrow> limit_kind \<Rightarrow> string \<Rightarrow> deep_outcome" where
  "limits_outcome alert k r =
     (case (if alert then limits_alert_name k else None) of
        Some name \<Rightarrow> Infected name 0 Heuristic
      | None \<Rightarrow> Limits r)"

definition outcome_for_hit :: "bool \<Rightarrow> limit_hit \<Rightarrow> deep_outcome" where
  "outcome_for_hit alert h =
     (if is_corrupt h then Unscannable (reason h) else limits_outcome alert (kind h) (reason h))"

definition SEARCH_INCOMPLETE :: string where
  "SEARCH_INCOMPLETE = ''scan budget exhausted, signature search incomplete''"

definition unfinished :: "bool \<Rightarrow> scan_flags \<Rightarrow> deep_outcome option" where
  "unfinished alert f =
     (case scan_over_size f of
        Some r \<Rightarrow> Some (limits_outcome alert MaxFileSize r)
      | None \<Rightarrow>
          (case scan_capped f of
             Some r \<Rightarrow> Some (limits_outcome alert MaxFiles r)
           | None \<Rightarrow> if scan_truncated f then Some (Limits SEARCH_INCOMPLETE) else None))"

lemma limits_outcome_not_clean [simp]: "limits_outcome alert k r \<noteq> Clean"
  by (simp add: limits_outcome_def split: option.split)

lemma outcome_for_hit_not_clean [simp]: "outcome_for_hit alert h \<noteq> Clean"
  by (simp add: outcome_for_hit_def)

lemma unfinished_not_clean [simp]: "unfinished alert f \<noteq> Some Clean"
  by (auto simp: unfinished_def split: option.splits)

function report_of_outcome :: "bool \<Rightarrow> scan_flags \<Rightarrow> deep_outcome \<Rightarrow> finding list \<Rightarrow> scan_report" where
  "report_of_outcome alert f (Infected sig off m) fs = report_infected sig off m fs"
| "report_of_outcome alert f (Limits r) fs = report_limits r fs"
| "report_of_outcome alert f (Unscannable r) fs = report_unscannable r fs"
| "report_of_outcome alert f (PasswordProtected r) fs = report_password_protected r fs"
| "report_of_outcome alert f Clean fs =
     (case unfinished alert f of
        Some out \<Rightarrow> report_of_outcome alert f out fs
      | None \<Rightarrow> report_clean fs)"
  by pat_completeness auto
termination
  by (relation "measure (\<lambda>(_, _, out, _). if out = Clean then 1 else 0)") (auto dest: sym)

definition max_file_size :: "bool \<Rightarrow> nat \<Rightarrow> nat \<Rightarrow> string + string" where
  "max_file_size alert sz mx =
     (case (if alert then limits_alert_name MaxFileSize else None) of
        Some name \<Rightarrow> Inr name
      | None \<Rightarrow> Inl (''file size '' @ dec_string sz @ '' exceeds max-input-bytes '' @ dec_string mx @
                     ''; scanned first '' @ dec_string mx @ '' bytes only''))"

definition max_file_size_report :: "bool \<Rightarrow> nat \<Rightarrow> nat \<Rightarrow> scan_report" where
  "max_file_size_report alert sz mx =
     (case max_file_size alert sz mx of
        Inr name \<Rightarrow> report_infected name 0 Heuristic []
      | Inl r \<Rightarrow> report_limits r [])"

section \<open>Lemmas\<close>

lemma replace_control_hd: "replace_control (c # s) = x # t \<Longrightarrow> x = CHR ''_'' \<or> (x = c \<and> \<not> c0_control c)"
  by (cases s) (auto split: if_splits)

lemma underscore_plain [simp]: "\<not> c0_control CHR ''_''" "\<not> c1_control CHR ''_'' d" "\<not> c1_control c CHR ''_''"
  by (simp_all add: c0_control_def c1_control_def)

lemma replace_control_clean: "\<not> has_control (replace_control s)"
proof (induction s rule: replace_control.induct)
  case (3 c d s)
  have step: "\<not> has_control (c # replace_control (d # s))"
    if "\<not> c0_control c" "\<not> c1_control c d" "\<not> has_control (replace_control (d # s))"
  proof (cases "replace_control (d # s)")
    case (Cons x t)
    with replace_control_hd [OF Cons] that show ?thesis by auto
  qed (use that in simp)
  have us: "\<not> has_control (CHR ''_'' # t)" if "\<not> has_control t" for t
    using that by (cases t) auto
  show ?case using 3 step us by auto
qed auto

lemma one_line_clean: "\<not> has_control (one_line s)"
  by (simp add: one_line_def replace_control_clean)

lemma report_of_outcome_clean:
  "verdict (report_of_outcome alert f out fs) = V_Clean \<longleftrightarrow> out = Clean \<and> unfinished alert f = None"
proof -
  have "verdict (report_of_outcome alert f out' fs) \<noteq> V_Clean" if "out' \<noteq> Clean" for out'
    using that by (cases out')
      (auto simp: report_infected_def report_limits_def report_unscannable_def report_password_protected_def)
  note other = this
  show ?thesis
  proof (cases "out = Clean")
    case True
    have "x \<noteq> Clean" if "unfinished alert f = Some x" for x
      using that unfinished_not_clean [of alert f] by auto
    then show ?thesis using True other by (auto simp: report_clean_def split: option.split)
  qed (use other in simp)
qed

lemma unfinished_None:
  "unfinished alert f = None \<longleftrightarrow> scan_over_size f = None \<and> scan_capped f = None \<and> \<not> scan_truncated f"
  by (auto simp: unfinished_def split: option.splits)

end
