(* ===== verification/Scan_Policy.thy ===== *)
theory Scan_Policy
  imports Scan_Verdict
begin

text \<open>
  What becomes of an object that could not be fully examined, and which detectors and decoders
  run (\<^verbatim>\<open>exav/src/policy.rs\<close>). An \<open>Inl\<close> is the \<^verbatim>\<open>Err\<close> text of a refused setting.
\<close>

section \<open>White space\<close>

text \<open>The UTF-8 encodings of the characters \<^verbatim>\<open>char::is_whitespace\<close> holds of.\<close>

definition WHITE_SPACE :: "string list" where
  "WHITE_SPACE = map (map char_of) ([[9], [10], [11], [12], [13], [32], [0xC2, 0x85], [0xC2, 0xA0],
     [0xE1, 0x9A, 0x80], [0xE2, 0x80, 0xA8], [0xE2, 0x80, 0xA9], [0xE2, 0x80, 0xAF],
     [0xE2, 0x81, 0x9F], [0xE3, 0x80, 0x80]] @ map (\<lambda>n. [0xE2, 0x80, n]) [0x80..<0x8B :: nat])"

function trim_left :: "string list \<Rightarrow> string \<Rightarrow> string" where
  "trim_left ws s =
     (case find (\<lambda>w. w \<noteq> [] \<and> take (length w) s = w) ws of
        Some w \<Rightarrow> trim_left ws (drop (length w) s)
      | None \<Rightarrow> s)"
  by pat_completeness auto
termination
proof (relation "measure (length \<circ> snd)")
  fix ws :: "string list" and s w :: string
  assume "find (\<lambda>w. w \<noteq> [] \<and> take (length w) s = w) ws = Some w"
  then have "w \<noteq> []" "take (length w) s = w" by (auto simp: find_Some_iff)
  then have "s \<noteq> []" "0 < length w" by auto
  then show "((ws, drop (length w) s), ws, s) \<in> measure (length \<circ> snd)" by simp
qed simp

declare trim_left.simps [simp del]

definition trim_start :: "string \<Rightarrow> string" where
  "trim_start s = trim_left WHITE_SPACE s"

definition trim_end :: "string \<Rightarrow> string" where
  "trim_end s = rev (trim_left (map rev WHITE_SPACE) (rev s))"

definition trim :: "string \<Rightarrow> string" where
  "trim s = trim_end (trim_start s)"

section \<open>The statuses of a partial verdict\<close>

datatype partial_status = PS_Partial | PS_Ok | PS_Found | PS_Error

definition status_parse :: "string \<Rightarrow> string + partial_status" where
  "status_parse s =
     (if s = ''partial'' then Inr PS_Partial
      else if s = ''ok'' then Inr PS_Ok
      else if s = ''found'' then Inr PS_Found
      else if s = ''error'' then Inr PS_Error
      else Inl (''unknown status `'' @ s @ ''` (expected partial, ok, found or error)''))"

fun status_display :: "partial_status \<Rightarrow> string" where
  "status_display PS_Partial = ''partial''"
| "status_display PS_Ok = ''ok''"
| "status_display PS_Found = ''found''"
| "status_display PS_Error = ''error''"

definition TAGS :: "(string \<times> string) list" where
  "TAGS = [(''limits-exceeded'', ''LIMITS-EXCEEDED''), (''unscannable'', ''UNSCANNABLE''),
           (''password-protected'', ''PASSWORD-PROTECTED'')]"

text \<open>\<^verbatim>\<open>iter().position\<close>.\<close>

fun index_of :: "('a \<Rightarrow> bool) \<Rightarrow> 'a list \<Rightarrow> nat option" where
  "index_of P [] = None"
| "index_of P (x # xs) = (if P x then Some 0 else map_option Suc (index_of P xs))"

text \<open>One slot per entry of \<open>TAGS\<close>, in that order.\<close>

record partial_as =
  per_tag :: "partial_status list"

definition uniform :: "partial_status \<Rightarrow> partial_as" where
  "uniform st = \<lparr>per_tag = replicate (length TAGS) st\<rparr>"

definition default_partial_as :: partial_as where
  "default_partial_as = uniform PS_Partial"

definition tag_names :: string where
  "tag_names = join_with '', '' (map fst TAGS)"

text \<open>One \<^verbatim>\<open>tag=policy\<close> item of the list.\<close>

definition parse_item :: "string \<Rightarrow> partial_as \<Rightarrow> string + partial_as" where
  "parse_item item out =
     (let item = trim item in
      case split_once CHR ''='' item of
        None \<Rightarrow> Inl (''`'' @ item @ ''` is not a `tag=policy` pair'')
      | Some (name, policy) \<Rightarrow>
          (case index_of (\<lambda>(n, _). eq_ignore_ascii_case n (trim name)) TAGS of
             None \<Rightarrow> Inl (''unknown verdict tag `'' @ trim name @ ''` (tags: '' @ tag_names @ '')'')
           | Some idx \<Rightarrow>
               (case status_parse (trim policy) of
                  Inl e \<Rightarrow> Inl e
                | Inr st \<Rightarrow> Inr (out\<lparr>per_tag := (per_tag out)[idx := st]\<rparr>))))"

fun parse_items :: "string list \<Rightarrow> partial_as \<Rightarrow> string + partial_as" where
  "parse_items [] out = Inr out"
| "parse_items (item # items) out =
     (case parse_item item out of Inl e \<Rightarrow> Inl e | Inr out \<Rightarrow> parse_items items out)"

definition partial_as_parse :: "string \<Rightarrow> string + partial_as" where
  "partial_as_parse s =
     (let s = trim s in
      case status_parse s of
        Inr st \<Rightarrow> Inr (uniform st)
      | Inl _ \<Rightarrow>
          if CHR ''='' \<notin> set s then
            Inl (''expected partial, ok, found, error, or a list like `password-protected=ok` (categories: '' @
                 tag_names @ '')'')
          else parse_items (split_char CHR '','' s) default_partial_as)"

definition for_tag :: "partial_as \<Rightarrow> string \<Rightarrow> partial_status" where
  "for_tag p tag =
     (case index_of (\<lambda>(_, wire). wire = tag) TAGS of
        Some i \<Rightarrow> per_tag p ! i
      | None \<Rightarrow> PS_Partial)"

definition reports_any_as_ok :: "partial_as \<Rightarrow> bool" where
  "reports_any_as_ok p = (PS_Ok \<in> set (per_tag p))"

definition reports_encrypted_as_found :: "partial_as \<Rightarrow> bool" where
  "reports_encrypted_as_found p = (for_tag p ''PASSWORD-PROTECTED'' = PS_Found)"

definition reports_limits_as_found :: "partial_as \<Rightarrow> bool" where
  "reports_limits_as_found p = (for_tag p ''LIMITS-EXCEEDED'' = PS_Found)"

definition partial_as_display :: "partial_as \<Rightarrow> string" where
  "partial_as_display p =
     (if list_all (\<lambda>st. st = per_tag p ! 0) (per_tag p) then status_display (per_tag p ! 0)
      else join_with '','' (map (\<lambda>((name, _), st). name @ ''='' @ status_display st) (zip TAGS (per_tag p))))"

text \<open>The first letter of each word as a capital, the others small.\<close>

fun capitalize :: "string \<Rightarrow> string" where
  "capitalize [] = []"
| "capitalize (c # cs) = char_upper c # map char_lower cs"

definition heuristic_name :: "string \<Rightarrow> string" where
  "heuristic_name tag = ''Heuristics.Exav.'' @ concat (map capitalize (split_char CHR ''-'' tag))"

text \<open>
  The policy applied to a finished report, with the lines written to standard error. A report
  of an object that was fully examined, or that is a detection, is left as it is.
\<close>

definition policy_apply :: "partial_as \<Rightarrow> scan_report \<Rightarrow> scan_report \<times> string list" where
  "policy_apply policy r =
     (if category (verdict r) \<noteq> Cat_Partial then (r, [])
      else
        let tag = status_tag (verdict r) in
        case for_tag policy tag of
          PS_Partial \<Rightarrow> (r, [])
        | PS_Error \<Rightarrow> (r, [])
        | PS_Ok \<Rightarrow>
            (r\<lparr>verdict := V_Clean\<rparr>,
             [''exav: reporting an object that could not be fully examined as OK ('' @ tag @ '': '' @
              (case detail (verdict r) of None \<Rightarrow> [] | Some d \<Rightarrow> d) @ ''), as --partial-as says''])
        | PS_Found \<Rightarrow> (r\<lparr>verdict := V_Infected (heuristic_name tag) 0 Heuristic\<rparr>, []))"

section \<open>Detectors and decoders\<close>

definition DETECTORS :: "string list" where
  "DETECTORS = [''macros'', ''broken'', ''broken-media'', ''partition-intersection'', ''phishing'',
                ''packed'', ''pua'', ''exav-heuristics'']"

definition DECODERS :: "string list" where
  "DECODERS = [''base64'']"

text \<open>
  A set of switches by name, one per entry of the list of names. The two types of the code,
  \<^verbatim>\<open>Detectors\<close> and \<^verbatim>\<open>Decoders\<close>, differ in that list, in the noun of the message and in nothing else.
\<close>

type_synonym switches = "bool list"

definition all_off :: "string list \<Rightarrow> switches" where
  "all_off names = replicate (length names) False"

definition all_on :: "string list \<Rightarrow> switches" where
  "all_on names = replicate (length names) True"

fun switch_on :: "string \<Rightarrow> string list \<Rightarrow> string list \<Rightarrow> switches \<Rightarrow> string + switches" where
  "switch_on noun names [] on = Inr on"
| "switch_on noun names (item # items) on =
     (let item = trim item in
      case index_of (\<lambda>d. eq_ignore_ascii_case d item) names of
        None \<Rightarrow> Inl (''unknown '' @ noun @ '' `'' @ item @ ''` (known: '' @ join_with '', '' names @
                     '', plus `all` and `none`)'')
      | Some idx \<Rightarrow> switch_on noun names items (on[idx := True]))"

definition switches_parse :: "string \<Rightarrow> string list \<Rightarrow> string \<Rightarrow> string + switches" where
  "switches_parse noun names s =
     (let s = trim s in
      if s = ''none'' \<or> s = [] then Inr (all_off names)
      else if s = ''all'' then Inr (all_on names)
      else switch_on noun names (split_char CHR '','' s) (all_off names))"

definition detectors_parse :: "string \<Rightarrow> string + switches" where
  "detectors_parse = switches_parse ''detector'' DETECTORS"

definition decoders_parse :: "string \<Rightarrow> string + switches" where
  "decoders_parse = switches_parse ''decoder'' DECODERS"

definition switch_has :: "string list \<Rightarrow> switches \<Rightarrow> string \<Rightarrow> bool" where
  "switch_has names on name = (case index_of (\<lambda>d. d = name) names of Some i \<Rightarrow> on ! i | None \<Rightarrow> False)"

definition without :: "switches \<Rightarrow> switches \<Rightarrow> switches" where
  "without on other = map2 (\<lambda>a b. a \<and> \<not> b) on other"

end
