(* ===== verification/Scan_Report.thy ===== *)
theory Scan_Report
  imports Scan_Policy
begin

text \<open>
  How a verdict reaches a caller: the counters, lines and exit code of a run
  (\<^verbatim>\<open>exav/src/main.rs\<close>), the reply lines of the daemon (\<^verbatim>\<open>exav/src/daemon.rs\<close>), and how the client
  reads a reply back. The policy in force is an argument, where the code keeps it process-wide.
  Counters are naturals.
\<close>

section \<open>Counters and output\<close>

record totals =
  t_scanned :: nat
  t_infected :: nat
  t_errors :: nat
  t_limits :: nat
  t_dirs :: nat
  t_data_scanned :: nat

definition zero_totals :: totals where
  "zero_totals = \<lparr>t_scanned = 0, t_infected = 0, t_errors = 0, t_limits = 0, t_dirs = 0, t_data_scanned = 0\<rparr>"

record cli =
  quiet :: bool
  json_mode :: bool
  verbose :: bool
  bell :: bool

datatype json =
    JString string
  | JNat nat
  | JBool bool
  | JList "json list"
  | JObject "(string \<times> json) list"

text \<open>
  What is written: a result line (standard output and the log), an error line (standard error and
  the log), a line on standard output alone, the bell, an object.
\<close>

datatype emitted = Line string | Error_line string | Plain string | Bell | Object json

definition exit_code :: "totals \<Rightarrow> nat" where
  "exit_code t =
     (if 0 < t_infected t then 1 else if 0 < t_errors t then 2 else if 0 < t_limits t then 3 else 0)"

fun method_str :: "hit_method \<Rightarrow> string" where
  "method_str Pattern = ''pattern''"
| "method_str Hash = ''hash''"
| "method_str Heuristic = ''heuristic''"
| "method_str Fuzzy = ''fuzzy''"
| "method_str Static = ''static''"
| "method_str Bytecode = ''bytecode''"
| "method_str Yara = ''yara''"

definition or_empty :: "string option \<Rightarrow> string" where
  "or_empty d = (case d of None \<Rightarrow> [] | Some s \<Rightarrow> s)"

fun status_str :: "partial_as \<Rightarrow> verdict_category \<Rightarrow> string \<Rightarrow> string" where
  "status_str p Cat_Clean tag = ''OK''"
| "status_str p Cat_Infected tag = ''FOUND''"
| "status_str p Cat_Partial tag = (if for_tag p tag = PS_Error then ''ERROR'' else ''PARTIAL'')"

section \<open>A local run\<close>

definition emit_json_result :: "partial_as \<Rightarrow> cli \<Rightarrow> string \<Rightarrow> scan_report \<Rightarrow> emitted list" where
  "emit_json_result p c name r =
     (let v = verdict r; cat = category v in
      if cat = Cat_Clean \<and> quiet c then []
      else [Object (JObject (
        [(''file'', JString name), (''status'', JString (status_str p cat (status_tag v)))] @
        (if cat = Cat_Partial then [(''category'', JString (status_tag v))] else []) @
        (case detail v of
           Some d \<Rightarrow> [(if cat = Cat_Infected then ''signature'' else ''reason'', JString d)]
         | None \<Rightarrow> []) @
        (case v of
           V_Infected _ off m \<Rightarrow> [(''method'', JString (method_str m)), (''offset'', JNat off)]
         | _ \<Rightarrow> []) @
        (if findings r \<noteq> [] then
           [(''findings'', JList (map (\<lambda>(l, d). JObject [(''label'', JString l), (''detail'', JString d)])
                                   (findings r)))]
         else [])))])"

definition human_line :: "partial_as \<Rightarrow> cli \<Rightarrow> string \<Rightarrow> verdict \<Rightarrow> emitted list" where
  "human_line p c name v =
     (case category v of
        Cat_Infected \<Rightarrow>
          [Line (case detail v of
             Some d \<Rightarrow> if d \<noteq> [] then name @ '': '' @ d @ '' FOUND'' else name @ '': FOUND''
           | None \<Rightarrow> name @ '': FOUND'')] @
          (case v of
             V_Infected _ _ m \<Rightarrow> if verbose c then [Plain (''  [method] '' @ method_str m)] else []
           | _ \<Rightarrow> []) @
          (if bell c then [Bell] else [])
      | Cat_Partial \<Rightarrow>
          [Line (name @ '': '' @ or_empty (detail v) @ '' '' @ status_tag v @ '' '' @
             (if for_tag p (status_tag v) = PS_Error then ''ERROR'' else ''PARTIAL''))]
      | Cat_Clean \<Rightarrow> if quiet c then [] else [Line (name @ '': OK'')])"

definition count_verdict :: "partial_as \<Rightarrow> verdict \<Rightarrow> totals \<Rightarrow> totals" where
  "count_verdict p v t =
     (case category v of
        Cat_Infected \<Rightarrow> t\<lparr>t_infected := t_infected t + 1\<rparr>
      | Cat_Partial \<Rightarrow>
          if for_tag p (status_tag v) = PS_Error then t\<lparr>t_errors := t_errors t + 1\<rparr>
          else t\<lparr>t_limits := t_limits t + 1\<rparr>
      | Cat_Clean \<Rightarrow> t)"

definition report_result ::
  "partial_as \<Rightarrow> cli \<Rightarrow> string \<Rightarrow> scan_report \<Rightarrow> totals \<Rightarrow> totals \<times> emitted list" where
  "report_result p c name r t =
     (let (r, warned) = policy_apply p r;
          t = count_verdict p (verdict r) t in
      (t, map Error_line warned @
        (if json_mode c then emit_json_result p c name r
         else human_line p c name (verdict r) @
              (if verbose c then map (\<lambda>(l, d). Plain (''  ['' @ l @ ''] '' @ d)) (findings r) else []))))"

definition report_error :: "cli \<Rightarrow> string \<Rightarrow> string \<Rightarrow> totals \<Rightarrow> totals \<times> emitted list" where
  "report_error c name message t =
     (t\<lparr>t_errors := t_errors t + 1\<rparr>,
      if json_mode c then
        [Object (JObject [(''file'', JString name), (''status'', JString ''ERROR''), (''reason'', JString message)])]
      else [Error_line (name @ '': '' @ message @ '' ERROR'')])"

text \<open>The results of the scans of a run, in order: a report, or why there is none.\<close>

fun run_results :: "partial_as \<Rightarrow> cli \<Rightarrow> (string \<times> (string + scan_report)) list \<Rightarrow> totals \<Rightarrow> totals \<times> emitted list" where
  "run_results p c [] t = (t, [])"
| "run_results p c ((name, res) # rest) t =
     (let (t, out) = (case res of Inr r \<Rightarrow> report_result p c name r t | Inl e \<Rightarrow> report_error c name e t);
          (t, more) = run_results p c rest t
      in (t, out @ more))"

section \<open>All matches\<close>

datatype all_match_outcome =
    Complete
  | AM_LimitsExceeded string
  | AM_Unscannable string
  | AM_PasswordProtected string

fun allmatch_verdict :: "all_match_outcome \<Rightarrow> verdict" where
  "allmatch_verdict Complete = V_Clean"
| "allmatch_verdict (AM_LimitsExceeded r) = V_LimitsExceeded r"
| "allmatch_verdict (AM_Unscannable r) = V_Unscannable r"
| "allmatch_verdict (AM_PasswordProtected r) = V_PasswordProtected r"

text \<open>The partial verdict told beside the detections, unless the policy says otherwise.\<close>

definition allmatch_partial :: "partial_as \<Rightarrow> all_match_outcome \<Rightarrow> verdict option" where
  "allmatch_partial p out =
     (if out = Complete then None
      else let v = allmatch_verdict out in
        if for_tag p (status_tag v) = PS_Partial \<or> for_tag p (status_tag v) = PS_Error then Some v else None)"

definition allmatch_result ::
  "partial_as \<Rightarrow> cli \<Rightarrow> string \<Rightarrow> (string \<times> hit_method) list \<Rightarrow> all_match_outcome \<Rightarrow> totals \<Rightarrow> totals \<times> emitted list" where
  "allmatch_result p c name dets out t =
     (if dets = [] then report_result p c name \<lparr>verdict = allmatch_verdict out, findings = []\<rparr> t
      else
        (t\<lparr>t_infected := t_infected t + 1\<rparr>,
         let part = allmatch_partial p out in
         if json_mode c then
           [Object (JObject (
             [(''file'', JString name), (''status'', JString ''FOUND''),
              (''signatures'', JList (map (\<lambda>(sig, m). JObject [(''signature'', JString sig),
                 (''method'', JString (method_str m))]) dets))] @
             (case part of
                Some v \<Rightarrow> [(''partial'', JBool True), (''partial_reasons'', JList [JString (or_empty (detail v))])]
              | None \<Rightarrow> [])))]
         else
           concat (map (\<lambda>(sig, m). Line (name @ '': '' @ sig @ '' FOUND'') #
             (if verbose c then [Plain (''  [method] '' @ method_str m)] else [])) dets) @
           (case part of
              Some v \<Rightarrow> [Line (name @ '': '' @ or_empty (detail v) @ '' '' @ status_tag v @ '' '' @
                 status_str p Cat_Partial (status_tag v))]
            | None \<Rightarrow> []) @
           (if bell c then [Bell] else [])))"

section \<open>The daemon's replies\<close>

definition verdict_line :: "partial_as \<Rightarrow> string \<Rightarrow> scan_report \<Rightarrow> string" where
  "verdict_line p target r =
     (let v = verdict (if category (verdict r) = Cat_Partial then fst (policy_apply p r) else r) in
      case category v of
        Cat_Infected \<Rightarrow> target @ '': '' @ or_empty (detail v) @ '' FOUND''
      | Cat_Clean \<Rightarrow> target @ '': OK''
      | Cat_Partial \<Rightarrow>
          if for_tag p (status_tag v) = PS_Error then target @ '': '' @ or_empty (detail v) @ '' ERROR''
          else target @ '': '' @ or_empty (detail v) @ '' '' @ status_tag v @ '' ERROR'')"

text \<open>A scan of one path: a report, an I/O error, or a contained panic (\<open>None\<close>).\<close>

definition scan_reply :: "partial_as \<Rightarrow> string \<Rightarrow> (string + scan_report) option \<Rightarrow> string" where
  "scan_reply p path res =
     (if path = [] then ''SCAN: missing path ERROR''
      else case res of
        Some (Inr r) \<Rightarrow> verdict_line p path r
      | Some (Inl e) \<Rightarrow> path @ '': '' @ e @ '' ERROR''
      | None \<Rightarrow> path @ '': scan failed (internal error) ERROR'')"

definition ends_with :: "string \<Rightarrow> string \<Rightarrow> bool" where
  "ends_with s suf = (strip_suffix suf s \<noteq> None)"

text \<open>The verdict of a rejoined set, attributed to one of its parts.\<close>

record volume_set_verdict =
  part_name :: string
  set_of :: string
  set_report :: scan_report

function trim_start_matches :: "string \<Rightarrow> string \<Rightarrow> string" where
  "trim_start_matches pre s =
     (if pre = [] then s
      else case strip_prefix pre s of Some r \<Rightarrow> trim_start_matches pre r | None \<Rightarrow> s)"
  by pat_completeness auto
termination
proof (relation "measure (length \<circ> snd)")
  fix pre s r :: string
  assume "pre \<noteq> []" and "strip_prefix pre s = Some r"
  then have "take (length pre) s = pre" "r = drop (length pre) s"
    by (auto simp: strip_prefix_def split: if_splits)
  with \<open>pre \<noteq> []\<close> show "((pre, r), pre, s) \<in> measure (length \<circ> snd)" by (cases s) auto
qed simp

declare trim_start_matches.simps [simp del]

definition set_line :: "partial_as \<Rightarrow> volume_set_verdict \<Rightarrow> (bool \<times> string) option" where
  "set_line p v =
     (let status = trim_start_matches '': '' (verdict_line p [] (set_report v)) in
      if status = ''OK'' then None
      else Some (category (verdict (set_report v)) = Cat_Infected, status @ '' (in '' @ set_of v @ '')''))"

definition tree_line :: "(bool \<times> string) option \<Rightarrow> string \<Rightarrow> string \<Rightarrow> string" where
  "tree_line set_status name line =
     (case set_status of
        Some (found, status) \<Rightarrow>
          if ends_with line '': OK'' \<or> (found \<and> \<not> ends_with line '' FOUND'') then name @ '': '' @ status else line
      | None \<Rightarrow> line)"

section \<open>The client\<close>

definition PARTIAL_TAGS :: "string list" where
  "PARTIAL_TAGS = [''LIMITS-EXCEEDED'', ''UNSCANNABLE'', ''PASSWORD-PROTECTED'']"

definition partial_category :: "string \<Rightarrow> string option" where
  "partial_category line =
     (case strip_suffix '' ERROR'' line of
        None \<Rightarrow> None
      | Some head \<Rightarrow>
          find (\<lambda>t. case strip_suffix t head of Some h \<Rightarrow> ends_with h '' '' | None \<Rightarrow> False) PARTIAL_TAGS)"

definition strip_set_annotation :: "string \<Rightarrow> string" where
  "strip_set_annotation line =
     (case rfind '' (in '' line of
        Some i \<Rightarrow> if ends_with line '')'' then trim_end (take i line) else line
      | None \<Rightarrow> line)"

text \<open>The last \<^verbatim>\<open>": "\<close> of a line.\<close>

definition rsplit_colon :: "string \<Rightarrow> (string \<times> string) option" where
  "rsplit_colon s = (case rfind '': '' s of Some i \<Rightarrow> Some (take i s, drop (i + 2) s) | None \<Rightarrow> None)"

fun split_colon :: "string \<Rightarrow> (string \<times> string) option" where
  "split_colon [] = None"
| "split_colon (c # s) =
     (case strip_prefix '': '' (c # s) of
        Some r \<Rightarrow> Some ([], r)
      | None \<Rightarrow> map_option (\<lambda>(a, b). (c # a, b)) (split_colon s))"

definition json_daemon_reply :: "cli \<Rightarrow> string \<Rightarrow> totals \<Rightarrow> totals \<times> emitted list" where
  "json_daemon_reply c line t =
     (let line = strip_set_annotation line;
          (file, status) = (case rsplit_colon line of Some fs \<Rightarrow> fs | None \<Rightarrow> (line, line))
      in if ends_with line ''FOUND'' then
           (t\<lparr>t_infected := t_infected t + 1\<rparr>,
            [Object (JObject [(''file'', JString file), (''status'', JString ''FOUND''),
              (''signature'', JString (case strip_suffix '' FOUND'' status of Some s \<Rightarrow> s | None \<Rightarrow> status))])])
         else if ends_with line ''ERROR'' then
           (case partial_category line of
              Some tag \<Rightarrow>
                let head = (case strip_suffix '' ERROR'' line of
                       None \<Rightarrow> line
                     | Some h \<Rightarrow> (case strip_suffix tag h of None \<Rightarrow> line | Some g \<Rightarrow> trim_end g));
                    (file, why) = (case split_colon head of Some fr \<Rightarrow> fr | None \<Rightarrow> (head, []))
                in (t\<lparr>t_limits := t_limits t + 1\<rparr>,
                    [Object (JObject [(''file'', JString file), (''status'', JString ''PARTIAL''),
                      (''category'', JString tag), (''reason'', JString why)])])
            | None \<Rightarrow>
                (t\<lparr>t_errors := t_errors t + 1\<rparr>,
                 [Object (JObject [(''file'', JString file), (''status'', JString ''ERROR''),
                   (''reason'', JString (case strip_suffix '' ERROR'' status of Some s \<Rightarrow> s | None \<Rightarrow> status))])]))
         else if quiet c then (t, [])
         else (t, [Object (JObject [(''file'', JString file), (''status'', JString ''OK'')])]))"

definition print_daemon_reply :: "cli \<Rightarrow> string \<Rightarrow> totals \<Rightarrow> totals \<times> emitted list" where
  "print_daemon_reply c line t =
     (let line = trim_end line in
      if json_mode c then json_daemon_reply c line t
      else
        let v = strip_set_annotation line in
        if ends_with v ''FOUND'' then
          (t\<lparr>t_infected := t_infected t + 1\<rparr>, Line line # (if bell c then [Bell] else []))
        else if ends_with v ''ERROR'' then
          (if partial_category v \<noteq> None then
             (t\<lparr>t_limits := t_limits t + 1\<rparr>,
              [Line (case strip_suffix ''ERROR'' line of Some head \<Rightarrow> head @ ''PARTIAL'' | None \<Rightarrow> line)])
           else (t\<lparr>t_errors := t_errors t + 1\<rparr>, [Error_line line]))
        else (t, if quiet c then [] else [Line line]))"

end
