(* ===== verification/Scan_Policy_Props.thy ===== *)
theory Scan_Policy_Props
  imports Scan_Policy
begin

text \<open>
  The policy of \<^verbatim>\<open>--partial-as\<close>: what is printed parses back, and no status other than the
  blocking one is in force for a category unless the setting names it.
\<close>

section \<open>Trimming\<close>

lemma trim_left_hd: "s = [] \<or> hd s \<notin> hd ` set ws \<Longrightarrow> trim_left ws s = s"
proof -
  assume h: "s = [] \<or> hd s \<notin> hd ` set ws"
  have "\<not> (w \<noteq> [] \<and> take (length w) s = w)" if w: "w \<in> set ws" for w
  proof
    assume a: "w \<noteq> [] \<and> take (length w) s = w"
    then have "0 < length w" "hd (take (length w) s) = hd w" by auto
    then have "hd s = hd w" by (simp add: hd_take)
    moreover have "s \<noteq> []" using a by auto
    ultimately
    show False using h w by auto
  qed
  then have "find (\<lambda>w. w \<noteq> [] \<and> take (length w) s = w) ws = None"
    unfolding find_None_iff by blast
  then show ?thesis by (subst trim_left.simps) simp
qed

text \<open>Letters and digits are no part of a white space character.\<close>

definition visible :: "char \<Rightarrow> bool" where
  "visible c = (33 \<le> (of_char c :: nat) \<and> (of_char c :: nat) \<le> 126)"

lemma visible_not_space:
  assumes "visible c"
  shows "c \<notin> hd ` set WHITE_SPACE \<and> c \<notin> hd ` set (map rev WHITE_SPACE)"
proof -
  have all: "\<forall>w \<in> set WHITE_SPACE. \<not> visible (hd w) \<and> \<not> visible (last w) \<and> w \<noteq> []"
    by (auto simp: WHITE_SPACE_def visible_def upt_rec)
  then have "\<forall>w \<in> set (map rev WHITE_SPACE). \<not> visible (hd w)" by (auto simp: hd_rev)
  with all assms show ?thesis by auto
qed

lemma trim_id:
  assumes "s = [] \<or> visible (hd s) \<and> visible (last s)"
  shows "trim s = s"
proof (cases "s = []")
  case True
  then show ?thesis by (simp add: trim_def trim_start_def trim_end_def trim_left_hd)
next
  case False
  then have v: "visible (hd s)" "visible (hd (rev s))" using assms by (auto simp: hd_rev)
  have "trim_start s = s" unfolding trim_start_def using visible_not_space [OF v(1)] by (simp add: trim_left_hd)
  moreover have "trim_end s = s" unfolding trim_end_def using visible_not_space [OF v(2)] by (simp add: trim_left_hd)
  ultimately show ?thesis by (simp add: trim_def)
qed

section \<open>Round trip\<close>

lemma status_parse_display [simp]: "status_parse (status_display st) = Inr st"
  by (cases st) (simp_all add: status_parse_def)

lemma status_parse_Inr: "status_parse s = Inr st \<Longrightarrow> s = status_display st"
  by (auto simp: status_parse_def split: if_splits)

lemma parse_item_tag:
  assumes "i < length TAGS"
  shows "parse_item (fst (TAGS ! i) @ ''='' @ status_display st) out = Inr (out\<lparr>per_tag := (per_tag out)[i := st]\<rparr>)"
proof -
  let ?item = "fst (TAGS ! i) @ ''='' @ status_display st"
  have i: "i = 0 \<or> i = 1 \<or> i = 2" using assms by (auto simp: TAGS_def)
  have "trim ?item = ?item" "trim (fst (TAGS ! i)) = fst (TAGS ! i)" "trim (status_display st) = status_display st"
    using i by (cases st; auto simp: TAGS_def visible_def intro!: trim_id)+
  moreover have "split_once CHR ''='' ?item = Some (fst (TAGS ! i), status_display st)"
    using i by (auto simp: TAGS_def split_once_def)
  moreover have "index_of (\<lambda>(n, _). eq_ignore_ascii_case n (fst (TAGS ! i))) TAGS = Some i"
    using i by (auto simp: TAGS_def eq_ignore_ascii_case_def char_lower_def)
  ultimately show ?thesis by (simp add: parse_item_def)
qed

lemma display_item_no_comma:
  assumes "i < length TAGS"
  shows "CHR '','' \<notin> set (fst (TAGS ! i) @ ''='' @ status_display st)"
proof -
  have i: "i = 0 \<or> i = 1 \<or> i = 2" using assms by (auto simp: TAGS_def)
  then show ?thesis by (cases st) (auto simp: TAGS_def)
qed

lemma three: "length xs = 3 \<longleftrightarrow> (\<exists>a b c. xs = [a, b, c])"
  by (auto simp: length_Suc_conv numeral_3_eq_3)

text \<open>
  C25. The setting \<^verbatim>\<open>--partial-as\<close> survives printing: for every assignment of statuses to the three
  categories, what the log line prints for it is accepted and means the same assignment.
\<close>

theorem partial_as_roundtrip:
  assumes "length (per_tag p) = length TAGS"
  shows "partial_as_parse (partial_as_display p) = Inr p"
proof -
  obtain a b c where p: "p = \<lparr>per_tag = [a, b, c]\<rparr>"
    using assms by (cases p) (auto simp: TAGS_def three eval_nat_numeral length_Suc_conv)
  show ?thesis
  proof (cases "b = a \<and> c = a")
    case True
    have "trim (status_display a) = status_display a"
      by (cases a; simp add: trim_id visible_def)
    then show ?thesis
      using True by (simp add: p partial_as_display_def partial_as_parse_def uniform_def TAGS_def eval_nat_numeral)
  next
    case False
    let ?it = "\<lambda>i st. fst (TAGS ! i) @ ''='' @ status_display st"
    have items: "map (\<lambda>((name, _), st). name @ ''='' @ status_display st) (zip TAGS [a, b, c]) = [?it 0 a, ?it 1 b, ?it 2 c]"
      by (simp add: TAGS_def)
    have "\<not> list_all (\<lambda>st. st = per_tag p ! 0) (per_tag p)" using False by (simp add: p)
    then have "partial_as_display p =
        join_with '','' (map (\<lambda>((name, _), st). name @ ''='' @ status_display st) (zip TAGS (per_tag p)))"
      unfolding partial_as_display_def by (simp only: if_False)
    also have "\<dots> = join_with '','' [?it 0 a, ?it 1 b, ?it 2 c]" by (simp only: p partial_as.simps items)
    finally have d: "partial_as_display p = join_with '','' [?it 0 a, ?it 1 b, ?it 2 c]" (is "_ = ?d") .
    have t: "trim ?d = ?d"
      by (rule trim_id) (cases c; simp add: TAGS_def visible_def)
    have hd: "hd ?d = CHR ''l''" by (simp add: TAGS_def)
    have "status_parse ?d = Inr st \<Longrightarrow> False" for st
    proof -
      assume "status_parse ?d = Inr st"
      then have "?d = status_display st" by (rule status_parse_Inr)
      with hd show False by (cases st) auto
    qed
    then obtain e where e: "status_parse ?d = Inl e" by (cases "status_parse ?d") auto
    have "split_char CHR '','' ?d = [?it 0 a, ?it 1 b, ?it 2 c]"
    proof (rule split_join)
      fix w assume "w \<in> set [?it 0 a, ?it 1 b, ?it 2 c]"
      moreover have "0 < length TAGS" "1 < length TAGS" "2 < length TAGS" by (simp_all add: TAGS_def)
      note this [THEN display_item_no_comma]
      ultimately show "CHR '','' \<notin> set w" unfolding list.set insert_iff empty_iff by blast
    qed simp
    moreover have "parse_items [?it 0 a, ?it 1 b, ?it 2 c] default_partial_as = Inr p"
      using parse_item_tag [of 0 a] parse_item_tag [of 1 b] parse_item_tag [of 2 c]
      by (simp add: p default_partial_as_def uniform_def TAGS_def eval_nat_numeral)
    moreover have "CHR ''='' \<in> set ?d" by simp
    ultimately show ?thesis
      by (simp only: d partial_as_parse_def t e Let_def sum.case) simp
  qed
qed

theorem partial_as_roundtrip_witness:
  "partial_as_parse (partial_as_display \<lparr>per_tag = [PS_Found, PS_Partial, PS_Ok]\<rparr>) =
     Inr \<lparr>per_tag = [PS_Found, PS_Partial, PS_Ok]\<rparr>"
  by (rule partial_as_roundtrip) (simp add: TAGS_def)

section \<open>Nothing is opened unasked\<close>

text \<open>An item that gives the category of index \<open>i\<close> the status \<open>st\<close>.\<close>

definition names_status :: "string \<Rightarrow> nat \<Rightarrow> partial_status \<Rightarrow> bool" where
  "names_status item i st \<longleftrightarrow>
     (\<exists>name policy. split_once CHR ''='' (trim item) = Some (name, policy) \<and>
        eq_ignore_ascii_case (fst (TAGS ! i)) (trim name) \<and> trim policy = status_display st)"

lemma index_of_SomeD: "index_of P xs = Some i \<Longrightarrow> i < length xs \<and> P (xs ! i)"
  by (induction xs arbitrary: i) (auto split: if_splits)

lemma parse_item_Inr:
  assumes "parse_item item out = Inr out'"
  shows "\<exists>i st. i < length TAGS \<and> names_status item i st \<and> out' = out\<lparr>per_tag := (per_tag out)[i := st]\<rparr>"
proof -
  obtain name policy where s: "split_once CHR ''='' (trim item) = Some (name, policy)"
    using assms by (auto simp: parse_item_def Let_def split: option.splits)
  obtain i where i: "index_of (\<lambda>(n, _). eq_ignore_ascii_case n (trim name)) TAGS = Some i"
    using assms s by (auto simp: parse_item_def Let_def split: option.splits)
  obtain st where st: "status_parse (trim policy) = Inr st" "out' = out\<lparr>per_tag := (per_tag out)[i := st]\<rparr>"
    using assms s i by (auto simp: parse_item_def Let_def split: sum.splits)
  have "i < length TAGS" "eq_ignore_ascii_case (fst (TAGS ! i)) (trim name)"
    using index_of_SomeD [OF i] by (auto simp: case_prod_unfold)
  with s st show ?thesis
    unfolding names_status_def by (blast dest: status_parse_Inr)
qed

lemma parse_items_Inr:
  assumes "parse_items items out = Inr p" "length (per_tag out) = length TAGS"
  shows "length (per_tag p) = length TAGS \<and>
    (\<forall>i < length TAGS. per_tag p ! i \<noteq> per_tag out ! i \<longrightarrow> (\<exists>item \<in> set items. names_status item i (per_tag p ! i)))"
  using assms
proof (induction items arbitrary: out)
  case (Cons item items)
  then obtain out' where o: "parse_item item out = Inr out'" "parse_items items out' = Inr p"
    by (auto split: sum.splits)
  obtain j st where j: "j < length TAGS" "names_status item j st" "out' = out\<lparr>per_tag := (per_tag out)[j := st]\<rparr>"
    using parse_item_Inr [OF o(1)] by blast
  have len: "length (per_tag out') = length TAGS" using Cons.prems(2) j(3) by simp
  note ih = Cons.IH [OF o(2) len]
  have "\<exists>it \<in> set (item # items). names_status it i (per_tag p ! i)"
    if i: "i < length TAGS" "per_tag p ! i \<noteq> per_tag out ! i" for i
  proof (cases "per_tag p ! i = per_tag out' ! i")
    case True
    with i have "per_tag out' ! i \<noteq> per_tag out ! i" by simp
    then have "i = j" "per_tag out' ! i = st" using j(3) i(1) Cons.prems(2) by (cases "i = j"; simp)+
    then show ?thesis using j(2) True by simp
  qed (use ih i in auto)
  with ih show ?case by blast
qed simp

text \<open>The policy of a category, and what it does to a report.\<close>

lemma for_tag_slot:
  assumes "category v = Cat_Partial"
  shows "\<exists>i < length TAGS. snd (TAGS ! i) = status_tag v \<and> for_tag p (status_tag v) = per_tag p ! i"
proof -
  have "\<exists>i. index_of (\<lambda>(_, wire). wire = status_tag v) TAGS = Some i"
    using assms by (cases v) (simp_all add: TAGS_def)
  then obtain i where i: "index_of (\<lambda>(_, wire). wire = status_tag v) TAGS = Some i" by blast
  show ?thesis using index_of_SomeD [OF i] i by (auto simp: for_tag_def split_beta)
qed

definition folded :: "partial_status \<Rightarrow> verdict \<Rightarrow> verdict" where
  "folded st v =
     (case st of PS_Ok \<Rightarrow> V_Clean | PS_Found \<Rightarrow> V_Infected (heuristic_name (status_tag v)) 0 Heuristic | _ \<Rightarrow> v)"

lemma policy_apply_folded:
  "category (verdict r) = Cat_Partial \<Longrightarrow>
     verdict (fst (policy_apply p r)) = folded (for_tag p (status_tag (verdict r))) (verdict r)"
  by (simp add: policy_apply_def folded_def Let_def split: partial_status.split)

text \<open>
  C26. A setting opens no hole it does not name. When \<^verbatim>\<open>--partial-as\<close> parses, it is one of the four
  words for every category, or every category whose status is not the blocking default is named
  by an item of the list that gives it that status; in both cases there is one status per
  category, so an unknown category or status is refused and never ignored. And a report is made of it
  as that says: one that is not partial is left as it is, and a partial one takes the status
  at the place of its own category, which makes it clean for \<^verbatim>\<open>ok\<close>, a detection of that category's
  name for \<^verbatim>\<open>found\<close>, and nothing else otherwise.
\<close>

theorem partial_as_opens_only_named:
  assumes "partial_as_parse s = Inr p"
  shows "length (per_tag p) = length TAGS \<and>
    ((\<exists>st. trim s = status_display st \<and> p = uniform st) \<or>
     (\<forall>i < length TAGS. per_tag p ! i = PS_Partial \<or>
        (\<exists>item \<in> set (split_char CHR '','' (trim s)). names_status item i (per_tag p ! i)))) \<and>
    (if category (verdict r) = Cat_Partial then
       \<exists>i < length TAGS. snd (TAGS ! i) = status_tag (verdict r) \<and> for_tag p (status_tag (verdict r)) = per_tag p ! i \<and>
         verdict (fst (policy_apply p r)) = folded (per_tag p ! i) (verdict r)
     else policy_apply p r = (r, []))"
proof -
  have "length (per_tag p) = length TAGS \<and>
    ((\<exists>st. trim s = status_display st \<and> p = uniform st) \<or>
     (\<forall>i < length TAGS. per_tag p ! i = PS_Partial \<or>
        (\<exists>item \<in> set (split_char CHR '','' (trim s)). names_status item i (per_tag p ! i))))"
  proof (cases "status_parse (trim s)")
    case (Inr st)
    with assms have "p = uniform st" by (simp add: partial_as_parse_def Let_def)
    with status_parse_Inr [OF Inr] show ?thesis by (auto simp: uniform_def)
  next
    case (Inl e)
    with assms have "parse_items (split_char CHR '','' (trim s)) default_partial_as = Inr p"
      by (auto simp: partial_as_parse_def Let_def split: if_splits)
    from parse_items_Inr [OF this] show ?thesis
      by (auto simp: default_partial_as_def uniform_def)
  qed
  moreover have "if category (verdict r) = Cat_Partial then
       \<exists>i < length TAGS. snd (TAGS ! i) = status_tag (verdict r) \<and> for_tag p (status_tag (verdict r)) = per_tag p ! i \<and>
         verdict (fst (policy_apply p r)) = folded (per_tag p ! i) (verdict r)
     else policy_apply p r = (r, [])"
  proof (cases "category (verdict r) = Cat_Partial")
    case True
    then show ?thesis using for_tag_slot [OF True, of p] policy_apply_folded [OF True, of p] by metis
  next
    case False
    then show ?thesis by (simp add: policy_apply_def)
  qed
  ultimately show ?thesis by blast
qed

theorem partial_as_opens_only_named_witness:
  "partial_as_parse (partial_as_display \<lparr>per_tag = [PS_Partial, PS_Ok, PS_Partial]\<rparr>) =
      Inr \<lparr>per_tag = [PS_Partial, PS_Ok, PS_Partial]\<rparr> \<and>
   (\<exists>item \<in> set (split_char CHR '','' (trim (partial_as_display \<lparr>per_tag = [PS_Partial, PS_Ok, PS_Partial]\<rparr>))).
      names_status item 1 PS_Ok)"
proof -
  let ?p = "\<lparr>per_tag = [PS_Partial, PS_Ok, PS_Partial]\<rparr>"
  have "parse_items [''limits-exceeded=partial'', ''unscannable=ok'', ''password-protected=partial''] default_partial_as = Inr ?p"
    using parse_item_tag [of 0 PS_Partial] parse_item_tag [of 1 PS_Ok] parse_item_tag [of 2 PS_Partial]
    by (simp add: default_partial_as_def uniform_def TAGS_def eval_nat_numeral)
  moreover have d: "partial_as_display ?p = ''limits-exceeded=partial,unscannable=ok,password-protected=partial''"
    by (simp add: partial_as_display_def TAGS_def)
  moreover have t: "trim (partial_as_display ?p) = partial_as_display ?p"
    unfolding d by (rule trim_id) (simp add: visible_def)
  ultimately have p: "partial_as_parse (partial_as_display ?p) = Inr ?p"
    by (simp add: partial_as_parse_def status_parse_def)
  have "1 < length TAGS" by (simp add: TAGS_def)
  moreover have "?p \<noteq> uniform st" for st by (auto simp: uniform_def TAGS_def)
  ultimately have "per_tag ?p ! 1 = PS_Partial \<or>
      (\<exists>item \<in> set (split_char CHR '','' (trim (partial_as_display ?p))). names_status item 1 (per_tag ?p ! 1))"
    using partial_as_opens_only_named [OF p] by blast
  with p show ?thesis by simp
qed

end
