(* ===== verification/Scan_Report_Props.thy ===== *)
theory Scan_Report_Props
  imports Scan_Report Scan_Policy_Props
begin

text \<open>
  What a caller can rely on: the exit code, the reasons in a report, and that a client counts a
  reply of the daemon as a local run counts the report behind it.
\<close>

section \<open>Reports\<close>

text \<open>
  C20. The report of a walk is clean exactly when the walk found nothing, was not stopped, and no
  check anywhere left a mark that it stopped short; and the reason of a partial report carries no
  control character, so a member name quoted in it cannot start a line of its own.
\<close>

theorem report_honest:
  "(verdict (report_of_outcome alert f out fs) = V_Clean \<longleftrightarrow>
      out = Clean \<and> scan_over_size f = None \<and> scan_capped f = None \<and> \<not> scan_truncated f) \<and>
   (category (verdict (report_of_outcome alert f out fs)) = Cat_Partial \<longrightarrow>
      \<not> has_control (or_empty (detail (verdict (report_of_outcome alert f out fs)))))"
proof -
  have other: "category (verdict (report_of_outcome alert f x fs)) = Cat_Partial \<longrightarrow>
      \<not> has_control (or_empty (detail (verdict (report_of_outcome alert f x fs))))" if "x \<noteq> Clean" for x
    using that by (cases x)
      (auto simp: report_infected_def report_limits_def report_unscannable_def
        report_password_protected_def or_empty_def one_line_clean)
  have "category (verdict (report_of_outcome alert f out fs)) = Cat_Partial \<longrightarrow>
      \<not> has_control (or_empty (detail (verdict (report_of_outcome alert f out fs))))"
  proof (cases "out = Clean")
    case True
    have "x \<noteq> Clean" if "unfinished alert f = Some x" for x
      using that unfinished_not_clean [of alert f] by auto
    then show ?thesis using True other by (auto simp: report_clean_def split: option.split)
  qed (use other in blast)
  then show ?thesis by (simp add: report_of_outcome_clean unfinished_None)
qed

theorem report_honest_witness:
  "verdict (report_of_outcome False no_flags Clean []) = V_Clean \<and>
   \<not> has_control (or_empty (detail (verdict (report_of_outcome False no_flags (Unscannable [CHR ''a'', char_of (10 :: nat)]) []))))"
proof -
  have "verdict (report_of_outcome False no_flags Clean []) = V_Clean"
    using report_honest [of False no_flags Clean "[]"] by (simp add: no_flags_def)
  moreover have "category (verdict (report_of_outcome False no_flags (Unscannable [CHR ''a'', char_of (10 :: nat)]) [])) = Cat_Partial"
    by (simp add: report_unscannable_def)
  ultimately show ?thesis
    using report_honest [of False no_flags "Unscannable [CHR ''a'', char_of (10 :: nat)]" "[]"] by blast
qed

section \<open>The exit code\<close>

text \<open>What one result stands for once the policy has been asked, as an exit code.\<close>

fun settled_class :: "partial_as \<Rightarrow> string + scan_report \<Rightarrow> nat" where
  "settled_class p (Inl e) = 2"
| "settled_class p (Inr r) =
     (case category (verdict r) of
        Cat_Clean \<Rightarrow> 0
      | Cat_Infected \<Rightarrow> 1
      | Cat_Partial \<Rightarrow>
          (case for_tag p (status_tag (verdict r)) of PS_Partial \<Rightarrow> 3 | PS_Ok \<Rightarrow> 0 | PS_Found \<Rightarrow> 1 | PS_Error \<Rightarrow> 2))"

definition count_class :: "nat \<Rightarrow> totals \<Rightarrow> totals" where
  "count_class k t =
     (if k = 1 then t\<lparr>t_infected := t_infected t + 1\<rparr>
      else if k = 2 then t\<lparr>t_errors := t_errors t + 1\<rparr>
      else if k = 3 then t\<lparr>t_limits := t_limits t + 1\<rparr>
      else t)"

lemma count_report: "fst (report_result p c name r t) = count_class (settled_class p (Inr r)) t"
  by (cases "for_tag p (status_tag (verdict r))"; cases "category (verdict r)")
    (auto simp: report_result_def policy_apply_def count_verdict_def count_class_def Let_def)

lemma run_results_step:
  "fst (run_results p c ((name, res) # rest) t) = fst (run_results p c rest (count_class (settled_class p res) t))"
proof (cases res)
  case (Inl e)
  have "fst (report_error c name e t) = count_class (settled_class p (Inl e)) t"
    by (simp add: report_error_def count_class_def)
  then show ?thesis
    by (cases "report_error c name e t")
      (simp add: Inl split: prod.split)
next
  case (Inr r)
  show ?thesis
    using count_report [of p c name r t]
    by (cases "report_result p c name r t") (simp add: Inr split: prod.split del: settled_class.simps)
qed

lemma run_results_count:
  "fst (run_results p c results t) = fold count_class (map (settled_class p \<circ> snd) results) t"
proof (induction results arbitrary: t)
  case (Cons x results)
  obtain name res where x: "x = (name, res)" by (cases x)
  show ?case unfolding x run_results_step Cons.IH by (simp add: comp_def)
qed simp

lemma fold_count_class:
  "t_infected (fold count_class ks t) = t_infected t + length (filter ((=) 1) ks)"
  "t_errors (fold count_class ks t) = t_errors t + length (filter ((=) 2) ks)"
  "t_limits (fold count_class ks t) = t_limits t + length (filter ((=) 3) ks)"
  by (induction ks arbitrary: t) (auto simp: count_class_def)

lemma exit_code_fold:
  "exit_code (fold count_class ks zero_totals) =
     (if 1 \<in> set ks then 1 else if 2 \<in> set ks then 2 else if 3 \<in> set ks then 3 else 0)"
proof -
  have "0 < length (filter ((=) k) ks) \<longleftrightarrow> k \<in> set ks" for k :: nat
    by (induction ks) auto
  then show ?thesis
    by (simp add: exit_code_def fold_count_class zero_totals_def del: length_greater_0_conv)
qed

text \<open>
  C23. A run exits 1 exactly when some result is a detection or is folded into one by the policy;
  else 2 exactly when something failed or the policy calls a result an error; else 3 exactly when
  an object was not fully examined and the policy does not pass it; and 0 otherwise, that is, only
  when every object was examined to the end and is clean or is passed by name.
\<close>

theorem exit_code_spec:
  "exit_code (fst (run_results p c results zero_totals)) =
     (let ks = map (settled_class p \<circ> snd) results in
      if 1 \<in> set ks then 1 else if 2 \<in> set ks then 2 else if 3 \<in> set ks then 3 else 0)"
  unfolding run_results_count Let_def by (rule exit_code_fold)

section \<open>Reading a reply back\<close>

text \<open>What the client counts a line as.\<close>

definition line_class :: "string \<Rightarrow> nat" where
  "line_class v =
     (if ends_with v ''FOUND'' then 1
      else if ends_with v ''ERROR'' then (if partial_category v \<noteq> None then 3 else 2)
      else 0)"

lemma client_counts:
  "fst (print_daemon_reply c line t) = count_class (line_class (strip_set_annotation (trim_end line))) t"
  by (auto simp: print_daemon_reply_def json_daemon_reply_def line_class_def count_class_def Let_def
      split: option.splits prod.splits)

lemma trim_end_visible: "s \<noteq> [] \<Longrightarrow> visible (last s) \<Longrightarrow> trim_end s = s"
  using visible_not_space [of "hd (rev s)"] by (simp add: trim_end_def trim_left_hd hd_rev)

lemma ends_with_append [simp]: "ends_with (s @ suf) suf"
  by (simp add: ends_with_def)

lemma ends_with_iff: "ends_with s suf \<longleftrightarrow> (\<exists>r. s = r @ suf)"
  by (auto simp: ends_with_def dest: strip_suffix_SomeD)

lemma ends_with_last: "suf \<noteq> [] \<Longrightarrow> s \<noteq> [] \<Longrightarrow> last s \<noteq> last suf \<Longrightarrow> \<not> ends_with s suf"
  by (simp add: ends_with_def strip_suffix_last)

lemma tag_in_tags: "category v = Cat_Partial \<Longrightarrow> status_tag v \<in> set PARTIAL_TAGS"
  by (cases v) (auto simp: PARTIAL_TAGS_def)

lemma partial_category_tag:
  assumes "t \<in> set PARTIAL_TAGS"
  shows "partial_category (x @ '' '' @ t @ '' ERROR'') \<noteq> None"
proof -
  let ?P = "\<lambda>t'. case strip_suffix t' (x @ '' '' @ t) of Some h \<Rightarrow> ends_with h '' '' | None \<Rightarrow> False"
  have e: "x @ '' '' @ t @ '' ERROR'' = (x @ '' '' @ t) @ '' ERROR''" by simp
  have "strip_suffix t (x @ '' '' @ t) = Some (x @ '' '')"
    using strip_suffix_append [of t "x @ '' ''"] by simp
  then have "?P t" using ends_with_append [of x "'' ''"] by simp
  then have "find ?P PARTIAL_TAGS \<noteq> None" using assms by (auto simp: find_None_iff)
  then show ?thesis unfolding partial_category_def e strip_suffix_append by (simp only: option.case not_False_eq_True)
qed

text \<open>A reason that ends in the word of a category reads as that category.\<close>

definition ends_in_tag :: "string \<Rightarrow> bool" where
  "ends_in_tag d \<longleftrightarrow> (\<exists>t \<in> set PARTIAL_TAGS. ends_with d t)"

lemma partial_category_none:
  assumes "\<not> ends_in_tag d"
  shows "partial_category (x @ '' '' @ d @ '' ERROR'') = None"
proof -
  have "strip_suffix t (x @ '' '' @ d) = None" if t: "t \<in> set PARTIAL_TAGS" for t
  proof (rule ccontr)
    assume "strip_suffix t (x @ '' '' @ d) \<noteq> None"
    then obtain h where h: "x @ '' '' @ d = h @ t" by (auto dest: strip_suffix_SomeD)
    have sp: "CHR '' '' \<notin> set t" "t \<noteq> []" using t by (auto simp: PARTIAL_TAGS_def)
    from h consider us where "(x @ '' '') @ us = h" "d = us @ t" | us where "x @ '' '' = h @ us" "us @ d = t"
      unfolding append_assoc [symmetric] append_eq_append_conv2 by auto
    then show False
    proof cases
      case 1
      then have "ends_with d t" by (auto simp: ends_with_iff)
      with assms t show False by (auto simp: ends_in_tag_def)
    next
      case 2
      then have "us = [] \<or> last us = CHR '' ''"
        by (metis last_appendR last_snoc)
      moreover have "us = [] \<Longrightarrow> False"
        using 2 assms t by (auto simp: ends_in_tag_def ends_with_iff)
      ultimately have "CHR '' '' \<in> set us" by (metis last_in_set)
      with 2(2) sp(1) show False by auto
    qed
  qed
  then have "find (\<lambda>t. case strip_suffix t (x @ '' '' @ d) of Some h \<Rightarrow> ends_with h '' '' | None \<Rightarrow> False) PARTIAL_TAGS = None"
    by (auto simp: find_None_iff)
  moreover have "x @ '' '' @ d @ '' ERROR'' = (x @ '' '' @ d) @ '' ERROR''" by simp
  ultimately show ?thesis unfolding partial_category_def by (simp only: strip_suffix_append option.case)
qed

lemma class_ok: "line_class (x @ ''OK'') = 0"
  unfolding line_class_def using ends_with_last [of "''FOUND''" "x @ ''OK''"] ends_with_last [of "''ERROR''" "x @ ''OK''"]
  by simp

lemma class_found: "line_class (x @ ''FOUND'') = 1"
  unfolding line_class_def by (simp only: ends_with_append if_True)

lemma class_error:
  "line_class (x @ ''ERROR'') = (if partial_category (x @ ''ERROR'') \<noteq> None then 3 else 2)"
  unfolding line_class_def using ends_with_last [of "''FOUND''" "x @ ''ERROR''"] by simp

text \<open>A reply that carries no set annotation is read as it stands.\<close>

lemma plain_reply:
  assumes "w \<noteq> []" "visible (last w)" "last w \<noteq> CHR '')''"
  shows "strip_set_annotation (trim_end (x @ w)) = x @ w"
proof -
  have "trim_end (x @ w) = x @ w" using assms by (intro trim_end_visible) auto
  moreover have "\<not> ends_with (x @ w) '')''" using assms by (intro ends_with_last) auto
  ultimately show ?thesis by (simp add: strip_set_annotation_def split: option.split)
qed

text \<open>
  C22. The daemon's client counts what a local run counts. For every report, policy and target,
  reading the reply line back (as text or with \<^verbatim>\<open>--json\<close>) changes the counters exactly as reporting
  the same object locally does, so the exit code does not depend on which end held the database.
  The one exception is in the hypothesis: a policy that calls the category an error, and a reason
  that itself ends in the word of a category.
\<close>

theorem reply_read_back:
  assumes "for_tag p (status_tag (verdict r)) = PS_Error \<longrightarrow> \<not> ends_in_tag (or_empty (detail (verdict r)))"
  shows "fst (print_daemon_reply c (verdict_line p target r) t) = fst (report_result p c' name r t)"
proof -
  let ?l = "verdict_line p target r" and ?v = "verdict r"
  have vis: "visible CHR ''K''" "visible CHR ''D''" "visible CHR ''R''" by (simp_all add: visible_def)
  have "line_class (strip_set_annotation (trim_end ?l)) = settled_class p (Inr r)"
  proof (cases "category ?v")
    case Cat_Clean
    then have l: "?l = (target @ '': '') @ ''OK''" by (simp add: verdict_line_def)
    show ?thesis unfolding l by (subst plain_reply) (simp_all add: vis class_ok Cat_Clean del: append_assoc)
  next
    case Cat_Infected
    then have l: "?l = (target @ '': '' @ or_empty (detail ?v) @ '' '') @ ''FOUND''" by (simp add: verdict_line_def)
    show ?thesis unfolding l by (subst plain_reply) (simp_all add: vis class_found Cat_Infected del: append_assoc)
  next
    case Cat_Partial
    note part = this
    show ?thesis
    proof (cases "for_tag p (status_tag ?v)")
      case PS_Partial
      then have l: "?l = (target @ '': '' @ or_empty (detail ?v) @ '' '' @ status_tag ?v @ '' '') @ ''ERROR''"
        using part by (simp add: verdict_line_def policy_apply_def Let_def)
      have "partial_category ((target @ '': '' @ or_empty (detail ?v) @ '' '' @ status_tag ?v @ '' '') @ ''ERROR'') \<noteq> None"
        using partial_category_tag [OF tag_in_tags [OF part], of "target @ '': '' @ or_empty (detail ?v)"] by simp
      then show ?thesis unfolding l
        by (subst plain_reply) (simp_all add: vis class_error part PS_Partial del: append_assoc)
    next
      case PS_Ok
      then have l: "?l = (target @ '': '') @ ''OK''"
        using part by (simp add: verdict_line_def policy_apply_def Let_def)
      show ?thesis unfolding l by (subst plain_reply) (simp_all add: vis class_ok part PS_Ok del: append_assoc)
    next
      case PS_Found
      then have l: "?l = (target @ '': '' @ heuristic_name (status_tag ?v) @ '' '') @ ''FOUND''"
        using part by (simp add: verdict_line_def policy_apply_def Let_def or_empty_def)
      show ?thesis unfolding l by (subst plain_reply) (simp_all add: vis class_found part PS_Found del: append_assoc)
    next
      case PS_Error
      then have l: "?l = (target @ '': '' @ or_empty (detail ?v) @ '' '') @ ''ERROR''"
        using part by (simp add: verdict_line_def policy_apply_def Let_def)
      have "partial_category ((target @ '': '' @ or_empty (detail ?v) @ '' '') @ ''ERROR'') = None"
        using partial_category_none [of "or_empty (detail ?v)" "target @ '':''"] assms PS_Error by simp
      then show ?thesis unfolding l
        by (subst plain_reply) (simp_all add: vis class_error part PS_Error del: append_assoc)
    qed
  qed
  then show ?thesis by (simp only: client_counts count_report)
qed

theorem reply_read_back_witness:
  "let r = \<lparr>verdict = V_Unscannable ''bad data'', findings = []\<rparr>; p = uniform PS_Error;
       c = \<lparr>quiet = False, json_mode = True, verbose = False, bell = False\<rparr> in
   fst (print_daemon_reply c (verdict_line p ''a.bin'' r) zero_totals) =
     fst (report_result p c ''a.bin'' r zero_totals)"
  unfolding Let_def
  by (rule reply_read_back) (auto simp: ends_in_tag_def ends_with_def strip_suffix_def PARTIAL_TAGS_def or_empty_def)

section \<open>Set annotations\<close>

lemma rfind_NoneD: "rfind p s = None \<Longrightarrow> i \<le> length s \<Longrightarrow> take (length p) (drop i s) \<noteq> p"
  by (simp add: rfind_def find_None_iff del: upt_Suc)

text \<open>The annotation is the last one of its line when the name in it, and the space before it, hold no other.\<close>

lemma rfind_annotation:
  assumes "rfind '' (in '' ('' '' @ b) = None"
  shows "rfind '' (in '' (x @ '' (in '' @ b @ '')'') = Some (length x)"
proof (rule rfind_append)
  fix i assume i: "length x < i"
  let ?s = "x @ '' (in '' @ b @ '')''" and ?m = "'' (in ''"
  show "take (length ?m) (drop i ?s) \<noteq> ?m"
  proof
    assume t: "take (length ?m) (drop i ?s) = ?m"
    consider "i = length x + 1" | "i = length x + 2" | "i = length x + 3" | "length x + 4 \<le> i"
      using i by linarith
    then show False
    proof cases
      case 4
      define k where "k = i - length x - 4"
      then have "i = length x + 4 + k" using 4 by simp
      moreover have "drop (length x + 4) ?s = '' '' @ b @ '')''" by (simp add: numeral_eq_Suc)
      ultimately have "drop i ?s = drop k ('' '' @ b @ '')'')" by (metis drop_drop add.commute)
      then have d: "take 5 (drop k (('' '' @ b) @ '')'')) = ?m" using t by (simp add: numeral_eq_Suc)
      have "length (take 5 (drop k (('' '' @ b) @ '')''))) = 5" unfolding d by simp
      then have k: "k + 5 \<le> length b + 2" by simp
      have "k + 5 \<noteq> length b + 2"
      proof
        assume e: "k + 5 = length b + 2"
        then have "last (take 5 (drop k (('' '' @ b) @ '')''))) = CHR '')''" by (simp add: last_drop)
        then show False unfolding d by simp
      qed
      then have le: "k + 5 \<le> length ('' '' @ b)" using k by simp
      have "take 5 (drop k u) = y" if "take 5 (drop k (u @ z)) = y" "k + 5 \<le> length u" for u y z :: string
        using that by simp
      from this [OF d le] have "take 5 (drop k ('' '' @ b)) = ?m" .
      then show False using rfind_NoneD [OF assms, of k] k by (simp add: numeral_eq_Suc)
    qed (use t in simp_all)
  qed
qed

lemma annotated_reply:
  assumes "rfind '' (in '' ('' '' @ b) = None" "x \<noteq> []" "visible (last x)"
  shows "strip_set_annotation (trim_end (x @ '' (in '' @ b @ '')'')) = x"
proof -
  let ?l = "x @ '' (in '' @ b @ '')''"
  have "trim_end ?l = ?l" by (rule trim_end_visible) (simp_all add: visible_def)
  moreover have "rfind '' (in '' ?l = Some (length x)" by (rule rfind_annotation [OF assms(1)])
  moreover have "ends_with ?l '')''" using ends_with_append [of "x @ '' (in '' @ b" "'')''"] by simp
  ultimately show ?thesis using trim_end_visible [OF assms(2,3)] by (simp add: strip_set_annotation_def)
qed

text \<open>What the daemon writes for a part that is clean alone, in a set that is infected.\<close>

lemma trim_start_matches_found: "\<exists>y. trim_start_matches '': '' (x @ ''FOUND'') = y @ ''FOUND''"
proof (induction x rule: length_induct)
  case (1 x)
  show ?case
  proof (cases "strip_prefix '': '' (x @ ''FOUND'')")
    case None
    then show ?thesis by (simp add: trim_start_matches.simps)
  next
    case (Some r)
    then obtain x' where "x = '': '' @ x'" "r = x' @ ''FOUND''"
      by (cases x; cases "tl x") (auto simp: strip_prefix_def split: if_splits)
    then show ?thesis using 1 Some by (simp add: trim_start_matches.simps)
  qed
qed

lemma infected_part_line:
  assumes "verdict (set_report v) = V_Infected sig off m"
  shows "\<exists>y. tree_line (set_line p v) n (n @ '': OK'') = (n @ '': '' @ y @ ''FOUND'') @ '' (in '' @ set_of v @ '')''"
proof -
  obtain y where y: "trim_start_matches '': '' (verdict_line p [] (set_report v)) = y @ ''FOUND''"
    using trim_start_matches_found [of "'': '' @ sig @ '' ''"] assms by (auto simp: verdict_line_def or_empty_def)
  have "y @ ''FOUND'' \<noteq> ''OK''" by (cases y; cases "tl y") auto
  then have "set_line p v = Some (True, (y @ ''FOUND'') @ '' (in '' @ set_of v @ '')'')"
    using assms y by (simp add: set_line_def Let_def)
  then show ?thesis by (simp add: tree_line_def)
qed

text \<open>
  C27. A detection in a rejoined set can be lost on the way to the client. For a part that is clean
  alone, in a set whose verdict is a detection, the daemon writes the line of the set under the part's
  name, with the name of the set, \<^verbatim>\<open>(in <set>)\<close>, and the client cuts the line at the last \<^verbatim>\<open>" (in "\<close> to
  classify it. That is right for every set name that does not hold that text itself, alone or
  with the space before the name: the detection is counted, whatever the policy. But a set name that
  does hold it, as a file called \<^verbatim>\<open>a (in b).7z.001\<close> gives, leaves the cut inside the name: unless what is
  before the cut ends in a space or in the last letter of a status word, nothing is counted, and a
  run with that as its only result exits 0.
\<close>

theorem annotated_detection:
  assumes "verdict (set_report v) = V_Infected sig off m"
  shows "(rfind '' (in '' ('' '' @ set_of v) = None \<longrightarrow>
      fst (print_daemon_reply c (tree_line (set_line p v) n (n @ '': OK'')) t) = t\<lparr>t_infected := t_infected t + 1\<rparr>) \<and>
   (set_of v = a @ '' (in '' @ b \<and> rfind '' (in '' ('' '' @ b) = None \<and>
      a \<noteq> [] \<and> visible (last a) \<and> last a \<noteq> CHR ''D'' \<and> last a \<noteq> CHR ''R'' \<longrightarrow>
      exit_code (fst (print_daemon_reply c (tree_line (set_line p v) n (n @ '': OK'')) zero_totals)) = 0)"
proof -
  obtain y where l: "tree_line (set_line p v) n (n @ '': OK'') = (n @ '': '' @ y @ ''FOUND'') @ '' (in '' @ set_of v @ '')''"
    using infected_part_line [OF assms] by blast
  show ?thesis
  proof (intro conjI impI)
    let ?x = "n @ '': '' @ y @ ''FOUND''"
    assume "rfind '' (in '' ('' '' @ set_of v) = None"
    then have "strip_set_annotation (trim_end (?x @ '' (in '' @ set_of v @ '')'')) = ?x"
      by (rule annotated_reply) (simp_all add: visible_def)
    moreover have "line_class ?x = 1" using class_found [of "n @ '': '' @ y"] by simp
    ultimately show "fst (print_daemon_reply c (tree_line (set_line p v) n (n @ '': OK'')) t) =
        t\<lparr>t_infected := t_infected t + 1\<rparr>"
      unfolding l client_counts by (simp add: count_class_def)
  next
    let ?x = "n @ '': '' @ y @ ''FOUND (in '' @ a"
    assume h: "set_of v = a @ '' (in '' @ b \<and> rfind '' (in '' ('' '' @ b) = None \<and>
        a \<noteq> [] \<and> visible (last a) \<and> last a \<noteq> CHR ''D'' \<and> last a \<noteq> CHR ''R''"
    then have "strip_set_annotation (trim_end (?x @ '' (in '' @ b @ '')'')) = ?x"
      by (intro annotated_reply) auto
    moreover have "line_class ?x = 0"
      using ends_with_last [of "''FOUND''" ?x] ends_with_last [of "''ERROR''" ?x] h by (simp add: line_class_def)
    ultimately show "exit_code (fst (print_daemon_reply c (tree_line (set_line p v) n (n @ '': OK'')) zero_totals)) = 0"
      unfolding l client_counts using h by (simp add: count_class_def exit_code_def zero_totals_def)
  qed
qed

theorem annotated_detection_witness:
  "let c = \<lparr>quiet = False, json_mode = False, verbose = False, bell = False\<rparr>;
       v = (\<lambda>st. \<lparr>part_name = st @ ''.001'', set_of = st, set_report = \<lparr>verdict = V_Infected ''Eicar'' 0 Pattern, findings = []\<rparr>\<rparr>) in
   exit_code (fst (print_daemon_reply c (tree_line (set_line default_partial_as (v ''a.7z'')) ''/d/a.7z.001'' ''/d/a.7z.001: OK'') zero_totals)) = 1 \<and>
   exit_code (fst (print_daemon_reply c
     (tree_line (set_line default_partial_as (v ''a (in b).7z'')) ''/d/a (in b).7z.001'' ''/d/a (in b).7z.001: OK'') zero_totals)) = 0"
proof -
  let ?c = "\<lparr>quiet = False, json_mode = False, verbose = False, bell = False\<rparr>"
    and ?v = "\<lambda>st. \<lparr>part_name = st @ ''.001'', set_of = st, set_report = \<lparr>verdict = V_Infected ''Eicar'' 0 Pattern, findings = []\<rparr>\<rparr>"
  have inf: "verdict (set_report (?v st)) = V_Infected ''Eicar'' 0 Pattern" for st by simp
  have set: "set_of (?v st) = st" for st by simp
  have plain: "rfind '' (in '' ('' '' @ ''a.7z'') = None" by (simp add: rfind_def)
  have marked: "''a (in b).7z'' = ''a'' @ '' (in '' @ ''b).7z''" "rfind '' (in '' ('' '' @ ''b).7z'') = None"
    "visible (last ''a'')" "last ''a'' \<noteq> CHR ''D''" "last ''a'' \<noteq> CHR ''R''" "''a'' \<noteq> []"
    by (simp_all add: rfind_def visible_def)
  have one: "fst (print_daemon_reply ?c (tree_line (set_line default_partial_as (?v ''a.7z'')) ''/d/a.7z.001'' (''/d/a.7z.001'' @ '': OK'')) zero_totals) =
      zero_totals\<lparr>t_infected := t_infected zero_totals + 1\<rparr>"
    using annotated_detection [OF inf] plain unfolding set by blast
  have two: "exit_code (fst (print_daemon_reply ?c
      (tree_line (set_line default_partial_as (?v ''a (in b).7z'')) ''/d/a (in b).7z.001'' (''/d/a (in b).7z.001'' @ '': OK'')) zero_totals)) = 0"
    using annotated_detection [OF inf] marked unfolding set by blast
  have l: "''/d/a.7z.001'' @ '': OK'' = ''/d/a.7z.001: OK''" "''/d/a (in b).7z.001'' @ '': OK'' = ''/d/a (in b).7z.001: OK''" by simp_all
  show ?thesis unfolding Let_def using one two unfolding l by (simp only: exit_code_def) simp
qed

end
