(* ===== verification/Scan_Types.thy ===== *)
theory Scan_Types
  imports Exav_Text
begin

text \<open>
  The types the scan walk dispatches on: what an object is (\<^verbatim>\<open>FileType\<close>), the container format its
  members are read with (\<^verbatim>\<open>unpack::Format\<close>), the type a container lends its members (\<^verbatim>\<open>ClType\<close>),
  the tables between them (\<^verbatim>\<open>exav-core/src/lib.rs\<close>, \<^verbatim>\<open>filetype.rs\<close>), the bytes of an object, and the
  text tests that decide which analyses apply.
\<close>

section \<open>Enumerations\<close>

datatype (plugins only: size) file_type =
    FT_Pe | FT_Elf | FT_MachO | FT_Zip | FT_Gzip | FT_Bzip2 | FT_Xz | FT_Tar | FT_Pdf | FT_Ole
    | FT_Email | FT_Rtf | FT_SevenZip | FT_Rar | FT_Cab | FT_Chm | FT_Iso | FT_Lha | FT_Arj | FT_Ar
    | FT_Cpio | FT_Xar | FT_Wim | FT_Lz4 | FT_Arc | FT_Ace | FT_Alz | FT_Egg | FT_Hwp3
    | FT_IshieldMsi | FT_IshieldCab | FT_IshieldZ | FT_CryptFf | FT_Ext | FT_Lrzip | FT_Zoo
    | FT_AppleSingle | FT_StuffIt | FT_Fat | FT_Inno | FT_Ntfs | FT_Zstd | FT_Lzip | FT_Uuencode
    | FT_Xdp | FT_Szdd | FT_Tnef | FT_Swf | FT_Graphics | FT_Binhex | FT_Lnk | FT_Partition | FT_Pyc
    | FT_Nsis | FT_Machofat | FT_Sfx | FT_Autoit | FT_OneNote | FT_JavaClass | FT_AiModel
    | FT_Screnc | FT_Script | FT_Html | FT_Text | FT_Unknown | FT_HtmlView | FT_TextView | FT_Exfat
    | FT_Squashfs | FT_Cramfs | FT_Romfs | FT_Erofs

datatype (plugins only: size) format =
    F_Zip | F_Gzip | F_Tar | F_Bzip2 | F_Xz | F_Cab | F_Chm | F_Ole | F_Pdf | F_Email | F_SevenZip
    | F_Iso | F_Lha | F_Arj | F_Rar | F_Upx | F_Ar | F_Cpio | F_Xar | F_Dmg | F_Vhd | F_Lzw
    | F_Qcow2 | F_Vmdk | F_Vhdx | F_Wim | F_Lz4 | F_Arc | F_Ace | F_StuffIt | F_Alz | F_Egg | F_Hwp3
    | F_IshieldMsi | F_IshieldCab | F_IshieldZ | F_CryptFf | F_Ext | F_Lrzip | F_Zoo | F_AppleSingle
    | F_Fat | F_Inno | F_Ntfs | F_Zstd | F_Lzip | F_Lzma | F_Rpm | F_Uuencode | F_Xdp | F_Szdd
    | F_Tnef | F_Swf | F_Binhex | F_Lnk | F_Partition | F_Pyc | F_Nsis | F_Machofat | F_Sfx
    | F_Autoit | F_OneNote | F_Rtf | F_PePacked | F_JavaClass | F_AiModel | F_Screnc | F_Dxf | F_Dwg
    | F_Exfat | F_Squashfs | F_Cramfs | F_Romfs | F_Erofs

datatype (plugins only: size) cl_type =
    CL_Zip | CL_OoxmlWord | CL_OoxmlXl | CL_OoxmlPpt | CL_Msole2 | CL_Mail | CL_Pdf | CL_Mscab
    | CL_Rar | CL_SevenZip | CL_Iso | CL_Lha | CL_Tar | CL_Gzip | CL_Bzip | CL_Xz | CL_Cpio | CL_Ar
    | CL_Zstd | CL_Mschm | CL_Dmg | CL_Nulsft | CL_Autoit | CL_MsExe | CL_Rtf | CL_Html | CL_XmlWord
    | CL_XmlXl | CL_Mhtml

section \<open>Dispatch tables\<close>

definition unpack_format :: "file_type \<Rightarrow> format option" where
  "unpack_format ft =
     (case ft of
        FT_Zip \<Rightarrow> Some F_Zip | FT_Gzip \<Rightarrow> Some F_Gzip
        | FT_Tar \<Rightarrow> Some F_Tar | FT_Bzip2 \<Rightarrow> Some F_Bzip2
        | FT_Xz \<Rightarrow> Some F_Xz | FT_Cab \<Rightarrow> Some F_Cab
        | FT_Chm \<Rightarrow> Some F_Chm | FT_Ole \<Rightarrow> Some F_Ole
        | FT_Pdf \<Rightarrow> Some F_Pdf | FT_Email \<Rightarrow> Some F_Email
        | FT_SevenZip \<Rightarrow> Some F_SevenZip | FT_Iso \<Rightarrow> Some F_Iso
        | FT_Lha \<Rightarrow> Some F_Lha | FT_Arj \<Rightarrow> Some F_Arj
        | FT_Rar \<Rightarrow> Some F_Rar | FT_Ar \<Rightarrow> Some F_Ar
        | FT_Cpio \<Rightarrow> Some F_Cpio | FT_Xar \<Rightarrow> Some F_Xar
        | FT_Wim \<Rightarrow> Some F_Wim | FT_Lz4 \<Rightarrow> Some F_Lz4
        | FT_Arc \<Rightarrow> Some F_Arc | FT_Ace \<Rightarrow> Some F_Ace
        | FT_Alz \<Rightarrow> Some F_Alz | FT_Egg \<Rightarrow> Some F_Egg
        | FT_Hwp3 \<Rightarrow> Some F_Hwp3 | FT_IshieldMsi \<Rightarrow> Some F_IshieldMsi
        | FT_IshieldCab \<Rightarrow> Some F_IshieldCab | FT_IshieldZ \<Rightarrow> Some F_IshieldZ
        | FT_CryptFf \<Rightarrow> Some F_CryptFf | FT_Ext \<Rightarrow> Some F_Ext
        | FT_Lrzip \<Rightarrow> Some F_Lrzip | FT_Zoo \<Rightarrow> Some F_Zoo
        | FT_AppleSingle \<Rightarrow> Some F_AppleSingle | FT_StuffIt \<Rightarrow> Some F_StuffIt
        | FT_Fat \<Rightarrow> Some F_Fat | FT_Inno \<Rightarrow> Some F_Inno
        | FT_Ntfs \<Rightarrow> Some F_Ntfs | FT_Exfat \<Rightarrow> Some F_Exfat
        | FT_Squashfs \<Rightarrow> Some F_Squashfs | FT_Cramfs \<Rightarrow> Some F_Cramfs
        | FT_Romfs \<Rightarrow> Some F_Romfs | FT_Erofs \<Rightarrow> Some F_Erofs
        | FT_Zstd \<Rightarrow> Some F_Zstd | FT_Lzip \<Rightarrow> Some F_Lzip
        | FT_Uuencode \<Rightarrow> Some F_Uuencode | FT_Xdp \<Rightarrow> Some F_Xdp
        | FT_Szdd \<Rightarrow> Some F_Szdd | FT_Tnef \<Rightarrow> Some F_Tnef
        | FT_Swf \<Rightarrow> Some F_Swf | FT_Binhex \<Rightarrow> Some F_Binhex
        | FT_Lnk \<Rightarrow> Some F_Lnk | FT_Partition \<Rightarrow> Some F_Partition
        | FT_Pyc \<Rightarrow> Some F_Pyc | FT_Nsis \<Rightarrow> Some F_Nsis
        | FT_Machofat \<Rightarrow> Some F_Machofat | FT_Sfx \<Rightarrow> Some F_Sfx
        | FT_Autoit \<Rightarrow> Some F_Autoit | FT_OneNote \<Rightarrow> Some F_OneNote
        | FT_JavaClass \<Rightarrow> Some F_JavaClass | FT_AiModel \<Rightarrow> Some F_AiModel
        | FT_Screnc \<Rightarrow> Some F_Screnc | FT_Rtf \<Rightarrow> Some F_Rtf
        | _ \<Rightarrow> None)"

definition filetype_of_format :: "format \<Rightarrow> file_type" where
  "filetype_of_format fmt =
     (case fmt of
        F_Zip \<Rightarrow> FT_Zip | F_Gzip \<Rightarrow> FT_Gzip | F_Tar \<Rightarrow> FT_Tar
        | F_Bzip2 \<Rightarrow> FT_Bzip2 | F_Xz \<Rightarrow> FT_Xz | F_Cab \<Rightarrow> FT_Cab
        | F_Chm \<Rightarrow> FT_Chm | F_Ole \<Rightarrow> FT_Ole | F_Pdf \<Rightarrow> FT_Pdf
        | F_Email \<Rightarrow> FT_Email | F_SevenZip \<Rightarrow> FT_SevenZip
        | F_Iso \<Rightarrow> FT_Iso | F_Lha \<Rightarrow> FT_Lha | F_Rar \<Rightarrow> FT_Rar
        | F_Arj \<Rightarrow> FT_Arj | F_Ar \<Rightarrow> FT_Ar | F_Cpio \<Rightarrow> FT_Cpio
        | F_Xar \<Rightarrow> FT_Xar | F_JavaClass \<Rightarrow> FT_JavaClass
        | F_AiModel \<Rightarrow> FT_AiModel | F_Screnc \<Rightarrow> FT_Screnc
        | F_Wim \<Rightarrow> FT_Wim | F_Lz4 \<Rightarrow> FT_Lz4 | F_Arc \<Rightarrow> FT_Arc
        | F_Ace \<Rightarrow> FT_Ace | F_Alz \<Rightarrow> FT_Alz | F_Egg \<Rightarrow> FT_Egg
        | F_Hwp3 \<Rightarrow> FT_Hwp3 | F_IshieldMsi \<Rightarrow> FT_IshieldMsi
        | F_IshieldCab \<Rightarrow> FT_IshieldCab | F_IshieldZ \<Rightarrow> FT_IshieldZ
        | F_CryptFf \<Rightarrow> FT_CryptFf | F_Ext \<Rightarrow> FT_Ext
        | F_Lrzip \<Rightarrow> FT_Lrzip | F_Zoo \<Rightarrow> FT_Zoo
        | F_AppleSingle \<Rightarrow> FT_AppleSingle | F_StuffIt \<Rightarrow> FT_StuffIt
        | F_Fat \<Rightarrow> FT_Fat | F_Inno \<Rightarrow> FT_Inno | F_Ntfs \<Rightarrow> FT_Ntfs
        | F_Exfat \<Rightarrow> FT_Exfat | F_Squashfs \<Rightarrow> FT_Squashfs
        | F_Cramfs \<Rightarrow> FT_Cramfs | F_Romfs \<Rightarrow> FT_Romfs
        | F_Erofs \<Rightarrow> FT_Erofs | F_Zstd \<Rightarrow> FT_Zstd
        | F_Lzip \<Rightarrow> FT_Lzip | F_Uuencode \<Rightarrow> FT_Uuencode
        | F_Xdp \<Rightarrow> FT_Xdp | F_Szdd \<Rightarrow> FT_Szdd | F_Tnef \<Rightarrow> FT_Tnef
        | F_Swf \<Rightarrow> FT_Swf | F_Binhex \<Rightarrow> FT_Binhex
        | F_Lnk \<Rightarrow> FT_Lnk | F_Partition \<Rightarrow> FT_Partition
        | F_Pyc \<Rightarrow> FT_Pyc | F_Nsis \<Rightarrow> FT_Nsis
        | F_Machofat \<Rightarrow> FT_Machofat | F_Sfx \<Rightarrow> FT_Sfx
        | F_Autoit \<Rightarrow> FT_Autoit | F_OneNote \<Rightarrow> FT_OneNote
        | F_Rtf \<Rightarrow> FT_Rtf | _ \<Rightarrow> FT_Unknown)"

definition MAGIC_DISPATCH_ONLY :: "format list" where
  "MAGIC_DISPATCH_ONLY =
     [F_Dmg, F_Vhd, F_Lzw, F_Lzma, F_Rpm, F_Qcow2, F_Vmdk, F_Vhdx, F_Dxf, F_Dwg]"

definition EXECUTABLE_CONTAINERS :: "format list" where
  "EXECUTABLE_CONTAINERS = [F_Nsis, F_Sfx, F_Autoit, F_Inno]"

definition is_executable :: "file_type \<Rightarrow> bool" where
  "is_executable ft \<longleftrightarrow> ft = FT_Pe \<or> ft = FT_Elf \<or> ft = FT_MachO"

definition is_textual_type :: "file_type \<Rightarrow> bool" where
  "is_textual_type ft \<longleftrightarrow>
     ft \<in> {FT_Text, FT_Unknown, FT_Script, FT_Html, FT_Rtf, FT_Email}"

section \<open>Objects as bytes\<close>

text \<open>
  A \<^verbatim>\<open>ByteSource\<close>: the bytes it gives, how many it says it has, whether they are held in memory,
  and why reading it failed, if it did. What a failing source gives is what the scan saw of it.
\<close>

record source =
  content :: bytes
  declared :: nat
  held :: bool
  failure :: "string option"

definition in_memory :: "bytes \<Rightarrow> source" where
  "in_memory bs = \<lparr>content = bs, declared = length bs, held = True, failure = None\<rparr>"

definition source_len :: "source \<Rightarrow> nat" where
  "source_len d = declared d"

definition window :: "source \<Rightarrow> nat \<Rightarrow> nat \<Rightarrow> bytes" where
  "window d at n = take n (drop at (content d))"

definition sub_from :: "source \<Rightarrow> nat \<Rightarrow> source" where
  "sub_from d off = d\<lparr>content := drop off (content d), declared := declared d - off\<rparr>"

definition materialize :: "source \<Rightarrow> nat \<Rightarrow> bytes option" where
  "materialize d limit =
     (if held d then Some (content d)
      else if limit < source_len d then None
      else if failure d = None then Some (content d) else None)"

definition str_bytes :: "string \<Rightarrow> bytes" where
  "str_bytes s = map (\<lambda>c. of_nat (of_char c)) s"

definition begins_with :: "bytes \<Rightarrow> bytes \<Rightarrow> bool" where
  "begins_with pre s = (take (length pre) s = pre)"

fun has_infix :: "'a list \<Rightarrow> 'a list \<Rightarrow> bool" where
  "has_infix n [] = (n = [])"
| "has_infix n (x # xs) = (take (length n) (x # xs) = n \<or> has_infix n xs)"

section \<open>Container types\<close>

definition ooxml_subtype :: "bytes \<Rightarrow> cl_type option" where
  "ooxml_subtype data =
     (if \<not> has_infix (str_bytes ''[Content_Types].xml'') data then None
      else if has_infix (str_bytes ''word/document.xml'') data \<or> has_infix (str_bytes ''word/document2.xml'') data
      then Some CL_OoxmlWord
      else if has_infix (str_bytes ''xl/workbook.xml'') data then Some CL_OoxmlXl
      else if has_infix (str_bytes ''ppt/presentation.xml'') data then Some CL_OoxmlPpt
      else None)"

text \<open>\<open>mhtml\<close> stands for \<^verbatim>\<open>filetype::looks_like_mhtml\<close>.\<close>

definition container_cltype :: "(bytes \<Rightarrow> bool) \<Rightarrow> format \<Rightarrow> source \<Rightarrow> cl_type option" where
  "container_cltype mhtml fmt d =
     (case fmt of
        F_Ole \<Rightarrow> Some CL_Msole2
      | F_Pdf \<Rightarrow> Some CL_Pdf
      | F_Email \<Rightarrow> Some (if mhtml (window d 0 8192) then CL_Mhtml else CL_Mail)
      | F_Cab \<Rightarrow> Some CL_Mscab
      | F_Rar \<Rightarrow> Some CL_Rar
      | F_SevenZip \<Rightarrow> Some CL_SevenZip
      | F_Iso \<Rightarrow> Some CL_Iso
      | F_Lha \<Rightarrow> Some CL_Lha
      | F_Tar \<Rightarrow> Some CL_Tar
      | F_Gzip \<Rightarrow> Some CL_Gzip
      | F_Bzip2 \<Rightarrow> Some CL_Bzip
      | F_Xz \<Rightarrow> Some CL_Xz
      | F_Cpio \<Rightarrow> Some CL_Cpio
      | F_Ar \<Rightarrow> Some CL_Ar
      | F_Zstd \<Rightarrow> Some CL_Zstd
      | F_Zip \<Rightarrow> Some (case ooxml_subtype (content d) of Some t \<Rightarrow> t | None \<Rightarrow> CL_Zip)
      | F_Chm \<Rightarrow> Some CL_Mschm
      | F_Dmg \<Rightarrow> Some CL_Dmg
      | F_Nsis \<Rightarrow> Some CL_Nulsft
      | F_Autoit \<Rightarrow> Some CL_Autoit
      | F_Rtf \<Rightarrow> Some CL_Rtf
      | F_Sfx \<Rightarrow> Some CL_MsExe
      | F_PePacked \<Rightarrow> Some CL_MsExe
      | F_Upx \<Rightarrow> Some CL_MsExe
      | F_Inno \<Rightarrow> Some CL_MsExe
      | _ \<Rightarrow> None)"

definition markup_cltype :: "file_type \<Rightarrow> bytes \<Rightarrow> cl_type option" where
  "markup_cltype ft data =
     (if ft \<notin> {FT_Html, FT_Text, FT_Script} then None
      else
        let head = take 4096 data in
        if has_infix (str_bytes ''progid=\"Word.Document\"'') head \<or> has_infix (str_bytes ''<w:wordDocument'') head
        then Some CL_XmlWord
        else if has_infix (str_bytes ''progid=\"Excel.Sheet\"'') head \<or> has_infix (str_bytes ''<x:ExcelWorkbook'') head
        then Some CL_XmlXl
        else if ft = FT_Html then Some CL_Html else None)"

definition carrier_cltype :: "file_type \<Rightarrow> cl_type option" where
  "carrier_cltype ft =
     (if ft = FT_Html then Some CL_Html
      else if ft = FT_Rtf then Some CL_Rtf
      else if ft = FT_Email then Some CL_Mail
      else None)"

section \<open>Text tests\<close>

definition mostly_text :: "bytes \<Rightarrow> bool" where
  "mostly_text data =
     (let sample = take 8192 data in
      if length sample < 64 then False
      else
        let printable = length (filter (\<lambda>b. b = 9 \<or> b = 13 \<or> b = 10 \<or> (0x20 \<le> b \<and> b \<le> 0x7e)) sample)
        in length sample * 90 \<le> printable * 100)"

definition TEXT_PERCENT :: nat where "TEXT_PERCENT = 90"

text \<open>\<^verbatim>\<open>normalize::is_textual\<close>, of the first \<^verbatim>\<open>SAMPLE\<close> bytes.\<close>

definition is_textual :: "bytes \<Rightarrow> bool" where
  "is_textual data =
     (if data = [] then False
      else
        let sample = take 8192 data;
            nul = length (filter (\<lambda>b. b = 0) sample);
            text = length (filter (\<lambda>b. b \<in> {9, 10, 13, 0x0C} \<or> (0x20 \<le> b \<and> b \<le> 0x7E) \<or> 0x80 \<le> b) sample)
        in if length sample < nul * 100 then False else length sample * TEXT_PERCENT \<le> text * 100)"

function slices :: "nat \<Rightarrow> 'a list \<Rightarrow> 'a list list" where
  "slices n xs = (if xs = [] \<or> n = 0 then [] else take n xs # slices n (drop n xs))"
  by pat_completeness auto
termination by (relation "measure (length \<circ> snd)") auto

declare slices.simps [simp del]

definition text_anywhere :: "source \<Rightarrow> bool" where
  "text_anywhere d =
     (let texty = (\<lambda>at. list_ex mostly_text (slices 1024 (window d at 8192))); len = source_len d in
      if len \<le> 8192 then texty 0
      else let last = len - 8192 in list_ex texty [0, last, last div 3, last div 3 * 2])"

definition byte_lower :: "u8 \<Rightarrow> u8" where
  "byte_lower b = (if 0x41 \<le> b \<and> b \<le> 0x5A then b + 0x20 else b)"

definition SCRIPT_MARKERS :: "string list" where
  "SCRIPT_MARKERS = [''<script'', ''fromcharcode'', ''charcodeat'', ''unescape('', ''decodeuricomponent'',
     ''eval('', ''function('', ''function ('', ''activexobject'', ''createobject'', ''wscript'']"

definition looks_like_script :: "file_type \<Rightarrow> bytes \<Rightarrow> bool" where
  "looks_like_script ft data =
     (if ft = FT_Script \<or> ft = FT_Html then True
      else list_ex (\<lambda>m. has_infix (str_bytes m) (map byte_lower (take 8192 data))) SCRIPT_MARKERS)"

datatype view_kind = View_Html | View_Text | View_Javascript | View_Deobfuscated

definition normalizations :: "file_type \<Rightarrow> source \<Rightarrow> (view_kind \<times> file_type) list" where
  "normalizations ft d =
     (if ft = FT_Rtf then [(View_Html, FT_HtmlView), (View_Text, FT_TextView)]
      else
        let (kind, as_type) = (if ft = FT_Html then (View_Html, FT_HtmlView) else (View_Text, FT_TextView)) in
        (kind, as_type) #
        (if looks_like_script ft (window d 0 8192)
         then [(View_Javascript, as_type), (View_Deobfuscated, as_type)] else []))"

section \<open>Every format is reached\<close>

lemma unpack_format_back:
  assumes "unpack_format ft = Some fmt"
  shows "filetype_of_format fmt = ft \<and> fmt \<notin> set MAGIC_DISPATCH_ONLY \<and> fmt \<notin> {F_Upx, F_PePacked}"
  using assms
  by (cases ft) (auto simp: filetype_of_format_def unpack_format_def MAGIC_DISPATCH_ONLY_def)

lemma format_reached:
  "unpack_format (filetype_of_format fmt) = Some fmt \<or> fmt \<in> set MAGIC_DISPATCH_ONLY \<or>
   fmt \<in> {F_Upx, F_PePacked}"
  by (cases fmt) (simp_all add: filetype_of_format_def unpack_format_def MAGIC_DISPATCH_ONLY_def)

text \<open>
  The two dispatch tables are inverse to each other: an object of a type is read with a
  format exactly when the magic of that format gives the type, and the formats with no type of
  their own are the ones dispatched from the magic alone and the two runtime packers, which are
  found by other means. So every extractor is reached, and no two formats share a type.
\<close>

theorem dispatch_tables_inverse:
  "unpack_format ft = Some fmt \<longleftrightarrow>
   ft = filetype_of_format fmt \<and> fmt \<notin> set MAGIC_DISPATCH_ONLY \<and> fmt \<notin> {F_Upx, F_PePacked}"
  using unpack_format_back [of ft fmt] format_reached [of fmt] by blast

end
