(* ===== verification/Scan_Env.thy ===== *)
theory Scan_Env
  imports Scan_Verdict Scan_Types
begin

text \<open>
  What the scan walk of \<^verbatim>\<open>exav-core/src/lib.rs\<close> works with: the options of a scan, the analyses it
  calls (signature engine, hash and rule databases, format decoders, structural checks) as the
  parameter \<open>analyses\<close>, and the state it threads: budget, marks, memo of clean members, findings
  and the sink detections go to.

  Two fields of the state have no counterpart in the code and decide nothing: \<open>s_missed\<close> records
  that something of the object was not scanned, and \<open>s_found\<close> every detection a normal scan's sink
  took. The first is written where the cause is met, by \<open>missing\<close> and \<open>missed_if\<close>, and never by the
  operations that set a mark, note a reason or make an outcome, which are the code's own answer to the
  cause: a walk that forgets its answer still has the record. The theorems about the walk compare its
  report with these fields. A third, \<open>s_stuck\<close>, is set if the walk is ever asked for a level it does
  not have.
\<close>

section \<open>Options\<close>

record scan_options =
  max_scan_size :: "nat option"
  deep_analysis_max :: nat
  min_scan_bytes :: nat
  heuristics :: bool
  clamav_heuristics :: bool
  clamav_compat :: bool
  opt_limits :: limits
  restrict_extractors :: bool
  unofficial_suffix :: bool
  check_sums :: bool
  decode_base64 :: bool
  structured_cc_count :: "nat option"
  structured_ssn_count :: "nat option"
  alert_encrypted :: bool
  alert_macros :: bool
  alert_exceeds_max :: bool
  alert_partition_intersection :: bool
  alert_broken :: bool
  alert_broken_media :: bool
  alert_packed :: bool
  alert_phishing :: bool
  alert_broken_authenticode :: bool
  file_name :: "string option"
  spilling :: bool

section \<open>What an analysis answers\<close>

datatype mark = Mark_truncated | Mark_over_size string | Mark_capped string

record pe_info =
  imphash_hit :: "string option"
  info_findings :: "finding list"
  static_finding :: finding
  static_hit :: "string option"
  looks_packed :: bool
  suspicious_imports :: "string list"

record embedded =
  emb_pe :: "nat list"
  emb_elf :: "nat list"
  emb_macho :: "nat list"
  emb_archives :: "nat list"
  pe_capped :: bool
  others_capped :: bool

record visible =
  vis_text :: bytes
  vis_links :: "(string \<times> string) list"
  vis_truncated :: bool
  vis_unreadable :: bool

text \<open>A member as its container records it, its stream, and what a decoder does in turn.\<close>

record member_meta =
  m_name :: string
  comp_size :: nat
  m_encrypted :: bool
  unsupported :: "string option"
  zip_local_flags :: "nat option"

text \<open>A decoder's stream: its bytes, then its end or an error and whether that hides content.\<close>

record stream =
  st_bytes :: bytes
  st_error :: "(string \<times> bool) option"

datatype walk_op =
    Op_bytes member_meta "bytes option"
  | Op_stream member_meta stream
  | Op_visit member_meta
  | Op_fail limit_hit

text \<open>
  The analyses and databases. \<open>decode\<close> is a format's decoder over a container: what it does in
  turn, each step seeing and charging the budget as it then stands.
\<close>

record analyses =
  ignored :: "string \<Rightarrow> bool"
  allowlisted :: "source \<Rightarrow> bool"
  identify :: "source \<Rightarrow> file_type"
  type_name :: "file_type \<Rightarrow> string"
  format_name :: "format \<Rightarrow> string"
  detect :: "source \<Rightarrow> format option"
  is_upx :: "bytes \<Rightarrow> bool"
  is_pepack :: "bytes \<Rightarrow> bool"
  allows :: "format \<Rightarrow> bool"
  decode :: "format \<Rightarrow> source \<Rightarrow> (budget \<Rightarrow> walk_op \<times> budget) list"
  engine_empty :: bool
  engine :: "scan_options \<Rightarrow> bool \<Rightarrow> (string \<Rightarrow> bool \<Rightarrow> bool) \<Rightarrow> source \<Rightarrow> file_type \<Rightarrow> cl_type option \<Rightarrow> cl_type option list
    \<Rightarrow> bytes option \<Rightarrow> (string \<times> nat \<times> bool) list \<times> mark list \<times> file_type option"
  normalize :: "view_kind \<Rightarrow> bytes \<Rightarrow> bytes"
  deobfuscate :: "source \<Rightarrow> bytes \<times> bool"
  spill_view :: "view_kind \<Rightarrow> source \<Rightarrow> string + source"
  wants_text :: "string \<Rightarrow> bytes \<Rightarrow> bool"
  visible_text :: "string \<Rightarrow> bytes \<Rightarrow> nat \<Rightarrow> visible option"
  phishing_links :: "(string \<times> string) list \<Rightarrow> string option \<times> bool"
  bytecode_empty :: bool
  bytecode :: "source \<Rightarrow> file_type \<Rightarrow> nat \<Rightarrow> nat \<Rightarrow> string option \<times> bytes list \<times> mark list"
  sections :: "bytes \<Rightarrow> (string \<times> bool) list"
  hashes_empty :: bool
  hash_lookup :: "source \<Rightarrow> (string \<times> bool) option"
  yara :: "source \<Rightarrow> string option \<Rightarrow> (string \<times> bool) list \<times> mark list"
  cdb_empty :: bool
  cdb :: "file_type \<Rightarrow> nat \<Rightarrow> string \<Rightarrow> nat \<Rightarrow> nat \<Rightarrow> bool \<Rightarrow> nat \<Rightarrow> (string \<times> bool) option"
  overlapping_local_records :: "source \<Rightarrow> nat"
  xz_dict :: "bytes \<Rightarrow> nat option"
  broken_media :: "bytes \<Rightarrow> string option"
  looks_broken :: "source \<Rightarrow> bool"
  elf_stripped :: "source \<Rightarrow> bool"
  partition_alert :: "source \<Rightarrow> string option"
  obfuscated_name :: "bytes \<Rightarrow> bool"
  base64_payloads :: "source \<Rightarrow> nat \<Rightarrow> bytes list \<times> bool"
  markup_payloads :: "source \<Rightarrow> nat \<Rightarrow> bytes list \<times> bool"
  embedded_in :: "source \<Rightarrow> embedded"
  detect_archive_start :: "source \<Rightarrow> format option"
  zip_directory_is_consistent :: "bytes \<Rightarrow> bool"
  appended_zip_start :: "source \<Rightarrow> nat option"
  also_reads_as :: "source \<Rightarrow> format \<Rightarrow> format option"
  mhtml :: "bytes \<Rightarrow> bool"
  phishing :: "source \<Rightarrow> string option \<times> bool"
  crb_empty :: bool
  authenticode :: "bytes \<Rightarrow> (string option list \<times> bool) option"
  tlsh :: "source \<Rightarrow> string option"
  has_imphash :: bool
  pe_analyze :: "bytes \<Rightarrow> pe_info option"
  spill :: "bytes \<Rightarrow> (string \<times> nat) + source"

section \<open>The state of a walk\<close>

datatype sink = Sink_first | Sink_all "(string \<times> hit_method) list"

text \<open>
  What was not scanned: for a reason that was met, below an object at the recursion limit, or in a
  carved candidate that was then taken for no archive.
\<close>

datatype miss = Missed string | Depth_limit | Dismissed string

type_synonym memo_key = "cl_type option \<times> file_type option \<times> cl_type option list \<times> string \<times> bytes"

record walk_state =
  s_budget :: budget
  s_flags :: scan_flags
  s_memo :: "(memo_key \<times> nat) list"
  s_findings :: "finding list"
  s_sink :: sink
  s_ancestry :: "cl_type option list"
  s_missed :: "miss list"
  s_found :: "string list"
  s_stuck :: bool

definition start_state :: "budget \<Rightarrow> sink \<Rightarrow> walk_state" where
  "start_state b sk =
     \<lparr>s_budget = b, s_flags = no_flags, s_memo = [], s_findings = [], s_sink = sk, s_ancestry = [],
      s_missed = [], s_found = [], s_stuck = False\<rparr>"

definition max_rec :: "walk_state \<Rightarrow> nat" where
  "max_rec s = max_recursion (limits (s_budget s))"

definition missing :: "string \<Rightarrow> walk_state \<Rightarrow> walk_state" where
  "missing r s = s\<lparr>s_missed := Missed r # s_missed s\<rparr>"

definition depth_missing :: "walk_state \<Rightarrow> walk_state" where
  "depth_missing s = s\<lparr>s_missed := Depth_limit # s_missed s\<rparr>"

definition missed_if :: "bool \<Rightarrow> string \<Rightarrow> walk_state \<Rightarrow> walk_state" where
  "missed_if c r s = (if c then missing r s else s)"

fun dismissal :: "miss \<Rightarrow> miss" where
  "dismissal (Missed r) = Dismissed r"
| "dismissal m = m"

text \<open>What was missed since \<open>s0\<close>, recorded apart, put before what was missed up to \<open>s0\<close>.\<close>

definition after_missed :: "(miss \<Rightarrow> miss) \<Rightarrow> walk_state \<Rightarrow> walk_state \<Rightarrow> walk_state" where
  "after_missed f s0 s = s\<lparr>s_missed := map f (s_missed s) @ s_missed s0\<rparr>"

fun put_mark :: "mark \<Rightarrow> walk_state \<Rightarrow> walk_state" where
  "put_mark Mark_truncated s = s\<lparr>s_flags := mark_scan_truncated (s_flags s)\<rparr>"
| "put_mark (Mark_over_size r) s = s\<lparr>s_flags := mark_over_size r (s_flags s)\<rparr>"
| "put_mark (Mark_capped r) s = s\<lparr>s_flags := mark_capped r (s_flags s)\<rparr>"

definition put_marks :: "mark list \<Rightarrow> walk_state \<Rightarrow> walk_state" where
  "put_marks ms s = fold put_mark ms s"

text \<open>An analysis that says it was cut short, by the marks it answers with.\<close>

definition missed_marks :: "mark list \<Rightarrow> walk_state \<Rightarrow> walk_state" where
  "missed_marks ms s = missed_if (ms \<noteq> []) SEARCH_INCOMPLETE s"

definition mark_if :: "bool \<Rightarrow> mark \<Rightarrow> walk_state \<Rightarrow> walk_state" where
  "mark_if c m s = (if c then put_mark m s else s)"

definition add_findings :: "finding list \<Rightarrow> walk_state \<Rightarrow> walk_state" where
  "add_findings fs s = s\<lparr>s_findings := s_findings s @ fs\<rparr>"

definition charge :: "nat \<Rightarrow> walk_state \<Rightarrow> (limit_hit + unit) \<times> walk_state" where
  "charge n s = (let (r, b) = charge_scan n (s_budget s); s = s\<lparr>s_budget := b\<rparr> in
      case r of Inl h \<Rightarrow> (Inl h, missing (reason h) s) | Inr u \<Rightarrow> (Inr u, s))"

text \<open>The types above the object being scanned, pushed while \<open>f\<close> runs.\<close>

definition with_ancestry :: "cl_type option \<Rightarrow> (walk_state \<Rightarrow> 'a \<times> walk_state) \<Rightarrow> walk_state \<Rightarrow> 'a \<times> walk_state" where
  "with_ancestry c f s =
     (let (r, s) = f (s\<lparr>s_ancestry := s_ancestry s @ [c]\<rparr>) in (r, s\<lparr>s_ancestry := butlast (s_ancestry s)\<rparr>))"

section \<open>The sink\<close>

definition sink_hit :: "analyses \<Rightarrow> string \<Rightarrow> nat \<Rightarrow> hit_method \<Rightarrow> walk_state \<Rightarrow> deep_outcome option \<times> walk_state" where
  "sink_hit e sig off m s =
     (case s_sink s of
        Sink_first \<Rightarrow>
          if ignored e sig then (None, s)
          else (Some (Infected sig off m), s\<lparr>s_found := sig # s_found s\<rparr>)
      | Sink_all out \<Rightarrow>
          (None, if \<not> ignored e sig \<and> sig \<notin> fst ` set out
                 then s\<lparr>s_sink := Sink_all (out @ [(sig, m)])\<rparr> else s))"

definition wants_all :: "walk_state \<Rightarrow> bool" where
  "wants_all s = (case s_sink s of Sink_first \<Rightarrow> False | Sink_all _ \<Rightarrow> True)"

definition hit_if :: "analyses \<Rightarrow> bool \<Rightarrow> string \<Rightarrow> hit_method \<Rightarrow> walk_state \<Rightarrow> deep_outcome option \<times> walk_state" where
  "hit_if e c sig m s = (if c then sink_hit e sig 0 m s else (None, s))"

definition hit_opt :: "analyses \<Rightarrow> string option \<Rightarrow> hit_method \<Rightarrow> walk_state \<Rightarrow> deep_outcome option \<times> walk_state" where
  "hit_opt e sig m s = (case sig of Some g \<Rightarrow> sink_hit e g 0 m s | None \<Rightarrow> (None, s))"

text \<open>Checks in turn, up to the first that stops the walk.\<close>

definition unless_stopped ::
  "'a option \<times> walk_state \<Rightarrow> (walk_state \<Rightarrow> 'a option \<times> walk_state) \<Rightarrow> 'a option \<times> walk_state" where
  "unless_stopped r k = (case r of (Some o', s) \<Rightarrow> (Some o', s) | (None, s) \<Rightarrow> k s)"

fun checks :: "(walk_state \<Rightarrow> 'a option \<times> walk_state) list \<Rightarrow> walk_state \<Rightarrow> 'a option \<times> walk_state" where
  "checks [] s = (None, s)"
| "checks (c # cs) s = unless_stopped (c s) (checks cs)"

section \<open>Objects read whole\<close>

definition over_size :: "nat \<Rightarrow> scan_options \<Rightarrow> string \<Rightarrow> string" where
  "over_size n opts consequence =
     ''object is '' @ dec_string n @ '' bytes, over the '' @ dec_string (deep_analysis_max opts) @
     ''-byte deep-analysis limit (--max-object-bytes): '' @ consequence"

text \<open>An object as one buffer, if it is small enough and can be read.\<close>

definition materialized :: "scan_options \<Rightarrow> source \<Rightarrow> walk_state \<Rightarrow> bytes option \<times> walk_state" where
  "materialized opts d s =
     (let r = materialize d (deep_analysis_max opts) in (r, missed_if (r = None) ''not read whole'' s))"

definition whole :: "scan_options \<Rightarrow> source \<Rightarrow> string \<Rightarrow> walk_state \<Rightarrow> bytes option \<times> walk_state" where
  "whole opts d what s =
     (case materialized opts d s of
        (Some bs, s) \<Rightarrow> (Some bs, s)
      | (None, s) \<Rightarrow> (None, put_mark (Mark_over_size (over_size (source_len d) opts (what @ '' did not run''))) s))"

definition limit_stop :: "scan_options \<Rightarrow> limit_kind \<Rightarrow> string \<Rightarrow> walk_state \<Rightarrow> deep_outcome \<times> walk_state" where
  "limit_stop opts k r s = (limits_outcome (alert_exceeds_max opts) k r, s)"

text \<open>Where an object sits in the scan.\<close>

record obj =
  depth :: nat
  container :: "cl_type option"
  core_type :: "file_type option"
  obj_filename :: "string option"
  obj_name :: "string option"
  core_on :: bool
  carve :: bool
  embedded_obj :: bool

definition obj_top :: "scan_options \<Rightarrow> obj" where
  "obj_top opts =
     \<lparr>depth = 0, container = None, core_type = None, obj_filename = file_name opts, obj_name = file_name opts,
      core_on = True, carve = True, embedded_obj = False\<rparr>"

text \<open>Whether nothing below an object is scanned any more.\<close>

definition at_limit :: "obj \<Rightarrow> walk_state \<Rightarrow> bool \<times> walk_state" where
  "at_limit ob s = (let c = max_rec s \<le> depth ob in (c, missed_if c ''recursion limit'' s))"

definition obj_inner :: "obj \<Rightarrow> cl_type option \<Rightarrow> obj" where
  "obj_inner ob c =
     \<lparr>depth = depth ob + 1, container = c, core_type = None, obj_filename = None, obj_name = None,
      core_on = True, carve = True, embedded_obj = False\<rparr>"

end
