(* ===== verification/Scan_Core.thy ===== *)
theory Scan_Core
  imports Scan_Env Dlp
begin

text \<open>
  One object in the scan walk (\<^verbatim>\<open>exav-core/src/lib.rs\<close>): the container format it is opened with, the
  structural heuristics over it, and the matching core over its own bytes and their views. Each
  operation takes the walk's state and returns it; an operation that may end the walk returns the
  outcome it ends with.
\<close>

section \<open>The container format of an object\<close>

definition unpack_target ::
  "analyses \<Rightarrow> scan_options \<Rightarrow> file_type \<Rightarrow> source \<Rightarrow> walk_state \<Rightarrow> format option \<times> walk_state" where
  "unpack_target e opts ft d s =
     (let restrict = restrict_extractors opts in
      case unpack_format ft of
        Some fmt \<Rightarrow> (if restrict \<and> fmt \<in> {F_Ar, F_Lzip} then None else Some fmt, s)
      | None \<Rightarrow>
          (case (if restrict then None else Option.bind (detect e d) (\<lambda>f. if f \<in> set MAGIC_DISPATCH_ONLY then Some f else None)) of
             Some fmt \<Rightarrow> (Some fmt, s)
           | None \<Rightarrow>
               (case (if is_executable ft
                      then Option.bind (detect e d) (\<lambda>f. if f \<in> set EXECUTABLE_CONTAINERS \<and> (\<not> restrict \<or> f \<noteq> F_Inno)
                                                     then Some f else None)
                      else None) of
                  Some fmt \<Rightarrow> (Some fmt, s)
                | None \<Rightarrow>
                    if \<not> is_executable ft then (None, s)
                    else case whole opts d ''the UPX and packer checks'' s of
                      (None, s) \<Rightarrow> (None, s)
                    | (Some img, s) \<Rightarrow>
                        (if is_upx e img \<and> (if restrict then ft = FT_Pe else is_executable ft) then Some F_Upx
                         else if is_pepack e img then Some F_PePacked else None, s))))"

section \<open>Structural heuristics\<close>

definition EXECUTABLE_MAGIC :: "bytes list" where
  "EXECUTABLE_MAGIC = [str_bytes ''MZ'', 0x7F # str_bytes ''ELF'', [0xCF, 0xFA, 0xED, 0xFE],
     [0xFE, 0xED, 0xFA, 0xCF], [0xCE, 0xFA, 0xED, 0xFE], [0xFE, 0xED, 0xFA, 0xCE]]"

definition MEDIA_MAGIC :: "bytes list" where
  "MEDIA_MAGIC = [str_bytes ''GIF87a'', str_bytes ''GIF89a'', 0x89 # str_bytes ''PNG'', [0x49, 0x49, 0x2A, 0x00],
     [0x4D, 0x4D, 0x00, 0x2A], [0xFF, 0xD8]]"

definition OVERLAP_THRESHOLD :: nat where "OVERLAP_THRESHOLD = 5"

definition XZ_MAX_DICT :: nat where "XZ_MAX_DICT = 64 * 1024 * 1024"

definition media_check :: "analyses \<Rightarrow> scan_options \<Rightarrow> source \<Rightarrow> walk_state \<Rightarrow> deep_outcome option \<times> walk_state" where
  "media_check e opts src s =
     (if alert_broken_media opts \<and> list_ex (\<lambda>m. begins_with m (window src 0 16)) MEDIA_MAGIC then
        case whole opts src ''the whole-file structural heuristics'' s of
          (None, s) \<Rightarrow> (None, s)
        | (Some bs, s) \<Rightarrow> hit_opt e (broken_media e bs) Heuristic s
      else (None, s))"

definition pdf_check :: "analyses \<Rightarrow> scan_options \<Rightarrow> source \<Rightarrow> file_type \<Rightarrow> walk_state \<Rightarrow> deep_outcome option \<times> walk_state" where
  "pdf_check e opts src ft s =
     (if (clamav_heuristics opts \<or> heuristics opts) \<and> ft = FT_Pdf then
        case whole opts src ''the whole-file structural heuristics'' s of
          (None, s) \<Rightarrow> (None, s)
        | (Some bs, s) \<Rightarrow> hit_if e (obfuscated_name e bs) ''Heuristics.PDF.ObfuscatedNameObject'' Heuristic s
      else (None, s))"

definition whole_buffer_heuristics ::
  "analyses \<Rightarrow> scan_options \<Rightarrow> source \<Rightarrow> file_type \<Rightarrow> bool \<Rightarrow> walk_state \<Rightarrow> deep_outcome option \<times> walk_state" where
  "whole_buffer_heuristics e opts src ft carved =
     checks
       [hit_if e ((clamav_heuristics opts \<or> heuristics opts) \<and> ft = FT_Zip \<and>
                  OVERLAP_THRESHOLD < overlapping_local_records e src) ''Heuristics.Zip.OverlappingFiles'' Heuristic,
        hit_if e (ft = FT_Xz \<and> (case xz_dict e (window src 0 (12 + 1024 + 64)) of Some n \<Rightarrow> XZ_MAX_DICT < n | None \<Rightarrow> False))
          ''Heuristics.XZ.DicSizeLimit'' Heuristic,
        media_check e opts src,
        hit_if e (alert_broken opts \<and> list_ex (\<lambda>m. begins_with m (window src 0 16)) EXECUTABLE_MAGIC \<and> \<not> carved \<and>
                  looks_broken e src) ''Heuristics.Broken.Executable'' Heuristic,
        hit_if e (alert_broken opts \<and> \<not> carved \<and> elf_stripped e src)
          (if clamav_compat opts then ''Heuristics.Broken.Executable'' else ''Heuristics.ELF.StrippedSectionHeaders'')
          Heuristic,
        hit_opt e (if alert_partition_intersection opts then partition_alert e src else None) Heuristic,
        pdf_check e opts src ft]"

definition structured_data_scan :: "analyses \<Rightarrow> scan_options \<Rightarrow> source \<Rightarrow> walk_state \<Rightarrow> deep_outcome option \<times> walk_state" where
  "structured_data_scan e opts d s =
     (if structured_cc_count opts = None \<and> structured_ssn_count opts = None then (None, s)
      else if \<not> is_textual (window d 0 8192) then (None, s)
      else
        let reached = (\<lambda>threshold n. case (threshold, n) of (Some t, Some n) \<Rightarrow> t \<le> n | _ \<Rightarrow> False) in
        checks
          [hit_if e (reached (structured_cc_count opts) (count_credit_cards (content d)))
             ''Heuristics.Structured.CreditCardNumber'' Heuristic,
           hit_if e (reached (structured_ssn_count opts) (count_ssns (content d) Both))
             ''Heuristics.Structured.SSN'' Heuristic] s)"

definition phishing_scan :: "analyses \<Rightarrow> scan_options \<Rightarrow> source \<Rightarrow> walk_state \<Rightarrow> deep_outcome option \<times> walk_state" where
  "phishing_scan e opts d s =
     (if \<not> alert_phishing opts \<or> \<not> is_textual (window d 0 8192) then (None, s)
      else
        let (found, complete) = phishing e d in
        hit_opt e found Heuristic (mark_if (\<not> complete) Mark_truncated (missed_if (\<not> complete) SEARCH_INCOMPLETE s)))"

section \<open>Normalised views\<close>

definition not_made :: "scan_options \<Rightarrow> source \<Rightarrow> string \<Rightarrow> mark" where
  "not_made opts d why =
     Mark_over_size (over_size (source_len d) opts (''its normalised text views were not scanned: '' @ why))"

definition make_view :: "analyses \<Rightarrow> scan_options \<Rightarrow> view_kind \<Rightarrow> source \<Rightarrow> walk_state \<Rightarrow> source option \<times> walk_state" where
  "make_view e opts k d s =
     (if k = View_Deobfuscated then
        let (v, cut) = deobfuscate e d in (Some (in_memory v), mark_if cut Mark_truncated (missed_if cut SEARCH_INCOMPLETE s))
      else if held d then (Some (in_memory (normalize e k (content d))), s)
      else
        case (if spilling opts then spill_view e k d else Inl ''spilling to disk is off'') of
          Inr v \<Rightarrow> (Some v, s)
        | Inl why \<Rightarrow> (None, put_mark (not_made opts d why) (missing why s)))"

definition visible_text_view ::
  "analyses \<Rightarrow> scan_options \<Rightarrow> string \<Rightarrow> source \<Rightarrow> walk_state \<Rightarrow> visible option \<times> walk_state" where
  "visible_text_view e opts name d s =
     (if \<not> wants_text e name (window d 0 1024) then (None, s)
      else case whole opts d ''the reading of its visible text'' s of
        (None, s) \<Rightarrow> (None, s)
      | (Some bs, s) \<Rightarrow>
          let cap = min (sat64 (sat64 (length bs * 4) + 64 * 1024)) (deep_analysis_max opts) in
          case visible_text e name bs cap of
            None \<Rightarrow> (None, s)
          | Some v \<Rightarrow>
              let s = missed_if (vis_truncated v \<or> vis_unreadable v) SEARCH_INCOMPLETE s;
                  s = mark_if (vis_truncated v) Mark_truncated s in
              if vis_unreadable v then (None, put_mark Mark_truncated s)
              else (Some (v\<lparr>vis_text := normalize e View_Text (vis_text v)\<rparr>), s))"

section \<open>The matching core\<close>

definition hash_matchable :: "nat \<Rightarrow> bool" where
  "hash_matchable n \<longleftrightarrow> 6 \<le> n"

definition is_ignored :: "analyses \<Rightarrow> scan_options \<Rightarrow> string \<Rightarrow> bool \<Rightarrow> bool" where
  "is_ignored e opts name unofficial = ignored e (report_name name unofficial (unofficial_suffix opts))"

definition report_hit ::
  "analyses \<Rightarrow> scan_options \<Rightarrow> string \<Rightarrow> bool \<Rightarrow> nat \<Rightarrow> hit_method \<Rightarrow> walk_state \<Rightarrow> deep_outcome option \<times> walk_state" where
  "report_hit e opts name unofficial off m = sink_hit e (report_name name unofficial (unofficial_suffix opts)) off m"

text \<open>
  What a pass says of the object's type: the last \<^verbatim>\<open>HandlerType:\<close> decision, and whether it was made
  for the object's own bytes, is the one left pending.
\<close>

type_synonym pending_type = "(bool \<times> file_type) option"

definition engine_pass ::
  "analyses \<Rightarrow> scan_options \<Rightarrow> obj \<Rightarrow> bool \<Rightarrow> bytes option \<Rightarrow> source \<Rightarrow> file_type \<Rightarrow> pending_type \<Rightarrow> walk_state
   \<Rightarrow> deep_outcome option \<times> pending_type \<times> walk_state" where
  "engine_pass e opts ob raw img src as_type pt s =
     (let all = wants_all s;
          (found, marks, rt) = engine e opts all (is_ignored e opts) src as_type (container ob) (s_ancestry s) img;
          found = (if all then found else take 1 found);
          pt = (case rt of Some t \<Rightarrow> Some (raw, t) | None \<Rightarrow> pt);
          (stop, s) = checks (map (\<lambda>(name, off, unofficial). report_hit e opts name unofficial off Pattern) found)
                        (put_marks marks (missed_marks marks s))
      in (stop, pt, s))"

fun view_passes ::
  "analyses \<Rightarrow> scan_options \<Rightarrow> obj \<Rightarrow> source \<Rightarrow> (view_kind \<times> file_type) list \<Rightarrow> pending_type \<Rightarrow> walk_state
   \<Rightarrow> deep_outcome option \<times> pending_type \<times> walk_state" where
  "view_passes e opts ob d [] pt s = (None, pt, s)"
| "view_passes e opts ob d ((k, as_type) # ks) pt s =
     (case make_view e opts k d s of
        (None, s) \<Rightarrow> view_passes e opts ob d ks pt s
      | (Some v, s) \<Rightarrow>
          (case engine_pass e opts ob False None v as_type pt s of
             (Some stop, pt, s) \<Rightarrow> (Some stop, pt, s)
           | (None, pt, s) \<Rightarrow> view_passes e opts ob d ks pt s))"

definition visible_pass ::
  "analyses \<Rightarrow> scan_options \<Rightarrow> obj \<Rightarrow> source \<Rightarrow> pending_type \<Rightarrow> walk_state
   \<Rightarrow> deep_outcome option \<times> pending_type \<times> walk_state" where
  "visible_pass e opts ob d pt s =
     (if clamav_compat opts \<or> engine_empty e then (None, pt, s)
      else case visible_text_view e opts (case obj_name ob of Some n \<Rightarrow> n | None \<Rightarrow> []) d s of
        (None, s) \<Rightarrow> (None, pt, s)
      | (Some v, s) \<Rightarrow>
          (case engine_pass e opts ob False None (in_memory (vis_text v)) FT_TextView pt s of
             (Some stop, pt, s) \<Rightarrow> (Some stop, pt, s)
           | (None, pt, s) \<Rightarrow>
               if \<not> alert_phishing opts then (None, pt, s)
               else
                 let (found, complete) = phishing_links e (vis_links v);
                     s = missed_if (\<not> complete) SEARCH_INCOMPLETE s;
                     (stop, s) = (case found of
                        None \<Rightarrow> (None, mark_if (\<not> complete) Mark_truncated s)
                      | Some g \<Rightarrow> report_hit e opts g False 0 Heuristic (mark_if (\<not> complete) Mark_truncated s))
                 in (stop, pt, s)))"

text \<open>
  What bytecode made, the section hashes, the whole-file hash and YARA. \<open>writes\<close> is how many bytes
  bytecode may still write for the object.
\<close>

definition bytecode_pass ::
  "analyses \<Rightarrow> scan_options \<Rightarrow> source \<Rightarrow> file_type \<Rightarrow> nat \<Rightarrow> walk_state \<Rightarrow> deep_outcome option \<times> bytes list \<times> walk_state" where
  "bytecode_pass e opts d ft writes s =
     (if bytecode_empty e then (None, [], s)
      else
        let (det, extracted, marks) = bytecode e d ft (max_buffer_bytes (limits (s_budget s))) writes;
            s = put_marks marks (missed_marks marks s);
            (stop, s) = (case det of Some name \<Rightarrow> report_hit e opts name False 0 Bytecode s | None \<Rightarrow> (None, s))
        in (stop, extracted, s))"

definition database_pass ::
  "analyses \<Rightarrow> scan_options \<Rightarrow> obj \<Rightarrow> source \<Rightarrow> bytes option \<Rightarrow> walk_state \<Rightarrow> deep_outcome option \<times> walk_state" where
  "database_pass e opts ob d img s =
     unless_stopped
       (checks (map (\<lambda>(name, unofficial). report_hit e opts name unofficial 0 Hash)
          ((case img of Some i \<Rightarrow> sections e i | None \<Rightarrow> []) @
           (if \<not> hashes_empty e \<and> hash_matchable (source_len d)
            then (case hash_lookup e d of Some h \<Rightarrow> [h] | None \<Rightarrow> []) else []))) s)
       (\<lambda>s. let (rules, marks) = yara e d (obj_filename ob) in
             checks (map (\<lambda>(name, unofficial). report_hit e opts name unofficial 0 Yara) rules)
               (put_marks marks (missed_marks marks s)))"

definition pe_image :: "scan_options \<Rightarrow> file_type \<Rightarrow> source \<Rightarrow> walk_state \<Rightarrow> bytes option \<times> walk_state" where
  "pe_image opts ft d s =
     (if ft = FT_Pe then whole opts d ''the PE layout, icon and section checks'' s else (None, s))"

definition core_matches ::
  "analyses \<Rightarrow> scan_options \<Rightarrow> source \<Rightarrow> file_type \<Rightarrow> obj \<Rightarrow> nat \<Rightarrow> walk_state
   \<Rightarrow> (deep_outcome + bytes list) \<times> pending_type \<times> walk_state" where
  "core_matches e opts d ft ob writes s =
     (let (img, s) = pe_image opts ft d s in
      case engine_pass e opts ob True img d ft None s of
        (Some stop, pt, s) \<Rightarrow> (Inl stop, pt, s)
      | (None, pt, s) \<Rightarrow>
      (case view_passes e opts ob d
              (if \<not> engine_empty e \<and> is_textual_type ft \<and> is_textual (window d 0 8192)
               then normalizations ft d else []) pt s of
        (Some stop, pt, s) \<Rightarrow> (Inl stop, pt, s)
      | (None, pt, s) \<Rightarrow>
      (case visible_pass e opts ob d pt s of
        (Some stop, pt, s) \<Rightarrow> (Inl stop, pt, s)
      | (None, pt, s) \<Rightarrow>
      (case bytecode_pass e opts d ft writes s of
        (Some stop, _, s) \<Rightarrow> (Inl stop, pt, s)
      | (None, made, s) \<Rightarrow>
      (case database_pass e opts ob d img s of
        (Some stop, s) \<Rightarrow> (Inl stop, pt, s)
      | (None, s) \<Rightarrow> (Inr made, pt, s))))))"

record core_rest =
  unpacked :: "bytes list"
  retype :: "file_type option"

definition core ::
  "analyses \<Rightarrow> scan_options \<Rightarrow> source \<Rightarrow> file_type \<Rightarrow> obj \<Rightarrow> nat \<Rightarrow> walk_state
   \<Rightarrow> (deep_outcome + core_rest) \<times> walk_state" where
  "core e opts d ft ob writes s =
     (case core_matches e opts d ft ob writes s of
        (Inl stop, _, s) \<Rightarrow> (Inl stop, s)
      | (Inr made, pt, s) \<Rightarrow>
          (Inr \<lparr>unpacked = made, retype = (case pt of Some (True, t) \<Rightarrow> Some t | _ \<Rightarrow> None)\<rparr>, s))"

end
