(* ===== verification/Scan_Walk.thy ===== *)
theory Scan_Walk
  imports Scan_Core Volume
begin

text \<open>
  The scan walk of \<^verbatim>\<open>exav-core/src/lib.rs\<close> over containers and what objects carry, with the driver of
  a container walk (\<^verbatim>\<open>exav-unpack/src/stream.rs\<close>): members read, visited and remembered, multi-volume
  sets rejoined, archives and files scanned, carved and decoded. The scan of an object one level
  down is the parameter \<open>rec\<close> of every operation; \<open>scan_level\<close> ties the knot, level by level.
\<close>

type_synonym scan_fn = "obj \<Rightarrow> source \<Rightarrow> walk_state \<Rightarrow> deep_outcome \<times> walk_state"

definition stops :: "deep_outcome \<Rightarrow> bool" where
  "stops out = (case out of Infected _ _ _ \<Rightarrow> True | Limits _ \<Rightarrow> True | _ \<Rightarrow> False)"

definition is_infected :: "deep_outcome \<Rightarrow> bool" where
  "is_infected out = (case out of Infected _ _ _ \<Rightarrow> True | _ \<Rightarrow> False)"

section \<open>Names of heuristics\<close>

definition packed_heuristic_name :: "string \<Rightarrow> string option" where
  "packed_heuristic_name member =
     (case strip_suffix ''-packed image'' member of
        Some packer \<Rightarrow> if packer = [] then None else Some (''Heuristics.Packed.'' @ packer)
      | None \<Rightarrow> None)"

definition encrypted_heuristic_name :: "format \<Rightarrow> string" where
  "encrypted_heuristic_name fmt =
     (if fmt = F_Zip then ''Heuristics.Encrypted.Zip''
      else if fmt = F_Rar then ''Heuristics.Encrypted.RAR''
      else if fmt = F_SevenZip then ''Heuristics.Encrypted.7Zip''
      else if fmt = F_Pdf then ''Heuristics.Encrypted.PDF''
      else if fmt = F_Ole then ''Heuristics.Encrypted.OLE2''
      else ''Heuristics.Encrypted.Archive'')"

definition macro_dialect :: "string \<Rightarrow> string option" where
  "macro_dialect name =
     (if name = ''vba_project'' \<or> name = ''vba_project_raw'' then Some ''VBA''
      else if name = ''xlm_macro'' then Some ''XLM'' else None)"

section \<open>Members\<close>

record member_cx =
  container_size :: nat
  container_is_ole :: bool
  member_container :: "cl_type option"
  cx_ft :: file_type
  cx_fmt :: format
  cx_depth :: nat

record tally =
  t_pos :: nat
  t_unscannable :: "string option"
  t_password :: "string option"
  t_limits :: "string option"
  t_encrypted :: "string option"

definition tally_new :: tally where
  "tally_new = \<lparr>t_pos = 1, t_unscannable = None, t_password = None, t_limits = None, t_encrypted = None\<rparr>"

definition tally_verdict :: "tally \<Rightarrow> deep_outcome" where
  "tally_verdict t =
     (case t_password t of Some r \<Rightarrow> PasswordProtected r
      | None \<Rightarrow> (case t_limits t of Some r \<Rightarrow> Limits r
      | None \<Rightarrow> (case t_unscannable t of Some r \<Rightarrow> Unscannable r
      | None \<Rightarrow> Clean)))"

definition note_unscannable :: "string \<Rightarrow> tally \<Rightarrow> tally" where
  "note_unscannable r t = t\<lparr>t_unscannable := get_or_insert (t_unscannable t) r\<rparr>"

definition note_password :: "string \<Rightarrow> tally \<Rightarrow> tally" where
  "note_password r t = t\<lparr>t_password := get_or_insert (t_password t) r\<rparr>"

definition note_limits :: "string \<Rightarrow> tally \<Rightarrow> tally" where
  "note_limits r t = t\<lparr>t_limits := get_or_insert (t_limits t) r\<rparr>"

text \<open>The encryption alert is on the local header for a ZIP member.\<close>

definition encryption_alert :: "member_meta \<Rightarrow> bool" where
  "encryption_alert m =
     (case zip_local_flags m of None \<Rightarrow> m_encrypted m | Some f \<Rightarrow> odd f \<and> \<not> odd (f div 0x2000))"

definition encrypted_check ::
  "analyses \<Rightarrow> scan_options \<Rightarrow> member_cx \<Rightarrow> member_meta \<Rightarrow> tally \<Rightarrow> walk_state \<Rightarrow> deep_outcome option \<times> tally \<times> walk_state" where
  "encrypted_check e opts cx m t s =
     (if encryption_alert m \<and> alert_encrypted opts then
        if unsupported m \<noteq> None \<or> wants_all s
        then (let (stop, s) = sink_hit e (encrypted_heuristic_name (cx_fmt cx)) 0 Heuristic s in (stop, t, s))
        else (None, t\<lparr>t_encrypted := get_or_insert (t_encrypted t) (encrypted_heuristic_name (cx_fmt cx))\<rparr>, s)
      else (None, t, s))"

definition note_unread :: "member_meta \<Rightarrow> tally \<Rightarrow> walk_state \<Rightarrow> tally \<times> walk_state" where
  "note_unread m t s =
     (case unsupported m of
        None \<Rightarrow> (t, s)
      | Some r \<Rightarrow> (if m_encrypted m then note_password r t else note_unscannable r t, s))"

text \<open>The container-metadata signatures, against either header's encryption bit; no name twice.\<close>

fun cdb_checks ::
  "analyses \<Rightarrow> scan_options \<Rightarrow> member_cx \<Rightarrow> member_meta \<Rightarrow> nat \<Rightarrow> nat \<Rightarrow> bool list \<Rightarrow> string option \<Rightarrow> walk_state
   \<Rightarrow> deep_outcome option \<times> walk_state" where
  "cdb_checks e opts cx m size_real at_pos [] reported s = (None, s)"
| "cdb_checks e opts cx m size_real at_pos (enc # encs) reported s =
     (case cdb e (cx_ft cx) (container_size cx) (m_name m) (comp_size m) size_real enc at_pos of
        None \<Rightarrow> cdb_checks e opts cx m size_real at_pos encs reported s
      | Some (sig, unofficial) \<Rightarrow>
          if reported = Some sig then cdb_checks e opts cx m size_real at_pos encs reported s
          else unless_stopped (report_hit e opts sig unofficial 0 Hash s)
                 (cdb_checks e opts cx m size_real at_pos encs (Some sig)))"

definition cdb_records :: "member_meta \<Rightarrow> bool list" where
  "cdb_records m =
     m_encrypted m #
     (case zip_local_flags m of None \<Rightarrow> [] | Some f \<Rightarrow> if odd f \<noteq> m_encrypted m then [odd f] else [])"

definition member_metadata_scan ::
  "analyses \<Rightarrow> scan_options \<Rightarrow> member_cx \<Rightarrow> member_meta \<Rightarrow> nat \<Rightarrow> tally \<Rightarrow> walk_state
   \<Rightarrow> deep_outcome option \<times> tally \<times> walk_state" where
  "member_metadata_scan e opts cx m size_real t s =
     (let at_pos = t_pos t; t = t\<lparr>t_pos := t_pos t + 1\<rparr> in
      case encrypted_check e opts cx m t s of
        (Some stop, t, s) \<Rightarrow> (Some stop, t, s)
      | (None, t, s) \<Rightarrow>
      (case hit_opt e (if alert_packed opts then packed_heuristic_name (m_name m) else None) Heuristic s of
        (Some stop, s) \<Rightarrow> (Some stop, t, s)
      | (None, s) \<Rightarrow>
      (case note_unread m t s of
        (t, s) \<Rightarrow>
          (let (stop, s) = checks
             [hit_opt e (if alert_macros opts \<and> container_is_ole cx
                         then map_option (\<lambda>k. ''Heuristics.OLE2.ContainsMacros.'' @ k) (macro_dialect (m_name m)) else None)
                Heuristic,
              cdb_checks e opts cx m size_real at_pos (if cdb_empty e then [] else cdb_records m) None] s
           in (stop, t, s)))))"

section \<open>Members remembered clean\<close>

definition CLEAN_MEMO_MIN :: nat where "CLEAN_MEMO_MIN = 64 * 1024"

definition CLEAN_MEMO_MAX :: nat where "CLEAN_MEMO_MAX = 512 * 1024 * 1024"

definition CLEAN_SEEN_MAX :: nat where "CLEAN_SEEN_MAX = 4096"

text \<open>The code digests the key with SHA-256; here it is the digested value itself.\<close>

definition clean_memo_key :: "member_cx \<Rightarrow> string \<Rightarrow> file_type option \<Rightarrow> source \<Rightarrow> walk_state \<Rightarrow> memo_key option" where
  "clean_memo_key cx name ct d s =
     (if source_len d < CLEAN_MEMO_MIN \<or> CLEAN_MEMO_MAX < source_len d then None
      else if length (content d) < source_len d then None
      else Some (member_container cx, ct, s_ancestry s,
                 to_ascii_lowercase (case rsplit_once CHR ''.'' name of Some (_, x) \<Rightarrow> x | None \<Rightarrow> []), content d))"

definition clean_seen :: "memo_key \<Rightarrow> nat \<Rightarrow> walk_state \<Rightarrow> bool" where
  "clean_seen k dep s = (case map_of (s_memo s) k of Some d \<Rightarrow> d \<le> dep | None \<Rightarrow> False)"

definition clean_seen_insert :: "memo_key \<Rightarrow> nat \<Rightarrow> walk_state \<Rightarrow> walk_state" where
  "clean_seen_insert k dep s =
     (case map_of (s_memo s) k of
        Some d \<Rightarrow> s\<lparr>s_memo := (k, min d dep) # filter (\<lambda>(k', _). k' \<noteq> k) (s_memo s)\<rparr>
      | None \<Rightarrow> if length (s_memo s) < CLEAN_SEEN_MAX then s\<lparr>s_memo := (k, dep) # s_memo s\<rparr> else s)"

definition member_content_scan ::
  "scan_fn \<Rightarrow> analyses \<Rightarrow> scan_options \<Rightarrow> member_cx \<Rightarrow> string \<Rightarrow> source \<Rightarrow> tally \<Rightarrow> walk_state
   \<Rightarrow> deep_outcome option \<times> tally \<times> walk_state" where
  "member_content_scan rec e opts cx name d t s =
     (let ct = (if container_is_ole cx \<and> is_textual_type (identify e d) then Some FT_Ole else None);
          ob = \<lparr>depth = cx_depth cx + 1, container = member_container cx, core_type = ct, obj_filename = None,
                obj_name = Some name, core_on = True, carve = True, embedded_obj = False\<rparr>;
          seen = clean_memo_key cx name ct d s
      in if (case seen of Some k \<Rightarrow> clean_seen k (depth ob) s | None \<Rightarrow> False) then (None, t, s)
         else
           let before = scan_truncated (s_flags s);
               (out, s) = rec ob d s;
               s = (case (out, seen) of
                      (Clean, Some k) \<Rightarrow>
                        if before \<or> \<not> scan_truncated (s_flags s) then clean_seen_insert k (depth ob) s else s
                    | _ \<Rightarrow> s)
           in case out of
                Clean \<Rightarrow> (None, t, s)
              | Unscannable r \<Rightarrow> (None, note_unscannable r t, s)
              | PasswordProtected r \<Rightarrow> (None, note_password r t, s)
              | Infected sig off m \<Rightarrow> if ignored e sig then (None, t, s) else (Some (Infected sig off m), t, s)
              | Limits r \<Rightarrow> (Some (Limits r), t, s))"

section \<open>Reading a member\<close>

text \<open>
  Reading a stream under a \<^verbatim>\<open>BudgetReader\<close> of \<open>cap\<close> bytes: up to \<open>n\<close> bytes (all of them for
  \<^verbatim>\<open>None\<close>), and how the reading ended.
\<close>

datatype read_end = Read_ok | Read_error string bool | Read_overflow

definition br_read :: "nat \<Rightarrow> stream \<Rightarrow> nat option \<Rightarrow> bytes \<times> read_end" where
  "br_read cap st n =
     (let avail = min cap (length (st_bytes st)) in
      case n of
        Some k \<Rightarrow>
          if k \<le> avail then (take k (st_bytes st), Read_ok)
          else if cap < length (st_bytes st) then (take cap (st_bytes st), Read_overflow)
          else (st_bytes st, case st_error st of None \<Rightarrow> Read_ok | Some (err, hides) \<Rightarrow> Read_error err hides)
      | None \<Rightarrow>
          if cap < length (st_bytes st) then (take cap (st_bytes st), Read_overflow)
          else (st_bytes st, case st_error st of None \<Rightarrow> Read_ok | Some (err, hides) \<Rightarrow> Read_error err hides))"

datatype body = Body_none | Body_mem bytes | Body_spilled source

text \<open>What reading a member comes to, and how many bytes the reader delivered, and whether it overflowed.\<close>

record read_result =
  r_body :: "deep_outcome + body"
  r_failed :: "(string \<times> bool) option"
  r_tally :: tally
  r_state :: walk_state
  r_count :: nat
  r_overflowed :: bool

definition member_too_large :: "scan_options \<Rightarrow> string \<Rightarrow> string" where
  "member_too_large opts why =
     ''a member is over the '' @ dec_string (deep_analysis_max opts) @ ''-byte deep-analysis limit '' @
     ''(--max-object-bytes) and could not be spilled to disk ('' @ why @ ''): it was not scanned''"

definition not_scanned :: "scan_options \<Rightarrow> string \<Rightarrow> tally \<Rightarrow> walk_state \<Rightarrow> nat \<Rightarrow> read_result" where
  "not_scanned opts why t s n =
     (let (out, s) = limit_stop opts MaxFileSize (member_too_large opts why) s in
      case out of
        Limits r \<Rightarrow> \<lparr>r_body = Inr Body_none, r_failed = None, r_tally = note_limits r t, r_state = s,
                     r_count = n, r_overflowed = False\<rparr>
      | alert \<Rightarrow> \<lparr>r_body = Inl alert, r_failed = None, r_tally = t, r_state = s, r_count = n, r_overflowed = False\<rparr>)"

definition OVER_BUDGET :: string where "OVER_BUDGET = ''member exceeds the scan budget''"

definition over_budget :: "tally \<Rightarrow> walk_state \<Rightarrow> nat \<Rightarrow> read_result" where
  "over_budget t s n =
     \<lparr>r_body = Inl (Limits OVER_BUDGET), r_failed = None, r_tally = t, r_state = s,
      r_count = n, r_overflowed = True\<rparr>"

definition unreadable :: "string \<Rightarrow> tally \<Rightarrow> walk_state \<Rightarrow> nat \<Rightarrow> read_result" where
  "unreadable r t s n =
     \<lparr>r_body = Inr Body_none, r_failed = None, r_tally = note_unscannable r t, r_state = s,
      r_count = n, r_overflowed = False\<rparr>"

definition got :: "body \<Rightarrow> (string \<times> bool) option \<Rightarrow> tally \<Rightarrow> walk_state \<Rightarrow> nat \<Rightarrow> read_result" where
  "got b f t s n = \<lparr>r_body = Inr b, r_failed = f, r_tally = t, r_state = s, r_count = n, r_overflowed = False\<rparr>"

text \<open>A member of which something was not read, or that is refused for what its reader says of it.\<close>

definition unread :: "bool \<Rightarrow> bytes \<Rightarrow> read_end \<Rightarrow> bool" where
  "unread sums bs fin =
     (case fin of Read_ok \<Rightarrow> False | Read_overflow \<Rightarrow> True | Read_error _ hides \<Rightarrow> sums \<or> (bs = [] \<and> hides))"

definition read_rest :: "analyses \<Rightarrow> scan_options \<Rightarrow> nat \<Rightarrow> stream \<Rightarrow> tally \<Rightarrow> walk_state \<Rightarrow> read_result" where
  "read_rest e opts cap st t s =
     (let (bs, fin) = br_read cap st None; n = length bs; sp = spill e bs;
          s = missed_if (fin \<noteq> Read_ok \<or> (\<forall>d. sp \<noteq> Inr d)) ''member not read'' s in
      case (case sp of Inl (why, k) \<Rightarrow> if k < n then Some (why, k) else None | Inr _ \<Rightarrow> None) of
        Some (why, k) \<Rightarrow> not_scanned opts why t s (max (deep_analysis_max opts + 1) k)
      | None \<Rightarrow>
          (case fin of
             Read_overflow \<Rightarrow> over_budget t s n
           | Read_error err _ \<Rightarrow> unreadable (''member stream error: '' @ err) t s n
           | Read_ok \<Rightarrow>
               (case sp of
                  Inl (why, _) \<Rightarrow> not_scanned opts why t s n
                | Inr d \<Rightarrow> got (Body_spilled d) None t s n)))"

definition read_member :: "analyses \<Rightarrow> scan_options \<Rightarrow> nat \<Rightarrow> stream \<Rightarrow> tally \<Rightarrow> walk_state \<Rightarrow> read_result" where
  "read_member e opts cap st t s =
     (let lim = deep_analysis_max opts; (bs, fin) = br_read cap st (Some (lim + 1)); n = length bs;
          s = missed_if (unread (verify_checksums (s_budget s)) bs fin) ''member not read'' s in
      case fin of
        Read_overflow \<Rightarrow> over_budget t s n
      | Read_error err hides \<Rightarrow>
          if verify_checksums (s_budget s) \<or> (bs = [] \<and> hides)
          then unreadable (''member decode error: '' @ err) t s n
          else got (Body_mem (take lim bs)) (Some (err, hides)) t s n
      | Read_ok \<Rightarrow>
          if n \<le> lim then got (Body_mem bs) None t s n
          else if spilling opts then read_rest e opts cap st t s
          else not_scanned opts ''spilling to disk is off'' t (missing ''member not held'' s) n)"

section \<open>Visiting a member\<close>

type_synonym visit_state = "tally \<times> collector \<times> walk_state"

datatype member = Member_bytes bytes | Member_stream nat stream

definition read_content ::
  "analyses \<Rightarrow> scan_options \<Rightarrow> member option \<Rightarrow> tally \<Rightarrow> walk_state \<Rightarrow> read_result" where
  "read_content e opts m t s =
     (case m of
        None \<Rightarrow> got Body_none None t s 0
      | Some (Member_bytes bs) \<Rightarrow> got (Body_mem bs) None t s 0
      | Some (Member_stream cap st) \<Rightarrow> read_member e opts cap st t s)"

definition scan_salvaged ::
  "scan_fn \<Rightarrow> analyses \<Rightarrow> scan_options \<Rightarrow> member_cx \<Rightarrow> string \<Rightarrow> bytes \<Rightarrow> string \<Rightarrow> bool \<Rightarrow> tally \<Rightarrow> walk_state
   \<Rightarrow> deep_outcome option \<times> tally \<times> walk_state" where
  "scan_salvaged rec e opts cx name bs err hides t s =
     (case member_content_scan rec e opts cx name (in_memory bs) t s of
        (Some stop, t, s) \<Rightarrow> (Some stop, t, s)
      | (None, t, s) \<Rightarrow>
          if hides then
            let r = ''member decode error (salvaged '' @ dec_string (length bs) @ '' B, no match): '' @ err
            in (None, note_unscannable r t, s)
          else (None, t, s))"

definition scan_body ::
  "scan_fn \<Rightarrow> analyses \<Rightarrow> scan_options \<Rightarrow> member_cx \<Rightarrow> member_meta \<Rightarrow> body \<Rightarrow> (string \<times> bool) option \<Rightarrow> visit_state
   \<Rightarrow> deep_outcome option \<times> visit_state" where
  "scan_body rec e opts cx m b failed v =
     (case v of (t, c, s) \<Rightarrow>
      (case b of
         Body_none \<Rightarrow> (None, t, c, s)
       | Body_mem bs \<Rightarrow>
           if bs = [] \<and> unsupported m \<noteq> None then (None, t, c, s)
           else (case failed of
             Some (err, hides) \<Rightarrow>
               (let (stop, t, s) = scan_salvaged rec e opts cx (m_name m) bs err hides t (missed_if hides err s)
                in (stop, t, c, s))
           | None \<Rightarrow>
               (case offer c (m_name m) bs of
                  (Held, c) \<Rightarrow> (None, t, c, s)
                | (PassThrough _ bs, c) \<Rightarrow>
                    (let (stop, t, s) = member_content_scan rec e opts cx (m_name m) (in_memory bs) t s
                     in (stop, t, c, s))))
       | Body_spilled d \<Rightarrow>
           (let (stop, t, s) = member_content_scan rec e opts cx (m_name m) d t
                  (missed_if (failure d \<noteq> None) ''spilled member not read'' s) in
            case failure d of
              Some err \<Rightarrow>
                (let r = ''spilled member unreadable: '' @ err in (stop, note_unscannable r t, c, s))
            | None \<Rightarrow> (stop, t, c, s))))"

text \<open>A member byte-identical to its container is not followed.\<close>

definition fixed_point :: "source \<Rightarrow> body \<Rightarrow> bool" where
  "fixed_point host b =
     (case b of Body_mem bs \<Rightarrow> length bs = source_len host \<and> window host 0 (length bs) = bs | _ \<Rightarrow> False)"

definition body_size :: "member_meta \<Rightarrow> body \<Rightarrow> nat" where
  "body_size m b =
     (case b of Body_mem bs \<Rightarrow> length bs | Body_spilled d \<Rightarrow> source_len d | Body_none \<Rightarrow> comp_size m)"

definition visit_body ::
  "scan_fn \<Rightarrow> analyses \<Rightarrow> scan_options \<Rightarrow> member_cx \<Rightarrow> source \<Rightarrow> member_meta \<Rightarrow> body \<Rightarrow> (string \<times> bool) option
   \<Rightarrow> visit_state \<Rightarrow> deep_outcome option \<times> visit_state" where
  "visit_body rec e opts cx host m b failed v =
     (case v of (t, c, s) \<Rightarrow>
      if fixed_point host b then (None, t, c, s)
      else case member_metadata_scan e opts cx m (body_size m b) t (missed_if (unsupported m \<noteq> None) ''member not decoded'' s) of
        (Some stop, t, s) \<Rightarrow> (Some stop, t, c, s)
      | (None, t, s) \<Rightarrow> scan_body rec e opts cx m b failed (t, c, s))"

definition visit_member ::
  "scan_fn \<Rightarrow> analyses \<Rightarrow> scan_options \<Rightarrow> member_cx \<Rightarrow> source \<Rightarrow> member_meta \<Rightarrow> member option \<Rightarrow> visit_state
   \<Rightarrow> (deep_outcome option \<times> nat \<times> bool) \<times> visit_state" where
  "visit_member rec e opts cx host m con v =
     (case v of (t, c, s) \<Rightarrow>
      let rr = read_content e opts con t s in
      case r_body rr of
        Inl stop \<Rightarrow> ((Some stop, r_count rr, r_overflowed rr), r_tally rr, c, r_state rr)
      | Inr b \<Rightarrow>
          (let (stop, v) = visit_body rec e opts cx host m b (r_failed rr) (r_tally rr, c, r_state rr)
           in ((stop, r_count rr, r_overflowed rr), v)))"

section \<open>The walk over a container\<close>

type_synonym visit_fn = "member_meta \<Rightarrow> member option \<Rightarrow> visit_state \<Rightarrow> (deep_outcome option \<times> nat \<times> bool) \<times> visit_state"

type_synonym walk_result = "(limit_hit + deep_outcome option) \<times> visit_state"

definition RATIO_FLOOR_BYTES :: nat where "RATIO_FLOOR_BYTES = 4 * 1024 * 1024"

definition ratio_cap :: "nat \<Rightarrow> budget \<Rightarrow> nat option" where
  "ratio_cap n b =
     (if n = 0 then None
      else Some (max (sat64 (n * sat64 (max_compression_ratio (limits b) + 1)) - 1) (RATIO_FLOOR_BYTES - 1)))"

definition emit_bytes :: "visit_fn \<Rightarrow> member_meta \<Rightarrow> bytes option \<Rightarrow> visit_state \<Rightarrow> walk_result" where
  "emit_bytes vf m con v =
     (case v of (t, c, s) \<Rightarrow>
      case (case con of Some bs \<Rightarrow> charge (length bs) s | None \<Rightarrow> (Inr (), s)) of
        (Inl h, s) \<Rightarrow> (Inl h, t, c, s)
      | (Inr _, s) \<Rightarrow> (let ((stop, _, _), v) = vf m (map_option Member_bytes con) (t, c, s) in (Inr stop, v)))"

definition QUOTE :: char where "QUOTE = CHR 0x27"

definition emit_stream :: "visit_fn \<Rightarrow> member_meta \<Rightarrow> stream \<Rightarrow> visit_state \<Rightarrow> walk_result" where
  "emit_stream vf m st v =
     (let b = s_budget (snd (snd v));
          scan_cap = remaining_scan b;
          rcap = ratio_cap (comp_size m) b;
          cap = (case rcap of None \<Rightarrow> scan_cap | Some r \<Rightarrow> min r scan_cap);
          ((stop, count, overflowed), (t, c, s)) = vf m (Some (Member_stream cap st)) v
      in if overflowed then
           (Inl (hit_new
              (if (case rcap of Some r \<Rightarrow> r < scan_cap | None \<Rightarrow> False)
               then ''member '' @ QUOTE # m_name m @ QUOTE # '': compression ratio > '' @ dec_string (max_compression_ratio (limits b))
               else ''member '' @ QUOTE # m_name m @ QUOTE # '' exceeds scan budget '' @ dec_string (max_scanned_bytes (limits b)))),
            t, c, s)
         else case charge count s of
             (Inl h, s) \<Rightarrow> (Inl h, t, c, s)
           | (Inr _, s) \<Rightarrow> (Inr stop, t, c, s))"

definition do_op :: "visit_fn \<Rightarrow> walk_op \<Rightarrow> visit_state \<Rightarrow> walk_result" where
  "do_op vf op v =
     (case op of
        Op_bytes m con \<Rightarrow> emit_bytes vf m con v
      | Op_stream m st \<Rightarrow> emit_stream vf m st v
      | Op_visit m \<Rightarrow> (let ((stop, _, _), v) = vf m None v in (Inr stop, v))
      | Op_fail h \<Rightarrow> (case v of (t, c, s) \<Rightarrow> (Inl h, t, c, missing (reason h) s)))"

text \<open>A step of a decoder may spend from the budget; the limits of a budget never change.\<close>

definition spend :: "(budget \<Rightarrow> walk_op \<times> budget) \<Rightarrow> visit_state \<Rightarrow> walk_op \<times> visit_state" where
  "spend f v =
     (case v of (t, c, s) \<Rightarrow>
      let (op, b) = f (s_budget s) in (op, t, c, s\<lparr>s_budget := b\<lparr>limits := limits (s_budget s)\<rparr>\<rparr>))"

fun dispatch :: "visit_fn \<Rightarrow> (budget \<Rightarrow> walk_op \<times> budget) list \<Rightarrow> visit_state \<Rightarrow> walk_result" where
  "dispatch vf [] v = (Inr None, v)"
| "dispatch vf (f # fs) v =
     (let (op, v) = spend f v in
      case do_op vf op v of
        (Inr None, v) \<Rightarrow> dispatch vf fs v
      | stopped \<Rightarrow> stopped)"

definition EXCLUDED :: string where "EXCLUDED = ''format excluded by the caller's allowed_formats''"

text \<open>A source that failed is recorded once its decoder is done.\<close>

definition missed_source :: "source \<Rightarrow> walk_result \<Rightarrow> walk_result" where
  "missed_source src r = (case r of (res, t, c, s) \<Rightarrow> (res, t, c, missed_if (failure src \<noteq> None) ''source not read'' s))"

definition walk :: "analyses \<Rightarrow> visit_fn \<Rightarrow> format \<Rightarrow> source \<Rightarrow> visit_state \<Rightarrow> walk_result" where
  "walk e vf fmt src v =
     (if \<not> allows e fmt then
        (let ((stop, _, _), v) = vf
           \<lparr>m_name = format_name e fmt, comp_size = source_len src, m_encrypted = False,
            unsupported = Some EXCLUDED, zip_local_flags = None\<rparr> None v in (Inr stop, v))
      else
        (case missed_source src (dispatch vf (decode e fmt src) v) of
           (Inr None, v) \<Rightarrow>
             (case failure src of
                Some err \<Rightarrow> (Inl (hit_corrupt (format_name e fmt @ '': '' @ err)), v)
              | None \<Rightarrow> (Inr None, v))
         | (Inl h, v) \<Rightarrow>
             (if is_corrupt h then
                (case failure src of
                   Some err \<Rightarrow> (Inl (hit_corrupt (format_name e fmt @ '': '' @ err)), v)
                 | None \<Rightarrow> (Inl h, v))
              else (Inl h, v))
         | stopped \<Rightarrow> stopped))"

text \<open>What was held for rejoining, scanned once the walk has ended.\<close>

fun scan_rejoined ::
  "scan_fn \<Rightarrow> analyses \<Rightarrow> scan_options \<Rightarrow> member_cx \<Rightarrow> (string \<times> bytes \<times> string option) list
   \<Rightarrow> deep_outcome option \<Rightarrow> tally \<Rightarrow> walk_state \<Rightarrow> deep_outcome option \<times> tally \<times> walk_state" where
  "scan_rejoined rec e opts cx [] terminal t s = (terminal, t, s)"
| "scan_rejoined rec e opts cx ((name, buf, incomplete) # rest) terminal t s =
     (if terminal \<noteq> None then (terminal, t, s)
      else
        let s = missed_if (incomplete \<noteq> None) ''incomplete set'' s;
            t = (case incomplete of Some r \<Rightarrow> note_unscannable r t | None \<Rightarrow> t) in
        case charge (length buf) s of
          (Inl h, s) \<Rightarrow> (let (out, s) = limit_stop opts (kind h) (reason h) s in (Some out, t, s))
        | (Inr _, s) \<Rightarrow>
            (let (terminal, t, s) = member_content_scan rec e opts cx name (in_memory buf) t s
             in scan_rejoined rec e opts cx rest terminal t s))"

definition walk_inside ::
  "scan_fn \<Rightarrow> analyses \<Rightarrow> scan_options \<Rightarrow> member_cx \<Rightarrow> source \<Rightarrow> walk_state \<Rightarrow> deep_outcome \<times> walk_state" where
  "walk_inside rec e opts cx d s =
     (let (res, t, c, s) = walk e (visit_member rec e opts cx d) (cx_fmt cx) d
            (tally_new, collector_new (max_buffer_bytes (limits (s_budget s))), s);
          (terminal, s) = (case res of
             Inr r \<Rightarrow> (r, s)
           | Inl h \<Rightarrow> (Some (outcome_for_hit (alert_exceeds_max opts) h), s));
          (terminal, t, s) = scan_rejoined rec e opts cx (into_scannable (collector_finish c)) terminal t s;
          (stop, s) = (case t_encrypted t of
             Some name \<Rightarrow>
               if (case terminal of Some out \<Rightarrow> is_infected out | None \<Rightarrow> False) then (None, s)
               else sink_hit e name 0 Heuristic s
           | None \<Rightarrow> (None, s))
      in case stop of
           Some out \<Rightarrow> (out, s)
         | None \<Rightarrow> (case terminal of Some out \<Rightarrow> out | None \<Rightarrow> tally_verdict t, s))"

definition recursion_exceeded :: "walk_state \<Rightarrow> string" where
  "recursion_exceeded s = ''recursion depth exceeds '' @ dec_string (max_rec s)"

definition walk_members ::
  "scan_fn \<Rightarrow> analyses \<Rightarrow> scan_options \<Rightarrow> source \<Rightarrow> obj \<Rightarrow> file_type \<Rightarrow> format \<Rightarrow> walk_state \<Rightarrow> deep_outcome \<times> walk_state" where
  "walk_members rec e opts d ob ft fmt s =
     (case at_limit ob s of
        (True, s) \<Rightarrow> limit_stop opts MaxRecursion (recursion_exceeded s) s
      | (False, s) \<Rightarrow>
        let mc = container_cltype (mhtml e) fmt d in
        with_ancestry mc
          (walk_inside rec e opts
             \<lparr>container_size = source_len d, container_is_ole = (fmt = F_Ole), member_container = mc,
              cx_ft = ft, cx_fmt = fmt, cx_depth = depth ob\<rparr> d) s)"

section \<open>What an object carries\<close>

definition scan_found :: "scan_fn \<Rightarrow> scan_options \<Rightarrow> source \<Rightarrow> obj \<Rightarrow> walk_state \<Rightarrow> deep_outcome \<times> walk_state" where
  "scan_found rec opts d ob s =
     (case charge (source_len d) s of
        (Inl h, s) \<Rightarrow> limit_stop opts (kind h) (reason h) s
      | (Inr _, s) \<Rightarrow> rec ob d s)"

text \<open>
  An outcome in the place of one deferred: it stops the walk, or it is kept if it is the first.
\<close>

definition stop_or_defer ::
  "deep_outcome \<times> walk_state \<Rightarrow> deep_outcome \<Rightarrow> deep_outcome option \<times> deep_outcome \<times> walk_state" where
  "stop_or_defer r slot =
     (case r of (out, s) \<Rightarrow> if stops out then (Some out, slot, s) else (None, defer_outcome slot out, s))"

fun scan_each ::
  "(source \<Rightarrow> walk_state \<Rightarrow> deep_outcome \<times> walk_state) \<Rightarrow> source list \<Rightarrow> deep_outcome \<Rightarrow> walk_state
   \<Rightarrow> deep_outcome option \<times> deep_outcome \<times> walk_state" where
  "scan_each f [] slot s = (None, slot, s)"
| "scan_each f (d # ds) slot s =
     (case stop_or_defer (f d s) slot of
        (Some out, slot, s) \<Rightarrow> (Some out, slot, s)
      | (None, slot, s) \<Rightarrow> scan_each f ds slot s)"

definition scan_unpacked ::
  "scan_fn \<Rightarrow> scan_options \<Rightarrow> bytes list \<Rightarrow> obj \<Rightarrow> deep_outcome \<Rightarrow> walk_state
   \<Rightarrow> deep_outcome option \<times> deep_outcome \<times> walk_state" where
  "scan_unpacked rec opts bufs ob =
     scan_each (\<lambda>d s. case at_limit ob s of
                       (True, s) \<Rightarrow> limit_stop opts MaxRecursion (recursion_exceeded s) s
                     | (False, s) \<Rightarrow> scan_found rec opts d (obj_inner ob (container ob)) s)
       (map in_memory bufs)"

definition BASE64_CAPPED :: string where
  "BASE64_CAPPED = ''more base64-encoded executables, archives or images than are decoded in one object: '' @
     ''the rest were not scanned''"

definition base64_pass ::
  "scan_fn \<Rightarrow> analyses \<Rightarrow> scan_options \<Rightarrow> source \<Rightarrow> obj \<Rightarrow> file_type \<Rightarrow> deep_outcome \<Rightarrow> walk_state
   \<Rightarrow> deep_outcome option \<times> deep_outcome \<times> walk_state" where
  "base64_pass rec e opts d ob ft slot s =
     (if decode_base64 opts \<and> depth ob < max_rec s \<and> text_anywhere d then
        let (payloads, capped) = base64_payloads e d (max_buffer_bytes (limits (s_budget s)));
            s = missed_if capped BASE64_CAPPED s;
            c = (case carrier_cltype ft of Some c \<Rightarrow> Some c | None \<Rightarrow> container ob)
        in scan_each (\<lambda>p. with_ancestry c (scan_found rec opts p ((obj_inner ob c)\<lparr>carve := False\<rparr>)))
             (map in_memory payloads) slot (mark_if capped (Mark_capped BASE64_CAPPED) s)
      else (None, slot, if decode_base64 opts \<and> text_anywhere d then depth_missing s else s))"

definition markup_pass ::
  "scan_fn \<Rightarrow> analyses \<Rightarrow> scan_options \<Rightarrow> source \<Rightarrow> obj \<Rightarrow> file_type \<Rightarrow> deep_outcome \<Rightarrow> walk_state
   \<Rightarrow> deep_outcome option \<times> deep_outcome \<times> walk_state" where
  "markup_pass rec e opts d ob ft slot s =
     (case markup_cltype ft (window d 0 4096) of
        None \<Rightarrow> (None, slot, s)
      | Some mc \<Rightarrow>
          if decode_base64 opts \<and> depth ob < max_rec s then
            let (payloads, capped) = markup_payloads e d (max_buffer_bytes (limits (s_budget s)));
                s = missed_if capped BASE64_CAPPED s;
                ((stop, slot), s) = with_ancestry (Some mc) (\<lambda>s.
                  let (stop, slot, s) = scan_each (\<lambda>p. scan_found rec opts p ((obj_inner ob (Some mc))\<lparr>carve := False\<rparr>))
                        (map in_memory payloads) slot (mark_if capped (Mark_capped BASE64_CAPPED) s)
                  in ((stop, slot), s)) s
            in (stop, slot, s)
          else (None, slot, if decode_base64 opts then depth_missing s else s))"

definition scan_carried ::
  "scan_fn \<Rightarrow> analyses \<Rightarrow> scan_options \<Rightarrow> source \<Rightarrow> obj \<Rightarrow> file_type \<Rightarrow> deep_outcome \<Rightarrow> walk_state
   \<Rightarrow> deep_outcome option \<times> deep_outcome \<times> walk_state" where
  "scan_carried rec e opts d ob ft slot s =
     (case base64_pass rec e opts d ob ft slot s of
        (Some out, slot, s) \<Rightarrow> (Some out, slot, s)
      | (None, slot, s) \<Rightarrow>
          (case markup_pass rec e opts d ob ft slot s of
             (Some out, slot, s) \<Rightarrow> (Some out, slot, s)
           | (None, slot, s) \<Rightarrow>
               (let (stop, s) = whole_buffer_heuristics e opts d ft (embedded_obj ob) s in (stop, slot, s))))"

end
