(* ===== verification/Scan_Object.thy ===== *)
theory Scan_Object
  imports Scan_Walk
begin

text \<open>
  The scan of one object and everything inside it (\<^verbatim>\<open>scan_object\<close>, \<^verbatim>\<open>scan_archive\<close> and \<^verbatim>\<open>scan_file\<close> of
  \<^verbatim>\<open>exav-core/src/lib.rs\<close>), the levels it recurses through, and the entry points \<^verbatim>\<open>analyze\<close> and
  \<^verbatim>\<open>analyze_all\<close>.
\<close>

section \<open>Archives\<close>

definition carved_obj :: "obj \<Rightarrow> obj" where
  "carved_obj ob = (obj_inner ob (container ob))\<lparr>carve := False, embedded_obj := True\<rparr>"

definition CARVING_CAPPED :: string where
  "CARVING_CAPPED = ''more embedded files than carving scans in one object (16 executables of each kind, '' @
     ''32 archives): the rest were not scanned''"

text \<open>What a second reading of a file finds: an appended ZIP, another format at the same offset.\<close>

definition appended_zip ::
  "scan_fn \<Rightarrow> analyses \<Rightarrow> scan_options \<Rightarrow> source \<Rightarrow> obj \<Rightarrow> format \<Rightarrow> deep_outcome \<Rightarrow> walk_state
   \<Rightarrow> deep_outcome option \<times> deep_outcome \<times> walk_state" where
  "appended_zip rec e opts d ob fmt slot s =
     (case (if fmt = F_Zip then None else appended_zip_start e d) of
        None \<Rightarrow> (None, slot, s)
      | Some at \<Rightarrow>
          if at < source_len d then stop_or_defer (scan_found rec opts (sub_from d at) (carved_obj ob) s) slot
          else (None, slot, s))"

definition second_format ::
  "scan_fn \<Rightarrow> analyses \<Rightarrow> scan_options \<Rightarrow> source \<Rightarrow> obj \<Rightarrow> format \<Rightarrow> deep_outcome \<Rightarrow> walk_state
   \<Rightarrow> deep_outcome option \<times> deep_outcome \<times> walk_state" where
  "second_format rec e opts d ob fmt slot s =
     (case also_reads_as e d fmt of
        None \<Rightarrow> (None, slot, s)
      | Some other \<Rightarrow>
          stop_or_defer (walk_members rec e opts d (carved_obj ob) (filetype_of_format other) other s) slot)"

definition ole_images ::
  "scan_fn \<Rightarrow> analyses \<Rightarrow> scan_options \<Rightarrow> source \<Rightarrow> obj \<Rightarrow> deep_outcome \<Rightarrow> walk_state
   \<Rightarrow> deep_outcome option \<times> deep_outcome \<times> walk_state" where
  "ole_images rec e opts d ob slot s =
     (let emb = embedded_in e d; s = missed_if (pe_capped emb) CARVING_CAPPED s in
      case scan_each (\<lambda>p. scan_found rec opts p (carved_obj ob)) (map (sub_from d) (emb_pe emb)) slot s of
        (Some out, slot, s) \<Rightarrow> (Some out, slot, s)
      | (None, slot, s) \<Rightarrow> (None, slot, mark_if (pe_capped emb) (Mark_capped CARVING_CAPPED) s))"

definition write_total :: "walk_state \<Rightarrow> nat" where
  "write_total s = remaining_scan (s_budget s)"

text \<open>What follows the core of an archive: other readings of the file, and images in an OLE2 file.\<close>

definition archive_tail ::
  "scan_fn \<Rightarrow> analyses \<Rightarrow> scan_options \<Rightarrow> source \<Rightarrow> obj \<Rightarrow> format \<Rightarrow> deep_outcome \<Rightarrow> walk_state
   \<Rightarrow> deep_outcome \<times> walk_state" where
  "archive_tail rec e opts d ob fmt slot s =
     (if \<not> (carve ob \<and> depth ob < max_rec s) then (slot, s)
      else case appended_zip rec e opts d ob fmt slot s of
        (Some out, _, s) \<Rightarrow> (out, s)
      | (None, slot, s) \<Rightarrow>
      (case second_format rec e opts d ob fmt slot s of
        (Some out, _, s) \<Rightarrow> (out, s)
      | (None, slot, s) \<Rightarrow>
          if fmt \<noteq> F_Ole then (slot, s)
          else (case ole_images rec e opts d ob slot s of
                  (Some out, _, s) \<Rightarrow> (out, s)
                | (None, slot, s) \<Rightarrow> (slot, s))))"

definition own_type :: "obj \<Rightarrow> file_type \<Rightarrow> file_type" where
  "own_type ob ft = (case core_type ob of Some t \<Rightarrow> t | None \<Rightarrow> ft)"

definition type_finding :: "analyses \<Rightarrow> obj \<Rightarrow> file_type \<Rightarrow> walk_state \<Rightarrow> walk_state" where
  "type_finding e ob ft s = (if depth ob = 0 then add_findings [(''type'', type_name e ft)] s else s)"

definition scan_archive ::
  "scan_fn \<Rightarrow> analyses \<Rightarrow> scan_options \<Rightarrow> source \<Rightarrow> obj \<Rightarrow> file_type \<Rightarrow> format \<Rightarrow> walk_state \<Rightarrow> deep_outcome \<times> walk_state" where
  "scan_archive rec e opts d ob ft fmt s =
     (case scan_carried rec e opts d ob ft Clean (type_finding e ob ft s) of
        (Some out, _, s) \<Rightarrow> (out, s)
      | (None, carried, s) \<Rightarrow>
          (let (members, s) = walk_members rec e opts d ob ft fmt s;
               outcome = defer_outcome members carried
           in if is_infected outcome \<or> \<not> core_on ob then (outcome, s)
              else case core e opts d (own_type ob ft) ob (write_total s) s of
                (Inl stop, s) \<Rightarrow> (stop, s)
              | (Inr rest, s) \<Rightarrow>
                  (case scan_unpacked rec opts (unpacked rest) ob outcome s of
                     (Some out, _, s) \<Rightarrow> (out, s)
                   | (None, outcome, s) \<Rightarrow> archive_tail rec e opts d ob fmt outcome s)))"

section \<open>Other objects\<close>

text \<open>
  The core over an object's own bytes, once more if a signature retyped it: what was unpacked, its
  type and the format it is opened with.
\<close>

definition file_core ::
  "analyses \<Rightarrow> scan_options \<Rightarrow> source \<Rightarrow> obj \<Rightarrow> file_type \<Rightarrow> format option \<Rightarrow> walk_state
   \<Rightarrow> (deep_outcome + bytes list \<times> file_type \<times> format option) \<times> walk_state" where
  "file_core e opts d ob ft fmt s =
     (if \<not> core_on ob then (Inr ([], ft, fmt), s)
      else
        let total = write_total s in
        case core e opts d (own_type ob ft) ob total s of
          (Inl stop, s) \<Rightarrow> (Inl stop, s)
        | (Inr rest, s) \<Rightarrow>
            (case (if retype rest = Some ft then None else retype rest) of
               None \<Rightarrow> (Inr (unpacked rest, ft, fmt), s)
             | Some t \<Rightarrow>
                 (case core e opts d t ob (total - sum_list (map length (unpacked rest))) s of
                    (Inl stop, s) \<Rightarrow> (Inl stop, s)
                  | (Inr rest2, s) \<Rightarrow>
                      (let (fmt, s) = unpack_target e opts t d s in (Inr (unpacked rest @ unpacked rest2, t, fmt), s)))))"

text \<open>
  An archive found inside an object by a short magic: a candidate that cannot be decoded is taken for
  no archive. What was missed in it is recorded apart, and becomes \<open>Dismissed\<close> when the candidate does.
\<close>

definition proven_archive ::
  "analyses \<Rightarrow> scan_options \<Rightarrow> source \<Rightarrow> file_type \<Rightarrow> format \<Rightarrow> walk_state \<Rightarrow> bool \<times> walk_state" where
  "proven_archive e opts sub ft fmt s =
     (if is_executable ft then (False, s)
      else if fmt \<noteq> F_Zip then (True, s)
      else case whole opts sub ''the check of an appended ZIP's directory'' s of
        (Some w, s) \<Rightarrow> (zip_directory_is_consistent e w, s)
      | (None, s) \<Rightarrow> (False, s))"

definition carved_archive ::
  "scan_fn \<Rightarrow> analyses \<Rightarrow> scan_options \<Rightarrow> obj \<Rightarrow> file_type \<Rightarrow> source \<Rightarrow> deep_outcome \<Rightarrow> walk_state
   \<Rightarrow> deep_outcome option \<times> deep_outcome \<times> walk_state" where
  "carved_archive rec e opts ob ft sub slot s0 =
     (case detect_archive_start e sub of
        None \<Rightarrow> (None, slot, s0)
      | Some fmt \<Rightarrow>
          (let (out, s) = scan_found rec opts sub ((carved_obj ob)\<lparr>core_on := False\<rparr>) (s0\<lparr>s_missed := []\<rparr>) in
           if stops out then (Some out, slot, after_missed id s0 s)
           else case out of
             Clean \<Rightarrow> (None, slot, after_missed id s0 s)
           | PasswordProtected r \<Rightarrow>
               (let (proven, s) = proven_archive e opts sub ft fmt s in
                if proven then (None, PasswordProtected r, after_missed id s0 s)
                else (None, slot, after_missed dismissal s0 s))
           | _ \<Rightarrow> (None, slot, after_missed dismissal s0 s)))"

fun carved_archives ::
  "scan_fn \<Rightarrow> analyses \<Rightarrow> scan_options \<Rightarrow> obj \<Rightarrow> file_type \<Rightarrow> source list \<Rightarrow> deep_outcome \<Rightarrow> walk_state
   \<Rightarrow> deep_outcome option \<times> deep_outcome \<times> walk_state" where
  "carved_archives rec e opts ob ft [] slot s = (None, slot, s)"
| "carved_archives rec e opts ob ft (sub # subs) slot s =
     (case carved_archive rec e opts ob ft sub slot s of
        (Some out, slot, s) \<Rightarrow> (Some out, slot, s)
      | (None, slot, s) \<Rightarrow> carved_archives rec e opts ob ft subs slot s)"

definition carve_pass ::
  "scan_fn \<Rightarrow> analyses \<Rightarrow> scan_options \<Rightarrow> source \<Rightarrow> obj \<Rightarrow> file_type \<Rightarrow> deep_outcome \<Rightarrow> walk_state
   \<Rightarrow> deep_outcome option \<times> deep_outcome \<times> walk_state" where
  "carve_pass rec e opts d ob ft slot s =
     (if \<not> carve ob then (None, slot, s)
      else if max_rec s \<le> depth ob then (None, slot, depth_missing s)
      else
        let emb = embedded_in e d; s = missed_if (pe_capped emb \<or> others_capped emb) CARVING_CAPPED s in
        case scan_each (\<lambda>p. scan_found rec opts p (carved_obj ob))
               (map (sub_from d) (emb_pe emb @ emb_elf emb @ emb_macho emb)) slot s of
          (Some out, slot, s) \<Rightarrow> (Some out, slot, s)
        | (None, slot, s) \<Rightarrow>
            (case carved_archives rec e opts ob ft (map (sub_from d) (emb_archives emb)) slot s of
               (Some out, slot, s) \<Rightarrow> (Some out, slot, s)
             | (None, slot, s) \<Rightarrow>
                 (None, slot, mark_if (pe_capped emb \<or> others_capped emb) (Mark_capped CARVING_CAPPED) s)))"

section \<open>Checks of what is not an archive\<close>

definition signed_check :: "analyses \<Rightarrow> scan_options \<Rightarrow> source \<Rightarrow> walk_state \<Rightarrow> deep_outcome option \<times> walk_state" where
  "signed_check e opts d s =
     (if (alert_broken_authenticode opts \<or> \<not> crb_empty e) \<and> window d 0 2 = str_bytes ''MZ'' then
        case whole opts d ''the Authenticode checks'' s of
          (None, s) \<Rightarrow> (None, s)
        | (Some w, s) \<Rightarrow>
            (case authenticode e w of
               None \<Rightarrow> (None, s)
             | Some (certs, digest_ok) \<Rightarrow>
                 checks (map (\<lambda>blocked. hit_opt e blocked Hash) certs @
                         [hit_if e (alert_broken_authenticode opts \<and> \<not> digest_ok)
                            ''Heuristics.Authenticode.HashMismatch'' Heuristic]) s)
      else (None, s))"

definition pe_checks :: "analyses \<Rightarrow> scan_options \<Rightarrow> obj \<Rightarrow> pe_info \<Rightarrow> walk_state \<Rightarrow> deep_outcome option \<times> walk_state" where
  "pe_checks e opts ob info s =
     unless_stopped (hit_opt e (imphash_hit info) Fuzzy s)
       (\<lambda>s. if \<not> heuristics opts then (None, s)
            else
              let s = (if depth ob = 0 then add_findings (info_findings info @ [static_finding info]) s else s)
              in checks
                   [hit_opt e (static_hit info) Static,
                    hit_if e (looks_packed info \<and> 2 \<le> length (suspicious_imports info))
                      ''Heuristics.PE.PackedWithInjectionImports'' Heuristic] s)"

definition pe_pass :: "analyses \<Rightarrow> scan_options \<Rightarrow> source \<Rightarrow> obj \<Rightarrow> file_type \<Rightarrow> walk_state \<Rightarrow> deep_outcome option \<times> walk_state" where
  "pe_pass e opts d ob ft s =
     (if ft = FT_Pe \<and> (has_imphash e \<or> heuristics opts) then
        case whole opts d ''the PE import and static-model checks'' s of
          (None, s) \<Rightarrow> (None, s)
        | (Some w, s) \<Rightarrow> (case pe_analyze e w of None \<Rightarrow> (None, s) | Some info \<Rightarrow> pe_checks e opts ob info s)
      else (None, s))"

definition file_checks ::
  "analyses \<Rightarrow> scan_options \<Rightarrow> source \<Rightarrow> obj \<Rightarrow> file_type \<Rightarrow> walk_state \<Rightarrow> deep_outcome option \<times> walk_state" where
  "file_checks e opts d ob ft =
     checks
       ([structured_data_scan e opts d, phishing_scan e opts d, signed_check e opts d] @
        (if \<not> clamav_heuristics opts \<and> \<not> heuristics opts then []
         else [hit_opt e (if heuristics opts then tlsh e d else None) Fuzzy, pe_pass e opts d ob ft]))"

text \<open>A packed or installer executable, or a container a signature retyped: its members.\<close>

definition file_members ::
  "scan_fn \<Rightarrow> analyses \<Rightarrow> scan_options \<Rightarrow> source \<Rightarrow> obj \<Rightarrow> file_type \<Rightarrow> format option \<Rightarrow> deep_outcome \<Rightarrow> walk_state
   \<Rightarrow> deep_outcome option \<times> deep_outcome \<times> walk_state" where
  "file_members rec e opts d ob ft fmt slot s =
     (case fmt of
        None \<Rightarrow> (None, slot, s)
      | Some f \<Rightarrow>
          (case stop_or_defer (walk_members rec e opts d ob ft f s) slot of
             (Some out, slot, s) \<Rightarrow> (Some out, slot, s)
           | (None, slot, s) \<Rightarrow> (if f \<in> {F_Upx, F_PePacked} then None else Some slot, slot, s)))"

definition scan_file ::
  "scan_fn \<Rightarrow> analyses \<Rightarrow> scan_options \<Rightarrow> source \<Rightarrow> obj \<Rightarrow> file_type \<Rightarrow> format option \<Rightarrow> walk_state
   \<Rightarrow> deep_outcome \<times> walk_state" where
  "scan_file rec e opts d ob ft fmt s =
     (case file_core e opts d ob ft fmt s of
        (Inl stop, s) \<Rightarrow> (stop, s)
      | (Inr (made, ft, fmt), s) \<Rightarrow>
      (case scan_unpacked rec opts made ob Clean (type_finding e ob ft s) of
        (Some out, _, s) \<Rightarrow> (out, s)
      | (None, slot, s) \<Rightarrow>
      (case scan_carried rec e opts d ob ft slot s of
        (Some out, _, s) \<Rightarrow> (out, s)
      | (None, slot, s) \<Rightarrow>
      (case file_members rec e opts d ob ft fmt slot s of
        (Some out, _, s) \<Rightarrow> (out, s)
      | (None, slot, s) \<Rightarrow>
      (case carve_pass rec e opts d ob ft slot s of
        (Some out, _, s) \<Rightarrow> (out, s)
      | (None, slot, s) \<Rightarrow>
      (case file_checks e opts d ob ft s of
        (Some out, s) \<Rightarrow> (out, s)
      | (None, s) \<Rightarrow> (slot, s)))))))"

section \<open>Objects, level by level\<close>

definition scan_object :: "scan_fn \<Rightarrow> analyses \<Rightarrow> scan_options \<Rightarrow> scan_fn" where
  "scan_object rec e opts ob d s =
     (if source_len d < min_scan_bytes opts then (Clean, s)
      else if allowlisted e d then (Clean, s)
      else
        let ft = identify e d; (target, s) = unpack_target e opts ft d s in
        case target of
          Some fmt \<Rightarrow>
            if \<not> is_executable ft then scan_archive rec e opts d ob ft fmt s
            else scan_file rec e opts d ob ft (Some fmt) s
        | None \<Rightarrow> scan_file rec e opts d ob ft None s)"

primrec scan_level :: "analyses \<Rightarrow> scan_options \<Rightarrow> nat \<Rightarrow> scan_fn" where
  "scan_level e opts 0 = (\<lambda>ob d s. (Clean, s\<lparr>s_stuck := True\<rparr>))"
| "scan_level e opts (Suc n) = scan_object (scan_level e opts n) e opts"

definition scan_budget :: "scan_options \<Rightarrow> budget" where
  "scan_budget opts =
     (budget_new ((opt_limits opts)\<lparr>max_buffer_bytes := min (max_buffer_bytes (opt_limits opts)) (deep_analysis_max opts)\<rparr>))
       \<lparr>verify_checksums := check_sums opts\<rparr>"

definition run_walk :: "analyses \<Rightarrow> scan_options \<Rightarrow> sink \<Rightarrow> source \<Rightarrow> deep_outcome \<times> walk_state" where
  "run_walk e opts sk d =
     scan_level e opts (max_recursion (opt_limits opts) + 1) (obj_top opts) d (start_state (scan_budget opts) sk)"

definition analyze_source :: "analyses \<Rightarrow> scan_options \<Rightarrow> source \<Rightarrow> scan_report" where
  "analyze_source e opts d =
     (let (out, s) = run_walk e opts Sink_first d in
      report_of_outcome (alert_exceeds_max opts) (s_flags s) out (s_findings s))"

end
