(* ===== verification/Scan_Judge.thy ===== *)
theory Scan_Judge
  imports Scan_Object
begin

text \<open>
  The scan walk is never silently clean. Every operation of the walk is shown to keep one judgement
  between its outcome and the states before and after it; an induction over the levels of the scan
  gives it for the whole walk. What the judgement says, in short: the marks of a check that stopped
  short and the limits are kept, a detection that was taken ends the walk, an outcome that does not
  stop the walk means nothing was found, and a clean one that nothing was missed without a mark.
\<close>

section \<open>The judgement\<close>

definition marked :: "walk_state \<Rightarrow> bool" where
  "marked s \<longleftrightarrow> scan_truncated (s_flags s)"

definition reported :: "walk_state \<Rightarrow> miss list" where
  "reported s = filter (\<lambda>m. \<exists>r. m = Missed r) (s_missed s)"

definition kept :: "walk_state \<Rightarrow> walk_state \<Rightarrow> bool" where
  "kept s s' \<longleftrightarrow>
     limits (s_budget s') = limits (s_budget s) \<and> (marked s \<longrightarrow> marked s') \<and> (s_stuck s' \<longrightarrow> s_stuck s)"

definition quiet :: "walk_state \<Rightarrow> walk_state \<Rightarrow> bool" where
  "quiet s s' \<longleftrightarrow> kept s s' \<and> s_found s' = s_found s \<and> (marked s' \<or> reported s' = reported s)"

text \<open>
  An outcome that stops the walk: a detection that is not ignored, the alert for a limit, which is not
  held against the ignore list, or a limit.
\<close>

definition limit_alert :: "scan_options \<Rightarrow> string \<Rightarrow> bool" where
  "limit_alert opts sig \<longleftrightarrow> alert_exceeds_max opts \<and> (\<exists>k. limits_alert_name k = Some sig)"

text \<open>No alert for a limit is on the ignore list: then what is taken is never dropped.\<close>

definition alerts_kept :: "analyses \<Rightarrow> scan_options \<Rightarrow> bool" where
  "alerts_kept e opts \<longleftrightarrow> (\<forall>sig. limit_alert opts sig \<longrightarrow> \<not> ignored e sig)"

definition hard_ok :: "analyses \<Rightarrow> scan_options \<Rightarrow> deep_outcome \<Rightarrow> bool" where
  "hard_ok e opts out \<longleftrightarrow> stops out \<and> (\<forall>sig off m. out = Infected sig off m \<longrightarrow> \<not> ignored e sig \<or> limit_alert opts sig)"

definition sound :: "analyses \<Rightarrow> scan_options \<Rightarrow> deep_outcome \<Rightarrow> walk_state \<Rightarrow> walk_state \<Rightarrow> bool" where
  "sound e opts out s s' \<longleftrightarrow>
     kept s s' \<and> (stops out \<longrightarrow> hard_ok e opts out) \<and>
     (alerts_kept e opts \<longrightarrow> (\<not> stops out \<longrightarrow> s_found s' = s_found s) \<and>
        (out = Clean \<longrightarrow> marked s' \<or> reported s' = reported s))"

text \<open>A check that may stop the walk; a pass that may stop it or change what is deferred.\<close>

definition step_ok :: "analyses \<Rightarrow> scan_options \<Rightarrow> walk_state \<Rightarrow> deep_outcome option \<Rightarrow> walk_state \<Rightarrow> bool" where
  "step_ok e opts s stop s' \<longleftrightarrow> (case stop of None \<Rightarrow> quiet s s' | Some out \<Rightarrow> kept s s' \<and> hard_ok e opts out)"

definition carries ::
  "analyses \<Rightarrow> scan_options \<Rightarrow> deep_outcome \<Rightarrow> walk_state \<Rightarrow> deep_outcome option \<Rightarrow> deep_outcome \<Rightarrow> walk_state \<Rightarrow> bool" where
  "carries e opts slot s stop slot' s' \<longleftrightarrow>
     kept s s' \<and> (stop = None \<and> \<not> stops slot \<longrightarrow> \<not> stops slot') \<and>
     (\<forall>s0. sound e opts slot s0 s \<longrightarrow> (case stop of None \<Rightarrow> sound e opts slot' s0 s' | Some out \<Rightarrow> sound e opts out s0 s'))"

text \<open>The scan of what lies deeper than \<open>n\<close>, up to the limit \<open>M\<close>.\<close>

definition rec_ok :: "analyses \<Rightarrow> scan_options \<Rightarrow> nat \<Rightarrow> nat \<Rightarrow> scan_fn \<Rightarrow> bool" where
  "rec_ok e opts M n rec \<longleftrightarrow>
     (\<forall>ob d s. max_rec s = M \<longrightarrow> n < depth ob \<longrightarrow> depth ob \<le> M \<longrightarrow> sound e opts (fst (rec ob d s)) s (snd (rec ob d s)))"

named_theorems quiet_intro

section \<open>Composition\<close>

lemma stops_simps [simp]:
  "\<not> stops Clean" "stops (Infected sig off m)" "stops (Limits r)" "\<not> stops (Unscannable r)"
  "\<not> stops (PasswordProtected r)"
  by (simp_all add: stops_def)

lemma kept_refl [simp, intro]: "kept s s"
  by (simp add: kept_def)

lemma kept_trans [trans]: "kept s s' \<Longrightarrow> kept s' s'' \<Longrightarrow> kept s s''"
  by (auto simp: kept_def)

lemma kept_max_rec: "kept s s' \<Longrightarrow> max_rec s' = max_rec s"
  by (simp add: kept_def max_rec_def)

lemma quiet_refl [simp, intro]: "quiet s s"
  by (simp add: quiet_def)

lemma quiet_kept: "quiet s s' \<Longrightarrow> kept s s'"
  by (simp add: quiet_def)

lemma quiet_trans [trans]: "quiet s s' \<Longrightarrow> quiet s' s'' \<Longrightarrow> quiet s s''"
  by (auto simp: quiet_def kept_def)

lemma quiet_max_rec: "quiet s s' \<Longrightarrow> max_rec s' = max_rec s"
  by (simp add: quiet_def kept_max_rec)

lemma sound_kept: "sound e opts out s s' \<Longrightarrow> kept s s'"
  by (simp add: sound_def)

lemma sound_max_rec: "sound e opts out s s' \<Longrightarrow> max_rec s' = max_rec s"
  by (simp add: sound_def kept_max_rec)

lemma sound_quiet: "sound e opts out s0 s \<Longrightarrow> quiet s s' \<Longrightarrow> sound e opts out s0 s'"
  by (auto simp: sound_def quiet_def kept_def)

lemma quiet_sound: "quiet s s' \<Longrightarrow> sound e opts Clean s s'"
  by (simp add: sound_def quiet_def)

lemma hard_sound: "kept s s' \<Longrightarrow> hard_ok e opts out \<Longrightarrow> sound e opts out s s'"
  by (auto simp: sound_def hard_ok_def)

lemma sound_before: "kept s s' \<Longrightarrow> s_found s' = s_found s \<Longrightarrow> reported s' = reported s \<Longrightarrow> sound e opts out s' s'' \<Longrightarrow> sound e opts out s s''"
  by (auto simp: sound_def kept_def)

lemma quiet_sound_trans: "quiet s s' \<Longrightarrow> sound e opts out s' s'' \<Longrightarrow> sound e opts out s s''"
  by (auto simp: sound_def quiet_def kept_def)

lemma stops_defer: "\<not> stops slot \<Longrightarrow> \<not> stops out \<Longrightarrow> \<not> stops (defer_outcome slot out)"
  by (simp add: defer_outcome_def)

text \<open>An outcome put after one that was deferred, or before it.\<close>

lemma sound_defer_before:
  assumes "sound e opts slot s0 s" "sound e opts out s s'" "\<not> stops slot"
  shows "sound e opts (defer_outcome out slot) s0 s'"
  using assms by (auto simp: sound_def kept_def defer_outcome_def hard_ok_def)

lemma sound_defer:
  assumes "sound e opts slot s0 s" "sound e opts out s s'" "\<not> stops out"
  shows "sound e opts (defer_outcome slot out) s0 s'"
  using assms by (auto simp: sound_def kept_def defer_outcome_def hard_ok_def)

lemma sound_stop:
  assumes "sound e opts slot s0 s" "sound e opts out s s'" "stops out"
  shows "sound e opts out s0 s'"
  using assms by (auto simp: sound_def kept_def)

lemma step_ok_None [simp]: "step_ok e opts s None s' \<longleftrightarrow> quiet s s'"
  by (simp add: step_ok_def)

lemma step_ok_Some [simp]: "step_ok e opts s (Some out) s' \<longleftrightarrow> kept s s' \<and> hard_ok e opts out"
  by (simp add: step_ok_def)

lemma step_ok_kept: "step_ok e opts s stop s' \<Longrightarrow> kept s s'"
  by (auto simp: step_ok_def quiet_def split: option.splits)

lemma quiet_step: "quiet s s' \<Longrightarrow> step_ok e opts s' stop s'' \<Longrightarrow> step_ok e opts s stop s''"
  by (auto simp: step_ok_def quiet_def kept_def split: option.splits)

lemma carriesI:
  assumes "kept s s'" "stop = None \<Longrightarrow> \<not> stops slot \<Longrightarrow> \<not> stops slot'" "\<And>s0. sound e opts slot s0 s \<Longrightarrow> case stop of None \<Rightarrow> sound e opts slot' s0 s' | Some out \<Rightarrow> sound e opts out s0 s'"
  shows "carries e opts slot s stop slot' s'"
  using assms by (simp add: carries_def)

lemma carries_kept: "carries e opts slot s stop slot' s' \<Longrightarrow> kept s s'"
  by (simp add: carries_def)

lemma carries_max_rec: "carries e opts slot s stop slot' s' \<Longrightarrow> max_rec s' = max_rec s"
  by (simp add: carries_def kept_max_rec)

lemma carries_soft: "carries e opts slot s None slot' s' \<Longrightarrow> \<not> stops slot \<Longrightarrow> \<not> stops slot'"
  by (simp add: carries_def)

lemma carries_refl [simp, intro]: "carries e opts slot s None slot s"
  by (simp add: carries_def)

lemma carries_quiet: "quiet s s' \<Longrightarrow> carries e opts slot s None slot s'"
  by (auto simp: carries_def quiet_kept intro: sound_quiet)

lemma carries_trans [trans]:
  "carries e opts slot s None slot' s' \<Longrightarrow> carries e opts slot' s' stop slot'' s'' \<Longrightarrow> carries e opts slot s stop slot'' s''"
  by (auto simp: carries_def intro: kept_trans split: option.splits)

lemma quiet_carries: "quiet s s' \<Longrightarrow> carries e opts slot s' stop slot' s'' \<Longrightarrow> carries e opts slot s stop slot' s''"
  by (rule carries_trans [OF carries_quiet])

lemma step_carries: "step_ok e opts s stop s' \<Longrightarrow> carries e opts slot s stop slot s'"
  by (cases stop)
     (auto simp: carries_def quiet_kept intro: sound_quiet hard_sound kept_trans dest: sound_kept)

lemma carries_stop_or_defer:
  assumes "sound e opts out s s'"
    and "stop_or_defer (out, s') slot = (stop, slot', s'')"
  shows "carries e opts slot s stop slot' s''"
  using assms
  by (auto simp: stop_or_defer_def carries_def split: if_splits simp: stops_defer intro: sound_defer sound_stop sound_kept)

lemma carries_sound: "sound e opts slot s0 s \<Longrightarrow> carries e opts slot s None slot' s' \<Longrightarrow> sound e opts slot' s0 s'"
  by (auto simp: carries_def)

lemma carries_sound_stop: "sound e opts slot s0 s \<Longrightarrow> carries e opts slot s (Some out) slot' s' \<Longrightarrow> sound e opts out s0 s'"
  by (auto simp: carries_def)

section \<open>Marks, budget and sink\<close>

lemma marked_put_mark [simp]: "marked (put_mark m s)"
  by (cases m) (simp_all add: put_mark.simps marked_def missing_def mark_scan_truncated_def mark_over_size_def mark_capped_def)

declare put_mark.simps [simp del]

lemma put_mark_fields [simp]:
  "s_budget (put_mark m s) = s_budget s" "s_found (put_mark m s) = s_found s" "s_stuck (put_mark m s) = s_stuck s"
  by (cases m; simp add: missing_def put_mark.simps)+

lemma quiet_put_mark [quiet_intro]: "quiet s (put_mark m s)"
  by (simp add: quiet_def kept_def)

lemma quiet_mark_if [quiet_intro]: "quiet s (mark_if c m s)"
  by (simp add: mark_if_def quiet_put_mark)

lemma quiet_put_marks [quiet_intro]: "quiet s (put_marks ms s)"
proof (induction ms arbitrary: s)
  case (Cons m ms)
  have "quiet (put_mark m s) (put_marks ms (put_mark m s))" by (rule Cons)
  then show ?case using quiet_trans [OF quiet_put_mark] by (simp add: put_marks_def)
qed (simp add: put_marks_def)

lemma missed_if_fields [simp]:
  "s_flags (missed_if c r s) = s_flags s" "s_budget (missed_if c r s) = s_budget s" "s_found (missed_if c r s) = s_found s"
  "s_stuck (missed_if c r s) = s_stuck s" "s_sink (missed_if c r s) = s_sink s" "s_ancestry (missed_if c r s) = s_ancestry s"
  "\<not> c \<Longrightarrow> missed_if c r s = s"
  by (simp_all add: missed_if_def missing_def)

lemma kept_missed_if [simp]: "kept s (missed_if c r s')  \<longleftrightarrow> kept s s'" "kept (missed_if c r s) s' \<longleftrightarrow> kept s s'" "marked (missed_if c r s) = marked s"
  by (simp_all add: kept_def marked_def)

lemma max_rec_missed_if [simp]: "max_rec (missed_if c r s) = max_rec s"
  by (simp add: max_rec_def)

text \<open>A miss that is marked; one that the walk goes on from is marked by its end.\<close>

lemma quiet_put_missed [quiet_intro]: "quiet s (put_mark m (missing r s))" "quiet s (put_mark m (missed_if c r s))"
  by (simp_all add: quiet_def kept_def missing_def)

lemma quiet_mark_missed [quiet_intro]: "quiet s (mark_if c m (missed_if c r s))"
  by (cases c) (simp_all add: mark_if_def quiet_put_missed)

lemma quiet_marks_missed [quiet_intro]: "quiet s (put_marks ms (missed_marks ms s))"
proof (cases ms)
  case (Cons m ms')
  then have "put_marks ms (missed_marks ms s) = put_marks ms' (put_mark m (missing SEARCH_INCOMPLETE s))"
    by (simp add: put_marks_def missed_marks_def missed_if_def)
  then show ?thesis by (simp add: quiet_trans [OF quiet_put_missed(1) quiet_put_marks])
qed (simp add: put_marks_def missed_marks_def)

lemma quiet_add_findings [quiet_intro]: "quiet s (add_findings fs s)"
  by (simp add: add_findings_def quiet_def kept_def marked_def reported_def)

lemma quiet_depth_missing [quiet_intro]: "quiet s (depth_missing s)"
  by (simp add: depth_missing_def quiet_def kept_def marked_def reported_def)

lemma charge_kept: "charge n s = (r, s') \<Longrightarrow> kept s s' \<and> s_found s' = s_found s"
  by (auto simp: charge_def charge_scan_def Let_def kept_def marked_def missing_def split: if_splits)

lemma quiet_charge: "charge n s = (Inr u, s') \<Longrightarrow> quiet s s'"
  by (auto simp: charge_def charge_scan_def Let_def quiet_def kept_def marked_def reported_def split: if_splits)

lemma kept_missing [simp]: "kept s (missing r s') \<longleftrightarrow> kept s s'" "marked (missing r s) = marked s"
  by (simp_all add: missing_def kept_def marked_def)

lemma found_missing [simp]: "s_found (missing r s) = s_found s"
  by (simp add: missing_def)

lemma max_rec_missing [simp]: "max_rec (missing r s) = max_rec s"
  by (simp add: missing_def max_rec_def)

lemma kept_with_ancestry:
  "kept (s\<lparr>s_ancestry := a\<rparr>) s' \<longleftrightarrow> kept s s'" "kept s (s'\<lparr>s_ancestry := a\<rparr>) \<longleftrightarrow> kept s s'"
  by (simp_all add: kept_def marked_def)

lemma reported_ancestry [simp]: "reported (s\<lparr>s_ancestry := a\<rparr>) = reported s" "marked (s\<lparr>s_ancestry := a\<rparr>) = marked s"
  by (simp_all add: reported_def marked_def)

lemma max_rec_ancestry [simp]: "max_rec (s\<lparr>s_ancestry := a\<rparr>) = max_rec s"
  by (simp add: max_rec_def)

lemma sound_ancestry [simp]:
  "sound e opts out (s\<lparr>s_ancestry := a\<rparr>) s' \<longleftrightarrow> sound e opts out s s'" "sound e opts out s (s'\<lparr>s_ancestry := a\<rparr>) \<longleftrightarrow> sound e opts out s s'"
  by (simp_all add: sound_def kept_with_ancestry)

definition check_ok :: "analyses \<Rightarrow> scan_options \<Rightarrow> (walk_state \<Rightarrow> deep_outcome option \<times> walk_state) \<Rightarrow> bool" where
  "check_ok e opts c \<longleftrightarrow> (\<forall>s stop s'. c s = (stop, s') \<longrightarrow> step_ok e opts s stop s')"

lemma check_okI: "(\<And>s stop s'. c s = (stop, s') \<Longrightarrow> step_ok e opts s stop s') \<Longrightarrow> check_ok e opts c"
  by (simp add: check_ok_def)

lemma check_okD: "check_ok e opts c \<Longrightarrow> c s = (stop, s') \<Longrightarrow> step_ok e opts s stop s'"
  by (simp add: check_ok_def)

lemma sink_hit_ok [simp]: "check_ok e opts (sink_hit e sig off m)"
  by (auto simp: check_ok_def sink_hit_def step_ok_def quiet_def kept_def hard_ok_def marked_def reported_def
      split: sink.splits if_splits)

lemma none_ok [simp]: "check_ok e opts (Pair None)"
  by (simp add: check_ok_def)

lemma hit_if_ok [simp]: "check_ok e opts (hit_if e c sig m)"
  using sink_hit_ok [of e opts sig 0 m] by (auto simp: check_ok_def hit_if_def)

lemma hit_opt_ok [simp]: "check_ok e opts (hit_opt e sig m)"
  using sink_hit_ok by (auto simp: check_ok_def hit_opt_def split: option.splits)

lemma report_hit_ok [simp]: "check_ok e opts (report_hit e opts name u off m)"
  by (simp add: report_hit_def)

lemma unless_stopped_ok:
  assumes "unless_stopped (r, s1) k = (stop, s')" "step_ok e opts s r s1" "check_ok e opts k"
  shows "step_ok e opts s stop s'"
  using assms by (auto simp: unless_stopped_def check_ok_def split: option.splits intro: quiet_step)

lemma checks_ok [simp]: "\<forall>c \<in> set cs. check_ok e opts c \<Longrightarrow> check_ok e opts (checks cs)"
proof (induction cs)
  case (Cons c cs)
  show ?case
  proof (rule check_okI)
    fix s stop s'
    assume run: "checks (c # cs) s = (stop, s')"
    obtain r s1 where c: "c s = (r, s1)" by fastforce
    have "unless_stopped (r, s1) (checks cs) = (stop, s')" using run c by simp
    moreover have "step_ok e opts s r s1" using check_okD [of e opts c s r s1] Cons.prems c by simp
    moreover have "check_ok e opts (checks cs)" using Cons by simp
    ultimately show "step_ok e opts s stop s'" by (rule unless_stopped_ok)
  qed
qed (simp add: check_ok_def)

lemma whole_quiet: "whole opts d what s = (r, s') \<Longrightarrow> quiet s s'"
  by (cases "materialize d (deep_analysis_max opts)")
     (auto simp: whole_def materialized_def Let_def intro: quiet_put_missed)

lemma limits_outcome_ok: "hard_ok e opts (limits_outcome (alert_exceeds_max opts) k r)"
  by (auto simp: limit_alert_def hard_ok_def limits_outcome_def split: option.splits if_splits)

lemma limit_stop_ok:
  "limit_stop opts k r s = (out, s') \<Longrightarrow> kept s s' \<and> hard_ok e opts out"
  by (auto simp: limit_stop_def limits_outcome_ok)


lemma if_check [intro]: "check_ok e opts a \<Longrightarrow> check_ok e opts b \<Longrightarrow> check_ok e opts (\<lambda>s. if c then a s else b s)"
  by (simp add: check_ok_def)

lemma whole_check [intro]:
  assumes "\<And>bs. check_ok e opts (k bs)"
  shows "check_ok e opts (\<lambda>s. case whole opts d what s of (None, s) \<Rightarrow> (None, s) | (Some bs, s) \<Rightarrow> k bs s)"
proof (rule check_okI)
  fix s stop s'
  assume run: "(case whole opts d what s of (None, s) \<Rightarrow> (None, s) | (Some bs, s) \<Rightarrow> k bs s) = (stop, s')"
  obtain r s1 where w: "whole opts d what s = (r, s1)" by fastforce
  have "step_ok e opts s1 stop s'" using run w assms by (cases r) (auto simp: check_ok_def)
  then show "step_ok e opts s stop s'" by (rule quiet_step [OF whole_quiet [OF w]])
qed

section \<open>One object\<close>

lemma unpack_target_quiet: "unpack_target e opts ft d s = (r, s') \<Longrightarrow> quiet s s'"
  by (auto simp: unpack_target_def Let_def split: option.splits if_splits prod.splits intro: whole_quiet)

lemma media_check_ok [simp]: "check_ok e opts (media_check e opts src)"
  unfolding media_check_def [abs_def] by (intro if_check whole_check) simp_all

lemma pdf_check_ok [simp]: "check_ok e opts (pdf_check e opts src ft)"
  unfolding pdf_check_def [abs_def] by (intro if_check whole_check) simp_all

lemma whole_buffer_heuristics_ok [simp]: "check_ok e opts (whole_buffer_heuristics e opts src ft carved)"
  by (simp add: whole_buffer_heuristics_def)

lemma structured_data_scan_ok [simp]: "check_ok e opts (structured_data_scan e opts d)"
  unfolding structured_data_scan_def [abs_def] Let_def by (intro if_check checks_ok none_ok) simp

lemma phishing_scan_ok [simp]: "check_ok e opts (phishing_scan e opts d)"
proof (rule check_okI)
  fix s stop s'
  assume run: "phishing_scan e opts d s = (stop, s')"
  obtain found complete where p: "phishing e d = (found, complete)" by fastforce
  have "check_ok e opts (hit_opt e found Heuristic)" by simp
  then show "step_ok e opts s stop s'"
    using run p check_okD [of e opts "hit_opt e found Heuristic"
        "mark_if (\<not> complete) Mark_truncated (missed_if (\<not> complete) SEARCH_INCOMPLETE s)" stop s']
    by (auto simp: phishing_scan_def split: if_splits intro: quiet_step [OF quiet_mark_missed])
qed

lemma make_view_quiet: "make_view e opts k d s = (r, s') \<Longrightarrow> quiet s s'"
  by (auto simp: make_view_def split: if_splits sum.splits prod.splits intro: quiet_mark_missed quiet_put_missed)

lemma visible_text_view_quiet: "visible_text_view e opts name d s = (r, s') \<Longrightarrow> quiet s s'"
proof -
  assume run: "visible_text_view e opts name d s = (r, s')"
  obtain b s1 where w: "whole opts d ''the reading of its visible text'' s = (b, s1)" by fastforce
  have v: "quiet s1 (put_mark Mark_truncated (mark_if c Mark_truncated (missed_if True r' s1)))" for c r'
    by (auto simp: mark_if_def intro: quiet_put_missed quiet_trans [OF quiet_put_missed(2) quiet_put_mark])
  show ?thesis
  proof (cases "wants_text e name (window d 0 1024)")
    case True
    have "quiet s1 s'"
      using run w True by (cases b) (auto simp: visible_text_view_def Let_def split: if_splits option.splits intro: v quiet_mark_missed)
    then show ?thesis by (rule quiet_trans [OF whole_quiet [OF w]])
  qed (use run in \<open>simp add: visible_text_view_def\<close>)
qed

lemma engine_pass_ok: "engine_pass e opts ob raw img src as_type pt s = (stop, pt', s') \<Longrightarrow> step_ok e opts s stop s'"
proof -
  assume run: "engine_pass e opts ob raw img src as_type pt s = (stop, pt', s')"
  obtain found marks rt where eng: "engine e opts (wants_all s) (is_ignored e opts) src as_type (container ob) (s_ancestry s) img = (found, marks, rt)"
    by (metis prod_cases3)
  let ?cs = "map (\<lambda>(name, off, unofficial). report_hit e opts name unofficial off Pattern) (if wants_all s then found else take 1 found)"
  have "check_ok e opts (checks ?cs)" by (rule checks_ok) auto
  moreover have "checks ?cs (put_marks marks (missed_marks marks s)) = (stop, s')"
    using run by (auto simp: engine_pass_def eng Let_def split: prod.splits)
  ultimately show ?thesis by (blast intro: quiet_step quiet_marks_missed dest: check_okD)
qed

lemma view_passes_ok: "view_passes e opts ob d ks pt s = (stop, pt', s') \<Longrightarrow> step_ok e opts s stop s'"
proof (induction ks arbitrary: pt s)
  case (Cons kt ks)
  obtain k t where kt: "kt = (k, t)" by fastforce
  obtain v s1 where v: "make_view e opts k d s = (v, s1)" by fastforce
  have "step_ok e opts s1 stop s'"
  proof (cases v)
    case None
    then show ?thesis using Cons kt v by simp
  next
    case (Some src)
    obtain r pt1 s2 where r: "engine_pass e opts ob False None src t pt s1 = (r, pt1, s2)" by (metis prod_cases3)
    then show ?thesis
      using Cons.IH [of pt1 s2] Cons.prems kt v Some engine_pass_ok [OF r] by (cases r) (auto intro: quiet_step)
  qed
  then show ?case by (rule quiet_step [OF make_view_quiet [OF v]])
qed simp

lemma visible_pass_ok: "visible_pass e opts ob d pt s = (stop, pt', s') \<Longrightarrow> step_ok e opts s stop s'"
proof -
  assume run: "visible_pass e opts ob d pt s = (stop, pt', s')"
  obtain v s1 where v: "visible_text_view e opts (case obj_name ob of Some n \<Rightarrow> n | None \<Rightarrow> []) d s = (v, s1)" by fastforce
  show ?thesis
  proof (cases "clamav_compat opts \<or> engine_empty e \<or> v = None")
    case True
    then show ?thesis using run v by (auto simp: visible_pass_def split: if_splits intro: visible_text_view_quiet)
  next
    case False
    then obtain w where w: "v = Some w" by auto
    obtain r pt1 s2 where r: "engine_pass e opts ob False None (in_memory (vis_text w)) FT_TextView pt s1 = (r, pt1, s2)"
      by (metis prod_cases3)
    obtain found complete where p: "phishing_links e (vis_links w) = (found, complete)" by fastforce
    have mk: "step_ok e opts s2 stop s'"
      if "report_hit e opts g False 0 Heuristic (mark_if c Mark_truncated (missed_if c r2 s2)) = (stop, s')" for g c r2
      using check_okD [OF report_hit_ok that] by (rule quiet_step [OF quiet_mark_missed])
    have "step_ok e opts s1 stop s'"
      using run v w False r p engine_pass_ok [OF r]
      by (cases r) (auto simp: visible_pass_def Let_def split: if_splits option.splits prod.splits
          intro: quiet_step mk quiet_trans [OF _ quiet_mark_missed])
    then show ?thesis by (rule quiet_step [OF visible_text_view_quiet [OF v]])
  qed
qed

lemma bytecode_pass_ok: "bytecode_pass e opts d ft writes s = (stop, made, s') \<Longrightarrow> step_ok e opts s stop s'"
  by (auto simp: bytecode_pass_def Let_def split: if_splits option.splits prod.splits
      intro: quiet_marks_missed quiet_step [OF quiet_marks_missed] dest!: check_okD [OF report_hit_ok])

lemma report_hits_ok: "check_ok e opts (checks (map (\<lambda>(name, unofficial). report_hit e opts name unofficial off m) hs))"
  by (rule checks_ok) auto

lemma database_pass_ok: "database_pass e opts ob d img s = (stop, s') \<Longrightarrow> step_ok e opts s stop s'"
proof -
  assume run: "database_pass e opts ob d img s = (stop, s')"
  let ?cs = "map (\<lambda>(name, unofficial). report_hit e opts name unofficial 0 Hash)
          ((case img of Some i \<Rightarrow> sections e i | None \<Rightarrow> []) @
           (if \<not> hashes_empty e \<and> hash_matchable (source_len d)
            then (case hash_lookup e d of Some h \<Rightarrow> [h] | None \<Rightarrow> []) else []))"
  obtain r s1 where r: "checks ?cs s = (r, s1)" by (metis surj_pair)
  have "check_ok e opts (checks ?cs)" by (rule report_hits_ok)
  then have st: "step_ok e opts s r s1" using r by (rule check_okD)
  obtain rules marks where y: "yara e d (obj_filename ob) = (rules, marks)" by fastforce
  have "check_ok e opts (checks (map (\<lambda>(name, unofficial). report_hit e opts name unofficial 0 Yara) rules))"
    by (rule report_hits_ok)
  then have "check_ok e opts (\<lambda>s. checks (map (\<lambda>(name, unofficial). report_hit e opts name unofficial 0 Yara) rules)
      (put_marks marks (missed_marks marks s)))"
    by (auto simp: check_ok_def intro: quiet_step [OF quiet_marks_missed])
  moreover have "unless_stopped (r, s1)
      (\<lambda>s. checks (map (\<lambda>(name, unofficial). report_hit e opts name unofficial 0 Yara) rules)
      (put_marks marks (missed_marks marks s))) = (stop, s')"
    using run unfolding database_pass_def r y Let_def prod.case .
  ultimately show ?thesis using st by (blast intro: unless_stopped_ok)
qed

lemma pe_image_quiet: "pe_image opts ft d s = (r, s') \<Longrightarrow> quiet s s'"
  by (auto simp: pe_image_def split: if_splits intro: whole_quiet)


lemma core_matches_ok:
  assumes run: "core_matches e opts d ft ob writes s = (r, pt', s')"
  shows "case r of Inl out \<Rightarrow> kept s s' \<and> hard_ok e opts out | Inr _ \<Rightarrow> quiet s s'"
proof -
  let ?ks = "if \<not> engine_empty e \<and> is_textual_type ft \<and> is_textual (window d 0 8192) then normalizations ft d else []"
  obtain img s1 where 1: "pe_image opts ft d s = (img, s1)" by fastforce
  obtain r2 pt2 s2 where 2: "engine_pass e opts ob True img d ft None s1 = (r2, pt2, s2)" by (metis prod_cases3)
  obtain r3 pt3 s3 where 3: "view_passes e opts ob d ?ks pt2 s2 = (r3, pt3, s3)" by (metis prod_cases3)
  obtain r4 pt4 s4 where 4: "visible_pass e opts ob d pt3 s3 = (r4, pt4, s4)" by (metis prod_cases3)
  obtain r5 made s5 where 5: "bytecode_pass e opts d ft writes s4 = (r5, made, s5)" by (metis prod_cases3)
  obtain r6 s6 where 6: "database_pass e opts ob d img s5 = (r6, s6)" by fastforce
  note steps = quiet_step [OF pe_image_quiet [OF 1] engine_pass_ok [OF 2]] view_passes_ok [OF 3] visible_pass_ok [OF 4]
    bytecode_pass_ok [OF 5] database_pass_ok [OF 6]
  have chain: "step_ok e opts s x sy" if "quiet s sx" "step_ok e opts sx x sy" for x sx sy using that by (rule quiet_step)
  show ?thesis
  proof (cases r2)
    case (Some a) then show ?thesis using run 1 2 steps(1) by (auto simp: core_matches_def)
  next
    case None
    note q2 = steps(1) [unfolded None step_ok_None] and n2 = None
    show ?thesis
    proof (cases r3)
      case (Some a) then show ?thesis using run 1 2 3 n2 chain [OF q2 steps(2)] by (auto simp: core_matches_def)
    next
      case None
      note q3 = chain [OF q2 steps(2), unfolded None step_ok_None] and n3 = None
      show ?thesis
      proof (cases r4)
        case (Some a) then show ?thesis using run 1 2 3 4 n2 n3 chain [OF q3 steps(3)] by (auto simp: core_matches_def)
      next
        case None
        note q4 = chain [OF q3 steps(3), unfolded None step_ok_None] and n4 = None
        show ?thesis
        proof (cases r5)
          case (Some a) then show ?thesis using run 1 2 3 4 5 n2 n3 n4 chain [OF q4 steps(4)] by (auto simp: core_matches_def)
        next
          case None
          note q5 = chain [OF q4 steps(4), unfolded None step_ok_None]
          show ?thesis using run 1 2 3 4 5 6 n2 n3 n4 None chain [OF q5 steps(5)]
            by (cases r6) (auto simp: core_matches_def)
        qed
      qed
    qed
  qed
qed

lemma core_ok:
  assumes "core e opts d ft ob writes s = (r, s')"
  shows "case r of Inl out \<Rightarrow> kept s s' \<and> hard_ok e opts out | Inr _ \<Rightarrow> quiet s s'"
proof -
  obtain r1 pt s1 where 1: "core_matches e opts d ft ob writes s = (r1, pt, s1)" by (metis prod_cases3)
  show ?thesis using core_matches_ok [OF 1] assms 1 by (cases r1) (auto simp: core_def)
qed

lemma core_Inl: "core e opts d ft ob writes s = (Inl out, s') \<Longrightarrow> kept s s' \<and> hard_ok e opts out"
  using core_ok [of e opts d ft ob writes s "Inl out" s'] by simp

lemma core_Inr: "core e opts d ft ob writes s = (Inr rest, s') \<Longrightarrow> quiet s s'"
  using core_ok [of e opts d ft ob writes s "Inr rest" s'] by simp

end
