(* ===== verification/Scan_Members.thy ===== *)
theory Scan_Members
  imports Scan_Judge
begin

text \<open>
  The judgement of \<^verbatim>\<open>Scan_Judge\<close> for members and container walks: what a tally notes, reading and
  visiting a member, the decoder's driver, the walk over a container and the passes over what an
  object carries.
\<close>

section \<open>With a tally\<close>

definition loud :: "tally \<Rightarrow> bool" where
  "loud t \<longleftrightarrow> t_unscannable t \<noteq> None \<or> t_password t \<noteq> None \<or> t_limits t \<noteq> None"

definition visit_ok ::
  "analyses \<Rightarrow> scan_options \<Rightarrow> tally \<Rightarrow> walk_state \<Rightarrow> deep_outcome option \<Rightarrow> tally \<Rightarrow> walk_state \<Rightarrow> bool" where
  "visit_ok e opts t s stop t' s' \<longleftrightarrow>
     (case stop of
        None \<Rightarrow> kept s s' \<and> (loud t \<longrightarrow> loud t') \<and>
                (alerts_kept e opts \<longrightarrow> s_found s' = s_found s \<and> (loud t' \<or> marked s' \<or> reported s' = reported s))
      | Some out \<Rightarrow> kept s s' \<and> hard_ok e opts out)"

lemma visit_ok_None [simp]:
  "visit_ok e opts t s None t' s' \<longleftrightarrow>
     kept s s' \<and> (loud t \<longrightarrow> loud t') \<and>
     (alerts_kept e opts \<longrightarrow> s_found s' = s_found s \<and> (loud t' \<or> marked s' \<or> reported s' = reported s))"
  by (simp add: visit_ok_def)

lemma visit_ok_Some [simp]: "visit_ok e opts t s (Some out) t' s' \<longleftrightarrow> kept s s' \<and> hard_ok e opts out"
  by (simp add: visit_ok_def)

lemma visit_ok_kept: "visit_ok e opts t s stop t' s' \<Longrightarrow> kept s s'"
  by (cases stop) auto

lemma visit_ok_max_rec: "visit_ok e opts t s stop t' s' \<Longrightarrow> max_rec s' = max_rec s"
  by (rule kept_max_rec [OF visit_ok_kept])

lemma visit_trans:
  "visit_ok e opts t s None t' s' \<Longrightarrow> visit_ok e opts t' s' stop t'' s'' \<Longrightarrow> visit_ok e opts t s stop t'' s''"
  by (cases stop) (auto simp: kept_def)

lemma step_visit: "step_ok e opts s stop s' \<Longrightarrow> (loud t \<longrightarrow> loud t') \<Longrightarrow> visit_ok e opts t s stop t' s'"
  by (cases stop) (auto simp: quiet_def)

lemma quiet_visit: "quiet s s' \<Longrightarrow> visit_ok e opts t s' stop t' s'' \<Longrightarrow> visit_ok e opts t s stop t' s''"
  by (cases stop) (auto simp: quiet_def kept_def)

lemma visit_missed:
  "visit_ok e opts t (missed_if c r s) stop t' s' \<Longrightarrow> (stop = None \<Longrightarrow> c \<Longrightarrow> loud t') \<Longrightarrow> visit_ok e opts t s stop t' s'"
  by (cases stop; cases c) auto

lemma get_or_insert_some [simp]: "get_or_insert r x \<noteq> None"
  by (simp add: get_or_insert_def split: option.split)

lemma loud_note [simp]: "loud (note_unscannable r t)" "loud (note_password r t)" "loud (note_limits r t)"
  by (simp_all add: loud_def note_unscannable_def note_password_def note_limits_def)

lemma loud_update [simp]: "loud (t\<lparr>t_pos := n\<rparr>) = loud t" "loud (t\<lparr>t_encrypted := x\<rparr>) = loud t"
  by (simp_all add: loud_def)

lemma not_loud_new [simp]: "\<not> loud tally_new"
  by (simp add: loud_def tally_new_def)

lemma tally_verdict_cases:
  "tally_verdict t = Clean \<longleftrightarrow> \<not> loud t" "hard_ok e opts (tally_verdict t) \<longleftrightarrow> stops (tally_verdict t)"
  by (auto simp: tally_verdict_def loud_def hard_ok_def split: option.splits)

lemma hard_Limits [simp]: "hard_ok e opts (Limits r)"
  by (simp add: hard_ok_def)

section \<open>Members\<close>

lemma encrypted_check_ok: "encrypted_check e opts cx m t s = (stop, t', s') \<Longrightarrow> visit_ok e opts t s stop t' s'"
  by (auto simp: encrypted_check_def split: if_splits prod.splits intro!: step_visit check_okD [OF sink_hit_ok])

lemma note_unread_ok: "note_unread m t s = (t', s') \<Longrightarrow> s' = s \<and> (loud t \<or> unsupported m \<noteq> None \<longrightarrow> loud t')"
  by (auto simp: note_unread_def split: option.splits if_splits)

lemma cdb_checks_ok [simp]: "check_ok e opts (cdb_checks e opts cx m size_real n encs reported')"
proof (induction encs arbitrary: reported')
  case (Cons enc encs)
  show ?case
  proof (rule check_okI)
    fix s stop s'
    assume run: "cdb_checks e opts cx m size_real n (enc # encs) reported' s = (stop, s')"
    consider "cdb_checks e opts cx m size_real n encs reported' s = (stop, s')"
      | sig u where "unless_stopped (report_hit e opts sig u 0 Hash s) (cdb_checks e opts cx m size_real n encs (Some sig)) = (stop, s')"
      using run by (auto split: option.splits prod.splits if_splits)
    then show "step_ok e opts s stop s'"
    proof cases
      case 1 with Cons show ?thesis by (rule check_okD)
    next
      case 2
      obtain r s1 where r: "report_hit e opts sig u 0 Hash s = (r, s1)" by fastforce
      show ?thesis
        using 2 [unfolded r] check_okD [OF report_hit_ok r] Cons by (rule unless_stopped_ok)
    qed
  qed
qed (simp add: check_ok_def)

lemma member_metadata_scan_ok:
  assumes run: "member_metadata_scan e opts cx m size_real t s = (stop, t', s')"
  shows "visit_ok e opts t s stop t' s' \<and> (stop = None \<and> unsupported m \<noteq> None \<longrightarrow> loud t')"
proof -
  let ?t0 = "t\<lparr>t_pos := t_pos t + 1\<rparr>"
  obtain r1 t1 s1 where 1: "encrypted_check e opts cx m ?t0 s = (r1, t1, s1)" by (metis prod_cases3)
  obtain r2 s2 where 2: "hit_opt e (if alert_packed opts then packed_heuristic_name (m_name m) else None) Heuristic s1 = (r2, s2)"
    by fastforce
  obtain t3 s3 where 3: "note_unread m t1 s2 = (t3, s3)" by fastforce
  let ?cs = "[hit_opt e (if alert_macros opts \<and> container_is_ole cx
                then map_option (\<lambda>k. ''Heuristics.OLE2.ContainsMacros.'' @ k) (macro_dialect (m_name m)) else None) Heuristic,
              cdb_checks e opts cx m size_real (t_pos t) (if cdb_empty e then [] else cdb_records m) None]"
  obtain r4 s4 where 4: "checks ?cs s3 = (r4, s4)" by (metis surj_pair)
  have v1: "visit_ok e opts t s r1 t1 s1" using encrypted_check_ok [OF 1] by (cases r1) auto
  have v2: "visit_ok e opts t1 s1 r2 t1 s2" by (rule step_visit [OF check_okD [OF hit_opt_ok 2]]) simp
  have v3: "visit_ok e opts t1 s2 None t3 s3" and l3: "unsupported m \<noteq> None \<longrightarrow> loud t3" using note_unread_ok [OF 3] by auto
  have "check_ok e opts (checks ?cs)" by (rule checks_ok) simp
  from check_okD [OF this 4] have v4: "visit_ok e opts t3 s3 r4 t3 s4" by (rule step_visit) simp
  show ?thesis
  proof (cases r1)
    case (Some a) then show ?thesis using run v1 1 by (auto simp: member_metadata_scan_def Let_def)
  next
    case None
    note n1 = None
    show ?thesis
    proof (cases r2)
      case (Some a)
      then show ?thesis using run visit_trans [OF v1 [unfolded n1] v2] 1 2 n1
        by (auto simp: member_metadata_scan_def Let_def)
    next
      case None
      have "(stop, t', s') = (r4, t3, s4)" using run 1 2 3 4 n1 None by (simp add: member_metadata_scan_def Let_def)
      then show ?thesis
        using visit_trans [OF visit_trans [OF visit_trans [OF v1 [unfolded n1] v2 [unfolded None]] v3] v4] l3 by simp
    qed
  qed
qed

lemma quiet_clean_seen_insert: "quiet s (clean_seen_insert k n s)"
  by (auto simp: clean_seen_insert_def quiet_def kept_def marked_def reported_def split: option.splits)

text \<open>What members are scanned with: deeper than \<open>n\<close>, within the limit.\<close>

lemma rec_okD:
  "rec_ok e opts M n rec \<Longrightarrow> rec ob d s = (out, s') \<Longrightarrow> max_rec s = M \<Longrightarrow> n < depth ob \<Longrightarrow> depth ob \<le> M \<Longrightarrow> sound e opts out s s'"
  unfolding rec_ok_def by (metis fst_conv snd_conv)

lemma member_content_scan_ok:
  assumes run: "member_content_scan rec e opts cx name d t s = (stop, t', s')"
    and rec: "rec_ok e opts M n rec" "max_rec s = M" "n \<le> cx_depth cx" "cx_depth cx < M"
  shows "visit_ok e opts t s stop t' s'"
proof -
  define ct where "ct = (if container_is_ole cx \<and> is_textual_type (identify e d) then Some FT_Ole else None)"
  define ob where "ob = \<lparr>depth = cx_depth cx + 1, container = member_container cx, core_type = ct, obj_filename = None,
                obj_name = Some name, core_on = True, carve = True, embedded_obj = False\<rparr>"
  define seen where "seen = clean_memo_key cx name ct d s"
  obtain out s1 where o: "rec ob d s = (out, s1)" by fastforce
  have snd: "sound e opts out s s1" using rec_okD [OF rec(1) o rec(2)] rec(3,4) by (simp add: ob_def)
  define s2 where "s2 = (case (out, seen) of
      (Clean, Some k) \<Rightarrow> if scan_truncated (s_flags s) \<or> \<not> scan_truncated (s_flags s1) then clean_seen_insert k (depth ob) s1 else s1
    | _ \<Rightarrow> s1)"
  have "quiet s1 s2" by (auto simp: s2_def quiet_clean_seen_insert split: deep_outcome.splits option.splits)
  with snd have snd2: "sound e opts out s s2" by (rule sound_quiet)
  show ?thesis
  proof (cases "case seen of Some k \<Rightarrow> clean_seen k (depth ob) s | None \<Rightarrow> False")
    case True
    then show ?thesis
      using run unfolding member_content_scan_def Let_def ct_def [symmetric] ob_def [symmetric] seen_def [symmetric]
      by auto
  next
    case False
    have "(stop, t', s') = (case out of
                Clean \<Rightarrow> (None, t, s2)
              | Unscannable r \<Rightarrow> (None, note_unscannable r t, s2)
              | PasswordProtected r \<Rightarrow> (None, note_password r t, s2)
              | Infected sig off m \<Rightarrow> if ignored e sig then (None, t, s2) else (Some (Infected sig off m), t, s2)
              | Limits r \<Rightarrow> (Some (Limits r), t, s2))"
      using run False
      unfolding member_content_scan_def Let_def ct_def [symmetric] ob_def [symmetric] seen_def [symmetric] o prod.case
      by (cases out; cases seen) (simp_all add: s2_def split: if_splits)
    then show ?thesis using snd2 by (cases out) (auto simp: sound_def hard_ok_def alerts_kept_def split: if_splits)
  qed
qed

text \<open>What reading a member leaves.\<close>

definition read_judged :: "analyses \<Rightarrow> scan_options \<Rightarrow> tally \<Rightarrow> walk_state \<Rightarrow> read_result \<Rightarrow> bool" where
  "read_judged e opts t s rr \<longleftrightarrow>
     visit_ok e opts t s (case r_body rr of Inl out \<Rightarrow> Some out | Inr _ \<Rightarrow> None) (r_tally rr) (r_state rr)"

lemma read_judged_simps [simp]:
  "read_judged e opts t s (over_budget t (missed_if c x s) n)" "read_judged e opts t s (unreadable r t (missed_if c x s) n)"
  "read_judged e opts t s (got b f t s n)"
  by (simp_all add: read_judged_def over_budget_def unreadable_def got_def)

lemma not_scanned_judged [simp]: "read_judged e opts t s (not_scanned opts why t (missed_if c x s) n)"
  using limits_outcome_ok [of e opts MaxFileSize "member_too_large opts why"]
  by (auto simp: read_judged_def not_scanned_def limit_stop_def hard_ok_def split: deep_outcome.splits)

lemma read_rest_judged: "read_judged e opts t s (read_rest e opts cap st t s)"
  by (auto simp: read_rest_def Let_def split: prod.splits option.splits sum.splits read_end.splits)

lemma read_member_judged: "read_judged e opts t s (read_member e opts cap st t s)"
  by (auto simp: read_member_def unread_def Let_def read_rest_judged not_scanned_judged [where c = True, unfolded missed_if_def, simplified]
      split: prod.splits read_end.splits)

lemma read_content_judged: "read_judged e opts t s (read_content e opts m t s)"
  by (auto simp: read_content_def read_member_judged split: option.splits member.splits)


section \<open>Visiting a member\<close>

text \<open>Members are scanned under a limit, by what is sound deeper than their container.\<close>

definition member_env :: "analyses \<Rightarrow> scan_options \<Rightarrow> scan_fn \<Rightarrow> member_cx \<Rightarrow> nat \<Rightarrow> bool" where
  "member_env e opts rec cx M \<longleftrightarrow>
     cx_depth cx < M \<and> (\<exists>n \<le> cx_depth cx. rec_ok e opts M n rec)"

lemma content:
  assumes "member_env e opts rec cx M" "member_content_scan rec e opts cx name d t s = (stop, t', s')" "max_rec s = M"
  shows "visit_ok e opts t s stop t' s'"
  using assms(1) member_content_scan_ok [OF assms(2) _ assms(3)] by (auto simp: member_env_def)

lemma salvaged:
  assumes env: "member_env e opts rec cx M"
    and run: "scan_salvaged rec e opts cx name bs err hides t (missed_if hides err s) = (stop, t', s')" and M: "max_rec s = M"
  shows "visit_ok e opts t s stop t' s'"
proof -
  obtain r t1 s1 where 1: "member_content_scan rec e opts cx name (in_memory bs) t (missed_if hides err s) = (r, t1, s1)" by (metis prod_cases3)
  have "visit_ok e opts t (missed_if hides err s) r t1 s1" using content [OF env 1] M by simp
  then have "visit_ok e opts t (missed_if hides err s) stop t' s'" "stop = None \<Longrightarrow> hides \<Longrightarrow> loud t'"
    using run 1 by (cases r; auto simp: scan_salvaged_def Let_def split: if_splits)+
  then show ?thesis by (rule visit_missed)
qed

lemma body:
  assumes env: "member_env e opts rec cx M"
    and run: "scan_body rec e opts cx m b failed (t, c, s) = (stop, t', c', s')" and M: "max_rec s = M"
  shows "visit_ok e opts t s stop t' s'"
proof (cases b)
  case Body_none
  then show ?thesis using run by (auto simp: scan_body_def)
next
  case (Body_mem bs)
  show ?thesis
  proof (cases "bs = [] \<and> unsupported m \<noteq> None")
    case True then show ?thesis using run Body_mem by (auto simp: scan_body_def)
  next
    case False
    then show ?thesis
      using run Body_mem M
      by (auto simp: scan_body_def split: option.splits prod.splits offer_result.splits intro: salvaged [OF env] content [OF env])
  qed
next
  case (Body_spilled d)
  obtain r t1 s1 where 1: "member_content_scan rec e opts cx (m_name m) d t
      (missed_if (failure d \<noteq> None) ''spilled member not read'' s) = (r, t1, s1)" by (metis prod_cases3)
  have "visit_ok e opts t (missed_if (failure d \<noteq> None) ''spilled member not read'' s) r t1 s1" using content [OF env 1] M by simp
  then have "visit_ok e opts t (missed_if (failure d \<noteq> None) ''spilled member not read'' s) stop t' s'"
    "stop = None \<Longrightarrow> failure d \<noteq> None \<Longrightarrow> loud t'"
    using run 1 Body_spilled by (cases r; auto simp: scan_body_def Let_def split: option.splits)+
  then show ?thesis by (rule visit_missed)
qed

lemma visit_body_ok:
  assumes env: "member_env e opts rec cx M"
    and run: "visit_body rec e opts cx host m b failed (t, c, s) = (stop, t', c', s')" and M: "max_rec s = M"
  shows "visit_ok e opts t s stop t' s'"
proof (cases "fixed_point host b")
  case True then show ?thesis using run by (simp add: visit_body_def)
next
  case False
  let ?s0 = "missed_if (unsupported m \<noteq> None) ''member not decoded'' s"
  obtain r t1 s1 where 1: "member_metadata_scan e opts cx m (body_size m b) t ?s0 = (r, t1, s1)" by (metis prod_cases3)
  have v: "visit_ok e opts t s r t1 s1" using member_metadata_scan_ok [OF 1] by (auto intro: visit_missed)
  show ?thesis
  proof (cases r)
    case (Some a) then show ?thesis using run False v 1 by (auto simp: visit_body_def simp del: not_None_eq)
  next
    case None
    have "scan_body rec e opts cx m b failed (t1, c, s1) = (stop, t', c', s')"
      using run False 1 None by (simp add: visit_body_def del: not_None_eq)
    moreover have "max_rec s1 = M" using visit_ok_max_rec [OF v] M by simp
    ultimately show ?thesis using visit_trans [OF v [unfolded None] body [OF env]] by blast
  qed
qed

lemma visit_member_ok:
  assumes env: "member_env e opts rec cx M"
    and run: "visit_member rec e opts cx host m con (t, c, s) = ((stop, n, over), t', c', s')" and M: "max_rec s = M"
  shows "visit_ok e opts t s stop t' s'"
proof -
  let ?rr = "read_content e opts con t s"
  have rd: "read_judged e opts t s ?rr" by (rule read_content_judged)
  show ?thesis
  proof (cases "r_body ?rr")
    case (Inl out) then show ?thesis using run rd by (auto simp: visit_member_def Let_def read_judged_def)
  next
    case (Inr b)
    then have v: "visit_ok e opts t s None (r_tally ?rr) (r_state ?rr)" using rd by (simp add: read_judged_def)
    have "visit_body rec e opts cx host m b (r_failed ?rr) (r_tally ?rr, c, r_state ?rr) = (stop, t', c', s')"
      using run Inr by (auto simp: visit_member_def Let_def split: prod.splits)
    moreover have "max_rec (r_state ?rr) = M" using visit_ok_max_rec [OF v] M by simp
    ultimately show ?thesis using visit_trans [OF v visit_body_ok [OF env]] by blast
  qed
qed

lemma rejoined:
  assumes env: "member_env e opts rec cx M" and "scan_rejoined rec e opts cx held_parts None t s = (stop, t', s')" "max_rec s = M"
  shows "visit_ok e opts t s stop t' s'"
  using assms(2,3)
proof (induction held_parts arbitrary: t s)
  case (Cons p held_parts)
  obtain name buf inc where p: "p = (name, buf, inc)" by (metis prod_cases3)
  define s1 where "s1 = missed_if (inc \<noteq> None) ''incomplete set'' s"
  define t1 where "t1 = (case inc of Some r \<Rightarrow> note_unscannable r t | None \<Rightarrow> t)"
  have v1: "visit_ok e opts t s None t1 s1" by (cases inc) (simp_all add: s1_def t1_def)
  obtain r s2 where ch: "charge (length buf) s1 = (r, s2)" by fastforce
  note k = kept_trans [OF visit_ok_kept [OF v1] conjunct1 [OF charge_kept [OF ch]]]
  have M2: "max_rec s2 = M" using kept_max_rec [OF k] Cons.prems(2) by simp
  show ?case
  proof (cases r)
    case (Inl h)
    obtain out s3 where l: "limit_stop opts (kind h) (reason h) s2 = (out, s3)" by fastforce
    then have "kept s s3 \<and> hard_ok e opts out" using limit_stop_ok [OF l] k by (auto intro: kept_trans)
    moreover have "stop = Some out \<and> s' = s3"
      using Cons.prems(1) by (auto simp: p Let_def s1_def [symmetric] t1_def [symmetric] ch Inl l simp del: not_None_eq)
    ultimately show ?thesis by simp
  next
    case (Inr u)
    have v2: "visit_ok e opts t s None t1 s2"
      using visit_trans [OF v1 step_visit [where stop = None and t = t1 and t' = t1]] quiet_charge [OF ch [unfolded Inr]] by simp
    obtain r3 t3 s3 where 3: "member_content_scan rec e opts cx name (in_memory buf) t1 s2 = (r3, t3, s3)"
      by (metis prod_cases3)
    have v3: "visit_ok e opts t s r3 t3 s3" by (rule visit_trans [OF v2 content [OF env 3 M2]])
    have run: "scan_rejoined rec e opts cx held_parts r3 t3 s3 = (stop, t', s')"
      using Cons.prems(1) by (auto simp: p Let_def s1_def [symmetric] t1_def [symmetric] ch Inr 3 simp del: not_None_eq)
    show ?thesis
    proof (cases r3)
      case (Some a)
      then have "(stop, t', s') = (r3, t3, s3)" using run by (cases held_parts) auto
      then show ?thesis using v3 by simp
    next
      case None
      have "max_rec s3 = M" using visit_ok_max_rec [OF v3] Cons.prems(2) by simp
      then show ?thesis using visit_trans [OF v3 [unfolded None] Cons.IH] run None by blast
    qed
  qed
qed simp

end
