(* ===== verification/Scan_Walk_Props.thy ===== *)
theory Scan_Walk_Props
  imports Scan_Members
begin

text \<open>
  The judgement for the walk over a container, for what objects carry, for archives and files and,
  by induction on the levels of the scan, for the whole scan; and the properties of a scan's report
  that follow from it.
\<close>

section \<open>The walk over a container\<close>

definition walk_ok :: "analyses \<Rightarrow> scan_options \<Rightarrow> visit_state \<Rightarrow> walk_result \<Rightarrow> bool" where
  "walk_ok e opts v r \<longleftrightarrow>
     (case (v, r) of ((t, c, s), (res, t', c', s')) \<Rightarrow>
        (case res of
           Inr stop \<Rightarrow> visit_ok e opts t s stop t' s'
         | Inl h \<Rightarrow> kept s s' \<and> (alerts_kept e opts \<and> is_corrupt h \<longrightarrow> s_found s' = s_found s)))"

lemma walk_ok_simps [simp]:
  "walk_ok e opts (t, c, s) (Inr stop, t', c', s') \<longleftrightarrow> visit_ok e opts t s stop t' s'"
  "walk_ok e opts (t, c, s) (Inl h, t', c', s') \<longleftrightarrow> kept s s' \<and> (alerts_kept e opts \<and> is_corrupt h \<longrightarrow> s_found s' = s_found s)"
  by (simp_all add: walk_ok_def)

lemma walk_trans:
  "visit_ok e opts t s None t1 s1 \<Longrightarrow> walk_ok e opts (t1, c1, s1) r \<Longrightarrow> walk_ok e opts (t, c, s) r"
  by (auto simp: walk_ok_def split: sum.splits prod.splits intro: visit_trans kept_trans)

definition visitor_ok :: "analyses \<Rightarrow> scan_options \<Rightarrow> nat \<Rightarrow> visit_fn \<Rightarrow> bool" where
  "visitor_ok e opts M vf \<longleftrightarrow>
     (\<forall>m con t c s stop n over t' c' s'. vf m con (t, c, s) = ((stop, n, over), t', c', s') \<longrightarrow> max_rec s = M \<longrightarrow>
        visit_ok e opts t s stop t' s')"

lemma visitor_okD:
  "visitor_ok e opts M vf \<Longrightarrow> vf m con (t, c, s) = ((stop, n, over), t', c', s') \<Longrightarrow> max_rec s = M \<Longrightarrow> visit_ok e opts t s stop t' s'"
  unfolding visitor_ok_def by blast

lemma charge_Inl: "charge n s = (Inl h, s') \<Longrightarrow> \<not> is_corrupt h"
  by (auto simp: charge_def charge_scan_def Let_def is_corrupt_def hit_of_kind_def split: if_splits)

lemma not_corrupt_new [simp]: "\<not> is_corrupt (hit_new r)"
  by (simp add: is_corrupt_def hit_new_def)

lemma corrupt_corrupt [simp]: "is_corrupt (hit_corrupt r)"
  by (simp add: is_corrupt_def hit_corrupt_def)

lemma emit_bytes_ok:
  assumes "visitor_ok e opts M vf" "max_rec s = M"
  shows "walk_ok e opts (t, c, s) (emit_bytes vf m con (t, c, s))"
proof -
  define ch where "ch = (case con of Some bs \<Rightarrow> charge (length bs) s | None \<Rightarrow> (Inr (), s))"
  obtain r s1 where r: "ch = (r, s1)" by fastforce
  have k: "kept s s1 \<and> s_found s1 = s_found s" using r by (auto simp: ch_def split: option.splits dest: charge_kept)
  have q: "quiet s s1" if "r = Inr u" for u using r that by (auto simp: ch_def split: option.splits intro: quiet_charge)
  show ?thesis
  proof (cases r)
    case (Inl h)
    then show ?thesis using r k by (simp add: emit_bytes_def ch_def [symmetric])
  next
    case (Inr u)
    obtain stop n over t' c' s' where v: "vf m (map_option Member_bytes con) (t, c, s1) = ((stop, n, over), t', c', s')"
      by (metis prod_cases3 surj_pair)
    have "visit_ok e opts t s1 stop t' s'" using visitor_okD [OF assms(1) v] quiet_max_rec [OF q [OF Inr]] assms(2) by simp
    then show ?thesis using r Inr v quiet_visit [OF q [OF Inr]] by (simp add: emit_bytes_def ch_def [symmetric])
  qed
qed

lemma emit_stream_ok:
  assumes "visitor_ok e opts M vf" "max_rec s = M"
  shows "walk_ok e opts (t, c, s) (emit_stream vf m st (t, c, s))"
proof -
  define cap where "cap = (case ratio_cap (comp_size m) (s_budget s) of None \<Rightarrow> remaining_scan (s_budget s)
    | Some r \<Rightarrow> min r (remaining_scan (s_budget s)))"
  obtain stop n over t' c' s' where v: "vf m (Some (Member_stream cap st)) (t, c, s) = ((stop, n, over), t', c', s')"
    by (metis prod_cases3 surj_pair)
  note ok = visitor_okD [OF assms(1) v assms(2)]
  obtain r s2 where ch: "charge n s' = (r, s2)" by fastforce
  have k: "kept s s2" using visit_ok_kept [OF ok] charge_kept [OF ch] by (blast intro: kept_trans)
  have "visit_ok e opts t s stop t' s2" if "r = Inr u" for u
    using ok quiet_charge [OF ch [unfolded that]] k by (cases stop) (auto simp: quiet_def kept_def)
  then show ?thesis
    using v ch k visit_ok_kept [OF ok] charge_Inl [of n s'] cap_def
    by (cases r) (simp_all add: emit_stream_def Let_def)
qed

lemma do_op_ok:
  assumes "visitor_ok e opts M vf" "max_rec s = M"
  shows "walk_ok e opts (t, c, s) (do_op vf op (t, c, s))"
proof (cases op)
  case (Op_visit m)
  obtain stop n over t' c' s' where v: "vf m None (t, c, s) = ((stop, n, over), t', c', s')"
    by (metis prod_cases3 surj_pair)
  show ?thesis using visitor_okD [OF assms(1) v assms(2)] v Op_visit by (simp add: do_op_def)
qed (simp_all add: do_op_def missing_def kept_def marked_def emit_bytes_ok [OF assms] emit_stream_ok [OF assms])

lemma spend_quiet: "spend f (t, c, s) = (op, t', c', s') \<Longrightarrow> t' = t \<and> c' = c \<and> quiet s s'"
  by (auto simp: spend_def quiet_def kept_def marked_def reported_def split: prod.splits)

lemma dispatch_ok:
  assumes "visitor_ok e opts M vf" "max_rec s = M"
  shows "walk_ok e opts (t, c, s) (dispatch vf fs (t, c, s))"
  using assms(2)
proof (induction fs arbitrary: t c s)
  case (Cons f fs)
  obtain op t1 c1 s1 where sp: "spend f (t, c, s) = (op, t1, c1, s1)" by (metis surj_pair)
  obtain r t2 c2 s2 where op: "do_op vf op (t1, c1, s1) = (r, t2, c2, s2)" by (metis surj_pair)
  have q: "t1 = t" "quiet s s1" using spend_quiet [OF sp] by simp_all
  have M: "max_rec s1 = M" using quiet_max_rec [OF q(2)] Cons.prems by simp
  have v0: "visit_ok e opts t s None t1 s1" using step_visit [of e opts s None s1 t t1] q by simp
  have w: "walk_ok e opts (t, c, s) (r, t2, c2, s2)"
    by (rule walk_trans [OF v0]) (use do_op_ok [OF assms(1) M, of t1 c1 op] op in simp)
  show ?case
  proof (cases "r = Inr None")
    case True
    then have v: "visit_ok e opts t s None t2 s2" using w by simp
    have "max_rec s2 = M" using visit_ok_max_rec [OF v] Cons.prems by simp
    then have "walk_ok e opts (t2, c2, s2) (dispatch vf fs (t2, c2, s2))" by (rule Cons.IH)
    then show ?thesis using walk_trans [OF v] sp op True by simp
  next
    case False
    then have "dispatch vf (f # fs) (t, c, s) = (r, t2, c2, s2)" using sp op by (auto split: sum.splits option.splits)
    then show ?thesis using w by simp
  qed
qed simp

lemma walk_fn_ok:
  assumes "visitor_ok e opts M vf" "max_rec s = M"
  shows "walk_ok e opts (t, c, s) (walk e vf fmt src (t, c, s))"
proof (cases "allows e fmt")
  case True
  obtain r t1 c1 s1 where d: "dispatch vf (decode e fmt src) (t, c, s) = (r, t1, c1, s1)" by (metis surj_pair)
  have w: "walk_ok e opts (t, c, s) (r, t1, c1, s1)" using dispatch_ok [OF assms, of t c "decode e fmt src"] d by simp
  show ?thesis
  proof (cases "failure src")
    case None
    then show ?thesis using True d w by (auto simp: walk_def missed_source_def split: sum.splits option.splits)
  next
    case (Some err)
    then show ?thesis using True d w
      by (cases r) (auto simp: walk_def missed_source_def split: option.splits simp del: not_None_eq)
  qed
next
  case False
  let ?m = "\<lparr>m_name = format_name e fmt, comp_size = source_len src, m_encrypted = False, unsupported = Some EXCLUDED,
    zip_local_flags = None\<rparr>"
  obtain stop n over t' c' s' where v: "vf ?m None (t, c, s) = ((stop, n, over), t', c', s')"
    by (metis prod_cases3 surj_pair)
  show ?thesis using visitor_okD [OF assms(1) v assms(2)] v False by (simp add: walk_def)
qed

lemma scan_rejoined_stopped: "scan_rejoined rec e opts cx ps (Some out) t s = (Some out, t, s)"
  by (cases ps) auto

lemma outcome_for_hit_ok:
  "\<not> is_corrupt h \<Longrightarrow> hard_ok e opts (outcome_for_hit (alert_exceeds_max opts) h)"
  by (simp add: outcome_for_hit_def limits_outcome_ok)

lemma walk_inside_sound:
  assumes env: "member_env e opts rec cx M" and M: "max_rec s = M"
    and run: "walk_inside rec e opts cx d s = (out, s')"
  shows "sound e opts out s s'"
proof -
  let ?vf = "visit_member rec e opts cx d"
  obtain res t1 c1 s1 where w: "walk e ?vf (cx_fmt cx) d
      (tally_new, collector_new (max_buffer_bytes (limits (s_budget s))), s) = (res, t1, c1, s1)"
    by (metis surj_pair)
  have vf: "visitor_ok e opts M ?vf" unfolding visitor_ok_def using visit_member_ok [OF env] by blast
  have wok: "walk_ok e opts (tally_new, collector_new (max_buffer_bytes (limits (s_budget s))), s) (res, t1, c1, s1)"
    using walk_fn_ok [OF vf M] w by metis
  define ts where "ts = (case res of Inr r \<Rightarrow> (r, s1)
    | Inl h \<Rightarrow> (Some (outcome_for_hit (alert_exceeds_max opts) h), s1))"
  obtain term2 s2 where ts: "ts = (term2, s2)" by fastforce
  obtain term3 t3 s3 where rj: "scan_rejoined rec e opts cx (into_scannable (collector_finish c1)) term2 t1 s2 = (term3, t3, s3)"
    by (metis prod_cases3)
  define en where "en = (case t_encrypted t3 of
             Some name \<Rightarrow>
               if (case term3 of Some out \<Rightarrow> is_infected out | None \<Rightarrow> False) then (None, s3)
               else sink_hit e name 0 Heuristic s3
           | None \<Rightarrow> (None, s3))"
  obtain stop s4 where en: "en = (stop, s4)" by fastforce
  have out: "out = (case stop of Some x \<Rightarrow> x | None \<Rightarrow> (case term3 of Some x \<Rightarrow> x | None \<Rightarrow> tally_verdict t3))" "s' = s4"
    using run w ts rj en
    by (simp_all add: walk_inside_def ts_def [symmetric] en_def [symmetric] split: option.splits)
  have st: "step_ok e opts s3 stop s4" using en
    by (auto simp: en_def split: option.splits if_splits intro: check_okD [OF sink_hit_ok])
  have before: "(case term3 of Some x \<Rightarrow> sound e opts x s s3 | None \<Rightarrow> visit_ok e opts tally_new s None t3 s3)"
  proof (cases res)
    case (Inl h)
    then have h: "kept s s1" "alerts_kept e opts \<and> is_corrupt h \<longrightarrow> s_found s1 = s_found s" using wok by simp_all
    have t2: "term2 = Some (outcome_for_hit (alert_exceeds_max opts) h)" "s2 = s1"
      using ts Inl by (simp_all add: ts_def)
    have "sound e opts (outcome_for_hit (alert_exceeds_max opts) h) s s2"
    proof (cases "is_corrupt h")
      case True then show ?thesis using h t2 by (simp add: outcome_for_hit_def sound_def)
    next
      case False
      then show ?thesis using h t2 outcome_for_hit_ok [OF False] by (intro hard_sound) simp_all
    qed
    then show ?thesis using rj t2 by (auto simp: scan_rejoined_stopped)
  next
    case (Inr r)
    then have v: "visit_ok e opts tally_new s r t1 s1" and t2: "term2 = r" "s2 = s1" using wok ts by (simp_all add: ts_def)
    show ?thesis
    proof (cases r)
      case (Some x) then show ?thesis using v rj t2 by (auto simp: scan_rejoined_stopped intro: hard_sound)
    next
      case None
      have "max_rec s1 = M" using visit_ok_max_rec [OF v] M by simp
      then have "visit_ok e opts t1 s1 term3 t3 s3" using rejoined [OF env] rj t2 None by blast
      then have "visit_ok e opts tally_new s term3 t3 s3" by (rule visit_trans [OF v [unfolded None]])
      then show ?thesis by (cases term3) (auto intro: hard_sound)
    qed
  qed
  show ?thesis
  proof (cases stop)
    case (Some x)
    have "kept s s3" using before by (auto split: option.splits dest: sound_kept)
    then show ?thesis using st out Some by (auto intro: hard_sound kept_trans)
  next
    case None
    then have q: "quiet s3 s4" using st by simp
    show ?thesis
    proof (cases term3)
      case (Some x) then show ?thesis using before out None q by (auto intro: sound_quiet)
    next
      case t3: None
      then have "visit_ok e opts tally_new s None t3 s3" using before by simp
      then have "sound e opts (tally_verdict t3) s s3"
        by (auto simp: sound_def tally_verdict_cases)
      then show ?thesis using out None t3 q by (auto intro: sound_quiet)
    qed
  qed
qed

lemma with_ancestry_sound:
  assumes "with_ancestry c f s = (out, s')" "\<And>s1 out' s2. f s1 = (out', s2) \<Longrightarrow> max_rec s1 = max_rec s \<Longrightarrow> sound e opts out' s1 s2"
  shows "sound e opts out s s'"
proof -
  obtain s2 where f: "f (s\<lparr>s_ancestry := s_ancestry s @ [c]\<rparr>) = (out, s2)" and s': "s' = s2\<lparr>s_ancestry := butlast (s_ancestry s2)\<rparr>"
    using assms(1) by (auto simp: with_ancestry_def split: prod.splits)
  show ?thesis using assms(2) [OF f] by (simp add: s')
qed

text \<open>Asking whether the recursion limit is reached: recorded if it is.\<close>

lemma at_limit_simps:
  "max_rec s \<le> depth ob \<Longrightarrow> at_limit ob s = (True, missed_if True ''recursion limit'' s)"
  "\<not> max_rec s \<le> depth ob \<Longrightarrow> at_limit ob s = (False, s)"
  by (simp_all add: at_limit_def Let_def)

lemma walk_members_sound:
  assumes rec: "rec_ok e opts M n rec" and M: "max_rec s = M" and n: "n \<le> depth ob"
    and run: "walk_members rec e opts d ob ft fmt s = (out, s')"
  shows "sound e opts out s s'"
proof (cases "M \<le> depth ob")
  case True
  let ?s1 = "missed_if True ''recursion limit'' s"
  have "limit_stop opts MaxRecursion (recursion_exceeded ?s1) ?s1 = (out, s')"
    using run M True by (simp add: walk_members_def at_limit_simps)
  from limit_stop_ok [OF this] show ?thesis by (auto intro: hard_sound)
next
  case False
  let ?cx = "\<lparr>container_size = source_len d, container_is_ole = (fmt = F_Ole), member_container = container_cltype (mhtml e) fmt d,
              cx_ft = ft, cx_fmt = fmt, cx_depth = depth ob\<rparr>"
  have "with_ancestry (container_cltype (mhtml e) fmt d) (walk_inside rec e opts ?cx d) s = (out, s')"
    using run M False by (simp add: walk_members_def at_limit_simps Let_def)
  moreover have env: "member_env e opts rec ?cx M" using rec n False by (auto simp: member_env_def)
  ultimately show ?thesis using walk_inside_sound [OF env] M by (elim with_ancestry_sound) simp
qed


section \<open>What an object carries\<close>

lemma scan_found_sound:
  assumes rec: "rec_ok e opts M n rec" "max_rec s = M" "n < depth ob" "depth ob \<le> M"
    and run: "scan_found rec opts d ob s = (out, s')"
  shows "sound e opts out s s'"
proof -
  obtain r s1 where ch: "charge (source_len d) s = (r, s1)" by fastforce
  show ?thesis
  proof (cases r)
    case (Inl h)
    then have "limit_stop opts (kind h) (reason h) s1 = (out, s')" using run ch by (simp add: scan_found_def)
    from limit_stop_ok [OF this] charge_kept [OF ch] show ?thesis by (blast intro: hard_sound kept_trans)
  next
    case (Inr u)
    note q = quiet_charge [OF ch [unfolded Inr]]
    have "rec ob d s1 = (out, s')" using run ch Inr by (simp add: scan_found_def)
    then have "sound e opts out s1 s'" using rec_okD [OF rec(1)] quiet_max_rec [OF q] rec(2-4) by simp
    then show ?thesis by (rule quiet_sound_trans [OF q])
  qed
qed

lemma stop_or_defer_carries:
  assumes "stop_or_defer (f s) slot = (stop, slot', s')" "\<And>out s1. f s = (out, s1) \<Longrightarrow> sound e opts out s s1"
  shows "carries e opts slot s stop slot' s'"
proof -
  obtain out s1 where f: "f s = (out, s1)" by fastforce
  show ?thesis using carries_stop_or_defer [OF assms(2) [OF f], of slot stop slot' s'] assms(1) f
    by (auto simp: stop_or_defer_def split: if_splits)
qed

lemma scan_each_carries:
  assumes "scan_each f ds slot s = (stop, slot', s')" "max_rec s = M"
    and "\<And>d s1 out s2. f d s1 = (out, s2) \<Longrightarrow> max_rec s1 = M \<Longrightarrow> sound e opts out s1 s2"
  shows "carries e opts slot s stop slot' s'"
  using assms(1,2)
proof (induction ds arbitrary: slot s)
  case (Cons d ds)
  obtain r slot1 s1 where 1: "stop_or_defer (f d s) slot = (r, slot1, s1)" by (metis prod_cases3)
  have c: "carries e opts slot s r slot1 s1"
    using stop_or_defer_carries [of "f d" s slot r slot1 s1 e] 1 assms(3) Cons.prems(2) by blast
  show ?case
  proof (cases r)
    case (Some out) then show ?thesis using Cons.prems(1) c 1 by auto
  next
    case None
    have "max_rec s1 = M" using carries_max_rec [OF c] Cons.prems(2) by simp
    then show ?thesis using Cons.IH [of slot1 s1] Cons.prems(1) 1 None c by (auto intro: carries_trans)
  qed
qed simp

text \<open>A scan at the limit is asked of nothing deeper.\<close>

definition obj_env :: "analyses \<Rightarrow> scan_options \<Rightarrow> scan_fn \<Rightarrow> obj \<Rightarrow> nat \<Rightarrow> bool" where
  "obj_env e opts rec ob M \<longleftrightarrow> rec_ok e opts M (depth ob) rec"

lemma depth_inner [simp]:
  "depth (obj_inner ob c) = Suc (depth ob)" "depth (carved_obj ob) = Suc (depth ob)"
  "depth (ob\<lparr>carve := a\<rparr>) = depth ob" "depth (ob\<lparr>core_on := a\<rparr>) = depth ob"
  by (simp_all add: obj_inner_def carved_obj_def)

lemma inner_found:
  assumes "obj_env e opts rec ob M" "max_rec s = M" "depth ob < M" "depth ob' = Suc (depth ob)"
    and "scan_found rec opts d ob' s = (out, s')"
  shows "sound e opts out s s'"
  using assms by (intro scan_found_sound [of e opts M "depth ob" rec s ob' d]) (auto simp: obj_env_def)

lemma scan_unpacked_carries:
  assumes env: "obj_env e opts rec ob M" "max_rec s = M" and run: "scan_unpacked rec opts bufs ob slot s = (stop, slot', s')"
  shows "carries e opts slot s stop slot' s'"
proof (rule scan_each_carries [OF run [unfolded scan_unpacked_def] env(2)])
  fix d s1 out s2
  assume f: "(case at_limit ob s1 of
       (True, s) \<Rightarrow> limit_stop opts MaxRecursion (recursion_exceeded s) s
     | (False, s) \<Rightarrow> scan_found rec opts d (obj_inner ob (container ob)) s) = (out, s2)" and M: "max_rec s1 = M"
  show "sound e opts out s1 s2"
  proof (cases "M \<le> depth ob")
    case True
    let ?s1 = "missed_if True ''recursion limit'' s1"
    have "limit_stop opts MaxRecursion (recursion_exceeded ?s1) ?s1 = (out, s2)" using f M True by (simp add: at_limit_simps)
    from limit_stop_ok [OF this] show ?thesis by (auto intro: hard_sound)
  next
    case False
    then show ?thesis using f M by (intro inner_found [OF env(1) M]) (auto simp: at_limit_simps)
  qed
qed

lemma base64_pass_carries:
  assumes env: "obj_env e opts rec ob M" "max_rec s = M" and run: "base64_pass rec e opts d ob ft slot s = (stop, slot', s')"
  shows "carries e opts slot s stop slot' s'"
proof (cases "decode_base64 opts \<and> depth ob < max_rec s \<and> text_anywhere d")
  case False
  then show ?thesis using run by (auto simp: base64_pass_def intro: carries_quiet quiet_depth_missing split: if_splits)
next
  case True
  obtain ps capped where p: "base64_payloads e d (max_buffer_bytes (limits (s_budget s))) = (ps, capped)" by fastforce
  define c where "c = (case carrier_cltype ft of Some c \<Rightarrow> Some c | None \<Rightarrow> container ob)"
  let ?f = "\<lambda>p. with_ancestry c (scan_found rec opts p ((obj_inner ob c)\<lparr>carve := False\<rparr>))"
  have run': "scan_each ?f (map in_memory ps) slot (mark_if capped (Mark_capped BASE64_CAPPED) (missed_if capped BASE64_CAPPED s)) = (stop, slot', s')"
    using run True p by (simp add: base64_pass_def c_def Let_def)
  have q: "quiet s (mark_if capped (Mark_capped BASE64_CAPPED) (missed_if capped BASE64_CAPPED s))" by (rule quiet_mark_missed)
  have "carries e opts slot (mark_if capped (Mark_capped BASE64_CAPPED) (missed_if capped BASE64_CAPPED s)) stop slot' s'"
  proof (rule scan_each_carries [OF run'])
    show "max_rec (mark_if capped (Mark_capped BASE64_CAPPED) (missed_if capped BASE64_CAPPED s)) = M" using quiet_max_rec [OF q] env(2) by simp
    fix d s1 out s2
    assume f: "?f d s1 = (out, s2)" and M: "max_rec s1 = M"
    show "sound e opts out s1 s2"
    proof (rule with_ancestry_sound [OF f])
      fix s3 out' s4
      assume "scan_found rec opts d ((obj_inner ob c)\<lparr>carve := False\<rparr>) s3 = (out', s4)" "max_rec s3 = max_rec s1"
      then show "sound e opts out' s3 s4" using True env M by (intro inner_found [OF env(1)]) auto
    qed
  qed
  then show ?thesis by (rule quiet_carries [OF q])
qed

lemma carries_ancestry [simp]:
  "carries e opts slot (s\<lparr>s_ancestry := a\<rparr>) stop slot' s' \<longleftrightarrow> carries e opts slot s stop slot' s'"
  "carries e opts slot s stop slot' (s'\<lparr>s_ancestry := a\<rparr>) \<longleftrightarrow> carries e opts slot s stop slot' s'"
  by (auto simp: carries_def kept_with_ancestry split: option.splits)

lemma missed_if_ancestry: "(missed_if c x s)\<lparr>s_ancestry := a\<rparr> = missed_if c x (s\<lparr>s_ancestry := a\<rparr>)"
  by (simp add: missed_if_def missing_def)

lemma markup_pass_carries:
  assumes env: "obj_env e opts rec ob M" "max_rec s = M" and run: "markup_pass rec e opts d ob ft slot s = (stop, slot', s')"
  shows "carries e opts slot s stop slot' s'"
proof (cases "markup_cltype ft (window d 0 4096)")
  case None then show ?thesis using run by (simp add: markup_pass_def)
next
  case (Some mc)
  show ?thesis
  proof (cases "decode_base64 opts \<and> depth ob < max_rec s")
    case False
    then show ?thesis using run Some by (auto simp: markup_pass_def intro: carries_quiet quiet_depth_missing split: if_splits)
  next
    case True
    obtain ps capped where p: "markup_payloads e d (max_buffer_bytes (limits (s_budget s))) = (ps, capped)" by fastforce
    let ?sa = "s\<lparr>s_ancestry := s_ancestry s @ [Some mc]\<rparr>"
    let ?s0 = "mark_if capped (Mark_capped BASE64_CAPPED) (missed_if capped BASE64_CAPPED ?sa)"
    let ?f = "\<lambda>p. scan_found rec opts p ((obj_inner ob (Some mc))\<lparr>carve := False\<rparr>)"
    obtain st sl s1 where r: "scan_each ?f (map in_memory ps) slot ?s0 = (st, sl, s1)" by (metis prod_cases3)
    have out: "stop = st" "slot' = sl" "s' = s1\<lparr>s_ancestry := butlast (s_ancestry s1)\<rparr>"
      using run Some True p r by (auto simp: markup_pass_def with_ancestry_def missed_if_ancestry Let_def)
    have q: "quiet ?sa ?s0" by (rule quiet_mark_missed)
    have "max_rec ?s0 = M" using quiet_max_rec [OF q] env(2) by simp
    then have "carries e opts slot ?s0 st sl s1" using True env by (intro scan_each_carries [OF r]) (auto intro!: inner_found [OF env(1)])
    then have "carries e opts slot ?sa st sl s1" by (rule quiet_carries [OF q])
    then show ?thesis by (simp add: out)
  qed
qed

text \<open>Two passes in turn.\<close>

lemma carries_seq:
  assumes "carries e opts slot s stop1 slot1 s1"
    and "stop1 = None \<Longrightarrow> max_rec s1 = max_rec s \<Longrightarrow> carries e opts slot1 s1 stop slot' s'"
    and "\<And>out. stop1 = Some out \<Longrightarrow> stop = Some out \<and> s' = s1"
  shows "carries e opts slot s stop slot' s'"
proof (cases stop1)
  case None
  then show ?thesis using assms carries_max_rec [OF assms(1)] by (auto intro: carries_trans)
next
  case (Some out) then show ?thesis using assms by (auto simp: carries_def)
qed

lemma scan_carried_carries:
  assumes env: "obj_env e opts rec ob M" "max_rec s = M" and run: "scan_carried rec e opts d ob ft slot s = (stop, slot', s')"
  shows "carries e opts slot s stop slot' s'"
proof -
  obtain r1 slot1 s1 where 1: "base64_pass rec e opts d ob ft slot s = (r1, slot1, s1)" by (metis prod_cases3)
  obtain r2 slot2 s2 where 2: "markup_pass rec e opts d ob ft slot1 s1 = (r2, slot2, s2)" by (metis prod_cases3)
  obtain r3 s3 where 3: "whole_buffer_heuristics e opts d ft (embedded_obj ob) s2 = (r3, s3)" by fastforce
  have c3: "carries e opts slot2 s2 r3 slot2 s3" using check_okD [OF whole_buffer_heuristics_ok 3] by (rule step_carries)
  show ?thesis
  proof (rule carries_seq [OF base64_pass_carries [OF env 1]])
    assume n1: "r1 = None" and M1: "max_rec s1 = max_rec s"
    show "carries e opts slot1 s1 stop slot' s'"
    proof (rule carries_seq [OF markup_pass_carries [OF env(1) _ 2]])
      show "max_rec s1 = M" using M1 env(2) by simp
      show "carries e opts slot2 s2 stop slot' s'" if "r2 = None"
        using run 1 2 3 n1 that c3 by (simp add: scan_carried_def)
      show "stop = Some out \<and> s' = s2" if "r2 = Some out" for out
        using run 1 2 n1 that by (simp add: scan_carried_def)
    qed
  next
    show "stop = Some out \<and> s' = s1" if "r1 = Some out" for out using run 1 that by (simp add: scan_carried_def)
  qed
qed

end
