(* ===== verification/Scan_Honest.thy ===== *)
theory Scan_Honest
  imports Scan_Walk_Props
begin

text \<open>
  The judgement for archives and files, the induction on the levels of the scan, and what follows for
  the report: it is never silently clean, and a detection is never turned into less than a limit.
\<close>

section \<open>Archives\<close>

lemma carved_found:
  assumes "obj_env e opts rec ob M" "max_rec s = M" "depth ob < M" "depth ob' = Suc (depth ob)"
    and "stop_or_defer (scan_found rec opts d ob' s) slot = (stop, slot', s')"
  shows "carries e opts slot s stop slot' s'"
  using assms(5) inner_found [OF assms(1-4)] by (rule stop_or_defer_carries)

lemma appended_zip_carries:
  assumes env: "obj_env e opts rec ob M" "max_rec s = M" "depth ob < M"
    and run: "appended_zip rec e opts d ob fmt slot s = (stop, slot', s')"
  shows "carries e opts slot s stop slot' s'"
proof (cases "if fmt = F_Zip then None else appended_zip_start e d")
  case None
  then show ?thesis using run by (auto simp: appended_zip_def split: if_splits)
next
  case (Some at)
  show ?thesis
  proof (cases "at < source_len d")
    case True
    then have "stop_or_defer (scan_found rec opts (sub_from d at) (carved_obj ob) s) slot = (stop, slot', s')"
      using run Some by (simp add: appended_zip_def)
    then show ?thesis by (rule carved_found [OF env depth_inner(2)])
  qed (use run Some in \<open>simp add: appended_zip_def\<close>)
qed

lemma second_format_carries:
  assumes env: "obj_env e opts rec ob M" "max_rec s = M"
    and run: "second_format rec e opts d ob fmt slot s = (stop, slot', s')"
  shows "carries e opts slot s stop slot' s'"
proof (cases "also_reads_as e d fmt")
  case None then show ?thesis using run by (simp add: second_format_def)
next
  case (Some other)
  have "sound e opts out s s1" if "walk_members rec e opts d (carved_obj ob) (filetype_of_format other) other s = (out, s1)" for out s1
    using walk_members_sound [OF _ env(2) _ that] env(1) by (auto simp: obj_env_def)
  then show ?thesis using run Some
    by (intro stop_or_defer_carries [of "walk_members rec e opts d (carved_obj ob) (filetype_of_format other) other" s])
       (simp_all add: second_format_def)
qed

lemma carved_each:
  assumes env: "obj_env e opts rec ob M" "max_rec s = M" "depth ob < M"
    and run: "scan_each (\<lambda>p. scan_found rec opts p (carved_obj ob)) ps slot s = (r, slot1, s1)"
  shows "carries e opts slot s r slot1 s1"
  using run env(2)
proof (rule scan_each_carries)
  fix p s2 out s3
  assume "scan_found rec opts p (carved_obj ob) s2 = (out, s3)" "max_rec s2 = M"
  then show "sound e opts out s2 s3" using env inner_found [OF env(1) _ env(3) depth_inner(2)] by simp
qed

lemma scan_each_stops: "scan_each f ds slot s = (Some out, slot', s') \<Longrightarrow> stops out"
  by (induction ds arbitrary: slot s)
     (auto simp: stop_or_defer_def split: prod.splits option.splits if_splits)

text \<open>
  What is known to be cut short before a pass and marked when the pass is done: it may only stop
  before the mark with an outcome that ends the walk.
\<close>

lemma sound_missed_if: "sound e opts slot s0 s \<Longrightarrow> slot \<noteq> Clean \<Longrightarrow> sound e opts slot s0 (missed_if c x s)"
  by (simp add: sound_def)

lemma carries_marked_later:
  assumes c: "carries e opts slot (missed_if c x s) stop slot' s'" and hard: "\<And>out. stop = Some out \<Longrightarrow> stops out"
  shows "carries e opts slot s stop slot' (case stop of None \<Rightarrow> mark_if c m s' | Some _ \<Rightarrow> s')"
proof (cases c)
  case False
  then show ?thesis using c by (cases stop) (simp_all add: mark_if_def missed_if_def)
next
  case True
  let ?s1 = "missed_if c x s"
  have k: "kept s s'" using carries_kept [OF c] by simp
  then have k': "kept s (put_mark m s')" using quiet_kept [OF quiet_put_mark] by (rule kept_trans)
  show ?thesis
  proof (rule carriesI)
    show "kept s (case stop of None \<Rightarrow> mark_if c m s' | Some _ \<Rightarrow> s')" using k k' True by (simp add: mark_if_def split: option.split)
    show "stop = None \<Longrightarrow> \<not> stops slot \<Longrightarrow> \<not> stops slot'" using c carries_soft by blast
    fix s0 assume so: "sound e opts slot s0 s"
    have k0: "kept s0 s'" using sound_kept [OF so] k by (rule kept_trans)
    show "case stop of None \<Rightarrow> sound e opts slot' s0 (case stop of None \<Rightarrow> mark_if c m s' | Some _ \<Rightarrow> s')
        | Some out \<Rightarrow> sound e opts out s0 (case stop of None \<Rightarrow> mark_if c m s' | Some _ \<Rightarrow> s')"
    proof (cases "slot = Clean")
      case False
      have "case stop of None \<Rightarrow> sound e opts slot' s0 s' | Some out \<Rightarrow> sound e opts out s0 s'"
        using c sound_missed_if [OF so False] by (simp add: carries_def)
      then show ?thesis using True by (auto simp: mark_if_def split: option.splits intro: sound_quiet quiet_put_mark)
    next
      case clean: True
      have own: "case stop of None \<Rightarrow> sound e opts slot' ?s1 s' | Some out \<Rightarrow> sound e opts out ?s1 s'"
        using c clean quiet_sound [OF quiet_refl, of e opts ?s1] by (simp add: carries_def)
      show ?thesis
      proof (cases stop)
        case None
        then have "\<not> stops slot'" using c clean carries_soft by fastforce
        then show ?thesis using own so clean None True k0 quiet_put_mark [of s' m]
          by (auto simp: sound_def mark_if_def quiet_def intro: kept_trans)
      next
        case (Some out)
        then show ?thesis using own hard [OF Some] k0 by (auto simp: sound_def)
      qed
    qed
  qed
qed

lemma ole_images_carries:
  assumes env: "obj_env e opts rec ob M" "max_rec s = M" "depth ob < M"
    and run: "ole_images rec e opts d ob slot s = (stop, slot', s')"
  shows "carries e opts slot s stop slot' s'"
proof -
  let ?c = "pe_capped (embedded_in e d)"
  obtain r slot1 s1 where 1: "scan_each (\<lambda>p. scan_found rec opts p (carved_obj ob)) (map (sub_from d) (emb_pe (embedded_in e d))) slot
      (missed_if ?c CARVING_CAPPED s) = (r, slot1, s1)" by (metis prod_cases3)
  have "carries e opts slot (missed_if ?c CARVING_CAPPED s) r slot1 s1" using env by (intro carved_each [OF env(1) _ env(3) 1]) simp
  moreover have "stops out" if "r = Some out" for out using 1 that scan_each_stops by blast
  ultimately have "carries e opts slot s r slot1 (case r of None \<Rightarrow> mark_if ?c (Mark_capped CARVING_CAPPED) s1 | Some _ \<Rightarrow> s1)"
    by (rule carries_marked_later)
  then show ?thesis using run 1 by (cases r) (auto simp: ole_images_def Let_def)
qed

lemma finish_sound:
  assumes "sound e opts slot s0 s" "carries e opts slot s stop slot' s'"
  shows "sound e opts (case stop of Some out \<Rightarrow> out | None \<Rightarrow> slot') s0 s'"
  using assms by (auto simp: carries_def split: option.splits)

lemma archive_tail_sound:
  assumes env: "obj_env e opts rec ob M" "max_rec s = M" and slot: "sound e opts slot s0 s"
    and run: "archive_tail rec e opts d ob fmt slot s = (out, s')"
  shows "sound e opts out s0 s'"
proof (cases "carve ob \<and> depth ob < max_rec s")
  case False then show ?thesis using run slot by (auto simp: archive_tail_def)
next
  case True
  then have lt: "depth ob < M" using env(2) by simp
  obtain r1 slot1 s1 where 1: "appended_zip rec e opts d ob fmt slot s = (r1, slot1, s1)" by (metis prod_cases3)
  obtain r2 slot2 s2 where 2: "second_format rec e opts d ob fmt slot1 s1 = (r2, slot2, s2)" by (metis prod_cases3)
  obtain r3 slot3 s3 where 3: "(if fmt = F_Ole then ole_images rec e opts d ob slot2 s2 else (None, slot2, s2)) = (r3, slot3, s3)"
    by (metis prod_cases3)
  note c1 = appended_zip_carries [OF env lt 1]
  have M1: "max_rec s1 = M" using carries_max_rec [OF c1] env(2) by simp
  note c2 = second_format_carries [OF env(1) M1 2]
  have M2: "max_rec s2 = M" using carries_max_rec [OF c2] M1 by simp
  have c3: "carries e opts slot2 s2 r3 slot3 s3" using 3 ole_images_carries [OF env(1) M2 lt] by (auto split: if_splits)
  show ?thesis
  proof (cases r1)
    case (Some o1) then show ?thesis using run True 1 finish_sound [OF slot c1] by (auto simp: archive_tail_def)
  next
    case n1: None
    note f1 = finish_sound [OF slot c1, unfolded n1 option.case]
    show ?thesis
    proof (cases r2)
      case (Some o2) then show ?thesis using run True 1 2 n1 finish_sound [OF f1 c2] by (auto simp: archive_tail_def)
    next
      case n2: None
      note f2 = finish_sound [OF f1 c2, unfolded n2 option.case]
      show ?thesis using run True 1 2 3 n1 n2 finish_sound [OF f2 c3]
        by (cases r3) (auto simp: archive_tail_def split: if_splits)
    qed
  qed
qed

lemma quiet_type_finding: "quiet s (type_finding e ob ft s)"
  by (simp add: type_finding_def quiet_add_findings)

lemma is_infected_stops: "is_infected out \<Longrightarrow> stops out"
  by (cases out) (simp_all add: is_infected_def)

lemma scan_archive_sound:
  assumes env: "obj_env e opts rec ob M" "max_rec s = M"
    and run: "scan_archive rec e opts d ob ft fmt s = (out, s')"
  shows "sound e opts out s s'"
proof -
  have rec: "rec_ok e opts M (depth ob) rec" using env(1) by (simp add: obj_env_def)
  let ?s0 = "type_finding e ob ft s"
  have M0: "max_rec ?s0 = M" using quiet_max_rec [OF quiet_type_finding] env(2) by simp
  obtain r1 carried s1 where 1: "scan_carried rec e opts d ob ft Clean ?s0 = (r1, carried, s1)" by (metis prod_cases3)
  note c1 = scan_carried_carries [OF env(1) M0 1]
  have M1: "max_rec s1 = M" using carries_max_rec [OF c1] M0 by simp
  note f1 = finish_sound [OF quiet_sound [OF quiet_type_finding] c1]
  obtain members s2 where 2: "walk_members rec e opts d ob ft fmt s1 = (members, s2)" by fastforce
  note w = walk_members_sound [OF rec M1 order_refl 2]
  define outcome where "outcome = defer_outcome members carried"
  obtain r3 s3 where 3: "core e opts d (own_type ob ft) ob (write_total s2) s2 = (r3, s3)" by fastforce
  show ?thesis
  proof (cases r1)
    case (Some o1) then show ?thesis using run 1 f1 by (auto simp: scan_archive_def)
  next
    case n1: None
    have "sound e opts outcome s s2" unfolding outcome_def
      using f1 [unfolded n1 option.case] w carries_soft [OF c1 [unfolded n1]] by (rule sound_defer_before) simp
    note so = this
    show ?thesis
    proof (cases "is_infected outcome \<or> \<not> core_on ob")
      case True
      then show ?thesis using run 1 n1 2 so by (auto simp: scan_archive_def outcome_def)
    next
      case False
      show ?thesis
      proof (cases r3)
        case (Inl stop)
        then have "kept s2 s3 \<and> hard_ok e opts stop" using core_Inl 3 by blast
        moreover have "out = stop \<and> s' = s3" using run 1 n1 2 False 3 Inl by (auto simp: scan_archive_def outcome_def)
        ultimately show ?thesis using sound_kept [OF so] by (auto intro: hard_sound kept_trans)
      next
        case (Inr rest)
        then have q: "quiet s2 s3" using core_Inr 3 by blast
        have M3: "max_rec s3 = M" using quiet_max_rec [OF q] sound_max_rec [OF w] M1 by simp
        obtain r4 outcome4 s4 where 4: "scan_unpacked rec opts (unpacked rest) ob outcome s3 = (r4, outcome4, s4)"
          by (metis prod_cases3)
        note c4 = scan_unpacked_carries [OF env(1) M3 4]
        have M4: "max_rec s4 = M" using carries_max_rec [OF c4] M3 by simp
        note f4 = finish_sound [OF sound_quiet [OF so q] c4]
        show ?thesis
        proof (cases r4)
          case (Some o4)
          then show ?thesis using run 1 n1 2 False 3 Inr 4 f4 by (auto simp: scan_archive_def outcome_def)
        next
          case None
          have "archive_tail rec e opts d ob fmt outcome4 s4 = (out, s')"
            using run 1 n1 2 False 3 Inr 4 None by (simp add: scan_archive_def outcome_def)
          then show ?thesis by (rule archive_tail_sound [OF env(1) M4 f4 [unfolded None option.case]])
        qed
      qed
    qed
  qed
qed

section \<open>What is found inside an object\<close>

lemma proven_archive_quiet: "proven_archive e opts sub ft fmt s = (proven, s') \<Longrightarrow> quiet s s'"
  by (auto simp: proven_archive_def split: if_splits option.splits prod.splits intro: whole_quiet)

text \<open>A candidate is scanned with a record of its own, put back when it is done.\<close>

lemma own_record [simp]:
  "kept (s\<lparr>s_missed := ms\<rparr>) s' \<longleftrightarrow> kept s s'" "kept s (after_missed f s0 s') \<longleftrightarrow> kept s s'"
  "s_found (after_missed f s0 s) = s_found s" "marked (after_missed f s0 s) = marked s" "max_rec (s\<lparr>s_missed := ms\<rparr>) = max_rec s"
  by (simp_all add: kept_def marked_def after_missed_def max_rec_def)

lemma reported_dismissed [simp]: "reported (after_missed dismissal s0 s) = reported s0"
proof -
  have "(\<nexists>r. dismissal m = Missed r)" for m by (cases m) simp_all
  then show ?thesis by (auto simp: reported_def after_missed_def filter_empty_conv)
qed

lemma carried_dismissed:
  assumes "sound e opts out (s\<lparr>s_missed := []\<rparr>) s1" "\<not> stops out" "quiet s1 s2"
  shows "carries e opts slot s None slot (after_missed dismissal s s2)"
  using assms by (auto simp: carries_def sound_def quiet_def intro: kept_trans) (auto simp: kept_def)

lemma carried_clean:
  assumes "sound e opts Clean (s\<lparr>s_missed := []\<rparr>) s1"
  shows "carries e opts slot s None slot (after_missed id s s1)"
  using assms by (auto simp: carries_def sound_def reported_def after_missed_def marked_def intro: kept_trans) (auto simp: kept_def marked_def)

lemma carried_password:
  assumes "sound e opts out (s\<lparr>s_missed := []\<rparr>) s1" "\<not> stops out" "quiet s1 s2" "\<not> stops slot"
  shows "carries e opts slot s None (PasswordProtected r) (after_missed id s s2)"
  using assms by (auto simp: carries_def sound_def quiet_def intro: kept_trans)

lemma carved_archive_carries:
  assumes env: "obj_env e opts rec ob M" "max_rec s = M" "depth ob < M" and slot: "\<not> stops slot"
    and run: "carved_archive rec e opts ob ft sub slot s = (stop, slot', s')"
  shows "carries e opts slot s stop slot' s' \<and> (\<forall>out. stop = Some out \<longrightarrow> stops out)"
proof (cases "detect_archive_start e sub")
  case None
  then show ?thesis using run by (simp add: carved_archive_def)
next
  case (Some fmt)
  let ?a = "s\<lparr>s_missed := []\<rparr>"
  obtain out s1 where 1: "scan_found rec opts sub ((carved_obj ob)\<lparr>core_on := False\<rparr>) ?a = (out, s1)" by fastforce
  have snd: "sound e opts out ?a s1" using env 1 by (intro inner_found [OF env(1) _ env(3) _ 1]) simp_all
  obtain proven s2 where 2: "proven_archive e opts sub ft fmt s1 = (proven, s2)" by fastforce
  note q = proven_archive_quiet [OF 2]
  show ?thesis
  proof (cases "stops out")
    case True
    then have "carries e opts slot s (Some out) slot (after_missed id s s1)"
      using snd by (auto simp: carries_def sound_def intro: kept_trans)
    then show ?thesis using run Some 1 True by (auto simp: carved_archive_def)
  next
    case False
    have d1: "carries e opts slot s None slot (after_missed dismissal s s1)"
      by (rule carried_dismissed [OF snd False quiet_refl])
    have d2: "carries e opts slot s None slot (after_missed dismissal s s2)"
      by (rule carried_dismissed [OF snd False q])
    have p: "carries e opts slot s None (PasswordProtected r) (after_missed id s s2)" for r
      by (rule carried_password [OF snd False q slot])
    have cl: "out = Clean \<Longrightarrow> carries e opts slot s None slot (after_missed id s s1)"
      using snd carried_clean by blast
    show ?thesis using run Some 1 2 False d1 d2 p cl
      by (cases out) (auto simp: carved_archive_def split: if_splits)
  qed
qed

lemma carved_archives_carries:
  assumes "obj_env e opts rec ob M" "max_rec s = M" "depth ob < M" "\<not> stops slot"
    and "carved_archives rec e opts ob ft subs slot s = (stop, slot', s')"
  shows "carries e opts slot s stop slot' s' \<and> (\<forall>out. stop = Some out \<longrightarrow> stops out)"
  using assms
proof (induction subs arbitrary: slot s)
  case (Cons sub subs)
  obtain r slot1 s1 where 1: "carved_archive rec e opts ob ft sub slot s = (r, slot1, s1)" by (metis prod_cases3)
  note ok = carved_archive_carries [OF Cons.prems(1-4) 1]
  note c = conjunct1 [OF ok]
  show ?case
  proof (cases r)
    case None
    have "carries e opts slot1 s1 stop slot' s' \<and> (\<forall>out. stop = Some out \<longrightarrow> stops out)"
      using Cons.prems 1 None carries_max_rec [OF c] carries_soft [OF c [unfolded None]] by (intro Cons.IH) auto
    then show ?thesis using c None by (auto intro: carries_trans)
  qed (use Cons.prems 1 ok in auto)
qed simp

lemma carve_pass_carries:
  assumes env: "obj_env e opts rec ob M" "max_rec s = M" and slot: "\<not> stops slot"
    and run: "carve_pass rec e opts d ob ft slot s = (stop, slot', s')"
  shows "carries e opts slot s stop slot' s'"
proof (cases "carve ob \<and> depth ob < M")
  case False
  then show ?thesis using run env(2) by (auto simp: carve_pass_def intro: carries_quiet quiet_depth_missing split: if_splits)
next
  case True
  let ?emb = "embedded_in e d"
  let ?c = "pe_capped ?emb \<or> others_capped ?emb"
  let ?s0 = "missed_if ?c CARVING_CAPPED s"
  obtain r1 slot1 s1 where 1: "scan_each (\<lambda>p. scan_found rec opts p (carved_obj ob))
      (map (sub_from d) (emb_pe ?emb @ emb_elf ?emb @ emb_macho ?emb)) slot ?s0 = (r1, slot1, s1)" by (metis prod_cases3)
  obtain r2 slot2 s2 where 2: "carved_archives rec e opts ob ft (map (sub_from d) (emb_archives ?emb)) slot1 s1 = (r2, slot2, s2)"
    by (metis prod_cases3)
  let ?mark = "mark_if ?c (Mark_capped CARVING_CAPPED)"
  have run': "(stop, slot', s') = (case r1 of Some out \<Rightarrow> (Some out, slot1, s1)
      | None \<Rightarrow> (case r2 of Some out \<Rightarrow> (Some out, slot2, s2) | None \<Rightarrow> (None, slot2, ?mark s2)))"
    using run True env(2) 1 2 by (auto simp: carve_pass_def Let_def split: option.splits)
  have d: "depth ob < M" and M0: "max_rec ?s0 = M" using True env(2) by simp_all
  note c1 = carved_each [OF env(1) M0 d 1]
  have h1: "stops out" if "r1 = Some out" for out using 1 that scan_each_stops by blast
  show ?thesis
  proof (cases r1)
    case n1: None
    have c2: "carries e opts slot1 s1 r2 slot2 s2 \<and> (\<forall>out. r2 = Some out \<longrightarrow> stops out)"
      using carries_max_rec [OF c1] carries_soft [OF c1 [unfolded n1] slot] M0 by (intro carved_archives_carries [OF env(1) _ d _ 2]) auto
    have "carries e opts slot ?s0 r2 slot2 s2" using c1 c2 n1 by (auto intro: carries_trans)
    then have "carries e opts slot s r2 slot2 (case r2 of None \<Rightarrow> ?mark s2 | Some _ \<Rightarrow> s2)"
      by (rule carries_marked_later) (use c2 in blast)
    then show ?thesis using run' n1 by (cases r2) auto
  next
    case (Some out)
    then show ?thesis using run' carries_marked_later [OF c1 h1] by auto
  qed
qed

lemma file_members_carries:
  assumes env: "obj_env e opts rec ob M" "max_rec s = M"
    and run: "file_members rec e opts d ob ft fmt slot s = (stop, slot', s')"
  shows "carries e opts slot s stop slot' s'"
proof (cases fmt)
  case None
  then show ?thesis using run by (simp add: file_members_def)
next
  case (Some f)
  obtain out s1 where 1: "walk_members rec e opts d ob ft f s = (out, s1)" by fastforce
  obtain r slot1 s2 where 2: "stop_or_defer (out, s1) slot = (r, slot1, s2)" by (metis prod_cases3)
  have "sound e opts out s s1" using walk_members_sound [OF _ env(2) order_refl 1] env(1) by (auto simp: obj_env_def)
  then have "carries e opts slot s r slot1 s2" using 2 by (rule carries_stop_or_defer)
  then show ?thesis using run Some 1 2
    by (cases r) (auto simp: file_members_def carries_def split: if_splits)
qed


section \<open>Checks of what is not an archive\<close>

lemma opt_check [intro]:
  "check_ok e opts a \<Longrightarrow> (\<And>x. check_ok e opts (b x)) \<Longrightarrow> check_ok e opts (\<lambda>s. case r of None \<Rightarrow> a s | Some x \<Rightarrow> b x s)"
  by (cases r) simp_all

lemma signed_check_ok [simp]: "check_ok e opts (signed_check e opts d)"
  unfolding signed_check_def [abs_def]
  by (intro if_check whole_check opt_check none_ok) (auto split: prod.split)

lemma pe_checks_ok [simp]: "check_ok e opts (pe_checks e opts ob info)"
proof (rule check_okI)
  fix s stop s'
  assume run: "pe_checks e opts ob info s = (stop, s')"
  obtain r s1 where 1: "hit_opt e (imphash_hit info) Fuzzy s = (r, s1)" by fastforce
  let ?cs = "checks [hit_opt e (static_hit info) Static,
      hit_if e (looks_packed info \<and> 2 \<le> length (suspicious_imports info)) ''Heuristics.PE.PackedWithInjectionImports'' Heuristic]"
  let ?k = "\<lambda>s. if \<not> heuristics opts then (None, s)
      else ?cs (if depth ob = 0 then add_findings (info_findings info @ [static_finding info]) s else s)"
  have cs: "check_ok e opts ?cs" by (rule checks_ok) simp
  have "check_ok e opts ?k"
  proof (rule check_okI)
    fix s stop s' assume "?k s = (stop, s')"
    then show "step_ok e opts s stop s'"
      using check_okD [OF cs] by (auto split: if_splits intro: quiet_step [OF quiet_add_findings])
  qed
  moreover have "unless_stopped (r, s1) ?k = (stop, s')" using run 1 unfolding pe_checks_def Let_def by simp
  moreover have "step_ok e opts s r s1" using 1 by (rule check_okD [OF hit_opt_ok])
  ultimately show "step_ok e opts s stop s'" by (blast intro: unless_stopped_ok)
qed

lemma pe_pass_ok [simp]: "check_ok e opts (pe_pass e opts d ob ft)"
  unfolding pe_pass_def [abs_def]
  by (intro if_check whole_check opt_check none_ok) simp

lemma file_checks_ok [simp]: "check_ok e opts (file_checks e opts d ob ft)"
  unfolding file_checks_def by (rule checks_ok) simp

lemma file_core_Inl: "file_core e opts d ob ft fmt s = (Inl out, s') \<Longrightarrow> kept s s' \<and> hard_ok e opts out"
  by (auto simp: file_core_def Let_def split: if_splits sum.splits option.splits prod.splits
      dest!: core_Inl core_Inr intro: kept_trans quiet_kept)

lemma file_core_Inr: "file_core e opts d ob ft fmt s = (Inr r, s') \<Longrightarrow> quiet s s'"
  by (auto simp: file_core_def Let_def split: if_splits sum.splits option.splits prod.splits
      dest!: core_Inr unpack_target_quiet intro: quiet_trans)



lemma scan_file_sound:
  assumes env: "obj_env e opts rec ob M" "max_rec s = M"
    and run: "scan_file rec e opts d ob ft fmt s = (out, s')"
  shows "sound e opts out s s'"
proof -
  obtain r1 s1 where 1: "file_core e opts d ob ft fmt s = (r1, s1)" by fastforce
  show ?thesis
  proof (cases r1)
    case (Inl stop)
    then show ?thesis using run 1 file_core_Inl [of e opts d ob ft fmt s stop s1] by (auto simp: scan_file_def intro: hard_sound)
  next
    case (Inr x)
    obtain made ft1 fmt1 where x: "x = (made, ft1, fmt1)" by (metis prod_cases3)
    let ?s2 = "type_finding e ob ft1 s1"
    have q: "quiet s ?s2" using file_core_Inr 1 Inr quiet_type_finding by (blast intro: quiet_trans)
    have M2: "max_rec ?s2 = M" using quiet_max_rec [OF q] env(2) by simp
    obtain r3 slot3 s3 where 3: "scan_unpacked rec opts made ob Clean ?s2 = (r3, slot3, s3)" by (metis prod_cases3)
    obtain r4 slot4 s4 where 4: "scan_carried rec e opts d ob ft1 slot3 s3 = (r4, slot4, s4)" by (metis prod_cases3)
    obtain r5 slot5 s5 where 5: "file_members rec e opts d ob ft1 fmt1 slot4 s4 = (r5, slot5, s5)" by (metis prod_cases3)
    obtain r6 slot6 s6 where 6: "carve_pass rec e opts d ob ft1 slot5 s5 = (r6, slot6, s6)" by (metis prod_cases3)
    obtain r7 s7 where 7: "file_checks e opts d ob ft1 s6 = (r7, s7)" by fastforce
    note c3 = scan_unpacked_carries [OF env(1) M2 3]
    have M3: "max_rec s3 = M" using carries_max_rec [OF c3] M2 by simp
    note c4 = scan_carried_carries [OF env(1) M3 4]
    have M4: "max_rec s4 = M" using carries_max_rec [OF c4] M3 by simp
    note c5 = file_members_carries [OF env(1) M4 5]
    have M5: "max_rec s5 = M" using carries_max_rec [OF c5] M4 by simp
    have c7: "carries e opts slot6 s6 r7 slot6 s7" using check_okD [OF file_checks_ok 7] by (rule step_carries)
    note run' = run [unfolded scan_file_def 1 Inr x prod.case sum.case 3]
    note f3 = finish_sound [OF quiet_sound [OF q] c3]
    show ?thesis
    proof (cases r3)
      case (Some a) then show ?thesis using run' f3 by simp
    next
      case n3: None
      note f4 = finish_sound [OF f3 [unfolded n3 option.case] c4]
      have h3: "\<not> stops slot3" using carries_soft [OF c3 [unfolded n3]] by simp
      show ?thesis
      proof (cases r4)
        case (Some a) then show ?thesis using run' f4 n3 4 by simp
      next
        case n4: None
        note f5 = finish_sound [OF f4 [unfolded n4 option.case] c5]
        have h4: "\<not> stops slot4" using carries_soft [OF c4 [unfolded n4] h3] .
        show ?thesis
        proof (cases r5)
          case (Some a) then show ?thesis using run' f5 n3 4 n4 5 by simp
        next
          case n5: None
          have h5: "\<not> stops slot5" using carries_soft [OF c5 [unfolded n5] h4] .
          note c6 = carve_pass_carries [OF env(1) M5 h5 6]
          note f6 = finish_sound [OF f5 [unfolded n5 option.case] c6]
          show ?thesis
          proof (cases r6)
            case (Some a) then show ?thesis using run' f6 n3 4 n4 5 n5 6 by simp
          next
            case n6: None
            show ?thesis using run' n3 4 n4 5 n5 6 n6 7 finish_sound [OF f6 [unfolded n6 option.case] c7]
              by (cases r7) simp_all
          qed
        qed
      qed
    qed
  qed
qed

section \<open>Level by level\<close>

lemma scan_object_sound:
  assumes env: "obj_env e opts rec ob M" "max_rec s = M"
    and run: "scan_object rec e opts ob d s = (out, s')"
  shows "sound e opts out s s'"
proof -
  obtain target s1 where 1: "unpack_target e opts (identify e d) d s = (target, s1)" by fastforce
  note q = unpack_target_quiet [OF 1]
  have M1: "max_rec s1 = M" using quiet_max_rec [OF q] env(2) by simp
  have fl: "sound e opts out s1 s'" if "scan_file rec e opts d ob ft fmt s1 = (out, s')" for ft fmt
    using that by (rule scan_file_sound [OF env(1) M1])
  have ar: "sound e opts out s1 s'" if "scan_archive rec e opts d ob ft fmt s1 = (out, s')" for ft fmt
    using that by (rule scan_archive_sound [OF env(1) M1])
  consider "out = Clean" "s' = s" | "sound e opts out s1 s'"
    using run 1 fl ar by (auto simp: scan_object_def Let_def split: if_splits option.splits)
  then show ?thesis
  proof cases
    case 1 then show ?thesis using quiet_sound [OF quiet_refl] by simp
  next
    case 2 then show ?thesis by (rule quiet_sound_trans [OF q])
  qed
qed

lemma scan_level_sound:
  assumes "max_rec s = M" "M < depth ob + n" "depth ob \<le> M"
    and "scan_level e opts n ob d s = (out, s')"
  shows "sound e opts out s s'"
  using assms
proof (induction n arbitrary: ob d s out s')
  case (Suc n)
  have "rec_ok e opts M (depth ob) (scan_level e opts n)"
    unfolding rec_ok_def
  proof (intro allI impI)
    fix ob' :: obj and d' s2
    assume "max_rec s2 = M" "depth ob < depth ob'" "depth ob' \<le> M"
    then show "sound e opts (fst (scan_level e opts n ob' d' s2)) s2 (snd (scan_level e opts n ob' d' s2))"
      using Suc.prems(2) by (intro Suc.IH) auto
  qed
  then have "obj_env e opts (scan_level e opts n) ob M" by (simp add: obj_env_def)
  then show ?case using Suc.prems by (intro scan_object_sound) auto
qed simp

lemma run_walk_sound:
  assumes "run_walk e opts sk d = (out, s)"
  shows "sound e opts out (start_state (scan_budget opts) sk) s"
proof -
  have "max_rec (start_state (scan_budget opts) sk) = max_recursion (opt_limits opts)"
    by (simp add: max_rec_def start_state_def scan_budget_def budget_new_def)
  then show ?thesis using assms by (intro scan_level_sound [of _ _ "obj_top opts"]) (auto simp: run_walk_def obj_top_def)
qed


end
