(* ===== verification/Scan_Sample.thy ===== *)
theory Scan_Sample
  imports Scan_Honest Volume_Props
begin

text \<open>
  The walk on small concrete files: analyses that find one byte and nothing else, the options of a
  scan without heuristics, and the walk evaluated on a ZIP of given members and on a file with
  another embedded in it. The witnesses of the walk's theorems are these.
\<close>

section \<open>On concrete files\<close>

definition bare :: "(source \<Rightarrow> file_type) \<Rightarrow> (format \<Rightarrow> source \<Rightarrow> (budget \<Rightarrow> walk_op \<times> budget) list) \<Rightarrow> bytes \<Rightarrow> analyses" where
  "bare idf dec bad =
     \<lparr>ignored = (\<lambda>_. False), allowlisted = (\<lambda>_. False), identify = idf, type_name = (\<lambda>_. ''''),
      format_name = (\<lambda>_. ''''), detect = (\<lambda>_. None), is_upx = (\<lambda>_. False), is_pepack = (\<lambda>_. False),
      allows = (\<lambda>_. True), decode = dec, engine_empty = False,
      engine = (\<lambda>_ _ _ d _ _ _ _. (if content d = bad then [(''Eicar'', 0, False)] else [], [], None)),
      normalize = (\<lambda>_ bs. bs), deobfuscate = (\<lambda>_. ([], False)), spill_view = (\<lambda>_ _. Inl ''''),
      wants_text = (\<lambda>_ _. False), visible_text = (\<lambda>_ _ _. None), phishing_links = (\<lambda>_. (None, True)),
      bytecode_empty = True, bytecode = (\<lambda>_ _ _ _. (None, [], [])), sections = (\<lambda>_. []), hashes_empty = True,
      hash_lookup = (\<lambda>_. None), yara = (\<lambda>_ _. ([], [])), cdb_empty = True, cdb = (\<lambda>_ _ _ _ _ _ _. None),
      overlapping_local_records = (\<lambda>_. 0), xz_dict = (\<lambda>_. None), broken_media = (\<lambda>_. None),
      looks_broken = (\<lambda>_. False), elf_stripped = (\<lambda>_. False), partition_alert = (\<lambda>_. None),
      obfuscated_name = (\<lambda>_. False), base64_payloads = (\<lambda>_ _. ([], False)), markup_payloads = (\<lambda>_ _. ([], False)),
      embedded_in = (\<lambda>_. \<lparr>emb_pe = [], emb_elf = [], emb_macho = [], emb_archives = [], pe_capped = False, others_capped = False\<rparr>),
      detect_archive_start = (\<lambda>_. None), zip_directory_is_consistent = (\<lambda>_. False), appended_zip_start = (\<lambda>_. None),
      also_reads_as = (\<lambda>_ _. None), mhtml = (\<lambda>_. False), phishing = (\<lambda>_. (None, True)), crb_empty = True,
      authenticode = (\<lambda>_. None), tlsh = (\<lambda>_. None), has_imphash = False, pe_analyze = (\<lambda>_. None),
      spill = (\<lambda>_. Inl ('''', 0))\<rparr>"

definition plain_options :: scan_options where
  "plain_options =
     \<lparr>max_scan_size = None, deep_analysis_max = 1024, min_scan_bytes = 0, heuristics = False, clamav_heuristics = False,
      clamav_compat = True, opt_limits = default_limits\<lparr>max_recursion := 2\<rparr>, restrict_extractors = False,
      unofficial_suffix = False, check_sums = False, decode_base64 = False, structured_cc_count = None,
      structured_ssn_count = None, alert_encrypted = False, alert_macros = False, alert_exceeds_max = False,
      alert_partition_intersection = False, alert_broken = False, alert_broken_media = False,
      alert_packed = False, alert_phishing = False, alert_broken_authenticode = False, file_name = None,
      spilling = False\<rparr>"

text \<open>
  A file is a ZIP if its one byte is 1, and what its decoder does is \<open>ops\<close>; a file of the bytes 0 and 7 has
  an executable embedded at 1; and the signature is the byte 7.
\<close>

definition zip_analyses :: "walk_op list \<Rightarrow> analyses" where
  "zip_analyses ops =
     (bare (\<lambda>d. if content d = [1] then FT_Zip else FT_Graphics) (\<lambda>_ _. map (\<lambda>op b. (op, b)) ops) [7])
       \<lparr>embedded_in := (\<lambda>d. \<lparr>emb_pe = if content d = [0, 7] then [1] else [], emb_elf = [], emb_macho = [],
          emb_archives = [], pe_capped = False, others_capped = False\<rparr>)\<rparr>"

definition plain_meta :: "string \<Rightarrow> member_meta" where
  "plain_meta n = \<lparr>m_name = n, comp_size = 1, m_encrypted = False, unsupported = None, zip_local_flags = None\<rparr>"

text \<open>Their fields, so that a walk is evaluated without writing the records out.\<close>

lemma zip_analyses_fields [simp]:
  "ignored (zip_analyses ops) g = False" "allowlisted (zip_analyses ops) d = False"
  "identify (zip_analyses ops) d = (if content d = [1] then FT_Zip else FT_Graphics)"
  "detect (zip_analyses ops) d = None" "allows (zip_analyses ops) f = True"
  "decode (zip_analyses ops) f d = map (\<lambda>op b. (op, b)) ops" "engine_empty (zip_analyses ops) = False"
  "engine (zip_analyses ops) opts all ign d ft c anc img = (if content d = [7] then [(''Eicar'', 0, False)] else [], [], None)"
  "bytecode_empty (zip_analyses ops) = True" "hashes_empty (zip_analyses ops) = True" "cdb_empty (zip_analyses ops) = True"
  "yara (zip_analyses ops) d n = ([], [])" "xz_dict (zip_analyses ops) bs = None" "elf_stripped (zip_analyses ops) d = False"
  "embedded_in (zip_analyses ops) d = \<lparr>emb_pe = if content d = [0, 7] then [1] else [], emb_elf = [], emb_macho = [], emb_archives = [], pe_capped = False, others_capped = False\<rparr>"
  "appended_zip_start (zip_analyses ops) d = None" "also_reads_as (zip_analyses ops) d f = None"
  "crb_empty (zip_analyses ops) = True" "has_imphash (zip_analyses ops) = False" "type_name (zip_analyses ops) ft = []"
  "format_name (zip_analyses ops) f = []"
  by (simp_all add: zip_analyses_def bare_def)

lemma plain_options_fields [simp]:
  "max_scan_size plain_options = None" "deep_analysis_max plain_options = 1024" "min_scan_bytes plain_options = 0" "\<not> heuristics plain_options"
  "\<not> clamav_heuristics plain_options" "clamav_compat plain_options" "\<not> restrict_extractors plain_options"
  "\<not> unofficial_suffix plain_options" "\<not> check_sums plain_options" "\<not> decode_base64 plain_options"
  "structured_cc_count plain_options = None" "structured_ssn_count plain_options = None"
  "\<not> alert_encrypted plain_options" "\<not> alert_macros plain_options" "\<not> alert_exceeds_max plain_options"
  "\<not> alert_partition_intersection plain_options" "\<not> alert_broken plain_options" "\<not> alert_broken_media plain_options"
  "\<not> alert_packed plain_options" "\<not> alert_phishing plain_options" "\<not> alert_broken_authenticode plain_options"
  "file_name plain_options = None" "\<not> spilling plain_options"
  "max_recursion (opt_limits plain_options) = 2" "max_buffer_bytes (opt_limits plain_options) = 268435456"
  "max_scanned_bytes (opt_limits plain_options) = 10737418240"
  by (simp_all add: plain_options_def default_limits_def)

lemmas check_defs =
  whole_buffer_heuristics_def media_check_def pdf_check_def core_def core_matches_def pe_image_def engine_pass_def
  report_hit_def report_name_def wants_all_def hit_if_def hit_opt_def unless_stopped_def visible_pass_def
  bytecode_pass_def database_pass_def file_checks_def structured_data_scan_def phishing_scan_def signed_check_def
  pe_pass_def put_marks_def mark_if_def missed_marks_def missed_if_def materialized_def at_limit_def

text \<open>An object that is not an archive, below the top and above the recursion limit.\<close>

lemma data_object:
  assumes "content d \<noteq> [1]" "content d \<noteq> [0, 7]" "0 < depth ob" "depth ob < max_rec s" "s_sink s = Sink_first" "core_on ob" "core_type ob = None"
  shows "scan_object rec (zip_analyses ops) plain_options ob d s =
    (if content d = [7] then (Infected ''Eicar'' 0 Pattern, s\<lparr>s_found := ''Eicar'' # s_found s\<rparr>) else (Clean, s))"
  using assms
  by (simp add: scan_object_def unpack_target_def unpack_format_def is_executable_def scan_file_def file_core_def Let_def
      own_type_def check_defs sink_hit_def is_textual_type_def type_finding_def scan_unpacked_def scan_carried_def
      base64_pass_def markup_pass_def markup_cltype_def file_members_def carve_pass_def)


text \<open>A member of one byte visited in a ZIP at the top: scanned, or held for rejoining.\<close>

lemma plain_metadata:
  "member_metadata_scan (zip_analyses ops) plain_options cx (plain_meta n) k t s = (None, t\<lparr>t_pos := t_pos t + 1\<rparr>, s)"
  by (simp add: member_metadata_scan_def encrypted_check_def encryption_alert_def note_unread_def plain_meta_def
      hit_opt_def unless_stopped_def Let_def)

lemma plain_content:
  assumes "b \<noteq> 1" "cx_depth cx = 0" "\<not> container_is_ole cx" "s_sink s = Sink_first" "max_rec s = 2"
  shows "member_content_scan (scan_object rec (zip_analyses ops) plain_options) (zip_analyses ops) plain_options cx n
      (in_memory [b]) t s =
    (if b = 7 then (Some (Infected ''Eicar'' 0 Pattern), t, s\<lparr>s_found := ''Eicar'' # s_found s\<rparr>) else (None, t, s))"
  using assms
  by (simp add: member_content_scan_def Let_def clean_memo_key_def CLEAN_MEMO_MIN_def source_len_def in_memory_def data_object)

lemma plain_visit:
  assumes "b \<noteq> 1" "cx_depth cx = 0" "\<not> container_is_ole cx" "s_sink s = Sink_first" "max_rec s = 2"
  shows "visit_member (scan_object rec (zip_analyses ops) plain_options) (zip_analyses ops) plain_options cx (in_memory [1])
      (plain_meta n) (Some (Member_bytes [b])) (t, c, s) =
    (let t' = t\<lparr>t_pos := t_pos t + 1\<rparr> in
     case offer c n [b] of
       (Held, c) \<Rightarrow> ((None, 0, False), t', c, s)
     | (PassThrough _ _, c) \<Rightarrow>
         (if b = 7 then ((Some (Infected ''Eicar'' 0 Pattern), 0, False), t', c, s\<lparr>s_found := ''Eicar'' # s_found s\<rparr>)
          else ((None, 0, False), t', c, s)))"
proof -
  have name: "m_name (plain_meta n) = n" "unsupported (plain_meta n) = None" by (simp_all add: plain_meta_def)
  have other: "\<not> fixed_point (in_memory [1]) (Body_mem [b])"
    using assms(1) by (simp add: fixed_point_def in_memory_def source_len_def window_def)
  have pass: "bs = [b]" if "offer c n [b] = (PassThrough m bs, c')" for m bs c'
    using that by (auto simp: offer_def Let_def split: option.splits if_splits)
  show ?thesis
    using assms other pass plain_content [OF assms, of rec ops n]
    by (auto simp: visit_member_def read_content_def got_def visit_body_def plain_metadata scan_body_def name Let_def
        split: prod.splits offer_result.splits)
qed

text \<open>The report on a ZIP, from the walk over its members.\<close>

definition zip_start :: walk_state where
  "zip_start = start_state (scan_budget plain_options) Sink_first"

lemma zip_start_simps [simp]:
  "s_sink zip_start = Sink_first" "s_budget zip_start = scan_budget plain_options" "s_found zip_start = []"
  "s_missed zip_start = []" "s_flags zip_start = no_flags" "s_memo zip_start = []" "s_findings zip_start = []"
  "s_ancestry zip_start = []"
  by (simp_all add: zip_start_def start_state_def)

lemma scan_budget_simps [simp]:
  "max_recursion (limits (scan_budget plain_options)) = 2"
  "max_scanned_bytes (limits (scan_budget plain_options)) = 10737418240"
  "max_buffer_bytes (limits (scan_budget plain_options)) = 1024"
  "scanned (scan_budget plain_options) = 0"
  by (simp_all add: scan_budget_def budget_new_def)

definition zip_cx :: member_cx where
  "zip_cx = \<lparr>container_size = 1, container_is_ole = False,
     member_container = container_cltype (\<lambda>_. False) F_Zip (in_memory [1]), cx_ft = FT_Zip, cx_fmt = F_Zip, cx_depth = 0\<rparr>"

definition zip_level :: "walk_op list \<Rightarrow> scan_fn" where
  "zip_level ops = scan_object (scan_level (zip_analyses ops) plain_options 1) (zip_analyses ops) plain_options"

lemma zip_level_eq:
  "scan_level (zip_analyses ops) plain_options (max_recursion (opt_limits plain_options) + 1) =
     scan_object (zip_level ops) (zip_analyses ops) plain_options"
  by (simp add: zip_level_def numeral_2_eq_2)

definition zip_inside :: "walk_state" where
  "zip_inside = zip_start\<lparr>s_findings := [(''type'', [])], s_ancestry := [member_container zip_cx]\<rparr>"

lemma zip_core:
  assumes "s_sink s = Sink_first"
  shows "core (zip_analyses ops) plain_options (in_memory [1]) FT_Zip ob w s = (Inr \<lparr>unpacked = [], retype = None\<rparr>, s)"
  by (simp add: check_defs is_textual_type_def in_memory_def)

lemma zip_report:
  assumes "walk_inside (zip_level ops) (zip_analyses ops) plain_options zip_cx (in_memory [1]) zip_inside = (out, s)"
    and "s_sink s = Sink_first"
  shows "run_walk (zip_analyses ops) plain_options Sink_first (in_memory [1]) = (out, s\<lparr>s_ancestry := butlast (s_ancestry s)\<rparr>)"
proof -
  let ?e = "zip_analyses ops" and ?ob = "obj_top plain_options" and ?s = "zip_start\<lparr>s_findings := [(''type'', [])]\<rparr>"
  have carried: "scan_carried (zip_level ops) ?e plain_options (in_memory [1]) ?ob FT_Zip Clean s = (None, Clean, s)" for s
    by (simp add: scan_carried_def base64_pass_def markup_pass_def markup_cltype_def check_defs)
  have members: "walk_members (zip_level ops) ?e plain_options (in_memory [1]) ?ob FT_Zip F_Zip ?s =
      (out, s\<lparr>s_ancestry := butlast (s_ancestry s)\<rparr>)"
    using assms(1)
    by (simp add: walk_members_def at_limit_def missed_if_def max_rec_def obj_top_def with_ancestry_def zip_cx_def zip_inside_def source_len_def
        in_memory_def Let_def zip_analyses_def bare_def)
  have top: "depth ?ob = 0" "core_on ?ob" "core_type ?ob = None" by (simp_all add: obj_top_def)
  have "scan_archive (zip_level ops) ?e plain_options (in_memory [1]) ?ob FT_Zip F_Zip zip_start =
      (out, s\<lparr>s_ancestry := butlast (s_ancestry s)\<rparr>)"
    using assms(2) zip_core
    by (simp add: scan_archive_def carried members type_finding_def add_findings_def top own_type_def defer_outcome_def
        scan_unpacked_def archive_tail_def appended_zip_def second_format_def)
  then show ?thesis
    unfolding run_walk_def zip_level_eq zip_start_def [symmetric]
    by (simp add: scan_object_def unpack_target_def unpack_format_def is_executable_def source_len_def in_memory_def Let_def)
qed

lemma zip_inside_simps [simp]:
  "s_sink zip_inside = Sink_first" "s_budget zip_inside = scan_budget plain_options" "s_found zip_inside = []"
  "s_missed zip_inside = []" "s_flags zip_inside = no_flags" "s_memo zip_inside = []"
  by (simp_all add: zip_inside_def)

lemma zip_cx_simps [simp]: "cx_depth zip_cx = 0" "\<not> container_is_ole zip_cx" "cx_fmt zip_cx = F_Zip"
  by (simp_all add: zip_cx_def)

lemma volume_part: "volume_parse ''big.7z.001'' = Some \<lparr>stem = ''big'', index = 0, scheme = NumberedSuffix ''7z'' 3\<rparr>"
  by (subst volume_parse_numbered) (simp_all add: digit_char_def alnum_char_def char_lower_def decimal_val_def)

lemma volume_other: "volume_parse ''a'' = None"
  by (simp add: volume_parse_def to_ascii_lowercase_def char_lower_def strip_suffix_def rsplit_once_def split_once_def Let_def)

lemma in_memory_read [simp]: "failure (in_memory bs) = None"
  by (simp add: in_memory_def)

lemmas zip_walk_defs =
  walk_inside_def walk_def spend_def do_op_def emit_bytes_def charge_def charge_scan_def plain_visit plain_content
  max_rec_def zip_level_def offer_def Let_def tally_new_def collector_new_def collector_finish_def finish_set_def hand_back_def
  into_scannable_def is_corrupt_def hit_corrupt_def outcome_for_hit_def missing_def is_infected_def tally_verdict_def
  missed_source_def missed_if_def

lemma analyze_verdict:
  assumes "run_walk e opts Sink_first d = (out, s)"
  shows "analyze_source e opts d = report_of_outcome (alert_exceeds_max opts) (s_flags s) out (s_findings s)"
  using assms by (simp add: analyze_source_def)

lemma zip_verdict:
  assumes "walk_inside (zip_level ops) (zip_analyses ops) plain_options zip_cx (in_memory [1]) zip_inside = (out, s)"
    and "s_sink s = Sink_first"
  shows "verdict (analyze_source (zip_analyses ops) plain_options (in_memory [1])) =
    verdict (report_of_outcome False (s_flags s) out (s_findings s))"
  using analyze_verdict [OF zip_report [OF assms]] by simp

definition shallow_options :: scan_options where
  "shallow_options = plain_options\<lparr>opt_limits := (opt_limits plain_options)\<lparr>max_recursion := 0\<rparr>\<rparr>"

lemmas carrier_defs =
  unpack_target_def unpack_format_def is_executable_def scan_file_def file_core_def Let_def
  own_type_def check_defs sink_hit_def is_textual_type_def type_finding_def scan_unpacked_def scan_carried_def
  base64_pass_def markup_pass_def markup_cltype_def file_members_def carve_pass_def obj_top_def shallow_options_def
  start_state_def max_rec_def scan_budget_def budget_new_def in_memory_def source_len_def sub_from_def add_findings_def
  depth_missing_def

lemma carrier_shallow:
  "run_walk (zip_analyses []) shallow_options Sink_first (in_memory [0, 7]) =
     (Clean, (start_state (scan_budget shallow_options) Sink_first)\<lparr>s_findings := [(''type'', [])], s_missed := [Depth_limit]\<rparr>)"
  by (simp add: run_walk_def scan_object_def carrier_defs)

lemma carrier_deep:
  "run_walk (zip_analyses []) plain_options Sink_first (in_memory [0, 7]) =
     (Infected ''Eicar'' 0 Pattern, (start_state (scan_budget plain_options) Sink_first)
        \<lparr>s_findings := [(''type'', [])], s_found := [''Eicar''],
         s_budget := (scan_budget plain_options)\<lparr>scanned := 1\<rparr>\<rparr>)"
  unfolding run_walk_def zip_level_eq
  by (subst scan_object_def) (simp add: carrier_defs zip_level_def scan_found_def charge_def charge_scan_def stop_or_defer_def data_object carved_obj_def obj_inner_def)

lemma shallow_clean:
  "verdict (analyze_source (zip_analyses []) shallow_options (in_memory [0, 7])) = V_Clean"
  unfolding analyze_verdict [OF carrier_shallow] report_of_outcome_clean unfinished_None
  by (simp add: start_state_def no_flags_def)

lemma deep_infected:
  "verdict (analyze_source (zip_analyses []) plain_options (in_memory [0, 7])) = V_Infected ''Eicar'' 0 Pattern"
  unfolding analyze_verdict [OF carrier_deep] by (simp add: report_infected_def)

end
