(* ===== verification/Scan_Silent.thy ===== *)
theory Scan_Silent
  imports Scan_Sample
begin

text \<open>
  What the scan walk promises its caller, over the whole of a normal scan: it is never silently
  clean, a detection is never reported as less than a limit, and an ignored signature is never
  reported, with the exceptions the code makes; and where the walk does less than it means to, on a
  concrete archive.
\<close>

section \<open>The report of a walk\<close>

lemma start_state_simps [simp]:
  "s_found (start_state b sk) = []" "reported (start_state b sk) = []" "\<not> s_stuck (start_state b sk)"
  by (simp_all add: start_state_def reported_def)




lemma hard_reported:
  assumes "hard_ok e opts out"
  shows "(\<exists>sig off m. verdict (report_of_outcome alert f out fs) = V_Infected sig off m \<and>
           (\<not> ignored e sig \<or> limit_alert opts sig)) \<or>
         (\<exists>r. verdict (report_of_outcome alert f out fs) = V_LimitsExceeded r)"
  using assms by (cases out) (auto simp: hard_ok_def report_infected_def report_limits_def)

lemma hard_reported_kept:
  assumes "hard_ok e opts out" "alerts_kept e opts"
  shows "(\<exists>sig off m. verdict (report_of_outcome alert f out fs) = V_Infected sig off m \<and> \<not> ignored e sig) \<or>
         (\<exists>r. verdict (report_of_outcome alert f out fs) = V_LimitsExceeded r)"
  using hard_reported [OF assms(1), of alert f fs] assms(2) unfolding alerts_kept_def by blast

lemma limits_outcome_cases:
  obtains "limits_outcome alert k r = Limits r" |
    name where "alert" "limits_alert_name k = Some name" "limits_outcome alert k r = Infected name 0 Heuristic"
  by (cases "limits_alert_name k"; cases alert) (auto simp: limits_outcome_def)

lemma unfinished_cases:
  assumes "unfinished alert f = Some out"
  obtains r where "out = Limits r" |
    k name n x where "alert" "limits_alert_name k = Some name" "out = Infected name n x"
proof -
  consider k r where "out = limits_outcome alert k r" | "out = Limits SEARCH_INCOMPLETE"
    using assms by (auto simp: unfinished_def split: option.splits if_splits)
  then show thesis
  proof cases
    case (1 k r)
    show thesis by (rule limits_outcome_cases [of alert k r]) (use 1 that in metis)+
  qed (use that in blast)
qed

lemma unfinished_infected:
  assumes "out = Clean" "verdict (report_of_outcome (alert_exceeds_max opts) f out fs) = V_Infected sig off m"
  shows "limit_alert opts sig"
proof -
  obtain o' where o': "unfinished (alert_exceeds_max opts) f = Some o'"
    using assms by (auto simp: report_clean_def split: option.splits)
  then have r: "verdict (report_of_outcome (alert_exceeds_max opts) f o' fs) = V_Infected sig off m" using assms by simp
  consider r where "o' = Limits r" |
    k name x n where "alert_exceeds_max opts" "limits_alert_name k = Some name" "o' = Infected name n x"
    using o' by (rule unfinished_cases)
  then show ?thesis
    using r by cases (auto simp: report_limits_def report_infected_def limit_alert_def)
qed



text \<open>
  C2. A detection is never downgraded. If any check anywhere in the walk of a normal scan detected
  something that is not ignored, the verdict is an infection, of a name that is not ignored, or the
  limit that was hit: never unscannable, never password-protected, never clean. Hypothesis: where
  limits are alerts, the alert names are not on the ignore list. Without it the claim is false: the
  alert for a limit met after a detection takes its place, and inside an archive an ignored alert is
  then dropped.
\<close>

theorem detection_not_downgraded:
  assumes "alerts_kept e opts" and "run_walk e opts Sink_first d = (out, s)" and "s_found s \<noteq> []"
  shows "(\<exists>sig off m. verdict (analyze_source e opts d) = V_Infected sig off m \<and> \<not> ignored e sig) \<or>
         (\<exists>r. verdict (analyze_source e opts d) = V_LimitsExceeded r)"
proof -
  have snd: "sound e opts out (start_state (scan_budget opts) Sink_first) s" using assms(2) by (rule run_walk_sound)
  have "hard_ok e opts out" using snd assms(1,3) by (auto simp: sound_def)
  then show ?thesis
    unfolding analyze_verdict [OF assms(2)] using assms(1) by (rule hard_reported_kept)
qed

theorem detection_not_downgraded_witness:
  "(\<exists>sig off m. verdict (analyze_source (zip_analyses []) plain_options (in_memory [0, 7])) = V_Infected sig off m \<and>
      \<not> ignored (zip_analyses []) sig) \<or>
   (\<exists>r. verdict (analyze_source (zip_analyses []) plain_options (in_memory [0, 7])) = V_LimitsExceeded r)"
  by (rule detection_not_downgraded [OF _ carrier_deep]) (simp_all add: alerts_kept_def)

text \<open>
  C5. A signature on the ignore list is never reported: if a normal scan's verdict is an infection,
  the name it reports is not ignored, wherever in the file it was found and whichever check it comes
  from. The exception is the code's: the name of the alert for a limit, where limits are alerts, is
  never compared with the ignore list.
\<close>

theorem ignored_never_reported:
  assumes "verdict (analyze_source e opts d) = V_Infected sig off m"
  shows "\<not> ignored e sig \<or> limit_alert opts sig"
proof -
  obtain out s where run: "run_walk e opts Sink_first d = (out, s)" by fastforce
  have snd: "sound e opts out (start_state (scan_budget opts) Sink_first) s" using run by (rule run_walk_sound)
  note v = assms [unfolded analyze_verdict [OF run]]
  show ?thesis
  proof (cases "out = Clean")
    case True
    then show ?thesis using v unfinished_infected by blast
  next
    case False
    then have "out = Infected sig off m"
      using v by (cases out) (auto simp: report_infected_def report_limits_def report_unscannable_def report_password_protected_def)
    then show ?thesis using snd by (simp add: sound_def hard_ok_def)
  qed
qed

theorem ignored_never_reported_witness:
  "verdict (analyze_source (zip_analyses []) plain_options (in_memory [0, 7])) = V_Infected ''Eicar'' 0 Pattern \<and>
   \<not> ignored (zip_analyses []) ''Eicar''"
  using ignored_never_reported [OF deep_infected] deep_infected by (simp add: limit_alert_def)

text \<open>
  C8. The walk always comes to an end, within one level of objects more than the recursion limit:
  the innermost level, which scans nothing, is never asked, whatever the file and its members are.
\<close>

theorem levels_enough:
  assumes "run_walk e opts sk d = (out, s)"
  shows "\<not> s_stuck s"
  using run_walk_sound [OF assms] by (auto simp: sound_def kept_def)

theorem levels_enough_witness:
  "\<not> s_stuck (snd (run_walk (zip_analyses []) plain_options Sink_first (in_memory [0, 7])))"
  using levels_enough [OF carrier_deep] carrier_deep by simp

section \<open>Where the walk does less than it means to\<close>

text \<open>
  C32. Parts held for rejoining are dropped when the walk over their archive fails at its end. An
  archive whose one member is named as the first part of a split file, with the signature in it, is
  reported infected; so is an archive with an ordinary member that has it whose directory is then found
  corrupt; but with the part held and the directory corrupt, the part is never scanned, and the
  archive is only unscannable.
\<close>

theorem held_parts_dropped:
  "verdict (analyze_source (zip_analyses [Op_bytes (plain_meta ''big.7z.001'') (Some [7])]) plain_options (in_memory [1])) =
     V_Infected ''Eicar'' 0 Pattern \<and>
   verdict (analyze_source (zip_analyses [Op_bytes (plain_meta ''a'') (Some [7]), Op_fail (hit_corrupt ''x'')])
     plain_options (in_memory [1])) = V_Infected ''Eicar'' 0 Pattern \<and>
   verdict (analyze_source (zip_analyses [Op_bytes (plain_meta ''big.7z.001'') (Some [7]), Op_fail (hit_corrupt ''x'')])
     plain_options (in_memory [1])) = V_Unscannable ''x''"
proof -
  have held: "walk_inside (zip_level ops) (zip_analyses ops) plain_options zip_cx (in_memory [1]) zip_inside =
      (Infected ''Eicar'' 0 Pattern, zip_inside
        \<lparr>s_budget := (scan_budget plain_options)\<lparr>scanned := Suc (Suc 0)\<rparr>, s_found := [''Eicar'']\<rparr>)"
    if "ops = [Op_bytes (plain_meta ''big.7z.001'') (Some [7])]" for ops
    by (simp add: zip_walk_defs volume_part that)
  have plain: "walk_inside (zip_level ops) (zip_analyses ops) plain_options zip_cx (in_memory [1]) zip_inside =
      (Infected ''Eicar'' 0 Pattern, zip_inside
        \<lparr>s_budget := (scan_budget plain_options)\<lparr>scanned := Suc 0\<rparr>, s_found := [''Eicar'']\<rparr>)"
    if "ops = [Op_bytes (plain_meta ''a'') (Some [7]), Op_fail (hit_corrupt ''x'')]" for ops
    by (simp add: zip_walk_defs volume_other that)
  have corrupt: "walk_inside (zip_level ops) (zip_analyses ops) plain_options zip_cx (in_memory [1]) zip_inside =
      (Unscannable ''x'', zip_inside
        \<lparr>s_budget := (scan_budget plain_options)\<lparr>scanned := Suc 0\<rparr>, s_missed := [Missed ''x'']\<rparr>)"
    if "ops = [Op_bytes (plain_meta ''big.7z.001'') (Some [7]), Op_fail (hit_corrupt ''x'')]" for ops
    by (simp add: zip_walk_defs volume_part that)
  have "one_line ''x'' = ''x''"
    by (simp add: one_line_def c0_control_def)
  then show ?thesis
    using zip_verdict [OF held [OF refl]] zip_verdict [OF plain [OF refl]] zip_verdict [OF corrupt [OF refl]]
    by (simp add: report_infected_def report_unscannable_def)
qed

end
