(* ===== verification/Scan_Entry.thy ===== *)
theory Scan_Entry
  imports Scan_Object Scan_Report
begin

text \<open>
  The entry points of a scan (\<^verbatim>\<open>exav-core/src/lib.rs\<close>): a seekable input scanned within the size
  limits, the first bytes of one past them, every detection rather than the first, and the files of a
  multi-volume archive that arrive together.
\<close>

section \<open>Inputs\<close>

text \<open>
  A seekable input: the bytes reading it from the start gives, the error a read after them fails
  with, if one does, what seeking to its end answers, and whether a scan that reads it by offset
  reads past those bytes.
\<close>

record scan_input =
  i_bytes :: bytes
  i_error :: "string option"
  i_end :: "string + nat"
  i_reached :: bool

definition read_up_to :: "nat \<Rightarrow> scan_input \<Rightarrow> string + bytes" where
  "read_up_to n inp =
     (if n \<le> length (i_bytes inp) then Inr (take n (i_bytes inp))
      else case i_error inp of Some err \<Rightarrow> Inl err | None \<Rightarrow> Inr (i_bytes inp))"

text \<open>The first \<open>n\<close> bytes, as an input whose end is where \<open>n\<close> bytes end.\<close>

definition input_window :: "scan_input \<Rightarrow> nat \<Rightarrow> scan_input" where
  "input_window inp n =
     \<lparr>i_bytes = take n (i_bytes inp), i_error = (if n \<le> length (i_bytes inp) then None else i_error inp),
      i_end = Inr n, i_reached = i_reached inp\<rparr>"

text \<open>Through the block cache: as many bytes as the end says, of what reading gives.\<close>

definition object_cache :: "scan_input \<Rightarrow> string + source" where
  "object_cache inp =
     (case i_end inp of
        Inl err \<Rightarrow> Inl err
      | Inr n \<Rightarrow>
          Inr \<lparr>content = take n (i_bytes inp), declared = n, held = False,
               failure = (if n \<le> length (i_bytes inp) \<or> \<not> i_reached inp then None else i_error inp)\<rparr>)"

section \<open>One verdict\<close>

definition analyze :: "analyses \<Rightarrow> scan_options \<Rightarrow> bytes \<Rightarrow> scan_report" where
  "analyze e opts data = analyze_source e opts (in_memory data)"

definition NOT_A_FILE :: "nat \<Rightarrow> nat \<Rightarrow> string" where
  "NOT_A_FILE n m =
     ''the source gave more than '' @ dec_string n @ '' bytes and says it has '' @ dec_string m @
     '': it is not a file with a length, and cannot be scanned as one''"

text \<open>What an input read through the cache comes to: an error if a read of it failed.\<close>

definition through_cache :: "scan_input \<Rightarrow> (source \<Rightarrow> 'a) \<Rightarrow> string + 'a" where
  "through_cache inp f =
     (case object_cache inp of
        Inl err \<Rightarrow> Inl err
      | Inr d \<Rightarrow> (case failure d of Some err \<Rightarrow> Inl err | None \<Rightarrow> Inr (f d)))"

definition scan_within :: "analyses \<Rightarrow> scan_options \<Rightarrow> scan_input \<Rightarrow> nat \<Rightarrow> string + scan_report" where
  "scan_within e opts inp sz =
     (let mx = deep_analysis_max opts in
      if sz \<le> mx then
        (case read_up_to (mx + 1) inp of
           Inl err \<Rightarrow> Inl err
         | Inr data \<Rightarrow>
             if length data \<le> mx then Inr (analyze e opts data)
             else (case i_end inp of
                     Inl err \<Rightarrow> Inl err
                   | Inr end_at \<Rightarrow>
                       if end_at \<le> mx then Inl (NOT_A_FILE mx end_at)
                       else through_cache inp (analyze_source e opts)))
      else through_cache inp (analyze_source e opts))"

definition scan_seekable :: "analyses \<Rightarrow> scan_options \<Rightarrow> scan_input \<Rightarrow> nat \<Rightarrow> string + scan_report" where
  "scan_seekable e opts inp sz =
     (case max_scan_size opts of
        None \<Rightarrow> scan_within e opts inp sz
      | Some mx \<Rightarrow>
          if sz \<le> mx then scan_within e opts inp sz
          else case scan_within e opts (input_window inp mx) mx of
            Inl err \<Rightarrow> Inl err
          | Inr head \<Rightarrow>
              Inr (if category (verdict head) = Cat_Infected then head
                   else max_file_size_report (alert_exceeds_max opts) sz mx))"

text \<open>A file by its path: what opening and measuring it gives is an argument.\<close>

definition scan_path :: "analyses \<Rightarrow> (string \<Rightarrow> string + scan_input \<times> nat) \<Rightarrow> scan_options \<Rightarrow> string \<Rightarrow> string + scan_report" where
  "scan_path e open_file opts path =
     (let opts = (if file_name opts = None then opts\<lparr>file_name := Some path\<rparr> else opts) in
      case open_file path of
        Inl err \<Rightarrow> Inl err
      | Inr (inp, sz) \<Rightarrow> scan_seekable e opts inp sz)"

section \<open>Every detection\<close>

definition analyze_all_raw ::
  "analyses \<Rightarrow> scan_options \<Rightarrow> source \<Rightarrow> (string \<times> hit_method) list \<times> deep_outcome \<times> walk_state" where
  "analyze_all_raw e opts d =
     (let (out, s) = run_walk e opts (Sink_all []) d
      in (case s_sink s of Sink_all found \<Rightarrow> found | Sink_first \<Rightarrow> [], out, s))"

definition name_once :: "string \<Rightarrow> hit_method \<Rightarrow> (string \<times> hit_method) list \<Rightarrow> (string \<times> hit_method) list" where
  "name_once sig m names = (if sig \<in> fst ` set names then names else names @ [(sig, m)])"

definition analyze_all_source ::
  "analyses \<Rightarrow> scan_options \<Rightarrow> source \<Rightarrow> (string \<times> hit_method) list \<times> all_match_outcome" where
  "analyze_all_source e opts d =
     (let (names, out, s) = analyze_all_raw e opts d in
      case out of
        Limits r \<Rightarrow> (names, AM_LimitsExceeded (one_line r))
      | Unscannable r \<Rightarrow> (names, AM_Unscannable (one_line r))
      | PasswordProtected r \<Rightarrow> (names, AM_PasswordProtected (one_line r))
      | Infected sig _ m \<Rightarrow> (name_once sig m names, Complete)
      | Clean \<Rightarrow>
          (case unfinished (alert_exceeds_max opts) (s_flags s) of
             Some (Infected sig _ m) \<Rightarrow> (name_once sig m names, Complete)
           | Some (Limits r) \<Rightarrow> (names, AM_LimitsExceeded (one_line r))
           | _ \<Rightarrow> (names, Complete)))"

definition all_within ::
  "analyses \<Rightarrow> scan_options \<Rightarrow> scan_input \<Rightarrow> nat \<Rightarrow> string + (string \<times> hit_method) list \<times> all_match_outcome" where
  "all_within e opts inp sz =
     (let mx = deep_analysis_max opts in
      if sz \<le> mx then
        (case read_up_to (mx + 1) inp of
           Inl err \<Rightarrow> Inl err
         | Inr data \<Rightarrow>
             if length data \<le> mx then Inr (analyze_all_source e opts (in_memory data))
             else through_cache inp (analyze_all_source e opts))
      else through_cache inp (analyze_all_source e opts))"

definition analyze_all_seekable ::
  "analyses \<Rightarrow> scan_options \<Rightarrow> scan_input \<Rightarrow> nat \<Rightarrow> string + (string \<times> hit_method) list \<times> all_match_outcome" where
  "analyze_all_seekable e opts inp sz =
     (case max_scan_size opts of
        None \<Rightarrow> all_within e opts inp sz
      | Some mx \<Rightarrow>
          if sz \<le> mx then all_within e opts inp sz
          else case all_within e opts (input_window inp mx) mx of
            Inl err \<Rightarrow> Inl err
          | Inr (names, outcome) \<Rightarrow>
              (case max_file_size (alert_exceeds_max opts) sz mx of
                 Inr name \<Rightarrow> Inr (names @ [(name, Heuristic)], outcome)
               | Inl r \<Rightarrow> Inr (names, AM_LimitsExceeded r)))"

definition analyze_all :: "analyses \<Rightarrow> scan_options \<Rightarrow> bytes \<Rightarrow> (string \<times> hit_method) list" where
  "analyze_all e opts data = fst (analyze_all_source e opts (in_memory data))"

end
