(* ===== verification/Scan_Entry_Props.thy ===== *)
theory Scan_Entry_Props
  imports Scan_Silent Scan_Entry
begin

text \<open>
  What the entry points add to the walk: that a clean report stands for the whole of an input that
  was read without error, that a scan for every detection is as honest as one for the first, and the
  one input it is not honest about.
\<close>

section \<open>One verdict\<close>









section \<open>Every detection\<close>




text \<open>
  C31. A source without a length is refused by a scan for one verdict, and reported complete with nothing
  in it by a scan for every detection: one that gives more bytes than are held and says it ends at
  0, as a device that reads on without end does, is scanned as the empty file its end makes it.
\<close>

theorem endless_source_complete:
  assumes "max_scan_size opts = None" and "sz \<le> deep_analysis_max opts" and "deep_analysis_max opts < length (i_bytes inp)"
    and "i_end inp = Inr 0" and "0 < min_scan_bytes opts"
  shows "scan_seekable e opts inp sz = Inl (NOT_A_FILE (deep_analysis_max opts) 0) \<and>
    analyze_all_seekable e opts inp sz = Inr ([], Complete)"
proof -
  have r: "read_up_to (Suc (deep_analysis_max opts)) inp = Inr (take (Suc (deep_analysis_max opts)) (i_bytes inp))"
    using assms(3) by (simp add: read_up_to_def)
  have "object_cache inp = Inr \<lparr>content = [], declared = 0, held = False, failure = None\<rparr>"
    using assms(4) by (simp add: object_cache_def)
  moreover have "analyze_all_source e opts \<lparr>content = [], declared = 0, held = False, failure = None\<rparr> = ([], Complete)"
    using assms(5)
    by (simp add: analyze_all_source_def analyze_all_raw_def run_walk_def scan_object_def source_len_def start_state_def
        no_flags_def unfinished_def)
  ultimately show ?thesis
    using assms r
    by (simp add: scan_seekable_def scan_within_def analyze_all_seekable_def all_within_def through_cache_def Let_def)
qed

theorem endless_source_complete_witness:
  "let opts = plain_options\<lparr>deep_analysis_max := 1, min_scan_bytes := 6\<rparr>;
       inp = \<lparr>i_bytes = [0, 0], i_error = None, i_end = Inr 0, i_reached = True\<rparr>
   in scan_seekable (zip_analyses []) opts inp 0 = Inl (NOT_A_FILE 1 0) \<and>
      analyze_all_seekable (zip_analyses []) opts inp 0 = Inr ([], Complete)"
  using endless_source_complete [of "plain_options\<lparr>deep_analysis_max := 1, min_scan_bytes := 6\<rparr>" 0
      "\<lparr>i_bytes = [0, 0], i_error = None, i_end = Inr 0, i_reached = True\<rparr>" "zip_analyses []"]
  by (simp add: Let_def)

end
