(* ===== verification/Scan_Sets.thy ===== *)
theory Scan_Sets
  imports Scan_Entry "HOL-Library.Product_Lexorder" "HOL-Library.List_Lexorder" "HOL-Library.Char_ord"
begin

text \<open>
  Multi-volume archives among files that arrived together (\<^verbatim>\<open>exav-core/src/lib.rs\<close>): the byte-split sets,
  rejoined through the collector, and the sets whose format joins its own volumes. \<open>fetch\<close> reads a
  file, or the first bytes of one.
\<close>

section \<open>Byte-split sets\<close>

definition volume_set_name :: "string \<Rightarrow> string" where
  "volume_set_name part =
     (case volume_parse part of
        None \<Rightarrow> part
      | Some v \<Rightarrow> (case scheme v of NumberedSuffix base_ext _ \<Rightarrow> stem v @ ''.'' @ base_ext | _ \<Rightarrow> stem v))"

definition set_key :: "string \<Rightarrow> string" where
  "set_key name = to_ascii_lowercase name"

definition PART_UNREAD :: string where
  "PART_UNREAD = ''part of a multi-volume set one of whose volumes could not be read''"

definition SET_NOT_WHOLE :: string where
  "SET_NOT_WHOLE = ''part of a multi-volume set that could not be reassembled whole''"

text \<open>What reading the parts leaves: the collector, the sets that lost one, and the parts refused.\<close>

record set_reader =
  sr_collector :: collector
  sr_any :: bool
  sr_broken :: "string \<rightharpoonup> string"
  sr_passed :: "string list"

definition set_reader_new :: "scan_options \<Rightarrow> set_reader" where
  "set_reader_new opts =
     \<lparr>sr_collector = collector_new (deep_analysis_max opts), sr_any = False, sr_broken = Map.empty, sr_passed = []\<rparr>"

definition splits_bytes :: "string \<Rightarrow> bool" where
  "splits_bytes name = (case volume_parse name of Some v \<Rightarrow> is_byte_split (scheme v) | None \<Rightarrow> False)"

definition read_part :: "(string \<Rightarrow> bytes option) \<Rightarrow> string \<Rightarrow> set_reader \<Rightarrow> set_reader" where
  "read_part fetch name r =
     (if \<not> splits_bytes name then r
      else case fetch name of
        None \<Rightarrow> r\<lparr>sr_broken := (sr_broken r)(set_key (volume_set_name name) \<mapsto> PART_UNREAD)\<rparr>
      | Some data \<Rightarrow>
          (case offer (sr_collector r) name data of
             (Held, c) \<Rightarrow> r\<lparr>sr_collector := c, sr_any := True\<rparr>
           | (PassThrough refused _, c) \<Rightarrow>
               r\<lparr>sr_collector := c, sr_any := True,
                 sr_broken := (sr_broken r)(set_key (volume_set_name refused) \<mapsto> SET_NOT_WHOLE),
                 sr_passed := sr_passed r @ [refused]\<rparr>))"

definition joined_entries ::
  "analyses \<Rightarrow> scan_options \<Rightarrow> (string \<rightharpoonup> string) \<Rightarrow> joined \<Rightarrow> volume_set_verdict list" where
  "joined_entries e opts broken j =
     (let report = (case broken (set_key (j_name j)) of
                      Some why \<Rightarrow> report_unscannable why []
                    | None \<Rightarrow> analyze e opts (j_data j))
      in map (\<lambda>part. \<lparr>part_name = part, set_of = j_name j, set_report = report\<rparr>) (j_parts j))"

definition unjoined_entries :: "(string \<rightharpoonup> string) \<Rightarrow> unjoined \<Rightarrow> volume_set_verdict list" where
  "unjoined_entries broken u =
     (let name = volume_set_name (u_name u) in
      case (case u_incomplete_set u of Some r \<Rightarrow> Some r | None \<Rightarrow> broken (set_key name)) of
        None \<Rightarrow> []
      | Some why \<Rightarrow> [\<lparr>part_name = u_name u, set_of = name, set_report = report_unscannable why []\<rparr>])"

fun passed_entries :: "volume_set_verdict list \<Rightarrow> string list \<Rightarrow> volume_set_verdict list" where
  "passed_entries out [] = out"
| "passed_entries out (name # names) =
     (if list_ex (\<lambda>v. part_name v = name) out then passed_entries out names
      else passed_entries
             (out @ [\<lparr>part_name = name, set_of = volume_set_name name, set_report = report_unscannable SET_NOT_WHOLE []\<rparr>])
             names)"

definition read_parts :: "scan_options \<Rightarrow> (string \<Rightarrow> bytes option) \<Rightarrow> string list \<Rightarrow> set_reader" where
  "read_parts opts fetch names = fold (read_part fetch) names (set_reader_new opts)"

definition analyze_volume_sets ::
  "analyses \<Rightarrow> scan_options \<Rightarrow> (string \<Rightarrow> bytes option) \<Rightarrow> string list \<Rightarrow> volume_set_verdict list" where
  "analyze_volume_sets e opts fetch names =
     (let r = read_parts opts fetch names in
      if \<not> sr_any r then []
      else
        let finished = collector_finish (sr_collector r)
        in passed_entries
             (concat (map (joined_entries e opts (sr_broken r)) (joined finished)) @
              concat (map (unjoined_entries (sr_broken r)) (unjoined finished)))
             (sr_passed r))"

section \<open>Sets whose format joins its volumes\<close>

datatype set_kind = Kind_Rar | Kind_Zip | Kind_Cab

record volume_set =
  vs_name :: string
  vs_kind :: set_kind
  vs_parts :: "string list"
  vs_broken :: "string option"

record cab_links =
  cab_set :: nat
  cab_index :: nat
  cab_prev :: "string option"
  cab_next :: "string option"

text \<open>What the formats provide: a cabinet's links to its neighbours, and the joins.\<close>

record volume_tools =
  tool_cab_links :: "bytes \<Rightarrow> cab_links option"
  tool_join_rar :: "bytes list \<Rightarrow> string + bytes"
  tool_join_cab :: "bytes list \<Rightarrow> string + bytes"
  tool_zip_span :: "bytes list \<Rightarrow> string + source"

definition RAR_GAP :: string where
  "RAR_GAP = ''part of a multi-volume RAR set with a volume missing''"

definition ZIP_GAP :: string where
  "ZIP_GAP = ''part of a multi-volume ZIP set with a volume missing''"

definition ZIP_NO_LAST :: string where
  "ZIP_NO_LAST = ''part of a multi-volume ZIP set whose last volume, the `.zip`, was not present''"

definition CAB_UNCHAINED :: string where
  "CAB_UNCHAINED = ''part of a multi-volume CAB set whose cabinets do not follow one another as their headers say''"

definition in_scheme :: "(scheme \<Rightarrow> bool) \<Rightarrow> string \<Rightarrow> bool" where
  "in_scheme p name = (case volume_parse name of Some v \<Rightarrow> p (scheme v) | None \<Rightarrow> False)"

definition rar_scheme :: "scheme \<Rightarrow> bool" where
  "rar_scheme s = (case s of RarPart _ \<Rightarrow> True | RarOld \<Rightarrow> True | _ \<Rightarrow> False)"

definition at_index :: "nat \<Rightarrow> string \<Rightarrow> bool" where
  "at_index i name = (case volume_parse name of Some v \<Rightarrow> index v = i | None \<Rightarrow> False)"

text \<open>The grouped names all parse, so \<^verbatim>\<open>expect\<close> does not panic.\<close>

definition rar_set :: "string list \<Rightarrow> volume_set" where
  "rar_set ps =
     \<lparr>vs_name = (case volume_parse (hd ps) of Some v \<Rightarrow> stem v | None \<Rightarrow> []) @ ''.rar'', vs_kind = Kind_Rar, vs_parts = ps,
      vs_broken = (if list_all (\<lambda>(i, p). at_index i p) (enumerate 0 ps) then None else Some RAR_GAP)\<rparr>"

definition rar_sets :: "string list \<Rightarrow> volume_set list" where
  "rar_sets names =
     (let rar = filter (in_scheme rar_scheme) names
      in map (\<lambda>is. rar_set (map (\<lambda>i. rar ! i) is)) (volume_group rar))"

fun zip_stems :: "string list \<Rightarrow> string list \<Rightarrow> string list" where
  "zip_stems [] stems = stems"
| "zip_stems (n # ns) stems =
     zip_stems ns
       (case volume_parse n of
          Some v \<Rightarrow> if scheme v = ZipSplit \<and> \<not> list_ex (\<lambda>s. eq_ignore_ascii_case s (stem v)) stems
                    then stems @ [stem v] else stems
        | None \<Rightarrow> stems)"

definition zip_numbered :: "string list \<Rightarrow> string \<Rightarrow> (nat \<times> string) list" where
  "zip_numbered names st =
     sort (List.map_filter
       (\<lambda>n. case volume_parse n of
          Some v \<Rightarrow> if scheme v = ZipSplit \<and> eq_ignore_ascii_case (stem v) st then Some (index v, n) else None
        | None \<Rightarrow> None) names)"

definition zip_set :: "string list \<Rightarrow> string \<Rightarrow> volume_set" where
  "zip_set names st =
     (let numbered = zip_numbered names st;
          contiguous = list_all (\<lambda>(i, (idx, _)). idx = i) (enumerate 0 numbered);
          last_part = find (\<lambda>n. to_ascii_lowercase n = to_ascii_lowercase (st @ ''.zip'')) names
      in \<lparr>vs_name = st @ ''.zip'', vs_kind = Kind_Zip,
          vs_parts = map snd numbered @ (case last_part of Some l \<Rightarrow> [l] | None \<Rightarrow> []),
          vs_broken = (case last_part of
                         Some _ \<Rightarrow> if contiguous then None else Some ZIP_GAP
                       | None \<Rightarrow> Some ZIP_NO_LAST)\<rparr>)"

definition leaf :: "string \<Rightarrow> string" where
  "leaf s = to_ascii_lowercase (rev (takeWhile (\<lambda>c. c \<noteq> CHR ''/'' \<and> c \<noteq> CHR 0x5C) (rev s)))"

definition chained :: "(string \<times> cab_links) list \<Rightarrow> bool" where
  "chained ms =
     list_all (\<lambda>(i, (name, l)).
       cab_index l = i \<and> (i = 0 \<longleftrightarrow> cab_prev l = None) \<and> (i + 1 = length ms \<longleftrightarrow> cab_next l = None) \<and>
       (case cab_next l of None \<Rightarrow> True
        | Some n \<Rightarrow> i + 1 < length ms \<and> leaf n = to_ascii_lowercase (fst (ms ! (i + 1)))) \<and>
       (case cab_prev l of None \<Rightarrow> True
        | Some p \<Rightarrow> 0 < i \<and> leaf p = to_ascii_lowercase (fst (ms ! (i - 1)))) \<and>
       name \<noteq> []) (enumerate 0 ms)"

definition cab_sets :: "volume_tools \<Rightarrow> (string \<Rightarrow> nat option \<Rightarrow> bytes option) \<Rightarrow> string list \<Rightarrow> volume_set list" where
  "cab_sets tools fetch names =
     (let cabs = List.map_filter
            (\<lambda>n. case Option.bind (fetch n (Some (64 * 1024))) (tool_cab_links tools) of
                   Some l \<Rightarrow> Some (n, l) | None \<Rightarrow> None)
            (filter (\<lambda>n. strip_suffix ''.cab'' (to_ascii_lowercase n) \<noteq> None) names)
      in map (\<lambda>i. let ms = sort_key (\<lambda>(_, l). cab_index l) (filter (\<lambda>(_, l). cab_set l = i) cabs)
                  in \<lparr>vs_name = fst (ms ! 0), vs_kind = Kind_Cab, vs_parts = map fst ms,
                      vs_broken = (if chained ms then None else Some CAB_UNCHAINED)\<rparr>)
           (remdups_adj (sort (map (\<lambda>(_, l). cab_set l) cabs))))"

definition SET_TOO_LARGE :: string where
  "SET_TOO_LARGE = ''part of a multi-volume set too large to hold for rejoining (--max-object-bytes)''"

text \<open>The parts read whole, up to the first that cannot be or that does not fit; what is held then.\<close>

fun hold_parts ::
  "nat \<Rightarrow> (string \<Rightarrow> bytes option) \<Rightarrow> string list \<Rightarrow> bytes list \<Rightarrow> nat \<Rightarrow> string option \<times> bytes list \<times> nat" where
  "hold_parts mx fetch [] data held_total = (None, data, held_total)"
| "hold_parts mx fetch (p # ps) data held_total =
     (case fetch p of
        None \<Rightarrow> (Some PART_UNREAD, data, held_total)
      | Some d \<Rightarrow>
          if mx < sat64 (held_total + length d) then (Some SET_TOO_LARGE, data, held_total)
          else hold_parts mx fetch ps (data @ [d]) (held_total + length d))"

definition join_set :: "analyses \<Rightarrow> scan_options \<Rightarrow> volume_tools \<Rightarrow> set_kind \<Rightarrow> bytes list \<Rightarrow> string + scan_report" where
  "join_set e opts tools k data =
     (case k of
        Kind_Rar \<Rightarrow> map_sum id (analyze e opts) (tool_join_rar tools data)
      | Kind_Cab \<Rightarrow> map_sum id (analyze e opts) (tool_join_cab tools data)
      | Kind_Zip \<Rightarrow> map_sum id (analyze_source e opts) (tool_zip_span tools data))"

definition NOT_REJOINED :: string where
  "NOT_REJOINED = ''part of a multi-volume set that could not be rejoined: ''"

definition set_entries :: "volume_set \<Rightarrow> scan_report \<Rightarrow> volume_set_verdict list" where
  "set_entries vs report = map (\<lambda>p. \<lparr>part_name = p, set_of = vs_name vs, set_report = report\<rparr>) (vs_parts vs)"

fun scan_sets ::
  "analyses \<Rightarrow> scan_options \<Rightarrow> volume_tools \<Rightarrow> (string \<Rightarrow> bytes option) \<Rightarrow> volume_set list \<Rightarrow> nat \<Rightarrow> volume_set_verdict list" where
  "scan_sets e opts tools fetch [] held_total = []"
| "scan_sets e opts tools fetch (vs # rest) held_total =
     (case vs_broken vs of
        Some why \<Rightarrow> set_entries vs (report_unscannable why []) @ scan_sets e opts tools fetch rest held_total
      | None \<Rightarrow>
          let (lost, data, held_total) = hold_parts (deep_analysis_max opts) fetch (vs_parts vs) [] held_total;
              held_total = held_total - sum_list (map length data);
              report = (case lost of
                          Some why \<Rightarrow> report_unscannable why []
                        | None \<Rightarrow> (case join_set e opts tools (vs_kind vs) data of
                                     Inr r \<Rightarrow> r
                                   | Inl err \<Rightarrow> report_unscannable (NOT_REJOINED @ err) []))
          in set_entries vs report @ scan_sets e opts tools fetch rest held_total)"

definition split_sets ::
  "volume_tools \<Rightarrow> (string \<Rightarrow> nat option \<Rightarrow> bytes option) \<Rightarrow> string list \<Rightarrow> volume_set list" where
  "split_sets tools fetch names =
     rar_sets names @ map (zip_set names) (zip_stems names []) @ cab_sets tools fetch names"

definition analyze_split_sets ::
  "analyses \<Rightarrow> scan_options \<Rightarrow> volume_tools \<Rightarrow> (string \<Rightarrow> nat option \<Rightarrow> bytes option) \<Rightarrow> string list
   \<Rightarrow> volume_set_verdict list" where
  "analyze_split_sets e opts tools fetch names =
     scan_sets e opts tools (\<lambda>n. fetch n None) (split_sets tools fetch names) 0"

end
