(* ===== verification/Scan_Sets_Props.thy ===== *)
theory Scan_Sets_Props
  imports Scan_Entry_Props Scan_Sets Volume_Props
begin

text \<open>
  What scanning multi-volume archives promises: a set that lost a volume is answered for, part by
  part, and never from the bytes that happened to arrive; any other report is the scan of the volumes
  put together; and each set that its format joins is judged on its own.
\<close>

section \<open>Reading the parts\<close>

definition part_reads :: "(string \<Rightarrow> bytes option) \<Rightarrow> string list \<Rightarrow> (string \<times> bytes) list" where
  "part_reads fetch names = List.map_filter (\<lambda>n. if splits_bytes n then map_option (Pair n) (fetch n) else None) names"

lemma part_reads_simps [simp]:
  "part_reads fetch [] = []"
  "part_reads fetch (n # ns) =
     (case (if splits_bytes n then fetch n else None) of Some d \<Rightarrow> (n, d) # part_reads fetch ns | None \<Rightarrow> part_reads fetch ns)"
  by (auto simp: part_reads_def map_filter_simps split: option.splits)

lemma part_reads_iff: "(n, d) \<in> set (part_reads fetch names) \<longleftrightarrow> n \<in> set names \<and> splits_bytes n \<and> fetch n = Some d"
  by (induction names) (auto split: option.splits)

lemma offer_passed: "offer c n d = (PassThrough m b, c') \<Longrightarrow> m = n \<and> b = d"
  by (auto simp: offer_def Let_def split: option.splits if_splits)

definition broken_in :: "set_reader \<Rightarrow> string \<Rightarrow> bool" where
  "broken_in r n \<longleftrightarrow> set_key (volume_set_name n) \<in> dom (sr_broken r)"

definition grows :: "set_reader \<Rightarrow> set_reader \<Rightarrow> bool" where
  "grows r r' \<longleftrightarrow> dom (sr_broken r) \<subseteq> dom (sr_broken r')"

lemma grows_trans: "grows r r1 \<Longrightarrow> grows r1 r2 \<Longrightarrow> grows r r2"
  by (auto simp: grows_def)

definition reads_ok :: "(string \<Rightarrow> bytes option) \<Rightarrow> string list \<Rightarrow> set_reader \<Rightarrow> set_reader \<Rightarrow> bool" where
  "reads_ok fetch names r r' \<longleftrightarrow>
     (let (out, c) = offer_all (sr_collector r) (part_reads fetch names) in
      sr_collector r' = c \<and> sr_passed r' = sr_passed r @ map fst out \<and>
      (sr_any r' \<longleftrightarrow> sr_any r \<or> part_reads fetch names \<noteq> []) \<and> grows r r' \<and>
      (\<forall>n \<in> set names. splits_bytes n \<and> fetch n = None \<longrightarrow> broken_in r' n) \<and> (\<forall>n \<in> fst ` set out. broken_in r' n))"

lemma read_part_ok: "reads_ok fetch [n] r (read_part fetch n r)"
proof (cases "if splits_bytes n then fetch n else None")
  case None
  then show ?thesis by (auto simp: reads_ok_def read_part_def broken_in_def grows_def split: if_splits)
next
  case (Some d)
  obtain res c where o: "offer (sr_collector r) n d = (res, c)" by fastforce
  then show ?thesis using Some offer_passed [of _ n d]
    by (cases res) (auto simp: reads_ok_def read_part_def broken_in_def grows_def split: if_splits)
qed

lemma reads_ok_Cons:
  assumes "reads_ok fetch [n] r r1" "reads_ok fetch ns r1 r2"
  shows "reads_ok fetch (n # ns) r r2"
proof -
  have mono: "broken_in r1 m \<Longrightarrow> broken_in r2 m" for m
    using assms(2) by (auto simp: reads_ok_def broken_in_def grows_def split: prod.splits)
  have "grows r r2" using assms by (auto simp: reads_ok_def split: prod.splits intro: grows_trans)
  then show ?thesis
    using assms mono by (auto simp: reads_ok_def Let_def split: prod.splits option.splits if_splits)
qed

lemma read_parts_ok: "reads_ok fetch names r (fold (read_part fetch) names r)"
proof (induction names arbitrary: r)
  case Nil
  show ?case by (simp add: reads_ok_def grows_def)
next
  case (Cons n ns)
  show ?case using reads_ok_Cons [OF read_part_ok Cons] by simp
qed

section \<open>The verdicts\<close>

lemma same_set_key:
  assumes "same_set_as k v" "volume_parse n = Some v" "is_byte_split (scheme k)"
  shows "set_key (set_name k) = set_key (volume_set_name n)"
  using assms
  by (cases "scheme k"; cases "scheme v")
     (auto simp: same_set_as_def eq_ignore_ascii_case_def volume_set_name_def set_name_def set_key_def to_ascii_lowercase_simps)

lemma joins_key:
  assumes "joins ps j" "n \<in> set (j_parts j)"
  shows "set_key (j_name j) = set_key (volume_set_name n)"
proof -
  obtain k where k: "j_name j = set_name k" "is_byte_split (scheme k)"
    "\<And>i. i < length ps \<Longrightarrow> \<exists>v. volume_parse (fst (ps ! i)) = Some v \<and> index v = i \<and> same_set_as k v"
    using assms(1) by (auto simp: joins_def)
  obtain i where "i < length ps" "n = fst (ps ! i)" using assms by (auto simp: joins_def in_set_conv_nth)
  then show ?thesis using k same_set_key by metis
qed

text \<open>An entry is for the set of its part, and unscannable if that set lost one.\<close>

definition entry_ok :: "(string \<rightharpoonup> string) \<Rightarrow> volume_set_verdict \<Rightarrow> bool" where
  "entry_ok broken x \<longleftrightarrow> set_key (set_of x) = set_key (volume_set_name (part_name x)) \<and>
     (set_key (set_of x) \<in> dom broken \<longrightarrow> (\<exists>w. set_report x = report_unscannable w []))"

lemma joined_entries_ok: "joins ps j \<Longrightarrow> x \<in> set (joined_entries e opts broken j) \<Longrightarrow> entry_ok broken x"
  using joins_key by (auto simp: joined_entries_def entry_ok_def Let_def)

lemma unjoined_entries_ok: "x \<in> set (unjoined_entries broken u) \<Longrightarrow> entry_ok broken x"
  by (auto simp: unjoined_entries_def entry_ok_def Let_def split: option.splits)

lemma passed_entries_ok:
  assumes "\<forall>x \<in> set out. entry_ok broken x"
  shows "(\<forall>x \<in> set (passed_entries out ns). entry_ok broken x) \<and> set out \<subseteq> set (passed_entries out ns) \<and>
    set ns \<subseteq> part_name ` set (passed_entries out ns)"
  using assms
proof (induction ns arbitrary: out)
  case (Cons n ns)
  define out' where "out' = (if list_ex (\<lambda>v. part_name v = n) out then out
    else out @ [\<lparr>part_name = n, set_of = volume_set_name n, set_report = report_unscannable SET_NOT_WHOLE []\<rparr>])"
  have eq: "passed_entries out (n # ns) = passed_entries out' ns" by (simp add: out'_def)
  have "\<forall>x \<in> set out'. entry_ok broken x" using Cons.prems by (auto simp: out'_def entry_ok_def)
  note ih = Cons.IH [OF this]
  have "n \<in> part_name ` set out'" "set out \<subseteq> set out'" by (auto simp: out'_def list_ex_iff)
  then show ?case using ih unfolding eq by auto
qed simp

lemma passed_entries_old:
  "x \<in> set (passed_entries out ns) \<Longrightarrow> \<nexists>w. set_report x = report_unscannable w [] \<Longrightarrow> x \<in> set out"
proof (induction ns arbitrary: out)
  case (Cons n ns)
  from Cons.prems(1) show ?case
    using Cons.IH [OF _ Cons.prems(2)] Cons.prems(2) by (cases "list_ex (\<lambda>v. part_name v = n) out") force+
qed simp

text \<open>Where the parts that were read go: into joined files, back as they were, or refused.\<close>

definition given :: "set_reader \<Rightarrow> (string \<times> bytes) list \<Rightarrow> (string \<times> bytes) list list \<Rightarrow> (string \<times> bytes) list \<Rightarrow> bool" where
  "given r reads pss out \<longleftrightarrow>
     list_all2 joins pss (joined (collector_finish (sr_collector r))) \<and> sr_passed r = map fst out \<and>
     mset (concat pss) + given_back (unjoined (collector_finish (sr_collector r))) + mset out = mset reads"

lemma read_parts_given:
  assumes "deep_analysis_max opts < 2 ^ 64 - 1"
  shows "\<exists>pss out. given (read_parts opts fetch names) (part_reads fetch names) pss out"
proof -
  let ?r = "read_parts opts fetch names"
  have ok: "reads_ok fetch names (set_reader_new opts) ?r" unfolding read_parts_def by (rule read_parts_ok)
  obtain out c where o: "offer_all (collector_new (deep_analysis_max opts)) (part_reads fetch names) = (out, c)" by fastforce
  have r: "sr_collector ?r = c" "sr_passed ?r = map fst out" using ok o by (auto simp: reads_ok_def set_reader_new_def)
  have s: "collector_ok c" "held_pieces (pending c) + mset out = mset (part_reads fetch names)"
    using offer_all_step [OF collector_new_ok _ o] assms by (auto simp: collector_new_def)
  have "\<forall>p \<in> set (pending c). set_ok p" using s(1) by (simp add: collector_ok_def)
  from finish_pieces [OF this] obtain pss
    where p: "list_all2 joins pss (joined (collector_finish c))"
      "mset (concat pss) + given_back (unjoined (collector_finish c)) = held_pieces (pending c)"
    by (auto simp: collector_finish_def)
  have "given ?r (part_reads fetch names) pss out" unfolding given_def r using p s(2) by simp
  then show ?thesis by blast
qed

lemma given_set:
  assumes "given r reads pss out"
  shows "set (concat pss) \<union> set_mset (given_back (unjoined (collector_finish (sr_collector r)))) \<union> set out = set reads"
  using arg_cong [of _ _ set_mset, OF conjunct2 [OF conjunct2 [OF assms [unfolded given_def]]]] by simp

lemma all2_right: "list_all2 P xs ys \<Longrightarrow> y \<in> set ys \<Longrightarrow> \<exists>x \<in> set xs. P x y"
  by (induction rule: list_all2_induct) auto

lemma all2_left: "list_all2 P xs ys \<Longrightarrow> x \<in> set xs \<Longrightarrow> \<exists>y \<in> set ys. P x y"
  by (induction rule: list_all2_induct) auto

lemma given_joined:
  assumes "given r reads pss out"
  shows "j \<in> set (joined (collector_finish (sr_collector r))) \<Longrightarrow> \<exists>ps \<in> set pss. joins ps j"
    and "ps \<in> set pss \<Longrightarrow> \<exists>j \<in> set (joined (collector_finish (sr_collector r))). joins ps j"
  using assms by (auto simp: given_def dest: all2_right all2_left)

lemma joined_parts [simp]: "part_name ` set (joined_entries e opts broken j) = set (j_parts j)"
  by (auto simp: joined_entries_def Let_def image_image)

lemma unjoined_part:
  "set_key (volume_set_name (u_name u)) \<in> dom broken \<Longrightarrow> u_name u \<in> part_name ` set (unjoined_entries broken u)"
  by (auto simp: unjoined_entries_def Let_def split: option.splits)

lemma volume_sets_entries:
  assumes "deep_analysis_max opts < 2 ^ 64 - 1"
  shows "(\<forall>x \<in> set (analyze_volume_sets e opts fetch names). entry_ok (sr_broken (read_parts opts fetch names)) x) \<and>
    (\<forall>n d. (n, d) \<in> set (part_reads fetch names) \<and> broken_in (read_parts opts fetch names) n \<longrightarrow>
       n \<in> part_name ` set (analyze_volume_sets e opts fetch names))"
proof -
  let ?r = "read_parts opts fetch names" and ?f = "collector_finish (sr_collector (read_parts opts fetch names))"
  let ?js = "concat (map (joined_entries e opts (sr_broken ?r)) (joined ?f))"
  let ?us = "concat (map (unjoined_entries (sr_broken ?r)) (unjoined ?f))"
  obtain pss out where g: "given ?r (part_reads fetch names) pss out" using read_parts_given [OF assms] by blast
  have joined: "\<exists>ps \<in> set pss. joins ps j" if "j \<in> set (joined ?f)" for j
    using given_joined(1) [OF g that] .
  have "\<forall>x \<in> set (?js @ ?us). entry_ok (sr_broken ?r) x"
    using joined joined_entries_ok unjoined_entries_ok by fastforce
  note out = passed_entries_ok [OF this, of "sr_passed ?r"]
  have any: "sr_any ?r \<longleftrightarrow> part_reads fetch names \<noteq> []"
    using read_parts_ok [of fetch names "set_reader_new opts"]
    by (auto simp: read_parts_def reads_ok_def set_reader_new_def split: prod.splits)
  have sr: "sr_passed ?r = map fst out" using g by (simp add: given_def)
  have listed: "n \<in> part_name ` set (passed_entries (?js @ ?us) (sr_passed ?r))"
    if nd: "(n, d) \<in> set (part_reads fetch names)" and b: "broken_in ?r n" for n d
  proof -
    consider (joined) ps where "ps \<in> set pss" "(n, d) \<in> set ps"
      | (returned) "(n, d) \<in># given_back (unjoined ?f)" | (passed) "n \<in> set (sr_passed ?r)"
    proof -
      have "(n, d) \<in> set (concat pss) \<or> (n, d) \<in># given_back (unjoined ?f) \<or> (n, d) \<in> set out"
        using given_set [OF g] nd by blast
      moreover have "(n, d) \<in> set out \<Longrightarrow> n \<in> set (sr_passed ?r)" using sr by force
      ultimately show thesis using that by auto
    qed
    then show ?thesis
    proof cases
      case joined
      then obtain j where "j \<in> set (joined ?f)" "joins ps j" using given_joined(2) [OF g] by blast
      moreover have "n \<in> set (j_parts j)" using joined(2) \<open>joins ps j\<close> by (auto simp: joins_def intro: rev_image_eqI)
      ultimately have "n \<in> part_name ` set ?js" by (auto simp: image_UN)
      then show ?thesis using out by auto
    next
      case returned
      then obtain u where "u \<in> set (unjoined ?f)" "u_name u = n" by (auto simp: given_back_def)
      then have "n \<in> part_name ` set ?us"
        using b unjoined_part [of u "sr_broken ?r"] by (auto simp: broken_in_def image_UN)
      then show ?thesis using out by auto
    next
      case passed
      then show ?thesis using out by auto
    qed
  qed
  show ?thesis using out listed any by (auto simp: analyze_volume_sets_def Let_def)
qed

text \<open>
  C6. A multi-volume archive that lost a volume is answered for. If a volume of a byte-split set could not be
  read, or was read and not held, then every volume of that set that was read gets a verdict, and each
  verdict given for one is unscannable: none of them is judged by the bytes that happened to arrive.
\<close>

theorem lost_volume_answered:
  assumes "deep_analysis_max opts < 2 ^ 64 - 1"
    and "n \<in> set names" "splits_bytes n" "fetch n \<noteq> None"
    and "n' \<in> set names" "splits_bytes n'" "fetch n' = None \<or> n' \<in> set (sr_passed (read_parts opts fetch names))"
    and "set_key (volume_set_name n') = set_key (volume_set_name n)"
  shows "n \<in> part_name ` set (analyze_volume_sets e opts fetch names) \<and>
    (\<forall>x \<in> set (analyze_volume_sets e opts fetch names). part_name x = n \<longrightarrow> (\<exists>w. set_report x = report_unscannable w []))"
proof -
  have "broken_in (read_parts opts fetch names) n'"
    using assms(5-7) read_parts_ok [of fetch names "set_reader_new opts"]
    by (auto simp: read_parts_def reads_ok_def set_reader_new_def split: prod.splits)
  then have b: "broken_in (read_parts opts fetch names) n" using assms(8) by (simp add: broken_in_def)
  moreover obtain d where "(n, d) \<in> set (part_reads fetch names)" using assms(2-4) by (auto simp: part_reads_iff)
  ultimately show ?thesis
    using volume_sets_entries [OF assms(1), of e fetch names] by (auto simp: entry_ok_def broken_in_def)
qed

lemma seven_zip_parts:
  "volume_parse ''big.7z.001'' = Some \<lparr>stem = ''big'', index = 0, scheme = NumberedSuffix ''7z'' 3\<rparr>"
  "volume_parse ''big.7z.002'' = Some \<lparr>stem = ''big'', index = 1, scheme = NumberedSuffix ''7z'' 3\<rparr>"
  by (subst volume_parse_numbered; simp add: digit_char_def alnum_char_def char_lower_def decimal_val_def)+

theorem lost_volume_answered_witness:
  "let out = analyze_volume_sets (zip_analyses []) plain_options [''big.7z.001'' \<mapsto> [7]] [''big.7z.001'', ''big.7z.002''] in
   ''big.7z.001'' \<in> part_name ` set out \<and>
   (\<forall>x \<in> set out. part_name x = ''big.7z.001'' \<longrightarrow> (\<exists>w. set_report x = report_unscannable w []))"
  unfolding Let_def
  by (rule lost_volume_answered [where n' = "''big.7z.002''"])
     (simp_all add: splits_bytes_def volume_set_name_def seven_zip_parts)

text \<open>
  C29. Every other verdict on a volume is that of the archive it belongs to: the scan of two or more
  volumes of one set, each as it was read, put together from the first on without a gap.
\<close>

theorem volume_verdict_whole:
  assumes "deep_analysis_max opts < 2 ^ 64 - 1" and "x \<in> set (analyze_volume_sets e opts fetch names)"
    and "\<nexists>w. set_report x = report_unscannable w []"
  shows "\<exists>ps. 2 \<le> length ps \<and> part_name x \<in> fst ` set ps \<and> set_report x = analyze e opts (concat (map snd ps)) \<and>
    (\<forall>i < length ps. fetch (fst (ps ! i)) = Some (snd (ps ! i)) \<and>
       (\<exists>v. volume_parse (fst (ps ! i)) = Some v \<and> index v = i) \<and>
       set_key (volume_set_name (fst (ps ! i))) = set_key (set_of x))"
proof -
  let ?r = "read_parts opts fetch names" and ?f = "collector_finish (sr_collector (read_parts opts fetch names))"
  have unjoined: "x \<notin> set (unjoined_entries (sr_broken ?r) u)" for u
    using assms(3) by (auto simp: unjoined_entries_def Let_def split: option.splits)
  let ?js = "concat (map (joined_entries e opts (sr_broken ?r)) (joined ?f))"
  let ?us = "concat (map (unjoined_entries (sr_broken ?r)) (unjoined ?f))"
  have "x \<in> set (passed_entries (?js @ ?us) (sr_passed ?r))"
    using assms(2) by (simp add: analyze_volume_sets_def Let_def split: if_splits)
  from passed_entries_old [OF this assms(3)] have "x \<in> set (concat (map (joined_entries e opts (sr_broken ?r)) (joined ?f)))"
    using unjoined by simp
  then obtain j where j: "j \<in> set (joined ?f)" "x \<in> set (joined_entries e opts (sr_broken ?r) j)" by auto
  obtain pss out where g: "given ?r (part_reads fetch names) pss out" using read_parts_given [OF assms(1)] by blast
  then obtain ps where ps: "ps \<in> set pss" "joins ps j" using given_joined(1) j(1) by blast
  have x: "part_name x \<in> set (j_parts j)" "set_of x = j_name j" "set_report x = analyze e opts (j_data j)"
    using j(2) assms(3) by (auto simp: joined_entries_def Let_def split: option.splits)
  have read: "fetch (fst (ps ! i)) = Some (snd (ps ! i))" if "i < length ps" for i
  proof -
    have "(fst (ps ! i), snd (ps ! i)) \<in> set (part_reads fetch names)"
      using given_set [OF g] ps(1) that by force
    then show ?thesis by (simp only: part_reads_iff)
  qed
  have "set_key (volume_set_name (fst (ps ! i))) = set_key (set_of x)" if "i < length ps" for i
    using joins_key [OF ps(2), of "fst (ps ! i)"] ps(2) that x(2) by (simp add: joins_def)
  then show ?thesis
    using ps(2) x read by (intro exI [of _ ps]) (auto simp: joins_def)
qed

lemma seven_zip_set:
  "\<lparr>part_name = ''big.7z.001'', set_of = ''big.7z'', set_report = analyze (zip_analyses []) plain_options [0, 7]\<rparr>
     \<in> set (analyze_volume_sets (zip_analyses []) plain_options [''big.7z.001'' \<mapsto> [0], ''big.7z.002'' \<mapsto> [7]]
              [''big.7z.002'', ''big.7z.001''])"
  by (simp add: analyze_volume_sets_def read_parts_def read_part_def set_reader_new_def splits_bytes_def seven_zip_parts
      offer_def collector_new_def same_set_as_def eq_ignore_ascii_case_def collector_finish_def finish_set_def set_name_def
      joined_entries_def Let_def)

theorem volume_verdict_whole_witness:
  "\<exists>ps. 2 \<le> length ps \<and> ''big.7z.001'' \<in> fst ` set ps \<and>
     analyze (zip_analyses []) plain_options [0, 7] = analyze (zip_analyses []) plain_options (concat (map snd ps))"
proof -
  let ?r = "analyze (zip_analyses []) plain_options [0, 7]"
  have "?r \<noteq> report_unscannable w []" for w
    using deep_infected arg_cong [of ?r "report_unscannable w []" verdict] by (auto simp: analyze_def report_unscannable_def)
  then have "\<nexists>w. set_report \<lparr>part_name = ''big.7z.001'', set_of = ''big.7z'', set_report = ?r\<rparr> = report_unscannable w []"
    by simp
  from volume_verdict_whole [OF _ seven_zip_set this]
  obtain ps where "2 \<le> length ps" "''big.7z.001'' \<in> fst ` set ps" "?r = analyze (zip_analyses []) plain_options (concat (map snd ps))"
    unfolding volume_set_verdict.select_convs plain_options_fields by auto
  then show ?thesis by blast
qed

section \<open>Sets whose format joins its volumes\<close>

text \<open>The verdict of one set on its own.\<close>

definition split_report ::
  "analyses \<Rightarrow> scan_options \<Rightarrow> volume_tools \<Rightarrow> (string \<Rightarrow> bytes option) \<Rightarrow> volume_set \<Rightarrow> scan_report \<Rightarrow> bool" where
  "split_report e opts tools fetch vs report \<longleftrightarrow>
     (case those (map fetch (vs_parts vs)) of
        Some data \<Rightarrow>
          if vs_broken vs = None \<and> sum_list (map length data) \<le> deep_analysis_max opts
          then (case join_set e opts tools (vs_kind vs) data of
                  Inr r \<Rightarrow> report = r
                | Inl err \<Rightarrow> report = report_unscannable (NOT_REJOINED @ err) [])
          else \<exists>w. report = report_unscannable w []
      | None \<Rightarrow> \<exists>w. report = report_unscannable w [])"

lemma hold_parts_total: "hold_parts mx fetch ps data h = (lost, data', h') \<Longrightarrow>
    h' + sum_list (map length data) = h + sum_list (map length data')"
proof (induction ps arbitrary: data h)
  case (Cons p ps)
  show ?case
  proof (cases "fetch p")
    case (Some d)
    then show ?thesis using Cons.prems Cons.IH [of "data @ [d]" "h + length d"] by (auto split: if_splits)
  qed (use Cons.prems in auto)
qed simp

lemma hold_parts_lost:
  assumes "mx < 2 ^ 64 - 1" "hold_parts mx fetch ps data h = (lost, data', h')"
  shows "case those (map fetch ps) of
      Some ds \<Rightarrow> if h + sum_list (map length ds) \<le> mx \<or> ps = [] then lost = None \<and> data' = data @ ds else lost \<noteq> None
    | None \<Rightarrow> lost \<noteq> None"
  using assms(2)
proof (induction ps arbitrary: data h)
  case (Cons p ps)
  show ?case
  proof (cases "fetch p")
    case None
    then show ?thesis using Cons.prems by auto
  next
    case (Some d)
    show ?thesis
    proof (cases "mx < min (2 ^ 64 - 1) (h + length d)")
      case True
      then show ?thesis using Cons.prems Some by (auto split: option.splits)
    next
      case False
      then have le: "h + length d \<le> mx" using assms(1) by (auto simp: min_def split: if_splits)
      have "hold_parts mx fetch ps (data @ [d]) (h + length d) = (lost, data', h')"
        using Cons.prems Some False by (simp split: if_splits)
      from Cons.IH [OF this] show ?thesis using Some le
        by (cases "those (map fetch ps)") (auto split: if_splits)
    qed
  qed
qed simp

lemma hold_parts_alone:
  assumes "mx < 2 ^ 64 - 1" "hold_parts mx fetch ps [] 0 = (lost, data, h)"
  shows "h - sum_list (map length data) = 0"
    and "case those (map fetch ps) of
      Some ds \<Rightarrow> if sum_list (map length ds) \<le> mx then lost = None \<and> data = ds else lost \<noteq> None
    | None \<Rightarrow> lost \<noteq> None"
  using hold_parts_total [OF assms(2)] hold_parts_lost [OF assms]
  by (auto split: option.splits if_splits)

lemma scan_sets_alone:
  assumes "deep_analysis_max opts < 2 ^ 64 - 1"
  shows "\<exists>reports. list_all2 (split_report e opts tools fetch) sets reports \<and>
    scan_sets e opts tools fetch sets 0 = concat (map2 set_entries sets reports)"
proof (induction sets)
  case (Cons vs sets)
  then obtain rs where rs: "list_all2 (split_report e opts tools fetch) sets rs"
    "scan_sets e opts tools fetch sets 0 = concat (map2 set_entries sets rs)" by blast
  have "\<exists>r. split_report e opts tools fetch vs r \<and>
    scan_sets e opts tools fetch (vs # sets) 0 = set_entries vs r @ scan_sets e opts tools fetch sets 0"
  proof (cases "vs_broken vs")
    case (Some w)
    then show ?thesis
      by (intro exI [of _ "report_unscannable w []"]) (auto simp: split_report_def split: option.splits)
  next
    case None
    obtain lost data h where hold: "hold_parts (deep_analysis_max opts) fetch (vs_parts vs) [] 0 = (lost, data, h)"
      by (metis prod_cases3)
    note alone = hold_parts_alone [OF assms hold]
    define r where "r = (case lost of Some w \<Rightarrow> report_unscannable w []
      | None \<Rightarrow> (case join_set e opts tools (vs_kind vs) data of Inr r \<Rightarrow> r
                 | Inl err \<Rightarrow> report_unscannable (NOT_REJOINED @ err) []))"
    have "split_report e opts tools fetch vs r"
      using alone(2) None unfolding split_report_def r_def by (auto split: option.splits if_splits sum.splits)
    moreover have "scan_sets e opts tools fetch (vs # sets) 0 = set_entries vs r @ scan_sets e opts tools fetch sets 0"
      using None hold alone(1) by (simp add: r_def Let_def)
    ultimately show ?thesis by blast
  qed
  then obtain r where "split_report e opts tools fetch vs r"
    "scan_sets e opts tools fetch (vs # sets) 0 = set_entries vs r @ scan_sets e opts tools fetch sets 0" by blast
  then show ?case using rs by (intro exI [of _ "r # rs"]) simp
qed simp

text \<open>
  C30. Each set that a format joins is judged on its own. Every volume of every set gets one verdict, that
  of its set: the scan of the volumes put together by the format if the names or the headers leave
  no gap, every volume can be read and they fit together in what one object may hold; and unscannable
  otherwise. What other sets hold or lose makes no difference.
\<close>

theorem split_sets_independent:
  assumes "deep_analysis_max opts < 2 ^ 64 - 1"
  shows "\<exists>reports. list_all2 (split_report e opts tools (\<lambda>n. fetch n None)) (split_sets tools fetch names) reports \<and>
    analyze_split_sets e opts tools fetch names = concat (map2 set_entries (split_sets tools fetch names) reports)"
  unfolding analyze_split_sets_def by (rule scan_sets_alone [OF assms])

theorem split_sets_independent_witness:
  "\<exists>reports. list_all2 (split_report (zip_analyses []) plain_options
       \<lparr>tool_cab_links = \<lambda>_. None, tool_join_rar = \<lambda>ds. Inr (concat ds), tool_join_cab = \<lambda>_. Inl [], tool_zip_span = \<lambda>_. Inl []\<rparr>
       (\<lambda>_. Some [7]))
     (split_sets \<lparr>tool_cab_links = \<lambda>_. None, tool_join_rar = \<lambda>ds. Inr (concat ds), tool_join_cab = \<lambda>_. Inl [], tool_zip_span = \<lambda>_. Inl []\<rparr>
       (\<lambda>_ _. Some [7]) [''x.part1.rar'', ''x.part2.rar'']) reports"
  using split_sets_independent [of plain_options "zip_analyses []"
      "\<lparr>tool_cab_links = \<lambda>_. None, tool_join_rar = \<lambda>ds. Inr (concat ds), tool_join_cab = \<lambda>_. Inl [], tool_zip_span = \<lambda>_. Inl []\<rparr>"
      "\<lambda>_ _. Some [7]" "[''x.part1.rar'', ''x.part2.rar'']"]
  by (auto simp: plain_options_fields)

end
