(* ===== verification/Spec2Isabelle.thy ===== *)
theory Spec2Isabelle
  imports Logic_Roundtrip Emu_NoPanic Emu_Stack Emu_Arith Emu_Shift Emu_Rep Emu_Run_Props Spill Icap_Roundtrip Dlp_Props
    Volume_Props Scan_Report_Props Scan_Policy_Props Scan_Silent Scan_Entry_Props Scan_Sets_Props
begin

text \<open>
  A verification development for \<^verbatim>\<open>exav\<close>, a set of memory-safe tools for untrusted files written in
  Rust: a malware scanner with a daemon and an ICAP server, an archive extractor, and viewers. The
  paths below are under \<^verbatim>\<open>src/crates/\<close>.

  \<^bold>\<open>The program.\<close> A file reaches the scanner from the command line (\<^verbatim>\<open>exav/src/main.rs\<close>), a daemon
  socket (\<^verbatim>\<open>exav/src/daemon.rs\<close>) or an ICAP body (\<^verbatim>\<open>exav/src/icap\<close>). It is read through a \<^verbatim>\<open>ByteSource\<close>
  (\<^verbatim>\<open>exav-unpack/src/source.rs\<close>), in memory, on disk under the spill budget (\<^verbatim>\<open>exav/src/spill.rs\<close>), or in
  blocks through a cache. The scan walk (\<^verbatim>\<open>exav-core/src/lib.rs\<close>) types it, matches it against the
  databases, opens it if it is a container, and scans every member, everything carved from it and
  everything unpacked from it the same way. A packed executable is run in an emulator
  (\<^verbatim>\<open>exav-pe-emu/src\<close>) that dumps the program it unpacks. The outcome of the walk becomes a report, the
  report a line of output, a reply of the daemon and an exit code, under a policy for partial results
  (\<^verbatim>\<open>exav/src/policy.rs\<close>). The rule the parts share is that what was not fully examined is never
  reported clean; the theorems about the walk, the report, the replies and the exit code together say
  how far it holds.

  \<^bold>\<open>Conventions.\<close> A struct is a record, an enum a datatype, a fixed-width integer of the emulated
  processor and of the logical signatures a word; lengths and budgets are naturals, saturated where the
  code saturates. A panic, an error and an early return are values. A field or argument named after
  code that is not modelled (a database, a decoder, an API table) is a parameter.

  \<^bold>\<open>Logical signatures\<close> (\<^verbatim>\<open>exav-core/src/engine/logic.rs\<close>). \<open>Logic_Expr\<close>: expressions, their evaluation and
  the two tests that prune them, sound for every completion of the unknown counts, with the one
  saturated comparison where a test is wrong. \<open>Logic_Parse\<close>, \<open>Logic_Roundtrip\<close>: the recursive-descent parser
  with its nesting limit, fuel proved enough (six times the length of the text and three), and a
  printer it inverts.

  \<^bold>\<open>The emulator\<close> (\<^verbatim>\<open>exav-pe-emu/src\<close>). \<open>Emu_Mem\<close>, \<open>Emu_Mem_Spec\<close>, \<open>Emu_Mem_Props\<close>: paged memory with its
  page index, write stamps and last-page cache (\<^verbatim>\<open>mem.rs\<close>), refining a partial map from addresses to
  bytes. \<open>Emu_Cpu\<close>, \<open>Emu_Exec\<close>, \<open>Emu_String\<close>, \<open>Emu_Simd\<close>, \<open>Emu_X87\<close>: registers, operands, flags and every
  instruction arm of \<^verbatim>\<open>cpu.rs\<close>. \<open>Emu_Step\<close>: fetching, the decode cache and one step. \<open>Emu_Frame\<close>: the
  cache is invisible, for any decoder that looks only at the bytes of the instruction it returns.
  \<open>Emu_NoPanic\<close>: no instruction panics. \<open>Emu_Stack\<close>, \<open>Emu_Alu\<close>, \<open>Emu_Arith\<close>, \<open>Emu_Shift\<close>, \<open>Emu_Rep\<close>: what groups
  of instructions compute. \<open>Emu_Image\<close>, \<open>Emu_Image_Props\<close>: parsing and mapping an image and writing the
  dump (\<^verbatim>\<open>image.rs\<close>). \<open>Emu_Seh\<close>, \<open>Emu_Seh_Props\<close>: dispatch and return of structured exceptions.
  \<open>Emu_Run\<close>, \<open>Emu_Run_Props\<close>: the driver (\<^verbatim>\<open>run.rs\<close>) that runs the program, notices code that was written
  and then executed, and dumps it; it never panics and it ends, within twice the
  instruction budget and two turns.

  \<^bold>\<open>Input\<close>. \<open>Source\<close>, \<open>Source_Props\<close>, \<open>Source_Cache\<close>: byte sources, the search that steps over a source in
  windows, and the block cache over a file, equivalent to the bytes themselves while reads succeed
  and honest when they fail. \<open>Spill\<close>: files written to disk under one budget, over every interleaving of
  the operations of any number of objects. \<open>Icap_Chunked\<close>, \<open>Icap_Chunked_Props\<close>, \<open>Icap_Decode\<close>,
  \<open>Icap_Roundtrip\<close>: chunked bodies decoded as they arrive, however the bytes are split, against a
  grammar of such bodies. \<open>Exav_Text\<close>, \<open>Volume\<close>, \<open>Volume_Props\<close>: names of multi-volume archives and the
  collector that holds and rejoins their parts (\<^verbatim>\<open>exav-unpack/src/volume.rs\<close>).

  \<^bold>\<open>The scan walk\<close> (\<^verbatim>\<open>exav-core/src/lib.rs\<close>, with the driver of a container in \<^verbatim>\<open>exav-unpack/src/stream.rs\<close>).
  \<open>Dlp\<close>, \<open>Dlp_Props\<close>: card and social-security numbers. \<open>Scan_Types\<close>: types, formats and the tables between
  them. \<open>Scan_Verdict\<close>: verdicts, marks, the budget, and \<^verbatim>\<open>report_of_outcome\<close>. \<open>Scan_Env\<close>: options, sink, the
  state of a walk, and the record \<open>analyses\<close> of everything it calls. \<open>Scan_Core\<close>: the checks of one
  object. \<open>Scan_Walk\<close>: the members of a container and what text carries. \<open>Scan_Object\<close>: archives, files,
  carving, and the recursion: \<open>scan_level n\<close> is \<^verbatim>\<open>scan_object\<close> with \<open>n\<close> levels of objects below it, and a
  scan starts with one level more than the recursion limit, which \<open>levels_enough\<close> shows is never used up.
  \<open>Scan_Entry\<close>: the entry points around the walk, which read the input at once or through the block cache
  and answer with one verdict or with every detection. \<open>Scan_Sets\<close>: the volumes of an archive that was split
  by bytes or by its format, joined, scanned once, and answered for one by one.
  Two ghost fields of the state record every cause for which something was not scanned and every
  detection taken; they decide nothing. A cause is recorded where it is met, apart from the marks,
  notes and outcomes with which the code answers it, so a walk that forgot its answer would keep the
  record. Two things are recorded apart because the code answers neither: what lies below an object at
  the recursion limit, and what was met in a carved candidate that is dismissed as no archive.
  \<open>Scan_Judge\<close> defines the judgement each
  operation keeps between its outcome and the states around it, and proves it for the checks of one
  object; \<open>Scan_Members\<close>, \<open>Scan_Walk_Props\<close> and \<open>Scan_Honest\<close> prove it for members, containers and files and
  by induction for every level. \<open>Scan_Sample\<close> evaluates the walk on concrete files, and \<open>Scan_Silent\<close>
  holds what follows for the report: never silently clean, no detection downgraded, nothing ignored
  reported, and a place where the walk does less than it means to. \<open>Scan_Entry_Props\<close>: a clean report
  stands for the whole input, a list of detections is as honest, and a source without a length is not.
  \<open>Scan_Sets_Props\<close>: a lost volume is answered for, every volume has the verdict of its archive, and the
  archives of one scan do not disturb each other.

  \<^bold>\<open>Reports\<close>. \<open>Scan_Policy\<close>, \<open>Scan_Policy_Props\<close>: the policy for partial results and the switch lists.
  \<open>Scan_Report\<close>, \<open>Scan_Report_Props\<close>: output lines, counts, exit codes, the replies of the daemon and how
  the client reads them back.

  \<^bold>\<open>Not modelled\<close>. The pattern matchers (the signature engine, its regular expressions, YARA, bytecode),
  the databases and their loaders, the magic tables and the analyses of content are parameters of the
  walk: each is a subsystem of its own, and the walk relies on none of their results being right, only
  on the marks they leave. The decoders of the container formats are one parameter, a list of what a
  decoder does in turn; the driver around them is modelled. The instruction decoder, generated from
  tables, and the table of Windows functions are parameters of the emulator. Threads, sockets, the
  directory walk, argument parsing and updates are input and output around the modelled parts. The
  viewers and bindings decide no verdict. Time limits are left out: a deadline is a stop like the
  others, at an arbitrary point.
\<close>

end
